(* ===== verification/FM_Prelude.thy ===== *)
theory FM_Prelude
  imports Main "HOL-Library.Word"
begin

text \<open>
  Prelude of the fabric manager development: the machine types of the C code, the
  status codes and the two kinds of failure the models distinguish (a status the C code
  returns, and an access the C language leaves undefined), the C integer conversions,
  and the generic lemmas on lists and words that the component theories share.
\<close>

unbundle bit_operations_syntax

section \<open>Machine types\<close>

type_synonym u8 = "8 word"
type_synonym u16 = "16 word"
type_synonym u32 = "32 word"
type_synonym u64 = "64 word"

text \<open>
  An undefined C access, an \<open>assert\<close> that fails, or an item linked into a container twice, is a value of its own: a model that meets one returns
  \<open>Inl\<close> of it, so that no theorem can silently rely on what an out-of-range read
  delivers.
\<close>

datatype c_error = OutOfBounds | NullDeref | UseAfterFree | AssertFailed | LinkedTwice | DivisionByZero

type_synonym 'a c_result = "c_error + 'a"

text \<open>The status codes of \<^verbatim>\<open>ib_status.h\<close> that the modelled code returns or tests.\<close>

datatype Status_t =
    VSTATUS_OK | VSTATUS_BAD | VSTATUS_MISMATCH | VSTATUS_ILLPARM | VSTATUS_NOMEM
  | VSTATUS_TIMEOUT | VSTATUS_CONDITIONAL | VSTATUS_NOT_FOUND | VSTATUS_NOT_MASTER
  | VSTATUS_AGAIN | VSTATUS_KNOWN | VSTATUS_IGNORE | VSTATUS_REJECT | VSTATUS_NORESOURCE

text \<open>
  \<open>size_t\<close> counters are natural numbers whose increment and decrement wrap at 64 bits,
  and a 32-bit unsigned value returned as \<open>int\<close> is reduced to two's complement.
\<close>

definition size_inc :: "nat \<Rightarrow> nat" where
  "size_inc n = (n + 1) mod 2 ^ 64"

definition size_dec :: "nat \<Rightarrow> nat" where
  "size_dec n = (n + 2 ^ 64 - 1) mod 2 ^ 64"

definition int_of_u32 :: "nat \<Rightarrow> int" where
  "int_of_u32 n = (let m = n mod 2 ^ 32 in if m < 2 ^ 31 then int m else int m - 2 ^ 32)"

named_theorems c_int_simps

lemma size_inc_small [c_int_simps]: "n < 2 ^ 63 \<Longrightarrow> size_inc n = Suc n"
  by (simp add: size_inc_def)

lemma size_dec_small [c_int_simps]: "0 < n \<Longrightarrow> n < 2 ^ 63 \<Longrightarrow> size_dec n = n - 1"
proof -
  assume "0 < n" "n < 2 ^ 63"
  then have "(n + 2 ^ 64 - 1) = (n - 1) + 2 ^ 64" by simp
  moreover have "n - 1 < 2 ^ 64" using \<open>n < 2 ^ 63\<close> by simp
  ultimately show ?thesis unfolding size_dec_def by (simp only: mod_add_self2 mod_less)
qed

lemma size_dec_0: "size_dec 0 = 2 ^ 64 - 1"
  by (simp add: size_dec_def)

lemma int_of_u32_small [c_int_simps]: "n < 2 ^ 31 \<Longrightarrow> int_of_u32 n = int n"
  by (simp add: int_of_u32_def)

text \<open>Code equations over \<open>int\<close>, whose numerals are binary, so that ground terms evaluate.\<close>

lemma size_inc_code [code]: "size_inc n = nat ((int n + 1) mod 18446744073709551616)"
proof -
  have "int ((n + 1) mod 2 ^ 64) = (int n + 1) mod 18446744073709551616" by (simp add: zmod_int add.commute)
  then show ?thesis unfolding size_inc_def by (metis nat_int)
qed

lemma size_dec_code [code]: "size_dec n = nat ((int n + 18446744073709551615) mod 18446744073709551616)"
proof -
  have "int ((n + 18446744073709551615) mod 2 ^ 64) = (int n + 18446744073709551615) mod 18446744073709551616"
    by (simp add: zmod_int)
  moreover have "n + 2 ^ 64 - 1 = n + 18446744073709551615" by simp
  ultimately show ?thesis unfolding size_dec_def by (metis nat_int)
qed

lemma int_of_u32_code [code]:
  "int_of_u32 n = (let m = int n mod 4294967296 in if m < 2147483648 then m else m - 4294967296)"
proof -
  have "int (n mod 2 ^ 32) = int n mod 4294967296" by (simp add: zmod_int)
  moreover have "n mod 2 ^ 32 < 2 ^ 31 \<longleftrightarrow> int (n mod 2 ^ 32) < 2147483648" by simp
  ultimately show ?thesis unfolding int_of_u32_def Let_def by simp
qed

section \<open>Words\<close>

text \<open>The C idiom \<open>w & (1 << j)\<close>.\<close>

definition word_bit :: "nat \<Rightarrow> 'a::len word" where
  "word_bit j = push_bit j 1"

lemma bit_word_bit [simp]: "bit (word_bit j :: 'a::len word) i \<longleftrightarrow> i = j \<and> j < LENGTH('a)"
  by (auto simp: word_bit_def bit_exp_iff)

lemma and_word_bit: "w AND word_bit j \<noteq> 0 \<longleftrightarrow> bit w j" for w :: "'a::len word"
proof
  assume "w AND word_bit j \<noteq> 0"
  then obtain n where "bit (w AND word_bit j) n" using bit_eqI[of "w AND word_bit j" 0] by auto
  then show "bit w j" by (auto simp: bit_and_iff)
next
  assume "bit w j"
  then have "bit (w AND word_bit j) j" by (simp add: bit_and_iff bit_imp_le_length)
  then show "w AND word_bit j \<noteq> 0" by auto
qed

lemma and_word_bit_0: "w AND word_bit j = 0 \<longleftrightarrow> \<not> bit w j" for w :: "'a::len word"
  using and_word_bit by blast

lemma bit_or_word_bit: "j < LENGTH('a) \<Longrightarrow> bit (w OR word_bit j) i \<longleftrightarrow> bit w i \<or> i = j"
  for w :: "'a::len word"
  by (auto simp: bit_or_iff)

lemma bit_xor_word_bit: "bit w j \<Longrightarrow> bit (w XOR word_bit j) i \<longleftrightarrow> bit w i \<and> i \<noteq> j"
  for w :: "'a::len word"
  by (auto simp: bit_xor_iff dest: bit_imp_le_length)

section \<open>Lists\<close>

lemma find_upt_Some:
  "List.find P [a..<b] = Some r \<longleftrightarrow> a \<le> r \<and> r < b \<and> P r \<and> (\<forall>k. a \<le> k \<and> k < r \<longrightarrow> \<not> P k)"
proof (induction "b - a" arbitrary: a)
  case 0
  then show ?case by auto
next
  case (Suc n)
  then have "a < b" by simp
  then have step: "List.find P [a..<b] = (if P a then Some a else List.find P [Suc a..<b])"
    by (simp add: upt_conv_Cons)
  have IH: "List.find P [Suc a..<b] = Some r \<longleftrightarrow>
      Suc a \<le> r \<and> r < b \<and> P r \<and> (\<forall>k. Suc a \<le> k \<and> k < r \<longrightarrow> \<not> P k)"
    using Suc by simp
  show ?case
  proof (cases "P a")
    case True
    then show ?thesis using step \<open>a < b\<close> by (auto simp: le_less)
  next
    case False
    have "(\<forall>k. a \<le> k \<and> k < r \<longrightarrow> \<not> P k) \<longleftrightarrow> (\<forall>k. Suc a \<le> k \<and> k < r \<longrightarrow> \<not> P k)"
      using False by (metis Suc_le_eq le_less)
    moreover have "P r \<Longrightarrow> a \<le> r \<longleftrightarrow> Suc a \<le> r"
      using False by (auto simp: Suc_le_eq le_less)
    ultimately show ?thesis using step False IH by auto
  qed
qed

lemma find_upt_None: "List.find P [a..<b] = None \<longleftrightarrow> (\<forall>k. a \<le> k \<and> k < b \<longrightarrow> \<not> P k)"
  by (auto simp: find_None_iff)

text \<open>\<open>is_least P a n r\<close>: \<open>r\<close> is the least index of \<open>[a, n)\<close> with \<open>P\<close>.\<close>

definition is_least :: "(nat \<Rightarrow> bool) \<Rightarrow> nat \<Rightarrow> nat \<Rightarrow> nat \<Rightarrow> bool" where
  "is_least P a n r \<longleftrightarrow> a \<le> r \<and> r < n \<and> P r \<and> (\<forall>k. a \<le> k \<and> k < r \<longrightarrow> \<not> P k)"

lemma is_least_skip:
  assumes "a \<le> b" "\<And>k. a \<le> k \<Longrightarrow> k < b \<Longrightarrow> \<not> P k"
  shows "is_least P a n r \<longleftrightarrow> is_least P b n r"
proof -
  have "P r \<Longrightarrow> a \<le> r \<longleftrightarrow> b \<le> r" using assms by (meson le_trans not_le)
  moreover have "(\<forall>k. a \<le> k \<and> k < r \<longrightarrow> \<not> P k) \<longleftrightarrow> (\<forall>k. b \<le> k \<and> k < r \<longrightarrow> \<not> P k)"
    using assms by (meson le_trans not_le)
  ultimately show ?thesis unfolding is_least_def by blast
qed

lemma is_least_here:
  assumes "a \<le> b" "b < n" "P b" "\<And>k. a \<le> k \<Longrightarrow> k < b \<Longrightarrow> \<not> P k"
  shows "is_least P a n r \<longleftrightarrow> r = b"
  unfolding is_least_def using assms by (metis linorder_neqE_nat)

lemma is_least_ex: "(\<exists>r. is_least P a n r) \<longleftrightarrow> (\<exists>k. a \<le> k \<and> k < n \<and> P k)"
proof
  assume "\<exists>k. a \<le> k \<and> k < n \<and> P k"
  then obtain k where k: "a \<le> k \<and> k < n \<and> P k" by blast
  define r where "r = (LEAST k. a \<le> k \<and> k < n \<and> P k)"
  have "a \<le> r \<and> r < n \<and> P r" unfolding r_def using k by (rule LeastI[where P = "\<lambda>k. a \<le> k \<and> k < n \<and> P k"])
  moreover have "\<not> P j" if "a \<le> j" "j < r" for j
    using not_less_Least[of j "\<lambda>k. a \<le> k \<and> k < n \<and> P k"] that \<open>a \<le> r \<and> r < n \<and> P r\<close>
    unfolding r_def by auto
  ultimately show "\<exists>r. is_least P a n r" unfolding is_least_def by blast
qed (auto simp: is_least_def)

lemma length_filter_upt_upd:
  assumes "i < n" "\<And>k. k \<noteq> i \<Longrightarrow> Q k = P k"
  shows "length (filter Q [0..<n]) + (if P i then 1 else 0) = length (filter P [0..<n]) + (if Q i then 1 else 0)"
  using assms(1)
proof (induction n)
  case 0
  then show ?case by simp
next
  case (Suc n)
  show ?case
  proof (cases "i = n")
    case True
    then have "filter Q [0..<n] = filter P [0..<n]"
      by (intro filter_cong) (auto simp: assms(2))
    then show ?thesis using True by simp
  next
    case False
    with Suc have "i < n" by simp
    with Suc.IH False assms(2)[of n] show ?thesis by auto
  qed
qed

lemma length_filter_upt_le: "length (filter P [0..<n]) \<le> n"
  using length_filter_le[of P "[0..<n]"] by simp

lemma length_filter_upt_pos: "i < n \<Longrightarrow> P i \<Longrightarrow> 0 < length (filter P [0..<n])"
  by (auto simp: filter_empty_conv)

lemma filter_upt_extend:
  "(\<And>k. m \<le> k \<Longrightarrow> k < n \<Longrightarrow> \<not> P k) \<Longrightarrow> m \<le> n \<Longrightarrow> filter P [0..<n] = filter P [0..<m]"
proof -
  assume a: "\<And>k. m \<le> k \<Longrightarrow> k < n \<Longrightarrow> \<not> P k" and "m \<le> n"
  then have "[0..<n] = [0..<m] @ [m..<n]" by (metis le0 le_add_diff_inverse upt_add_eq_append)
  moreover have "filter P [m..<n] = []" using a by (auto simp: filter_empty_conv)
  ultimately show ?thesis by simp
qed

lemma unat_u32_less: "unat (x :: u32) < 2 ^ 32"
  using unsigned_less[of x] by simp

lemma unat_of_nat_u32: "n < 2 ^ 32 \<Longrightarrow> unat (of_nat n :: u32) = n"
  by (simp add: unat_of_nat)

lemma unat_pos_u32: "(x :: u32) \<noteq> 0 \<Longrightarrow> 0 < unat x"
  by (simp add: unat_gt_0)

section \<open>Invariants of step relations\<close>

text \<open>
  The interface of a state machine with an invariant: every step keeps it, hence every
  reachable state has it.
\<close>

locale invariant_step =
  fixes step :: "'s \<Rightarrow> 's \<Rightarrow> bool"
    and inv :: "'s \<Rightarrow> bool"
  assumes inv_step: "inv s \<Longrightarrow> step s s' \<Longrightarrow> inv s'"
begin

lemma inv_reach: "rtranclp step s s' \<Longrightarrow> inv s \<Longrightarrow> inv s'"
  by (induction rule: rtranclp_induct) (auto intro: inv_step)

end

end
