(* ===== verification/SmLidTable.thy ===== *)
theory SmLidTable
  imports FM_Prelude
begin

text \<open>
  The assignment of unicast LIDs: the table that says which port GUID owns a LID (\<^verbatim>\<open>lidmap\<close>), the map from
  port GUIDs to their base LIDs (\<^verbatim>\<open>sm_GuidToLidMap\<close>), the search for free ranges with its hints
  (\<^verbatim>\<open>sm_utility.c\<close>) and the pass over all end ports in \<^verbatim>\<open>topology_resolve\<close> (\<^verbatim>\<open>sm_topology.c\<close>). A port with
  LMC \<open>m\<close> has the \<open>2 ^ m\<close> LIDs from its base LID on. Nodes and ports are told apart by numbers.
\<close>

section \<open>Data\<close>

definition UNICAST_LID_MAX :: nat where
  "UNICAST_LID_MAX = 0xBFFF"

definition UNICAST_LID_MIN :: nat where
  "UNICAST_LID_MIN = 1"

definition RESERVED_LID :: nat where
  "RESERVED_LID = 0"

definition PERMISSIVE_LID :: nat where
  "PERMISSIVE_LID = 0xFFFF"

definition STL_LID_PERMISSIVE :: nat where
  "STL_LID_PERMISSIVE = 0xFFFFFFFF"

record LidMap_t =
  lm_guid :: u64
  lm_pass :: u32
  lm_newNodep :: "nat option"
  lm_newPortp :: "nat option"

record lid_cfg =
  cfg_lmc :: nat
  cfg_lmc_e0 :: nat
  topo_lid_offset :: nat

text \<open>The hints are -1 when no LIDs were left. The map is the list of its keys and base LIDs.\<close>

record lid_state =
  ls_map :: "nat \<Rightarrow> LidMap_t"
  ls_index :: "(u64 \<times> nat) list"
  lmc_0_freeLid_hint :: int
  lmc_e0_freeLid_hint :: int
  lmc_freeLid_hint :: int
  topology_passcount :: u32

record PortLid =
  pl_id :: nat
  pl_node :: nat
  pl_is_switch :: bool
  pl_enhancedPort0 :: bool
  pl_guid :: u64
  pl_lid :: nat
  pl_lmc :: nat
  pl_valid :: bool
  pl_state :: u8
  pl_peer :: "nat option"

abbreviation owner_of :: "lid_state \<Rightarrow> nat \<Rightarrow> u64" where
  "owner_of st lid \<equiv> lm_guid (ls_map st lid)"

definition set_owner :: "PortLid \<Rightarrow> nat \<Rightarrow> lid_state \<Rightarrow> lid_state" where
  "set_owner p lid st = st\<lparr>ls_map := (ls_map st)(lid :=
     \<lparr>lm_guid = pl_guid p, lm_pass = topology_passcount st + 1, lm_newNodep = Some (pl_node p), lm_newPortp = Some (pl_id p)\<rparr>)\<rparr>"

definition clear_owner :: "nat \<Rightarrow> lid_state \<Rightarrow> lid_state" where
  "clear_owner lid st = st\<lparr>ls_map := (ls_map st)(lid := \<lparr>lm_guid = 0, lm_pass = 0, lm_newNodep = None, lm_newPortp = None\<rparr>)\<rparr>"

text \<open>
  The map entry is a part of the table entry of the base LID. Linking an entry that is already in the
  map under another key would destroy the tree.
\<close>

definition index_insert :: "u64 \<Rightarrow> nat \<Rightarrow> lid_state \<Rightarrow> lid_state c_result" where
  "index_insert g lid st =
     (case map_of (ls_index st) g of
        Some _ \<Rightarrow> Inr st
      | None \<Rightarrow> if lid \<in> snd ` set (ls_index st) then Inl LinkedTwice else Inr (st\<lparr>ls_index := (g, lid) # ls_index st\<rparr>))"

definition index_remove :: "u64 \<Rightarrow> lid_state \<Rightarrow> lid_state" where
  "index_remove g st = st\<lparr>ls_index := filter (\<lambda>(k, _). k \<noteq> g) (ls_index st)\<rparr>"

section \<open>Keeping a LID\<close>

definition clear_step :: "PortLid \<Rightarrow> nat \<Rightarrow> lid_state \<Rightarrow> lid_state" where
  "clear_step p lid st =
     (if owner_of st lid = pl_guid p
      then let m = (ls_map st)(lid := (ls_map st lid)\<lparr>lm_guid := 0, lm_pass := 0\<rparr>)
           in st\<lparr>ls_map := m(pl_lid p := (m (pl_lid p))\<lparr>lm_newNodep := None, lm_newPortp := None\<rparr>)\<rparr>
      else st)"

definition sm_clear_lid :: "lid_state \<Rightarrow> PortLid \<Rightarrow> lid_state \<times> PortLid" where
  "sm_clear_lid st p =
     (index_remove (pl_guid p)
        (fold (clear_step p) (filter (\<lambda>lid. lid \<le> UNICAST_LID_MAX) [pl_lid p..<pl_lid p + 2 ^ pl_lmc p]) st),
      p\<lparr>pl_lid := RESERVED_LID, pl_lmc := 0\<rparr>)"

text \<open>The loop that takes the free LIDs of a range; \<open>False\<close> at a LID of another port.\<close>

fun claim_range :: "PortLid \<Rightarrow> nat list \<Rightarrow> lid_state \<Rightarrow> bool \<times> lid_state" where
  "claim_range p [] st = (True, st)"
| "claim_range p (lid # lids) st =
     (if owner_of st lid = 0 then claim_range p lids (set_owner p lid st)
      else if owner_of st lid \<noteq> pl_guid p then (False, st)
      else claim_range p lids st)"

definition clear_extra :: "PortLid \<Rightarrow> nat \<Rightarrow> lid_state \<Rightarrow> lid_state" where
  "clear_extra p lid st = (if owner_of st lid = pl_guid p then clear_owner lid st else st)"

definition sm_check_lid :: "lid_cfg \<Rightarrow> lid_state \<Rightarrow> PortLid \<Rightarrow> nat \<Rightarrow> (nat \<times> lid_state \<times> PortLid) c_result" where
  "sm_check_lid cfg st p newLmc =
     (let lid = pl_lid p; newDelta = 2 ^ newLmc; oldDelta = 2 ^ pl_lmc p;
          cleared = (\<lambda>st. Inr (RESERVED_LID, sm_clear_lid st p))
      in if lid < UNICAST_LID_MIN \<or> lid > UNICAST_LID_MAX then Inr (RESERVED_LID, st, p)
         else if newLmc = 0 \<and> pl_lmc p = 0 \<and> topo_lid_offset cfg > 1 \<and>
           (lid mod topo_lid_offset cfg \<noteq> 0 \<or> owner_of st lid \<noteq> pl_guid p) then cleared st
         else if lid mod newDelta \<noteq> 0 then cleared st
         else if lid + newDelta > UNICAST_LID_MAX + 1 then cleared st
         else case claim_range p [lid..<lid + newDelta] st of
                (False, st1) \<Rightarrow> cleared st1
              | (True, st1) \<Rightarrow>
                  if pl_lmc p > newLmc \<and> lid + oldDelta > UNICAST_LID_MAX + 1 then Inl OutOfBounds
                  else let st2 = (if pl_lmc p > newLmc then fold (clear_extra p) [lid + newDelta..<lid + oldDelta] st1 else st1)
                       in case index_insert (pl_guid p) lid st2 of
                            Inl e \<Rightarrow> Inl e
                          | Inr st3 \<Rightarrow> Inr (lid, st3, p\<lparr>pl_lmc := newLmc\<rparr>))"

section \<open>Finding a LID\<close>

text \<open>
  The hint a search starts from, \<open>None\<close> when it says that no LIDs are left. A count that fits no hint starts at 0.
\<close>

definition start_hint :: "lid_cfg \<Rightarrow> lid_state \<Rightarrow> nat \<Rightarrow> nat option" where
  "start_hint cfg st lid_count =
     (let from = (\<lambda>hint. if hint = -1 then None else Some (nat hint)) in
      if lid_count = 1 then from (lmc_0_freeLid_hint st)
      else if lid_count = 2 ^ cfg_lmc cfg then from (lmc_freeLid_hint st)
      else if lid_count = 2 ^ cfg_lmc_e0 cfg then from (lmc_e0_freeLid_hint st)
      else Some RESERVED_LID)"

definition reset_hints :: "nat \<Rightarrow> lid_state \<Rightarrow> lid_state" where
  "reset_hints lid1 st =
     st\<lparr>lmc_0_freeLid_hint := (if int lid1 = lmc_0_freeLid_hint st then 0 else lmc_0_freeLid_hint st),
        lmc_e0_freeLid_hint := (if int lid1 = lmc_e0_freeLid_hint st then 0 else lmc_e0_freeLid_hint st),
        lmc_freeLid_hint := (if int lid1 = lmc_freeLid_hint st then 0 else lmc_freeLid_hint st)\<rparr>"

text \<open>A gap that is too small is noted where a hint is missing.\<close>

definition note_space :: "lid_cfg \<Rightarrow> nat \<Rightarrow> nat \<Rightarrow> lid_state \<Rightarrow> lid_state" where
  "note_space cfg freeSpace lid1 st =
     st\<lparr>lmc_0_freeLid_hint := (if freeSpace \<ge> 1 \<and> lmc_0_freeLid_hint st = 0 then int lid1 else lmc_0_freeLid_hint st),
        lmc_e0_freeLid_hint := (if freeSpace \<ge> 2 ^ cfg_lmc_e0 cfg \<and> lmc_e0_freeLid_hint st = 0 then int lid1 else lmc_e0_freeLid_hint st),
        lmc_freeLid_hint := (if freeSpace \<ge> 2 ^ cfg_lmc cfg \<and> lmc_freeLid_hint st = 0 then int lid1 else lmc_freeLid_hint st)\<rparr>"

definition taken_after :: "lid_state \<Rightarrow> nat \<Rightarrow> nat \<Rightarrow> nat option" where
  "taken_after st lid1 lid_count = List.find (\<lambda>lid2. owner_of st lid2 \<noteq> 0) [lid1 + 1..<lid1 + lid_count]"

fun quick_scan :: "lid_cfg \<Rightarrow> nat \<Rightarrow> nat list \<Rightarrow> lid_state \<Rightarrow> nat \<times> lid_state" where
  "quick_scan cfg lid_count [] st = (0, st)"
| "quick_scan cfg lid_count (lid1 # lids) st =
     (if owner_of st lid1 = 0
      then case taken_after st lid1 lid_count of
             None \<Rightarrow> (lid1, st)
           | Some lid2 \<Rightarrow> quick_scan cfg lid_count lids (note_space cfg (lid2 - lid1) lid1 st)
      else quick_scan cfg lid_count lids st)"

text \<open>The values of \<open>lid1\<close> in a loop that goes up in steps of the count while the range stays in the table.\<close>

definition range_starts :: "nat \<Rightarrow> nat \<Rightarrow> nat list" where
  "range_starts lid1 lid_count = map (\<lambda>k. lid1 + k * lid_count) [0..<(UNICAST_LID_MAX + 1 - lid1) div lid_count]"

definition align_up :: "nat \<Rightarrow> nat \<Rightarrow> nat" where
  "align_up lid lmc = (if lmc \<noteq> 0 \<and> lid mod 2 ^ lmc \<noteq> 0 then (lid div 2 ^ lmc + 1) * 2 ^ lmc else lid)"

definition no_space :: "lid_state \<Rightarrow> lid_state" where
  "no_space st =
     st\<lparr>lmc_0_freeLid_hint := (if lmc_0_freeLid_hint st = 0 then -1 else lmc_0_freeLid_hint st),
        lmc_e0_freeLid_hint := (if lmc_e0_freeLid_hint st = 0 then -1 else lmc_e0_freeLid_hint st),
        lmc_freeLid_hint := (if lmc_freeLid_hint st = 0 then -1 else lmc_freeLid_hint st)\<rparr>"

definition next_hints :: "lid_cfg \<Rightarrow> nat \<Rightarrow> nat \<Rightarrow> lid_state \<Rightarrow> lid_state" where
  "next_hints cfg lid_count lid2 st =
     (let hint = (\<lambda>lid. if lid + lid_count \<le> UNICAST_LID_MAX + 1 then int lid else -1);
          st1 = (if lmc_0_freeLid_hint st = 0 then st\<lparr>lmc_0_freeLid_hint := hint lid2\<rparr> else st);
          lid_e0 = (if lmc_e0_freeLid_hint st = 0 then align_up lid2 (cfg_lmc_e0 cfg) else lid2);
          st2 = (if lmc_e0_freeLid_hint st = 0 then st1\<lparr>lmc_e0_freeLid_hint := hint lid_e0\<rparr> else st1)
      in if lmc_freeLid_hint st = 0 then st2\<lparr>lmc_freeLid_hint := hint (align_up lid_e0 (cfg_lmc cfg))\<rparr> else st2)"

definition sm_find_lid_quick :: "lid_cfg \<Rightarrow> nat \<Rightarrow> lid_state \<Rightarrow> nat \<times> lid_state" where
  "sm_find_lid_quick cfg lid_count st =
     (case start_hint cfg st lid_count of
        None \<Rightarrow> (RESERVED_LID, st)
      | Some lid1 \<Rightarrow>
          (case quick_scan cfg lid_count (range_starts lid1 lid_count) (reset_hints lid1 st) of
             (freeLid, st1) \<Rightarrow>
               if freeLid = 0 then (RESERVED_LID, no_space st1)
               else (freeLid, next_hints cfg lid_count (freeLid + lid_count) st1)))"

text \<open>
  The search over the whole space. Its end is computed from the LMC alone, so that with a LID spacing
  it may look past the end of the table.
\<close>

fun full_scan :: "lid_state \<Rightarrow> nat \<Rightarrow> nat list \<Rightarrow> nat c_result" where
  "full_scan st delta [] = Inr RESERVED_LID"
| "full_scan st delta (lid1 # lids) =
     (if owner_of st lid1 = 0
      then case taken_after st lid1 delta of
             None \<Rightarrow> if lid1 + delta > UNICAST_LID_MAX + 1 then Inl OutOfBounds else Inr lid1
           | Some lid2 \<Rightarrow> if lid2 > UNICAST_LID_MAX then Inl OutOfBounds else full_scan st delta lids
      else full_scan st delta lids)"

text \<open>The LIDs that the map remembers for a port: \<open>Inr True\<close> if its range is big enough.\<close>

definition remembered :: "lid_state \<Rightarrow> PortLid \<Rightarrow> nat \<Rightarrow> nat \<Rightarrow> nat option c_result" where
  "remembered st p lid1 delta =
     (case List.find (\<lambda>lid2. lid2 > UNICAST_LID_MAX \<or> owner_of st lid2 \<noteq> pl_guid p \<and> owner_of st lid2 \<noteq> 0) [lid1 + 1..<lid1 + delta] of
        None \<Rightarrow> Inr None
      | Some lid2 \<Rightarrow> if lid2 > UNICAST_LID_MAX then Inl OutOfBounds else Inr (Some lid2))"

text \<open>
  The first part of \<open>sm_set_lid\<close>. When the range is too small, the loop that should clear the port's own
  entries clears the entry \<open>lid2\<close> of the other port instead.
\<close>

definition recall_lid :: "lid_state \<Rightarrow> PortLid \<Rightarrow> nat \<Rightarrow> (nat option \<times> lid_state) c_result" where
  "recall_lid st p delta =
     (case map_of (ls_index st) (pl_guid p) of
        None \<Rightarrow> Inr (None, st)
      | Some lid1 \<Rightarrow>
          (case remembered st p lid1 delta of
             Inl e \<Rightarrow> Inl e
           | Inr None \<Rightarrow> Inr (Some lid1, st)
           | Inr (Some lid2) \<Rightarrow> Inr (None, index_remove (pl_guid p) (fold (\<lambda>_. clear_owner lid2) [lid1..<lid2] st))))"

definition new_lid :: "lid_cfg \<Rightarrow> lid_state \<Rightarrow> nat \<Rightarrow> nat \<Rightarrow> (nat \<times> lid_state) c_result" where
  "new_lid cfg st delta lmc =
     (case sm_find_lid_quick cfg delta st of
        (lid1, st1) \<Rightarrow>
          if lid1 \<noteq> RESERVED_LID then Inr (lid1, st1)
          else map_sum id (\<lambda>lid. (lid, st1))
            (full_scan st1 delta (map (\<lambda>k. delta * (k + 1)) [0..<(UNICAST_LID_MAX + 1 - 2 ^ lmc) div delta])))"

definition lid_delta :: "lid_cfg \<Rightarrow> nat \<Rightarrow> nat" where
  "lid_delta cfg lmc = (if lmc = 0 \<and> topo_lid_offset cfg > 1 then topo_lid_offset cfg else 2 ^ lmc)"

definition take_lid :: "PortLid \<Rightarrow> nat \<Rightarrow> nat \<Rightarrow> nat \<Rightarrow> lid_state \<Rightarrow> (nat \<times> lid_state \<times> PortLid) c_result" where
  "take_lid p lmc delta lid1 st =
     (if lid1 + delta > UNICAST_LID_MAX + 1 then Inl OutOfBounds
      else Inr (lid1, fold (set_owner p) [lid1..<lid1 + delta] st, p\<lparr>pl_lid := lid1, pl_lmc := lmc\<rparr>))"

definition sm_set_lid :: "lid_cfg \<Rightarrow> lid_state \<Rightarrow> PortLid \<Rightarrow> nat \<Rightarrow> (nat \<times> lid_state \<times> PortLid) c_result" where
  "sm_set_lid cfg st p lmc =
     (let delta = lid_delta cfg lmc in
      case recall_lid st p delta of
        Inl e \<Rightarrow> Inl e
      | Inr (Some lid1, st1) \<Rightarrow> take_lid p lmc delta lid1 st1
      | Inr (None, st1) \<Rightarrow>
          (case new_lid cfg st1 delta lmc of
             Inl e \<Rightarrow> Inl e
           | Inr (lid1, st2) \<Rightarrow>
               if lid1 = RESERVED_LID then Inr (RESERVED_LID, st2, p)
               else case index_insert (pl_guid p) lid1 st2 of
                      Inl e \<Rightarrow> Inl e
                    | Inr st3 \<Rightarrow> take_lid p lmc delta lid1 st3))"

section \<open>LIDs found in the fabric\<close>

text \<open>
  What \<open>sm_setup_node\<close> does with the LID a port reports. The loop variable is a signed \<open>int\<close>; the test of the
  undo loop compares it as unsigned, so that for base LID 0 it runs below the table.
\<close>

definition claim_lids :: "PortLid \<Rightarrow> int list" where
  "claim_lids p = [int_of_u32 (pl_lid p)..int_of_u32 (pl_lid p + 2 ^ pl_lmc p) - 1]"

definition undo_claim :: "PortLid \<Rightarrow> nat \<Rightarrow> lid_state \<Rightarrow> lid_state c_result" where
  "undo_claim p lid st =
     (if pl_lid p = 0 then Inl OutOfBounds
      else Inr (index_remove (pl_guid p) (fold clear_owner (rev [pl_lid p..<lid]) st)))"

fun claim_reported :: "PortLid \<Rightarrow> int list \<Rightarrow> lid_state \<Rightarrow> (lid_state \<times> PortLid) c_result" where
  "claim_reported p [] st = Inr (st, p)"
| "claim_reported p (lid # lids) st =
     (if lid = int RESERVED_LID \<or> lid = int PERMISSIVE_LID \<or> lid = -1 then claim_reported p lids st
      else if lid < 0 \<or> lid > int UNICAST_LID_MAX then Inl OutOfBounds
      else if owner_of st (nat lid) = pl_guid p then claim_reported p lids (set_owner p (nat lid) st)
      else if owner_of st (nat lid) = 0
      then case index_insert (pl_guid p) (nat lid) (set_owner p (nat lid) st) of
             Inl e \<Rightarrow> Inl e
           | Inr st1 \<Rightarrow> claim_reported p lids st1
      else map_sum id (\<lambda>st1. (st1, p\<lparr>pl_lid := RESERVED_LID\<rparr>)) (undo_claim p (nat lid) st))"

text \<open>The ports in the order in which the discovery comes to them.\<close>

fun claim_ports :: "PortLid list \<Rightarrow> lid_state \<Rightarrow> (lid_state \<times> PortLid list) c_result" where
  "claim_ports [] st = Inr (st, [])"
| "claim_ports (p # ps) st =
     (case claim_reported p (claim_lids p) st of
        Inl e \<Rightarrow> Inl e
      | Inr (st1, p1) \<Rightarrow> map_sum id (\<lambda>(st2, ps2). (st2, p1 # ps2)) (claim_ports ps st1))"

section \<open>The pass over all end ports\<close>

record resolve_state =
  rs_lids :: lid_state
  rs_ports :: "PortLid list"
  topology_changed :: bool

definition temp_lmc :: "lid_cfg \<Rightarrow> PortLid \<Rightarrow> nat" where
  "temp_lmc cfg p = (if pl_is_switch p then (if pl_enhancedPort0 p then cfg_lmc_e0 cfg else 0) else cfg_lmc cfg)"

definition live :: "PortLid \<Rightarrow> bool" where
  "live p \<longleftrightarrow> pl_valid p \<and> pl_state p > 1"

definition no_lid :: "PortLid \<Rightarrow> bool" where
  "no_lid p \<longleftrightarrow> pl_lid p = RESERVED_LID \<or> pl_lid p = PERMISSIVE_LID \<or> pl_lid p = STL_LID_PERMISSIVE"

text \<open>Of a link that goes down only the states of its ends matter here.\<close>

definition port_down :: "nat \<Rightarrow> PortLid list \<Rightarrow> PortLid list" where
  "port_down k ps = (if k < length ps \<and> pl_state (ps ! k) > 1 then ps[k := (ps ! k)\<lparr>pl_state := 1\<rparr>] else ps)"

definition sm_mark_link_down :: "nat \<Rightarrow> PortLid list \<Rightarrow> PortLid list" where
  "sm_mark_link_down k ps =
     (case pl_peer (ps ! k) of None \<Rightarrow> port_down k ps | Some n \<Rightarrow> port_down n (port_down k ps))"

definition check_port :: "lid_cfg \<Rightarrow> nat \<Rightarrow> resolve_state \<Rightarrow> resolve_state c_result" where
  "check_port cfg k rs =
     (let p = rs_ports rs ! k in
      if \<not> live p then Inr rs
      else map_sum id (\<lambda>(lid, st, p'). rs\<lparr>rs_lids := st, rs_ports := (rs_ports rs)[k := p'\<lparr>pl_lid := lid\<rparr>]\<rparr>)
             (sm_check_lid cfg (rs_lids rs) p (temp_lmc cfg p)))"

definition assign_port :: "lid_cfg \<Rightarrow> nat \<Rightarrow> resolve_state \<Rightarrow> resolve_state c_result" where
  "assign_port cfg k rs =
     (let p = rs_ports rs ! k in
      if \<not> live p \<or> \<not> no_lid p then Inr rs
      else map_sum id (\<lambda>(lid, st, p'). let ps = (rs_ports rs)[k := p'] in
               rs\<lparr>rs_lids := st, rs_ports := (if lid = RESERVED_LID then sm_mark_link_down k ps else ps), topology_changed := True\<rparr>)
             (sm_set_lid cfg (rs_lids rs) p (temp_lmc cfg p)))"

fun for_ports :: "(nat \<Rightarrow> resolve_state \<Rightarrow> resolve_state c_result) \<Rightarrow> nat list \<Rightarrow> resolve_state \<Rightarrow> resolve_state c_result" where
  "for_ports f [] rs = Inr rs"
| "for_ports f (k # ks) rs = (case f k rs of Inl e \<Rightarrow> Inl e | Inr rs' \<Rightarrow> for_ports f ks rs')"

text \<open>The port of the subnet manager itself; it keeps its LID or gets one even when it is not master.\<close>

definition resolve_sm_port :: "lid_cfg \<Rightarrow> nat \<Rightarrow> resolve_state \<Rightarrow> (nat \<times> resolve_state) c_result" where
  "resolve_sm_port cfg k rs =
     (let p = rs_ports rs ! k in
      case sm_check_lid cfg (rs_lids rs) p (temp_lmc cfg p) of
        Inl e \<Rightarrow> Inl e
      | Inr (lid, st1, p1) \<Rightarrow>
          if lid \<noteq> RESERVED_LID then Inr (lid, rs\<lparr>rs_lids := st1, rs_ports := (rs_ports rs)[k := p1]\<rparr>)
          else map_sum id (\<lambda>(lid2, st2, p2). (lid2, rs\<lparr>rs_lids := st2, rs_ports := (rs_ports rs)[k := p2], topology_changed := True\<rparr>))
                 (sm_set_lid cfg st1 p1 (temp_lmc cfg p)))"

definition max_lid :: "PortLid list \<Rightarrow> nat" where
  "max_lid ps = fold (\<lambda>p m. if live p \<and> \<not> no_lid p then max m (pl_lid p + 2 ^ pl_lmc p - 1) else m) ps 0"

text \<open>The status, the LID of the subnet manager, the greatest LID, and the state.\<close>

definition topology_resolve :: "lid_cfg \<Rightarrow> bool \<Rightarrow> nat \<Rightarrow> resolve_state \<Rightarrow> (Status_t \<times> nat \<times> nat \<times> resolve_state) c_result" where
  "topology_resolve cfg master smPort rs =
     (if \<not> (smPort < length (rs_ports rs) \<and> pl_valid (rs_ports rs ! smPort)) then Inr (VSTATUS_BAD, 0, 0, rs)
      else case resolve_sm_port cfg smPort rs of
             Inl e \<Rightarrow> Inl e
           | Inr (smLid, rs1) \<Rightarrow>
               if \<not> master then Inr (VSTATUS_BAD, smLid, 0, rs1)
               else let ks = [0..<length (rs_ports rs1)] in
                 (case for_ports (check_port cfg) ks rs1 of
                    Inl e \<Rightarrow> Inl e
                  | Inr rs2 \<Rightarrow>
                      (case for_ports (assign_port cfg) ks rs2 of
                         Inl e \<Rightarrow> Inl e
                       | Inr rs3 \<Rightarrow> Inr (VSTATUS_OK, smLid, max_lid (rs_ports rs3), rs3))))"

text \<open>The cleared table and map and the first hints, as at start-up and when the manager leaves the master state.\<close>

definition reset_lids :: "lid_cfg \<Rightarrow> lid_state \<Rightarrow> lid_state" where
  "reset_lids cfg st =
     st\<lparr>ls_index := [], ls_map := (\<lambda>_. \<lparr>lm_guid = 0, lm_pass = 0, lm_newNodep = None, lm_newPortp = None\<rparr>),
        lmc_e0_freeLid_hint := 2 ^ cfg_lmc_e0 cfg, lmc_freeLid_hint := 2 ^ cfg_lmc cfg, lmc_0_freeLid_hint := 1\<rparr>"

section \<open>What an operation for one port may change\<close>

text \<open>
  The LIDs of other ports stay with them; LIDs that are free or the port's own stay so; and the map keeps
  the entries of the others.
\<close>

definition touches :: "u64 \<Rightarrow> lid_state \<Rightarrow> lid_state \<Rightarrow> bool" where
  "touches g st st' \<longleftrightarrow> (\<forall>l. if owner_of st l \<in> {0, g} then owner_of st' l \<in> {0, g} else owner_of st' l = owner_of st l) \<and>
     filter (\<lambda>(k, _). k \<noteq> g) (ls_index st') = filter (\<lambda>(k, _). k \<noteq> g) (ls_index st)"

lemma touches_refl [simp]: "touches g st st"
  by (simp add: touches_def)

lemma touches_trans: "touches g st st' \<Longrightarrow> touches g st' st'' \<Longrightarrow> touches g st st''"
  unfolding touches_def by (metis insertCI)

lemma touchesD: "touches g st st' \<Longrightarrow> owner_of st l \<notin> {0, g} \<Longrightarrow> owner_of st' l = owner_of st l"
  by (auto simp: touches_def split: if_splits)

lemma touches_set_owner: "owner_of st l \<in> {0, pl_guid p} \<Longrightarrow> touches (pl_guid p) st (set_owner p l st)"
  by (auto simp: touches_def set_owner_def)

lemma touches_clear_owner: "owner_of st l \<in> {0, g} \<Longrightarrow> touches g st (clear_owner l st)"
  by (auto simp: touches_def clear_owner_def)

lemma touches_clear_step: "touches (pl_guid p) st (clear_step p l st)"
  by (auto simp: touches_def clear_step_def Let_def)

lemma touches_clear_extra: "touches (pl_guid p) st (clear_extra p l st)"
  by (auto simp: touches_def clear_extra_def clear_owner_def)

lemma touches_fold: "(\<And>l st. touches g st (f l st)) \<Longrightarrow> touches g st (fold f ls st)"
  by (induction ls arbitrary: st) (auto intro: touches_trans)

lemma touches_index_remove: "touches g st (index_remove g st)"
  by (simp add: touches_def index_remove_def)

lemma touches_index_insert: "index_insert g l st = Inr st' \<Longrightarrow> touches g st st'"
  by (auto simp: index_insert_def touches_def split: option.splits if_splits)

lemmas touches_intros = touches_set_owner touches_clear_owner touches_clear_step touches_clear_extra touches_index_remove touches_index_insert

lemma fold_keeps: "(\<And>l st. h (f l st) = h st) \<Longrightarrow> h (fold f ls st) = h st"
  by (induction ls arbitrary: st) auto

section \<open>Checking a LID\<close>

abbreviation lid_in_range :: "nat \<Rightarrow> bool" where
  "lid_in_range lid \<equiv> UNICAST_LID_MIN \<le> lid \<and> lid \<le> UNICAST_LID_MAX"

definition owns :: "lid_state \<Rightarrow> PortLid \<Rightarrow> bool" where
  "owns st p \<longleftrightarrow> UNICAST_LID_MIN \<le> pl_lid p \<and> pl_lid p + 2 ^ pl_lmc p \<le> UNICAST_LID_MAX + 1 \<and>
     list_all (\<lambda>l. owner_of st l = pl_guid p) [pl_lid p..<pl_lid p + 2 ^ pl_lmc p]"

lemma owns_touches: "owns st p \<Longrightarrow> touches g st st' \<Longrightarrow> pl_guid p \<noteq> g \<Longrightarrow> pl_guid p \<noteq> 0 \<Longrightarrow> owns st' p"
  unfolding owns_def list_all_iff by (metis touchesD insertE singletonD)

text \<open>Every entry of the map is the base LID of a range of its GUID.\<close>

definition index_ok :: "lid_state \<Rightarrow> bool" where
  "index_ok st \<longleftrightarrow> distinct (map fst (ls_index st)) \<and>
     (\<forall>(g, l)\<in>set (ls_index st). g \<noteq> 0 \<and> lid_in_range l \<and> owner_of st l = g)"

lemma index_okD: "index_ok st \<Longrightarrow> map_of (ls_index st) g = Some l \<Longrightarrow> g \<noteq> 0 \<and> lid_in_range l \<and> owner_of st l = g"
  by (auto simp: index_ok_def dest: map_of_SomeD)

lemma index_insert_ok:
  assumes "index_ok st" "owner_of st l = 0 \<or> owner_of st l = g"
  shows "index_insert g l st = Inr (case map_of (ls_index st) g of Some _ \<Rightarrow> st | None \<Rightarrow> st\<lparr>ls_index := (g, l) # ls_index st\<rparr>)"
proof (cases "map_of (ls_index st) g")
  case None
  have "l \<notin> snd ` set (ls_index st)"
  proof
    assume "l \<in> snd ` set (ls_index st)"
    then obtain k where k: "(k, l) \<in> set (ls_index st)" by auto
    then have "k \<noteq> 0" "owner_of st l = k" using assms(1) by (auto simp: index_ok_def)
    then have "(g, l) \<in> set (ls_index st)" using assms(2) k by auto
    then show False using None by (metis map_of_eq_None_iff image_eqI fst_conv)
  qed
  then show ?thesis using None by (simp add: index_insert_def)
qed (simp add: index_insert_def)

lemma index_ok_touches:
  assumes "index_ok st" "touches g st st'" "distinct (map fst (ls_index st'))"
    "\<And>l. (g, l) \<in> set (ls_index st') \<Longrightarrow> g \<noteq> 0 \<and> lid_in_range l \<and> owner_of st' l = g"
  shows "index_ok st'"
proof -
  have "k \<noteq> 0 \<and> lid_in_range l \<and> owner_of st' l = k" if "(k, l) \<in> set (ls_index st')" for k l
  proof (cases "k = g")
    case True
    then show ?thesis using assms(4) that by simp
  next
    case False
    have "set (filter (\<lambda>(k, _). k \<noteq> g) (ls_index st')) = set (filter (\<lambda>(k, _). k \<noteq> g) (ls_index st))" using assms(2) by (simp add: touches_def)
    then have "(k, l) \<in> set (ls_index st)" using that False by fastforce
    then have "k \<noteq> 0" "lid_in_range l" "owner_of st l = k" using assms(1) by (auto simp: index_ok_def)
    then show ?thesis using touchesD[OF assms(2), of l] False by auto
  qed
  then show ?thesis using assms(3) by (auto simp: index_ok_def)
qed

lemma distinct_filter_fst: "distinct (map fst xs) \<Longrightarrow> distinct (map fst (filter P xs))"
  by (induction xs) auto

lemma sm_clear_lid_result:
  assumes "sm_clear_lid st p = (st', p')"
  shows "touches (pl_guid p) st st'" "p' = p\<lparr>pl_lid := 0, pl_lmc := 0\<rparr>" "map_of (ls_index st') (pl_guid p) = None"
    "index_ok st \<Longrightarrow> index_ok st'"
proof -
  let ?f = "fold (clear_step p) (filter (\<lambda>lid. lid \<le> UNICAST_LID_MAX) [pl_lid p..<pl_lid p + 2 ^ pl_lmc p]) st"
  have s: "st' = index_remove (pl_guid p) ?f" "p' = p\<lparr>pl_lid := 0, pl_lmc := 0\<rparr>"
    using assms by (auto simp: sm_clear_lid_def RESERVED_LID_def)
  show p': "p' = p\<lparr>pl_lid := 0, pl_lmc := 0\<rparr>" by (rule s(2))
  show t: "touches (pl_guid p) st st'" unfolding s(1)
    by (rule touches_trans[OF touches_fold touches_index_remove]) (rule touches_clear_step)
  have k: "ls_index ?f = ls_index st" by (rule fold_keeps) (simp add: clear_step_def Let_def)
  show n: "map_of (ls_index st') (pl_guid p) = None" by (auto simp: s(1) index_remove_def map_of_eq_None_iff)
  show "index_ok st'" if "index_ok st"
  proof (rule index_ok_touches[OF that t])
    show "distinct (map fst (ls_index st'))" using that by (simp add: s(1) index_remove_def k distinct_filter_fst index_ok_def)
    fix l assume "(pl_guid p, l) \<in> set (ls_index st')"
    then show "pl_guid p \<noteq> 0 \<and> lid_in_range l \<and> owner_of st' l = pl_guid p" by (simp add: s(1) index_remove_def)
  qed
qed

lemma claim_range_result:
  assumes "claim_range p ls st = (b, st')"
  shows "touches (pl_guid p) st st' \<and> ls_index st' = ls_index st \<and> (\<forall>l. owner_of st l = pl_guid p \<longrightarrow> owner_of st' l = pl_guid p) \<and>
    (b \<longrightarrow> (\<forall>l\<in>set ls. owner_of st' l = pl_guid p))"
  using assms
proof (induction ls arbitrary: st)
  case (Cons l ls)
  consider "owner_of st l = 0" | "owner_of st l \<noteq> 0" "owner_of st l = pl_guid p" | "owner_of st l \<noteq> 0" "owner_of st l \<noteq> pl_guid p" by blast
  then show ?case
  proof cases
    case 1
    have o: "owner_of (set_owner p l st) x = (if x = l then pl_guid p else owner_of st x)" for x by (simp add: set_owner_def)
    have i: "ls_index (set_owner p l st) = ls_index st" by (simp add: set_owner_def)
    have "touches (pl_guid p) st (set_owner p l st)" using 1 by (simp add: touches_set_owner)
    then show ?thesis using Cons.IH[of "set_owner p l st"] Cons.prems 1 o i by (auto intro: touches_trans)
  qed (use Cons in auto)
qed simp

lemma clear_extra_result:
  assumes "\<forall>l\<in>set ls. l \<notin> K"
  shows "touches (pl_guid p) st (fold (clear_extra p) ls st) \<and> ls_index (fold (clear_extra p) ls st) = ls_index st \<and>
    (\<forall>l\<in>K. owner_of (fold (clear_extra p) ls st) l = owner_of st l)"
proof -
  have "\<forall>l\<in>K. owner_of (fold (clear_extra p) ls st) l = owner_of st l" using assms
    by (induction ls arbitrary: st) (auto simp: clear_extra_def clear_owner_def)
  moreover have "ls_index (fold (clear_extra p) ls st) = ls_index st" by (rule fold_keeps) (simp add: clear_extra_def clear_owner_def)
  ultimately show ?thesis by (simp add: touches_fold touches_clear_extra)
qed

text \<open>The two ways in which the map stays right: the port's own entry still has its owner, or it is new.\<close>

lemma index_ok_same:
  assumes "index_ok st" "touches g st s" "ls_index s = ls_index st" "\<forall>l. map_of (ls_index st) g = Some l \<longrightarrow> owner_of s l = g"
  shows "index_ok s"
proof (rule index_ok_touches[OF assms(1,2)])
  show d: "distinct (map fst (ls_index s))" using assms(1,3) by (simp add: index_ok_def)
  fix l assume "(g, l) \<in> set (ls_index s)"
  then have m: "map_of (ls_index st) g = Some l" using d assms(3) by simp
  then show "g \<noteq> 0 \<and> lid_in_range l \<and> owner_of s l = g" using index_okD[OF assms(1) m] assms(4) by blast
qed

lemma index_ok_insert:
  assumes "index_ok st" "g \<noteq> 0" "owner_of st l = g" "lid_in_range l" "map_of (ls_index st) g \<in> {None, Some l}"
  obtains s where "index_insert g l st = Inr s" "touches g st s" "index_ok s" "map_of (ls_index s) g = Some l" "ls_map s = ls_map st"
proof -
  define s where "s = (case map_of (ls_index st) g of Some _ \<Rightarrow> st | None \<Rightarrow> st\<lparr>ls_index := (g, l) # ls_index st\<rparr>)"
  have ins: "index_insert g l st = Inr s" using index_insert_ok[OF assms(1)] assms(3) by (simp add: s_def)
  have m: "map_of (ls_index s) g = Some l" "ls_map s = ls_map st" using assms(5) by (auto simp: s_def split: option.splits)
  have "index_ok s"
  proof (rule index_ok_touches[OF assms(1) touches_index_insert[OF ins]])
    show d: "distinct (map fst (ls_index s))" using assms(1) by (auto simp: s_def index_ok_def map_of_eq_None_iff split: option.splits)
    fix k assume "(g, k) \<in> set (ls_index s)"
    then have "k = l" using d m(1) by simp
    then show "g \<noteq> 0 \<and> lid_in_range k \<and> owner_of s k = g" using m(2) assms(2-4) by simp
  qed
  then show thesis using that ins touches_index_insert[OF ins] m by blast
qed

text \<open>The part of the check after the LIDs of the range were taken.\<close>

lemma kept_lids:
  assumes "index_ok st" "pl_guid p \<noteq> 0" "lid_in_range (pl_lid p)" "map_of (ls_index st) (pl_guid p) \<in> {None, Some (pl_lid p)}"
    "\<forall>l\<in>{pl_lid p..<pl_lid p + 2 ^ newLmc}. owner_of st l = pl_guid p"
    "s = (if pl_lmc p > newLmc then fold (clear_extra p) [pl_lid p + 2 ^ newLmc..<pl_lid p + 2 ^ pl_lmc p] st else st)"
  obtains s' where "index_insert (pl_guid p) (pl_lid p) s = Inr s'" "touches (pl_guid p) st s'" "index_ok s'"
    "map_of (ls_index s') (pl_guid p) = Some (pl_lid p)" "\<forall>l\<in>{pl_lid p..<pl_lid p + 2 ^ newLmc}. owner_of s' l = pl_guid p"
proof -
  let ?K = "{pl_lid p..<pl_lid p + 2 ^ newLmc}"
  have k: "\<forall>l\<in>set [pl_lid p + 2 ^ newLmc..<pl_lid p + 2 ^ pl_lmc p]. l \<notin> ?K" by simp
  have s: "touches (pl_guid p) st s" "ls_index s = ls_index st" "\<forall>l\<in>?K. owner_of s l = pl_guid p"
    using clear_extra_result[OF k, of p st] assms(5,6) by auto
  have own: "owner_of s (pl_lid p) = pl_guid p" using s(3) by simp
  have "index_ok s" by (rule index_ok_same[OF assms(1) s(1,2)]) (use assms(4) own in auto)
  then obtain s' where i: "index_insert (pl_guid p) (pl_lid p) s = Inr s'" "touches (pl_guid p) s s'" "index_ok s'"
      "map_of (ls_index s') (pl_guid p) = Some (pl_lid p)" "ls_map s' = ls_map s"
    using index_ok_insert[OF _ assms(2) own assms(3)] assms(4) s(2) by metis
  show thesis using that[OF i(1) touches_trans[OF s(1) i(2)] i(3,4)] s(3) i(5) by simp
qed

text \<open>The check as a case distinction: not looked at, given up, or kept.\<close>

lemma sm_check_lid_cases:
  assumes "index_ok st" "pl_guid p \<noteq> 0" "lid_in_range (pl_lid p) \<longrightarrow> map_of (ls_index st) (pl_guid p) \<in> {None, Some (pl_lid p)}"
    "lid_in_range (pl_lid p) \<and> pl_lmc p > newLmc \<longrightarrow> pl_lid p + 2 ^ pl_lmc p \<le> UNICAST_LID_MAX + 1"
  obtains (unset) "\<not> lid_in_range (pl_lid p)" "sm_check_lid cfg st p newLmc = Inr (0, st, p)"
    | (cleared) st' where "lid_in_range (pl_lid p)" "sm_check_lid cfg st p newLmc = Inr (0, st', p\<lparr>pl_lid := 0, pl_lmc := 0\<rparr>)"
        "touches (pl_guid p) st st'" "index_ok st'" "map_of (ls_index st') (pl_guid p) = None"
    | (kept) st' where "lid_in_range (pl_lid p)" "sm_check_lid cfg st p newLmc = Inr (pl_lid p, st', p\<lparr>pl_lmc := newLmc\<rparr>)"
        "touches (pl_guid p) st st'" "index_ok st'" "map_of (ls_index st') (pl_guid p) = Some (pl_lid p)" "owns st' (p\<lparr>pl_lmc := newLmc\<rparr>)"
        "2 ^ newLmc dvd pl_lid p"
proof -
  let ?lid = "pl_lid p" and ?g = "pl_guid p" and ?new = "2 ^ newLmc :: nat"
  have clr: thesis if "lid_in_range ?lid" "touches ?g st s" "index_ok s" "sm_check_lid cfg st p newLmc = Inr (RESERVED_LID, sm_clear_lid s p)" for s
  proof -
    obtain s' p' where "sm_clear_lid s p = (s', p')" by force
    note r = sm_clear_lid_result[OF this]
    show thesis using cleared[of s'] that r touches_trans[OF that(2) r(1)] \<open>sm_clear_lid s p = (s', p')\<close> by (simp add: RESERVED_LID_def)
  qed
  obtain b s1 where c: "claim_range p [?lid..<?lid + ?new] st = (b, s1)" by force
  note c1 = claim_range_result[OF c]
  have i1: "index_ok s1" by (rule index_ok_same[OF assms(1)]) (use c1 index_okD[OF assms(1)] in auto)
  consider (out) "\<not> lid_in_range ?lid" | (bad) "lid_in_range ?lid" "newLmc = 0 \<and> pl_lmc p = 0 \<and> topo_lid_offset cfg > 1 \<and>
        (?lid mod topo_lid_offset cfg \<noteq> 0 \<or> owner_of st ?lid \<noteq> ?g) \<or> ?lid mod ?new \<noteq> 0 \<or> ?lid + ?new > UNICAST_LID_MAX + 1"
    | (go) "lid_in_range ?lid" "\<not> (newLmc = 0 \<and> pl_lmc p = 0 \<and> topo_lid_offset cfg > 1 \<and>
        (?lid mod topo_lid_offset cfg \<noteq> 0 \<or> owner_of st ?lid \<noteq> ?g) \<or> ?lid mod ?new \<noteq> 0 \<or> ?lid + ?new > UNICAST_LID_MAX + 1)" by blast
  then show thesis
  proof cases
    case out
    then show thesis using unset by (auto simp: sm_check_lid_def RESERVED_LID_def)
  next
    case bad
    then have "sm_check_lid cfg st p newLmc = Inr (RESERVED_LID, sm_clear_lid st p)" by (auto simp: sm_check_lid_def Let_def)
    then show thesis using clr[of st] bad(1) assms(1) by simp
  next
    case go
    show thesis
    proof (cases b)
      case False
      then have "sm_check_lid cfg st p newLmc = Inr (RESERVED_LID, sm_clear_lid s1 p)" using go c by (auto simp: sm_check_lid_def Let_def)
      then show thesis using clr[of s1] go(1) i1 c1 by simp
    next
      case True
      have m1: "map_of (ls_index s1) ?g \<in> {None, Some ?lid}" using c1 assms(3) go(1) by simp
      have o1: "\<forall>l\<in>{?lid..<?lid + ?new}. owner_of s1 l = ?g" using c1 True by simp
      obtain s' where k: "index_insert ?g ?lid (if pl_lmc p > newLmc then fold (clear_extra p) [?lid + ?new..<?lid + 2 ^ pl_lmc p] s1 else s1) = Inr s'"
          "touches ?g s1 s'" "index_ok s'" "map_of (ls_index s') ?g = Some ?lid" "\<forall>l\<in>{?lid..<?lid + ?new}. owner_of s' l = ?g"
        by (rule kept_lids[OF i1 assms(2) go(1) m1 o1 refl])
      have "sm_check_lid cfg st p newLmc = Inr (?lid, s', p\<lparr>pl_lmc := newLmc\<rparr>)"
        using go c True k(1) assms(4) by (auto simp: sm_check_lid_def Let_def)
      moreover have "owns s' (p\<lparr>pl_lmc := newLmc\<rparr>)" using go k(5) by (auto simp: owns_def list_all_iff)
      ultimately show thesis using kept[of s'] go(1) touches_trans[OF _ k(2)] c1 k(3,4) go(2) by (auto simp: dvd_eq_mod_eq_0)
    qed
  qed
qed

section \<open>Finding free LIDs\<close>

definition range_free :: "lid_state \<Rightarrow> nat \<Rightarrow> nat \<Rightarrow> bool" where
  "range_free st lid n \<longleftrightarrow> list_all (\<lambda>l. owner_of st l = 0) [lid..<lid + n]"

lemma range_freeD: "range_free st lid n \<Longrightarrow> lid \<le> l \<Longrightarrow> l < lid + n \<Longrightarrow> owner_of st l = 0"
  by (simp add: range_free_def list_all_iff)

lemma range_free_cong: "ls_map st = ls_map st' \<Longrightarrow> range_free st lid n = range_free st' lid n"
  by (simp add: range_free_def)

lemma taken_after_None: "owner_of st lid1 = 0 \<Longrightarrow> taken_after st lid1 n = None \<longleftrightarrow> range_free st lid1 n"
proof -
  assume o: "owner_of st lid1 = 0"
  have "taken_after st lid1 n = None \<longleftrightarrow> (\<forall>l\<in>{lid1 + 1..<lid1 + n}. owner_of st l = 0)" by (auto simp: taken_after_def find_None_iff)
  moreover have "l = lid1 \<or> l \<in> {lid1 + 1..<lid1 + n}" if "l \<in> {lid1..<lid1 + n}" for l using that by auto
  ultimately show ?thesis using o unfolding range_free_def list_all_iff set_upt by fastforce
qed

lemma note_space_keeps [simp]:
  "ls_map (note_space cfg n l st) = ls_map st" "ls_index (note_space cfg n l st) = ls_index st"
  "topology_passcount (note_space cfg n l st) = topology_passcount st"
  by (simp_all add: note_space_def)

lemma quick_scan_result:
  assumes "quick_scan cfg n ls st = (r, st')"
  shows "ls_map st' = ls_map st \<and> ls_index st' = ls_index st \<and> (r \<noteq> 0 \<longrightarrow> r \<in> set ls \<and> range_free st r n)"
  using assms
proof (induction ls arbitrary: st)
  case (Cons l ls)
  show ?case
  proof (cases "owner_of st l = 0 \<and> taken_after st l n = None")
    case True
    then show ?thesis using Cons.prems taken_after_None[of st l n] by simp
  next
    case False
    then obtain s where "quick_scan cfg n ls s = (r, st')" "ls_map s = ls_map st" "ls_index s = ls_index st"
      using Cons.prems by (auto split: if_splits option.splits)
    then show ?thesis using Cons.IH[of s] range_free_cong[of s st r n] by auto
  qed
qed simp

lemma range_starts_fit: "l \<in> set (range_starts lid1 n) \<Longrightarrow> l + n \<le> UNICAST_LID_MAX + 1 \<and> (\<exists>k. l = lid1 + k * n)"
proof -
  assume "l \<in> set (range_starts lid1 n)"
  then obtain k where k: "k < (UNICAST_LID_MAX + 1 - lid1) div n" "l = lid1 + k * n" by (auto simp: range_starts_def)
  have "(k + 1) * n \<le> (UNICAST_LID_MAX + 1 - lid1) div n * n" using k(1) by (intro mult_le_mono1) simp
  also have "\<dots> \<le> UNICAST_LID_MAX + 1 - lid1" by simp
  finally have "(k + 1) * n \<le> UNICAST_LID_MAX + 1 - lid1" .
  moreover have "UNICAST_LID_MAX + 1 - lid1 > 0" using k(1) by (cases "UNICAST_LID_MAX + 1 - lid1") auto
  ultimately show ?thesis using k(2) by auto
qed

lemma next_hints_keeps [simp]: "ls_map (next_hints cfg n l st) = ls_map st" "ls_index (next_hints cfg n l st) = ls_index st"
  by (simp_all add: next_hints_def Let_def)

lemma find_lid_quick_result:
  assumes "sm_find_lid_quick cfg n st = (r, st')"
  shows "ls_map st' = ls_map st" "ls_index st' = ls_index st" "r \<noteq> 0 \<Longrightarrow> range_free st r n \<and> r + n \<le> UNICAST_LID_MAX + 1"
proof -
  have "ls_map st' = ls_map st \<and> ls_index st' = ls_index st \<and> (r \<noteq> 0 \<longrightarrow> range_free st r n \<and> r + n \<le> UNICAST_LID_MAX + 1)"
  proof (cases "start_hint cfg st n")
    case None
    then show ?thesis using assms by (auto simp: sm_find_lid_quick_def RESERVED_LID_def)
  next
    case (Some lid1)
    obtain f s where q: "quick_scan cfg n (range_starts lid1 n) (reset_hints lid1 st) = (f, s)" by force
    have r: "ls_map (reset_hints lid1 st) = ls_map st" "ls_index (reset_hints lid1 st) = ls_index st" by (simp_all add: reset_hints_def)
    have n: "ls_map (no_space s) = ls_map s" "ls_index (no_space s) = ls_index s" by (simp_all add: no_space_def)
    have "(r, st') = (if f = 0 then (RESERVED_LID, no_space s) else (f, next_hints cfg n (f + n) s))"
      using assms by (simp add: sm_find_lid_quick_def Some q)
    then show ?thesis using quick_scan_result[OF q] range_starts_fit[of f lid1 n] r n range_free_cong[OF r(1), of f n] by (auto simp: RESERVED_LID_def split: if_splits)
  qed
  then show "ls_map st' = ls_map st" "ls_index st' = ls_index st" "r \<noteq> 0 \<Longrightarrow> range_free st r n \<and> r + n \<le> UNICAST_LID_MAX + 1" by blast+
qed

lemma full_scan_result:
  assumes "\<forall>l\<in>set ls. l + n \<le> UNICAST_LID_MAX + 1 \<and> l \<noteq> 0" "0 < n"
  shows "\<exists>r. full_scan st n ls = Inr r \<and> (if r = 0 then \<forall>l\<in>set ls. \<not> range_free st l n else r \<in> set ls \<and> range_free st r n)"
  using assms
proof (induction ls)
  case (Cons l ls)
  show ?case
  proof (cases "owner_of st l = 0")
    case o: True
    show ?thesis
    proof (cases "taken_after st l n")
      case None
      then show ?thesis using Cons.prems taken_after_None[OF o, of n] o by auto
    next
      case (Some l2)
      then have "l2 < l + n" by (auto simp: taken_after_def find_Some_iff)
      then have "\<not> l2 > UNICAST_LID_MAX" using Cons.prems by simp
      then show ?thesis using Cons Some o taken_after_None[OF o, of n] by auto
    qed
  next
    case False
    then have "\<not> range_free st l n" using range_freeD[of st l n l] Cons.prems(2) by auto
    then show ?thesis using Cons False by auto
  qed
qed (simp add: RESERVED_LID_def)

text \<open>With a LID spacing, the ranges must end with the table.\<close>

definition spacing_ok :: "lid_cfg \<Rightarrow> bool" where
  "spacing_ok cfg \<longleftrightarrow> topo_lid_offset cfg \<le> 1 \<or> topo_lid_offset cfg dvd UNICAST_LID_MAX + 1"

lemma lid_delta_pos: "0 < lid_delta cfg lmc"
  by (simp add: lid_delta_def)

lemma full_starts:
  assumes "spacing_ok cfg" "n = lid_delta cfg lmc"
  shows "set (map (\<lambda>k. n * (k + 1)) [0..<(UNICAST_LID_MAX + 1 - 2 ^ lmc) div n]) = {l. 0 < l \<and> n dvd l \<and> l + n \<le> UNICAST_LID_MAX + 1}"
proof (intro set_eqI iffI)
  have n: "0 < n" using assms(2) lid_delta_pos by simp
  fix l
  assume "l \<in> set (map (\<lambda>k. n * (k + 1)) [0..<(UNICAST_LID_MAX + 1 - 2 ^ lmc) div n])"
  then have "l \<in> (\<lambda>k. n * (k + 1)) ` {0..<(UNICAST_LID_MAX + 1 - 2 ^ lmc) div n}" by simp
  then obtain k where k: "l = n * (k + 1)" "k \<in> {0..<(UNICAST_LID_MAX + 1 - 2 ^ lmc) div n}" by (rule imageE)
  then have k: "l = n * (k + 1)" "k < (UNICAST_LID_MAX + 1 - 2 ^ lmc) div n" by simp_all
  have "n * (k + 1) \<le> n * ((UNICAST_LID_MAX + 1 - 2 ^ lmc) div n)" using k(2) by (intro mult_le_mono2) simp
  also have "\<dots> \<le> UNICAST_LID_MAX + 1 - 2 ^ lmc" by (rule times_div_less_eq_dividend)
  finally have le: "l \<le> UNICAST_LID_MAX + 1 - 2 ^ lmc" using k(1) by simp
  have pos: "0 < l" using k(1) n by simp
  then have lt: "l + 2 ^ lmc \<le> UNICAST_LID_MAX + 1" using le by simp
  have "l + n \<le> UNICAST_LID_MAX + 1"
  proof (cases "lmc = 0 \<and> topo_lid_offset cfg > 1")
    case True
    then obtain m where m: "UNICAST_LID_MAX + 1 = n * m" using assms by (auto simp: spacing_ok_def lid_delta_def elim: dvdE)
    have "n * (k + 1) < n * m" using lt k(1) m True by simp
    then have "k + 1 < m" unfolding nat_mult_less_cancel_disj by blast
    then have "k + 1 + 1 \<le> m" by simp
    then have "n * (k + 1 + 1) \<le> n * m" by (rule mult_le_mono2)
    then show ?thesis using m k(1) by simp
  qed (use lt assms(2) in \<open>auto simp: lid_delta_def\<close>)
  then show "l \<in> {l. 0 < l \<and> n dvd l \<and> l + n \<le> UNICAST_LID_MAX + 1}" using pos k(1) by simp
next
  have n: "0 < n" using assms(2) lid_delta_pos by simp
  fix l
  assume "l \<in> {l. 0 < l \<and> n dvd l \<and> l + n \<le> UNICAST_LID_MAX + 1}"
  then obtain j where j: "l = n * j" "0 < j" "l + n \<le> UNICAST_LID_MAX + 1" by auto
  have "2 ^ lmc \<le> n" using assms(2) by (auto simp: lid_delta_def)
  then have "j * n \<le> UNICAST_LID_MAX + 1 - 2 ^ lmc" using j by (simp add: mult.commute)
  then have "j \<le> (UNICAST_LID_MAX + 1 - 2 ^ lmc) div n" using n by (simp add: less_eq_div_iff_mult_less_eq)
  then have "j - 1 \<in> {0..<(UNICAST_LID_MAX + 1 - 2 ^ lmc) div n}" using j(2) by simp
  moreover have "l = n * (j - 1 + 1)" using j by simp
  ultimately show "l \<in> set (map (\<lambda>k. n * (k + 1)) [0..<(UNICAST_LID_MAX + 1 - 2 ^ lmc) div n])" by (auto intro!: image_eqI[of _ _ "j - 1"])
qed

lemma new_lid_result:
  assumes "spacing_ok cfg" "n = lid_delta cfg lmc"
  obtains r st' where "new_lid cfg st n lmc = Inr (r, st')" "ls_map st' = ls_map st" "ls_index st' = ls_index st"
    "r \<noteq> 0 \<Longrightarrow> range_free st r n \<and> r + n \<le> UNICAST_LID_MAX + 1"
    "r = 0 \<Longrightarrow> \<forall>l. 0 < l \<and> n dvd l \<and> l + n \<le> UNICAST_LID_MAX + 1 \<longrightarrow> \<not> range_free st l n"
proof -
  obtain r1 s1 where q: "sm_find_lid_quick cfg n st = (r1, s1)" by force
  note q1 = find_lid_quick_result[OF q]
  let ?ls = "map (\<lambda>k. n * (k + 1)) [0..<(UNICAST_LID_MAX + 1 - 2 ^ lmc) div n]"
  note fs = full_starts[OF assms]
  have "\<forall>l\<in>set ?ls. l + n \<le> UNICAST_LID_MAX + 1 \<and> l \<noteq> 0" unfolding fs by simp
  then obtain r2 where f: "full_scan s1 n ?ls = Inr r2" "if r2 = 0 then \<forall>l\<in>set ?ls. \<not> range_free s1 l n else r2 \<in> set ?ls \<and> range_free s1 r2 n"
    using full_scan_result[of ?ls n s1] lid_delta_pos[of cfg lmc] assms(2) by metis
  have o: "range_free s1 l k = range_free st l k" for l k using range_free_cong[OF q1(1)] .
  have f2: "r2 \<noteq> 0 \<Longrightarrow> range_free st r2 n \<and> r2 + n \<le> UNICAST_LID_MAX + 1"
    "r2 = 0 \<Longrightarrow> \<forall>l. 0 < l \<and> n dvd l \<and> l + n \<le> UNICAST_LID_MAX + 1 \<longrightarrow> \<not> range_free st l n"
    using f(2) unfolding fs o by (auto split: if_splits)
  show thesis
  proof (cases "r1 = 0")
    case True
    then have "new_lid cfg st n lmc = Inr (r2, s1)" using q f(1) by (simp add: new_lid_def RESERVED_LID_def)
    then show thesis using that[OF _ q1(1,2)] f2 by blast
  next
    case False
    then have "new_lid cfg st n lmc = Inr (r1, s1)" using q by (simp add: new_lid_def RESERVED_LID_def)
    then show thesis using that[OF _ q1(1,2)] q1(3) False by blast
  qed
qed

section \<open>Setting a LID\<close>

lemma set_owner_range:
  "ls_index (fold (set_owner p) ls st) = ls_index st \<and>
   owner_of (fold (set_owner p) ls st) x = (if x \<in> set ls then pl_guid p else owner_of st x) \<and>
   (x \<notin> set ls \<longrightarrow> ls_map (fold (set_owner p) ls st) x = ls_map st x)"
  by (induction ls arbitrary: st) (auto simp: set_owner_def)

definition recall_ok :: "lid_cfg \<Rightarrow> lid_state \<Rightarrow> PortLid \<Rightarrow> nat \<Rightarrow> bool" where
  "recall_ok cfg st p lmc \<longleftrightarrow> (case map_of (ls_index st) (pl_guid p) of
     None \<Rightarrow> True
   | Some l \<Rightarrow> l + lid_delta cfg lmc \<le> UNICAST_LID_MAX + 1 \<and> list_all (\<lambda>x. owner_of st x = pl_guid p) [l..<l + lid_delta cfg lmc])"

lemma recall_lid_ok:
  assumes "recall_ok cfg st p lmc" "n = lid_delta cfg lmc"
  shows "recall_lid st p n = Inr (map_of (ls_index st) (pl_guid p), st)"
proof (cases "map_of (ls_index st) (pl_guid p)")
  case (Some l)
  have "List.find (\<lambda>x. x > UNICAST_LID_MAX \<or> owner_of st x \<noteq> pl_guid p \<and> owner_of st x \<noteq> 0) [l + 1..<l + n] = None"
    using assms Some by (auto simp: find_None_iff recall_ok_def list_all_iff)
  then show ?thesis using Some by (simp add: recall_lid_def remembered_def)
qed (simp add: recall_lid_def)

lemma take_lid_result:
  assumes "index_ok st" "pl_guid p \<noteq> 0" "r + n \<le> UNICAST_LID_MAX + 1" "0 < n" "r \<noteq> 0" "map_of (ls_index st) (pl_guid p) = Some r"
    "\<forall>x\<in>{r..<r + n}. owner_of st x \<in> {0, pl_guid p}"
  obtains st' where "take_lid p lmc n r st = Inr (r, st', p\<lparr>pl_lid := r, pl_lmc := lmc\<rparr>)" "touches (pl_guid p) st st'" "index_ok st'"
    "ls_index st' = ls_index st" "\<forall>x\<in>{r..<r + n}. owner_of st' x = pl_guid p" "\<forall>x. x \<notin> {r..<r + n} \<longrightarrow> ls_map st' x = ls_map st x"
proof -
  define st' where "st' = fold (set_owner p) [r..<r + n] st"
  have f: "ls_index st' = ls_index st" "\<And>x. owner_of st' x = (if x \<in> {r..<r + n} then pl_guid p else owner_of st x)"
      "\<And>x. x \<notin> {r..<r + n} \<Longrightarrow> ls_map st' x = ls_map st x"
    using set_owner_range[of p "[r..<r + n]" st] by (simp_all add: st'_def)
  have t: "touches (pl_guid p) st st'" using assms(7) f(1,2) by (auto simp: touches_def)
  have "index_ok st'"
  proof (rule index_ok_touches[OF assms(1) t])
    show d: "distinct (map fst (ls_index st'))" using assms(1) f(1) by (simp add: index_ok_def)
    fix l assume "(pl_guid p, l) \<in> set (ls_index st')"
    then have "l = r" using d f(1) assms(6) by simp
    then show "pl_guid p \<noteq> 0 \<and> lid_in_range l \<and> owner_of st' l = pl_guid p"
      using f(2) assms(2-5) by (simp add: UNICAST_LID_MIN_def)
  qed
  moreover have "take_lid p lmc n r st = Inr (r, st', p\<lparr>pl_lid := r, pl_lmc := lmc\<rparr>)" using assms(3) by (simp add: take_lid_def st'_def)
  ultimately show thesis using that t f by simp
qed

text \<open>A new range for a port that the map does not know.\<close>

lemma fresh_range:
  assumes "index_ok s" "pl_guid p \<noteq> 0" "map_of (ls_index s) (pl_guid p) = None" "range_free s r n" "0 < n" "r \<noteq> 0" "r + n \<le> UNICAST_LID_MAX + 1"
  obtains s1 s2 where "index_insert (pl_guid p) r s = Inr s1" "take_lid p lmc n r s1 = Inr (r, s2, p\<lparr>pl_lid := r, pl_lmc := lmc\<rparr>)"
    "touches (pl_guid p) s s2" "index_ok s2" "map_of (ls_index s2) (pl_guid p) = Some r" "\<forall>x\<in>{r..<r + n}. owner_of s2 x = pl_guid p"
    "\<forall>x. x \<notin> {r..<r + n} \<longrightarrow> ls_map s2 x = ls_map s x"
proof -
  have free: "\<forall>x\<in>{r..<r + n}. owner_of s x = 0" using range_freeD[OF assms(4)] by simp
  define s1 where "s1 = s\<lparr>ls_index := (pl_guid p, r) # ls_index s\<rparr>"
  have ins: "index_insert (pl_guid p) r s = Inr s1" using index_insert_ok[OF assms(1), of r "pl_guid p"] free assms(3,5) by (simp add: s1_def)
  define s2 where "s2 = fold (set_owner p) [r..<r + n] s1"
  have f: "ls_index s2 = ls_index s1" "\<And>x. owner_of s2 x = (if x \<in> {r..<r + n} then pl_guid p else owner_of s1 x)"
      "\<And>x. x \<notin> {r..<r + n} \<Longrightarrow> ls_map s2 x = ls_map s1 x"
    using set_owner_range[of p "[r..<r + n]" s1] by (simp_all add: s2_def)
  have t: "touches (pl_guid p) s s2" using free f assms(3) by (auto simp: touches_def s1_def map_of_eq_None_iff)
  have i: "index_ok s2"
  proof (rule index_ok_touches[OF assms(1) t])
    show d: "distinct (map fst (ls_index s2))" using assms(1,3) f(1) by (auto simp: index_ok_def s1_def map_of_eq_None_iff)
    fix l assume "(pl_guid p, l) \<in> set (ls_index s2)"
    then have "l = r" using d f(1) by (auto simp: s1_def image_iff)
    then show "pl_guid p \<noteq> 0 \<and> lid_in_range l \<and> owner_of s2 l = pl_guid p" using f(2) assms(2,5-7) by (simp add: UNICAST_LID_MIN_def)
  qed
  have "take_lid p lmc n r s1 = Inr (r, s2, p\<lparr>pl_lid := r, pl_lmc := lmc\<rparr>)" using assms(7) by (simp add: take_lid_def s2_def)
  then show thesis using that[OF ins _ t i] f by (simp add: s1_def)
qed

text \<open>Setting a LID as a case distinction: there is none, or the port gets a range.\<close>

lemma sm_set_lid_cases:
  assumes "index_ok st" "pl_guid p \<noteq> 0" "spacing_ok cfg" "recall_ok cfg st p lmc" "n = lid_delta cfg lmc"
  obtains (none) st' where "sm_set_lid cfg st p lmc = Inr (0, st', p)" "ls_map st' = ls_map st" "ls_index st' = ls_index st"
      "\<forall>l. 0 < l \<and> n dvd l \<and> l + n \<le> UNICAST_LID_MAX + 1 \<longrightarrow> \<not> range_free st l n"
    | (some) r st' where "r \<noteq> 0" "sm_set_lid cfg st p lmc = Inr (r, st', p\<lparr>pl_lid := r, pl_lmc := lmc\<rparr>)" "touches (pl_guid p) st st'" "index_ok st'"
      "map_of (ls_index st') (pl_guid p) = Some r" "r + n \<le> UNICAST_LID_MAX + 1" "\<forall>x\<in>{r..<r + n}. owner_of st' x = pl_guid p"
      "\<forall>x. x \<notin> {r..<r + n} \<longrightarrow> ls_map st' x = ls_map st x" "map_of (ls_index st) (pl_guid p) = None \<longrightarrow> range_free st r n"
proof -
  note rec = recall_lid_ok[OF assms(4,5)]
  have n: "0 < n" using assms(5) lid_delta_pos by simp
  show thesis
  proof (cases "map_of (ls_index st) (pl_guid p)")
    case (Some r)
    then have r: "r \<noteq> 0" "r + n \<le> UNICAST_LID_MAX + 1" "\<forall>x\<in>{r..<r + n}. owner_of st x \<in> {0, pl_guid p}"
      using index_okD[OF assms(1) Some] assms(4,5) by (auto simp: recall_ok_def list_all_iff UNICAST_LID_MIN_def)
    obtain st' where t: "take_lid p lmc n r st = Inr (r, st', p\<lparr>pl_lid := r, pl_lmc := lmc\<rparr>)" "touches (pl_guid p) st st'" "index_ok st'"
        "ls_index st' = ls_index st" "\<forall>x\<in>{r..<r + n}. owner_of st' x = pl_guid p" "\<forall>x. x \<notin> {r..<r + n} \<longrightarrow> ls_map st' x = ls_map st x"
      by (rule take_lid_result[OF assms(1,2) r(2) n r(1) Some r(3)])
    have "sm_set_lid cfg st p lmc = Inr (r, st', p\<lparr>pl_lid := r, pl_lmc := lmc\<rparr>)"
      using rec t(1) Some assms(5) by (simp add: sm_set_lid_def Let_def)
    then show thesis using some[OF r(1) _ t(2,3) _ r(2) t(5,6)] t(4) Some by simp
  next
    case None
    obtain r s where w: "new_lid cfg st n lmc = Inr (r, s)" "ls_map s = ls_map st" "ls_index s = ls_index st"
        "r \<noteq> 0 \<Longrightarrow> range_free st r n \<and> r + n \<le> UNICAST_LID_MAX + 1"
        "r = 0 \<Longrightarrow> \<forall>l. 0 < l \<and> n dvd l \<and> l + n \<le> UNICAST_LID_MAX + 1 \<longrightarrow> \<not> range_free st l n"
      using new_lid_result[OF assms(3,5), of st] by blast
    show thesis
    proof (cases "r = 0")
      case True
      then have "sm_set_lid cfg st p lmc = Inr (0, s, p)" using rec w(1) None assms(5) by (simp add: sm_set_lid_def Let_def RESERVED_LID_def)
      then show thesis using none w(2,3,5) True by blast
    next
      case False
      note fr = w(4)[OF False]
      have s: "index_ok s" "map_of (ls_index s) (pl_guid p) = None" "range_free s r n" using assms(1) w(2,3) None fr range_free_cong[OF w(2)] by (simp_all add: index_ok_def)
      obtain s1 s2 where x: "index_insert (pl_guid p) r s = Inr s1" "take_lid p lmc n r s1 = Inr (r, s2, p\<lparr>pl_lid := r, pl_lmc := lmc\<rparr>)"
          "touches (pl_guid p) s s2" "index_ok s2" "map_of (ls_index s2) (pl_guid p) = Some r" "\<forall>x\<in>{r..<r + n}. owner_of s2 x = pl_guid p"
          "\<forall>x. x \<notin> {r..<r + n} \<longrightarrow> ls_map s2 x = ls_map s x"
        using fresh_range[OF s(1) assms(2) s(2,3) n False, of lmc] fr by blast
      have t: "touches (pl_guid p) st s2" using x(3) unfolding touches_def w(2) w(3) .
      have "sm_set_lid cfg st p lmc = Inr (r, s2, p\<lparr>pl_lid := r, pl_lmc := lmc\<rparr>)"
        using rec w(1) None False x(1,2) assms(5) by (simp add: sm_set_lid_def Let_def RESERVED_LID_def)
      then show thesis using some[OF False _ t x(4,5) _ x(6)] x(7) fr w(2) by simp
    qed
  qed
qed

end
