(* ===== verification/SmLidResolve.thy ===== *)
theory SmLidResolve
  imports SmLidTable
begin

text \<open>
  The LID assignment of a whole sweep: what the table and the map say about every end port
  (\<open>rs_inv\<close>), that the discovery establishes it and that \<open>topology_resolve\<close> keeps it and leaves every
  live port with LIDs of its own; the alignment of fresh ranges; and two ways in which LIDs go astray.
\<close>

section \<open>All end ports\<close>

lemma map_of_touches: "touches g st st' \<Longrightarrow> k \<noteq> g \<Longrightarrow> map_of (ls_index st') k = map_of (ls_index st) k"
proof -
  assume t: "touches g st st'" and k: "k \<noteq> g"
  have "map_of (filter (\<lambda>(k, _). k \<noteq> g) xs) k = map_of xs k" for xs :: "(u64 \<times> nat) list" using k by (induction xs) auto
  then show ?thesis using t by (metis touches_def)
qed

text \<open>
  What the table and the map must say about a port: a port that has a LID is in the map with it or not
  at all; of a port without one, the map knows nothing or a range that is still its own.
\<close>

definition port_inv :: "lid_cfg \<Rightarrow> lid_state \<Rightarrow> PortLid \<Rightarrow> bool" where
  "port_inv cfg st p \<longleftrightarrow> pl_guid p \<noteq> 0 \<and>
     (if lid_in_range (pl_lid p)
      then map_of (ls_index st) (pl_guid p) \<in> {None, Some (pl_lid p)} \<and> (pl_lmc p > temp_lmc cfg p \<longrightarrow> pl_lid p + 2 ^ pl_lmc p \<le> UNICAST_LID_MAX + 1)
      else recall_ok cfg st p (temp_lmc cfg p))"

definition rs_inv :: "lid_cfg \<Rightarrow> resolve_state \<Rightarrow> bool" where
  "rs_inv cfg rs \<longleftrightarrow> index_ok (rs_lids rs) \<and> distinct (map pl_guid (rs_ports rs)) \<and> list_all (port_inv cfg (rs_lids rs)) (rs_ports rs)"

definition settled :: "lid_cfg \<Rightarrow> lid_state \<Rightarrow> PortLid \<Rightarrow> bool" where
  "settled cfg st p \<longleftrightarrow> owns st p \<and> pl_lmc p = temp_lmc cfg p"

lemma recall_ok_touches:
  assumes "recall_ok cfg st p lmc" "touches g st st'" "pl_guid p \<noteq> g" "pl_guid p \<noteq> 0"
  shows "recall_ok cfg st' p lmc"
proof -
  have "owner_of st' x = pl_guid p" if "owner_of st x = pl_guid p" for x using touchesD[OF assms(2), of x] that assms(3,4) by simp
  then show ?thesis using assms(1) map_of_touches[OF assms(2,3)] by (auto simp: recall_ok_def list_all_iff split: option.splits)
qed

lemma port_inv_touches: "port_inv cfg st p \<Longrightarrow> touches g st st' \<Longrightarrow> pl_guid p \<noteq> g \<Longrightarrow> port_inv cfg st' p"
  using map_of_touches[of g st st' "pl_guid p"] recall_ok_touches[of cfg st p "temp_lmc cfg p" g st'] by (auto simp: port_inv_def)

lemma settled_touches: "settled cfg st p \<Longrightarrow> touches g st st' \<Longrightarrow> pl_guid p \<noteq> g \<Longrightarrow> pl_guid p \<noteq> 0 \<Longrightarrow> settled cfg st' p"
  using owns_touches by (auto simp: settled_def)

lemma update_port:
  assumes "rs_inv cfg rs" "k < length (rs_ports rs)" "p = rs_ports rs ! k" "touches (pl_guid p) (rs_lids rs) st'" "index_ok st'"
    "pl_guid p' = pl_guid p" "port_inv cfg st' p'" "rs' = rs\<lparr>rs_lids := st', rs_ports := (rs_ports rs)[k := p'], topology_changed := c\<rparr>"
  shows "rs_inv cfg rs'" "\<And>i. i < length (rs_ports rs) \<Longrightarrow> i \<noteq> k \<Longrightarrow> settled cfg (rs_lids rs) (rs_ports rs ! i) \<Longrightarrow> settled cfg st' (rs_ports rs ! i)"
proof -
  let ?ps = "rs_ports rs"
  have d: "distinct (map pl_guid ?ps)" and pi: "\<And>i. i < length ?ps \<Longrightarrow> port_inv cfg (rs_lids rs) (?ps ! i)"
    using assms(1) by (auto simp: rs_inv_def list_all_length)
  have g: "pl_guid (?ps ! i) \<noteq> pl_guid p" if "i < length ?ps" "i \<noteq> k" for i
    using d that assms(2,3) by (auto simp: distinct_conv_nth)
  have "map pl_guid (?ps[k := p']) = map pl_guid ?ps"
    using assms(2,3,6) by (simp add: map_update list_update_same_conv)
  moreover have "port_inv cfg st' (?ps[k := p'] ! i)" if "i < length ?ps" for i
    using that assms(7) port_inv_touches[OF pi[OF that] assms(4)] g[OF that] by (cases "i = k") auto
  ultimately show "rs_inv cfg rs'" using d assms(5,8) by (simp add: rs_inv_def list_all_length)
  show "settled cfg st' (?ps ! i)" if "i < length ?ps" "i \<noteq> k" "settled cfg (rs_lids rs) (?ps ! i)" for i
    using settled_touches[OF that(3) assms(4) g[OF that(1,2)]] pi[OF that(1)] by (simp add: port_inv_def)
qed

lemma recall_ok_fields: "recall_ok cfg st (p\<lparr>pl_lid := a\<rparr>) lmc = recall_ok cfg st p lmc"
  by (simp add: recall_ok_def cong: option.case_cong)

lemma port_inv_fields: "port_inv cfg st (p\<lparr>pl_state := s\<rparr>) = port_inv cfg st p"
  by (simp add: port_inv_def recall_ok_def temp_lmc_def cong: if_cong option.case_cong)

text \<open>Checking a port: either it has its LIDs afterwards, or none.\<close>

lemma checked_port:
  assumes "index_ok st" "port_inv cfg st p"
  obtains lid st' p' where "sm_check_lid cfg st p (temp_lmc cfg p) = Inr (lid, st', p')" "touches (pl_guid p) st st'" "index_ok st'"
    "pl_guid p' = pl_guid p" "port_inv cfg st' (p'\<lparr>pl_lid := lid\<rparr>)" "lid \<noteq> 0 \<Longrightarrow> settled cfg st' p' \<and> pl_lid p' = lid"
    "lid = 0 \<Longrightarrow> recall_ok cfg st' p' (temp_lmc cfg p)" "temp_lmc cfg p' = temp_lmc cfg p"
    "lid = 0 \<Longrightarrow> \<not> lid_in_range (pl_lid p')" "port_inv cfg st' p'" "live p' = live p"
proof -
  have g: "pl_guid p \<noteq> 0" and ix: "lid_in_range (pl_lid p) \<longrightarrow> map_of (ls_index st) (pl_guid p) \<in> {None, Some (pl_lid p)}"
    and sh: "lid_in_range (pl_lid p) \<and> pl_lmc p > temp_lmc cfg p \<longrightarrow> pl_lid p + 2 ^ pl_lmc p \<le> UNICAST_LID_MAX + 1"
    using assms(2) by (auto simp: port_inv_def split: if_splits)
  have z: "\<not> lid_in_range 0" by (simp add: UNICAST_LID_MIN_def)
  have tl: "temp_lmc cfg (p\<lparr>pl_lid := a\<rparr>) = temp_lmc cfg p" "temp_lmc cfg (p\<lparr>pl_lid := a, pl_lmc := b\<rparr>) = temp_lmc cfg p" "temp_lmc cfg (p\<lparr>pl_lmc := b\<rparr>) = temp_lmc cfg p" for a b
    by (simp_all add: temp_lmc_def)
  show thesis
  proof (cases rule: sm_check_lid_cases[OF assms(1) g ix sh, of cfg, case_names unset cleared kept])
    case unset
    have "recall_ok cfg st p (temp_lmc cfg p)" using assms(2) unset(1) by (auto simp: port_inv_def)
    then show thesis using that[OF unset(2)] assms unset(1) g z tl by (auto simp: port_inv_def recall_ok_fields)
  next
    case (cleared st')
    have "recall_ok cfg st' q lmc" if "pl_guid q = pl_guid p" for q lmc using cleared(5) that by (simp add: recall_ok_def)
    then show thesis using that[OF cleared(2,3,4)] cleared(5) g z tl by (simp add: port_inv_def live_def)
  next
    case (kept st')
    then show thesis using that[OF kept(2,3,4)] g tl by (simp add: port_inv_def settled_def live_def UNICAST_LID_MIN_def)
  qed
qed

lemma port_inv_none: "port_inv cfg st p \<Longrightarrow> ls_map st' = ls_map st \<Longrightarrow> ls_index st' = ls_index st \<Longrightarrow> port_inv cfg st' p"
  by (auto simp: port_inv_def recall_ok_def split: option.splits)

lemma touches_same: "ls_map st' = ls_map st \<Longrightarrow> ls_index st' = ls_index st \<Longrightarrow> touches g st st'"
  by (simp add: touches_def)

text \<open>A port without LIDs gets them, or there are none left.\<close>

lemma assigned_port:
  assumes "index_ok st" "port_inv cfg st p" "\<not> lid_in_range (pl_lid p)" "spacing_ok cfg"
  obtains lid st' p' where "sm_set_lid cfg st p (temp_lmc cfg p) = Inr (lid, st', p')" "touches (pl_guid p) st st'" "index_ok st'"
    "pl_guid p' = pl_guid p" "port_inv cfg st' p'" "lid \<noteq> 0 \<Longrightarrow> settled cfg st' p'" "lid = 0 \<Longrightarrow> p' = p" "pl_peer p' = pl_peer p"
    "lid = 0 \<Longrightarrow> \<forall>l. 0 < l \<and> lid_delta cfg (temp_lmc cfg p) dvd l \<and> l + lid_delta cfg (temp_lmc cfg p) \<le> UNICAST_LID_MAX + 1 \<longrightarrow>
       \<not> range_free st l (lid_delta cfg (temp_lmc cfg p))"
proof -
  have g: "pl_guid p \<noteq> 0" "recall_ok cfg st p (temp_lmc cfg p)" using assms(2,3) by (auto simp: port_inv_def)
  show thesis
  proof (cases rule: sm_set_lid_cases[OF assms(1) g(1) assms(4) g(2) refl, case_names none some])
    case (none st')
    have "index_ok st'" using assms(1) none(2,3) by (simp add: index_ok_def)
    then show thesis using that[OF none(1) touches_same[OF none(2,3)]] port_inv_none[OF assms(2) none(2,3)] none(4) by simp
  next
    case (some r st')
    let ?p = "p\<lparr>pl_lid := r, pl_lmc := temp_lmc cfg p\<rparr>"
    have l: "2 ^ temp_lmc cfg p \<le> lid_delta cfg (temp_lmc cfg p)" by (auto simp: lid_delta_def)
    have t: "temp_lmc cfg ?p = temp_lmc cfg p" by (simp add: temp_lmc_def)
    have r: "lid_in_range r" using some(1,6) lid_delta_pos[of cfg "temp_lmc cfg p"] by (simp add: UNICAST_LID_MIN_def)
    have "settled cfg st' ?p" using some(6,7) l r t by (auto simp: settled_def owns_def list_all_iff)
    moreover have "port_inv cfg st' ?p" using some(5) r g(1) t by (simp add: port_inv_def)
    ultimately show thesis using that[OF some(2,3,4)] some(1) by simp
  qed
qed

lemma settled_in_range: "settled cfg st p \<Longrightarrow> lid_in_range (pl_lid p)"
proof -
  assume "settled cfg st p"
  then have "UNICAST_LID_MIN \<le> pl_lid p" "pl_lid p + 2 ^ pl_lmc p \<le> UNICAST_LID_MAX + 1" by (auto simp: settled_def owns_def)
  moreover have "0 < (2 :: nat) ^ pl_lmc p" by simp
  ultimately show ?thesis by linarith
qed

lemma settled_has_lid: "settled cfg st p \<Longrightarrow> \<not> no_lid p"
  using settled_in_range[of cfg st p]
  by (auto simp: no_lid_def RESERVED_LID_def PERMISSIVE_LID_def STL_LID_PERMISSIVE_def UNICAST_LID_MIN_def UNICAST_LID_MAX_def)

text \<open>One port in the first pass.\<close>

lemma check_port_ok:
  assumes "rs_inv cfg rs" "k < length (rs_ports rs)"
  obtains rs' where "check_port cfg k rs = Inr rs'" "rs_inv cfg rs'" "length (rs_ports rs') = length (rs_ports rs)"
    "live (rs_ports rs' ! k) \<Longrightarrow> settled cfg (rs_lids rs') (rs_ports rs' ! k) \<or> pl_lid (rs_ports rs' ! k) = 0"
    "\<And>i. i < length (rs_ports rs) \<Longrightarrow> i \<noteq> k \<Longrightarrow> rs_ports rs' ! i = rs_ports rs ! i \<and>
       (settled cfg (rs_lids rs) (rs_ports rs ! i) \<longrightarrow> settled cfg (rs_lids rs') (rs_ports rs ! i))"
proof (cases "live (rs_ports rs ! k)")
  case False
  then show thesis using that[of rs] assms by (simp add: check_port_def)
next
  case True
  let ?p = "rs_ports rs ! k"
  have i: "index_ok (rs_lids rs)" "port_inv cfg (rs_lids rs) ?p" using assms by (auto simp: rs_inv_def list_all_length)
  obtain lid st' p' where c: "sm_check_lid cfg (rs_lids rs) ?p (temp_lmc cfg ?p) = Inr (lid, st', p')" "touches (pl_guid ?p) (rs_lids rs) st'" "index_ok st'"
      "pl_guid p' = pl_guid ?p" "port_inv cfg st' (p'\<lparr>pl_lid := lid\<rparr>)" "lid \<noteq> 0 \<longrightarrow> settled cfg st' p' \<and> pl_lid p' = lid"
    using checked_port[OF i] by metis
  define rs' where "rs' = rs\<lparr>rs_lids := st', rs_ports := (rs_ports rs)[k := p'\<lparr>pl_lid := lid\<rparr>], topology_changed := topology_changed rs\<rparr>"
  have "p'\<lparr>pl_lid := lid\<rparr> = p'" if "lid \<noteq> 0" using c(6) that by (cases p') auto
  then have s: "settled cfg st' (p'\<lparr>pl_lid := lid\<rparr>) \<or> lid = 0" using c(6) by auto
  have "pl_guid (p'\<lparr>pl_lid := lid\<rparr>) = pl_guid ?p" using c(4) by simp
  note u = update_port[OF assms refl c(2,3) this c(5) rs'_def]
  have "check_port cfg k rs = Inr rs'" using True c(1) by (simp add: check_port_def Let_def rs'_def)
  then show thesis using that u s assms(2) by (simp add: rs'_def)
qed

text \<open>One port in the second pass; the port at the other end of a link may go down with it.\<close>

lemma port_down_keeps:
  "length (port_down k ps) = length ps" "map pl_guid (port_down k ps) = map pl_guid ps"
  "i < length ps \<Longrightarrow> port_down k ps ! i = ps ! i \<or> \<not> live (port_down k ps ! i)"
  "i < length ps \<Longrightarrow> port_inv cfg st (port_down k ps ! i) = port_inv cfg st (ps ! i)"
  "k < length ps \<Longrightarrow> \<not> live (port_down k ps ! k)"
  by (auto simp: port_down_def map_update list_update_same_conv nth_list_update port_inv_fields live_def)

lemma mark_link_down_keeps:
  assumes "ps' = sm_mark_link_down k ps"
  shows "length ps' = length ps" "map pl_guid ps' = map pl_guid ps" "i < length ps \<Longrightarrow> ps' ! i = ps ! i \<or> \<not> live (ps' ! i)"
    "i < length ps \<Longrightarrow> port_inv cfg st (ps' ! i) = port_inv cfg st (ps ! i)" "k < length ps \<Longrightarrow> \<not> live (ps' ! k)"
  using port_down_keeps assms by (auto simp: sm_mark_link_down_def split: option.splits; metis)+

lemma assign_port_ok:
  assumes "rs_inv cfg rs" "k < length (rs_ports rs)" "spacing_ok cfg"
    "live (rs_ports rs ! k) \<longrightarrow> settled cfg (rs_lids rs) (rs_ports rs ! k) \<or> pl_lid (rs_ports rs ! k) = 0"
  shows "\<exists>rs'. assign_port cfg k rs = Inr rs' \<and> rs_inv cfg rs' \<and> length (rs_ports rs') = length (rs_ports rs) \<and>
    (live (rs_ports rs' ! k) \<longrightarrow> settled cfg (rs_lids rs') (rs_ports rs' ! k)) \<and>
    (\<forall>i<length (rs_ports rs). i \<noteq> k \<and> live (rs_ports rs' ! i) \<longrightarrow> rs_ports rs' ! i = rs_ports rs ! i \<and>
       (settled cfg (rs_lids rs) (rs_ports rs ! i) \<longrightarrow> settled cfg (rs_lids rs') (rs_ports rs ! i)))"
proof (cases "live (rs_ports rs ! k) \<and> \<not> settled cfg (rs_lids rs) (rs_ports rs ! k)")
  case False
  then have "assign_port cfg k rs = Inr rs" using settled_has_lid by (auto simp: assign_port_def Let_def)
  then show ?thesis using False assms by blast
next
  case True
  let ?p = "rs_ports rs ! k" and ?ps = "rs_ports rs"
  have i: "index_ok (rs_lids rs)" "port_inv cfg (rs_lids rs) ?p" using assms by (auto simp: rs_inv_def list_all_length)
  have z: "pl_lid ?p = 0" "no_lid ?p" "\<not> lid_in_range (pl_lid ?p)" using True assms(4) by (auto simp: no_lid_def RESERVED_LID_def UNICAST_LID_MIN_def)
  obtain lid st' p' where c: "sm_set_lid cfg (rs_lids rs) ?p (temp_lmc cfg ?p) = Inr (lid, st', p')" "touches (pl_guid ?p) (rs_lids rs) st'" "index_ok st'"
      "pl_guid p' = pl_guid ?p" "port_inv cfg st' p'" "lid \<noteq> 0 \<longrightarrow> settled cfg st' p'"
    using assigned_port[OF i z(3) assms(3)] by metis
  define rs1 where "rs1 = rs\<lparr>rs_lids := st', rs_ports := ?ps[k := p'], topology_changed := True\<rparr>"
  note u = update_port[OF assms(1,2) refl c(2-5) rs1_def]
  define ps' where "ps' = (if lid = 0 then sm_mark_link_down k (?ps[k := p']) else ?ps[k := p'])"
  have m: "length ps' = length ?ps" "map pl_guid ps' = map pl_guid (?ps[k := p'])"
      "\<And>i. i < length ?ps \<Longrightarrow> ps' ! i = ?ps[k := p'] ! i \<or> \<not> live (ps' ! i)"
      "\<And>i. i < length ?ps \<Longrightarrow> port_inv cfg st' (ps' ! i) = port_inv cfg st' (?ps[k := p'] ! i)" "lid = 0 \<longrightarrow> \<not> live (ps' ! k)"
    using mark_link_down_keeps[OF refl, where k = k and ps = "?ps[k := p']"] assms(2) by (auto simp: ps'_def)
  have inv: "rs_inv cfg (rs1\<lparr>rs_ports := ps'\<rparr>)" using u(1) m(1,2,4) by (simp add: rs_inv_def list_all_length rs1_def)
  have a: "assign_port cfg k rs = Inr (rs1\<lparr>rs_ports := ps'\<rparr>)" using True z(2) c(1) by (simp add: assign_port_def Let_def rs1_def ps'_def RESERVED_LID_def)
  have "settled cfg st' (ps' ! k)" if "live (ps' ! k)" using that m(3)[OF assms(2)] m(5) c(6) assms(2) by auto
  moreover have "ps' ! i = ?ps ! i \<and> (settled cfg (rs_lids rs) (?ps ! i) \<longrightarrow> settled cfg st' (?ps ! i))"
    if "i < length ?ps" "i \<noteq> k" "live (ps' ! i)" for i using that m(3)[OF that(1)] u(2)[OF that(1,2)] by auto
  moreover have "rs_lids (rs1\<lparr>rs_ports := ps'\<rparr>) = st'" "rs_ports (rs1\<lparr>rs_ports := ps'\<rparr>) = ps'" by (simp_all add: rs1_def)
  ultimately show ?thesis using a inv m(1) by (metis (no_types, lifting))
qed

text \<open>The two passes over the ports.\<close>

lemma check_pass:
  assumes "rs_inv cfg rs" "set ks \<subseteq> {..<length (rs_ports rs)}" "D \<subseteq> {..<length (rs_ports rs)}"
    "\<forall>i\<in>D. live (rs_ports rs ! i) \<longrightarrow> settled cfg (rs_lids rs) (rs_ports rs ! i) \<or> pl_lid (rs_ports rs ! i) = 0"
  shows "\<exists>rs'. for_ports (check_port cfg) ks rs = Inr rs' \<and> rs_inv cfg rs' \<and> length (rs_ports rs') = length (rs_ports rs) \<and>
    (\<forall>i\<in>D \<union> set ks. live (rs_ports rs' ! i) \<longrightarrow> settled cfg (rs_lids rs') (rs_ports rs' ! i) \<or> pl_lid (rs_ports rs' ! i) = 0)"
  using assms
proof (induction ks arbitrary: rs D)
  case (Cons k ks)
  have k: "k < length (rs_ports rs)" using Cons.prems(2) by simp
  obtain rs1 where s: "check_port cfg k rs = Inr rs1" "rs_inv cfg rs1" "length (rs_ports rs1) = length (rs_ports rs)"
      "live (rs_ports rs1 ! k) \<longrightarrow> settled cfg (rs_lids rs1) (rs_ports rs1 ! k) \<or> pl_lid (rs_ports rs1 ! k) = 0"
      "\<And>i. i < length (rs_ports rs) \<Longrightarrow> i \<noteq> k \<Longrightarrow> rs_ports rs1 ! i = rs_ports rs ! i \<and>
         (settled cfg (rs_lids rs) (rs_ports rs ! i) \<longrightarrow> settled cfg (rs_lids rs1) (rs_ports rs ! i))"
    using check_port_ok[OF Cons.prems(1) k] by blast
  have "live (rs_ports rs1 ! i) \<longrightarrow> settled cfg (rs_lids rs1) (rs_ports rs1 ! i) \<or> pl_lid (rs_ports rs1 ! i) = 0" if i: "i \<in> insert k D" for i
  proof (cases "i = k")
    case False
    then show ?thesis using i s(5)[of i] Cons.prems(3,4) by fastforce
  qed (use s(4) in simp)
  then show ?case using Cons.IH[OF s(2), of "insert k D"] Cons.prems(2,3) s(1,3) k by simp
qed simp

lemma assign_pass:
  assumes "rs_inv cfg rs" "spacing_ok cfg" "set ks \<subseteq> {..<length (rs_ports rs)}" "D \<subseteq> {..<length (rs_ports rs)}"
    "\<forall>i<length (rs_ports rs). live (rs_ports rs ! i) \<longrightarrow> settled cfg (rs_lids rs) (rs_ports rs ! i) \<or> i \<notin> D \<and> pl_lid (rs_ports rs ! i) = 0"
  shows "\<exists>rs'. for_ports (assign_port cfg) ks rs = Inr rs' \<and> rs_inv cfg rs' \<and> length (rs_ports rs') = length (rs_ports rs) \<and>
    (\<forall>i\<in>D \<union> set ks. live (rs_ports rs' ! i) \<longrightarrow> settled cfg (rs_lids rs') (rs_ports rs' ! i))"
  using assms
proof (induction ks arbitrary: rs D)
  case Nil
  have "\<forall>i\<in>D. live (rs_ports rs ! i) \<longrightarrow> settled cfg (rs_lids rs) (rs_ports rs ! i)" using Nil.prems(4,5) by blast
  then show ?case using Nil.prems(1) by simp
next
  case (Cons k ks)
  have k: "k < length (rs_ports rs)" using Cons.prems(3) by simp
  have p: "live (rs_ports rs ! k) \<longrightarrow> settled cfg (rs_lids rs) (rs_ports rs ! k) \<or> pl_lid (rs_ports rs ! k) = 0" using Cons.prems(5)[rule_format, OF k] by auto
  obtain rs1 where s: "assign_port cfg k rs = Inr rs1" "rs_inv cfg rs1" "length (rs_ports rs1) = length (rs_ports rs)"
      "live (rs_ports rs1 ! k) \<longrightarrow> settled cfg (rs_lids rs1) (rs_ports rs1 ! k)"
      "\<forall>i<length (rs_ports rs). i \<noteq> k \<and> live (rs_ports rs1 ! i) \<longrightarrow> rs_ports rs1 ! i = rs_ports rs ! i \<and>
         (settled cfg (rs_lids rs) (rs_ports rs ! i) \<longrightarrow> settled cfg (rs_lids rs1) (rs_ports rs ! i))"
    using assign_port_ok[OF Cons.prems(1) k Cons.prems(2) p] by (elim exE conjE)
  have "settled cfg (rs_lids rs1) (rs_ports rs1 ! i) \<or> i \<notin> insert k D \<and> pl_lid (rs_ports rs1 ! i) = 0"
    if i: "i < length (rs_ports rs)" "live (rs_ports rs1 ! i)" for i
  proof (cases "i = k")
    case False
    have e: "rs_ports rs1 ! i = rs_ports rs ! i" using s(5)[rule_format, OF i(1), OF conjI, OF False i(2)] by blast
    then have "settled cfg (rs_lids rs) (rs_ports rs ! i) \<or> i \<notin> D \<and> pl_lid (rs_ports rs ! i) = 0" using Cons.prems(5) i by auto
    then show ?thesis using s(5)[rule_format, OF i(1), OF conjI, OF False i(2)] e False by auto
  qed (use s(4) i(2) in simp)
  then show ?case using Cons.IH[OF s(2) Cons.prems(2), of "insert k D"] Cons.prems(3,4) s(1,3) k by simp
qed

lemma resolve_sm_port_ok:
  assumes "rs_inv cfg rs" "k < length (rs_ports rs)" "spacing_ok cfg"
  shows "\<exists>lid rs'. resolve_sm_port cfg k rs = Inr (lid, rs') \<and> rs_inv cfg rs' \<and> length (rs_ports rs') = length (rs_ports rs)"
proof -
  let ?p = "rs_ports rs ! k"
  have i: "index_ok (rs_lids rs)" "port_inv cfg (rs_lids rs) ?p" using assms by (auto simp: rs_inv_def list_all_length)
  obtain lid st1 p1 where c: "sm_check_lid cfg (rs_lids rs) ?p (temp_lmc cfg ?p) = Inr (lid, st1, p1)" "touches (pl_guid ?p) (rs_lids rs) st1" "index_ok st1"
      "pl_guid p1 = pl_guid ?p" "port_inv cfg st1 p1" "lid = 0 \<longrightarrow> \<not> lid_in_range (pl_lid p1)" "temp_lmc cfg p1 = temp_lmc cfg ?p"
    using checked_port[OF i] by metis
  show ?thesis
  proof (cases "lid = 0")
    case False
    define rs' where "rs' = rs\<lparr>rs_lids := st1, rs_ports := (rs_ports rs)[k := p1], topology_changed := topology_changed rs\<rparr>"
    have "resolve_sm_port cfg k rs = Inr (lid, rs')" using c(1) False by (simp add: resolve_sm_port_def Let_def rs'_def RESERVED_LID_def)
    moreover note update_port(1)[OF assms(1,2) refl c(2-5) rs'_def]
    ultimately show ?thesis by (simp add: rs'_def)
  next
    case True
    obtain lid2 st2 p2 where d: "sm_set_lid cfg st1 p1 (temp_lmc cfg p1) = Inr (lid2, st2, p2)" "touches (pl_guid p1) st1 st2" "index_ok st2"
        "pl_guid p2 = pl_guid p1" "port_inv cfg st2 p2"
      using assigned_port[OF c(3,5) c(6)[rule_format, OF True] assms(3)] by metis
    define rs' where "rs' = rs\<lparr>rs_lids := st2, rs_ports := (rs_ports rs)[k := p2], topology_changed := True\<rparr>"
    have t: "touches (pl_guid ?p) (rs_lids rs) st2" using touches_trans[OF c(2)] d(2) c(4) by simp
    have g: "pl_guid p2 = pl_guid ?p" using d(4) c(4) by simp
    have "resolve_sm_port cfg k rs = Inr (lid2, rs')" using c(1,7) d(1) True by (simp add: resolve_sm_port_def Let_def rs'_def RESERVED_LID_def)
    moreover note update_port(1)[OF assms(1,2) refl t d(3) g d(5) rs'_def]
    ultimately show ?thesis by (simp add: rs'_def)
  qed
qed

lemma topology_resolve_ok:
  assumes "rs_inv cfg rs" "k < length (rs_ports rs)" "pl_valid (rs_ports rs ! k)" "spacing_ok cfg"
  shows "\<exists>smLid maxLid rs'. topology_resolve cfg True k rs = Inr (VSTATUS_OK, smLid, maxLid, rs') \<and> rs_inv cfg rs' \<and>
    maxLid = max_lid (rs_ports rs') \<and> length (rs_ports rs') = length (rs_ports rs) \<and>
    (\<forall>i<length (rs_ports rs'). live (rs_ports rs' ! i) \<longrightarrow> settled cfg (rs_lids rs') (rs_ports rs' ! i))"
proof -
  obtain smLid rs1 where 1: "resolve_sm_port cfg k rs = Inr (smLid, rs1)" "rs_inv cfg rs1" "length (rs_ports rs1) = length (rs_ports rs)"
    using resolve_sm_port_ok[OF assms(1,2,4)] by blast
  let ?ks = "[0..<length (rs_ports rs1)]"
  obtain rs2 where 2: "for_ports (check_port cfg) ?ks rs1 = Inr rs2" "rs_inv cfg rs2" "length (rs_ports rs2) = length (rs_ports rs1)"
      "\<forall>i<length (rs_ports rs2). live (rs_ports rs2 ! i) \<longrightarrow> settled cfg (rs_lids rs2) (rs_ports rs2 ! i) \<or> pl_lid (rs_ports rs2 ! i) = 0"
    using check_pass[OF 1(2), of ?ks "{}"] by (auto simp: atLeast0LessThan)
  obtain rs3 where 3: "for_ports (assign_port cfg) ?ks rs2 = Inr rs3" "rs_inv cfg rs3" "length (rs_ports rs3) = length (rs_ports rs2)"
      "\<forall>i<length (rs_ports rs3). live (rs_ports rs3 ! i) \<longrightarrow> settled cfg (rs_lids rs3) (rs_ports rs3 ! i)"
    using assign_pass[OF 2(2) assms(4), of ?ks "{}"] 2(3,4) by (auto simp: atLeast0LessThan)
  have "topology_resolve cfg True k rs = Inr (VSTATUS_OK, smLid, max_lid (rs_ports rs3), rs3)"
    using assms(2,3) 1(1) 2(1) 3(1) by (simp add: topology_resolve_def Let_def)
  then show ?thesis using 3 2(3) 1(3) by simp
qed

text \<open>Ports that own their LIDs do not share any.\<close>

lemma owned_disjoint:
  assumes "owns st p" "owns st q" "pl_guid p \<noteq> pl_guid q"
  shows "{pl_lid p..<pl_lid p + 2 ^ pl_lmc p} \<inter> {pl_lid q..<pl_lid q + 2 ^ pl_lmc q} = {}"
proof -
  have "pl_guid p = pl_guid q" if "x \<in> {pl_lid p..<pl_lid p + 2 ^ pl_lmc p}" "x \<in> {pl_lid q..<pl_lid q + 2 ^ pl_lmc q}" for x
  proof -
    have "owner_of st x = pl_guid p" "owner_of st x = pl_guid q" using that assms(1,2) unfolding owns_def list_all_iff set_upt by blast+
    then show ?thesis by simp
  qed
  then show ?thesis using assms(3) by blast
qed

section \<open>LIDs found in the fabric\<close>

lemma touches_clear_owners: "\<forall>x\<in>set ls. owner_of st x \<in> {0, g} \<Longrightarrow> touches g st (fold clear_owner ls st)"
proof (induction ls arbitrary: st)
  case (Cons l ls)
  have t: "touches g st (clear_owner l st)" using Cons.prems by (intro touches_clear_owner) simp
  have "\<forall>x\<in>set ls. owner_of (clear_owner l st) x \<in> {0, g}" using Cons.prems by (simp add: clear_owner_def)
  then show ?case using Cons.IH touches_trans[OF t] by simp
qed simp

lemma undo_claim_ok:
  assumes "index_ok st" "pl_lid p \<noteq> 0" "\<forall>x\<in>{pl_lid p..<l}. owner_of st x = pl_guid p"
  obtains st' where "undo_claim p l st = Inr st'" "touches (pl_guid p) st st'" "index_ok st'" "map_of (ls_index st') (pl_guid p) = None"
proof -
  define s where "s = fold clear_owner (rev [pl_lid p..<l]) st"
  have t: "touches (pl_guid p) st (index_remove (pl_guid p) s)" unfolding s_def
    by (rule touches_trans[OF touches_clear_owners touches_index_remove]) (use assms(3) in simp)
  have i: "ls_index s = ls_index st" unfolding s_def by (rule fold_keeps) (simp add: clear_owner_def)
  have "index_ok (index_remove (pl_guid p) s)"
    by (rule index_ok_touches[OF assms(1) t])
      (use assms(1) i in \<open>auto simp: index_remove_def index_ok_def distinct_filter_fst\<close>)
  moreover have "map_of (ls_index (index_remove (pl_guid p) s)) (pl_guid p) = None" by (auto simp: index_remove_def map_of_eq_None_iff)
  ultimately show thesis using that t assms(2) by (simp add: undo_claim_def s_def)
qed

text \<open>The loop over the LIDs of a port whose LIDs below \<open>l\<close> are its own already.\<close>

lemma claim_reported_run:
  assumes "index_ok st" "pl_guid p \<noteq> 0" "pl_lid p \<noteq> 0" "pl_lid p \<le> l" "l \<le> e" "e \<le> UNICAST_LID_MAX + 1"
    "\<forall>x\<in>{pl_lid p..<l}. owner_of st x = pl_guid p" "map_of (ls_index st) (pl_guid p) \<in> {None, Some (pl_lid p)}"
    "map_of (ls_index st) (pl_guid p) = None \<longrightarrow> l = pl_lid p \<and> (\<forall>x\<in>{l..<e}. owner_of st x \<noteq> pl_guid p)"
  shows "\<exists>st' p'. claim_reported p (map int [l..<e]) st = Inr (st', p') \<and> touches (pl_guid p) st st' \<and> index_ok st' \<and>
    (p' = p \<and> map_of (ls_index st') (pl_guid p) \<in> {None, Some (pl_lid p)} \<or> p' = p\<lparr>pl_lid := 0\<rparr> \<and> map_of (ls_index st') (pl_guid p) = None)"
  using assms
proof (induction "e - l" arbitrary: l st)
  case 0
  then show ?case by auto
next
  case (Suc n)
  let ?g = "pl_guid p" and ?s = "set_owner p l st"
  have l: "l < e" "[l..<e] = l # [Suc l..<e]" "n = e - Suc l" using Suc.hyps(2) by (auto simp: upt_conv_Cons)
  have r: "int l \<noteq> int RESERVED_LID" "int l \<noteq> int PERMISSIVE_LID" "\<not> UNICAST_LID_MAX < l" "lid_in_range l"
    using Suc.prems(3,4,6) l(1) by (auto simp: RESERVED_LID_def PERMISSIVE_LID_def UNICAST_LID_MAX_def UNICAST_LID_MIN_def)
  have os: "owner_of ?s x = (if x = l then ?g else owner_of st x)" "ls_index ?s = ls_index st" for x by (simp_all add: set_owner_def)
  show ?case
  proof (cases "owner_of st l \<in> {0, ?g}")
    case False
    obtain st' where u: "undo_claim p l st = Inr st'" "touches ?g st st'" "index_ok st'" "map_of (ls_index st') ?g = None"
      by (rule undo_claim_ok[OF Suc.prems(1,3,7)])
    then show ?thesis using False r by (auto simp: l(2) RESERVED_LID_def)
  next
    case True
    have t: "touches ?g st ?s" by (rule touches_set_owner[OF True])
    have i: "index_ok ?s" by (rule index_ok_same[OF Suc.prems(1) t os(2)]) (use os(1) index_okD[OF Suc.prems(1)] in auto)
    obtain s where s: "index_ok s" "touches ?g ?s s" "map_of (ls_index s) ?g = Some (pl_lid p)" "ls_map s = ls_map ?s"
        "claim_reported p (map int [l..<e]) st = claim_reported p (map int [Suc l..<e]) s"
    proof (cases "map_of (ls_index st) ?g")
      case None
      then have b: "l = pl_lid p" "owner_of st l = 0" using Suc.prems(9) True l(1) by auto
      have ow: "owner_of ?s l = ?g" "map_of (ls_index ?s) ?g \<in> {None, Some l}" using os None by simp_all
      obtain s where "index_insert ?g l ?s = Inr s" "touches ?g ?s s" "index_ok s" "map_of (ls_index s) ?g = Some l" "ls_map s = ls_map ?s"
        by (rule index_ok_insert[OF i Suc.prems(2) ow(1) r(4) ow(2)])
      moreover from this(1) have "claim_reported p (map int [l..<e]) st = claim_reported p (map int [Suc l..<e]) s"
        using b(2) r Suc.prems(2) unfolding l(2) by (simp add: RESERVED_LID_def)
      ultimately show thesis using that[of s] b(1) by metis
    next
      case (Some b)
      then have "index_insert ?g l ?s = Inr ?s" using os(2) by (simp add: index_insert_def)
      then show thesis using that[of ?s] i Some Suc.prems(8) os(2) r True by (auto simp: l(2) RESERVED_LID_def)
    qed
    have "\<forall>x\<in>{pl_lid p..<Suc l}. owner_of s x = ?g" using s(4) os(1) Suc.prems(7) by (auto simp: less_Suc_eq)
    then show ?thesis using Suc.hyps(1)[OF l(3) s(1) Suc.prems(2,3)] Suc.prems(4,6) l(1) s(3,5) touches_trans[OF touches_trans[OF t s(2)]] by auto
  qed
qed

text \<open>What a port may report: LIDs within the table, or none.\<close>

definition reported_ok :: "PortLid \<Rightarrow> bool" where
  "reported_ok p \<longleftrightarrow> pl_guid p \<noteq> 0 \<and>
     (lid_in_range (pl_lid p) \<and> pl_lid p + 2 ^ pl_lmc p \<le> UNICAST_LID_MAX + 1 \<or> no_lid p \<and> pl_lmc p = 0)"

definition unknown :: "u64 \<Rightarrow> lid_state \<Rightarrow> bool" where
  "unknown g st \<longleftrightarrow> map_of (ls_index st) g = None \<and> (\<forall>x. owner_of st x \<noteq> g)"

lemma touches_new: "touches g st st' \<Longrightarrow> owner_of st' x \<in> {0, g, owner_of st x}"
  by (auto simp: touches_def split: if_splits)

lemma unknown_touches: "unknown k st \<Longrightarrow> touches g st st' \<Longrightarrow> k \<noteq> g \<Longrightarrow> k \<noteq> 0 \<Longrightarrow> unknown k st'"
  unfolding unknown_def using map_of_touches[of g st st' k] touches_new[of g st st'] by (metis insertE singletonD)

lemma claim_lids_range:
  assumes "pl_lid p + 2 ^ pl_lmc p \<le> UNICAST_LID_MAX + 1"
  shows "claim_lids p = map int [pl_lid p..<pl_lid p + 2 ^ pl_lmc p]"
proof -
  have "pl_lid p < 2 ^ 31" "pl_lid p + 2 ^ pl_lmc p < 2 ^ 31" using assms by (simp_all add: UNICAST_LID_MAX_def)
  then have "claim_lids p = [int (pl_lid p)..int (pl_lid p + 2 ^ pl_lmc p) - 1]" by (simp add: claim_lids_def int_of_u32_small)
  also have "[int a..int b - 1] = map int [a..<b]" for a b :: nat
  proof (induction "b - a" arbitrary: a)
    case 0
    then show ?case by simp
  next
    case (Suc n)
    then have "[int a..int b - 1] = int a # [int (Suc a)..int b - 1]" by (simp add: upto_rec1 add.commute)
    then show ?case using Suc.hyps(1)[of "Suc a"] Suc.hyps(2) by (simp add: upt_conv_Cons)
  qed
  finally show ?thesis .
qed

lemma claim_lids_none:
  assumes "no_lid p" "pl_lmc p = 0"
  shows "claim_lids p \<in> {[0], [65535], [-1]}"
proof -
  consider "pl_lid p = 0" | "pl_lid p = 65535" | "pl_lid p = 4294967295"
    using assms(1) by (auto simp: no_lid_def RESERVED_LID_def PERMISSIVE_LID_def STL_LID_PERMISSIVE_def)
  then show ?thesis by cases (simp_all add: claim_lids_def assms(2) int_of_u32_def)
qed

lemma claimed_port:
  assumes "index_ok st" "reported_ok p" "unknown (pl_guid p) st"
  shows "\<exists>st' p'. claim_reported p (claim_lids p) st = Inr (st', p') \<and> touches (pl_guid p) st st' \<and> index_ok st' \<and>
    port_inv cfg st' p' \<and> p' \<in> {p, p\<lparr>pl_lid := 0\<rparr>}"
proof (cases "lid_in_range (pl_lid p) \<and> pl_lid p + 2 ^ pl_lmc p \<le> UNICAST_LID_MAX + 1")
  case True
  have g: "pl_guid p \<noteq> 0" "pl_lid p \<noteq> 0" using assms(2) True by (auto simp: reported_ok_def UNICAST_LID_MIN_def)
  let ?e = "pl_lid p + 2 ^ pl_lmc p"
  have "\<exists>st' p'. claim_reported p (map int [pl_lid p..<?e]) st = Inr (st', p') \<and> touches (pl_guid p) st st' \<and> index_ok st' \<and>
      (p' = p \<and> map_of (ls_index st') (pl_guid p) \<in> {None, Some (pl_lid p)} \<or> p' = p\<lparr>pl_lid := 0\<rparr> \<and> map_of (ls_index st') (pl_guid p) = None)"
    by (rule claim_reported_run[OF assms(1) g order_refl]) (use True assms(3) in \<open>auto simp: unknown_def\<close>)
  moreover have "port_inv cfg s p" if "map_of (ls_index s) (pl_guid p) \<in> {None, Some (pl_lid p)}" for s
    using that True g(1) by (simp add: port_inv_def)
  moreover have "port_inv cfg s (p\<lparr>pl_lid := 0\<rparr>)" if "map_of (ls_index s) (pl_guid p) = None" for s
    using that g(1) by (simp add: port_inv_def recall_ok_def UNICAST_LID_MIN_def)
  ultimately show ?thesis using claim_lids_range[of p] True by auto
next
  case False
  then have p: "no_lid p" "pl_lmc p = 0" "pl_guid p \<noteq> 0" using assms(2) by (auto simp: reported_ok_def)
  then have "claim_reported p (claim_lids p) st = Inr (st, p)"
    using claim_lids_none[OF p(1,2)] by (auto simp: RESERVED_LID_def PERMISSIVE_LID_def)
  moreover have "port_inv cfg st p" using p assms(3)
    by (auto simp: port_inv_def recall_ok_def unknown_def no_lid_def RESERVED_LID_def PERMISSIVE_LID_def STL_LID_PERMISSIVE_def UNICAST_LID_MIN_def UNICAST_LID_MAX_def)
  ultimately show ?thesis using assms(1) by simp
qed

lemma claim_ports_inv:
  assumes "index_ok st" "distinct (map pl_guid ps)" "list_all (\<lambda>p. reported_ok p \<and> unknown (pl_guid p) st) ps"
  shows "\<exists>st' ps'. claim_ports ps st = Inr (st', ps') \<and> index_ok st' \<and> list_all2 (\<lambda>p p'. p' \<in> {p, p\<lparr>pl_lid := 0\<rparr>}) ps ps' \<and>
    list_all (port_inv cfg st') ps' \<and> (\<forall>q. pl_guid q \<notin> pl_guid ` set ps \<and> port_inv cfg st q \<longrightarrow> port_inv cfg st' q)"
  using assms
proof (induction ps arbitrary: st)
  case (Cons p ps)
  obtain s p' where c: "claim_reported p (claim_lids p) st = Inr (s, p')" "touches (pl_guid p) st s" "index_ok s" "port_inv cfg s p'" "p' \<in> {p, p\<lparr>pl_lid := 0\<rparr>}"
    using claimed_port[OF Cons.prems(1), of p cfg] Cons.prems(3) by auto
  have g: "pl_guid p' = pl_guid p" using c(5) by auto
  have u: "list_all (\<lambda>p. reported_ok p \<and> unknown (pl_guid p) s) ps"
    unfolding list_all_iff
  proof
    fix q assume q: "q \<in> set ps"
    then have "reported_ok q" "unknown (pl_guid q) st" "pl_guid p \<notin> pl_guid ` set ps" using Cons.prems(2,3) by (auto simp: list_all_iff)
    then have "reported_ok q" "unknown (pl_guid q) st" "pl_guid q \<noteq> pl_guid p" using imageI[OF q, of pl_guid] by auto
    then show "reported_ok q \<and> unknown (pl_guid q) s" using unknown_touches[OF _ c(2)] by (simp add: reported_ok_def)
  qed
  obtain st' ps' where r: "claim_ports ps s = Inr (st', ps')" "index_ok st'" "list_all2 (\<lambda>p p'. p' \<in> {p, p\<lparr>pl_lid := 0\<rparr>}) ps ps'"
      "list_all (port_inv cfg st') ps'" "\<forall>q. pl_guid q \<notin> pl_guid ` set ps \<and> port_inv cfg s q \<longrightarrow> port_inv cfg st' q"
    using Cons.IH[OF c(3) _ u] Cons.prems(2) by auto
  have "port_inv cfg st' p'" using r(5) c(4) g Cons.prems(2) by auto
  moreover have "port_inv cfg st' q" if "pl_guid q \<notin> pl_guid ` set (p # ps)" "port_inv cfg st q" for q
    using that r(5) port_inv_touches[OF that(2) c(2)] by auto
  ultimately show ?case using r c(1,5) by simp
qed simp

section \<open>Alignment\<close>

text \<open>The hints are aligned to the LMC they are for.\<close>

definition hint_ok :: "nat \<Rightarrow> int \<Rightarrow> bool" where
  "hint_ok m h \<longleftrightarrow> h = -1 \<or> h \<ge> 0 \<and> 2 ^ m dvd nat h"

definition hints_ok :: "lid_cfg \<Rightarrow> lid_state \<Rightarrow> bool" where
  "hints_ok cfg st \<longleftrightarrow> hint_ok 0 (lmc_0_freeLid_hint st) \<and> hint_ok (cfg_lmc_e0 cfg) (lmc_e0_freeLid_hint st) \<and> hint_ok (cfg_lmc cfg) (lmc_freeLid_hint st)"

lemma hint_ok_simps [simp]: "hint_ok m 0" "hint_ok m (-1)" "hint_ok m (int l) \<longleftrightarrow> 2 ^ m dvd l"
  by (simp_all add: hint_ok_def)

lemma align_up_dvd: "2 ^ m dvd align_up lid m"
  by (auto simp: align_up_def)

lemma hints_ok_reset: "hints_ok cfg st \<Longrightarrow> hints_ok cfg (reset_hints l st)"
  by (simp add: hints_ok_def reset_hints_def)

lemma hints_ok_no_space: "hints_ok cfg st \<Longrightarrow> hints_ok cfg (no_space st)"
  by (simp add: hints_ok_def no_space_def)

lemma hints_ok_next: "hints_ok cfg st \<Longrightarrow> hints_ok cfg (next_hints cfg n l st)"
  by (auto simp: hints_ok_def next_hints_def Let_def align_up_dvd)

lemma hints_ok_note:
  assumes "hints_ok cfg st" "n = 2 ^ j" "n dvd l" "s < n"
  shows "hints_ok cfg (note_space cfg s l st)"
proof -
  have "2 ^ m dvd l" if "2 ^ m \<le> s" for m
  proof -
    have "(2 :: nat) ^ m < 2 ^ j" using le_less_trans[OF that assms(4)] assms(2) by blast
    then have "m \<le> j" by (simp add: less_imp_le)
    then show ?thesis using assms(2,3) by (metis dvd_trans le_imp_power_dvd)
  qed
  then show ?thesis using assms(1) by (simp add: hints_ok_def note_space_def)
qed

lemma quick_scan_hints:
  assumes "hints_ok cfg st" "n = 2 ^ j" "\<forall>l\<in>set ls. n dvd l"
  shows "hints_ok cfg (snd (quick_scan cfg n ls st))"
  using assms
proof (induction ls arbitrary: st)
  case (Cons l ls)
  have "hints_ok cfg (note_space cfg (l2 - l) l st)" if "taken_after st l n = Some l2" for l2
  proof (rule hints_ok_note[OF Cons.prems(1,2)])
    show "n dvd l" using Cons.prems(3) by simp
    show "l2 - l < n" using that by (auto simp: taken_after_def find_Some_iff)
  qed
  then show ?case using Cons by (auto split: option.splits)
qed simp

lemma find_lid_quick_aligned:
  assumes "hints_ok cfg st" "n = 2 ^ j" "sm_find_lid_quick cfg n st = (r, st')"
  shows "n dvd r \<and> hints_ok cfg st'"
proof (cases "start_hint cfg st n")
  case None
  then show ?thesis using assms by (auto simp: sm_find_lid_quick_def RESERVED_LID_def)
next
  case (Some lid1)
  have d: "n dvd lid1" using Some assms(1) by (auto simp: start_hint_def Let_def hints_ok_def hint_ok_def RESERVED_LID_def split: if_splits)
  then have ls: "\<forall>l\<in>set (range_starts lid1 n). n dvd l" using range_starts_fit by (metis dvd_add dvd_triv_right)
  obtain f s where q: "quick_scan cfg n (range_starts lid1 n) (reset_hints lid1 st) = (f, s)" by force
  have h: "hints_ok cfg s" using quick_scan_hints[OF hints_ok_reset[OF assms(1)] assms(2) ls, of lid1] q by simp
  have "f \<noteq> 0 \<Longrightarrow> n dvd f" using quick_scan_result[OF q] ls by blast
  moreover have "(r, st') = (if f = 0 then (RESERVED_LID, no_space s) else (f, next_hints cfg n (f + n) s))"
    using assms(3) by (simp add: sm_find_lid_quick_def Some q)
  ultimately show ?thesis using hints_ok_no_space[OF h] hints_ok_next[OF h] by (auto simp: RESERVED_LID_def split: if_splits)
qed

lemma new_lid_aligned:
  assumes "hints_ok cfg st" "n = 2 ^ lmc" "new_lid cfg st n lmc = Inr (r, st')"
  shows "n dvd r \<and> hints_ok cfg st'"
proof -
  obtain r1 s1 where q: "sm_find_lid_quick cfg n st = (r1, s1)" by force
  note a = find_lid_quick_aligned[OF assms(1,2) q]
  have f: "full_scan s n ls = Inr x \<Longrightarrow> \<forall>l\<in>set ls. n dvd l \<Longrightarrow> n dvd x" for s ls x
    by (induction ls) (auto simp: RESERVED_LID_def split: if_splits option.splits)
  show ?thesis
  proof (cases "r1 = 0")
    case True
    then have "st' = s1" "full_scan s1 n (map (\<lambda>k. n * (k + 1)) [0..<(UNICAST_LID_MAX + 1 - 2 ^ lmc) div n]) = Inr r"
      using assms(3) q by (auto simp: new_lid_def RESERVED_LID_def map_sum_def split: sum.splits)
    then show ?thesis using f a by auto
  qed (use a q assms(3) in \<open>auto simp: new_lid_def RESERVED_LID_def\<close>)
qed

section \<open>Properties\<close>

lemma fresh_lid:
  assumes "index_ok st" "pl_guid p \<noteq> 0" "spacing_ok cfg" "map_of (ls_index st) (pl_guid p) = None" "n = lid_delta cfg lmc"
  shows "\<exists>r st' p'. sm_set_lid cfg st p lmc = Inr (r, st', p') \<and>
    (if r = 0 then ls_map st' = ls_map st \<and> p' = p \<and> (\<forall>l. 0 < l \<and> n dvd l \<and> l + n \<le> UNICAST_LID_MAX + 1 \<longrightarrow> \<not> range_free st l n)
     else range_free st r n \<and> r + n \<le> UNICAST_LID_MAX + 1 \<and> p' = p\<lparr>pl_lid := r, pl_lmc := lmc\<rparr> \<and>
       (\<forall>x. owner_of st' x = (if r \<le> x \<and> x < r + n then pl_guid p else owner_of st x)))"
proof -
  have r: "recall_ok cfg st p lmc" using assms(4) by (simp add: recall_ok_def)
  show ?thesis
  proof (cases rule: sm_set_lid_cases[OF assms(1-3) r assms(5), case_names none some])
    case (some q st')
    have "owner_of st' x = (if q \<le> x \<and> x < q + n then pl_guid p else owner_of st x)" for x using some(7,8) by auto
    then show ?thesis using some(1,2,6,9) assms(4) by simp
  qed simp
qed

lemma fresh_aligned:
  assumes "hints_ok cfg st" "topo_lid_offset cfg \<le> 1" "map_of (ls_index st) (pl_guid p) = None" "sm_set_lid cfg st p lmc = Inr (r, st', p')"
  shows "2 ^ lmc dvd r \<and> hints_ok cfg st'"
proof -
  have d: "lid_delta cfg lmc = 2 ^ lmc" using assms(2) by (auto simp: lid_delta_def)
  have rec: "recall_lid st p (2 ^ lmc) = Inr (None, st)" using assms(3) by (simp add: recall_lid_def)
  obtain q s where w: "new_lid cfg st (2 ^ lmc) lmc = Inr (q, s)" using assms(4) rec d by (auto simp: sm_set_lid_def Let_def split: sum.splits)
  note a = new_lid_aligned[OF assms(1) refl w]
  have f: "hints_ok cfg (fold (set_owner p) ls s) = hints_ok cfg s" for ls s
    by (induction ls arbitrary: s) (simp_all add: hints_ok_def set_owner_def)
  show ?thesis
  proof (cases "q = 0")
    case True
    then show ?thesis using assms(4) rec d w a by (simp add: sm_set_lid_def Let_def RESERVED_LID_def)
  next
    case False
    then obtain s1 where i: "index_insert (pl_guid p) q s = Inr s1" "take_lid p lmc (2 ^ lmc) q s1 = Inr (r, st', p')"
      using assms(4) rec d w by (auto simp: sm_set_lid_def Let_def RESERVED_LID_def split: sum.splits)
    have "hints_ok cfg s1 = hints_ok cfg s" using i(1) by (auto simp: index_insert_def hints_ok_def split: option.splits if_splits)
    moreover have "r = q" "hints_ok cfg st' = hints_ok cfg s1" using i(2) f by (auto simp: take_lid_def split: if_splits)
    ultimately show ?thesis using a by simp
  qed
qed

lemma max_lid_ge: "p \<in> set ps \<Longrightarrow> live p \<Longrightarrow> \<not> no_lid p \<Longrightarrow> pl_lid p + 2 ^ pl_lmc p - 1 \<le> max_lid ps"
proof -
  define f where "f = (\<lambda>p m. if live p \<and> \<not> no_lid p then max m (pl_lid p + 2 ^ pl_lmc p - 1) else m)"
  have mono: "m \<le> fold f ps m" for ps m by (induction ps arbitrary: m) (auto simp: f_def intro: le_trans[OF max.cobounded1])
  have "p \<in> set ps \<Longrightarrow> live p \<Longrightarrow> \<not> no_lid p \<Longrightarrow> pl_lid p + 2 ^ pl_lmc p - 1 \<le> fold f ps m" for m
  proof (induction ps arbitrary: m)
    case (Cons q ps)
    then show ?case using mono[of "f p m" ps] by (cases "q = p") (auto simp: f_def)
  qed simp
  then show "p \<in> set ps \<Longrightarrow> live p \<Longrightarrow> \<not> no_lid p \<Longrightarrow> pl_lid p + 2 ^ pl_lmc p - 1 \<le> max_lid ps" by (simp add: max_lid_def f_def)
qed

lemma recalled_conflict:
  assumes "map_of (ls_index st) (pl_guid p) = Some lid1" "lid1 < lid2" "lid2 < lid1 + n" "lid2 \<le> UNICAST_LID_MAX"
    "owner_of st lid2 \<notin> {0, pl_guid p}" "\<forall>x. lid1 < x \<and> x < lid2 \<longrightarrow> owner_of st x \<in> {0, pl_guid p}"
  shows "recall_lid st p n = Inr (None, index_remove (pl_guid p) (fold (\<lambda>_. clear_owner lid2) [lid1..<lid2] st))"
proof -
  let ?P = "\<lambda>x. x > UNICAST_LID_MAX \<or> owner_of st x \<noteq> pl_guid p \<and> owner_of st x \<noteq> 0"
  have "\<not> ?P ([lid1 + 1..<lid1 + n] ! j)" if "j < lid2 - lid1 - 1" for j
    using assms(6)[rule_format, of "Suc (lid1 + j)"] assms(3,4) that by auto
  then have "List.find ?P [lid1 + 1..<lid1 + n] = Some lid2" unfolding find_Some_iff
    by (intro exI[of _ "lid2 - lid1 - 1"]) (use assms(2-5) in auto)
  then show ?thesis using assms(1,4) by (simp add: recall_lid_def remembered_def)
qed

lemma clear_owner_fold: "ls \<noteq> [] \<Longrightarrow> owner_of (fold (\<lambda>_. clear_owner l) ls st) l = 0"
  by (induction ls rule: rev_induct) (simp_all add: clear_owner_def)

lemma new_lid_keeps: "new_lid cfg st n lmc = Inr (r, st') \<Longrightarrow> ls_map st' = ls_map st"
proof -
  obtain r1 s1 where q: "sm_find_lid_quick cfg n st = (r1, s1)" by force
  assume "new_lid cfg st n lmc = Inr (r, st')"
  then have "st' = s1" using q by (auto simp: new_lid_def map_sum_def split: if_splits sum.splits)
  then show ?thesis using find_lid_quick_result(1)[OF q] by simp
qed

lemma index_insert_keeps: "index_insert g l st = Inr st' \<Longrightarrow> ls_map st' = ls_map st"
  by (auto simp: index_insert_def split: option.splits if_splits)

lemma claim_range_conflict:
  assumes "\<forall>l\<in>set xs. owner_of st l \<in> {0, pl_guid p}" "owner_of st c \<notin> {0, pl_guid p}" "c \<notin> set xs"
  shows "\<exists>s. claim_range p (xs @ c # ys) st = (False, s) \<and> (\<forall>l\<in>set xs. owner_of s l = pl_guid p)"
  using assms
proof (induction xs arbitrary: st)
  case (Cons x xs)
  define s where "s = (if owner_of st x = 0 then set_owner p x st else st)"
  have o: "owner_of s l = (if l = x then pl_guid p else owner_of st l)" for l using Cons.prems(1) by (auto simp: s_def set_owner_def)
  have step: "claim_range p ((x # xs) @ c # ys) st = claim_range p (xs @ c # ys) s" using Cons.prems(1) by (auto simp: s_def)
  have "\<forall>l\<in>set xs. owner_of s l \<in> {0, pl_guid p}" "owner_of s c \<notin> {0, pl_guid p}" "c \<notin> set xs" using Cons.prems o by auto
  then obtain s' where s': "claim_range p (xs @ c # ys) s = (False, s')" "\<forall>l\<in>set xs. owner_of s' l = pl_guid p"
    using Cons.IH[of s] by blast
  moreover have "owner_of s' x = pl_guid p" using claim_range_result[OF s'(1)] o by simp
  ultimately show ?case using step by simp
qed auto

lemma clear_lid_elsewhere:
  assumes "sm_clear_lid st p = (st', p')" "pl_lid p + 2 ^ pl_lmc p \<le> x"
  shows "owner_of st' x = owner_of st x"
proof -
  have f: "x \<notin> set ls \<Longrightarrow> owner_of (fold (clear_step p) ls st) x = owner_of st x" for ls
    by (induction ls arbitrary: st) (auto simp: clear_step_def Let_def)
  show ?thesis using assms f by (auto simp: sm_clear_lid_def index_remove_def)
qed

text \<open>Small tables and ports on which the properties are applied.\<close>

definition no_owner :: LidMap_t where
  "no_owner = \<lparr>lm_guid = 0, lm_pass = 0, lm_newNodep = None, lm_newPortp = None\<rparr>"

definition owned_by :: "u64 \<Rightarrow> LidMap_t" where
  "owned_by g = \<lparr>lm_guid = g, lm_pass = 1, lm_newNodep = None, lm_newPortp = None\<rparr>"

definition example_cfg :: lid_cfg where
  "example_cfg = \<lparr>cfg_lmc = 1, cfg_lmc_e0 = 0, topo_lid_offset = 1\<rparr>"

definition example_lids :: "(nat \<times> u64) list \<Rightarrow> (u64 \<times> nat) list \<Rightarrow> lid_state" where
  "example_lids owners entries =
     \<lparr>ls_map = (\<lambda>l. case map_of owners l of None \<Rightarrow> no_owner | Some g \<Rightarrow> owned_by g), ls_index = entries,
      lmc_0_freeLid_hint = 1, lmc_e0_freeLid_hint = 1, lmc_freeLid_hint = 0xBFFC, topology_passcount = 0\<rparr>"

definition example_port :: "nat \<Rightarrow> u64 \<Rightarrow> nat \<Rightarrow> nat \<Rightarrow> PortLid" where
  "example_port k g lid lmc =
     \<lparr>pl_id = k, pl_node = k, pl_is_switch = False, pl_enhancedPort0 = False, pl_guid = g, pl_lid = lid, pl_lmc = lmc,
      pl_valid = True, pl_state = 4, pl_peer = None\<rparr>"

lemmas example_defs = no_owner_def owned_by_def example_cfg_def example_lids_def example_port_def



text \<open>What the pass gives to the ports, as facts about any two of them.\<close>

lemma resolved_lids:
  assumes "rs_inv cfg rs" "smPort < length (rs_ports rs)" "pl_valid (rs_ports rs ! smPort)" "spacing_ok cfg"
    "topology_resolve cfg True smPort rs = Inr (VSTATUS_OK, smLid, maxLid, rs')"
  shows "p \<in> set (rs_ports rs') \<Longrightarrow> live p \<Longrightarrow> owns (rs_lids rs') p \<and> pl_lmc p = temp_lmc cfg p \<and> pl_lid p + 2 ^ pl_lmc p \<le> maxLid + 1"
    "p \<in> set (rs_ports rs') \<Longrightarrow> q \<in> set (rs_ports rs') \<Longrightarrow> p \<noteq> q \<Longrightarrow> live p \<Longrightarrow> live q \<Longrightarrow>
       {pl_lid p..<pl_lid p + 2 ^ pl_lmc p} \<inter> {pl_lid q..<pl_lid q + 2 ^ pl_lmc q} = {}"
    "distinct (map pl_guid (rs_ports rs'))" "rs_inv cfg rs'" "length (rs_ports rs') = length (rs_ports rs)"
proof -
  have r: "rs_inv cfg rs'" "maxLid = max_lid (rs_ports rs')" "length (rs_ports rs') = length (rs_ports rs)"
      "\<And>i. i < length (rs_ports rs') \<Longrightarrow> live (rs_ports rs' ! i) \<Longrightarrow> settled cfg (rs_lids rs') (rs_ports rs' ! i)"
    using topology_resolve_ok[OF assms(1-4)] assms(5) by auto
  show "rs_inv cfg rs'" "length (rs_ports rs') = length (rs_ports rs)" by (rule r(1), rule r(3))
  show d: "distinct (map pl_guid (rs_ports rs'))" using r(1) by (simp add: rs_inv_def)
  have s: "settled cfg (rs_lids rs') p" if "p \<in> set (rs_ports rs')" "live p" for p using r(4) that by (auto simp: in_set_conv_nth)
  show o: "owns (rs_lids rs') p \<and> pl_lmc p = temp_lmc cfg p \<and> pl_lid p + 2 ^ pl_lmc p \<le> maxLid + 1" if "p \<in> set (rs_ports rs')" "live p" for p
    using s[OF that] max_lid_ge[OF that settled_has_lid[OF s[OF that]]] r(2) by (auto simp: settled_def)
  show "{pl_lid p..<pl_lid p + 2 ^ pl_lmc p} \<inter> {pl_lid q..<pl_lid q + 2 ^ pl_lmc q} = {}"
    if "p \<in> set (rs_ports rs')" "q \<in> set (rs_ports rs')" "p \<noteq> q" "live p" "live q" for p q
  proof -
    have "pl_guid p \<noteq> pl_guid q" using d that(1-3) by (auto simp: distinct_map inj_on_def)
    then show ?thesis using owned_disjoint o that by blast
  qed
qed

text \<open>
  C19. After the pass over the end ports every port that is up has the LMC it should have, LIDs within the
  table and up to the maximum reported, and no LID in common with another port. This rests on the table
  and the map agreeing about the ports before (\<open>rs_inv\<close>), which the pass keeps.
\<close>

theorem resolve_lids_disjoint:
  assumes "rs_inv cfg rs" and "smPort < length (rs_ports rs)" and "pl_valid (rs_ports rs ! smPort)" and "spacing_ok cfg"
  shows "\<exists>smLid maxLid rs'. topology_resolve cfg True smPort rs = Inr (VSTATUS_OK, smLid, maxLid, rs') \<and> rs_inv cfg rs' \<and>
    length (rs_ports rs') = length (rs_ports rs) \<and>
    (\<forall>i<length (rs_ports rs'). let p = rs_ports rs' ! i in live p \<longrightarrow>
       pl_lmc p = temp_lmc cfg p \<and> UNICAST_LID_MIN \<le> pl_lid p \<and> pl_lid p + 2 ^ pl_lmc p \<le> UNICAST_LID_MAX + 1 \<and>
       pl_lid p + 2 ^ pl_lmc p \<le> maxLid + 1 \<and>
       (\<forall>j<length (rs_ports rs'). let q = rs_ports rs' ! j in j \<noteq> i \<and> live q \<longrightarrow>
          {pl_lid p..<pl_lid p + 2 ^ pl_lmc p} \<inter> {pl_lid q..<pl_lid q + 2 ^ pl_lmc q} = {}))"
proof -
  obtain smLid maxLid rs' where r: "topology_resolve cfg True smPort rs = Inr (VSTATUS_OK, smLid, maxLid, rs')"
    using topology_resolve_ok[OF assms] by blast
  note f = resolved_lids[OF assms r]
  have ne: "rs_ports rs' ! i \<noteq> rs_ports rs' ! j" if "i < length (rs_ports rs')" "j < length (rs_ports rs')" "j \<noteq> i" for i j
    using f(3) that by (metis distinct_map nth_eq_iff_index_eq)
  have "let p = rs_ports rs' ! i in live p \<longrightarrow>
       pl_lmc p = temp_lmc cfg p \<and> UNICAST_LID_MIN \<le> pl_lid p \<and> pl_lid p + 2 ^ pl_lmc p \<le> UNICAST_LID_MAX + 1 \<and>
       pl_lid p + 2 ^ pl_lmc p \<le> maxLid + 1 \<and>
       (\<forall>j<length (rs_ports rs'). let q = rs_ports rs' ! j in j \<noteq> i \<and> live q \<longrightarrow>
          {pl_lid p..<pl_lid p + 2 ^ pl_lmc p} \<inter> {pl_lid q..<pl_lid q + 2 ^ pl_lmc q} = {})" if i: "i < length (rs_ports rs')" for i
    unfolding Let_def using f(1)[OF nth_mem[OF i]] f(2)[OF nth_mem[OF i] nth_mem] ne[OF i] unfolding owns_def by blast
  then show ?thesis using r f(4,5) by blast
qed

theorem resolve_lids_disjoint_witness:
  "\<exists>smLid maxLid rs'. topology_resolve example_cfg True 0
     \<lparr>rs_lids = example_lids [(2, 9), (3, 9)] [(9, 2)], rs_ports = [example_port 0 5 0 0, example_port 1 9 2 1], topology_changed = False\<rparr> =
     Inr (VSTATUS_OK, smLid, maxLid, rs') \<and> length (rs_ports rs') = 2"
proof -
  let ?rs = "\<lparr>rs_lids = example_lids [(2, 9), (3, 9)] [(9, 2)], rs_ports = [example_port 0 5 0 0, example_port 1 9 2 1], topology_changed = False\<rparr>"
  have "index_ok (rs_lids ?rs)" by (simp add: index_ok_def example_defs UNICAST_LID_MIN_def UNICAST_LID_MAX_def)
  moreover have "list_all (port_inv example_cfg (rs_lids ?rs)) (rs_ports ?rs)"
    by (simp add: port_inv_def recall_ok_def example_defs temp_lmc_def UNICAST_LID_MIN_def UNICAST_LID_MAX_def)
  ultimately have "rs_inv example_cfg ?rs" by (simp add: rs_inv_def example_port_def)
  moreover have "0 < length (rs_ports ?rs)" "pl_valid (rs_ports ?rs ! 0)" "spacing_ok example_cfg" by (simp_all add: example_defs spacing_ok_def)
  ultimately show ?thesis using resolve_lids_disjoint[of example_cfg ?rs 0] by fastforce
qed

text \<open>
  C21. The agreement that the pass over the end ports rests on is there after the first discovery: starting from the
  cleared table, the ports that the discovery comes to, with distinct GUIDs and each with LIDs within the
  table or none, take the LIDs they report; a port that meets the LIDs of an earlier one gives all of its
  own back and is left without.
\<close>

theorem claimed_ports_inv:
  assumes "distinct (map pl_guid ps)" and "list_all reported_ok ps"
  shows "\<exists>st' ps'. claim_ports ps (reset_lids cfg st) = Inr (st', ps') \<and> rs_inv cfg \<lparr>rs_lids = st', rs_ports = ps', topology_changed = b\<rparr> \<and>
    list_all2 (\<lambda>p p'. p' \<in> {p, p\<lparr>pl_lid := RESERVED_LID\<rparr>}) ps ps'"
proof -
  have i: "index_ok (reset_lids cfg st)" by (simp add: index_ok_def reset_lids_def)
  have u: "list_all (\<lambda>p. reported_ok p \<and> unknown (pl_guid p) (reset_lids cfg st)) ps"
    using assms(2) by (auto simp: list_all_iff unknown_def reset_lids_def reported_ok_def)
  obtain st' ps' where r: "claim_ports ps (reset_lids cfg st) = Inr (st', ps')" "index_ok st'" "list_all2 (\<lambda>p p'. p' \<in> {p, p\<lparr>pl_lid := 0\<rparr>}) ps ps'"
      "list_all (port_inv cfg st') ps'"
    using claim_ports_inv[OF i assms(1) u] by blast
  have "map pl_guid ps' = map pl_guid ps" using r(3) by (induction rule: list_all2_induct) auto
  then show ?thesis using r assms(1) by (simp add: rs_inv_def RESERVED_LID_def)
qed

theorem claimed_ports_inv_witness:
  "\<exists>st' ps'. claim_ports [example_port 0 5 2 1, example_port 1 9 3 0] (reset_lids example_cfg (example_lids [] [])) = Inr (st', ps') \<and>
     rs_inv example_cfg \<lparr>rs_lids = st', rs_ports = ps', topology_changed = False\<rparr>"
proof -
  have "distinct (map pl_guid [example_port 0 5 2 1, example_port 1 9 3 0])" by (simp add: example_port_def)
  moreover have "list_all reported_ok [example_port 0 5 2 1, example_port 1 9 3 0]"
    by (simp add: example_port_def reported_ok_def UNICAST_LID_MIN_def UNICAST_LID_MAX_def)
  ultimately show ?thesis using claimed_ports_inv[of "[example_port 0 5 2 1, example_port 1 9 3 0]" example_cfg "example_lids [] []" False] by blast
qed



text \<open>
  C23. LIDs are lost: a port that had its LMC raised and meets a LID of another port in its larger range
  keeps, as an owner in the table, the free LIDs it had taken so far beyond its old range, although it
  ends up without a LID and without an entry in the map.
\<close>

theorem check_lid_leaks:
  assumes "lid_in_range (pl_lid p)" and "pl_guid p \<noteq> 0" and "pl_lmc p < newLmc" and "2 ^ newLmc dvd pl_lid p" and "pl_lid p + 2 ^ newLmc \<le> UNICAST_LID_MAX + 1"
    and "pl_lid p + 2 ^ pl_lmc p \<le> x" and "x < c" and "c < pl_lid p + 2 ^ newLmc"
    and "\<forall>l. pl_lid p \<le> l \<and> l < c \<longrightarrow> owner_of st l \<in> {0, pl_guid p}" and "owner_of st c \<notin> {0, pl_guid p}"
  shows "\<exists>st' p'. sm_check_lid cfg st p newLmc = Inr (RESERVED_LID, st', p') \<and> pl_lid p' = RESERVED_LID \<and>
    map_of (ls_index st') (pl_guid p) = None \<and> owner_of st' x = pl_guid p"
proof -
  let ?e = "pl_lid p + 2 ^ newLmc"
  have le: "pl_lid p \<le> c" "pl_lid p \<le> x" using assms(6,7) by simp_all
  have "[pl_lid p..<?e] = [pl_lid p..<c] @ [c..<?e]" using upt_add_eq_append[OF le(1), of "?e - c"] assms(8) by simp
  then have u: "[pl_lid p..<?e] = [pl_lid p..<c] @ c # [Suc c..<?e]" using assms(8) by (simp add: upt_conv_Cons)
  obtain s where s: "claim_range p [pl_lid p..<?e] st = (False, s)" "\<forall>l\<in>set [pl_lid p..<c]. owner_of s l = pl_guid p"
    using claim_range_conflict[of "[pl_lid p..<c]" st p c "[Suc c..<?e]"] assms(9,10) unfolding u by auto
  obtain st' p' where k: "sm_clear_lid s p = (st', p')" by force
  have "sm_check_lid cfg st p newLmc = Inr (RESERVED_LID, st', p')"
    using assms(1,3-5) s(1) k by (simp add: sm_check_lid_def Let_def dvd_eq_mod_eq_0)
  moreover have "owner_of st' x = pl_guid p" using clear_lid_elsewhere[OF k assms(6)] s(2) assms(7) le by simp
  ultimately show ?thesis using sm_clear_lid_result[OF k] by (auto simp: RESERVED_LID_def)
qed

theorem check_lid_leaks_witness:
  "\<exists>st' p'. sm_check_lid example_cfg (example_lids [(4, 5), (7, 9)] [(5, 4)]) (example_port 0 5 4 0) 2 = Inr (RESERVED_LID, st', p') \<and>
     pl_lid p' = RESERVED_LID \<and> map_of (ls_index st') 5 = None \<and> owner_of st' 6 = 5"
  using check_lid_leaks[of "example_port 0 5 4 0" 2 6 7 "example_lids [(4, 5), (7, 9)] [(5, 4)]" example_cfg]
  by (simp add: example_defs UNICAST_LID_MIN_def UNICAST_LID_MAX_def)

end
