(* ===== verification/CsContext.thy ===== *)
theory CsContext
  imports FM_Prelude
begin

unbundle bit_operations_syntax

text \<open>
  The pool of contexts for requests that wait for a response (\<^verbatim>\<open>cs_context.c\<close>): entries on a free list or on
  the hash list of the LID they were sent to, doubly linked through the entries themselves; retries,
  ageing, and the release of an entry with the call of its callback. Entries are told apart by their
  offset in the pool. What the callback changes besides the pool, and the network, is a state \<open>'w\<close> that is
  threaded through; \<open>'d\<close> is the type of the callback's data.
\<close>

section \<open>Data\<close>

text \<open>What the pool reads of a management datagram.\<close>

record Mad_t =
  m_slid :: u16
  m_dlid :: u16
  m_tid :: u64
  m_aid :: u16
  m_amod :: u32
  m_status :: u16
  m_is_error :: bool

definition empty_mad :: Mad_t where
  "empty_mad = \<lparr>m_slid = 0, m_dlid = 0, m_tid = 0, m_aid = 0, m_amod = 0, m_status = 0, m_is_error = False\<rparr>"

record 'd cntxt_entry =
  tstamp :: u64
  ce_tid :: u64
  ce_lid :: u16
  ce_index :: u16
  hashed :: bool
  alloced :: bool
  retries :: u16
  RespTimeout :: u64
  cumulative_timeout :: u64
  senderWantsResponse :: bool
  sendFailed :: bool
  releasing :: bool
  ce_mad :: Mad_t
  callback :: "'d option"
  next_entry :: "nat option"
  prev_entry :: "nat option"

definition CNTXT_HASH_TABLE_DEPTH :: nat where
  "CNTXT_HASH_TABLE_DEPTH = 79"

text \<open>The response queue is the list of its elements and its capacity. \<open>wakeups\<close> counts the posts on the semaphore.\<close>

record 'd generic_cntxt =
  hashTableDepth :: nat
  poolSize :: nat
  maxRetries :: int
  defaultTimeout :: u64
  totalTimeout :: u64
  MinRespTimeout :: u64
  errorOnSendFail :: bool
  timeoutAdder :: u64
  numAlloc :: int
  numFree :: int
  numWaiters :: int
  wakeups :: nat
  resp_queue :: "(nat list \<times> nat) option"
  free_list :: "nat option"
  hash_heads :: "nat \<Rightarrow> nat option"
  pool :: "nat \<Rightarrow> 'd cntxt_entry"

type_synonym 'd entries = "nat \<Rightarrow> 'd cntxt_entry"

definition zero_entry :: "u16 \<Rightarrow> 'd cntxt_entry" where
  "zero_entry i = \<lparr>tstamp = 0, ce_tid = 0, ce_lid = 0, ce_index = i, hashed = False, alloced = False, retries = 0, RespTimeout = 0,
     cumulative_timeout = 0, senderWantsResponse = False, sendFailed = False, releasing = False, ce_mad = empty_mad, callback = None,
     next_entry = None, prev_entry = None\<rparr>"

abbreviation update_entry :: "nat \<Rightarrow> ('d cntxt_entry \<Rightarrow> 'd cntxt_entry) \<Rightarrow> 'd generic_cntxt \<Rightarrow> 'd generic_cntxt" where
  "update_entry i f c \<equiv> c\<lparr>pool := (pool c)(i := f (pool c i))\<rparr>"

section \<open>Lists\<close>

definition cntxt_delete_entry :: "nat option \<Rightarrow> nat \<Rightarrow> 'd entries \<Rightarrow> nat option \<times> 'd entries" where
  "cntxt_delete_entry listCntx entry p =
     (let (head, p1) =
            (if listCntx = Some entry then (next_entry (p entry), p)
             else let q = (case prev_entry (p entry) of None \<Rightarrow> p | Some a \<Rightarrow> p(a := (p a)\<lparr>next_entry := next_entry (p entry)\<rparr>))
                  in (listCntx, case next_entry (q entry) of None \<Rightarrow> q | Some b \<Rightarrow> q(b := (q b)\<lparr>prev_entry := prev_entry (q entry)\<rparr>)))
      in (head, p1(entry := (p1 entry)\<lparr>next_entry := None, prev_entry := None\<rparr>)))"

definition cntxt_insert_head :: "nat option \<Rightarrow> nat \<Rightarrow> 'd entries \<Rightarrow> nat option \<times> 'd entries" where
  "cntxt_insert_head listCntx entry p =
     (let p1 = (case listCntx of None \<Rightarrow> p | Some h \<Rightarrow> p(h := (p h)\<lparr>prev_entry := Some entry\<rparr>))
      in (Some entry, p1(entry := (p1 entry)\<lparr>next_entry := listCntx, prev_entry := None\<rparr>)))"

definition bucket_of :: "'d generic_cntxt \<Rightarrow> u16 \<Rightarrow> nat" where
  "bucket_of cntx lid = (if hashTableDepth cntx > 1 then unat lid mod hashTableDepth cntx else 0)"

definition cntxt_reserve :: "u64 \<Rightarrow> nat \<Rightarrow> 'd generic_cntxt \<Rightarrow> 'd generic_cntxt" where
  "cntxt_reserve now i cntx =
     (let e = pool cntx i;
          c1 = update_entry i (\<lambda>e. e\<lparr>ce_lid := m_dlid (ce_mad e), ce_tid := m_tid (ce_mad e), RespTimeout := defaultTimeout cntx,
                 hashed := True, tstamp := now\<rparr>) cntx;
          b = bucket_of cntx (m_dlid (ce_mad e));
          (h, p) = cntxt_insert_head (hash_heads c1 b) i (pool c1)
      in c1\<lparr>hash_heads := (hash_heads c1)(b := h), pool := p\<rparr>)"

definition cntxt_unhash :: "nat \<Rightarrow> 'd generic_cntxt \<Rightarrow> 'd generic_cntxt" where
  "cntxt_unhash i cntx =
     (let c1 = (if hashed (pool cntx i)
                then let b = bucket_of cntx (ce_lid (pool cntx i));
                         c = update_entry i (\<lambda>e. e\<lparr>hashed := False\<rparr>) cntx;
                         (h, p) = cntxt_delete_entry (hash_heads c b) i (pool c)
                     in c\<lparr>hash_heads := (hash_heads c)(b := h), pool := p\<rparr>
                else cntx)
      in update_entry i (\<lambda>e. e\<lparr>prev_entry := None, next_entry := None\<rparr>) c1)"

definition cs_cntxt_retire_nolock :: "nat \<Rightarrow> 'd generic_cntxt \<Rightarrow> 'd generic_cntxt" where
  "cs_cntxt_retire_nolock i cntx =
     (let c1 = cntxt_unhash i cntx;
          c2 = update_entry i (\<lambda>e. zero_entry (ce_index e)) c1;
          (h, p) = cntxt_insert_head (free_list c2) i (pool c2);
          c3 = c2\<lparr>free_list := h, pool := p, numFree := numFree c2 + 1, numAlloc := numAlloc c2 - 1\<rparr>
      in if numWaiters c3 \<noteq> 0 then c3\<lparr>numWaiters := numWaiters c3 - 1, wakeups := wakeups c3 + 1\<rparr> else c3)"

definition cs_cntxt_retire :: "Status_t \<Rightarrow> nat \<Rightarrow> 'd generic_cntxt \<Rightarrow> 'd generic_cntxt" where
  "cs_cntxt_retire lock i cntx = (if lock \<noteq> VSTATUS_OK then cntx else cs_cntxt_retire_nolock i cntx)"

definition cs_entxt_reuse_nolock :: "u64 \<Rightarrow> nat \<Rightarrow> Mad_t option \<Rightarrow> 'd generic_cntxt \<Rightarrow> 'd generic_cntxt" where
  "cs_entxt_reuse_nolock now i mad cntx =
     (let c1 = update_entry i (\<lambda>e. (zero_entry (ce_index e))\<lparr>alloced := True\<rparr>) cntx
      in case mad of None \<Rightarrow> c1 | Some m \<Rightarrow> cntxt_reserve now i (update_entry i (\<lambda>e. e\<lparr>ce_mad := m\<rparr>) c1))"

text \<open>The build of the fabric manager defines \<^verbatim>\<open>IB_STACK_OPENIB\<close>, so the lower half of the transaction ID counts.\<close>

definition MAI_MASK_TID :: "u64 \<Rightarrow> u64" where
  "MAI_MASK_TID t = t AND 0xffffffff"

definition mad_matches :: "Mad_t \<Rightarrow> 'd cntxt_entry \<Rightarrow> bool" where
  "mad_matches mad e \<longleftrightarrow> ce_lid e = m_slid mad \<and> MAI_MASK_TID (ce_tid e) = MAI_MASK_TID (m_tid mad)"

text \<open>A walk along a list, \<open>None\<close> when it is longer than the pool.\<close>

fun find_from :: "nat \<Rightarrow> Mad_t \<Rightarrow> 'd entries \<Rightarrow> nat option \<Rightarrow> nat option option" where
  "find_from fuel mad p None = Some None"
| "find_from 0 mad p (Some i) = None"
| "find_from (Suc fuel) mad p (Some i) = (if mad_matches mad (p i) then Some (Some i) else find_from fuel mad p (next_entry (p i)))"

definition cntxt_find :: "Mad_t \<Rightarrow> 'd generic_cntxt \<Rightarrow> nat option option" where
  "cntxt_find mad cntx = find_from (poolSize cntx) mad (pool cntx) (hash_heads cntx (bucket_of cntx (m_slid mad)))"

section \<open>Release\<close>

type_synonym ('d, 'w) cntxt_callback_t =
  "nat \<Rightarrow> Status_t \<Rightarrow> 'd \<Rightarrow> Mad_t option \<Rightarrow> 'd generic_cntxt \<times> 'w \<Rightarrow> ('d generic_cntxt \<times> 'w) c_result"

definition queue_response :: "nat \<Rightarrow> 'd generic_cntxt \<Rightarrow> Mad_t option \<Rightarrow> nat list \<Rightarrow> nat \<Rightarrow> 'd generic_cntxt" where
  "queue_response i c mad q cap =
     (let c1 = update_entry i (\<lambda>e. e\<lparr>ce_mad := (case mad of Some m \<Rightarrow> m | None \<Rightarrow> (ce_mad e)\<lparr>m_is_error := True\<rparr>)\<rparr>) c
      in if length q < cap then c1\<lparr>resp_queue := Some (q @ [i], cap)\<rparr> else cs_cntxt_retire_nolock i c1)"

definition cntxt_release ::
  "('d, 'w) cntxt_callback_t \<Rightarrow> nat \<Rightarrow> Status_t \<Rightarrow> Mad_t option \<Rightarrow> 'd generic_cntxt \<times> 'w \<Rightarrow> ('d generic_cntxt \<times> 'w) c_result" where
  "cntxt_release cb i s mad = (\<lambda>(cntx, w).
     let c1 = update_entry i (\<lambda>e. e\<lparr>releasing := True\<rparr>) (cntxt_unhash i cntx); e = pool c1 i;
         by_callback = (case (case callback e of None \<Rightarrow> Inr (c1, w) | Some d \<Rightarrow> cb i s d mad (c1, w)) of
             Inl err \<Rightarrow> Inl err
           | Inr (c2, w2) \<Rightarrow> Inr (if releasing (pool c2 i) then cs_cntxt_retire_nolock i c2 else c2, w2))
     in if senderWantsResponse e
        then case resp_queue c1 of
               None \<Rightarrow> by_callback
             | Some (q, cap) \<Rightarrow> if callback e \<noteq> None then Inl AssertFailed else Inr (queue_response i c1 mad q cap, w)
        else by_callback)"

section \<open>Sending and retries\<close>

type_synonym 'w sender = "Mad_t \<Rightarrow> u64 \<Rightarrow> 'w \<Rightarrow> Status_t \<times> 'w"

definition cs_cntxt_send_mad_nolock :: "'w sender \<Rightarrow> u64 \<Rightarrow> nat \<Rightarrow> 'd generic_cntxt \<times> 'w \<Rightarrow> Status_t \<times> 'd generic_cntxt \<times> 'w" where
  "cs_cntxt_send_mad_nolock mai_send now i = (\<lambda>(cntx, w).
     let c1 = (if hashed (pool cntx i) then update_entry i (\<lambda>e. e\<lparr>sendFailed := False\<rparr>) cntx else cntxt_reserve now i cntx);
         c2 = update_entry i (\<lambda>e. e\<lparr>retries := retries e + 1\<rparr>) c1;
         (status, w1) = mai_send (ce_mad (pool c2 i)) (RespTimeout (pool c2 i)) w
     in (status, if status \<noteq> VSTATUS_OK then update_entry i (\<lambda>e. e\<lparr>sendFailed := True\<rparr>) c2 else c2, w1))"

text \<open>\<open>rand\<close> is the random number the C library returns, a nonnegative \<open>int\<close>.\<close>

definition GET_RANDOM :: "u64 \<Rightarrow> u64 \<Rightarrow> u64 \<Rightarrow> u64 c_result" where
  "GET_RANDOM rand high low = (if high - low = 0 then Inl DivisionByZero else Inr (rand mod (high - low) + low))"

definition stepped_timeout :: "u64 \<Rightarrow> 'd generic_cntxt \<Rightarrow> 'd cntxt_entry \<Rightarrow> u64 c_result" where
  "stepped_timeout rand cntx e =
     (let t = (ucast (retries e) + 1) * MinRespTimeout cntx in
      case GET_RANDOM rand (t + t div 5) (t - t div 5) of
        Inl err \<Rightarrow> Inl err
      | Inr t1 \<Rightarrow>
          Inr (if cumulative_timeout e < totalTimeout cntx \<and> cumulative_timeout e + t1 > totalTimeout cntx
               then let t2 = totalTimeout cntx - cumulative_timeout e in if t2 < MinRespTimeout cntx then MinRespTimeout cntx else t2
               else t1))"

definition retry_due :: "'d generic_cntxt \<Rightarrow> 'd cntxt_entry \<Rightarrow> bool" where
  "retry_due cntx e \<longleftrightarrow>
     (if MinRespTimeout cntx = 0 then int (unat (retries e)) < maxRetries cntx else cumulative_timeout e < totalTimeout cntx)"

definition cs_cntxt_timeout_entry ::
  "'w sender \<Rightarrow> ('w \<Rightarrow> u64 \<times> 'w) \<Rightarrow> u64 \<Rightarrow> nat \<Rightarrow> 'd generic_cntxt \<times> 'w \<Rightarrow> (Status_t \<times> 'd generic_cntxt \<times> 'w) c_result" where
  "cs_cntxt_timeout_entry mai_send rand timenow i = (\<lambda>(cntx, w).
     let c1 = update_entry i (\<lambda>e. e\<lparr>tstamp := timenow\<rparr>) cntx;
         stepped =
           (if MinRespTimeout cntx = 0 then Inr (c1, w)
            else let c2 = update_entry i (\<lambda>e. e\<lparr>cumulative_timeout := cumulative_timeout e + RespTimeout e\<rparr>) c1; (r, w1) = rand w
                 in map_sum id (\<lambda>t. (update_entry i (\<lambda>e. e\<lparr>RespTimeout := t\<rparr>) c2, w1)) (stepped_timeout r c2 (pool c2 i)))
     in case stepped of
          Inl err \<Rightarrow> Inl err
        | Inr (c3, w3) \<Rightarrow>
            if retry_due c3 (pool c3 i)
            then case cs_cntxt_send_mad_nolock mai_send timenow i (c3, w3) of
                   (status, c4, w4) \<Rightarrow> Inr (if status \<noteq> VSTATUS_OK then VSTATUS_BAD else VSTATUS_OK, c4, w4)
            else Inr (VSTATUS_TIMEOUT, c3, w3))"

section \<open>Ageing\<close>

definition expired :: "u64 \<Rightarrow> 'd generic_cntxt \<Rightarrow> 'd cntxt_entry \<Rightarrow> bool" where
  "expired timenow cntx e \<longleftrightarrow> timenow - tstamp e \<ge> RespTimeout e + (if sendFailed e then 0 else timeoutAdder cntx)"

definition release_due :: "'d generic_cntxt \<Rightarrow> Status_t \<Rightarrow> bool" where
  "release_due cntx status \<longleftrightarrow> status = VSTATUS_TIMEOUT \<or> errorOnSendFail cntx \<and> status \<noteq> VSTATUS_OK"

definition time_left :: "u64 \<Rightarrow> 'd generic_cntxt \<Rightarrow> 'd cntxt_entry \<Rightarrow> u64" where
  "time_left timenow cntx e = RespTimeout e - (timenow - tstamp e) + (if sendFailed e then 0 else timeoutAdder cntx)"

definition smaller :: "u64 \<Rightarrow> u64 \<Rightarrow> u64" where
  "smaller smallest t = (if smallest \<noteq> 0 then (if t < smallest then t else smallest) else t)"

text \<open>One entry of the walk: the new state and smallest time left.\<close>

definition age_entry ::
  "('d, 'w) cntxt_callback_t \<Rightarrow> 'w sender \<Rightarrow> ('w \<Rightarrow> u64 \<times> 'w) \<Rightarrow> u64 \<Rightarrow> nat \<Rightarrow> u64 \<Rightarrow> 'd generic_cntxt \<times> 'w \<Rightarrow>
   (u64 \<times> 'd generic_cntxt \<times> 'w) c_result" where
  "age_entry cb mai_send rand timenow i smallest = (\<lambda>(cntx, w).
     let rest = (\<lambda>(c, w). (smaller smallest (time_left timenow c (pool c i)), c, w)) in
     if expired timenow cntx (pool cntx i)
     then case cs_cntxt_timeout_entry mai_send rand timenow i (cntx, w) of
            Inl err \<Rightarrow> Inl err
          | Inr (status, c1, w1) \<Rightarrow>
              if release_due c1 status then map_sum id (\<lambda>x. (smallest, x)) (cntxt_release cb i status None (c1, w1))
              else Inr (rest (c1, w1))
     else Inr (rest (cntx, w)))"

fun age_list ::
  "('d, 'w) cntxt_callback_t \<Rightarrow> 'w sender \<Rightarrow> ('w \<Rightarrow> u64 \<times> 'w) \<Rightarrow> u64 \<Rightarrow> nat \<Rightarrow> nat option \<Rightarrow> u64 \<times> 'd generic_cntxt \<times> 'w \<Rightarrow>
   (u64 \<times> 'd generic_cntxt \<times> 'w) c_result option" where
  "age_list cb mai_send rand timenow fuel None x = Some (Inr x)"
| "age_list cb mai_send rand timenow 0 (Some i) x = None"
| "age_list cb mai_send rand timenow (Suc fuel) (Some i) (smallest, cntx, w) =
     (let nxt = next_entry (pool cntx i) in
      case age_entry cb mai_send rand timenow i smallest (cntx, w) of
        Inl err \<Rightarrow> Some (Inl err)
      | Inr x \<Rightarrow> age_list cb mai_send rand timenow fuel nxt x)"

fun age_buckets ::
  "('d, 'w) cntxt_callback_t \<Rightarrow> 'w sender \<Rightarrow> ('w \<Rightarrow> u64 \<times> 'w) \<Rightarrow> u64 \<Rightarrow> nat list \<Rightarrow> u64 \<times> 'd generic_cntxt \<times> 'w \<Rightarrow>
   (u64 \<times> 'd generic_cntxt \<times> 'w) c_result option" where
  "age_buckets cb mai_send rand timenow [] x = Some (Inr x)"
| "age_buckets cb mai_send rand timenow (b # bs) (smallest, cntx, w) =
     (case age_list cb mai_send rand timenow (poolSize cntx) (hash_heads cntx b) (smallest, cntx, w) of
        None \<Rightarrow> None
      | Some (Inl err) \<Rightarrow> Some (Inl err)
      | Some (Inr x) \<Rightarrow> age_buckets cb mai_send rand timenow bs x)"

definition cs_cntxt_age ::
  "Status_t \<Rightarrow> ('d, 'w) cntxt_callback_t \<Rightarrow> 'w sender \<Rightarrow> ('w \<Rightarrow> u64 \<times> 'w) \<Rightarrow> u64 \<Rightarrow> 'd generic_cntxt \<times> 'w \<Rightarrow>
   (u64 \<times> 'd generic_cntxt \<times> 'w) c_result option" where
  "cs_cntxt_age lock cb mai_send rand timenow = (\<lambda>(cntx, w).
     if lock \<noteq> VSTATUS_OK then Some (Inr (0, cntx, w))
     else age_buckets cb mai_send rand timenow [0..<hashTableDepth cntx] (0, cntx, w))"

section \<open>Getting a context, responses\<close>

definition cs_cntxt_get_nolock :: "u64 \<Rightarrow> Mad_t option \<Rightarrow> bool \<Rightarrow> 'd generic_cntxt \<Rightarrow> nat option \<times> 'd generic_cntxt" where
  "cs_cntxt_get_nolock now mad wait cntx =
     (case free_list cntx of
        Some i \<Rightarrow>
          (let (h, p) = cntxt_delete_entry (free_list cntx) i (pool cntx);
               c1 = update_entry i (\<lambda>e. e\<lparr>alloced := True\<rparr>)
                      (cntx\<lparr>free_list := h, pool := p, numAlloc := numAlloc cntx + 1, numFree := numFree cntx - 1\<rparr>)
           in (Some i, case mad of None \<Rightarrow> c1 | Some m \<Rightarrow> cntxt_reserve now i (update_entry i (\<lambda>e. e\<lparr>ce_mad := m\<rparr>) c1)))
      | None \<Rightarrow> (None, if wait then cntx\<lparr>numWaiters := numWaiters cntx + 1\<rparr> else cntx))"

definition cs_cntxt_get :: "Status_t \<Rightarrow> u64 \<Rightarrow> Mad_t option \<Rightarrow> bool \<Rightarrow> 'd generic_cntxt \<Rightarrow> nat option \<times> 'd generic_cntxt" where
  "cs_cntxt_get lock now mad wait cntx = (if lock \<noteq> VSTATUS_OK then (None, cntx) else cs_cntxt_get_nolock now mad wait cntx)"

definition cs_cntxt_send_mad :: "Status_t \<Rightarrow> 'w sender \<Rightarrow> u64 \<Rightarrow> nat \<Rightarrow> 'd generic_cntxt \<times> 'w \<Rightarrow> Status_t \<times> 'd generic_cntxt \<times> 'w" where
  "cs_cntxt_send_mad lock mai_send now i x = (if lock \<noteq> VSTATUS_OK then (lock, x) else cs_cntxt_send_mad_nolock mai_send now i x)"

definition cs_cntxt_set_callback :: "nat \<Rightarrow> 'd option \<Rightarrow> 'd generic_cntxt \<Rightarrow> 'd generic_cntxt" where
  "cs_cntxt_set_callback i cb cntx = update_entry i (\<lambda>e. e\<lparr>callback := cb\<rparr>) cntx"

definition cs_cntxt_find_release ::
  "Status_t \<Rightarrow> ('d, 'w) cntxt_callback_t \<Rightarrow> Mad_t \<Rightarrow> 'd generic_cntxt \<times> 'w \<Rightarrow> ('d generic_cntxt \<times> 'w) c_result option" where
  "cs_cntxt_find_release lock cb mad = (\<lambda>(cntx, w).
     if lock \<noteq> VSTATUS_OK then Some (Inr (cntx, w))
     else case cntxt_find mad cntx of
            None \<Rightarrow> None
          | Some None \<Rightarrow> Some (Inr (cntx, w))
          | Some (Some i) \<Rightarrow> Some (cntxt_release cb i VSTATUS_OK (Some mad) (cntx, w)))"

definition cs_cntxt_find_release_error ::
  "Status_t \<Rightarrow> ('d, 'w) cntxt_callback_t \<Rightarrow> 'w sender \<Rightarrow> ('w \<Rightarrow> u64 \<times> 'w) \<Rightarrow> u64 \<Rightarrow> Mad_t \<Rightarrow> 'd generic_cntxt \<times> 'w \<Rightarrow>
   ('d generic_cntxt \<times> 'w) c_result option" where
  "cs_cntxt_find_release_error lock cb mai_send rand timenow mad = (\<lambda>(cntx, w).
     if lock \<noteq> VSTATUS_OK then Some (Inr (cntx, w))
     else case cntxt_find mad cntx of
            None \<Rightarrow> None
          | Some None \<Rightarrow> Some (Inr (cntx, w))
          | Some (Some i) \<Rightarrow>
              Some (case cs_cntxt_timeout_entry mai_send rand timenow i (cntx, w) of
                      Inl err \<Rightarrow> Inl err
                    | Inr (status, c1, w1) \<Rightarrow> if release_due c1 status then cntxt_release cb i status None (c1, w1) else Inr (c1, w1)))"

section \<open>Initialisation\<close>

text \<open>
  The configuration fields are set by the caller before. Of a lock that cannot be initialised the pool
  is freed, but the status is that of the semaphore; the pool is then \<open>None\<close>.
\<close>

definition init_list :: "'d generic_cntxt \<Rightarrow> 'd generic_cntxt" where
  "init_list cntx = fold (\<lambda>i c. let (h, p) = cntxt_insert_head (free_list c) i ((pool c)(i := (pool c i)\<lparr>ce_index := of_nat i + 1\<rparr>))
                             in c\<lparr>free_list := h, pool := p\<rparr>) [0..<poolSize cntx] cntx"

definition cs_cntxt_instance_init ::
  "bool \<Rightarrow> Status_t \<Rightarrow> Status_t \<Rightarrow> u64 \<Rightarrow> 'd generic_cntxt \<Rightarrow> Status_t \<times> 'd generic_cntxt option" where
  "cs_cntxt_instance_init alloc_ok lock_init sema_create timeout cntx =
     (if (case resp_queue cntx of None \<Rightarrow> False | Some (q, cap) \<Rightarrow> cap < poolSize cntx) then (VSTATUS_ILLPARM, Some cntx)
      else if \<not> alloc_ok then (VSTATUS_NOMEM, Some cntx)
      else let c1 = init_list (cntx\<lparr>pool := \<lambda>_. zero_entry 0, defaultTimeout := timeout, numAlloc := 0, numFree := int (poolSize cntx), free_list := None\<rparr>)
           in (sema_create, if lock_init \<noteq> VSTATUS_OK then None else Some c1))"

definition cs_cntxt_instance_free :: "Status_t \<Rightarrow> 'd generic_cntxt \<Rightarrow> Status_t \<times> 'd generic_cntxt" where
  "cs_cntxt_instance_free pool_free cntx =
     (pool_free, \<lparr>hashTableDepth = 0, poolSize = 0, maxRetries = 0, defaultTimeout = 0, totalTimeout = 0, MinRespTimeout = 0, errorOnSendFail = False,
        timeoutAdder = 0, numAlloc = 0, numFree = 0, numWaiters = 0, wakeups = 0, resp_queue = None, free_list = None, hash_heads = \<lambda>_. None,
        pool = \<lambda>_. zero_entry 0\<rparr>)"

section \<open>Doubly linked lists\<close>

text \<open>
  A segment of a list: the links forward, and backward from every element but the first, whose \<open>prev\<close> is
  not read when \<open>pre\<close> is \<open>None\<close> (the code leaves an old value there when it removes the head).
\<close>

primrec dseg :: "'d entries \<Rightarrow> nat option \<Rightarrow> nat option \<Rightarrow> nat list \<Rightarrow> nat option \<Rightarrow> bool" where
  "dseg p x pre [] y \<longleftrightarrow> x = y"
| "dseg p x pre (a # as) y \<longleftrightarrow> x = Some a \<and> (pre \<noteq> None \<longrightarrow> prev_entry (p a) = pre) \<and> dseg p (next_entry (p a)) (Some a) as y"

abbreviation dlist :: "'d entries \<Rightarrow> nat option \<Rightarrow> nat list \<Rightarrow> bool" where
  "dlist p x xs \<equiv> dseg p x None xs None"

definition first_of :: "nat list \<Rightarrow> nat option" where
  "first_of xs = (case xs of [] \<Rightarrow> None | x # _ \<Rightarrow> Some x)"

lemma first_of_simps [simp]: "first_of [] = None" "first_of (x # xs) = Some x"
  by (simp_all add: first_of_def)

lemma dseg_append:
  "dseg p x pre (as @ bs) z \<longleftrightarrow> (\<exists>y. dseg p x pre as y \<and> dseg p y (if as = [] then pre else Some (last as)) bs z)"
  by (induction as arbitrary: x pre) auto

lemma dseg_cong:
  "\<forall>i\<in>set xs. next_entry (p i) = next_entry (q i) \<and> prev_entry (p i) = prev_entry (q i) \<Longrightarrow> dseg p x pre xs y = dseg q x pre xs y"
  by (induction xs arbitrary: x pre) auto

lemma dlist_first: "dseg p x pre xs None \<Longrightarrow> x = first_of xs"
  by (cases xs) auto

lemma dseg_weaken: "dseg p x pre xs y \<Longrightarrow> dseg p x None xs y"
  by (cases xs) auto

lemma dseg_unique: "dseg p x pre as None \<Longrightarrow> dseg p x pre' bs None \<Longrightarrow> as = bs"
proof (induction as arbitrary: x pre pre' bs)
  case Nil
  then show ?case by (cases bs) auto
next
  case (Cons a as)
  then show ?case by (cases bs) auto
qed

lemma dseg_distinct: "dseg p x pre xs None \<Longrightarrow> distinct xs"
proof (induction xs arbitrary: x pre)
  case (Cons a as)
  have "a \<notin> set as"
  proof
    assume "a \<in> set as"
    then obtain bs cs where s: "as = bs @ a # cs" by (auto simp: in_set_conv_decomp)
    obtain q where q: "dseg p (next_entry (p a)) q as None" using Cons.prems by auto
    then have "\<exists>y q'. dseg p y q' (a # cs) None" unfolding s dseg_append by blast
    then obtain q' where "dseg p (next_entry (p a)) q' cs None" by auto
    then have "as = cs" using dseg_unique[OF q] by blast
    then show False using s by simp
  qed
  then show ?case using Cons by auto
qed simp

definition payload :: "'d cntxt_entry \<Rightarrow> 'd cntxt_entry" where
  "payload e = e\<lparr>next_entry := None, prev_entry := None\<rparr>"

lemma payload_fields:
  assumes "payload e = payload f"
  shows "hashed e = hashed f" "alloced e = alloced f" "ce_lid e = ce_lid f" "ce_tid e = ce_tid f" "ce_mad e = ce_mad f" "callback e = callback f"
    "retries e = retries f" "RespTimeout e = RespTimeout f" "tstamp e = tstamp f" "sendFailed e = sendFailed f" "releasing e = releasing f"
    "senderWantsResponse e = senderWantsResponse f" "cumulative_timeout e = cumulative_timeout f"
  using assms by (cases e, cases f, simp add: payload_def)+

text \<open>Inserting at the head.\<close>

lemma insert_head_ok:
  assumes "dlist p h xs" "e \<notin> set xs" "cntxt_insert_head h e p = (h', p')"
  shows "dlist p' h' (e # xs)" "\<And>i. i \<notin> set (e # xs) \<Longrightarrow> p' i = p i" "\<And>i. payload (p' i) = payload (p i)"
proof -
  have h: "h = first_of xs" by (rule dlist_first[OF assms(1)])
  have h': "h' = Some e" using assms(3) by (auto simp: cntxt_insert_head_def Let_def)
  show o: "p' i = p i" if "i \<notin> set (e # xs)" for i using that assms(3) h by (cases xs) (auto simp: cntxt_insert_head_def Let_def)
  show "payload (p' i) = payload (p i)" for i
    using assms(3) by (auto simp: cntxt_insert_head_def Let_def payload_def split: option.splits)
  have l: "next_entry (p' e) = h" using assms(3) by (auto simp: cntxt_insert_head_def Let_def)
  have "dseg p' h (Some e) xs None"
  proof (cases xs)
    case (Cons a as)
    have a: "next_entry (p' a) = next_entry (p a)" "prev_entry (p' a) = Some e"
      using assms(2,3) h Cons by (auto simp: cntxt_insert_head_def Let_def)
    have "a \<notin> set as" using dseg_distinct[OF assms(1)] Cons by simp
    have eq: "p' = (p(a := (p a)\<lparr>prev_entry := Some e\<rparr>))(e := (p e)\<lparr>next_entry := Some a, prev_entry := None\<rparr>)"
      using assms(2,3) h Cons by (auto simp: cntxt_insert_head_def Let_def)
    have "p' i = p i" if "i \<in> set as" for i
    proof -
      have "i \<noteq> a" "i \<noteq> e" using that \<open>a \<notin> set as\<close> assms(2) Cons by auto
      then show ?thesis by (simp add: eq)
    qed
    then have "\<forall>i\<in>set as. p' i = p i" by blast
    then have "dseg p' (next_entry (p a)) (Some a) as None" using assms(1) Cons dseg_cong[of as p' p] by simp
    then show ?thesis using a h Cons by simp
  qed (use h in simp)
  then show "dlist p' h' (e # xs)" using l h' by simp
qed

text \<open>Removing an element.\<close>

lemma delete_head_ok:
  assumes "dlist p h (e # xs)" "cntxt_delete_entry h e p = (h', p')"
  shows "dlist p' h' xs" "\<And>i. i \<noteq> e \<Longrightarrow> p' i = p i" "payload (p' e) = payload (p e)"
proof -
  have r: "h' = next_entry (p e)" "p' = p(e := (p e)\<lparr>next_entry := None, prev_entry := None\<rparr>)"
    using assms by (auto simp: cntxt_delete_entry_def)
  show "p' i = p i" if "i \<noteq> e" for i using that r(2) by simp
  have "\<forall>i\<in>set xs. p' i = p i" using dseg_distinct[OF assms(1)] r(2) by auto
  then show "dlist p' h' xs" using assms(1) r(1) dseg_cong[of xs p' p] dseg_weaken by auto
  show "payload (p' e) = payload (p e)" by (simp add: r(2) payload_def)
qed

lemma delete_inner_ok:
  assumes "dlist p h (as @ a # e # bs)" "cntxt_delete_entry h e p = (h', p')"
  shows "dlist p' h' (as @ a # bs)" "\<And>i. i \<notin> set (as @ a # e # bs) \<Longrightarrow> p' i = p i" "\<And>i. payload (p' i) = payload (p i)"
proof -
  have d: "distinct (as @ a # e # bs)" by (rule dseg_distinct[OF assms(1)])
  have h: "h = first_of (as @ [a])" using dlist_first[OF assms(1)] by (cases as) auto
  obtain y where y: "dseg p h None (as @ [a]) y" "dseg p y (Some a) (e # bs) None" using assms(1) dseg_append[of p h None "as @ [a]" "e # bs" None] by auto
  then have s: "y = Some e" "prev_entry (p e) = Some a" "dseg p (next_entry (p e)) (Some e) bs None" by auto
  have n: "next_entry (p e) = first_of bs" by (rule dlist_first[OF s(3)])
  have ne: "h \<noteq> Some e" "a \<noteq> e" using d h by (cases as; simp)+
  define q where "q = p(a := (p a)\<lparr>next_entry := first_of bs\<rparr>)"
  have p': "h' = h" "p' = (let r = (case bs of [] \<Rightarrow> q | b # _ \<Rightarrow> q(b := (q b)\<lparr>prev_entry := Some a\<rparr>)) in r(e := (r e)\<lparr>next_entry := None, prev_entry := None\<rparr>))"
    using assms(2) ne s(2) n by (auto simp: cntxt_delete_entry_def q_def Let_def split: list.splits)
  show "p' i = p i" if "i \<notin> set (as @ a # e # bs)" for i using that by (cases bs) (simp_all add: p'(2) q_def)
  show "payload (p' i) = payload (p i)" for i by (auto simp: p'(2) q_def Let_def payload_def split: list.splits)
  have other: "p' i = p i" if "i \<noteq> a" "i \<noteq> e" "first_of bs \<noteq> Some i" for i
    using that by (cases bs) (simp_all add: p'(2) q_def)
  have "i \<noteq> a \<and> i \<noteq> e \<and> first_of bs \<noteq> Some i" if "i \<in> set as" for i using that d by (cases bs) auto
  then have eq: "\<forall>i\<in>set as. p' i = p i" using other by blast
  have a: "next_entry (p' a) = first_of bs" "prev_entry (p' a) = prev_entry (p a)" using d by (auto simp: p'(2) q_def Let_def split: list.splits)
  obtain z where z: "dseg p h None as z" "z = Some a" "as \<noteq> [] \<longrightarrow> prev_entry (p a) = Some (last as)" using y(1) by (auto simp: dseg_append split: if_splits)
  have "dseg p' (first_of bs) (Some a) bs None"
  proof (cases bs)
    case (Cons b cs)
    have "i \<noteq> a \<and> i \<noteq> e \<and> first_of bs \<noteq> Some i" if "i \<in> set cs" for i using that d Cons by auto
    then have "\<forall>i\<in>set cs. p' i = p i" using other by blast
    moreover have "next_entry (p' b) = next_entry (p b)" "prev_entry (p' b) = Some a" using d Cons by (simp_all add: p'(2) q_def)
    ultimately show ?thesis using s(3) Cons dseg_cong[of cs p' p] by auto
  qed simp
  moreover have "dseg p' h None as z" using z(1) dseg_cong[of as p' p] eq by simp
  ultimately show "dlist p' h' (as @ a # bs)" using z(2,3) a by (auto simp: dseg_append p'(1))
qed

lemma delete_entry_ok:
  assumes "dlist p h xs" "e \<in> set xs" "cntxt_delete_entry h e p = (h', p')"
  shows "dlist p' h' (removeAll e xs)" "\<And>i. i \<notin> set xs \<Longrightarrow> p' i = p i" "\<And>i. payload (p' i) = payload (p i)"
proof -
  obtain as bs where x: "xs = as @ e # bs" using assms(2) by (auto simp: in_set_conv_decomp)
  have d: "removeAll e xs = as @ bs" using dseg_distinct[OF assms(1)] x by (simp add: removeAll_id)
  have "dlist p' h' (removeAll e xs) \<and> (\<forall>i. i \<notin> set xs \<longrightarrow> p' i = p i) \<and> (\<forall>i. payload (p' i) = payload (p i))"
  proof (cases as rule: rev_cases)
    case Nil
    note r = delete_head_ok[of p h e bs, OF _ assms(3)]
    have "payload (p' i) = payload (p i)" for i using r(2,3) assms(1) x Nil by (cases "i = e") auto
    then show ?thesis using r assms(1) x Nil d by auto
  next
    case (snoc cs a)
    note r = delete_inner_ok[of p h cs a e bs, OF _ assms(3)]
    show ?thesis using r assms(1) x snoc d by auto
  qed
  then show "dlist p' h' (removeAll e xs)" "\<And>i. i \<notin> set xs \<Longrightarrow> p' i = p i" "\<And>i. payload (p' i) = payload (p i)" by blast+
qed

section \<open>The invariant of a pool\<close>

text \<open>
  \<open>fr\<close> are the entries on the free list, \<open>bs b\<close> those on the hash list \<open>b\<close>: the entries of the pool that are not
  allocated, and those that are hashed, by their LID.
\<close>

definition cntx_ok :: "'d generic_cntxt \<Rightarrow> nat list \<Rightarrow> (nat \<Rightarrow> nat list) \<Rightarrow> bool" where
  "cntx_ok c fr bs \<longleftrightarrow> dlist (pool c) (free_list c) fr \<and> (\<forall>b. dlist (pool c) (hash_heads c b) (bs b)) \<and>
     set fr = {i. i < poolSize c \<and> \<not> alloced (pool c i)} \<and>
     (\<forall>b. set (bs b) = {i. i < poolSize c \<and> hashed (pool c i) \<and> bucket_of c (ce_lid (pool c i)) = b}) \<and>
     (\<forall>i<poolSize c. hashed (pool c i) \<longrightarrow> alloced (pool c i)) \<and>
     numFree c = int (length fr) \<and> numAlloc c + numFree c = int (poolSize c)"

lemma cntx_okD:
  assumes "cntx_ok c fr bs"
  shows "dlist (pool c) (free_list c) fr" "dlist (pool c) (hash_heads c b) (bs b)"
    "i \<in> set fr \<longleftrightarrow> i < poolSize c \<and> \<not> alloced (pool c i)"
    "i \<in> set (bs b) \<longleftrightarrow> i < poolSize c \<and> hashed (pool c i) \<and> bucket_of c (ce_lid (pool c i)) = b"
    "i < poolSize c \<Longrightarrow> hashed (pool c i) \<Longrightarrow> alloced (pool c i)"
    "numFree c = int (length fr)" "numAlloc c = int (poolSize c) - int (length fr)" "distinct fr" "distinct (bs b)"
proof -
  show "dlist (pool c) (free_list c) fr" "dlist (pool c) (hash_heads c b) (bs b)"
    "i \<in> set fr \<longleftrightarrow> i < poolSize c \<and> \<not> alloced (pool c i)"
    "i \<in> set (bs b) \<longleftrightarrow> i < poolSize c \<and> hashed (pool c i) \<and> bucket_of c (ce_lid (pool c i)) = b"
    "i < poolSize c \<Longrightarrow> hashed (pool c i) \<Longrightarrow> alloced (pool c i)"
    "numFree c = int (length fr)" "numAlloc c = int (poolSize c) - int (length fr)"
    using assms by (auto simp: cntx_ok_def)
  then show "distinct fr" "distinct (bs b)" by (auto dest: dseg_distinct)
qed

lemma cntx_okI:
  assumes "dlist (pool c) (free_list c) fr" "\<And>b. dlist (pool c) (hash_heads c b) (bs b)"
    "\<And>i. i \<in> set fr \<longleftrightarrow> i < poolSize c \<and> \<not> alloced (pool c i)"
    "\<And>i b. i \<in> set (bs b) \<longleftrightarrow> i < poolSize c \<and> hashed (pool c i) \<and> bucket_of c (ce_lid (pool c i)) = b"
    "\<And>i. i < poolSize c \<Longrightarrow> hashed (pool c i) \<Longrightarrow> alloced (pool c i)"
    "numFree c = int (length fr)" "numAlloc c = int (poolSize c) - int (length fr)"
  shows "cntx_ok c fr bs"
  using assms by (auto simp: cntx_ok_def)

text \<open>The configuration, which no operation changes.\<close>

definition same_config :: "'d generic_cntxt \<Rightarrow> 'd generic_cntxt \<Rightarrow> bool" where
  "same_config c c' \<longleftrightarrow> hashTableDepth c' = hashTableDepth c \<and> poolSize c' = poolSize c \<and> maxRetries c' = maxRetries c \<and>
     defaultTimeout c' = defaultTimeout c \<and> totalTimeout c' = totalTimeout c \<and> MinRespTimeout c' = MinRespTimeout c \<and>
     errorOnSendFail c' = errorOnSendFail c \<and> timeoutAdder c' = timeoutAdder c"

lemma same_config_refl [simp]: "same_config c c"
  by (simp add: same_config_def)

lemma same_config_trans [trans]: "same_config c c' \<Longrightarrow> same_config c' c'' \<Longrightarrow> same_config c c''"
  by (simp add: same_config_def)

lemma same_config_bucket: "same_config c c' \<Longrightarrow> bucket_of c' = bucket_of c"
  by (simp add: same_config_def bucket_of_def fun_eq_iff)

text \<open>What is in the entries apart from the links, outside entry \<open>i\<close>.\<close>

definition only_entry :: "nat \<Rightarrow> 'd generic_cntxt \<Rightarrow> 'd generic_cntxt \<Rightarrow> bool" where
  "only_entry i c c' \<longleftrightarrow> same_config c c' \<and> (\<forall>j. j \<noteq> i \<longrightarrow> payload (pool c' j) = payload (pool c j))"

lemma only_entry_refl [simp]: "only_entry i c c"
  by (simp add: only_entry_def)

lemma only_entry_trans: "only_entry i c c' \<Longrightarrow> only_entry i c' c'' \<Longrightarrow> only_entry i c c''"
  by (auto simp: only_entry_def intro: same_config_trans)

lemma only_entry_config: "only_entry i c c' \<Longrightarrow> same_config c c'"
  by (simp add: only_entry_def)

text \<open>Changing data of an entry that the lists do not depend on.\<close>

lemma update_data:
  assumes "cntx_ok c fr bs" "next_entry (f (pool c i)) = next_entry (pool c i)" "prev_entry (f (pool c i)) = prev_entry (pool c i)"
    "hashed (f (pool c i)) = hashed (pool c i)" "alloced (f (pool c i)) = alloced (pool c i)" "ce_lid (f (pool c i)) = ce_lid (pool c i)"
  shows "cntx_ok (update_entry i f c) fr bs" "only_entry i c (update_entry i f c)"
proof -
  let ?p = "(pool c)(i := f (pool c i))"
  have s: "next_entry (?p j) = next_entry (pool c j)" "prev_entry (?p j) = prev_entry (pool c j)" "hashed (?p j) = hashed (pool c j)"
    "alloced (?p j) = alloced (pool c j)" "ce_lid (?p j) = ce_lid (pool c j)" for j using assms(2-6) by auto
  have "dseg ?p x None xs None = dseg (pool c) x None xs None" for x xs by (rule dseg_cong) (use s in blast)
  then show "cntx_ok (update_entry i f c) fr bs" using assms(1) by (simp add: cntx_ok_def s bucket_of_def del: fun_upd_apply)
  show "only_entry i c (update_entry i f c)" by (simp add: only_entry_def same_config_def)
qed

lemma reserve_ok:
  assumes "cntx_ok c fr bs" "i < poolSize c" "alloced (pool c i)" "\<not> hashed (pool c i)"
  defines "b \<equiv> bucket_of c (m_dlid (ce_mad (pool c i)))"
  shows "cntx_ok (cntxt_reserve now i c) fr (bs(b := i # bs b))" "only_entry i c (cntxt_reserve now i c)"
    "payload (pool (cntxt_reserve now i c) i) = payload ((pool c i)\<lparr>ce_lid := m_dlid (ce_mad (pool c i)), ce_tid := m_tid (ce_mad (pool c i)),
       RespTimeout := defaultTimeout c, hashed := True, tstamp := now\<rparr>)"
proof -
  note ok = cntx_okD[OF assms(1)]
  define e where "e = (pool c i)\<lparr>ce_lid := m_dlid (ce_mad (pool c i)), ce_tid := m_tid (ce_mad (pool c i)),
       RespTimeout := defaultTimeout c, hashed := True, tstamp := now\<rparr>"
  define p where "p = (pool c)(i := e)"
  obtain h p' where ins: "cntxt_insert_head (hash_heads c b) i p = (h, p')" by force
  have r: "cntxt_reserve now i c = c\<lparr>hash_heads := (hash_heads c)(b := h), pool := p'\<rparr>"
    using ins by (simp add: cntxt_reserve_def Let_def p_def e_def b_def)
  have ni: "i \<notin> set (bs b')" "i \<notin> set fr" for b' using ok(3,4) assms(3,4) by auto
  have cg: "dseg p x None xs None = dseg (pool c) x None xs None" if "i \<notin> set xs" for x xs
    by (rule dseg_cong) (use that in \<open>auto simp: p_def\<close>)
  note I = insert_head_ok[OF _ ni(1) ins, of b]
  have d: "dlist p (hash_heads c b) (bs b)" using ok(2) cg ni by simp
  note I = I[OF d]
  have pay: "payload (p' j) = payload (p j)" for j using I(3) .
  have F: "hashed (p' j) = (j = i \<or> hashed (pool c j))" "alloced (p' j) = alloced (pool c j)"
      "ce_lid (p' j) = (if j = i then m_dlid (ce_mad (pool c i)) else ce_lid (pool c j))" for j
    using payload_fields[OF pay[of j]] by (auto simp: p_def e_def)
  have other: "dseg p' x None xs None = dseg (pool c) x None xs None" if "\<forall>j\<in>set xs. j \<notin> set (bs b)" "i \<notin> set xs" for x xs
  proof -
    have "p' j = p j" if "j \<in> set xs" for j using I(2)[of j] that \<open>\<forall>j\<in>set xs. j \<notin> set (bs b)\<close> \<open>i \<notin> set xs\<close> by (metis set_ConsD)
    then have "dseg p' x None xs None = dseg p x None xs None" by (intro dseg_cong) simp
    then show ?thesis using cg[OF that(2)] by simp
  qed
  have l: "dlist p' (((hash_heads c)(b := h)) b') ((bs(b := i # bs b)) b')" for b'
  proof (cases "b' = b")
    case False
    have "\<forall>j\<in>set (bs b'). j \<notin> set (bs b)" using ok(4) False by auto
    then show ?thesis using other[OF _ ni(1)] ok(2)[of b'] False by simp
  qed (use I(1) in simp)
  have "\<forall>j\<in>set fr. j \<notin> set (bs b)" using ok(3,4,5) by blast
  then have "dlist p' (free_list c) fr" using other[of fr] ok(1) ni(2) by simp
  then show "cntx_ok (cntxt_reserve now i c) fr (bs(b := i # bs b))"
  proof (intro cntx_okI)
    let ?c = "cntxt_reserve now i c"
    have B: "bucket_of ?c = bucket_of c" by (simp add: r bucket_of_def fun_eq_iff)
    show "dlist (pool ?c) (hash_heads ?c b') ((bs(b := i # bs b)) b')" for b' using l by (simp add: r)
    show "j \<in> set fr \<longleftrightarrow> j < poolSize ?c \<and> \<not> alloced (pool ?c j)" for j using ok(3) F(2) by (simp add: r)
    show "j \<in> set ((bs(b := i # bs b)) b') \<longleftrightarrow> j < poolSize ?c \<and> hashed (pool ?c j) \<and> bucket_of ?c (ce_lid (pool ?c j)) = b'" for j b'
      unfolding B using ok(4) F(1,3) assms(2,4) by (auto simp: r b_def)
    show "alloced (pool ?c j)" if "j < poolSize ?c" "hashed (pool ?c j)" for j using that ok(5) F(1,2) assms(3) by (auto simp: r)
    show "numFree ?c = int (length fr)" "numAlloc ?c = int (poolSize ?c) - int (length fr)" using ok(6,7) by (simp_all add: r)
  qed (simp add: r)
  show "only_entry i c (cntxt_reserve now i c)" using pay by (simp add: r only_entry_def same_config_def p_def)
  show "payload (pool (cntxt_reserve now i c) i) = payload ((pool c i)\<lparr>ce_lid := m_dlid (ce_mad (pool c i)), ce_tid := m_tid (ce_mad (pool c i)),
       RespTimeout := defaultTimeout c, hashed := True, tstamp := now\<rparr>)" using pay[of i] by (simp add: r p_def e_def)
qed

lemma unhash_hashed:
  assumes "cntx_ok c fr bs" "i < poolSize c" "hashed (pool c i)"
  defines "b \<equiv> bucket_of c (ce_lid (pool c i))"
  obtains p' h where "cntxt_unhash i c = c\<lparr>hash_heads := (hash_heads c)(b := h), pool := p'\<rparr>" "dlist p' h (removeAll i (bs b))"
    "\<And>j. j \<notin> set (bs b) \<Longrightarrow> p' j = pool c j" "\<And>j. payload (p' j) = payload (((pool c)(i := (pool c i)\<lparr>hashed := False\<rparr>)) j)"
proof -
  note ok = cntx_okD[OF assms(1)]
  define p where "p = (pool c)(i := (pool c i)\<lparr>hashed := False\<rparr>)"
  obtain h q where del: "cntxt_delete_entry (hash_heads c b) i p = (h, q)" by force
  define p' where "p' = q(i := (q i)\<lparr>prev_entry := None, next_entry := None\<rparr>)"
  have r: "cntxt_unhash i c = c\<lparr>hash_heads := (hash_heads c)(b := h), pool := p'\<rparr>"
    using del assms(3) by (simp add: cntxt_unhash_def Let_def p_def b_def p'_def)
  have i: "i \<in> set (bs b)" using ok(4) assms(2,3) b_def by simp
  have "dlist p (hash_heads c b) (bs b) = dlist (pool c) (hash_heads c b) (bs b)" by (rule dseg_cong) (auto simp: p_def)
  then have "dlist p (hash_heads c b) (bs b)" using ok(2) by simp
  note D = delete_entry_ok[OF this i del]
  have "dlist p' h (removeAll i (bs b)) = dlist q h (removeAll i (bs b))" by (rule dseg_cong) (auto simp: p'_def)
  then have "dlist p' h (removeAll i (bs b))" using D(1) by simp
  moreover have "p' j = pool c j" if "j \<notin> set (bs b)" for j using D(2)[OF that] that i by (auto simp: p'_def p_def)
  moreover have "payload (p' j) = payload (((pool c)(i := (pool c i)\<lparr>hashed := False\<rparr>)) j)" for j
    using D(3)[of j] by (auto simp: p'_def p_def payload_def)
  ultimately show thesis using that r by blast
qed

lemma unhash_ok:
  assumes "cntx_ok c fr bs" "i < poolSize c" "alloced (pool c i)"
  shows "cntx_ok (cntxt_unhash i c) fr (\<lambda>b. removeAll i (bs b))" "only_entry i c (cntxt_unhash i c)"
    "payload (pool (cntxt_unhash i c) i) = payload ((pool c i)\<lparr>hashed := False\<rparr>)"
proof -
  note ok = cntx_okD[OF assms(1)]
  have "cntx_ok (cntxt_unhash i c) fr (\<lambda>b. removeAll i (bs b)) \<and> only_entry i c (cntxt_unhash i c) \<and>
    payload (pool (cntxt_unhash i c) i) = payload ((pool c i)\<lparr>hashed := False\<rparr>)"
  proof (cases "hashed (pool c i)")
    case False
    define p where "p = (pool c)(i := (pool c i)\<lparr>prev_entry := None, next_entry := None\<rparr>)"
    have r: "cntxt_unhash i c = c\<lparr>pool := p\<rparr>" using False by (simp add: cntxt_unhash_def p_def)
    have ni: "i \<notin> set fr" "i \<notin> set (bs b)" for b using ok(3,4) assms(3) False by auto
    have cg: "dseg p x None xs None = dseg (pool c) x None xs None" if "i \<notin> set xs" for x xs
      by (rule dseg_cong) (use that in \<open>auto simp: p_def\<close>)
    have f: "hashed (p j) = hashed (pool c j)" "alloced (p j) = alloced (pool c j)" "ce_lid (p j) = ce_lid (pool c j)" for j by (auto simp: p_def)
    have "cntx_ok (c\<lparr>pool := p\<rparr>) fr bs" using assms(1) cg ni by (simp add: cntx_ok_def f bucket_of_def)
    moreover have "(\<lambda>b. removeAll i (bs b)) = bs" using ni(2) by (simp add: removeAll_id)
    moreover have "payload (p j) = payload (pool c j)" for j by (auto simp: p_def payload_def)
    moreover have "(pool c i)\<lparr>hashed := False\<rparr> = pool c i" using False by simp
    ultimately show ?thesis unfolding r by (simp add: only_entry_def same_config_def)
  next
    case True
    define b where "b = bucket_of c (ce_lid (pool c i))"
    obtain p' h where u: "cntxt_unhash i c = c\<lparr>hash_heads := (hash_heads c)(b := h), pool := p'\<rparr>" "dlist p' h (removeAll i (bs b))"
        "\<And>j. j \<notin> set (bs b) \<Longrightarrow> p' j = pool c j" "\<And>j. payload (p' j) = payload (((pool c)(i := (pool c i)\<lparr>hashed := False\<rparr>)) j)"
      using unhash_hashed[OF assms(1,2) True] unfolding b_def by blast
    have f: "hashed (p' j) = (j \<noteq> i \<and> hashed (pool c j))" "alloced (p' j) = alloced (pool c j)" "ce_lid (p' j) = ce_lid (pool c j)" for j
      using payload_fields[OF u(4)[of j]] by auto
    have cg: "dseg p' x None xs None = dseg (pool c) x None xs None" if "\<forall>j\<in>set xs. j \<notin> set (bs b)" for x xs
      by (rule dseg_cong) (use that u(3) in auto)
    have inb: "i \<in> set (bs b') \<longleftrightarrow> b' = b" for b' using ok(4) assms(2) True by (auto simp: b_def)
    let ?c = "cntxt_unhash i c"
    have "cntx_ok ?c fr (\<lambda>b. removeAll i (bs b))"
    proof (rule cntx_okI)
      have B: "bucket_of ?c = bucket_of c" by (simp add: u(1) bucket_of_def fun_eq_iff)
      have "\<forall>j\<in>set fr. j \<notin> set (bs b)" using ok(3,4,5) by blast
      then show "dlist (pool ?c) (free_list ?c) fr" using ok(1) cg by (simp add: u(1))
      show "dlist (pool ?c) (hash_heads ?c b') (removeAll i (bs b'))" for b'
      proof (cases "b' = b")
        case False
        have "\<forall>j\<in>set (bs b'). j \<notin> set (bs b)" using ok(4) False by auto
        then show ?thesis using ok(2)[of b'] cg inb[of b'] False by (simp add: u(1) removeAll_id)
      qed (use u(2) in \<open>simp add: u(1)\<close>)
      show "j \<in> set fr \<longleftrightarrow> j < poolSize ?c \<and> \<not> alloced (pool ?c j)" for j using ok(3) f(2) by (simp add: u(1))
      show "j \<in> set (removeAll i (bs b')) \<longleftrightarrow> j < poolSize ?c \<and> hashed (pool ?c j) \<and> bucket_of ?c (ce_lid (pool ?c j)) = b'" for j b'
        unfolding B using ok(4) f(1,3) by (auto simp: u(1))
      show "alloced (pool ?c j)" if "j < poolSize ?c" "hashed (pool ?c j)" for j using that ok(5) f(1,2) by (simp add: u(1))
      show "numFree ?c = int (length fr)" "numAlloc ?c = int (poolSize ?c) - int (length fr)" using ok(6,7) by (simp_all add: u(1))
    qed
    then show ?thesis using u(4) by (simp add: u(1) only_entry_def same_config_def)
  qed
  then show "cntx_ok (cntxt_unhash i c) fr (\<lambda>b. removeAll i (bs b))" "only_entry i c (cntxt_unhash i c)"
    "payload (pool (cntxt_unhash i c) i) = payload ((pool c i)\<lparr>hashed := False\<rparr>)" by blast+
qed

text \<open>An allocated entry that is on no list may be zeroed and put on the free list.\<close>

lemma free_entry_ok:
  assumes "cntx_ok c fr bs" "i < poolSize c" "alloced (pool c i)" "\<not> hashed (pool c i)"
    "cntxt_insert_head (free_list c) i ((pool c)(i := zero_entry k)) = (h, p')"
  shows "cntx_ok (c\<lparr>free_list := h, pool := p', numFree := numFree c + 1, numAlloc := numAlloc c - 1\<rparr>) (i # fr) bs"
    "\<And>j. payload (p' j) = payload (((pool c)(i := zero_entry k)) j)"
proof -
  note ok = cntx_okD[OF assms(1)]
  have ni: "i \<notin> set fr" "i \<notin> set (bs b)" for b using ok(3,4) assms(3,4) by auto
  let ?p = "(pool c)(i := zero_entry k)"
  have cg: "dseg ?p x None xs None = dseg (pool c) x None xs None" if "i \<notin> set xs" for x xs
    by (rule dseg_cong) (use that in auto)
  have "dlist ?p (free_list c) fr" using ok(1) cg[OF ni(1)] by simp
  note I = insert_head_ok[OF this ni(1) assms(5)]
  show pay: "payload (p' j) = payload (?p j)" for j by (rule I(3))
  have f: "hashed (p' j) = (j \<noteq> i \<and> hashed (pool c j))" "alloced (p' j) = (j \<noteq> i \<and> alloced (pool c j))" "j \<noteq> i \<Longrightarrow> ce_lid (p' j) = ce_lid (pool c j)" for j
    using payload_fields[OF pay[of j]] by (auto simp: zero_entry_def)
  let ?c = "c\<lparr>free_list := h, pool := p', numFree := numFree c + 1, numAlloc := numAlloc c - 1\<rparr>"
  show "cntx_ok ?c (i # fr) bs"
  proof (rule cntx_okI)
    have B: "bucket_of ?c = bucket_of c" by (simp add: bucket_of_def fun_eq_iff)
    show "dlist (pool ?c) (free_list ?c) (i # fr)" using I(1) by simp
    show "dlist (pool ?c) (hash_heads ?c b) (bs b)" for b
    proof -
      have "p' j = ?p j" if "j \<in> set (bs b)" for j using I(2)[of j] that ok(3,4,5) ni(2)[of b] by (metis set_ConsD)
      then have "dlist p' (hash_heads c b) (bs b) = dlist ?p (hash_heads c b) (bs b)" by (intro dseg_cong) simp
      then show ?thesis using ok(2)[of b] cg[OF ni(2)] by simp
    qed
    show "j \<in> set (i # fr) \<longleftrightarrow> j < poolSize ?c \<and> \<not> alloced (pool ?c j)" for j using ok(3) f(2) assms(2) by auto
    show "j \<in> set (bs b) \<longleftrightarrow> j < poolSize ?c \<and> hashed (pool ?c j) \<and> bucket_of ?c (ce_lid (pool ?c j)) = b" for j b
      unfolding B using ok(4)[of j b] f(1,3)[of j] assms(4) by auto
    show "alloced (pool ?c j)" if "j < poolSize ?c" "hashed (pool ?c j)" for j using that ok(5) f(1,2) by simp
    show "numFree ?c = int (length (i # fr))" "numAlloc ?c = int (poolSize ?c) - int (length (i # fr))" using ok(6,7) by simp_all
  qed
qed

lemma retire_ok:
  assumes "cntx_ok c fr bs" "i < poolSize c" "alloced (pool c i)"
  shows "cntx_ok (cs_cntxt_retire_nolock i c) (i # fr) (\<lambda>b. removeAll i (bs b))" "only_entry i c (cs_cntxt_retire_nolock i c)"
    "\<not> alloced (pool (cs_cntxt_retire_nolock i c) i)"
proof -
  let ?u = "cntxt_unhash i c"
  note u = unhash_ok[OF assms]
  have a: "i < poolSize ?u" "alloced (pool ?u i)" "\<not> hashed (pool ?u i)"
    using u(2) payload_fields[OF u(3)] assms(2,3) by (simp_all add: only_entry_def same_config_def)
  obtain h p' where ins: "cntxt_insert_head (free_list ?u) i ((pool ?u)(i := zero_entry (ce_index (pool ?u i)))) = (h, p')" by force
  note f = free_entry_ok[OF u(1) a ins]
  let ?c = "?u\<lparr>free_list := h, pool := p', numFree := numFree ?u + 1, numAlloc := numAlloc ?u - 1\<rparr>"
  have r: "cs_cntxt_retire_nolock i c = (if numWaiters ?u \<noteq> 0 then ?c\<lparr>numWaiters := numWaiters ?u - 1, wakeups := wakeups ?u + 1\<rparr> else ?c)"
    using ins by (simp add: cs_cntxt_retire_nolock_def Let_def)
  show "cntx_ok (cs_cntxt_retire_nolock i c) (i # fr) (\<lambda>b. removeAll i (bs b))" unfolding r using f(1) by (auto simp: cntx_ok_def bucket_of_def)
  have "only_entry i ?u ?c" using f(2) by (simp add: only_entry_def same_config_def)
  then have "only_entry i c ?c" using u(2) only_entry_trans by blast
  then show "only_entry i c (cs_cntxt_retire_nolock i c)" unfolding r by (auto simp: only_entry_def same_config_def)
  show "\<not> alloced (pool (cs_cntxt_retire_nolock i c) i)" using payload_fields[OF f(2)[of i]] by (simp add: r zero_entry_def)
qed

text \<open>Getting an entry.\<close>

lemma payload_alloced: "payload e = payload f \<Longrightarrow> payload (e\<lparr>alloced := a\<rparr>) = payload (f\<lparr>alloced := a\<rparr>)"
  by (cases e, cases f) (simp add: payload_def)

lemma get_free_ok:
  assumes "cntx_ok c (i # fr) bs" "cntxt_delete_entry (free_list c) i (pool c) = (h, p')"
  defines "c' \<equiv> update_entry i (\<lambda>e. e\<lparr>alloced := True\<rparr>) (c\<lparr>free_list := h, pool := p', numAlloc := numAlloc c + 1, numFree := numFree c - 1\<rparr>)"
  shows "cntx_ok c' fr bs" "only_entry i c c'" "payload (pool c' i) = payload ((pool c i)\<lparr>alloced := True\<rparr>)"
proof -
  note ok = cntx_okD[OF assms(1)]
  note D = delete_head_ok[OF ok(1) assms(2)]
  let ?p = "p'(i := (p' i)\<lparr>alloced := True\<rparr>)"
  have i: "i < poolSize c" "\<not> alloced (pool c i)" "\<not> hashed (pool c i)" using ok(3,5) by auto
  have ni: "i \<notin> set fr" "i \<notin> set (bs b)" for b using ok(4,8) i(3) by auto
  have cg: "dseg ?p x None xs None = dseg p' x None xs None" for x xs by (rule dseg_cong) auto
  have f: "j \<noteq> i \<Longrightarrow> ?p j = pool c j" for j using D(2) by simp
  have fi: "\<not> hashed (?p i)" "alloced (?p i)" using payload_fields[OF D(3)] i(3) by simp_all
  show "cntx_ok c' fr bs"
  proof (rule cntx_okI)
    have B: "bucket_of c' = bucket_of c" by (simp add: c'_def bucket_of_def fun_eq_iff)
    show "dlist (pool c') (free_list c') fr" using D(1) cg by (simp add: c'_def)
    show "dlist (pool c') (hash_heads c' b) (bs b)" for b
    proof -
      have "dlist p' (hash_heads c b) (bs b) = dlist (pool c) (hash_heads c b) (bs b)" by (rule dseg_cong) (metis D(2) ni(2))
      then show ?thesis using ok(2)[of b] cg by (simp add: c'_def)
    qed
    show "j \<in> set fr \<longleftrightarrow> j < poolSize c' \<and> \<not> alloced (pool c' j)" for j
      using ok(3)[of j] ni(1) f[of j] fi by (cases "j = i") (auto simp: c'_def)
    show "j \<in> set (bs b) \<longleftrightarrow> j < poolSize c' \<and> hashed (pool c' j) \<and> bucket_of c' (ce_lid (pool c' j)) = b" for j b
      unfolding B using ok(4)[of j b] ni(2)[of b] f[of j] fi by (cases "j = i") (auto simp: c'_def)
    show "alloced (pool c' j)" if "j < poolSize c'" "hashed (pool c' j)" for j
      using that ok(5)[of j] f[of j] fi by (cases "j = i") (auto simp: c'_def)
    show "numFree c' = int (length fr)" "numAlloc c' = int (poolSize c') - int (length fr)" using ok(6,7) by (simp_all add: c'_def)
  qed
  show "only_entry i c c'" using f by (simp add: c'_def only_entry_def same_config_def)
  show "payload (pool c' i) = payload ((pool c i)\<lparr>alloced := True\<rparr>)" using payload_alloced[OF D(3)] by (simp add: c'_def)
qed

text \<open>Free entries carry nothing over from an earlier request.\<close>

definition clean :: "'d cntxt_entry \<Rightarrow> bool" where
  "clean e \<longleftrightarrow> retries e = 0 \<and> cumulative_timeout e = 0 \<and> \<not> senderWantsResponse e \<and> \<not> sendFailed e \<and> \<not> releasing e \<and> callback e = None"

definition zero_free :: "'d generic_cntxt \<Rightarrow> bool" where
  "zero_free c \<longleftrightarrow> (\<forall>i<poolSize c. alloced (pool c i) \<or> clean (pool c i))"

lemma clean_payload: "payload e = payload f \<Longrightarrow> clean e = clean f"
  using payload_fields[of e f] by (simp add: clean_def)

lemma zero_free_entry:
  assumes "zero_free c" "only_entry i c c'" "alloced (pool c' i) \<or> clean (pool c' i)"
  shows "zero_free c'"
proof -
  have "alloced (pool c' j) \<or> clean (pool c' j)" if "j < poolSize c" for j
  proof (cases "j = i")
    case False
    then have p: "payload (pool c' j) = payload (pool c j)" using assms(2) by (simp add: only_entry_def)
    then show ?thesis using assms(1) that payload_fields[OF p] clean_payload[OF p] by (auto simp: zero_free_def)
  qed (use assms(3) in simp)
  then show ?thesis using assms(2) by (simp add: zero_free_def only_entry_def same_config_def)
qed

lemma retire_clean: "clean (pool (cs_cntxt_retire_nolock i c) i)"
proof -
  let ?u = "cntxt_unhash i c"
  obtain h p' where ins: "cntxt_insert_head (free_list ?u) i ((pool ?u)(i := zero_entry (ce_index (pool ?u i)))) = (h, p')" by force
  then have r: "pool (cs_cntxt_retire_nolock i c) = p'" by (simp add: cs_cntxt_retire_nolock_def Let_def)
  have "clean (p' i)" using ins by (auto simp: cntxt_insert_head_def Let_def clean_def zero_entry_def split: option.splits if_splits)
  then show ?thesis unfolding r .
qed

lemma retire_zero: "zero_free c \<Longrightarrow> cntx_ok c fr bs \<Longrightarrow> i < poolSize c \<Longrightarrow> alloced (pool c i) \<Longrightarrow> zero_free (cs_cntxt_retire_nolock i c)"
  using zero_free_entry[OF _ retire_ok(2)] retire_clean by blast

section \<open>Getting and finding\<close>

lemma get_none: "cntx_ok c [] bs \<Longrightarrow> cs_cntxt_get_nolock now mad b c = (None, if b then c\<lparr>numWaiters := numWaiters c + 1\<rparr> else c)"
  by (drule cntx_okD(1)) (simp add: cs_cntxt_get_nolock_def)

text \<open>A request that gets an entry is on the list of its LID.\<close>

lemma get_mad:
  assumes "cntx_ok c (i # fr) bs" "zero_free c"
  obtains c' where "cs_cntxt_get_nolock now (Some m) wt c = (Some i, c')" "cntx_ok c' fr (bs(bucket_of c (m_dlid m) := i # bs (bucket_of c (m_dlid m))))"
    "only_entry i c c'" "zero_free c'" "i < poolSize c" "clean (pool c' i)" "alloced (pool c' i)" "hashed (pool c' i)" "ce_mad (pool c' i) = m"
    "ce_lid (pool c' i) = m_dlid m" "ce_tid (pool c' i) = m_tid m" "RespTimeout (pool c' i) = defaultTimeout c" "tstamp (pool c' i) = now"
proof -
  have fl: "free_list c = Some i" using dlist_first[OF cntx_okD(1)[OF assms(1)]] by simp
  have i: "i < poolSize c" "\<not> alloced (pool c i)" using cntx_okD(3)[OF assms(1), of i] by auto
  obtain h p' where del: "cntxt_delete_entry (free_list c) i (pool c) = (h, p')" by force
  define c1 where "c1 = update_entry i (\<lambda>e. e\<lparr>alloced := True\<rparr>) (c\<lparr>free_list := h, pool := p', numAlloc := numAlloc c + 1, numFree := numFree c - 1\<rparr>)"
  note g = get_free_ok[OF assms(1) del, folded c1_def]
  define c2 where "c2 = update_entry i (\<lambda>e. e\<lparr>ce_mad := m\<rparr>) c1"
  have u: "cntx_ok c2 fr bs" "only_entry i c1 c2" unfolding c2_def by (rule update_data[OF g(1)]; simp)+
  have "clean (pool c i)" "\<not> hashed (pool c i)" using assms(2) i cntx_okD(5)[OF assms(1)] by (auto simp: zero_free_def)
  then have e2: "clean (pool c2 i)" "\<not> hashed (pool c2 i)" "alloced (pool c2 i)" "ce_mad (pool c2 i) = m"
    using payload_fields[OF g(3)] by (simp_all add: c2_def clean_def)
  have z: "i < poolSize c2" using i(1) by (simp add: c2_def c1_def)
  note R = reserve_ok[OF u(1) z e2(3,2), of now]
  note P = payload_fields[OF R(3)]
  have oc: "only_entry i c (cntxt_reserve now i c2)" using g(2) u(2) R(2) only_entry_trans by blast
  have B: "bucket_of c2 = bucket_of c" by (rule same_config_bucket[OF only_entry_config[OF only_entry_trans[OF g(2) u(2)]]])
  show thesis
  proof (rule that)
    show "cs_cntxt_get_nolock now (Some m) wt c = (Some i, cntxt_reserve now i c2)"
      using fl del by (simp add: cs_cntxt_get_nolock_def c2_def c1_def)
    show "cntx_ok (cntxt_reserve now i c2) fr (bs(bucket_of c (m_dlid m) := i # bs (bucket_of c (m_dlid m))))" using R(1) B e2(4) by simp
    show "zero_free (cntxt_reserve now i c2)" using zero_free_entry[OF assms(2) oc] P(2) e2(3) by simp
    show "clean (pool (cntxt_reserve now i c2) i)" using e2(1) P by (simp add: clean_def)
  qed (use oc i P e2 in \<open>simp_all add: c2_def c1_def\<close>)
qed

lemma find_from_ok:
  "dseg p x pre xs None \<Longrightarrow> length xs \<le> fuel \<Longrightarrow> find_from fuel mad p x = Some (List.find (\<lambda>i. mad_matches mad (p i)) xs)"
proof (induction xs arbitrary: x pre fuel)
  case (Cons a as)
  then show ?case by (cases fuel) auto
qed simp

lemma bucket_length: "cntx_ok c fr bs \<Longrightarrow> length (bs b) \<le> poolSize c"
proof -
  assume ok: "cntx_ok c fr bs"
  have "card (set (bs b)) \<le> card {..<poolSize c}" by (rule card_mono) (use cntx_okD(4)[OF ok] in auto)
  then show ?thesis using distinct_card[OF cntx_okD(9)[OF ok]] by simp
qed

lemma cntxt_find_ok:
  "cntx_ok c fr bs \<Longrightarrow> cntxt_find mad c = Some (List.find (\<lambda>i. mad_matches mad (pool c i)) (bs (bucket_of c (m_slid mad))))"
  unfolding cntxt_find_def by (rule find_from_ok[OF cntx_okD(2) bucket_length])

lemma cntxt_find_cases:
  assumes "cntx_ok c fr bs"
  obtains (none) "cntxt_find mad c = Some None" "\<forall>i<poolSize c. hashed (pool c i) \<longrightarrow> \<not> mad_matches mad (pool c i)"
    | (some) i where "cntxt_find mad c = Some (Some i)" "i < poolSize c" "hashed (pool c i)" "alloced (pool c i)" "mad_matches mad (pool c i)"
proof (cases "List.find (\<lambda>i. mad_matches mad (pool c i)) (bs (bucket_of c (m_slid mad)))")
  case None
  have "\<not> mad_matches mad (pool c i)" if "i < poolSize c" "hashed (pool c i)" for i
  proof
    assume m: "mad_matches mad (pool c i)"
    then have "i \<in> set (bs (bucket_of c (m_slid mad)))" using cntx_okD(4)[OF assms] that by (simp add: mad_matches_def)
    then show False using None m by (auto simp: find_None_iff)
  qed
  then show thesis using none cntxt_find_ok[OF assms] None by simp
next
  case (Some i)
  then have "i \<in> set (bs (bucket_of c (m_slid mad)))" "mad_matches mad (pool c i)" by (auto simp: find_Some_iff)
  then show thesis using some cntxt_find_ok[OF assms] Some cntx_okD(4,5)[OF assms] by simp
qed

end
