(* ===== verification/CsContextInv.thy ===== *)
theory CsContextInv
  imports CsContext
begin

text \<open>
  The invariant of the context pool under releases, retries and ageing, for every callback that leaves the
  pool alone; the lists of a pool in use, and the end of a request that is not answered.
\<close>

section \<open>Release, retries and ageing\<close>

text \<open>The invariant of a pool without its lists.\<close>

definition pool_ok :: "'d generic_cntxt \<Rightarrow> bool" where
  "pool_ok c \<longleftrightarrow> zero_free c \<and> (\<exists>fr bs. cntx_ok c fr bs)"

text \<open>What stays of an entry while it waits for its response.\<close>

definition kept :: "'d cntxt_entry \<Rightarrow> 'd cntxt_entry \<Rightarrow> bool" where
  "kept e e' \<longleftrightarrow> hashed e' = hashed e \<and> alloced e' = alloced e \<and> ce_lid e' = ce_lid e \<and> ce_tid e' = ce_tid e \<and> callback e' = callback e \<and>
     senderWantsResponse e' = senderWantsResponse e \<and> ce_mad e' = ce_mad e"

lemma send_hashed:
  assumes "cntx_ok c fr bs" "hashed (pool c i)" "cs_cntxt_send_mad_nolock mai_send now i (c, w) = (status, c', w')"
  shows "cntx_ok c' fr bs" "only_entry i c c'" "kept (pool c i) (pool c' i)" "retries (pool c' i) = retries (pool c i) + 1"
    "RespTimeout (pool c' i) = RespTimeout (pool c i)" "tstamp (pool c' i) = tstamp (pool c i)" "cumulative_timeout (pool c' i) = cumulative_timeout (pool c i)"
    "sendFailed (pool c' i) = (status \<noteq> VSTATUS_OK)"
proof -
  define f where "f = (\<lambda>e :: 'a cntxt_entry. e\<lparr>sendFailed := status \<noteq> VSTATUS_OK, retries := retries e + 1\<rparr>)"
  have c': "c' = update_entry i f c" using assms(2,3)
    by (cases "pool c i") (auto simp: cs_cntxt_send_mad_nolock_def Let_def f_def split: prod.splits if_splits)
  have ok: "cntx_ok (update_entry i f c) fr bs" "only_entry i c (update_entry i f c)" by (rule update_data[OF assms(1)]; simp add: f_def)+
  show "cntx_ok c' fr bs" "only_entry i c c'" unfolding c' by (rule ok)+
  show "kept (pool c i) (pool c' i)" "retries (pool c' i) = retries (pool c i) + 1"
    "RespTimeout (pool c' i) = RespTimeout (pool c i)" "tstamp (pool c' i) = tstamp (pool c i)" "cumulative_timeout (pool c' i) = cumulative_timeout (pool c i)"
    "sendFailed (pool c' i) = (status \<noteq> VSTATUS_OK)"
    unfolding c' by (simp_all add: kept_def f_def)
qed

text \<open>The part of the timeout of an entry before the decision to send again.\<close>

lemma timeout_entry_cases:
  assumes "cntx_ok c fr bs" "hashed (pool c i)" "cs_cntxt_timeout_entry mai_send rand now i (c, w) = Inr (status, c', w')"
  obtains c1 w1 where "cntx_ok c1 fr bs" "only_entry i c c1" "kept (pool c i) (pool c1 i)" "tstamp (pool c1 i) = now" "retries (pool c1 i) = retries (pool c i)"
    "sendFailed (pool c1 i) = sendFailed (pool c i)" "MinRespTimeout c = 0 \<longrightarrow> c1 = update_entry i (\<lambda>e. e\<lparr>tstamp := now\<rparr>) c \<and> w1 = w"
    "if retry_due c1 (pool c1 i) then \<exists>s. cs_cntxt_send_mad_nolock mai_send now i (c1, w1) = (s, c', w') \<and> status = (if s \<noteq> VSTATUS_OK then VSTATUS_BAD else VSTATUS_OK)
     else status = VSTATUS_TIMEOUT \<and> c' = c1 \<and> w' = w1"
proof (cases "MinRespTimeout c = 0")
  case True
  let ?f = "\<lambda>e :: 'a cntxt_entry. e\<lparr>tstamp := now\<rparr>"
  have ok: "cntx_ok (update_entry i ?f c) fr bs" "only_entry i c (update_entry i ?f c)" by (rule update_data[OF assms(1)]; simp)+
  show thesis
  proof (rule that[OF ok])
    show "if retry_due (update_entry i ?f c) (pool (update_entry i ?f c) i)
      then \<exists>s. cs_cntxt_send_mad_nolock mai_send now i (update_entry i ?f c, w) = (s, c', w') \<and> status = (if s \<noteq> VSTATUS_OK then VSTATUS_BAD else VSTATUS_OK)
      else status = VSTATUS_TIMEOUT \<and> c' = update_entry i ?f c \<and> w' = w"
      using assms(3) True by (auto simp: cs_cntxt_timeout_entry_def Let_def split: if_splits prod.splits)
  qed (simp_all add: kept_def)
next
  case False
  obtain r w1 where r: "rand w = (r, w1)" by force
  let ?g = "\<lambda>e :: 'a cntxt_entry. e\<lparr>tstamp := now, cumulative_timeout := cumulative_timeout e + RespTimeout e\<rparr>"
  obtain t where t: "stepped_timeout r (update_entry i ?g c) (pool (update_entry i ?g c) i) = Inr t"
    using assms(3) False r by (cases "stepped_timeout r (update_entry i ?g c) (pool (update_entry i ?g c) i)") (auto simp: cs_cntxt_timeout_entry_def Let_def)
  let ?f = "\<lambda>e :: 'a cntxt_entry. (?g e)\<lparr>RespTimeout := t\<rparr>"
  have ok: "cntx_ok (update_entry i ?f c) fr bs" "only_entry i c (update_entry i ?f c)" by (rule update_data[OF assms(1)]; simp)+
  show thesis
  proof (rule that[OF ok])
    show "if retry_due (update_entry i ?f c) (pool (update_entry i ?f c) i)
      then \<exists>s. cs_cntxt_send_mad_nolock mai_send now i (update_entry i ?f c, w1) = (s, c', w') \<and> status = (if s \<noteq> VSTATUS_OK then VSTATUS_BAD else VSTATUS_OK)
      else status = VSTATUS_TIMEOUT \<and> c' = update_entry i ?f c \<and> w' = w1"
      using assms(3) False t by (auto simp: cs_cntxt_timeout_entry_def Let_def r split: if_splits prod.splits)
  qed (use False in \<open>simp_all add: kept_def\<close>)
qed

lemma timeout_entry_ok:
  assumes "cntx_ok c fr bs" "hashed (pool c i)" "cs_cntxt_timeout_entry mai_send rand now i (c, w) = Inr (status, c', w')"
  shows "cntx_ok c' fr bs" "only_entry i c c'" "kept (pool c i) (pool c' i)" "tstamp (pool c' i) = now" "status \<in> {VSTATUS_OK, VSTATUS_BAD, VSTATUS_TIMEOUT}"
    "status \<noteq> VSTATUS_TIMEOUT \<longrightarrow> retries (pool c' i) = retries (pool c i) + 1"
    "MinRespTimeout c = 0 \<longrightarrow> (status = VSTATUS_TIMEOUT \<longleftrightarrow> \<not> int (unat (retries (pool c i))) < maxRetries c) \<and> RespTimeout (pool c' i) = RespTimeout (pool c i)"
proof -
  obtain c1 w1 where t: "cntx_ok c1 fr bs" "only_entry i c c1" "kept (pool c i) (pool c1 i)" "tstamp (pool c1 i) = now" "retries (pool c1 i) = retries (pool c i)"
    "MinRespTimeout c = 0 \<longrightarrow> c1 = update_entry i (\<lambda>e. e\<lparr>tstamp := now\<rparr>) c \<and> w1 = w"
    "if retry_due c1 (pool c1 i) then \<exists>s. cs_cntxt_send_mad_nolock mai_send now i (c1, w1) = (s, c', w') \<and> status = (if s \<noteq> VSTATUS_OK then VSTATUS_BAD else VSTATUS_OK)
     else status = VSTATUS_TIMEOUT \<and> c' = c1 \<and> w' = w1"
    by (rule timeout_entry_cases[OF assms])
  have m: "maxRetries c1 = maxRetries c" "MinRespTimeout c1 = MinRespTimeout c" using t(2) by (simp_all add: only_entry_def same_config_def)
  have all: "cntx_ok c' fr bs \<and> only_entry i c c' \<and> kept (pool c i) (pool c' i) \<and> tstamp (pool c' i) = now \<and> status \<in> {VSTATUS_OK, VSTATUS_BAD, VSTATUS_TIMEOUT} \<and>
    (status \<noteq> VSTATUS_TIMEOUT \<longrightarrow> retries (pool c' i) = retries (pool c i) + 1) \<and> (status = VSTATUS_TIMEOUT \<longleftrightarrow> \<not> retry_due c1 (pool c1 i)) \<and>
    RespTimeout (pool c' i) = RespTimeout (pool c1 i)"
  proof (cases "retry_due c1 (pool c1 i)")
    case False
    then show ?thesis using t by simp
  next
    case True
    then obtain s where s: "cs_cntxt_send_mad_nolock mai_send now i (c1, w1) = (s, c', w')" "status = (if s \<noteq> VSTATUS_OK then VSTATUS_BAD else VSTATUS_OK)"
      using t(7) by auto
    have h: "hashed (pool c1 i)" using t(3) assms(2) by (simp add: kept_def)
    note S = send_hashed[OF t(1) h s(1)]
    show ?thesis using S t(2-5) s(2) True only_entry_trans[OF t(2) S(2)] by (auto simp: kept_def)
  qed
  then show "cntx_ok c' fr bs" "only_entry i c c'" "kept (pool c i) (pool c' i)" "tstamp (pool c' i) = now" "status \<in> {VSTATUS_OK, VSTATUS_BAD, VSTATUS_TIMEOUT}"
    "status \<noteq> VSTATUS_TIMEOUT \<longrightarrow> retries (pool c' i) = retries (pool c i) + 1" by blast+
  show "MinRespTimeout c = 0 \<longrightarrow> (status = VSTATUS_TIMEOUT \<longleftrightarrow> \<not> int (unat (retries (pool c i))) < maxRetries c) \<and> RespTimeout (pool c' i) = RespTimeout (pool c i)"
    using all t(5,6) m by (auto simp: retry_due_def)
qed

lemma timeout_zero_free:
  assumes "cntx_ok c fr bs" "zero_free c" "i < poolSize c" "hashed (pool c i)" "cs_cntxt_timeout_entry mai_send rand now i (c, w) = Inr (status, c', w')"
  shows "zero_free c'"
proof (rule zero_free_entry[OF assms(2)])
  note t = timeout_entry_ok[OF assms(1,4,5)]
  show "only_entry i c c'" by (rule t(2))
  show "alloced (pool c' i) \<or> clean (pool c' i)" using t(3) cntx_okD(5)[OF assms(1,3,4)] by (simp add: kept_def)
qed

text \<open>
  What becomes of an entry in one pass: it is not due and stays, it is sent again, or it is released.
\<close>

definition age_outcome :: "u64 \<Rightarrow> 'd generic_cntxt \<Rightarrow> 'd cntxt_entry \<Rightarrow> 'd cntxt_entry \<Rightarrow> bool" where
  "age_outcome now c e e' \<longleftrightarrow>
     (if \<not> expired now c e then payload e' = payload e
      else kept e e' \<and> tstamp e' = now \<and> retries e' = retries e + 1 \<and>
             (MinRespTimeout c = 0 \<longrightarrow> int (unat (retries e)) < maxRetries c \<and> RespTimeout e' = RespTimeout e) \<or>
           \<not> hashed e')"

lemma age_outcome_config: "same_config c c' \<Longrightarrow> age_outcome now c' = age_outcome now c"
  by (simp add: age_outcome_def expired_def same_config_def fun_eq_iff)

lemma age_outcome_payload: "payload e = payload f \<Longrightarrow> payload e' = payload f' \<Longrightarrow> age_outcome now c e e' = age_outcome now c f f'"
  using payload_fields[of e f] payload_fields[of e' f'] by (simp add: age_outcome_def expired_def kept_def)

text \<open>A callback that leaves the pool alone, as that of the dispatcher of the subnet manager.\<close>

locale quiet_callback =
  fixes cb :: "('d, 'w) cntxt_callback_t"
  assumes quiet: "cb i s d m (c, w) = Inr (c', w') \<Longrightarrow> c' = c"
begin

text \<open>An entry that no response queue gets is retired.\<close>

lemma release_retires:
  fixes c i
  defines "c1 \<equiv> update_entry i (\<lambda>e. e\<lparr>releasing := True\<rparr>) (cntxt_unhash i c)"
  assumes "\<not> (senderWantsResponse (pool c1 i) \<and> resp_queue c1 \<noteq> None)" "cntxt_release cb i s mad (c, w) = Inr (c', w')"
  shows "c' = cs_cntxt_retire_nolock i c1"
proof -
  have "cntxt_release cb i s mad (c, w) =
    (case (case callback (pool c1 i) of None \<Rightarrow> Inr (c1, w) | Some d \<Rightarrow> cb i s d mad (c1, w)) of
      Inl err \<Rightarrow> Inl err | Inr (c2, w2) \<Rightarrow> Inr (if releasing (pool c2 i) then cs_cntxt_retire_nolock i c2 else c2, w2))"
    using assms(2) by (auto simp: cntxt_release_def c1_def Let_def split: option.splits)
  then obtain c2 where "(case callback (pool c1 i) of None \<Rightarrow> Inr (c1, w) | Some d \<Rightarrow> cb i s d mad (c1, w)) = Inr (c2, w')"
      "c' = (if releasing (pool c2 i) then cs_cntxt_retire_nolock i c2 else c2)"
    using assms(3) by (auto split: sum.splits)
  moreover have "releasing (pool c1 i)" by (simp add: c1_def)
  ultimately show ?thesis by (auto split: option.splits dest: quiet)
qed

lemma release_ok:
  assumes "cntx_ok c fr bs" "zero_free c" "i < poolSize c" "alloced (pool c i)" "cntxt_release cb i s mad (c, w) = Inr (c', w')"
  shows "\<exists>fr'. cntx_ok c' fr' (\<lambda>b. removeAll i (bs b))" "only_entry i c c'" "zero_free c'" "\<not> hashed (pool c' i)"
proof -
  let ?bs = "\<lambda>b. removeAll i (bs b)"
  let ?c1 = "update_entry i (\<lambda>e. e\<lparr>releasing := True\<rparr>) (cntxt_unhash i c)"
  note u = unhash_ok[OF assms(1,3,4)]
  have c1: "cntx_ok ?c1 fr ?bs" "only_entry i (cntxt_unhash i c) ?c1" by (rule update_data[OF u(1)]; simp)+
  have e1: "alloced (pool ?c1 i)" "\<not> hashed (pool ?c1 i)" "releasing (pool ?c1 i)" "i < poolSize ?c1"
    using payload_fields[OF u(3)] assms(3,4) u(2) by (auto simp: only_entry_def same_config_def)
  have o1: "only_entry i c ?c1" using u(2) c1(2) only_entry_trans by blast
  have z1: "zero_free ?c1" using zero_free_entry[OF assms(2) o1] e1 by blast
  have idem: "(\<lambda>b. removeAll i (?bs b)) = ?bs" by simp
  have ret: "cntx_ok (cs_cntxt_retire_nolock i d) (i # fr) ?bs \<and> only_entry i c (cs_cntxt_retire_nolock i d) \<and> zero_free (cs_cntxt_retire_nolock i d) \<and>
      \<not> hashed (pool (cs_cntxt_retire_nolock i d) i)"
    if d: "cntx_ok d fr ?bs" "only_entry i c d" "zero_free d" "i < poolSize d" "alloced (pool d i)" for d
  proof -
    note R = retire_ok[OF d(1,4,5)]
    have "\<not> hashed (pool (cs_cntxt_retire_nolock i d) i)"
      using R(3) cntx_okD(5)[OF R(1), of i] R(2) d(4) by (auto simp: only_entry_def same_config_def)
    then show ?thesis using R retire_zero[OF d(3,1,4,5)] only_entry_trans[OF d(2) R(2)] idem by simp
  qed
  have "(\<exists>fr'. cntx_ok c' fr' ?bs) \<and> only_entry i c c' \<and> zero_free c' \<and> \<not> hashed (pool c' i)"
  proof (cases "senderWantsResponse (pool ?c1 i) \<and> resp_queue ?c1 \<noteq> None")
    case True
    then obtain q cap where q: "resp_queue ?c1 = Some (q, cap)" by (cases "resp_queue ?c1") auto
    let ?c2 = "update_entry i (\<lambda>e. e\<lparr>ce_mad := (case mad of Some m \<Rightarrow> m | None \<Rightarrow> (ce_mad e)\<lparr>m_is_error := True\<rparr>)\<rparr>) ?c1"
    have c2: "cntx_ok ?c2 fr ?bs" "only_entry i ?c1 ?c2" by (rule update_data[OF c1(1)]; simp)+
    have o2: "only_entry i c ?c2" using o1 c2(2) only_entry_trans by blast
    have e2: "alloced (pool ?c2 i)" "\<not> hashed (pool ?c2 i)" "i < poolSize ?c2" using e1 by auto
    have z2: "zero_free ?c2" using zero_free_entry[OF assms(2) o2] e2 by blast
    have r: "c' = (if length q < cap then ?c2\<lparr>resp_queue := Some (q @ [i], cap)\<rparr> else cs_cntxt_retire_nolock i ?c2)"
      using assms(5) True q by (auto simp: cntxt_release_def Let_def queue_response_def split: if_splits)
    show ?thesis
    proof (cases "length q < cap")
      case False
      then show ?thesis using r ret[OF c2(1) o2 z2 e2(3,1)] by auto
    next
      case len: True
      have "cntx_ok c' fr ?bs" using c2(1) len by (simp add: r cntx_ok_def bucket_of_def)
      moreover have "only_entry i c c'" "zero_free c'" "\<not> hashed (pool c' i)"
        using o2 z2 e2(2) len by (simp_all add: r only_entry_def same_config_def zero_free_def)
      ultimately show ?thesis by blast
    qed
  next
    case False
    then have "c' = cs_cntxt_retire_nolock i ?c1" using release_retires assms(5) by blast
    then show ?thesis using ret[OF c1(1) o1 z1 e1(4,1)] by auto
  qed
  then show "\<exists>fr'. cntx_ok c' fr' ?bs" "only_entry i c c'" "zero_free c'" "\<not> hashed (pool c' i)" by blast+
qed

lemma age_entry_ok:
  assumes "cntx_ok c fr bs" "zero_free c" "i < poolSize c" "hashed (pool c i)"
    "age_entry cb mai_send rand now i smallest (c, w) = Inr (smallest', c', w')"
  shows "\<exists>fr' bs'. cntx_ok c' fr' bs' \<and> (bs' = bs \<or> bs' = (\<lambda>b. removeAll i (bs b)))" "only_entry i c c'" "zero_free c'"
    "age_outcome now c (pool c i) (pool c' i)"
proof -
  have al: "alloced (pool c i)" by (rule cntx_okD(5)[OF assms(1,3,4)])
  have "(\<exists>fr' bs'. cntx_ok c' fr' bs' \<and> (bs' = bs \<or> bs' = (\<lambda>b. removeAll i (bs b)))) \<and> only_entry i c c' \<and> zero_free c' \<and>
    age_outcome now c (pool c i) (pool c' i)"
  proof (cases "expired now c (pool c i)")
    case False
    then show ?thesis using assms by (auto simp: age_entry_def age_outcome_def)
  next
    case True
    obtain status c1 w1 where t: "cs_cntxt_timeout_entry mai_send rand now i (c, w) = Inr (status, c1, w1)"
      using assms(5) True by (auto simp: age_entry_def split: sum.splits)
    note T = timeout_entry_ok[OF assms(1,4) t]
    have z1: "zero_free c1" by (rule timeout_zero_free[OF assms(1-4) t])
    show ?thesis
    proof (cases "release_due c1 status")
      case rel: True
      have e1: "i < poolSize c1" "alloced (pool c1 i)" using T(2,3) assms(3) al by (auto simp: only_entry_def same_config_def kept_def)
      have "cntxt_release cb i status None (c1, w1) = Inr (c', w')" using assms(5) True t rel by (auto simp: age_entry_def map_sum_def split: sum.splits)
      note R = release_ok[OF T(1) z1 e1 this]
      show ?thesis using R only_entry_trans[OF T(2) R(2)] True by (auto simp: age_outcome_def)
    next
      case nrel: False
      have c': "c' = c1" using assms(5) True t nrel by (auto simp: age_entry_def)
      have "status \<noteq> VSTATUS_TIMEOUT" using nrel by (simp add: release_due_def)
      then have "age_outcome now c (pool c i) (pool c1 i)" using T True by (auto simp: age_outcome_def)
      then show ?thesis using T(1,2) z1 c' by blast
    qed
  qed
  then show "\<exists>fr' bs'. cntx_ok c' fr' bs' \<and> (bs' = bs \<or> bs' = (\<lambda>b. removeAll i (bs b)))" "only_entry i c c'" "zero_free c'"
    "age_outcome now c (pool c i) (pool c' i)" by blast+
qed

end

text \<open>An operation that ends without an error outside \<open>E\<close> keeps what its client says of the pool and its own state.\<close>

definition keeps :: "('x \<Rightarrow> bool) \<Rightarrow> (c_error \<Rightarrow> bool) \<Rightarrow> ('r \<times> 'x) c_result \<Rightarrow> bool" where
  "keeps J E r \<longleftrightarrow> (case r of Inl err \<Rightarrow> E err | Inr (_, x) \<Rightarrow> J x)"

lemma keeps_simps [simp]: "keeps J E (Inl err) = E err" "keeps J E (Inr (s, x)) = J x"
  by (simp_all add: keeps_def)

context quiet_callback
begin

text \<open>The walk along a list, from an entry that is still to be looked at. It always ends.\<close>

lemma age_list_ok:
  assumes step: "\<And>i sm c w. pool_ok c \<Longrightarrow> i < poolSize c \<Longrightarrow> hashed (pool c i) \<Longrightarrow> J (c, w) \<Longrightarrow> keeps J E (age_entry cb mai_send rand now i sm (c, w))"
    and "cntx_ok c fr bs" "zero_free c" "bs b = pre @ ys" "cur = first_of ys" "length ys \<le> fuel" "J (c, w)"
  shows "\<exists>r. age_list cb mai_send rand now fuel cur (sm, c, w) = Some r \<and> keeps J E r \<and>
    (\<forall>sm' c' w'. r = Inr (sm', c', w') \<longrightarrow> (\<exists>fr' bs'. cntx_ok c' fr' bs' \<and> (\<forall>b'. b' \<noteq> b \<longrightarrow> bs' b' = bs b')) \<and> zero_free c' \<and> same_config c c' \<and>
       (\<forall>j. j \<notin> set ys \<longrightarrow> payload (pool c' j) = payload (pool c j)) \<and> (\<forall>j\<in>set ys. age_outcome now c (pool c j) (pool c' j)))"
  using assms(2-)
proof (induction ys arbitrary: c fr bs pre cur fuel sm w)
  case Nil
  then show ?case by auto
next
  case (Cons y ys)
  note ok = cntx_okD[OF Cons.prems(1)]
  obtain f where f: "fuel = Suc f" "length ys \<le> f" using Cons.prems(5) by (cases fuel) auto
  have y: "y < poolSize c" "hashed (pool c y)" using ok(4)[of y b] Cons.prems(3) by auto
  have yb: "y \<notin> set (bs b')" if "b' \<noteq> b" for b' using ok(4) Cons.prems(3) that by (metis in_set_conv_decomp)
  have d: "distinct (pre @ y # ys)" using ok(9)[of b] Cons.prems(3) by simp
  have n: "next_entry (pool c y) = first_of ys"
  proof -
    have "dlist (pool c) (hash_heads c b) (pre @ y # ys)" using ok(2)[of b] Cons.prems(3) by simp
    then obtain q where "dseg (pool c) (next_entry (pool c y)) q ys None" unfolding dseg_append by auto
    then show ?thesis by (rule dlist_first)
  qed
  have k: "keeps J E (age_entry cb mai_send rand now y sm (c, w))"
    using step[OF _ y Cons.prems(6)] Cons.prems(1,2) by (auto simp: pool_ok_def)
  show ?case
  proof (cases "age_entry cb mai_send rand now y sm (c, w)")
    case (Inl err)
    then show ?thesis using Cons.prems(4) f(1) k by simp
  next
    case (Inr x)
    then obtain sm1 c1 w1 where e: "age_entry cb mai_send rand now y sm (c, w) = Inr (sm1, c1, w1)" by (cases x) auto
    note E = age_entry_ok[OF Cons.prems(1,2) y e]
    obtain fr1 bs1 where b1: "cntx_ok c1 fr1 bs1" "bs1 = bs \<or> bs1 = (\<lambda>b. removeAll y (bs b))" using E(1) by blast
    have "removeAll y (pre @ y # ys) = pre @ ys" using d by (simp add: removeAll_id)
    then obtain pre' where pre': "bs1 b = pre' @ ys" using b1(2) Cons.prems(3) by (metis append.assoc append_Cons append_Nil)
    have bo: "bs1 b' = bs b'" if "b' \<noteq> b" for b' using b1(2) yb[OF that] by (auto simp: removeAll_id)
    have j1: "J (c1, w1)" using k e by simp
    obtain r where r: "age_list cb mai_send rand now f (first_of ys) (sm1, c1, w1) = Some r" "keeps J E r"
        "\<And>sm' c' w'. r = Inr (sm', c', w') \<Longrightarrow> (\<exists>fr' bs'. cntx_ok c' fr' bs' \<and> (\<forall>b'. b' \<noteq> b \<longrightarrow> bs' b' = bs1 b')) \<and> zero_free c' \<and> same_config c1 c' \<and>
          (\<forall>j. j \<notin> set ys \<longrightarrow> payload (pool c' j) = payload (pool c1 j)) \<and> (\<forall>j\<in>set ys. age_outcome now c1 (pool c1 j) (pool c' j))"
      using Cons.IH[where c = c1 and bs = bs1 and w = w1 and sm = sm1, OF b1(1) E(3) pre' refl f(2) j1] by blast
    have run: "age_list cb mai_send rand now fuel cur (sm, c, w) = Some r" using Cons.prems(4) f(1) e n r(1) by simp
    have p1: "payload (pool c1 j) = payload (pool c j)" if "j \<noteq> y" for j using E(2) that by (simp add: only_entry_def)
    have sc: "same_config c c1" by (rule only_entry_config[OF E(2)])
    have fin: "(\<exists>fr' bs'. cntx_ok c' fr' bs' \<and> (\<forall>b'. b' \<noteq> b \<longrightarrow> bs' b' = bs b')) \<and> zero_free c' \<and> same_config c c' \<and>
       (\<forall>j. j \<notin> set (y # ys) \<longrightarrow> payload (pool c' j) = payload (pool c j)) \<and> (\<forall>j\<in>set (y # ys). age_outcome now c (pool c j) (pool c' j))"
      if "r = Inr (sm', c', w')" for sm' c' w'
    proof -
      note R = r(3)[OF that]
      have "age_outcome now c (pool c y) (pool c' y)" using E(4) R d age_outcome_payload[OF refl, of "pool c' y" "pool c1 y"] by simp
      moreover have "age_outcome now c (pool c j) (pool c' j)" if "j \<in> set ys" for j
      proof -
        have "j \<noteq> y" using that d by auto
        then show ?thesis using R that age_outcome_config[OF sc] age_outcome_payload[OF p1 refl, of j] by metis
      qed
      ultimately show ?thesis using R bo p1 same_config_trans[OF sc] by auto
    qed
    show ?thesis using run r(2) fin by blast
  qed
qed

lemma age_buckets_ok:
  assumes step: "\<And>i sm c w. pool_ok c \<Longrightarrow> i < poolSize c \<Longrightarrow> hashed (pool c i) \<Longrightarrow> J (c, w) \<Longrightarrow> keeps J E (age_entry cb mai_send rand now i sm (c, w))"
    and "cntx_ok c fr bs" "zero_free c" "distinct ks" "J (c, w)"
  shows "\<exists>r. age_buckets cb mai_send rand now ks (sm, c, w) = Some r \<and> keeps J E r \<and>
    (\<forall>sm' c' w'. r = Inr (sm', c', w') \<longrightarrow> pool_ok c' \<and> same_config c c' \<and>
       (\<forall>j. (\<forall>b\<in>set ks. j \<notin> set (bs b)) \<longrightarrow> payload (pool c' j) = payload (pool c j)) \<and>
       (\<forall>b\<in>set ks. \<forall>j\<in>set (bs b). age_outcome now c (pool c j) (pool c' j)))"
  using assms(2-)
proof (induction ks arbitrary: c fr bs sm w)
  case Nil
  then show ?case by (auto simp: pool_ok_def)
next
  case (Cons b ks)
  have first: "hash_heads c b = first_of (bs b)" by (rule dlist_first[OF cntx_okD(2)[OF Cons.prems(1)]])
  obtain r where r: "age_list cb mai_send rand now (poolSize c) (hash_heads c b) (sm, c, w) = Some r" "keeps J E r"
      "\<And>sm' c' w'. r = Inr (sm', c', w') \<Longrightarrow> (\<exists>fr' bs'. cntx_ok c' fr' bs' \<and> (\<forall>b'. b' \<noteq> b \<longrightarrow> bs' b' = bs b')) \<and> zero_free c' \<and> same_config c c' \<and>
        (\<forall>j. j \<notin> set (bs b) \<longrightarrow> payload (pool c' j) = payload (pool c j)) \<and> (\<forall>j\<in>set (bs b). age_outcome now c (pool c j) (pool c' j))"
    using age_list_ok[OF step Cons.prems(1,2) append_Nil[symmetric] first bucket_length[OF Cons.prems(1)] Cons.prems(4), where sm = sm] by blast
  show ?case
  proof (cases r)
    case (Inl err)
    then show ?thesis using r(1,2) by simp
  next
    case (Inr x)
    then obtain sm1 c1 w1 where x: "r = Inr (sm1, c1, w1)" by (cases x) auto
    note R = r(3)[OF x]
    then obtain fr1 bs1 where b1: "cntx_ok c1 fr1 bs1" "\<And>b'. b' \<noteq> b \<Longrightarrow> bs1 b' = bs b'" by blast
    have sc: "same_config c c1" and p1: "\<And>j. j \<notin> set (bs b) \<Longrightarrow> payload (pool c1 j) = payload (pool c j)" using R by blast+
    have j1: "J (c1, w1)" using r(2) x by simp
    obtain r' where r': "age_buckets cb mai_send rand now ks (sm1, c1, w1) = Some r'" "keeps J E r'"
        "\<And>sm' c' w'. r' = Inr (sm', c', w') \<Longrightarrow> pool_ok c' \<and> same_config c1 c' \<and>
          (\<forall>j. (\<forall>b\<in>set ks. j \<notin> set (bs1 b)) \<longrightarrow> payload (pool c' j) = payload (pool c1 j)) \<and>
          (\<forall>b\<in>set ks. \<forall>j\<in>set (bs1 b). age_outcome now c1 (pool c1 j) (pool c' j))"
      using Cons.IH[where c = c1 and sm = sm1 and w = w1, OF b1(1) _ _ j1] R Cons.prems(3) by auto
    have nb: "b' \<noteq> b" "bs1 b' = bs b'" if "b' \<in> set ks" for b' using that Cons.prems(3) b1(2)[of b'] by auto
    have disj: "j \<notin> set (bs b')" if "j \<in> set (bs b)" "b' \<noteq> b" for j b' using that cntx_okD(4)[OF Cons.prems(1)] by simp
    have "pool_ok c' \<and> same_config c c' \<and>
       (\<forall>j. (\<forall>b'\<in>set (b # ks). j \<notin> set (bs b')) \<longrightarrow> payload (pool c' j) = payload (pool c j)) \<and>
       (\<forall>b'\<in>set (b # ks). \<forall>j\<in>set (bs b'). age_outcome now c (pool c j) (pool c' j))" if "r' = Inr (sm', c', w')" for sm' c' w'
    proof -
      note R' = r'(3)[OF that]
      have "age_outcome now c (pool c j) (pool c' j)" if j: "j \<in> set (bs b)" for j
      proof -
        have "\<forall>b'\<in>set ks. j \<notin> set (bs1 b')" using nb disj[OF j] by auto
        then have "payload (pool c' j) = payload (pool c1 j)" using R' by blast
        then show ?thesis using R j age_outcome_payload[OF refl] by metis
      qed
      moreover have "age_outcome now c (pool c j) (pool c' j)" if b': "b' \<in> set ks" "j \<in> set (bs b')" for b' j
      proof -
        have "j \<notin> set (bs b)" using disj nb(1)[OF b'(1)] b'(2) by blast
        then show ?thesis using R' b' nb(2)[OF b'(1)] age_outcome_config[OF sc] age_outcome_payload[OF p1 refl, of j] by metis
      qed
      ultimately show ?thesis using R' nb(2) p1 same_config_trans[OF sc] by auto
    qed
    moreover have "age_buckets cb mai_send rand now (b # ks) (sm, c, w) = Some r'" using r(1) x r'(1) by simp
    ultimately show ?thesis using r'(2) by blast
  qed
qed

lemma age_keeps:
  assumes step: "\<And>i sm c w. pool_ok c \<Longrightarrow> i < poolSize c \<Longrightarrow> hashed (pool c i) \<Longrightarrow> J (c, w) \<Longrightarrow> keeps J E (age_entry cb mai_send rand now i sm (c, w))"
    and "pool_ok c" "0 < hashTableDepth c" "J (c, w)"
  shows "\<exists>r. cs_cntxt_age VSTATUS_OK cb mai_send rand now (c, w) = Some r \<and> keeps J E r \<and>
    (\<forall>sm' c' w'. r = Inr (sm', c', w') \<longrightarrow> pool_ok c' \<and> same_config c c' \<and>
       (\<forall>j<poolSize c. if hashed (pool c j) then age_outcome now c (pool c j) (pool c' j) else payload (pool c' j) = payload (pool c j)))"
proof -
  obtain fr bs where ok: "cntx_ok c fr bs" "zero_free c" using assms(2) by (auto simp: pool_ok_def)
  have bl: "bucket_of c l < hashTableDepth c" for l using assms(3) by (simp add: bucket_of_def)
  obtain r where r: "age_buckets cb mai_send rand now [0..<hashTableDepth c] (0, c, w) = Some r" "keeps J E r"
      "\<And>sm' c' w'. r = Inr (sm', c', w') \<Longrightarrow> pool_ok c' \<and> same_config c c' \<and>
       (\<forall>j. (\<forall>b\<in>set [0..<hashTableDepth c]. j \<notin> set (bs b)) \<longrightarrow> payload (pool c' j) = payload (pool c j)) \<and>
       (\<forall>b\<in>set [0..<hashTableDepth c]. \<forall>j\<in>set (bs b). age_outcome now c (pool c j) (pool c' j))"
    using age_buckets_ok[OF step ok distinct_upt[of 0 "hashTableDepth c"] assms(4), where sm = 0] by blast
  have "pool_ok c' \<and> same_config c c' \<and>
       (\<forall>j<poolSize c. if hashed (pool c j) then age_outcome now c (pool c j) (pool c' j) else payload (pool c' j) = payload (pool c j))"
    if "r = Inr (sm', c', w')" for sm' c' w'
  proof -
    note R = r(3)[OF that]
    have "age_outcome now c (pool c j) (pool c' j)" if "j < poolSize c" "hashed (pool c j)" for j
    proof -
      have "j \<in> set (bs (bucket_of c (ce_lid (pool c j))))" using cntx_okD(4)[OF ok(1)] that by simp
      then show ?thesis using R bl by auto
    qed
    moreover have "payload (pool c' j) = payload (pool c j)" if "\<not> hashed (pool c j)" for j using R cntx_okD(4)[OF ok(1)] that by simp
    ultimately show ?thesis using R by simp
  qed
  then show ?thesis using r(1,2) by (auto simp: cs_cntxt_age_def)
qed

lemma age_ok:
  assumes "pool_ok c" "0 < hashTableDepth c"
  shows "\<exists>r. cs_cntxt_age VSTATUS_OK cb mai_send rand now (c, w) = Some r \<and>
    (\<forall>sm' c' w'. r = Inr (sm', c', w') \<longrightarrow> pool_ok c' \<and> same_config c c' \<and>
       (\<forall>j<poolSize c. if hashed (pool c j) then age_outcome now c (pool c j) (pool c' j) else payload (pool c' j) = payload (pool c j)))"
proof -
  have "keeps (\<lambda>_. True) (\<lambda>_. True) r" for r :: "('a \<times> 'd generic_cntxt \<times> 'w) c_result" by (simp add: keeps_def split: sum.split)
  then show ?thesis using age_keeps[OF _ assms, of "\<lambda>_. True" "\<lambda>_. True" mai_send rand now w] by blast
qed

lemma find_release_ok:
  assumes "pool_ok c"
  shows "\<exists>r. cs_cntxt_find_release lock cb mad (c, w) = Some r \<and> (\<forall>c' w'. r = Inr (c', w') \<longrightarrow> pool_ok c' \<and> same_config c c')"
proof -
  obtain fr bs where ok: "cntx_ok c fr bs" "zero_free c" using assms by (auto simp: pool_ok_def)
  show ?thesis
  proof (cases rule: cntxt_find_cases[OF ok(1), of mad, case_names none some])
    case none
    then show ?thesis using assms by (auto simp: cs_cntxt_find_release_def)
  next
    case (some i)
    have "pool_ok c' \<and> same_config c c'" if "cntxt_release cb i VSTATUS_OK (Some mad) (c, w) = Inr (c', w')" for c' w'
      using release_ok[OF ok some(2,4) that] only_entry_config by (auto simp: pool_ok_def)
    then show ?thesis using some(1) assms by (auto simp: cs_cntxt_find_release_def)
  qed
qed

lemma find_release_error_ok:
  assumes "pool_ok c"
  shows "\<exists>r. cs_cntxt_find_release_error lock cb mai_send rand now mad (c, w) = Some r \<and> (\<forall>c' w'. r = Inr (c', w') \<longrightarrow> pool_ok c' \<and> same_config c c')"
proof -
  obtain fr bs where ok: "cntx_ok c fr bs" "zero_free c" using assms by (auto simp: pool_ok_def)
  show ?thesis
  proof (cases rule: cntxt_find_cases[OF ok(1), of mad, case_names none some])
    case none
    then show ?thesis using assms by (auto simp: cs_cntxt_find_release_error_def)
  next
    case (some i)
    have fin: "pool_ok c' \<and> same_config c c'" if r: "cs_cntxt_timeout_entry mai_send rand now i (c, w) = Inr (status, c1, w1)"
      "(if release_due c1 status then cntxt_release cb i status None (c1, w1) else Inr (c1, w1)) = Inr (c', w')" for status c1 w1 c' w'
    proof -
      note T = timeout_entry_ok[OF ok(1) some(3) r(1)]
      have z: "zero_free c1" by (rule timeout_zero_free[OF ok some(2,3) r(1)])
      have e: "i < poolSize c1" "alloced (pool c1 i)" using T(2,3) some(2,4) by (auto simp: only_entry_def same_config_def kept_def)
      show ?thesis
      proof (cases "release_due c1 status")
        case True
        then have "cntxt_release cb i status None (c1, w1) = Inr (c', w')" using r(2) by simp
        note R = release_ok[OF T(1) z e this]
        show ?thesis using R only_entry_config[OF only_entry_trans[OF T(2) R(2)]] by (auto simp: pool_ok_def)
      qed (use r(2) T(1,2) z only_entry_config in \<open>auto simp: pool_ok_def\<close>)
    qed
    show ?thesis using some(1) fin assms by (auto simp: cs_cntxt_find_release_error_def split: sum.splits)
  qed
qed

end

section \<open>All operations\<close>

lemma init_list_ok:
  fixes c :: "'d generic_cntxt"
  assumes "free_list c = None" "pool c = (\<lambda>_. zero_entry 0)" "\<And>b. hash_heads c b = None" "numFree c = int (poolSize c)" "numAlloc c = 0"
  shows "cntx_ok (init_list c) (rev [0..<poolSize c]) (\<lambda>_. [])" "zero_free (init_list c)"
proof -
  define f where "f = (\<lambda>i (c :: 'd generic_cntxt). let (h, p) = cntxt_insert_head (free_list c) i ((pool c)(i := (pool c i)\<lparr>ce_index := of_nat i + 1\<rparr>))
                             in c\<lparr>free_list := h, pool := p\<rparr>)"
  have run: "dlist (pool (fold f [0..<n] c)) (free_list (fold f [0..<n] c)) (rev [0..<n]) \<and>
      (\<forall>i. \<not> hashed (pool (fold f [0..<n] c) i) \<and> \<not> alloced (pool (fold f [0..<n] c) i) \<and> clean (pool (fold f [0..<n] c) i)) \<and>
      hash_heads (fold f [0..<n] c) = hash_heads c \<and> numFree (fold f [0..<n] c) = numFree c \<and> numAlloc (fold f [0..<n] c) = numAlloc c \<and>
      poolSize (fold f [0..<n] c) = poolSize c" for n
  proof (induction n)
    case 0
    then show ?case using assms by (simp add: zero_entry_def clean_def)
  next
    case (Suc n)
    let ?c = "fold f [0..<n] c"
    let ?p = "(pool ?c)(n := (pool ?c n)\<lparr>ce_index := of_nat n + 1\<rparr>)"
    obtain h p' where ins: "cntxt_insert_head (free_list ?c) n ?p = (h, p')" by force
    have s: "fold f [0..<Suc n] c = ?c\<lparr>free_list := h, pool := p'\<rparr>" using ins by (simp add: f_def)
    have "dlist ?p (free_list ?c) (rev [0..<n]) = dlist (pool ?c) (free_list ?c) (rev [0..<n])" by (rule dseg_cong) auto
    then have "dlist ?p (free_list ?c) (rev [0..<n])" using Suc.IH by simp
    note I = insert_head_ok[OF this _ ins]
    have "\<not> hashed (p' i) \<and> \<not> alloced (p' i) \<and> clean (p' i)" for i
    proof -
      have p: "payload (p' i) = payload (?p i)" using I(3) by simp
      show ?thesis using payload_fields(1,2)[OF p] clean_payload[OF p] Suc.IH by (auto simp: clean_def)
    qed
    then show ?case unfolding s using I(1) Suc.IH by simp
  qed
  have i: "init_list c = fold f [0..<poolSize c] c" by (simp add: init_list_def f_def)
  note R = run[of "poolSize c", folded i]
  show "cntx_ok (init_list c) (rev [0..<poolSize c]) (\<lambda>_. [])" using R assms(3,4,5) by (auto simp: cntx_ok_def)
  show "zero_free (init_list c)" using R by (simp add: zero_free_def)
qed

text \<open>A pool that its owner has cleared and configured, as before the initialisation.\<close>

definition unused_pool :: "'d generic_cntxt \<Rightarrow> bool" where
  "unused_pool c \<longleftrightarrow> hash_heads c = (\<lambda>_. None) \<and> 0 < hashTableDepth c"

lemma instance_init_ok:
  assumes "unused_pool c" "cs_cntxt_instance_init True VSTATUS_OK VSTATUS_OK timeout c = (VSTATUS_OK, Some c')"
  shows "pool_ok c'" "poolSize c' = poolSize c" "hashTableDepth c' = hashTableDepth c" "numFree c' = int (poolSize c)"
    "MinRespTimeout c' = MinRespTimeout c"
proof -
  let ?c = "c\<lparr>pool := \<lambda>_. zero_entry 0, defaultTimeout := timeout, numAlloc := 0, numFree := int (poolSize c), free_list := None\<rparr>"
  have c': "c' = init_list ?c" using assms(2) by (auto simp: cs_cntxt_instance_init_def Let_def split: if_splits)
  note I = init_list_ok[of ?c]
  have "hash_heads ?c b = None" for b using assms(1) by (simp add: unused_pool_def)
  then have ok: "cntx_ok c' (rev [0..<poolSize c]) (\<lambda>_. [])" "zero_free c'" using I by (simp_all add: c')
  then show "pool_ok c'" by (auto simp: pool_ok_def)
  have keep: "poolSize (fold f ls d) = poolSize d \<and> hashTableDepth (fold f ls d) = hashTableDepth d \<and>
      MinRespTimeout (fold f ls d) = MinRespTimeout d"
    if "\<And>i d. poolSize (f i d) = poolSize d \<and> hashTableDepth (f i d) = hashTableDepth d \<and> MinRespTimeout (f i d) = MinRespTimeout d" for f :: "nat \<Rightarrow> 'a generic_cntxt \<Rightarrow> 'a generic_cntxt" and ls d
    by (induction ls arbitrary: d) (simp_all add: that)
  show s: "poolSize c' = poolSize c" "hashTableDepth c' = hashTableDepth c" "MinRespTimeout c' = MinRespTimeout c"
    unfolding c' init_list_def by (subst keep; simp add: Let_def split: prod.splits)+
  show "numFree c' = int (poolSize c)" using cntx_okD(6)[OF ok(1)] by simp
qed

text \<open>What users of a pool do: they get entries, prepare and send those they have, and retire them; responses, errors and time do the rest.\<close>

inductive pool_step ::
  "('d, 'w) cntxt_callback_t \<Rightarrow> 'w sender \<Rightarrow> ('w \<Rightarrow> u64 \<times> 'w) \<Rightarrow> 'd generic_cntxt \<times> 'w \<Rightarrow> 'd generic_cntxt \<times> 'w \<Rightarrow> bool"
  for cb mai_send rand where
  get: "cs_cntxt_get_nolock now mad wt c = (r, c') \<Longrightarrow> pool_step cb mai_send rand (c, w) (c', w)"
| set_callback: "i < poolSize c \<Longrightarrow> alloced (pool c i) \<Longrightarrow> pool_step cb mai_send rand (c, w) (cs_cntxt_set_callback i d c, w)"
| want_response: "i < poolSize c \<Longrightarrow> alloced (pool c i) \<Longrightarrow>
    pool_step cb mai_send rand (c, w) (update_entry i (\<lambda>e. e\<lparr>senderWantsResponse := True\<rparr>) c, w)"
| send: "i < poolSize c \<Longrightarrow> alloced (pool c i) \<Longrightarrow> cs_cntxt_send_mad_nolock mai_send now i (c, w) = (s, x) \<Longrightarrow> pool_step cb mai_send rand (c, w) x"
| retire: "i < poolSize c \<Longrightarrow> alloced (pool c i) \<Longrightarrow> pool_step cb mai_send rand (c, w) (cs_cntxt_retire_nolock i c, w)"
| response: "cs_cntxt_find_release VSTATUS_OK cb mad (c, w) = Some (Inr x) \<Longrightarrow> pool_step cb mai_send rand (c, w) x"
| send_error: "cs_cntxt_find_release_error VSTATUS_OK cb mai_send rand now mad (c, w) = Some (Inr x) \<Longrightarrow> pool_step cb mai_send rand (c, w) x"
| age: "cs_cntxt_age VSTATUS_OK cb mai_send rand now (c, w) = Some (Inr (t, x)) \<Longrightarrow> pool_step cb mai_send rand (c, w) x"

lemma get_ok:
  assumes "cntx_ok c fr bs" "zero_free c" "cs_cntxt_get_nolock now mad wt c = (r, c')"
  shows "pool_ok c'" "same_config c c'"
proof -
  have "pool_ok c' \<and> same_config c c'"
  proof (cases fr)
    case Nil
    let ?c = "if wt then c\<lparr>numWaiters := numWaiters c + 1\<rparr> else c"
    have "cntx_ok ?c fr bs" "zero_free ?c" "same_config c ?c" using assms(1,2) by (simp_all add: cntx_ok_def zero_free_def bucket_of_def same_config_def)
    then show ?thesis using assms(1,3) Nil get_none[of c bs now mad wt] by (auto simp: pool_ok_def)
  next
    case (Cons i fr')
    have ok: "cntx_ok c (i # fr') bs" using assms(1) Cons by simp
    show ?thesis
    proof (cases mad)
      case (Some m)
      obtain c2 where "cs_cntxt_get_nolock now (Some m) wt c = (Some i, c2)" "cntx_ok c2 fr' (bs(bucket_of c (m_dlid m) := i # bs (bucket_of c (m_dlid m))))"
          "only_entry i c c2" "zero_free c2"
        by (rule get_mad[OF ok assms(2)])
      then show ?thesis using assms(3) Some only_entry_config by (auto simp: pool_ok_def)
    next
      case None
      have fl: "free_list c = Some i" using dlist_first[OF cntx_okD(1)[OF ok]] by simp
      obtain h p' where del: "cntxt_delete_entry (free_list c) i (pool c) = (h, p')" by force
      note G = get_free_ok[OF ok del]
      have "c' = update_entry i (\<lambda>e. e\<lparr>alloced := True\<rparr>) (c\<lparr>free_list := h, pool := p', numAlloc := numAlloc c + 1, numFree := numFree c - 1\<rparr>)"
        using assms(3) fl del None by (simp add: cs_cntxt_get_nolock_def)
      then show ?thesis using G zero_free_entry[OF assms(2) G(2)] only_entry_config[OF G(2)] by (auto simp: pool_ok_def)
    qed
  qed
  then show "pool_ok c'" "same_config c c'" by blast+
qed

lemma update_pool_ok:
  assumes "pool_ok c" "i < poolSize c" "alloced (pool c i)" "\<And>e. next_entry (f e) = next_entry e" "\<And>e. prev_entry (f e) = prev_entry e"
    "\<And>e. hashed (f e) = hashed e" "\<And>e. alloced (f e) = alloced e" "\<And>e. ce_lid (f e) = ce_lid e"
  shows "pool_ok (update_entry i f c)"
proof -
  obtain fr bs where ok: "cntx_ok c fr bs" "zero_free c" using assms(1) by (auto simp: pool_ok_def)
  have u: "cntx_ok (update_entry i f c) fr bs" "only_entry i c (update_entry i f c)" by (rule update_data[OF ok(1)]; simp add: assms(4-8))+
  have "zero_free (update_entry i f c)" by (rule zero_free_entry[OF ok(2) u(2)]) (simp add: assms(3,7))
  then show ?thesis using u(1) by (auto simp: pool_ok_def)
qed

lemma send_pool_ok:
  assumes "pool_ok c" "i < poolSize c" "alloced (pool c i)" "cs_cntxt_send_mad_nolock mai_send now i (c, w) = (s, c', w')"
  shows "pool_ok c'" "same_config c c'"
proof -
  obtain fr bs where ok: "cntx_ok c fr bs" "zero_free c" using assms(1) by (auto simp: pool_ok_def)
  have "pool_ok c' \<and> same_config c c'"
  proof (cases "hashed (pool c i)")
    case True
    note S = send_hashed[OF ok(1) True assms(4)]
    have "zero_free c'" by (rule zero_free_entry[OF ok(2) S(2)]) (use S(3) assms(3) in \<open>simp add: kept_def\<close>)
    then show ?thesis using S(1,2) only_entry_config by (auto simp: pool_ok_def)
  next
    case False
    note R = reserve_ok[OF ok(1) assms(2,3) False, of now]
    let ?c = "cntxt_reserve now i c"
    have a: "alloced (pool ?c i)" "i < poolSize ?c" using payload_fields[OF R(3)] assms(2,3) R(2) by (simp_all add: only_entry_def same_config_def)
    have p: "pool_ok ?c" using R(1) zero_free_entry[OF ok(2) R(2)] a by (auto simp: pool_ok_def)
    define f where "f = (\<lambda>e :: 'a cntxt_entry. if s \<noteq> VSTATUS_OK then e\<lparr>retries := retries e + 1, sendFailed := True\<rparr> else e\<lparr>retries := retries e + 1\<rparr>)"
    have "c' = update_entry i f ?c" using assms(4) False by (auto simp: cs_cntxt_send_mad_nolock_def Let_def f_def split: prod.splits if_splits)
    moreover have "pool_ok (update_entry i f ?c)" by (rule update_pool_ok[OF p a(2,1)]) (simp_all add: f_def)
    ultimately show ?thesis using only_entry_config[OF R(2)] by (simp add: same_config_def)
  qed
  then show "pool_ok c'" "same_config c c'" by blast+
qed

lemma pool_step_ok:
  assumes "quiet_callback cb" "pool_step cb mai_send rand x x'" "pool_ok (fst x)" "0 < hashTableDepth (fst x)"
  shows "pool_ok (fst x') \<and> same_config (fst x) (fst x')"
  using assms(2,3,4)
proof (cases rule: pool_step.cases)
  case (get now mad wt c r c' w)
  then obtain fr bs where "cntx_ok c fr bs" "zero_free c" using assms(3) by (auto simp: pool_ok_def)
  then show ?thesis using get_ok get by auto
next
  case (set_callback i c w d)
  then show ?thesis using assms(3) update_pool_ok[of c i "\<lambda>e. e\<lparr>callback := d\<rparr>"] by (simp add: cs_cntxt_set_callback_def same_config_def)
next
  case (want_response i c w)
  then show ?thesis using assms(3) update_pool_ok[of c i "\<lambda>e. e\<lparr>senderWantsResponse := True\<rparr>"] by (simp add: same_config_def)
next
  case (send i c now w s)
  then show ?thesis using assms(3) send_pool_ok[of c i mai_send now w s "fst x'" "snd x'"] by simp
next
  case (retire i c w)
  then obtain fr bs where ok: "cntx_ok c fr bs" "zero_free c" using assms(3) by (auto simp: pool_ok_def)
  show ?thesis using retire_ok[OF ok(1) retire(3,4)] retire_zero[OF ok(2,1) retire(3,4)] only_entry_config retire(1,2) by (auto simp: pool_ok_def)
next
  case (response mad c w)
  then show ?thesis using assms(3) quiet_callback.find_release_ok[OF assms(1), of c VSTATUS_OK mad w] by (cases x') auto
next
  case (send_error now mad c w)
  then show ?thesis using assms(3) quiet_callback.find_release_error_ok[OF assms(1), of c VSTATUS_OK mai_send rand now mad w] by (cases x') auto
next
  case (age now c w t)
  then show ?thesis using assms(3,4) quiet_callback.age_ok[OF assms(1), of c mai_send rand now w] by (cases x') auto
qed

section \<open>Properties\<close>

lemma pool_steps_ok:
  assumes "quiet_callback cb" "(pool_step cb mai_send rand)\<^sup>*\<^sup>* x y" "pool_ok (fst x)" "0 < hashTableDepth (fst x)"
  shows "pool_ok (fst y) \<and> same_config (fst x) (fst y)"
  using assms(2)
proof (induction rule: rtranclp_induct)
  case (step y z)
  have "0 < hashTableDepth (fst y)" using step.IH assms(4) by (simp add: same_config_def)
  then show ?case using pool_step_ok[OF assms(1) step(2)] step.IH same_config_trans by blast
qed (use assms(3) in simp)

lemma pool_ok_counts: "pool_ok c \<Longrightarrow> numFree c = int (card {i. i < poolSize c \<and> \<not> alloced (pool c i)}) \<and>
  numAlloc c = int (card {i. i < poolSize c \<and> alloced (pool c i)})"
proof -
  assume "pool_ok c"
  then obtain fr bs where ok: "cntx_ok c fr bs" by (auto simp: pool_ok_def)
  let ?F = "{i. i < poolSize c \<and> \<not> alloced (pool c i)}" and ?A = "{i. i < poolSize c \<and> alloced (pool c i)}"
  have f: "int (length fr) = int (card ?F)" using distinct_card[OF cntx_okD(8)[OF ok]] ok by (simp add: cntx_ok_def)
  have "card (?F \<union> ?A) = card ?F + card ?A" by (rule card_Un_disjoint) auto
  moreover have "?F \<union> ?A = {..<poolSize c}" by auto
  ultimately show ?thesis using f cntx_okD(6,7)[OF ok] by simp
qed


text \<open>An unused pool of two contexts for the examples, and the pool after its initialisation.\<close>

definition demo_unused :: "nat generic_cntxt" where
  "demo_unused = \<lparr>hashTableDepth = 79, poolSize = 2, maxRetries = 3, defaultTimeout = 0, totalTimeout = 0, MinRespTimeout = 0, errorOnSendFail = False,
     timeoutAdder = 1000, numAlloc = 0, numFree = 0, numWaiters = 0, wakeups = 0, resp_queue = None, free_list = None, hash_heads = \<lambda>_. None,
     pool = \<lambda>_. zero_entry 0\<rparr>"

definition demo_pool :: "nat generic_cntxt" where
  "demo_pool = init_list (demo_unused\<lparr>pool := \<lambda>_. zero_entry 0, defaultTimeout := 100, numAlloc := 0, numFree := 2, free_list := None\<rparr>)"

lemma demo_config: "poolSize demo_pool = 2" "MinRespTimeout demo_pool = 0" "maxRetries demo_pool = 3" "timeoutAdder demo_pool = 1000" "defaultTimeout demo_pool = 100"
  by (simp_all add: demo_pool_def demo_unused_def init_list_def cntxt_insert_head_def numeral_2_eq_2)

lemma demo_init: "unused_pool demo_unused" "cs_cntxt_instance_init True VSTATUS_OK VSTATUS_OK 100 demo_unused = (VSTATUS_OK, Some demo_pool)"
  by (simp_all add: unused_pool_def cs_cntxt_instance_init_def demo_unused_def demo_pool_def Let_def)


text \<open>
  The search for the request of a response always ends; it finds a waiting entry with the LID and the
  transaction ID of the response whenever there is one, and nothing otherwise.
\<close>

lemma cntxt_find_iff:
  assumes "pool_ok c"
  shows "\<exists>r. cntxt_find mad c = Some r \<and>
    (case r of None \<Rightarrow> \<forall>i<poolSize c. hashed (pool c i) \<longrightarrow> \<not> mad_matches mad (pool c i)
             | Some i \<Rightarrow> i < poolSize c \<and> hashed (pool c i) \<and> mad_matches mad (pool c i))"
proof -
  obtain fr bs where ok: "cntx_ok c fr bs" using assms by (auto simp: pool_ok_def)
  show ?thesis by (cases rule: cntxt_find_cases[OF ok, of mad, case_names none some]) auto
qed

text \<open>A request is found by its response right after it was reserved.\<close>

lemma response_finds_request:
  assumes "pool_ok c" "cs_cntxt_get_nolock now (Some m) wt c = (Some i, c')" "m_slid mad = m_dlid m" "MAI_MASK_TID (m_tid mad) = MAI_MASK_TID (m_tid m)"
  shows "cntxt_find mad c' = Some (Some i)"
proof -
  obtain fr bs where ok: "cntx_ok c fr bs" "zero_free c" using assms(1) by (auto simp: pool_ok_def)
  obtain fr' where fr: "fr = i # fr'"
    using assms(2) dlist_first[OF cntx_okD(1)[OF ok(1)]] by (cases fr) (auto simp: cs_cntxt_get_nolock_def split: prod.splits)
  have ok': "cntx_ok c (i # fr') bs" using ok(1) fr by simp
  let ?b = "bucket_of c (m_dlid m)"
  obtain c2 where c2: "cs_cntxt_get_nolock now (Some m) wt c = (Some i, c2)" "cntx_ok c2 fr' (bs(?b := i # bs ?b))" "only_entry i c c2"
      "ce_lid (pool c2 i) = m_dlid m" "ce_tid (pool c2 i) = m_tid m"
    by (rule get_mad[OF ok' ok(2)])
  have "c2 = c'" using c2(1) assms(2) by simp
  moreover have "bucket_of c2 = bucket_of c" by (rule same_config_bucket[OF only_entry_config[OF c2(3)]])
  ultimately show ?thesis using cntxt_find_ok[OF c2(2), of mad] c2(4,5) assms(3,4) by (simp add: mad_matches_def)
qed

text \<open>Passes at the times of a list, one after the other.\<close>

fun age_run ::
  "('d, 'w) cntxt_callback_t \<Rightarrow> 'w sender \<Rightarrow> ('w \<Rightarrow> u64 \<times> 'w) \<Rightarrow> u64 list \<Rightarrow> 'd generic_cntxt \<times> 'w \<Rightarrow> ('d generic_cntxt \<times> 'w) c_result option" where
  "age_run cb mai_send rand [] x = Some (Inr x)"
| "age_run cb mai_send rand (t # ts) x =
     (case cs_cntxt_age VSTATUS_OK cb mai_send rand t x of
        None \<Rightarrow> None
      | Some (Inl err) \<Rightarrow> Some (Inl err)
      | Some (Inr (_, x')) \<Rightarrow> age_run cb mai_send rand ts x')"

fun spaced :: "u64 \<Rightarrow> u64 \<Rightarrow> u64 list \<Rightarrow> bool" where
  "spaced d t0 [] = True"
| "spaced d t0 (t # ts) = (t - t0 \<ge> d \<and> spaced d t ts)"

text \<open>A pass over a waiting request whose time is up: it stays on its list only if a retry is left, which is then used up.\<close>

lemma age_pass:
  assumes "age_outcome t c e e'" "MinRespTimeout c = 0" "hashed e'" "RespTimeout e \<le> RespTimeout e + timeoutAdder c"
    "t - tstamp e \<ge> RespTimeout e + timeoutAdder c"
  shows "tstamp e' = t" "retries e' = retries e + 1" "int (unat (retries e)) < maxRetries c" "RespTimeout e' = RespTimeout e"
proof -
  have "expired t c e" using assms(4,5) by (auto simp: expired_def intro: order_trans)
  then show "tstamp e' = t" "retries e' = retries e + 1" "int (unat (retries e)) < maxRetries c" "RespTimeout e' = RespTimeout e"
    using assms(1-3) by (auto simp: age_outcome_def)
qed

lemma age_run_released:
  assumes "quiet_callback cb" "pool_ok c" "0 < hashTableDepth c" "MinRespTimeout c = 0" "maxRetries c \<le> 65535" "i < poolSize c" "T \<le> T + timeoutAdder c"
    "hashed (pool c i) \<longrightarrow> RespTimeout (pool c i) = T \<and> spaced (T + timeoutAdder c) (tstamp (pool c i)) ts \<and>
       int (unat (retries (pool c i))) + int (length ts) > maxRetries c" "ts \<noteq> []"
  shows "\<exists>r. age_run cb mai_send rand ts (c, w) = Some r \<and> (\<forall>c' w'. r = Inr (c', w') \<longrightarrow> \<not> hashed (pool c' i))"
  using assms(2-)
proof (induction ts arbitrary: c w)
  case (Cons t ts)
  obtain r where r: "cs_cntxt_age VSTATUS_OK cb mai_send rand t (c, w) = Some r"
      "\<And>sm' c' w'. r = Inr (sm', c', w') \<Longrightarrow> pool_ok c' \<and> same_config c c' \<and>
       (\<forall>j<poolSize c. if hashed (pool c j) then age_outcome t c (pool c j) (pool c' j) else payload (pool c' j) = payload (pool c j))"
    using quiet_callback.age_ok[OF assms(1) Cons.prems(1,2), of mai_send rand t w] by blast
  show ?case
  proof (cases r)
    case (Inl err)
    then show ?thesis using r(1) by simp
  next
    case (Inr x)
    then obtain sm c1 w1 where x: "r = Inr (sm, c1, w1)" by (cases x) auto
    note R = r(2)[OF x]
    have conf: "hashTableDepth c1 = hashTableDepth c" "MinRespTimeout c1 = MinRespTimeout c" "maxRetries c1 = maxRetries c" "poolSize c1 = poolSize c"
      "timeoutAdder c1 = timeoutAdder c" using R by (simp_all add: same_config_def)
    let ?e = "pool c i" and ?e1 = "pool c1 i"
    have pass: "hashed ?e \<and> tstamp ?e1 = t \<and> retries ?e1 = retries ?e + 1 \<and> int (unat (retries ?e)) < maxRetries c \<and> RespTimeout ?e1 = RespTimeout ?e"
      if h1: "hashed ?e1"
    proof -
      have h: "hashed ?e" using R Cons.prems(5) h1 payload_fields(1)[of ?e1 ?e] by (cases "hashed ?e") auto
      then have "age_outcome t c ?e ?e1" "RespTimeout ?e = T" "t - tstamp ?e \<ge> T + timeoutAdder c" using R Cons.prems(5,7) by auto
      then show ?thesis using age_pass[of t c ?e ?e1] Cons.prems(3,6) h h1 by auto
    qed
    have next_state: "hashed ?e1 \<longrightarrow> RespTimeout ?e1 = T \<and> spaced (T + timeoutAdder c1) (tstamp ?e1) ts \<and> int (unat (retries ?e1)) + int (length ts) > maxRetries c1"
    proof
      assume h1: "hashed ?e1"
      note P = pass[OF h1]
      have "unat (retries ?e) < 65535" using P Cons.prems(4) by linarith
      then have "unat (retries ?e + 1) = unat (retries ?e) + 1" by (simp add: unat_word_ariths)
      then show "RespTimeout ?e1 = T \<and> spaced (T + timeoutAdder c1) (tstamp ?e1) ts \<and> int (unat (retries ?e1)) + int (length ts) > maxRetries c1"
        using P Cons.prems(7) conf by simp
    qed
    show ?thesis
    proof (cases "ts = []")
      case True
      have "\<not> hashed ?e1" using pass Cons.prems(7) True by auto
      then show ?thesis using r(1) x True by simp
    next
      case False
      show ?thesis using Cons.IH[where c = c1 and w = w1] R conf Cons.prems next_state r(1) x False by auto
    qed
  qed
qed simp

end
