(* ===== verification/SmDispatch.thy ===== *)
theory SmDispatch
  imports CsContextInv
begin

unbundle bit_operations_syntax

text \<open>
  The dispatcher of asynchronous requests (\<^verbatim>\<open>sm_dispatch.c\<close>): a queue of requests that are sent as far as the
  limit of the dispatcher and the limits of the nodes allow, each on a context of the pool
  \<^verbatim>\<open>sm_async_send_rcv_cntxt\<close> whose callback ends it. A request of an earlier sweep is stale: its node may be gone.
\<close>

section \<open>Data\<close>

record sm_dispatch_send_params =
  sp_aid :: u16
  sp_amod :: u32
  sp_path :: "u8 list option"
  sp_slid :: u16
  sp_dlid :: u16

record sm_dispatch_req =
  sendParams :: sm_dispatch_send_params
  req_nodep :: nat
  req_sweepPasscount :: u32

record sm_dispatch =
  initialized :: bool
  reqsOutstanding :: u32
  reqsSupported :: u32
  sweepPasscount :: u32
  queue :: "nat list"

record async_node =
  asyncReqsSupported :: u8
  asyncReqsOutstanding :: u8

text \<open>
  The state besides the pool of contexts: the dispatcher, the nodes and requests by their addresses
  (\<open>None\<close> when not allocated), the addressing information in the topology under construction, the sweeps asked
  for, and how often the event was posted.
\<close>

record dispatch_state =
  disp :: sm_dispatch
  nodes :: "nat \<rightharpoonup> async_node"
  reqs :: "nat \<rightharpoonup> sm_dispatch_req"
  topology_slid :: u16
  topology_dlid :: u16
  resweeps :: "(bool \<times> bool) list"
  evtEmpty :: nat

definition MAD_SMA_LFT :: u16 where
  "MAD_SMA_LFT = 0x19"

definition MAD_SMA_MFT :: u16 where
  "MAD_SMA_MFT = 0x1b"

definition MAD_STATUS_MASK :: u16 where
  "MAD_STATUS_MASK = 0x7fff"

definition SM_DISPATCH_STALL_THRESHOLD :: nat where
  "SM_DISPATCH_STALL_THRESHOLD = 7"

abbreviation update_disp :: "(sm_dispatch \<Rightarrow> sm_dispatch) \<Rightarrow> dispatch_state \<Rightarrow> dispatch_state" where
  "update_disp f d \<equiv> d\<lparr>disp := f (disp d)\<rparr>"

abbreviation update_node :: "nat \<Rightarrow> (async_node \<Rightarrow> async_node) \<Rightarrow> dispatch_state \<Rightarrow> dispatch_state" where
  "update_node n f d \<equiv> d\<lparr>nodes := (nodes d)(n := map_option f (nodes d n))\<rparr>"

section \<open>The callback\<close>

definition sm_dispatch_free_req :: "nat \<Rightarrow> dispatch_state \<Rightarrow> dispatch_state" where
  "sm_dispatch_free_req r d = d\<lparr>reqs := (reqs d)(r := None)\<rparr>"

text \<open>Whether the answer, or its absence, is a reason to sweep again.\<close>

definition failed_set :: "Status_t \<Rightarrow> Mad_t option \<Rightarrow> bool" where
  "failed_set status mad \<longleftrightarrow>
     status = VSTATUS_TIMEOUT \<or> status = VSTATUS_OK \<and> (case mad of None \<Rightarrow> False | Some m \<Rightarrow> m_status m AND MAD_STATUS_MASK \<noteq> 0)"

definition request_resweeps :: "bool \<Rightarrow> nat cntxt_entry option \<Rightarrow> Status_t \<Rightarrow> Mad_t option \<Rightarrow> dispatch_state \<Rightarrow> dispatch_state" where
  "request_resweeps check_mft cntxt status mad d =
     (case cntxt of
        None \<Rightarrow> d
      | Some e \<Rightarrow>
          if m_aid (ce_mad e) = MAD_SMA_LFT then (if failed_set status mad then d\<lparr>resweeps := (True, False) # resweeps d\<rparr> else d)
          else if check_mft \<and> m_aid (ce_mad e) = MAD_SMA_MFT then (if failed_set status mad then d\<lparr>resweeps := (False, True) # resweeps d\<rparr> else d)
          else d)"

definition post_if_idle :: "dispatch_state \<Rightarrow> dispatch_state" where
  "post_if_idle d = (if queue (disp d) = [] \<and> reqsOutstanding (disp d) = 0 then d\<lparr>evtEmpty := evtEmpty d + 1\<rparr> else d)"

definition dec_outstanding :: "sm_dispatch \<Rightarrow> sm_dispatch" where
  "dec_outstanding s = (if reqsOutstanding s \<noteq> 0 then s\<lparr>reqsOutstanding := reqsOutstanding s - 1\<rparr> else s)"

definition dec_node :: "async_node \<Rightarrow> async_node" where
  "dec_node n = (if asyncReqsOutstanding n \<noteq> 0 then n\<lparr>asyncReqsOutstanding := asyncReqsOutstanding n - 1\<rparr> else n)"

text \<open>
  The warning about a stale response reads the context; the messages of a failed set read the node, as
  the decrement does.
\<close>

definition sm_dispatch_cntxt_callback ::
  "bool \<Rightarrow> nat cntxt_entry option \<Rightarrow> Status_t \<Rightarrow> nat \<Rightarrow> Mad_t option \<Rightarrow> dispatch_state \<Rightarrow> dispatch_state c_result" where
  "sm_dispatch_cntxt_callback check_mft cntxt status r mad d =
     (case reqs d r of
        None \<Rightarrow> Inl UseAfterFree
      | Some req \<Rightarrow>
          let current = (req_sweepPasscount req = sweepPasscount (disp d)); n = req_nodep req in
          if \<not> current \<and> cntxt = None then Inl NullDeref
          else if current \<and> nodes d n = None then Inl UseAfterFree
          else let d1 = update_disp dec_outstanding (request_resweeps check_mft cntxt status mad d);
                   d2 = (if current then update_node n dec_node d1 else d1)
               in Inr (post_if_idle (sm_dispatch_free_req r d2)))"

text \<open>The callback as the pool calls it: the state of the network comes along unchanged.\<close>

definition dispatch_callback :: "bool \<Rightarrow> (nat, dispatch_state \<times> 'n) cntxt_callback_t" where
  "dispatch_callback check_mft i status r mad = (\<lambda>(c, d, n).
     map_sum id (\<lambda>d'. (c, d', n)) (sm_dispatch_cntxt_callback check_mft (Some (pool c i)) status r mad d))"

section \<open>Sending\<close>

text \<open>
  What \<^verbatim>\<open>sm_send_stl_request_impl\<close> does when the reply is not waited for. The packet is made from
  the addresses in the topology under construction and a new transaction ID; a pool without a free entry
  makes the callback run at once, without a context.
\<close>

definition out_mad :: "sm_dispatch_send_params \<Rightarrow> u64 \<Rightarrow> dispatch_state \<Rightarrow> Mad_t" where
  "out_mad p tid d =
     \<lparr>m_slid = (if sp_path p = None then topology_slid d else 0xffff), m_dlid = (if sp_path p = None then topology_dlid d else 0xffff),
      m_tid = tid, m_aid = sp_aid p, m_amod = sp_amod p, m_status = 0, m_is_error = False\<rparr>"

definition lift_network :: "('n \<Rightarrow> 'a \<times> 'n) \<Rightarrow> dispatch_state \<times> 'n \<Rightarrow> 'a \<times> dispatch_state \<times> 'n" where
  "lift_network f = (\<lambda>(d, n). let (a, n') = f n in (a, d, n'))"

abbreviation network_send :: "(Mad_t \<Rightarrow> u64 \<Rightarrow> 'n \<Rightarrow> Status_t \<times> 'n) \<Rightarrow> (dispatch_state \<times> 'n) sender" where
  "network_send mai_send m t \<equiv> lift_network (mai_send m t)"

definition sm_send_request_async ::
  "bool \<Rightarrow> (Mad_t \<Rightarrow> u64 \<Rightarrow> 'n \<Rightarrow> Status_t \<times> 'n) \<Rightarrow> u64 \<Rightarrow> u64 \<Rightarrow> sm_dispatch_send_params \<Rightarrow> nat option \<Rightarrow>
   nat generic_cntxt \<times> dispatch_state \<times> 'n \<Rightarrow> (Status_t \<times> nat generic_cntxt \<times> dispatch_state \<times> 'n) c_result" where
  "sm_send_request_async check_mft mai_send now tid p data = (\<lambda>(c, d, n).
     case cs_cntxt_get_nolock now (Some (out_mad p tid d)) False c of
       (None, c1) \<Rightarrow>
         (case data of
            None \<Rightarrow> Inr (VSTATUS_BAD, c1, d, n)
          | Some r \<Rightarrow> map_sum id (\<lambda>d'. (VSTATUS_BAD, c1, d', n)) (sm_dispatch_cntxt_callback check_mft None VSTATUS_BAD r None d))
     | (Some i, c1) \<Rightarrow> Inr (cs_cntxt_send_mad_nolock (network_send mai_send) now i (cs_cntxt_set_callback i data c1, d, n)))"

definition address_request :: "sm_dispatch_send_params \<Rightarrow> dispatch_state \<Rightarrow> dispatch_state" where
  "address_request p d = (if sp_path p = None then d\<lparr>topology_slid := sp_slid p, topology_dlid := sp_dlid p\<rparr> else d)"

definition sm_dispatch_send ::
  "bool \<Rightarrow> (Mad_t \<Rightarrow> u64 \<Rightarrow> 'n \<Rightarrow> Status_t \<times> 'n) \<Rightarrow> u64 \<Rightarrow> u64 \<Rightarrow> nat \<Rightarrow>
   nat generic_cntxt \<times> dispatch_state \<times> 'n \<Rightarrow> (Status_t \<times> nat generic_cntxt \<times> dispatch_state \<times> 'n) c_result" where
  "sm_dispatch_send check_mft mai_send now tid r = (\<lambda>(c, d, n).
     case reqs d r of
       None \<Rightarrow> Inl UseAfterFree
     | Some req \<Rightarrow> sm_send_request_async check_mft mai_send now tid (sendParams req) (Some r) (c, address_request (sendParams req) d, n))"

definition sm_dispatch_passthrough ::
  "bool \<Rightarrow> (Mad_t \<Rightarrow> u64 \<Rightarrow> 'n \<Rightarrow> Status_t \<times> 'n) \<Rightarrow> u64 \<Rightarrow> u64 \<Rightarrow> nat \<Rightarrow>
   nat generic_cntxt \<times> dispatch_state \<times> 'n \<Rightarrow> (Status_t \<times> nat generic_cntxt \<times> dispatch_state \<times> 'n) c_result" where
  "sm_dispatch_passthrough check_mft mai_send now tid r = (\<lambda>(c, d, n).
     case reqs d r of
       None \<Rightarrow> Inl UseAfterFree
     | Some req \<Rightarrow>
         map_sum id (\<lambda>(s, c', d', n'). (s, c', sm_dispatch_free_req r d', n'))
           (sm_send_request_async check_mft mai_send now tid (sendParams req) None (c, address_request (sendParams req) d, n)))"

section \<open>Requests and the queue\<close>

definition empty_dispatch :: sm_dispatch where
  "empty_dispatch = \<lparr>initialized = False, reqsOutstanding = 0, reqsSupported = 0, sweepPasscount = 0, queue = []\<rparr>"

definition sm_dispatch_destroy :: "dispatch_state \<Rightarrow> dispatch_state" where
  "sm_dispatch_destroy d = (if \<not> initialized (disp d) then d else d\<lparr>disp := empty_dispatch\<rparr>)"

definition sm_dispatch_init :: "Status_t \<Rightarrow> u32 \<Rightarrow> dispatch_state \<Rightarrow> Status_t \<times> dispatch_state" where
  "sm_dispatch_init event_create n d =
     (let d1 = (if initialized (disp d) then sm_dispatch_destroy d else d)\<lparr>disp := empty_dispatch\<rparr>
      in if event_create \<noteq> VSTATUS_OK then (event_create, d1)
         else (VSTATUS_OK, update_disp (\<lambda>s. s\<lparr>reqsSupported := n, initialized := True\<rparr>) d1))"

text \<open>\<open>pool_alloc\<close> is the address \<^verbatim>\<open>vs_pool_alloc\<close> returns, or its error.\<close>

definition sm_dispatch_new_req ::
  "Status_t + nat \<Rightarrow> sm_dispatch_send_params \<Rightarrow> nat \<Rightarrow> dispatch_state \<Rightarrow> Status_t \<times> nat option \<times> dispatch_state" where
  "sm_dispatch_new_req pool_alloc p nodep d =
     (case pool_alloc of
        Inl status \<Rightarrow> (status, None, d)
      | Inr r \<Rightarrow> (VSTATUS_OK, Some r, d\<lparr>reqs := (reqs d)(r \<mapsto> \<lparr>sendParams = p, req_nodep = nodep, req_sweepPasscount = sweepPasscount (disp d)\<rparr>)\<rparr>))"

definition sm_dispatch_enqueue ::
  "bool \<Rightarrow> (Mad_t \<Rightarrow> u64 \<Rightarrow> 'n \<Rightarrow> Status_t \<times> 'n) \<Rightarrow> u64 \<Rightarrow> u64 \<Rightarrow> nat \<Rightarrow>
   nat generic_cntxt \<times> dispatch_state \<times> 'n \<Rightarrow> (Status_t \<times> nat generic_cntxt \<times> dispatch_state \<times> 'n) c_result" where
  "sm_dispatch_enqueue check_mft mai_send now tid r = (\<lambda>(c, d, n).
     if \<not> initialized (disp d) then sm_dispatch_passthrough check_mft mai_send now tid r (c, d, n)
     else Inr (VSTATUS_OK, c, update_disp (\<lambda>s. s\<lparr>queue := queue s @ [r]\<rparr>) d, n))"

definition sm_dispatch_bump_passcount :: "dispatch_state \<Rightarrow> dispatch_state" where
  "sm_dispatch_bump_passcount = update_disp (\<lambda>s. s\<lparr>sweepPasscount := sweepPasscount s + 1\<rparr>)"

definition sm_dispatch_clear :: "dispatch_state \<Rightarrow> dispatch_state" where
  "sm_dispatch_clear d = update_disp (\<lambda>s. s\<lparr>queue := []\<rparr>) (fold sm_dispatch_free_req (queue (disp d)) d)"

text \<open>
  Serving the queue: \<open>items\<close> is what is left of the walk. A request is due unless it is of this sweep
  and its node has all the requests it can take.
\<close>

definition request_due :: "sm_dispatch_req \<Rightarrow> dispatch_state \<Rightarrow> bool c_result" where
  "request_due req d =
     (if sweepPasscount (disp d) \<noteq> req_sweepPasscount req then Inr True
      else case nodes d (req_nodep req) of
             None \<Rightarrow> Inl UseAfterFree
           | Some n \<Rightarrow> Inr (asyncReqsOutstanding n < asyncReqsSupported n))"

definition take_request :: "nat \<Rightarrow> sm_dispatch_req \<Rightarrow> dispatch_state \<Rightarrow> dispatch_state" where
  "take_request r req d =
     (let d1 = update_disp (\<lambda>s. s\<lparr>queue := remove1 r (queue s), reqsOutstanding := reqsOutstanding s + 1\<rparr>) d
      in if sweepPasscount (disp d) = req_sweepPasscount req
         then update_node (req_nodep req) (\<lambda>n. n\<lparr>asyncReqsOutstanding := asyncReqsOutstanding n + 1\<rparr>) d1 else d1)"

fun serve_items ::
  "bool \<Rightarrow> (Mad_t \<Rightarrow> u64 \<Rightarrow> 'n \<Rightarrow> Status_t \<times> 'n) \<Rightarrow> u64 \<Rightarrow> (nat \<Rightarrow> u64) \<Rightarrow> nat list \<Rightarrow>
   nat generic_cntxt \<times> dispatch_state \<times> 'n \<Rightarrow> (nat generic_cntxt \<times> dispatch_state \<times> 'n) c_result" where
  "serve_items check_mft mai_send now tids [] x = Inr x"
| "serve_items check_mft mai_send now tids (r # items) (c, d, n) =
     (if \<not> reqsOutstanding (disp d) < reqsSupported (disp d) then Inr (c, d, n)
      else case reqs d r of
             None \<Rightarrow> Inl UseAfterFree
           | Some req \<Rightarrow>
               (case request_due req d of
                  Inl err \<Rightarrow> Inl err
                | Inr due \<Rightarrow>
                    if due
                    then case sm_dispatch_send check_mft mai_send now (tids r) r (c, take_request r req d, n) of
                           Inl err \<Rightarrow> Inl err
                         | Inr (_, x) \<Rightarrow> serve_items check_mft mai_send now tids items x
                    else serve_items check_mft mai_send now tids items (c, d, n)))"

definition sm_dispatch_update ::
  "bool \<Rightarrow> (Mad_t \<Rightarrow> u64 \<Rightarrow> 'n \<Rightarrow> Status_t \<times> 'n) \<Rightarrow> u64 \<Rightarrow> (nat \<Rightarrow> u64) \<Rightarrow>
   nat generic_cntxt \<times> dispatch_state \<times> 'n \<Rightarrow> (nat generic_cntxt \<times> dispatch_state \<times> 'n) c_result" where
  "sm_dispatch_update check_mft mai_send now tids = (\<lambda>(c, d, n).
     if queue (disp d) = [] \<or> reqsOutstanding (disp d) \<ge> reqsSupported (disp d) then Inr (c, d, n)
     else serve_items check_mft mai_send now tids (queue (disp d)) (c, d, n))"

text \<open>
  Waiting until nothing is left. Each element of the list is what one round finds: the length of the queue
  and the requests outstanding under the lock, and what the wait for the event returns after. \<open>None\<close> when the
  rounds are used up before the wait returns.
\<close>

fun wait_rounds :: "u8 \<Rightarrow> nat \<Rightarrow> (nat \<times> u32 \<times> Status_t) list \<Rightarrow> Status_t option" where
  "wait_rounds savedCount saved [] = None"
| "wait_rounds savedCount saved ((len, outstanding, event) # rounds) =
     (if len = 0 \<and> outstanding = 0 then Some VSTATUS_OK
      else if len \<noteq> 0 \<and> saved = len \<and> unat savedCount = SM_DISPATCH_STALL_THRESHOLD then Some VSTATUS_TIMEOUT
      else let savedCount' = (if len = 0 then savedCount else if saved = len then savedCount + 1 else 1);
               saved' = (if len = 0 then saved else len)
           in if event \<noteq> VSTATUS_OK \<and> event \<noteq> VSTATUS_TIMEOUT then Some event else wait_rounds savedCount' saved' rounds)"

definition sm_dispatch_wait :: "(nat \<times> u32 \<times> Status_t) list \<Rightarrow> Status_t option" where
  "sm_dispatch_wait = wait_rounds 0 0"

section \<open>The requests on the wire\<close>

text \<open>
  The dispatcher's view of the pool is the partial map from contexts to the requests they carry. The
  invariant counts them, in all and for each node.
\<close>

definition on_wire :: "(nat \<rightharpoonup> nat) \<Rightarrow> dispatch_state \<Rightarrow> nat \<Rightarrow> nat set" where
  "on_wire fl d n = {i. \<exists>r req. fl i = Some r \<and> reqs d r = Some req \<and> req_sweepPasscount req = sweepPasscount (disp d) \<and> req_nodep req = n}"

definition requests_ok :: "(nat \<rightharpoonup> nat) \<Rightarrow> dispatch_state \<Rightarrow> bool" where
  "requests_ok fl d \<longleftrightarrow> finite (dom fl) \<and> inj_on fl (dom fl) \<and> ran fl \<inter> set (queue (disp d)) = {} \<and> distinct (queue (disp d)) \<and>
     ran fl \<union> set (queue (disp d)) \<subseteq> dom (reqs d) \<and> unat (reqsOutstanding (disp d)) = card (dom fl) \<and> reqsOutstanding (disp d) \<le> reqsSupported (disp d)"

definition nodes_ok :: "(nat \<rightharpoonup> nat) \<Rightarrow> dispatch_state \<Rightarrow> bool" where
  "nodes_ok fl d \<longleftrightarrow>
     (\<forall>r req. reqs d r = Some req \<longrightarrow> req_sweepPasscount req = sweepPasscount (disp d) \<longrightarrow> nodes d (req_nodep req) \<noteq> None) \<and>
     (\<forall>n nd. nodes d n = Some nd \<longrightarrow> card (on_wire fl d n) \<le> unat (asyncReqsOutstanding nd) \<and> asyncReqsOutstanding nd \<le> asyncReqsSupported nd)"

lemma nodes_okD: "nodes_ok fl d \<Longrightarrow> reqs d r = Some req \<Longrightarrow> req_sweepPasscount req = sweepPasscount (disp d) \<Longrightarrow> nodes d (req_nodep req) \<noteq> None"
  unfolding nodes_ok_def by blast

lemma on_wire_iff: "i \<in> on_wire fl d n \<longleftrightarrow> (case fl i of None \<Rightarrow> False | Some r \<Rightarrow>
    case reqs d r of None \<Rightarrow> False | Some req \<Rightarrow> req_sweepPasscount req = sweepPasscount (disp d) \<and> req_nodep req = n)"
  by (auto simp: on_wire_def split: option.splits)

lemma on_wire_dom: "on_wire fl d n \<subseteq> dom fl"
  by (auto simp: on_wire_def)

lemma finite_on_wire: "finite (dom fl) \<Longrightarrow> finite (on_wire fl d n)"
  by (rule finite_subset[OF on_wire_dom])

lemma request_resweeps_fields [simp]:
  "disp (request_resweeps k e s m d) = disp d" "nodes (request_resweeps k e s m d) = nodes d" "reqs (request_resweeps k e s m d) = reqs d"
  by (simp_all add: request_resweeps_def split: option.split)

lemma post_if_idle_fields [simp]: "disp (post_if_idle d) = disp d" "nodes (post_if_idle d) = nodes d" "reqs (post_if_idle d) = reqs d"
  by (simp_all add: post_if_idle_def)

lemma dec_outstanding_fields [simp]:
  "queue (dec_outstanding s) = queue s" "reqsSupported (dec_outstanding s) = reqsSupported s" "sweepPasscount (dec_outstanding s) = sweepPasscount s"
  "initialized (dec_outstanding s) = initialized s"
  by (simp_all add: dec_outstanding_def)

lemma unat_dec: "x \<noteq> 0 \<Longrightarrow> unat (x - 1 :: 'a::len word) = unat x - 1"
  by (metis unat_1 unat_minus_one)

lemma unat_inc: "(x :: 'a::len word) < y \<Longrightarrow> unat (x + 1) = unat x + 1"
proof -
  assume "x < y"
  then have "unat x + 1 \<le> unat y" by (simp add: word_less_nat_alt)
  also have "unat y < 2 ^ LENGTH('a)" by (rule unsigned_less)
  finally show ?thesis by (simp add: unat_word_ariths)
qed

text \<open>What is left when the request of context \<open>i\<close> is gone.\<close>

lemma fun_upd_None:
  assumes "finite (dom fl)" "inj_on fl (dom fl)" "fl i = Some r"
  shows "finite (dom (fl(i := None)))" "inj_on (fl(i := None)) (dom (fl(i := None)))" "ran (fl(i := None)) = ran fl - {r}" "card (dom (fl(i := None))) = card (dom fl) - 1"
proof -
  show "finite (dom (fl(i := None)))" using assms(1) by simp
  show "inj_on (fl(i := None)) (dom (fl(i := None)))" using assms(2) by (auto simp: inj_on_def)
  show "ran (fl(i := None)) = ran fl - {r}"
  proof (rule set_eqI)
    fix q
    have u: "fl j = Some r \<longleftrightarrow> j = i" for j using assms(2,3) unfolding inj_on_def dom_def by force
    show "q \<in> ran (fl(i := None)) \<longleftrightarrow> q \<in> ran fl - {r}"
    proof (cases "q = r")
      case False
      then have "\<And>a. fl a = Some q \<Longrightarrow> a \<noteq> i" using assms(3) by auto
      then show ?thesis using False unfolding ran_def by auto
    qed (use u in \<open>auto simp: ran_def\<close>)
  qed
  show "card (dom (fl(i := None))) = card (dom fl) - 1" using assms(1,3) by (simp add: domI)
qed

lemma fun_upd_Some:
  assumes "finite (dom fl)" "inj_on fl (dom fl)" "fl i = None" "r \<notin> ran fl"
  shows "finite (dom (fl(i \<mapsto> r)))" "inj_on (fl(i \<mapsto> r)) (dom (fl(i \<mapsto> r)))" "ran (fl(i \<mapsto> r)) = insert r (ran fl)" "card (dom (fl(i \<mapsto> r))) = card (dom fl) + 1"
proof -
  show "finite (dom (fl(i \<mapsto> r)))" using assms(1) by simp
  show "inj_on (fl(i \<mapsto> r)) (dom (fl(i \<mapsto> r)))" using assms(2,4) by (auto simp: inj_on_def ran_def)
  show "ran (fl(i \<mapsto> r)) = insert r (ran fl)" using assms(3) by simp
  show "card (dom (fl(i \<mapsto> r))) = card (dom fl) + 1" using assms(1,3) by (simp add: card_insert_if domIff)
qed

text \<open>The callback of a context that carries a request does not fail.\<close>

lemma callback_ok:
  assumes "requests_ok fl d" "nodes_ok fl d" "fl i = Some r"
  obtains d' where "sm_dispatch_cntxt_callback k (Some e) s r m d = Inr d'" "requests_ok (fl(i := None)) d'" "nodes_ok (fl(i := None)) d'"
    "reqsSupported (disp d') = reqsSupported (disp d)" "initialized (disp d') = initialized (disp d)"
    "reqs d' = (reqs d)(r := None)" "queue (disp d') = queue (disp d)"
proof -
  note R = assms(1)[unfolded requests_ok_def] and N = assms(2)[unfolded nodes_ok_def]
  have "r \<in> ran fl" using assms(3) by (auto simp: ran_def)
  then obtain req where req: "reqs d r = Some req" and rq: "r \<notin> set (queue (disp d))" using R by blast
  let ?cur = "req_sweepPasscount req = sweepPasscount (disp d)" and ?n = "req_nodep req"
  have alive: "?cur \<longrightarrow> nodes d ?n \<noteq> None" using N req by blast
  define d1 where "d1 = update_disp dec_outstanding (request_resweeps k (Some e) s m d)"
  define d' where "d' = post_if_idle (sm_dispatch_free_req r (if ?cur then update_node ?n dec_node d1 else d1))"
  have run: "sm_dispatch_cntxt_callback k (Some e) s r m d = Inr d'"
    using req alive by (auto simp: sm_dispatch_cntxt_callback_def Let_def d1_def d'_def)
  have f: "disp d' = dec_outstanding (disp d)" "reqs d' = (reqs d)(r := None)"
    "nodes d' = (if ?cur then (nodes d)(?n := map_option dec_node (nodes d ?n)) else nodes d)"
    by (simp_all add: d'_def d1_def sm_dispatch_free_req_def)
  note U = fun_upd_None[where fl = fl and i = i, OF _ _ assms(3)]
  have c0: "0 < card (dom fl)" using R assms(3) by (metis card_gt_0_iff domI empty_iff)
  then have nz: "reqsOutstanding (disp d) \<noteq> 0" using R by auto
  have out: "unat (reqsOutstanding (disp d')) = card (dom (fl(i := None)))" using nz R U(4) by (simp add: f dec_outstanding_def unat_dec)
  have le: "reqsOutstanding (disp d') \<le> reqsSupported (disp d')"
    using nz R by (auto simp: f dec_outstanding_def word_le_nat_alt unat_dec)
  have req': "requests_ok (fl(i := None)) d'"
    unfolding requests_ok_def using U R out le rq by (auto simp: f)
  have wire: "on_wire (fl(i := None)) d' n = on_wire fl d n - {i}" for n
  proof (rule set_eqI)
    fix j
    have "fl j \<noteq> Some r" if "j \<noteq> i" using R assms(3) that by (auto simp: inj_on_def dom_def)
    then show "j \<in> on_wire (fl(i := None)) d' n \<longleftrightarrow> j \<in> on_wire fl d n - {i}"
      by (cases "j = i"; cases "fl j") (simp_all add: on_wire_iff f(1,2) split: option.split)
  qed
  have "card (on_wire (fl(i := None)) d' n) \<le> unat (asyncReqsOutstanding nd') \<and> asyncReqsOutstanding nd' \<le> asyncReqsSupported nd'"
    if nd': "nodes d' n = Some nd'" for n nd'
  proof (cases "?cur \<and> n = ?n")
    case True
    then obtain nd where nd: "nodes d n = Some nd" "nd' = dec_node nd" using nd' by (auto simp: f)
    have "i \<in> on_wire fl d n" using True assms(3) req by (auto simp: on_wire_def)
    then have c: "card (on_wire fl d n - {i}) = card (on_wire fl d n) - 1" "0 < card (on_wire fl d n)"
      using finite_on_wire[of fl d n] R by (auto simp: card_gt_0_iff)
    have b: "card (on_wire fl d n) \<le> unat (asyncReqsOutstanding nd)" "asyncReqsOutstanding nd \<le> asyncReqsSupported nd" using N nd(1) by blast+
    have "asyncReqsOutstanding nd \<noteq> 0" using b(1) c(2) by auto
    then show ?thesis using b c by (auto simp: wire nd(2) dec_node_def unat_dec word_le_nat_alt)
  next
    case False
    then have nd: "nodes d n = Some nd'" using nd' by (auto simp: f split: if_splits)
    have "card (on_wire fl d n - {i}) \<le> card (on_wire fl d n)" by (rule card_mono) (use finite_on_wire R in auto)
    then show ?thesis using N nd by (auto simp: wire intro: order_trans)
  qed
  moreover have "nodes d' (req_nodep q) \<noteq> None" if "reqs d' p = Some q" "req_sweepPasscount q = sweepPasscount (disp d')" for p q
  proof -
    have "reqs d p = Some q" "req_sweepPasscount q = sweepPasscount (disp d)" using that by (auto simp: f split: if_splits)
    then have "nodes d (req_nodep q) \<noteq> None" using N by blast
    then show ?thesis by (auto simp: f)
  qed
  ultimately have "nodes_ok (fl(i := None)) d'" unfolding nodes_ok_def by blast
  then show thesis using that run req' by (simp add: f)
qed

text \<open>A request that is taken from the queue is carried by a context that was free.\<close>

lemma take_request_ok:
  assumes "requests_ok fl d" "nodes_ok fl d" "r \<in> set (queue (disp d))" "reqs d r = Some req"
    "reqsOutstanding (disp d) < reqsSupported (disp d)" "request_due req d = Inr True" "fl i = None"
  shows "requests_ok (fl(i \<mapsto> r)) (take_request r req d)" "nodes_ok (fl(i \<mapsto> r)) (take_request r req d)"
proof -
  note R = assms(1)[unfolded requests_ok_def] and N = assms(2)[unfolded nodes_ok_def]
  let ?cur = "req_sweepPasscount req = sweepPasscount (disp d)" and ?n = "req_nodep req" and ?d = "take_request r req d"
  let ?inc = "\<lambda>n :: async_node. n\<lparr>asyncReqsOutstanding := asyncReqsOutstanding n + 1\<rparr>"
  have f: "disp ?d = (disp d)\<lparr>queue := remove1 r (queue (disp d)), reqsOutstanding := reqsOutstanding (disp d) + 1\<rparr>" "reqs ?d = reqs d"
    "nodes ?d = (if ?cur then (nodes d)(?n := map_option ?inc (nodes d ?n)) else nodes d)"
    by (auto simp: take_request_def Let_def)
  have nr: "r \<notin> ran fl" using R assms(3) by blast
  note U = fun_upd_Some[where fl = fl and i = i, OF _ _ assms(7) nr]
  have out: "unat (reqsOutstanding (disp d) + 1) = card (dom fl) + 1" using unat_inc[OF assms(5)] R by simp
  have le: "reqsOutstanding (disp d) + 1 \<le> reqsSupported (disp d)"
    using unat_inc[OF assms(5)] assms(5) by (simp add: word_le_nat_alt word_less_nat_alt)
  show "requests_ok (fl(i \<mapsto> r)) ?d"
    unfolding requests_ok_def using U R out le assms(3) by (auto simp: f)
  have wire: "on_wire (fl(i \<mapsto> r)) ?d n = (if ?cur \<and> n = ?n then insert i (on_wire fl d n) else on_wire fl d n)" for n
    using assms(4,7) by (auto simp: on_wire_def f)
  have "card (on_wire (fl(i \<mapsto> r)) ?d n) \<le> unat (asyncReqsOutstanding nd') \<and> asyncReqsOutstanding nd' \<le> asyncReqsSupported nd'"
    if nd': "nodes ?d n = Some nd'" for n nd'
  proof (cases "?cur \<and> n = ?n")
    case True
    then obtain nd where nd: "nodes d n = Some nd" "nd' = ?inc nd" using nd' by (auto simp: f)
    have b: "card (on_wire fl d n) \<le> unat (asyncReqsOutstanding nd)" using N nd(1) by blast
    have lt: "asyncReqsOutstanding nd < asyncReqsSupported nd" using assms(6) True nd(1) by (auto simp: request_due_def)
    have "i \<notin> on_wire fl d n" using assms(7) by (auto simp: on_wire_def)
    then have "card (insert i (on_wire fl d n)) = card (on_wire fl d n) + 1" using finite_on_wire[of fl d n] R by simp
    then show ?thesis using True b lt unat_inc[OF lt] by (simp add: wire nd(2) word_le_nat_alt word_less_nat_alt)
  next
    case False
    then have nd: "nodes d n = Some nd'" using nd' by (auto simp: f split: if_splits)
    then show ?thesis using N False by (auto simp: wire)
  qed
  moreover have "nodes ?d (req_nodep q) \<noteq> None" if "reqs ?d p = Some q" "req_sweepPasscount q = sweepPasscount (disp ?d)" for p q
  proof -
    have "reqs d p = Some q" "req_sweepPasscount q = sweepPasscount (disp d)" using that by (auto simp: f)
    then have "nodes d (req_nodep q) \<noteq> None" using N by blast
    then show ?thesis by (auto simp: f)
  qed
  ultimately show "nodes_ok (fl(i \<mapsto> r)) ?d" unfolding nodes_ok_def by blast
qed

lemma address_request_fields [simp]: "disp (address_request p d) = disp d" "nodes (address_request p d) = nodes d" "reqs (address_request p d) = reqs d"
  by (simp_all add: address_request_def)

lemma requests_ok_cong: "disp d' = disp d \<Longrightarrow> reqs d' = reqs d \<Longrightarrow> requests_ok fl d' = requests_ok fl d"
  by (simp add: requests_ok_def)

lemma nodes_ok_cong: "disp d' = disp d \<Longrightarrow> reqs d' = reqs d \<Longrightarrow> nodes d' = nodes d \<Longrightarrow> nodes_ok fl d' = nodes_ok fl d"
  by (simp add: nodes_ok_def on_wire_def)

end
