(* ===== verification/SmDispatchInv.thy ===== *)
theory SmDispatchInv
  imports SmDispatch
begin

text \<open>
  The dispatcher and the pool together: the invariant of the service and its preservation by every step of
  the threads that share the lock, with the properties that follow.
\<close>

section \<open>The contexts of the dispatcher and of others\<close>

definition flying :: "nat generic_cntxt \<Rightarrow> nat \<rightharpoonup> nat" where
  "flying c i = (if i < poolSize c then callback (pool c i) else None)"

definition others :: "nat generic_cntxt \<Rightarrow> nat set" where
  "others c = {i. i < poolSize c \<and> alloced (pool c i) \<and> callback (pool c i) = None}"

text \<open>Stepped retries divide by a fifth of the timeout, which must not be zero.\<close>

definition timeouts_ok :: "'d generic_cntxt \<Rightarrow> bool" where
  "timeouts_ok c \<longleftrightarrow> MinRespTimeout c = 0 \<or> 5 \<le> MinRespTimeout c \<and> MinRespTimeout c \<le> 2 ^ 40"

definition pool_share :: "nat generic_cntxt \<Rightarrow> u32 \<Rightarrow> bool" where
  "pool_share c s \<longleftrightarrow> pool_ok c \<and> 0 < hashTableDepth c \<and> timeouts_ok c \<and>
     (\<forall>i<poolSize c. (senderWantsResponse (pool c i) \<longrightarrow> callback (pool c i) = None) \<and> (callback (pool c i) \<noteq> None \<longrightarrow> hashed (pool c i))) \<and> card (others c) + unat s \<le> poolSize c"

text \<open>The invariant of the service: pool, requests and nodes together.\<close>

fun service_ok :: "nat generic_cntxt \<times> dispatch_state \<times> 'n \<Rightarrow> bool" where
  "service_ok (c, d, n) \<longleftrightarrow> pool_share c (reqsSupported (disp d)) \<and> requests_ok (flying c) d \<and> nodes_ok (flying c) d"

lemma only_entry_callback: "only_entry i c c' \<Longrightarrow> j \<noteq> i \<Longrightarrow> callback (pool c' j) = callback (pool c j) \<and> alloced (pool c' j) = alloced (pool c j) \<and>
    senderWantsResponse (pool c' j) = senderWantsResponse (pool c j) \<and> hashed (pool c' j) = hashed (pool c j)"
  using payload_fields[of "pool c' j" "pool c j"] by (simp add: only_entry_def)

lemma flying_step: "only_entry i c c' \<Longrightarrow> i < poolSize c \<Longrightarrow> flying c' = (flying c)(i := callback (pool c' i))"
  using only_entry_callback only_entry_config[of i c c'] by (auto simp: flying_def same_config_def fun_eq_iff)

lemma finite_others [simp]: "finite (others c)"
  by (simp add: others_def)

lemma share_step:
  assumes "pool_share c s" "pool_ok c'" "only_entry i c c'" "i < poolSize c" "senderWantsResponse (pool c' i) \<longrightarrow> callback (pool c' i) = None"
    "callback (pool c' i) \<noteq> None \<longrightarrow> hashed (pool c' i)"
    "alloced (pool c' i) \<and> callback (pool c' i) = None \<longrightarrow> alloced (pool c i) \<and> callback (pool c i) = None"
  shows "pool_share c' s"
proof -
  note conf = only_entry_config[OF assms(3), unfolded same_config_def]
  have "others c' \<subseteq> others c"
  proof
    fix j
    assume "j \<in> others c'"
    then show "j \<in> others c" using only_entry_callback[OF assms(3), of j] assms(7) conf by (cases "j = i") (auto simp: others_def)
  qed
  then have "card (others c') \<le> card (others c)" by (simp add: card_mono)
  moreover have "(senderWantsResponse (pool c' j) \<longrightarrow> callback (pool c' j) = None) \<and> (callback (pool c' j) \<noteq> None \<longrightarrow> hashed (pool c' j))"
    if "j < poolSize c'" for j
    using that only_entry_callback[OF assms(3), of j] assms(1,5,6) conf by (cases "j = i") (auto simp: pool_share_def)
  ultimately show ?thesis using assms(1,2) conf by (auto simp: pool_share_def timeouts_ok_def)
qed

section \<open>Releases\<close>

lemma dispatch_callback_quiet: "dispatch_callback k i s r m (c, w) = Inr (c', w') \<Longrightarrow> c' = c"
  by (cases w; cases "sm_dispatch_cntxt_callback k (Some (pool c i)) s r m (fst w)") (auto simp: dispatch_callback_def)

interpretation dcb: quiet_callback "dispatch_callback k :: (nat, dispatch_state \<times> 'n) cntxt_callback_t" for k
  by unfold_locales (rule dispatch_callback_quiet)

text \<open>The entry of a context that the dispatcher or another user gets back.\<close>

lemma release_entry:
  assumes "cntxt_release cb i s m (c, w) = Inr (c', w')" "cntx_ok c fr bs" "i < poolSize c" "alloced (pool c i)"
    "quiet_callback cb" "senderWantsResponse (pool c i) \<longrightarrow> callback (pool c i) = None"
  shows "callback (pool c' i) = None" "senderWantsResponse (pool c' i) \<longrightarrow> callback (pool c' i) = None" "alloced (pool c' i) \<longrightarrow> callback (pool c i) = None"
proof -
  let ?c1 = "update_entry i (\<lambda>e. e\<lparr>releasing := True\<rparr>) (cntxt_unhash i c)"
  have e: "callback (pool ?c1 i) = callback (pool c i)" "senderWantsResponse (pool ?c1 i) = senderWantsResponse (pool c i)" "releasing (pool ?c1 i)"
    using payload_fields[OF unhash_ok(3)[OF assms(2-4)]] by auto
  have k: "cntx_ok ?c1 fr (\<lambda>b. removeAll i (bs b))" by (rule update_data[OF unhash_ok(1)[OF assms(2-4)]]) simp_all
  have a: "i < poolSize ?c1" "alloced (pool ?c1 i)"
    using payload_fields[OF unhash_ok(3)[OF assms(2-4)]] unhash_ok(2)[OF assms(2-4)] assms(3,4) by (auto simp: only_entry_def same_config_def)
  have ret: "callback (pool (cs_cntxt_retire_nolock i b) i) = None" "\<not> senderWantsResponse (pool (cs_cntxt_retire_nolock i b) i)" for b
    using retire_clean[of i b] by (auto simp: clean_def)
  have "callback (pool c' i) = None \<and> (alloced (pool c' i) \<longrightarrow> callback (pool c i) = None)"
  proof (cases "senderWantsResponse (pool c i) \<and> resp_queue ?c1 \<noteq> None")
    case True
    then obtain q cap where "resp_queue ?c1 = Some (q, cap)" by (cases "resp_queue ?c1") auto
    then have "c' = queue_response i ?c1 m q cap" using assms(1) True e by (auto simp: cntxt_release_def Let_def split: if_splits)
    then show ?thesis using True assms(6) e ret by (auto simp: queue_response_def Let_def)
  next
    case False
    then have "c' = cs_cntxt_retire_nolock i ?c1" using quiet_callback.release_retires[OF assms(5) _ assms(1)] e(2) by blast
    then show ?thesis using ret retire_ok(3)[OF k a] by simp
  qed
  then show "callback (pool c' i) = None" "senderWantsResponse (pool c' i) \<longrightarrow> callback (pool c' i) = None" "alloced (pool c' i) \<longrightarrow> callback (pool c i) = None"
    by blast+
qed

lemma release_service:
  assumes "service_ok (c, d, n)" "i < poolSize c" "alloced (pool c i)"
  shows "\<exists>x. cntxt_release (dispatch_callback k) i s m (c, d, n) = Inr x \<and> service_ok x"
proof -
  obtain fr bs where ok: "cntx_ok c fr bs" "zero_free c" using assms(1) by (auto simp: pool_share_def pool_ok_def)
  have w: "senderWantsResponse (pool c i) \<longrightarrow> callback (pool c i) = None" using assms(1,2) by (auto simp: pool_share_def)
  have e: "callback (pool (cntxt_unhash i c) i) = callback (pool c i)" "senderWantsResponse (pool (cntxt_unhash i c) i) = senderWantsResponse (pool c i)"
    using payload_fields[OF unhash_ok(3)[OF ok(1) assms(2,3)]] by auto
  have fin: "service_ok (c', d', n)" if r: "cntxt_release (dispatch_callback k) i s m (c, d, n) = Inr (c', d', n)"
    "requests_ok ((flying c)(i := None)) d'" "nodes_ok ((flying c)(i := None)) d'" "reqsSupported (disp d') = reqsSupported (disp d)" for c' d'
  proof -
    note R = dcb.release_ok[OF ok assms(2,3) r(1)] and E = release_entry[OF r(1) ok(1) assms(2,3) dcb.quiet_callback_axioms w]
    have "pool_ok c'" using R(1,3) by (auto simp: pool_ok_def)
    then have "pool_share c' (reqsSupported (disp d))" using share_step[OF _ _ R(2) assms(2)] assms(1,3) E by simp
    then show ?thesis using r(2-4) flying_step[OF R(2) assms(2)] E(1) by simp
  qed
  show ?thesis
  proof (cases "callback (pool c i)")
    case None
    obtain c' where c': "cntxt_release (dispatch_callback k) i s m (c, d, n) = Inr (c', d, n)"
      using None e by (cases "resp_queue (cntxt_unhash i c)") (auto simp: cntxt_release_def Let_def)
    have "(flying c)(i := None) = flying c" using None assms(2) by (auto simp: flying_def fun_eq_iff)
    then have "service_ok (c', d, n)" using fin[OF c'] assms(1) by simp
    then show ?thesis using c' by blast
  next
    case (Some r)
    have fl: "flying c i = Some r" using Some assms(2) by (simp add: flying_def)
    let ?d = "\<lambda>e. sm_dispatch_cntxt_callback k (Some e) s r m d"
    have D: "\<exists>d'. ?d e = Inr d' \<and> requests_ok ((flying c)(i := None)) d' \<and> nodes_ok ((flying c)(i := None)) d' \<and> reqsSupported (disp d') = reqsSupported (disp d)" for e
      using callback_ok[where fl = "flying c" and i = i, OF _ _ fl, of d k e s m] assms(1) by (metis service_ok.simps)
    let ?c1 = "update_entry i (\<lambda>e. e\<lparr>releasing := True\<rparr>) (cntxt_unhash i c)"
    obtain d' where d': "?d (pool ?c1 i) = Inr d'" "requests_ok ((flying c)(i := None)) d'" "nodes_ok ((flying c)(i := None)) d'"
        "reqsSupported (disp d') = reqsSupported (disp d)" using D by blast
    obtain c' where c': "cntxt_release (dispatch_callback k) i s m (c, d, n) = Inr (c', d', n)"
      using Some w e d'(1) by (auto simp: cntxt_release_def Let_def dispatch_callback_def)
    show ?thesis using fin[OF c' d'(2-4)] c' by blast
  qed
qed

section \<open>Timeouts\<close>

lemma lift_network_fst: "lift_network f (d, n) = (a, x) \<Longrightarrow> fst x = d"
  by (auto simp: lift_network_def split: prod.splits)

lemma send_network:
  assumes "cs_cntxt_send_mad_nolock (network_send mai_send) now i (c, d, n) = (s, c', w')"
  shows "fst w' = d"
  using assms lift_network_fst by (fastforce simp: cs_cntxt_send_mad_nolock_def Let_def split: prod.splits)

lemma stepped_timeout_defined:
  assumes "5 \<le> MinRespTimeout c" "MinRespTimeout c \<le> 2 ^ 40"
  shows "\<exists>t. stepped_timeout r c e = Inr t"
proof -
  define t :: u64 where "t = (ucast (retries e) + 1) * MinRespTimeout c"
  let ?q = "t div 5"
  have m: "5 \<le> unat (MinRespTimeout c)" "unat (MinRespTimeout c) \<le> 2 ^ 40" using assms by (simp_all add: word_le_nat_alt)
  have r: "unat (ucast (retries e) :: u64) \<le> 65535" using unsigned_less[of "retries e", where ?'a = nat] by (simp add: unsigned_ucast_eq take_bit_nat_eq_self)
  have p: "unat ((ucast (retries e) :: u64) + 1) = unat (ucast (retries e) :: u64) + 1" using r by (simp add: unat_word_ariths)
  have "(unat (ucast (retries e) :: u64) + 1) * unat (MinRespTimeout c) \<le> 65536 * 2 ^ 40" by (rule mult_le_mono) (use m r in simp_all)
  then have "unat t = (unat (ucast (retries e) :: u64) + 1) * unat (MinRespTimeout c)" using p by (simp add: t_def unat_word_ariths)
  then have u: "5 \<le> unat t" "unat t \<le> 2 ^ 56" using m(1) \<open>_ \<le> 65536 * 2 ^ 40\<close> by (auto intro: order_trans)
  have q: "unat ?q = unat t div 5" by (simp add: unat_div_distrib)
  have "1 \<le> unat t div 5" "unat t div 5 \<le> 2 ^ 56" using u by simp_all
  then have "unat (?q + ?q) \<noteq> 0" using q by (simp add: unat_word_ariths)
  then have "?q + ?q \<noteq> 0" by (metis unat_0)
  moreover have "(t + ?q) - (t - ?q) = ?q + ?q" by simp
  ultimately show ?thesis by (simp add: stepped_timeout_def GET_RANDOM_def Let_def flip: t_def)
qed

lemma timeout_defined:
  fixes c :: "'d generic_cntxt"
  assumes "timeouts_ok c"
  shows "\<exists>s c' n'. cs_cntxt_timeout_entry (network_send mai_send) (lift_network rand) now i (c, d, n) = Inr (s, c', d, n')"
proof -
  have snd_ok: "\<exists>s c' n'. cs_cntxt_send_mad_nolock (network_send mai_send) now i (c0, d, n0) = (s, c', d, n')" for c0 :: "'d generic_cntxt" and n0
  proof -
    obtain s c' w' where "cs_cntxt_send_mad_nolock (network_send mai_send) now i (c0, d, n0) = (s, c', w')" by (rule prod_cases3)
    then show ?thesis using send_network[of mai_send now i c0 d n0 s c' w'] by (cases w') auto
  qed
  show ?thesis
  proof (cases "MinRespTimeout c = 0")
    case True
    then show ?thesis using snd_ok[of "update_entry i (\<lambda>e. e\<lparr>tstamp := now\<rparr>) c" n] by (auto simp: cs_cntxt_timeout_entry_def Let_def)
  next
    case False
    obtain r n1 where r: "rand n = (r, n1)" by force
    let ?g = "\<lambda>e :: 'd cntxt_entry. e\<lparr>tstamp := now, cumulative_timeout := cumulative_timeout e + RespTimeout e\<rparr>"
    have "5 \<le> MinRespTimeout (update_entry i ?g c)" "MinRespTimeout (update_entry i ?g c) \<le> 2 ^ 40" using assms False by (auto simp: timeouts_ok_def)
    then obtain t where "stepped_timeout r (update_entry i ?g c) (pool (update_entry i ?g c) i) = Inr t" using stepped_timeout_defined by blast
    then show ?thesis using False snd_ok[of "update_entry i (\<lambda>e. (?g e)\<lparr>RespTimeout := t\<rparr>) c" n1] r by (auto simp: cs_cntxt_timeout_entry_def Let_def lift_network_def)
  qed
qed

lemma timeout_service:
  assumes "service_ok (c, d, n)" "i < poolSize c" "hashed (pool c i)"
  obtains s c' n' where "cs_cntxt_timeout_entry (network_send mai_send) (lift_network rand) now i (c, d, n) = Inr (s, c', d, n')" "service_ok (c', d, n')"
    "i < poolSize c'" "alloced (pool c' i)"
proof -
  obtain fr bs where ok: "cntx_ok c fr bs" "zero_free c" using assms(1) by (auto simp: pool_share_def pool_ok_def)
  have "timeouts_ok c" using assms(1) by (simp add: pool_share_def)
  then obtain s c' n' where t: "cs_cntxt_timeout_entry (network_send mai_send) (lift_network rand) now i (c, d, n) = Inr (s, c', d, n')"
    using timeout_defined[of c mai_send rand now i d n] by blast
  note T = timeout_entry_ok[OF ok(1) assms(3) t] and Z = timeout_zero_free[OF ok assms(2,3) t]
  have k: "callback (pool c' i) = callback (pool c i)" "hashed (pool c' i)" "alloced (pool c' i) = alloced (pool c i)" "senderWantsResponse (pool c' i) = senderWantsResponse (pool c i)"
    using T(3) assms(3) by (simp_all add: kept_def)
  have w: "senderWantsResponse (pool c i) \<longrightarrow> callback (pool c i) = None" using assms(1,2) by (simp add: pool_share_def)
  have "pool_ok c'" using T(1) Z by (auto simp: pool_ok_def)
  then have "pool_share c' (reqsSupported (disp d))"
    by (rule share_step[OF _ _ T(2) assms(2), rotated]) (use assms(1) k w in simp_all)
  moreover have "flying c' = flying c" using flying_step[OF T(2) assms(2)] k(1) assms(2) by (auto simp: flying_def fun_eq_iff)
  moreover have "i < poolSize c'" "alloced (pool c' i)"
    using T(2) assms(2) k(3) cntx_okD(5)[OF ok(1) assms(2,3)] by (simp_all add: only_entry_def same_config_def)
  ultimately show thesis using that t assms(1) by simp
qed

section \<open>Responses and ageing\<close>

lemma age_entry_service:
  assumes "service_ok (c, d, n)" "i < poolSize c" "hashed (pool c i)"
  shows "keeps service_ok (\<lambda>_. False) (age_entry (dispatch_callback k) (network_send mai_send) (lift_network rand) now i sm (c, d, n))"
proof (cases "expired now c (pool c i)")
  case False
  then show ?thesis using assms(1) by (simp add: age_entry_def)
next
  case True
  obtain s c' n' where t: "cs_cntxt_timeout_entry (network_send mai_send) (lift_network rand) now i (c, d, n) = Inr (s, c', d, n')" "service_ok (c', d, n')"
    "i < poolSize c'" "alloced (pool c' i)" by (rule timeout_service[OF assms])
  show ?thesis using True t release_service[OF t(2-4), of k s None] by (auto simp: age_entry_def)
qed

lemma age_service:
  assumes "service_ok (c, d, n)"
  shows "\<exists>t x. cs_cntxt_age VSTATUS_OK (dispatch_callback k) (network_send mai_send) (lift_network rand) now (c, d, n) = Some (Inr (t, x)) \<and> service_ok x \<and>
    same_config c (fst x)"
proof -
  have step: "keeps service_ok (\<lambda>_. False) (age_entry (dispatch_callback k) (network_send mai_send) (lift_network rand) now i sm (c, w))"
    if "pool_ok c" "i < poolSize c" "hashed (pool c i)" "service_ok (c, w)" for i sm c and w :: "dispatch_state \<times> 'a"
    using age_entry_service[of c "fst w" "snd w" i] that by simp
  have p: "pool_ok c" "0 < hashTableDepth c" using assms by (simp_all add: pool_share_def)
  obtain r where r: "cs_cntxt_age VSTATUS_OK (dispatch_callback k) (network_send mai_send) (lift_network rand) now (c, d, n) = Some r" "keeps service_ok (\<lambda>_. False) r"
      "\<forall>t c' w'. r = Inr (t, c', w') \<longrightarrow> same_config c c'"
    using dcb.age_keeps[where J = service_ok and E = "\<lambda>_. False", OF step p assms] by blast
  then show ?thesis by (cases r) (auto simp: keeps_def)
qed

lemma find_release_service:
  assumes "service_ok (c, d, n)"
  shows "\<exists>x. cs_cntxt_find_release VSTATUS_OK (dispatch_callback k) mad (c, d, n) = Some (Inr x) \<and> service_ok x"
proof -
  obtain fr bs where ok: "cntx_ok c fr bs" using assms by (auto simp: pool_share_def pool_ok_def)
  show ?thesis
  proof (cases rule: cntxt_find_cases[OF ok, of mad, case_names none some])
    case (some i)
    then show ?thesis using release_service[OF assms some(2,4), of k VSTATUS_OK "Some mad"] by (auto simp: cs_cntxt_find_release_def)
  qed (use assms in \<open>simp add: cs_cntxt_find_release_def\<close>)
qed

lemma find_release_error_service:
  assumes "service_ok (c, d, n)"
  shows "\<exists>x. cs_cntxt_find_release_error VSTATUS_OK (dispatch_callback k) (network_send mai_send) (lift_network rand) now mad (c, d, n) = Some (Inr x) \<and> service_ok x"
proof -
  obtain fr bs where ok: "cntx_ok c fr bs" using assms by (auto simp: pool_share_def pool_ok_def)
  show ?thesis
  proof (cases rule: cntxt_find_cases[OF ok, of mad, case_names none some])
    case (some i)
    obtain s c' n' where t: "cs_cntxt_timeout_entry (network_send mai_send) (lift_network rand) now i (c, d, n) = Inr (s, c', d, n')" "service_ok (c', d, n')"
      "i < poolSize c'" "alloced (pool c' i)" by (rule timeout_service[OF assms some(2,3)])
    show ?thesis using some(1) t release_service[OF t(2-4), of k s None] by (auto simp: cs_cntxt_find_release_error_def)
  qed (use assms in \<open>simp add: cs_cntxt_find_release_error_def\<close>)
qed

section \<open>Serving the queue\<close>

lemma free_context:
  assumes "service_ok (c, d, n)" "reqsOutstanding (disp d) < reqsSupported (disp d)"
  obtains i fr bs where "cntx_ok c (i # fr) bs" "zero_free c" "flying c i = None"
proof -
  obtain fr bs where ok: "cntx_ok c fr bs" "zero_free c" using assms(1) by (auto simp: pool_share_def pool_ok_def)
  have "fr \<noteq> []"
  proof
    assume "fr = []"
    then have "i < poolSize c \<Longrightarrow> alloced (pool c i)" for i using cntx_okD(3)[OF ok(1), of i] by simp
    then have "{..<poolSize c} \<subseteq> dom (flying c) \<union> others c" by (auto simp: flying_def others_def)
    moreover have fin: "finite (dom (flying c))" using assms(1) by (simp add: requests_ok_def)
    ultimately have "poolSize c \<le> card (dom (flying c)) + card (others c)"
      using card_mono[of "dom (flying c) \<union> others c" "{..<poolSize c}"] card_Un_le[of "dom (flying c)" "others c"] by simp
    moreover have "card (dom (flying c)) < unat (reqsSupported (disp d))" "card (others c) + unat (reqsSupported (disp d)) \<le> poolSize c"
      using assms by (auto simp: requests_ok_def pool_share_def word_less_nat_alt)
    ultimately show False by linarith
  qed
  then obtain i fr' where fr: "fr = i # fr'" by (cases fr) auto
  then have "i < poolSize c" "\<not> alloced (pool c i)" using cntx_okD(3)[OF ok(1), of i] by auto
  then have "flying c i = None" using ok(2) by (auto simp: zero_free_def clean_def flying_def)
  then show thesis using that ok fr by blast
qed

text \<open>A request is given to a free context and sent.\<close>

lemma send_context:
  assumes "cntx_ok c (i # fr) bs" "zero_free c"
  obtains s c' n' where
    "sm_send_request_async k mai_send now tid p (Some r) (c, d, n) = Inr (s, c', d, n')" "pool_ok c'" "only_entry i c c'" "i < poolSize c"
    "callback (pool c' i) = Some r" "alloced (pool c' i)" "\<not> senderWantsResponse (pool c' i)" "hashed (pool c' i)"
    "tstamp (pool c' i) = now" "RespTimeout (pool c' i) = defaultTimeout c"
proof -
  obtain c1 where g: "cs_cntxt_get_nolock now (Some (out_mad p tid d)) False c = (Some i, c1)"
      "cntx_ok c1 fr (bs(bucket_of c (m_dlid (out_mad p tid d)) := i # bs (bucket_of c (m_dlid (out_mad p tid d)))))"
      "only_entry i c c1" "zero_free c1" "i < poolSize c" "clean (pool c1 i)" "alloced (pool c1 i)" "hashed (pool c1 i)"
      "RespTimeout (pool c1 i) = defaultTimeout c" "tstamp (pool c1 i) = now"
    by (rule get_mad[OF assms])
  let ?c2 = "cs_cntxt_set_callback i (Some r) c1"
  have c2: "cntx_ok ?c2 fr (bs(bucket_of c (m_dlid (out_mad p tid d)) := i # bs (bucket_of c (m_dlid (out_mad p tid d)))))" "only_entry i c1 ?c2"
    unfolding cs_cntxt_set_callback_def by (rule update_data[OF g(2)]; simp)+
  obtain s c' w' where s: "cs_cntxt_send_mad_nolock (network_send mai_send) now i (?c2, d, n) = (s, c', w')" by (rule prod_cases3)
  obtain n' where w': "w' = (d, n')" using send_network[OF s] by (cases w') simp
  have h: "hashed (pool ?c2 i)" using g(8) by (simp add: cs_cntxt_set_callback_def)
  note S = send_hashed[OF c2(1) h s]
  have e: "callback (pool c' i) = Some r" "alloced (pool c' i)" "\<not> senderWantsResponse (pool c' i)" "hashed (pool c' i)"
    using S(3) g(6,7) h by (simp_all add: kept_def cs_cntxt_set_callback_def clean_def)
  have o: "only_entry i c c'" using g(3) c2(2) S(2) only_entry_trans by blast
  have "pool_ok c'" using S(1) zero_free_entry[OF assms(2) o] e(2) by (auto simp: pool_ok_def)
  moreover have "sm_send_request_async k mai_send now tid p (Some r) (c, d, n) = Inr (s, c', d, n')"
    using g(1) s w' by (simp add: sm_send_request_async_def)
  moreover have "tstamp (pool c' i) = now" "RespTimeout (pool c' i) = defaultTimeout c" using S(5,6) g(9,10) by (simp_all add: cs_cntxt_set_callback_def)
  ultimately show thesis using that o g(5) e by blast
qed

lemma dispatch_send_service:
  assumes "service_ok (c, d, n)" "reqsOutstanding (disp d) < reqsSupported (disp d)" "r \<in> set (queue (disp d))" "reqs d r = Some req" "request_due req d = Inr True"
  obtains s c' d' n' i where "sm_dispatch_send k mai_send now tid r (c, take_request r req d, n) = Inr (s, c', d', n')" "service_ok (c', d', n')"
    "disp d' = disp (take_request r req d)" "nodes d' = nodes (take_request r req d)" "reqs d' = reqs d"
    "only_entry i c c'" "tstamp (pool c' i) = now" "RespTimeout (pool c' i) = defaultTimeout c"
proof -
  obtain i fr bs where i: "cntx_ok c (i # fr) bs" "zero_free c" "flying c i = None" by (rule free_context[OF assms(1,2)])
  let ?d = "address_request (sendParams req) (take_request r req d)"
  obtain s c' n' where s: "sm_send_request_async k mai_send now tid (sendParams req) (Some r) (c, ?d, n) = Inr (s, c', ?d, n')" "pool_ok c'" "only_entry i c c'" "i < poolSize c"
    "callback (pool c' i) = Some r" "alloced (pool c' i)" "\<not> senderWantsResponse (pool c' i)" "hashed (pool c' i)"
    "tstamp (pool c' i) = now" "RespTimeout (pool c' i) = defaultTimeout c" by (rule send_context[OF i(1,2)])
  have t: "reqs (take_request r req d) = reqs d" "reqsSupported (disp (take_request r req d)) = reqsSupported (disp d)" by (simp_all add: take_request_def Let_def)
  have run: "sm_dispatch_send k mai_send now tid r (c, take_request r req d, n) = Inr (s, c', ?d, n')" using s(1) assms(4) t(1) by (simp add: sm_dispatch_send_def)
  have ok: "requests_ok (flying c) d" "nodes_ok (flying c) d" "pool_share c (reqsSupported (disp d))" using assms(1) by simp_all
  note T = take_request_ok[OF ok(1,2) assms(3,4,2,5) i(3)]
  have fl: "flying c' = (flying c)(i \<mapsto> r)" using flying_step[OF s(3,4)] s(5) by simp
  have "pool_share c' (reqsSupported (disp d))" by (rule share_step[OF ok(3) s(2,3,4)]) (use s(5,7,8) in simp_all)
  then have "service_ok (c', ?d, n')" using T fl t(2) requests_ok_cong[of ?d] nodes_ok_cong[of ?d] by simp
  then show thesis using that run t(1) s(3,9,10) by simp
qed

text \<open>
  What is left of the queue after a walk over it: either the limit is reached, or every request left is of
  this sweep and its node has all it can take.
\<close>

definition not_due :: "dispatch_state \<Rightarrow> nat \<Rightarrow> bool" where
  "not_due d r \<longleftrightarrow> (\<exists>req. reqs d r = Some req \<and> request_due req d = Inr False)"

lemma not_due_take:
  assumes "not_due d q" "request_due req d = Inr True" "disp d' = disp (take_request r req d)" "nodes d' = nodes (take_request r req d)" "reqs d' = reqs d"
  shows "not_due d' q"
  using assms by (auto simp: not_due_def request_due_def take_request_def Let_def split: option.splits if_splits)

lemma serve_service:
  assumes "service_ok (c, d, n)" "set items \<subseteq> set (queue (disp d))" "distinct items"
  shows "\<exists>c' d' n'. serve_items k mai_send now tids items (c, d, n) = Inr (c', d', n') \<and> service_ok (c', d', n') \<and>
    set (queue (disp d')) \<subseteq> set (queue (disp d)) \<and> reqs d' = reqs d \<and> (\<forall>q. not_due d q \<longrightarrow> not_due d' q) \<and>
    (reqsOutstanding (disp d') = reqsSupported (disp d') \<or> (\<forall>r\<in>set items. r \<in> set (queue (disp d')) \<longrightarrow> not_due d' r))"
  using assms
proof (induction items arbitrary: c d n)
  case (Cons r items)
  have R: "requests_ok (flying c) d" and N: "nodes_ok (flying c) d" using Cons.prems(1) by simp_all
  have rq: "r \<in> set (queue (disp d))" using Cons.prems(2) by simp
  then obtain req where req: "reqs d r = Some req" using R by (auto simp: requests_ok_def)
  show ?case
  proof (cases "reqsOutstanding (disp d) < reqsSupported (disp d)")
    case False
    then have "reqsOutstanding (disp d) = reqsSupported (disp d)" using R by (simp add: requests_ok_def)
    then show ?thesis using False Cons.prems(1) by auto
  next
    case room: True
    have "\<exists>due. request_due req d = Inr due" using nodes_okD[OF N req] by (auto simp: request_due_def)
    then obtain due where due: "request_due req d = Inr due" ..
    show ?thesis
    proof (cases due)
      case False
      have "not_due d r" using req due False by (auto simp: not_due_def)
      moreover have "serve_items k mai_send now tids (r # items) (c, d, n) = serve_items k mai_send now tids items (c, d, n)"
        using room req due False by simp
      ultimately show ?thesis using Cons.IH[OF Cons.prems(1)] Cons.prems(2,3) by fastforce
    next
      case True
      obtain s c1 d1 n1 where s: "sm_dispatch_send k mai_send now (tids r) r (c, take_request r req d, n) = Inr (s, c1, d1, n1)" "service_ok (c1, d1, n1)"
        "disp d1 = disp (take_request r req d)" "nodes d1 = nodes (take_request r req d)" "reqs d1 = reqs d"
        using dispatch_send_service[OF Cons.prems(1) room rq req] due True by metis
      have dist: "distinct (queue (disp d))" using R by (simp add: requests_ok_def)
      have q: "set (queue (disp d1)) = set (queue (disp d)) - {r}" using dist by (simp add: s(3) take_request_def Let_def)
      have items: "set items \<subseteq> set (queue (disp d1))" using Cons.prems(2,3) q by auto
      obtain c' d' n' where I: "serve_items k mai_send now tids items (c1, d1, n1) = Inr (c', d', n')" "service_ok (c', d', n')"
          "set (queue (disp d')) \<subseteq> set (queue (disp d1))" "reqs d' = reqs d1" "\<forall>q. not_due d1 q \<longrightarrow> not_due d' q"
          "reqsOutstanding (disp d') = reqsSupported (disp d') \<or> (\<forall>r\<in>set items. r \<in> set (queue (disp d')) \<longrightarrow> not_due d' r)"
        using Cons.IH[OF s(2) items] Cons.prems(3) by auto
      have "r \<notin> set (queue (disp d'))" using I(3) q by blast
      moreover have "not_due d' p" if "not_due d p" for p using I(5) not_due_take[OF that _ s(3-5)] due True by simp
      moreover have "serve_items k mai_send now tids (r # items) (c, d, n) = Inr (c', d', n')" using room req due True s(1) I(1) by simp
      ultimately show ?thesis using I q s(5) by auto
    qed
  qed
qed auto

lemma update_service:
  assumes "service_ok (c, d, n)"
  shows "\<exists>c' d' n'. sm_dispatch_update k mai_send now tids (c, d, n) = Inr (c', d', n') \<and> service_ok (c', d', n') \<and>
    (reqsOutstanding (disp d') = reqsSupported (disp d') \<or> (\<forall>r\<in>set (queue (disp d')). not_due d' r))"
proof (cases "queue (disp d) = [] \<or> reqsOutstanding (disp d) \<ge> reqsSupported (disp d)")
  case True
  moreover have "reqsOutstanding (disp d) \<le> reqsSupported (disp d)" using assms by (simp add: requests_ok_def)
  ultimately show ?thesis using assms by (auto simp: sm_dispatch_update_def)
next
  case False
  have "distinct (queue (disp d))" using assms by (simp add: requests_ok_def)
  then show ?thesis using False serve_service[OF assms subset_refl, of k mai_send now tids] by (fastforce simp: sm_dispatch_update_def)
qed

section \<open>The service as a whole\<close>

text \<open>
  The steps of the threads that share the lock: requests are made and queued, the receiving thread serves
  the queue and handles responses, errors and time, a sweep ends and replaces the nodes, the queue is
  cleared after a stall. Other users of the pool hold contexts without a callback; they leave as many
  contexts as the dispatcher may use. No request outlives \<open>2 ^ 32\<close> sweeps.
\<close>

inductive service_step ::
  "bool \<Rightarrow> (Mad_t \<Rightarrow> u64 \<Rightarrow> 'n \<Rightarrow> Status_t \<times> 'n) \<Rightarrow> ('n \<Rightarrow> u64 \<times> 'n) \<Rightarrow> nat generic_cntxt \<times> dispatch_state \<times> 'n \<Rightarrow> nat generic_cntxt \<times> dispatch_state \<times> 'n \<Rightarrow> bool"
  for k mai_send rand where
  new_req: "reqs d r = None \<Longrightarrow> nodes d a \<noteq> None \<Longrightarrow> sm_dispatch_new_req (Inr r) p a d = (s, q, d') \<Longrightarrow> service_step k mai_send rand (c, d, n) (c, d', n)"
| enqueue: "initialized (disp d) \<Longrightarrow> reqs d r \<noteq> None \<Longrightarrow> r \<notin> set (queue (disp d)) \<Longrightarrow> r \<notin> ran (flying c) \<Longrightarrow>
    sm_dispatch_enqueue k mai_send now tid r (c, d, n) = Inr (s, x) \<Longrightarrow> service_step k mai_send rand (c, d, n) x"
| update: "sm_dispatch_update k mai_send now tids (c, d, n) = Inr x \<Longrightarrow> service_step k mai_send rand (c, d, n) x"
| clear: "service_step k mai_send rand (c, d, n) (c, sm_dispatch_clear d, n)"
| sweep_end: "\<forall>r req. reqs d r = Some req \<longrightarrow> req_sweepPasscount req \<noteq> sweepPasscount (disp d) + 1 \<Longrightarrow>
    \<forall>nd\<in>ran nodes'. asyncReqsOutstanding nd \<le> asyncReqsSupported nd \<Longrightarrow>
    service_step k mai_send rand (c, d, n) (c, (sm_dispatch_bump_passcount d)\<lparr>nodes := nodes'\<rparr>, n)"
| found: "nodes d a = None \<Longrightarrow> asyncReqsOutstanding nd \<le> asyncReqsSupported nd \<Longrightarrow> service_step k mai_send rand (c, d, n) (c, d\<lparr>nodes := (nodes d)(a \<mapsto> nd)\<rparr>, n)"
| response: "cs_cntxt_find_release VSTATUS_OK (dispatch_callback k) mad (c, d, n) = Some (Inr x) \<Longrightarrow> service_step k mai_send rand (c, d, n) x"
| send_error: "cs_cntxt_find_release_error VSTATUS_OK (dispatch_callback k) (network_send mai_send) (lift_network rand) now mad (c, d, n) = Some (Inr x) \<Longrightarrow>
    service_step k mai_send rand (c, d, n) x"
| age: "cs_cntxt_age VSTATUS_OK (dispatch_callback k) (network_send mai_send) (lift_network rand) now (c, d, n) = Some (Inr (t, x)) \<Longrightarrow> service_step k mai_send rand (c, d, n) x"
| other_get: "card (others c) + 1 + unat (reqsSupported (disp d)) \<le> poolSize c \<Longrightarrow> cs_cntxt_get_nolock now (Some m) wt c = (i, c') \<Longrightarrow>
    service_step k mai_send rand (c, d, n) (c', d, n)"
| other_wants: "i \<in> others c \<Longrightarrow> service_step k mai_send rand (c, d, n) (update_entry i (\<lambda>e. e\<lparr>senderWantsResponse := True\<rparr>) c, d, n)"
| other_send: "i \<in> others c \<Longrightarrow> hashed (pool c i) \<Longrightarrow> cs_cntxt_send_mad_nolock (network_send mai_send) now i (c, d, n) = (s, x) \<Longrightarrow> service_step k mai_send rand (c, d, n) x"
| other_retire: "i \<in> others c \<Longrightarrow> service_step k mai_send rand (c, d, n) (cs_cntxt_retire_nolock i c, d, n)"

lemma requests_enqueue:
  "requests_ok fl d \<Longrightarrow> r \<in> dom (reqs d) \<Longrightarrow> r \<notin> set (queue (disp d)) \<Longrightarrow> r \<notin> ran fl \<Longrightarrow> requests_ok fl (update_disp (\<lambda>s. s\<lparr>queue := queue s @ [r]\<rparr>) d)"
  by (auto simp: requests_ok_def)

lemma nodes_enqueue: "nodes_ok fl (update_disp (\<lambda>s. s\<lparr>queue := q s\<rparr>) d) = nodes_ok fl d"
  by (simp add: nodes_ok_def on_wire_def)

lemma on_wire_mono: "(\<And>r req. r \<in> ran fl \<Longrightarrow> reqs d' r = Some req \<Longrightarrow> reqs d r = Some req) \<Longrightarrow> sweepPasscount (disp d') = sweepPasscount (disp d) \<Longrightarrow>
    on_wire fl d' n \<subseteq> on_wire fl d n"
  by (auto simp: on_wire_def ranI)

lemma on_wire_card_mono:
  "finite (dom fl) \<Longrightarrow> (\<And>r req. r \<in> ran fl \<Longrightarrow> reqs d' r = Some req \<Longrightarrow> reqs d r = Some req) \<Longrightarrow> sweepPasscount (disp d') = sweepPasscount (disp d) \<Longrightarrow>
    card (on_wire fl d' n) \<le> card (on_wire fl d n)"
  by (rule card_mono[OF finite_on_wire on_wire_mono])

lemma new_req_ok:
  assumes "requests_ok fl d" "nodes_ok fl d" "reqs d r = None" "nodes d a \<noteq> None" "sm_dispatch_new_req (Inr r) p a d = (s, q, d')"
  shows "requests_ok fl d'" "nodes_ok fl d'" "reqsSupported (disp d') = reqsSupported (disp d)"
proof -
  have d': "d' = d\<lparr>reqs := (reqs d)(r \<mapsto> \<lparr>sendParams = p, req_nodep = a, req_sweepPasscount = sweepPasscount (disp d)\<rparr>)\<rparr>"
    using assms(5) by (simp add: sm_dispatch_new_req_def)
  have nr: "r \<notin> ran fl" using assms(1,3) by (auto simp: requests_ok_def)
  show "requests_ok fl d'" using assms(1) by (auto simp: requests_ok_def d')
  have "card (on_wire fl d' m) \<le> card (on_wire fl d m)" for m
    by (rule on_wire_card_mono) (use assms(1) nr in \<open>auto simp: requests_ok_def d' split: if_splits\<close>)
  then have "card (on_wire fl d' m) \<le> unat (asyncReqsOutstanding nd) \<and> asyncReqsOutstanding nd \<le> asyncReqsSupported nd" if "nodes d' m = Some nd" for m nd
    using assms(2) that order_trans unfolding nodes_ok_def by (fastforce simp: d')
  moreover have "nodes d' (req_nodep x) \<noteq> None" if "reqs d' y = Some x" "req_sweepPasscount x = sweepPasscount (disp d')" for x y
    using that assms(2,4) by (auto simp: nodes_ok_def d' split: if_splits)
  ultimately show "nodes_ok fl d'" unfolding nodes_ok_def by blast
  show "reqsSupported (disp d') = reqsSupported (disp d)" by (simp add: d')
qed

lemma free_all: "fold sm_dispatch_free_req rs d = d\<lparr>reqs := (\<lambda>r. if r \<in> set rs then None else reqs d r)\<rparr>"
  by (induction rs arbitrary: d) (auto simp: sm_dispatch_free_req_def fun_eq_iff)

lemma clear_ok:
  assumes "requests_ok fl d" "nodes_ok fl d"
  shows "requests_ok fl (sm_dispatch_clear d)" "nodes_ok fl (sm_dispatch_clear d)" "reqsSupported (disp (sm_dispatch_clear d)) = reqsSupported (disp d)"
proof -
  let ?d = "sm_dispatch_clear d"
  have f: "disp ?d = (disp d)\<lparr>queue := []\<rparr>" "nodes ?d = nodes d" "reqs ?d r = (if r \<in> set (queue (disp d)) then None else reqs d r)" for r
    by (simp_all add: sm_dispatch_clear_def free_all)
  show "requests_ok fl ?d" using assms(1) by (auto simp: requests_ok_def f dom_def subset_iff split: if_splits)
  have "card (on_wire fl ?d m) \<le> card (on_wire fl d m)" for m
    by (rule on_wire_card_mono) (use assms(1) in \<open>auto simp: requests_ok_def f split: if_splits\<close>)
  then have "card (on_wire fl ?d m) \<le> unat (asyncReqsOutstanding nd) \<and> asyncReqsOutstanding nd \<le> asyncReqsSupported nd" if "nodes ?d m = Some nd" for m nd
    using assms(2) that order_trans unfolding nodes_ok_def by (fastforce simp: f)
  moreover have "nodes ?d (req_nodep x) \<noteq> None" if "reqs ?d y = Some x" "req_sweepPasscount x = sweepPasscount (disp ?d)" for x y
    using that assms(2) by (auto simp: nodes_ok_def f split: if_splits)
  ultimately show "nodes_ok fl ?d" unfolding nodes_ok_def by blast
  show "reqsSupported (disp ?d) = reqsSupported (disp d)" by (simp add: f)
qed

lemma sweep_end_ok:
  assumes "requests_ok fl d" "\<forall>r req. reqs d r = Some req \<longrightarrow> req_sweepPasscount req \<noteq> sweepPasscount (disp d) + 1"
    "\<forall>nd\<in>ran nodes'. asyncReqsOutstanding nd \<le> asyncReqsSupported nd"
  defines "d' \<equiv> (sm_dispatch_bump_passcount d)\<lparr>nodes := nodes'\<rparr>"
  shows "requests_ok fl d'" "nodes_ok fl d'" "reqsSupported (disp d') = reqsSupported (disp d)"
proof -
  show "requests_ok fl d'" using assms(1) by (simp add: requests_ok_def d'_def sm_dispatch_bump_passcount_def)
  have "on_wire fl d' m = {}" for m using assms(2) by (auto simp: on_wire_def d'_def sm_dispatch_bump_passcount_def)
  then show "nodes_ok fl d'" using assms(2,3) by (auto simp: nodes_ok_def d'_def sm_dispatch_bump_passcount_def ran_def)
  show "reqsSupported (disp d') = reqsSupported (disp d)" by (simp add: d'_def sm_dispatch_bump_passcount_def)
qed

lemma found_ok:
  assumes "nodes_ok fl d" "nodes d a = None" "asyncReqsOutstanding nd \<le> asyncReqsSupported nd"
  shows "nodes_ok fl (d\<lparr>nodes := (nodes d)(a \<mapsto> nd)\<rparr>)"
proof -
  have "on_wire fl d a = {}" using nodes_okD[OF assms(1)] assms(2) unfolding on_wire_def by blast
  moreover have "on_wire fl (d\<lparr>nodes := (nodes d)(a \<mapsto> nd)\<rparr>) m = on_wire fl d m" for m by (simp add: on_wire_def)
  ultimately show ?thesis using assms(1,3) by (auto simp: nodes_ok_def)
qed

text \<open>Another user's context changes, and still is another user's.\<close>

lemma other_service:
  assumes "service_ok (c, d, n)" "i \<in> others c" "pool_ok c'" "only_entry i c c'" "callback (pool c' i) = None"
  shows "service_ok (c', d, n')"
proof -
  have i: "i < poolSize c" "alloced (pool c i)" "callback (pool c i) = None" using assms(2) by (auto simp: others_def)
  have "pool_share c' (reqsSupported (disp d))" by (rule share_step[OF _ assms(3,4) i(1)]) (use assms(1,5) i in simp_all)
  moreover have "flying c' = flying c" using flying_step[OF assms(4) i(1)] assms(5) i by (auto simp: flying_def fun_eq_iff)
  ultimately show ?thesis using assms(1) by simp
qed

lemma other_get_service:
  assumes "service_ok (c, d, n)" "card (others c) + 1 + unat (reqsSupported (disp d)) \<le> poolSize c" "cs_cntxt_get_nolock now (Some m) wt c = (i, c')"
  shows "service_ok (c', d, n)"
proof -
  obtain fr bs where ok: "cntx_ok c fr bs" "zero_free c" using assms(1) by (auto simp: pool_share_def pool_ok_def)
  have p: "pool_ok c'" "same_config c c'" by (rule get_ok[OF ok assms(3)])+
  show ?thesis
  proof (cases fr)
    case Nil
    then have "pool c' = pool c" "poolSize c' = poolSize c" using get_none[of c bs now "Some m" wt] ok(1) assms(3) by auto
    then have "others c' = others c" "flying c' = flying c" by (simp_all add: others_def flying_def fun_eq_iff)
    then show ?thesis using assms(1) p \<open>pool c' = pool c\<close> by (auto simp: pool_share_def same_config_def timeouts_ok_def)
  next
    case (Cons j fr')
    then have ok': "cntx_ok c (j # fr') bs" using ok(1) by simp
    obtain c2 where g: "cs_cntxt_get_nolock now (Some m) wt c = (Some j, c2)" "only_entry j c c2" "j < poolSize c" "clean (pool c2 j)"
      by (rule get_mad[OF ok' ok(2)])
    have c2: "c2 = c'" using g(1) assms(3) by simp
    have "\<not> alloced (pool c j)" using cntx_okD(3)[OF ok', of j] by simp
    then have fj: "callback (pool c j) = None" using ok(2) g(3) by (auto simp: zero_free_def clean_def)
    then have fl: "flying c' = flying c" using flying_step[OF g(2,3)] g(3,4) c2 by (auto simp: flying_def clean_def fun_eq_iff)
    have "others c' \<subseteq> insert j (others c)"
    proof
      fix x
      assume "x \<in> others c'"
      then show "x \<in> insert j (others c)" using only_entry_callback[OF g(2), of x] p(2) c2 by (cases "x = j") (auto simp: others_def same_config_def)
    qed
    then have "card (others c') \<le> card (others c) + 1" using card_mono[of "insert j (others c)" "others c'"] by (auto simp: card_insert_if split: if_splits)
    moreover have "(senderWantsResponse (pool c' x) \<longrightarrow> callback (pool c' x) = None) \<and> (callback (pool c' x) \<noteq> None \<longrightarrow> hashed (pool c' x))"
      if "x < poolSize c" for x
      using that only_entry_callback[OF g(2), of x] assms(1) g(4) c2 by (cases "x = j") (auto simp: pool_share_def clean_def)
    ultimately show ?thesis using assms(1,2) p fl by (auto simp: pool_share_def same_config_def timeouts_ok_def)
  qed
qed

lemma service_step_ok:
  assumes "service_step k mai_send rand x x'" "service_ok x"
  shows "service_ok x'"
  using assms
proof (cases rule: service_step.cases)
  case (new_req d r a p s q d' c n)
  have ok: "requests_ok (flying c) d" "nodes_ok (flying c) d" using assms(2) new_req(1) by simp_all
  show ?thesis using new_req_ok[OF ok new_req(3-5)] assms(2) new_req(1,2) by simp
next
  case (enqueue d r c now tid n s)
  then have "x' = (c, update_disp (\<lambda>s. s\<lparr>queue := queue s @ [r]\<rparr>) d, n)" by (simp add: sm_dispatch_enqueue_def)
  then show ?thesis using requests_enqueue[of "flying c" d r] nodes_enqueue[of "flying c" "\<lambda>s. queue s @ [r]" d] assms(2) enqueue by auto
next
  case (update now tids c d n)
  then show ?thesis using update_service[of c d n k mai_send now tids] assms(2) by auto
next
  case (clear c d n)
  then show ?thesis using clear_ok[of "flying c" d] assms(2) by simp
next
  case (sweep_end d nodes' c n)
  then show ?thesis using sweep_end_ok[of "flying c" d nodes'] assms(2) by simp
next
  case (found d a nd c n)
  then show ?thesis using found_ok[of "flying c" d a nd] assms(2) requests_ok_cong[of "d\<lparr>nodes := (nodes d)(a \<mapsto> nd)\<rparr>" d] by simp
next
  case (response mad c d n)
  then show ?thesis using find_release_service[of c d n k mad] assms(2) by auto
next
  case (send_error now mad c d n)
  then show ?thesis using find_release_error_service[of c d n k mai_send rand now mad] assms(2) by auto
next
  case (age now c d n t)
  then show ?thesis using age_service[of c d n k mai_send rand now] assms(2) by auto
next
  case (other_get c d now m wt i c' n)
  show ?thesis unfolding other_get(2) by (rule other_get_service[OF assms(2)[unfolded other_get(1)] other_get(3,4)])
next
  case (other_wants i c d n)
  let ?c = "update_entry i (\<lambda>e. e\<lparr>senderWantsResponse := True\<rparr>) c"
  have i: "i < poolSize c" "alloced (pool c i)" "callback (pool c i) = None" using other_wants by (auto simp: others_def)
  have "pool_ok c" using assms(2) other_wants(1) by (simp add: pool_share_def)
  then have "pool_ok ?c" "only_entry i c ?c" using update_pool_ok[of c i "\<lambda>e. e\<lparr>senderWantsResponse := True\<rparr>"] i(1,2) by (simp_all add: only_entry_def same_config_def)
  then show ?thesis using other_service[of c d n i ?c n] assms(2) other_wants i(3) by simp
next
  case (other_send i c now d n s)
  obtain c' n' where x': "x' = (c', d, n')" using send_network[of mai_send now i c d n s "fst x'" "snd x'"] other_send(4) by (cases x') auto
  obtain fr bs where ok: "cntx_ok c fr bs" "zero_free c" using assms(2) other_send(1) by (auto simp: pool_share_def pool_ok_def)
  have i: "i < poolSize c" "alloced (pool c i)" "callback (pool c i) = None" using other_send by (auto simp: others_def)
  have s: "cs_cntxt_send_mad_nolock (network_send mai_send) now i (c, d, n) = (s, c', d, n')" using other_send(4) x' by simp
  note S = send_hashed[OF ok(1) other_send(3) s]
  have "pool_ok c'" using send_pool_ok(1)[OF _ i(1,2) s] ok by (auto simp: pool_ok_def)
  then show ?thesis using other_service[OF _ other_send(2) _ S(2), of d n n'] S(3) assms(2) other_send(1) x' i(3) by (simp add: kept_def)
next
  case (other_retire i c d n)
  obtain fr bs where ok: "cntx_ok c fr bs" "zero_free c" using assms(2) other_retire(1) by (auto simp: pool_share_def pool_ok_def)
  have i: "i < poolSize c" "alloced (pool c i)" using other_retire by (auto simp: others_def)
  let ?c = "cs_cntxt_retire_nolock i c"
  have "pool_ok ?c" using retire_ok(1)[OF ok(1) i] retire_zero[OF ok(2,1) i] by (auto simp: pool_ok_def)
  then show ?thesis using other_service[OF _ other_retire(3) _ retire_ok(2)[OF ok(1) i], of d n n] retire_clean[of i c] assms(2) other_retire(1,2) by (simp add: clean_def)
qed

lemma service_steps_ok: "(service_step k mai_send rand)\<^sup>*\<^sup>* x y \<Longrightarrow> service_ok x \<Longrightarrow> service_ok y"
  by (induction rule: rtranclp_induct) (auto intro: service_step_ok)

text \<open>
  The service as the receiving thread and the asynchronous thread start it: a new pool of contexts, at
  least as large as the dispatcher's limit, and no requests.
\<close>

definition service_start :: "u64 \<Rightarrow> u32 \<Rightarrow> nat generic_cntxt \<Rightarrow> dispatch_state \<Rightarrow> nat generic_cntxt \<Rightarrow> dispatch_state \<Rightarrow> bool" where
  "service_start timeout limit c0 d0 c1 d1 \<longleftrightarrow>
     hash_heads c0 = (\<lambda>_. None) \<and> hashTableDepth c0 = CNTXT_HASH_TABLE_DEPTH \<and> unat limit \<le> poolSize c0 \<and> timeouts_ok c0 \<and>
     cs_cntxt_instance_init True VSTATUS_OK VSTATUS_OK timeout c0 = (VSTATUS_OK, Some c1) \<and>
     reqs d0 = Map.empty \<and> nodes d0 = Map.empty \<and> sm_dispatch_init VSTATUS_OK limit d0 = (VSTATUS_OK, d1)"

lemma service_start_free:
  assumes "service_start timeout limit c0 d0 c1 d1" "i < poolSize c1"
  shows "\<not> alloced (pool c1 i)" "\<not> hashed (pool c1 i)"
proof -
  note S = assms(1)[unfolded service_start_def]
  have u: "unused_pool c0" using S by (simp add: unused_pool_def CNTXT_HASH_TABLE_DEPTH_def)
  have init: "cs_cntxt_instance_init True VSTATUS_OK VSTATUS_OK timeout c0 = (VSTATUS_OK, Some c1)" using S by blast
  note I = instance_init_ok[OF u init]
  let ?F = "{i. i < poolSize c1 \<and> \<not> alloced (pool c1 i)}"
  have "card ?F = card {..<poolSize c1}" using pool_ok_counts[OF I(1)] I(2,4) by simp
  then have "?F = {..<poolSize c1}" by (intro card_subset_eq) auto
  then show a: "\<not> alloced (pool c1 i)" using assms(2) by auto
  then show "\<not> hashed (pool c1 i)" using I(1) cntx_okD(5) assms(2) by (auto simp: pool_ok_def)
qed

lemma service_start_ok:
  assumes "service_start timeout limit c0 d0 c1 d1"
  shows "service_ok (c1, d1, n)"
proof -
  note S = assms[unfolded service_start_def]
  have u: "unused_pool c0" using S by (simp add: unused_pool_def CNTXT_HASH_TABLE_DEPTH_def)
  have init: "cs_cntxt_instance_init True VSTATUS_OK VSTATUS_OK timeout c0 = (VSTATUS_OK, Some c1)" using S by blast
  note I = instance_init_ok[OF u init]
  note free = service_start_free(1)[OF assms]
  have fl: "flying c1 = Map.empty" and o: "others c1 = {}" and w: "i < poolSize c1 \<Longrightarrow> callback (pool c1 i) = None" for i
    using I(1) free by (auto simp: flying_def others_def pool_ok_def zero_free_def clean_def fun_eq_iff)
  have t: "timeouts_ok c1" using I(5) S by (simp add: timeouts_ok_def)
  have d: "disp d1 = empty_dispatch\<lparr>reqsSupported := limit, initialized := True\<rparr>" "reqs d1 = Map.empty" "nodes d1 = Map.empty"
    using S by (auto simp: sm_dispatch_init_def sm_dispatch_destroy_def Let_def split: if_splits)
  have "pool_share c1 limit" using I(1-3) S t o w by (auto simp: pool_share_def CNTXT_HASH_TABLE_DEPTH_def)
  then show ?thesis by (simp add: d fl requests_ok_def nodes_ok_def empty_dispatch_def)
qed

lemma service_reachable:
  assumes "service_start timeout limit c0 d0 c1 d1" "(service_step k mai_send rand)\<^sup>*\<^sup>* (c1, d1, n1) x"
  shows "service_ok x"
  by (rule service_steps_ok[OF assms(2) service_start_ok[OF assms(1)]])

section \<open>Properties\<close>

text \<open>
  C9. No interleaving of the threads makes the service fault, as long as the other users of the pool leave the
  dispatcher its share: serving the queue, the release of a context by a response or an error, and
  ageing all end, never touch a freed request or node, never run the callback without a context, never find
  a callback on a context whose sender waits, and never divide by zero.
\<close>

theorem service_never_faults:
  assumes "service_start timeout limit c0 d0 c1 d1" and "(service_step k mai_send rand)\<^sup>*\<^sup>* (c1, d1, n1) x"
  shows "(\<exists>y. sm_dispatch_update k mai_send now tids x = Inr y) \<and>
    (\<exists>y. cs_cntxt_find_release VSTATUS_OK (dispatch_callback k) mad x = Some (Inr y)) \<and>
    (\<exists>y. cs_cntxt_find_release_error VSTATUS_OK (dispatch_callback k) (network_send mai_send) (lift_network rand) now mad x = Some (Inr y)) \<and>
    (\<exists>y. cs_cntxt_age VSTATUS_OK (dispatch_callback k) (network_send mai_send) (lift_network rand) now x = Some (Inr y))"
proof -
  obtain c d n where x: "x = (c, d, n)" by (rule prod_cases3)
  have "service_ok (c, d, n)" using service_reachable[OF assms(1,2)] x by simp
  then show ?thesis unfolding x
    using update_service[of c d n k mai_send now tids] find_release_service[of c d n k mad] find_release_error_service[of c d n k mai_send rand now mad]
      age_service[of c d n k mai_send rand now] by blast
qed

text \<open>
  C10. The counters throttle: the number of requests the dispatcher takes to be outstanding is the number of
  contexts that carry one, at most the limit it was started with, and no node has more requests of the
  current sweep on the wire than it can take. No request is lost from the books: one that is queued or carried
  is still allocated, and none is both, or carried twice.
\<close>

theorem dispatcher_throttles:
  assumes "service_start timeout limit c0 d0 c1 d1" and "(service_step k mai_send rand)\<^sup>*\<^sup>* (c1, d1, n1) (c, d, n)"
  shows "unat (reqsOutstanding (disp d)) = card (dom (flying c)) \<and> reqsOutstanding (disp d) \<le> reqsSupported (disp d) \<and>
    (\<forall>a nd. nodes d a = Some nd \<longrightarrow> card (on_wire (flying c) d a) \<le> unat (asyncReqsSupported nd)) \<and>
    ran (flying c) \<union> set (queue (disp d)) \<subseteq> dom (reqs d) \<and> ran (flying c) \<inter> set (queue (disp d)) = {} \<and> inj_on (flying c) (dom (flying c))"
proof -
  have ok: "service_ok (c, d, n)" by (rule service_reachable[OF assms])
  have "card (on_wire (flying c) d a) \<le> unat (asyncReqsSupported nd)" if "nodes d a = Some nd" for a nd
  proof -
    have "card (on_wire (flying c) d a) \<le> unat (asyncReqsOutstanding nd)" "asyncReqsOutstanding nd \<le> asyncReqsSupported nd"
      using ok that by (auto simp: nodes_ok_def)
    then show ?thesis by (simp add: word_le_nat_alt)
  qed
  then show ?thesis using ok by (auto simp: requests_ok_def)
qed

text \<open>
  C13. Serving the queue is work conserving: when it returns, either as many requests are outstanding as are
  supported, or every request left in the queue is of the current sweep and waits for a node that has all
  the requests it can take.
\<close>

theorem update_work_conserving:
  assumes "service_start timeout limit c0 d0 c1 d1" and "(service_step k mai_send rand)\<^sup>*\<^sup>* (c1, d1, n1) x"
    and "sm_dispatch_update k mai_send now tids x = Inr (c', d', n')"
  shows "reqsOutstanding (disp d') = reqsSupported (disp d') \<or>
    (\<forall>r\<in>set (queue (disp d')). \<exists>req nd. reqs d' r = Some req \<and> req_sweepPasscount req = sweepPasscount (disp d') \<and>
       nodes d' (req_nodep req) = Some nd \<and> asyncReqsSupported nd \<le> asyncReqsOutstanding nd)"
proof -
  obtain c d n where x: "x = (c, d, n)" by (rule prod_cases3)
  have "service_ok (c, d, n)" using service_reachable[OF assms(1,2)] x by simp
  then have "reqsOutstanding (disp d') = reqsSupported (disp d') \<or> (\<forall>r\<in>set (queue (disp d')). not_due d' r)"
    using update_service[of c d n k mai_send now tids] assms(3) x by auto
  moreover have "\<exists>req nd. reqs d' r = Some req \<and> req_sweepPasscount req = sweepPasscount (disp d') \<and>
       nodes d' (req_nodep req) = Some nd \<and> asyncReqsSupported nd \<le> asyncReqsOutstanding nd" if "not_due d' r" for r
    using that by (auto simp: not_due_def request_due_def not_less split: if_splits option.splits)
  ultimately show ?thesis by blast
qed

text \<open>
  C15. When the pool has no context left, a queued request of an earlier sweep makes the dispatcher read through the
  null pointer: the callback is then called without a context, and its message about a stale response reads
  the context.
\<close>

theorem stale_request_faults:
  assumes "free_list c = None" and "queue (disp d) = r # rs" and "reqs d r = Some req" and "req_sweepPasscount req \<noteq> sweepPasscount (disp d)"
    and "reqsOutstanding (disp d) < reqsSupported (disp d)"
  shows "sm_dispatch_update k mai_send now tids (c, d, n) = Inl NullDeref"
proof -
  let ?d = "address_request (sendParams req) (take_request r req d)"
  have f: "reqs (take_request r req d) = reqs d" "sweepPasscount (disp (take_request r req d)) = sweepPasscount (disp d)" by (simp_all add: take_request_def Let_def)
  have "cs_cntxt_get_nolock now m False c = (None, c)" for m using assms(1) by (simp add: cs_cntxt_get_nolock_def)
  then have "sm_dispatch_send k mai_send now (tids r) r (c, take_request r req d, n) = Inl NullDeref"
    using assms(3,4) f by (simp add: sm_dispatch_send_def sm_send_request_async_def sm_dispatch_cntxt_callback_def)
  moreover have "request_due req d = Inr True" using assms(4) by (simp add: request_due_def)
  ultimately show ?thesis using assms by (simp add: sm_dispatch_update_def not_le)
qed

section \<open>Waiting\<close>

lemma wait_returns:
  assumes "sorted_wrt (\<ge>) (v # map fst rounds)" "7 * v < length (filter (\<lambda>r. fst r \<noteq> 0) rounds) + unat s" "1 \<le> unat s" "unat s \<le> 7" "1 \<le> v"
  shows "wait_rounds s v rounds \<noteq> None"
  using assms
proof (induction rounds arbitrary: v s)
  case (Cons x rounds)
  obtain len out ev where x: "x = (len, out, ev)" by (rule prod_cases3)
  have tail: "sorted_wrt (\<ge>) (v # map fst rounds)" "sorted_wrt (\<ge>) (len # map fst rounds)" "len \<le> v" using Cons.prems(1) x by auto
  consider "len = 0" | "len = v" "unat s = 7" | "len = v" "unat s < 7" "len \<noteq> 0" | "0 < len" "len < v" using tail(3) Cons.prems(4)
    by (cases "len = 0"; cases "len = v"; cases "unat s = 7") auto
  then show ?case
  proof cases
    case 1
    then show ?thesis using Cons.IH[OF tail(1) _ Cons.prems(3-5)] Cons.prems(2) x by (simp add: Let_def)
  next
    case 2
    then show ?thesis using x Cons.prems(5) by (simp add: SM_DISPATCH_STALL_THRESHOLD_def)
  next
    case 3
    have "unat (s + 1) = unat s + 1" using 3(2) by (simp add: unat_word_ariths)
    then have "wait_rounds (s + 1) v rounds \<noteq> None" using Cons.IH[OF tail(1), of "s + 1"] Cons.prems(2-5) 3 x by simp
    then show ?thesis using 3 x by (simp add: Let_def SM_DISPATCH_STALL_THRESHOLD_def)
  next
    case 4
    have "7 * len < length (filter (\<lambda>r. fst r \<noteq> 0) rounds) + 1" using Cons.prems(2,4) 4 x by simp
    then have "wait_rounds 1 len rounds \<noteq> None" using Cons.IH[OF tail(2), of 1] 4(1) by simp
    then show ?thesis using 4 x by (simp add: Let_def)
  qed
qed simp



section \<open>An example\<close>

definition demo_dispatch :: dispatch_state where
  "demo_dispatch = \<lparr>disp = empty_dispatch\<lparr>reqsSupported := 1, initialized := True\<rparr>, nodes = Map.empty, reqs = Map.empty, topology_slid = 0, topology_dlid = 0, resweeps = [], evtEmpty = 0\<rparr>"

definition demo_params :: sm_dispatch_send_params where
  "demo_params = \<lparr>sp_aid = 0x19, sp_amod = 0, sp_path = None, sp_slid = 1, sp_dlid = 2\<rparr>"

text \<open>A node that takes one request, and two requests for it in the queue.\<close>

definition demo_queued :: dispatch_state where
  "demo_queued = (let req = \<lparr>sendParams = demo_params, req_nodep = 0, req_sweepPasscount = 0\<rparr> in
     demo_dispatch\<lparr>disp := (disp demo_dispatch)\<lparr>queue := [0, 1]\<rparr>, nodes := [0 \<mapsto> \<lparr>asyncReqsSupported = 1, asyncReqsOutstanding = 0\<rparr>],
       reqs := [0 \<mapsto> req, 1 \<mapsto> req]\<rparr>)"

abbreviation demo_send :: "Mad_t \<Rightarrow> u64 \<Rightarrow> unit \<Rightarrow> Status_t \<times> unit" where
  "demo_send m t n \<equiv> (VSTATUS_OK, n)"

abbreviation demo_rand :: "unit \<Rightarrow> u64 \<times> unit" where
  "demo_rand n \<equiv> (0, n)"

lemma demo_start: "service_start 100 1 demo_unused (demo_dispatch\<lparr>disp := empty_dispatch\<rparr>) demo_pool demo_dispatch"
  by (simp add: service_start_def demo_unused_def demo_pool_def demo_dispatch_def timeouts_ok_def cs_cntxt_instance_init_def sm_dispatch_init_def
      empty_dispatch_def CNTXT_HASH_TABLE_DEPTH_def Let_def)

lemma demo_steps: "(service_step True demo_send demo_rand)\<^sup>*\<^sup>* (demo_pool, demo_dispatch, ()) (demo_pool, demo_queued, ())"
proof -
  let ?step = "service_step True demo_send demo_rand" and ?req = "\<lparr>sendParams = demo_params, req_nodep = 0, req_sweepPasscount = 0\<rparr>"
  let ?d1 = "demo_dispatch\<lparr>nodes := [0 \<mapsto> \<lparr>asyncReqsSupported = 1, asyncReqsOutstanding = 0\<rparr>]\<rparr>"
  let ?d2 = "?d1\<lparr>reqs := [0 \<mapsto> ?req]\<rparr>" and ?d3 = "?d1\<lparr>reqs := [0 \<mapsto> ?req, 1 \<mapsto> ?req]\<rparr>"
  let ?d4 = "?d3\<lparr>disp := (disp demo_dispatch)\<lparr>queue := [0]\<rparr>\<rparr>"
  have fl: "flying demo_pool = Map.empty"
  proof -
    have "service_ok (demo_pool, demo_dispatch, ())" by (rule service_start_ok[OF demo_start])
    then have "finite (dom (flying demo_pool))" "card (dom (flying demo_pool)) = 0" by (simp_all add: requests_ok_def demo_dispatch_def empty_dispatch_def)
    then show ?thesis by simp
  qed
  have "?step (demo_pool, demo_dispatch, ()) (demo_pool, ?d1, ())"
    using service_step.found[of demo_dispatch 0 "\<lparr>asyncReqsSupported = 1, asyncReqsOutstanding = 0\<rparr>"] by (simp add: demo_dispatch_def)
  moreover have "?step (demo_pool, ?d1, ()) (demo_pool, ?d2, ())"
    by (rule service_step.new_req[where r = 0 and a = 0 and p = demo_params]) (simp_all add: sm_dispatch_new_req_def demo_dispatch_def empty_dispatch_def)
  moreover have "?step (demo_pool, ?d2, ()) (demo_pool, ?d3, ())"
    by (rule service_step.new_req[where r = 1 and a = 0 and p = demo_params]) (simp_all add: sm_dispatch_new_req_def demo_dispatch_def empty_dispatch_def)
  moreover have "?step (demo_pool, ?d3, ()) (demo_pool, ?d4, ())"
    by (rule service_step.enqueue[where r = 0]) (simp_all add: sm_dispatch_enqueue_def demo_dispatch_def empty_dispatch_def fl)
  moreover have "?step (demo_pool, ?d4, ()) (demo_pool, demo_queued, ())"
    by (rule service_step.enqueue[where r = 1]) (simp_all add: sm_dispatch_enqueue_def demo_dispatch_def demo_queued_def empty_dispatch_def Let_def fl)
  ultimately show ?thesis by (meson rtranclp.rtrancl_refl rtranclp.rtrancl_into_rtrancl)
qed

lemma demo_update:
  obtains c d i where "sm_dispatch_update True demo_send 5 (\<lambda>_. 9) (demo_pool, demo_queued, ()) = Inr (c, d, ())" "reqsOutstanding (disp d) = 1" "queue (disp d) = [1]"
    "only_entry i demo_pool c" "tstamp (pool c i) = 5" "RespTimeout (pool c i) = defaultTimeout demo_pool"
proof -
  let ?req = "\<lparr>sendParams = demo_params, req_nodep = 0, req_sweepPasscount = 0\<rparr>"
  note D = demo_queued_def demo_dispatch_def empty_dispatch_def Let_def
  have ok: "service_ok (demo_pool, demo_queued, ())" by (rule service_reachable[OF demo_start demo_steps])
  have q: "reqsOutstanding (disp demo_queued) < reqsSupported (disp demo_queued)" "0 \<in> set (queue (disp demo_queued))" "reqs demo_queued 0 = Some ?req"
    "request_due ?req demo_queued = Inr True" by (simp_all add: D request_due_def)
  obtain s c d n i where S: "sm_dispatch_send True demo_send 5 9 0 (demo_pool, take_request 0 ?req demo_queued, ()) = Inr (s, c, d, n)"
      "disp d = disp (take_request 0 ?req demo_queued)"
      "only_entry i demo_pool c" "tstamp (pool c i) = 5" "RespTimeout (pool c i) = defaultTimeout demo_pool"
    by (rule dispatch_send_service[OF ok q])
  have d: "reqsOutstanding (disp d) = 1" "reqsSupported (disp d) = 1" "queue (disp d) = [1]" by (simp_all add: S(2) take_request_def D)
  have "queue (disp demo_queued) = [0, 1]" by (simp add: D)
  then have "sm_dispatch_update True demo_send 5 (\<lambda>_. 9) (demo_pool, demo_queued, ()) = Inr (c, d, ())"
    using q S(1) d by (simp add: sm_dispatch_update_def not_le)
  then show thesis using that d S(3-5) by blast
qed

theorem service_never_faults_witness:
  "\<exists>y. sm_dispatch_update True demo_send 5 (\<lambda>_. 9) (demo_pool, demo_queued, ()) = Inr y"
  using service_never_faults[OF demo_start demo_steps] by blast

theorem update_work_conserving_witness:
  "\<exists>c d. sm_dispatch_update True demo_send 5 (\<lambda>_. 9) (demo_pool, demo_queued, ()) = Inr (c, d, ()) \<and> queue (disp d) = [1] \<and>
    (reqsOutstanding (disp d) = reqsSupported (disp d) \<or>
     (\<exists>req nd. reqs d 1 = Some req \<and> nodes d (req_nodep req) = Some nd \<and> asyncReqsSupported nd \<le> asyncReqsOutstanding nd))"
proof -
  obtain c d where u: "sm_dispatch_update True demo_send 5 (\<lambda>_. 9) (demo_pool, demo_queued, ()) = Inr (c, d, ())" "queue (disp d) = [1]"
    by (rule demo_update)
  show ?thesis using update_work_conserving[OF demo_start demo_steps u(1)] u by auto
qed

theorem dispatcher_throttles_witness:
  "\<exists>c d. (service_step True demo_send demo_rand)\<^sup>*\<^sup>* (demo_pool, demo_dispatch, ()) (c, d, ()) \<and> reqsOutstanding (disp d) = 1 \<and> card (dom (flying c)) = 1"
proof -
  obtain c d where u: "sm_dispatch_update True demo_send 5 (\<lambda>_. 9) (demo_pool, demo_queued, ()) = Inr (c, d, ())" "reqsOutstanding (disp d) = 1"
    by (rule demo_update)
  have r: "(service_step True demo_send demo_rand)\<^sup>*\<^sup>* (demo_pool, demo_dispatch, ()) (c, d, ())"
    by (rule rtranclp.rtrancl_into_rtrancl[OF demo_steps service_step.update[OF u(1)]])
  show ?thesis using dispatcher_throttles[OF demo_start r] r u(2) by auto
qed

theorem stale_request_faults_witness:
  "sm_dispatch_update True demo_send 5 (\<lambda>_. 9) (demo_unused, sm_dispatch_bump_passcount demo_queued, ()) = Inl NullDeref"
  by (rule stale_request_faults[where r = 0 and rs = "[1]" and req = "\<lparr>sendParams = demo_params, req_nodep = 0, req_sweepPasscount = 0\<rparr>"]) (simp_all add: demo_unused_def demo_queued_def demo_dispatch_def empty_dispatch_def sm_dispatch_bump_passcount_def Let_def)

lemma age_run_service:
  assumes "service_ok x"
  shows "\<exists>y. age_run (dispatch_callback k) (network_send mai_send) (lift_network rand) ts x = Some (Inr y) \<and> service_ok y \<and> same_config (fst x) (fst y)"
  using assms
proof (induction ts arbitrary: x)
  case (Cons t ts)
  obtain c d n where x: "x = (c, d, n)" by (rule prod_cases3)
  obtain s y where "cs_cntxt_age VSTATUS_OK (dispatch_callback k) (network_send mai_send) (lift_network rand) t x = Some (Inr (s, y))" "service_ok y" "same_config (fst x) (fst y)"
    using age_service[of c d n k mai_send rand t] Cons.prems x by auto
  then show ?case using Cons.IH[of y] same_config_trans by auto
qed simp



end
