(* ===== verification/CsBitset.thy ===== *)
theory CsBitset
  imports FM_Prelude
begin

text \<open>
  The growable bit set of \<^verbatim>\<open>Esm/ib/src/cs/cs_bitset.c\<close>, which the subnet manager uses for
  switch indices, active ports, service levels and virtual lanes. The C structure is the
  record \<open>bitset_t\<close>; the word array is a list of 32-bit words, or \<open>None\<close> for a null
  pointer. Allocation is the argument \<open>alloc\<close>, which says of a byte count whether
  \<open>vs_pool_alloc\<close> succeeds; reads past the array are \<open>Inl OutOfBounds\<close>. Word and bit
  indices are natural numbers: the record invariant bounds \<open>nbits_m\<close> by \<open>2\<^sup>3\<^sup>1\<close>, so that
  the \<open>unsigned\<close> loop variables of the code do not wrap.
\<close>

section \<open>The data structure\<close>

record bitset_t =
  nwords_m :: nat
  nbits_m :: nat
  bits_m :: "u32 list option"
  nset_m :: nat
  pool_m :: "nat option"

definition bitset_zero :: bitset_t where
  "bitset_zero = \<lparr>nwords_m = 0, nbits_m = 0, bits_m = None, nset_m = 0, pool_m = None\<rparr>"

definition bitset_nset :: "bitset_t \<Rightarrow> nat" where
  "bitset_nset b = nset_m b"

definition bitset_nbits :: "bitset_t \<Rightarrow> nat" where
  "bitset_nbits b = nbits_m b"

definition words_for :: "nat \<Rightarrow> nat" where
  "words_for nbits = (if nbits mod 32 \<noteq> 0 then nbits div 32 + 1 else nbits div 32)"

definition bitset_init :: "(nat \<Rightarrow> bool) \<Rightarrow> nat option \<Rightarrow> nat \<Rightarrow> bool \<times> bitset_t" where
  "bitset_init alloc pool nbits =
     (if alloc (4 * words_for nbits)
      then (True, \<lparr>nwords_m = words_for nbits, nbits_m = nbits,
                   bits_m = Some (replicate (words_for nbits) 0), nset_m = 0, pool_m = pool\<rparr>)
      else (False, bitset_zero))"

text \<open>
  \<open>count_nset\<close>: the outer loop runs to \<open>nwords_m\<close> \<^emph>\<open>inclusively\<close>; the inner loop returns
  from the function as soon as \<open>nbits_m\<close> bits have been counted.
\<close>

fun count_inner :: "u32 \<Rightarrow> nat \<Rightarrow> nat list \<Rightarrow> nat \<Rightarrow> nat \<Rightarrow> nat + (nat \<times> nat)" where
  "count_inner w nbits [] counted nset = Inr (counted, nset)"
| "count_inner w nbits (j # js) counted nset =
     (if nbits \<le> counted then Inl nset
      else count_inner w nbits js (Suc counted)
             (if w AND word_bit j \<noteq> 0 then Suc nset else nset))"

fun count_outer :: "u32 list \<Rightarrow> nat \<Rightarrow> nat list \<Rightarrow> nat \<Rightarrow> nat \<Rightarrow> nat c_result" where
  "count_outer bits nbits [] counted nset = Inr nset"
| "count_outer bits nbits (i # is) counted nset =
     (if i < length bits
      then (case count_inner (bits ! i) nbits [0..<32] counted nset of
              Inl r \<Rightarrow> Inr r
            | Inr (counted', nset') \<Rightarrow> count_outer bits nbits is counted' nset')
      else Inl OutOfBounds)"

definition count_nset :: "bitset_t \<Rightarrow> nat c_result" where
  "count_nset b = (case bits_m b of None \<Rightarrow> Inr 0
     | Some bits \<Rightarrow> count_outer bits (nbits_m b) [0..<nwords_m b + 1] 0 0)"

text \<open>
  \<open>bitset_resize\<close>: on failure the four saved fields are restored, but not \<open>pool_m\<close>, which
  \<open>bitset_init\<close> has cleared.
\<close>

definition bitset_resize :: "(nat \<Rightarrow> bool) \<Rightarrow> bitset_t \<Rightarrow> nat \<Rightarrow> (bool \<times> bitset_t) c_result" where
  "bitset_resize alloc b n =
     (if n = nbits_m b then Inr (True, b)
      else case bitset_init alloc (pool_m b) n of
          (False, b') \<Rightarrow> Inr (False, b'\<lparr>nbits_m := nbits_m b, nset_m := nset_m b,
                                nwords_m := nwords_m b, bits_m := bits_m b\<rparr>)
        | (True, b') \<Rightarrow>
           (case bits_m b of
              None \<Rightarrow> Inr (True, b')
            | Some orig \<Rightarrow>
                if nbits_m b < n
                then Inr (True, b'\<lparr>bits_m := Some (take (nwords_m b) orig
                                     @ replicate (nwords_m b' - nwords_m b) 0),
                                   nset_m := nset_m b\<rparr>)
                else let b'' = b'\<lparr>bits_m := Some (take (nwords_m b') orig)\<rparr>
                     in (case count_nset b'' of
                           Inl e \<Rightarrow> Inl e
                         | Inr c \<Rightarrow> Inr (True, b''\<lparr>nset_m := c\<rparr>))))"

definition bitset_free :: "bitset_t \<Rightarrow> bitset_t" where
  "bitset_free b = bitset_zero"

definition bitset_clear_all :: "bitset_t \<Rightarrow> bitset_t" where
  "bitset_clear_all b =
     (case bits_m b of None \<Rightarrow> b
      | Some bits \<Rightarrow> b\<lparr>bits_m := Some (replicate (nwords_m b) 0)\<rparr>)\<lparr>nset_m := 0\<rparr>"

definition bitset_set_all :: "bitset_t \<Rightarrow> bitset_t" where
  "bitset_set_all b =
     (case bits_m b of None \<Rightarrow> b
      | Some bits \<Rightarrow> b\<lparr>bits_m := Some (replicate (nwords_m b) (- 1)), nset_m := nbits_m b\<rparr>)"

definition bitset_copy :: "(nat \<Rightarrow> bool) \<Rightarrow> bitset_t \<Rightarrow> bitset_t \<Rightarrow> bitset_t c_result" where
  "bitset_copy alloc b1 b2 =
     (case (bits_m b1, bits_m b2) of
        (Some _, Some bits2) \<Rightarrow>
          (case (if nbits_m b1 \<noteq> nbits_m b2 then bitset_resize alloc b1 (nbits_m b2)
                 else Inr (True, b1)) of
             Inl e \<Rightarrow> Inl e
           | Inr (_, b) \<Rightarrow>
               if nbits_m b \<noteq> nbits_m b2 then Inr b
               else Inr (b\<lparr>bits_m := Some (take (nwords_m b) bits2), nset_m := nset_m b2\<rparr>))
      | _ \<Rightarrow> Inr b1)"

text \<open>
  \<open>bitset_set\<close>, \<open>bitset_clear\<close> and \<open>bitset_test\<close> return 1 when the bit is in range; the C
  result is the boolean component.
\<close>

definition bitset_clear :: "bitset_t \<Rightarrow> nat \<Rightarrow> bool \<times> bitset_t" where
  "bitset_clear b i =
     (case bits_m b of None \<Rightarrow> (False, b)
      | Some bits \<Rightarrow>
          if i < nbits_m b
          then (True, if bits ! (i div 32) AND word_bit (i mod 32) \<noteq> 0
                      then b\<lparr>bits_m := Some (bits[i div 32 := bits ! (i div 32) XOR word_bit (i mod 32)]),
                             nset_m := size_dec (nset_m b)\<rparr>
                      else b)
          else (False, b))"

definition bitset_set :: "bitset_t \<Rightarrow> nat \<Rightarrow> bool \<times> bitset_t" where
  "bitset_set b i =
     (case bits_m b of None \<Rightarrow> (False, b)
      | Some bits \<Rightarrow>
          if i < nbits_m b
          then (True, if bits ! (i div 32) AND word_bit (i mod 32) = 0
                      then b\<lparr>bits_m := Some (bits[i div 32 := bits ! (i div 32) OR word_bit (i mod 32)]),
                             nset_m := size_inc (nset_m b)\<rparr>
                      else b)
          else (False, b))"

definition bitset_test :: "bitset_t \<Rightarrow> nat \<Rightarrow> bool" where
  "bitset_test b i =
     (case bits_m b of None \<Rightarrow> False
      | Some bits \<Rightarrow> i < nbits_m b \<and> bits ! (i div 32) AND word_bit (i mod 32) \<noteq> 0)"

definition bitset_equal :: "bitset_t \<Rightarrow> bitset_t \<Rightarrow> bool" where
  "bitset_equal a b =
     (case (bits_m a, bits_m b) of
        (Some x, Some y) \<Rightarrow>
          nbits_m a = nbits_m b \<and> nset_m a = nset_m b \<and> nwords_m a = nwords_m b \<and>
          list_all (\<lambda>w. x ! w = y ! w) [0..<nwords_m a]
      | _ \<Rightarrow> False)"

text \<open>
  The two upward searches share one loop: \<open>skip\<close> is the whole-word test that avoids the
  inner loop (\<open>== 0\<close>, \<open>== 0xffffffff\<close>), \<open>hit\<close> the test of one bit. After the first word
  the inner loop starts at bit 0.
\<close>

function find_next_loop ::
  "(u32 \<Rightarrow> bool) \<Rightarrow> (u32 \<Rightarrow> nat \<Rightarrow> bool) \<Rightarrow> u32 list \<Rightarrow> nat \<Rightarrow> nat \<Rightarrow> nat \<Rightarrow> nat option" where
  "find_next_loop skip hit bits nwords i_word i_bit =
     (if i_word < nwords
      then (case (if \<not> skip (bits ! i_word)
                  then List.find (hit (bits ! i_word)) [i_bit..<32] else None) of
              Some j \<Rightarrow> Some (i_word * 32 + j)
            | None \<Rightarrow> find_next_loop skip hit bits nwords (Suc i_word) 0)
      else None)"
  by pat_completeness auto
termination
  by (relation "measure (\<lambda>(skip, hit, bits, nwords, i_word, i_bit). nwords - i_word)") auto

declare find_next_loop.simps [simp del]

definition find_result :: "nat option \<Rightarrow> int" where
  "find_result r = (case r of None \<Rightarrow> -1 | Some n \<Rightarrow> int_of_u32 n)"

definition bitset_find_next_one :: "bitset_t \<Rightarrow> nat \<Rightarrow> int" where
  "bitset_find_next_one b i =
     (case bits_m b of None \<Rightarrow> -1
      | Some bits \<Rightarrow>
          if i < nbits_m b
          then find_result (find_next_loop (\<lambda>w. w = 0) (\<lambda>w j. w AND word_bit j \<noteq> 0)
                              bits (nwords_m b) (i div 32) (i mod 32))
          else -1)"

definition bitset_find_first_one :: "bitset_t \<Rightarrow> int" where
  "bitset_find_first_one b = bitset_find_next_one b 0"

definition bitset_find_next_zero :: "bitset_t \<Rightarrow> nat \<Rightarrow> int" where
  "bitset_find_next_zero b i =
     (case bits_m b of None \<Rightarrow> -1
      | Some bits \<Rightarrow>
          if i < nbits_m b
          then find_result (find_next_loop (\<lambda>w. w = 0xffffffff) (\<lambda>w j. w AND word_bit j = 0)
                              bits (nwords_m b) (i div 32) (i mod 32))
          else -1)"

definition bitset_find_first_zero :: "bitset_t \<Rightarrow> int" where
  "bitset_find_first_zero b = bitset_find_next_zero b 0"

text \<open>The downward searches run over words \<open>n - 1, \<dots>, 0\<close> and bits \<open>31, \<dots>, 0\<close>.\<close>

fun find_last_one_loop :: "u32 list \<Rightarrow> nat \<Rightarrow> nat option" where
  "find_last_one_loop bits 0 = None"
| "find_last_one_loop bits (Suc i_word) =
     (if bits ! i_word = 0 then find_last_one_loop bits i_word
      else case List.find (\<lambda>j. bits ! i_word AND word_bit j \<noteq> 0) (rev [0..<32]) of
             Some j \<Rightarrow> Some (i_word * 32 + j)
           | None \<Rightarrow> find_last_one_loop bits i_word)"

fun find_last_zero_loop :: "u32 list \<Rightarrow> nat \<Rightarrow> nat option" where
  "find_last_zero_loop bits 0 = None"
| "find_last_zero_loop bits (Suc i_word) =
     (if bits ! i_word = 0 then Some (i_word * 32 + 31)
      else case List.find (\<lambda>j. bits ! i_word AND word_bit j = 0) (rev [0..<32]) of
             Some j \<Rightarrow> Some (i_word * 32 + j)
           | None \<Rightarrow> find_last_zero_loop bits i_word)"

definition bitset_find_last_one :: "bitset_t \<Rightarrow> int" where
  "bitset_find_last_one b =
     (case bits_m b of None \<Rightarrow> -1
      | Some bits \<Rightarrow> find_result (find_last_one_loop bits (nwords_m b)))"

definition bitset_find_last_zero :: "bitset_t \<Rightarrow> int" where
  "bitset_find_last_zero b =
     (case bits_m b of None \<Rightarrow> -1
      | Some bits \<Rightarrow> find_result (find_last_zero_loop bits (nwords_m b)))"

text \<open>\<open>bitset_test_intersection\<close> dereferences both arrays without a null test.\<close>

definition bitset_test_intersection :: "bitset_t \<Rightarrow> bitset_t \<Rightarrow> bool c_result" where
  "bitset_test_intersection a b =
     (if nwords_m a \<noteq> nwords_m b then Inr False
      else if nwords_m a = 0 then Inr False
      else case (bits_m a, bits_m b) of
             (Some x, Some y) \<Rightarrow> Inr (list_ex (\<lambda>i. x ! i AND y ! i \<noteq> 0) [0..<nwords_m a])
           | _ \<Rightarrow> Inl NullDeref)"

section \<open>Abstraction and invariant\<close>

definition bit_at :: "u32 list \<Rightarrow> nat \<Rightarrow> bool" where
  "bit_at bits i = bit (bits ! (i div 32)) (i mod 32)"

text \<open>
  A bit set stands for the set of indices below \<open>nbits_m\<close> whose bit is one. The invariant
  ties the word count and the cached population count \<open>nset_m\<close> to the array;
  \<open>tail_clean\<close> says in addition that the bits of the last word from \<open>nbits_m\<close> on are zero.
\<close>

definition bitset_abs :: "bitset_t \<Rightarrow> nat set" where
  "bitset_abs b = {i. i < nbits_m b \<and> (case bits_m b of None \<Rightarrow> False | Some bits \<Rightarrow> bit_at bits i)}"

definition bitset_wf :: "bitset_t \<Rightarrow> bool" where
  "bitset_wf b = (nbits_m b < 2 ^ 31 \<and> nwords_m b = words_for (nbits_m b) \<and>
     (case bits_m b of
        None \<Rightarrow> nbits_m b = 0 \<and> nset_m b = 0
      | Some bits \<Rightarrow> length bits = nwords_m b \<and>
          nset_m b = length (filter (bit_at bits) [0..<nbits_m b])))"

definition tail_clean :: "bitset_t \<Rightarrow> bool" where
  "tail_clean b = (case bits_m b of None \<Rightarrow> True
     | Some bits \<Rightarrow> list_all (\<lambda>i. \<not> bit_at bits i) [nbits_m b..<32 * nwords_m b])"

lemmas bitset_bit_simps = and_word_bit and_word_bit_0 bit_at_def [symmetric]

lemma words_for_bound: "i < n \<Longrightarrow> i div 32 < words_for n"
  by (auto simp: words_for_def)

lemma words_for_cover: "n \<le> 32 * words_for n" "32 * words_for n < n + 32"
  by (auto simp: words_for_def) presburger+

lemma words_for_mono: "m \<le> n \<Longrightarrow> words_for m \<le> words_for n"
  using words_for_cover(2)[of m] words_for_cover(1)[of n] by linarith

lemma bitset_wf_Some:
  assumes "bitset_wf b" "bits_m b = Some bits"
  shows "length bits = words_for (nbits_m b)" "nwords_m b = words_for (nbits_m b)"
    "nset_m b = length (filter (bit_at bits) [0..<nbits_m b])" "nbits_m b < 2 ^ 31"
  using assms by (auto simp: bitset_wf_def)

lemma bit_at_update:
  assumes "i div 32 < length bits"
  shows "bit_at (bits[i div 32 := w]) k =
     (if k div 32 = i div 32 then bit w (k mod 32) else bit_at bits k)"
  using assms by (simp add: bit_at_def nth_list_update)

lemma div_mod_32_eq: "(k::nat) div 32 = i div 32 \<Longrightarrow> k mod 32 = i mod 32 \<longleftrightarrow> k = i"
  by (metis div_mult_mod_eq)

lemma bit_at_set:
  assumes "i div 32 < length bits"
  shows "bit_at (bits[i div 32 := bits ! (i div 32) OR word_bit (i mod 32)]) k \<longleftrightarrow> bit_at bits k \<or> k = i"
  using assms by (auto simp: bit_at_update bit_or_word_bit div_mod_32_eq) (auto simp: bit_at_def)

lemma bit_at_clear:
  assumes "i div 32 < length bits" "bit_at bits i"
  shows "bit_at (bits[i div 32 := bits ! (i div 32) XOR word_bit (i mod 32)]) k \<longleftrightarrow> bit_at bits k \<and> k \<noteq> i"
proof -
  have "bit (bits ! (i div 32)) (i mod 32)" using assms(2) by (simp add: bit_at_def)
  then show ?thesis using assms(1)
    by (auto simp: bit_at_update bit_xor_word_bit div_mod_32_eq) (auto simp: bit_at_def)
qed

lemma bit_at_append: "length xs \<le> i div 32 \<Longrightarrow> bit_at (xs @ replicate m 0) i \<Longrightarrow> i div 32 < length xs + m \<Longrightarrow> False"
  by (simp add: bit_at_def nth_append)

lemma bit_at_append_low: "i div 32 < length xs \<Longrightarrow> bit_at (xs @ ys) i = bit_at xs i"
  by (simp add: bit_at_def nth_append)

lemma bit_at_take: "i div 32 < n \<Longrightarrow> bit_at (take n xs) i = bit_at xs i"
  by (simp add: bit_at_def)

lemma bit_at_replicate: "i div 32 < n \<Longrightarrow> bit_at (replicate n w) i = bit w (i mod 32)"
  by (simp add: bit_at_def)

lemma bit_minus_one_32: "j < 32 \<Longrightarrow> bit (- 1 :: u32) j"
  by simp

section \<open>Set, clear and test\<close>

lemma bitset_test_abs: "bitset_test b i \<longleftrightarrow> i \<in> bitset_abs b"
  by (auto simp: bitset_test_def bitset_abs_def bitset_bit_simps split: option.splits)

lemma bitset_wf_in_range:
  assumes "bitset_wf b" "i < nbits_m b"
  obtains bits where "bits_m b = Some bits" "i div 32 < length bits" "nset_m b < 2 ^ 63"
    "bit_at bits i \<longrightarrow> 0 < nset_m b"
proof -
  obtain bits where b: "bits_m b = Some bits"
    using assms by (cases "bits_m b") (auto simp: bitset_wf_def)
  note wf = bitset_wf_Some[OF assms(1) b]
  have "i div 32 < length bits"
    using assms(2) wf(1) by (simp add: words_for_bound)
  moreover have "nset_m b < 2 ^ 63"
    using wf(3,4) length_filter_upt_le[of "bit_at bits" "nbits_m b"] by simp
  moreover have "bit_at bits i \<longrightarrow> 0 < nset_m b"
    using wf(3) assms(2) length_filter_upt_pos by metis
  ultimately show ?thesis using that b by blast
qed

lemma bitset_set_cases:
  assumes "bitset_wf b" "i < nbits_m b"
  obtains bits where "bits_m b = Some bits" "i div 32 < length bits"
    "snd (bitset_set b i) = (if bit_at bits i then b else
       b\<lparr>bits_m := Some (bits[i div 32 := bits ! (i div 32) OR word_bit (i mod 32)]),
         nset_m := Suc (nset_m b)\<rparr>)"
proof -
  obtain bits where b: "bits_m b = Some bits" "i div 32 < length bits" "nset_m b < 2 ^ 63"
    using assms by (rule bitset_wf_in_range)
  then show ?thesis
    using that[OF b(1,2)] assms(2) by (simp add: bitset_set_def bitset_bit_simps c_int_simps)
qed

lemma bitset_clear_cases:
  assumes "bitset_wf b" "i < nbits_m b"
  obtains bits where "bits_m b = Some bits" "i div 32 < length bits"
    "bit_at bits i \<longrightarrow> 0 < nset_m b"
    "snd (bitset_clear b i) = (if \<not> bit_at bits i then b else
       b\<lparr>bits_m := Some (bits[i div 32 := bits ! (i div 32) XOR word_bit (i mod 32)]),
         nset_m := nset_m b - 1\<rparr>)"
proof -
  obtain bits where b: "bits_m b = Some bits" "i div 32 < length bits" "nset_m b < 2 ^ 63"
    "bit_at bits i \<longrightarrow> 0 < nset_m b"
    using assms by (rule bitset_wf_in_range)
  then show ?thesis
    using that[OF b(1,2,4)] assms(2) by (simp add: bitset_clear_def bitset_bit_simps c_int_simps)
qed

lemma bitset_set_out: "\<not> i < nbits_m b \<Longrightarrow> bitset_set b i = (False, b)"
  by (simp add: bitset_set_def split: option.splits)

lemma bitset_clear_out: "\<not> i < nbits_m b \<Longrightarrow> bitset_clear b i = (False, b)"
  by (simp add: bitset_clear_def split: option.splits)

lemma bitset_abs_bits: "bits_m b = Some bits \<Longrightarrow> bitset_abs b = {i. i < nbits_m b \<and> bit_at bits i}"
  by (auto simp: bitset_abs_def)

lemma bitset_set_abs:
  assumes "bitset_wf b" "i < nbits_m b"
  shows "bitset_abs (snd (bitset_set b i)) = insert i (bitset_abs b)"
proof -
  obtain bits where b: "bits_m b = Some bits" "i div 32 < length bits"
    "snd (bitset_set b i) = (if bit_at bits i then b else
       b\<lparr>bits_m := Some (bits[i div 32 := bits ! (i div 32) OR word_bit (i mod 32)]),
         nset_m := Suc (nset_m b)\<rparr>)"
    using assms by (rule bitset_set_cases)
  show ?thesis unfolding b(3) using b(1,2) assms(2)
    by (auto simp: bitset_abs_bits bit_at_set)
qed

lemma bitset_clear_abs:
  assumes "bitset_wf b" "i < nbits_m b"
  shows "bitset_abs (snd (bitset_clear b i)) = bitset_abs b - {i}"
proof -
  obtain bits where b: "bits_m b = Some bits" "i div 32 < length bits"
    "snd (bitset_clear b i) = (if \<not> bit_at bits i then b else
       b\<lparr>bits_m := Some (bits[i div 32 := bits ! (i div 32) XOR word_bit (i mod 32)]),
         nset_m := nset_m b - 1\<rparr>)"
    using assms by (rule bitset_clear_cases)
  show ?thesis unfolding b(3) using b(1,2) assms(2)
    by (auto simp: bitset_abs_bits bit_at_clear)
qed

lemma bitset_set_wf:
  assumes "bitset_wf b"
  shows "bitset_wf (snd (bitset_set b i))"
proof (cases "i < nbits_m b")
  case True
  obtain bits where b: "bits_m b = Some bits" "i div 32 < length bits"
    "snd (bitset_set b i) = (if bit_at bits i then b else
       b\<lparr>bits_m := Some (bits[i div 32 := bits ! (i div 32) OR word_bit (i mod 32)]),
         nset_m := Suc (nset_m b)\<rparr>)"
    using assms True by (rule bitset_set_cases)
  let ?bits = "bits[i div 32 := bits ! (i div 32) OR word_bit (i mod 32)]"
  have "\<not> bit_at bits i \<Longrightarrow> length (filter (bit_at ?bits) [0..<nbits_m b]) = Suc (nset_m b)"
    using length_filter_upt_upd[OF True, of "bit_at ?bits" "bit_at bits"] b(2)
      bitset_wf_Some(3)[OF assms b(1)] by (simp add: bit_at_set)
  then show ?thesis unfolding b(3) using assms b(1) by (auto simp: bitset_wf_def)
qed (use assms bitset_set_out in simp)

lemma bitset_clear_wf:
  assumes "bitset_wf b"
  shows "bitset_wf (snd (bitset_clear b i))"
proof (cases "i < nbits_m b")
  case True
  obtain bits where b: "bits_m b = Some bits" "i div 32 < length bits"
    "bit_at bits i \<longrightarrow> 0 < nset_m b"
    "snd (bitset_clear b i) = (if \<not> bit_at bits i then b else
       b\<lparr>bits_m := Some (bits[i div 32 := bits ! (i div 32) XOR word_bit (i mod 32)]),
         nset_m := nset_m b - 1\<rparr>)"
    using assms True by (rule bitset_clear_cases)
  let ?bits = "bits[i div 32 := bits ! (i div 32) XOR word_bit (i mod 32)]"
  have "bit_at bits i \<Longrightarrow> Suc (length (filter (bit_at ?bits) [0..<nbits_m b])) = nset_m b"
    using length_filter_upt_upd[OF True, of "bit_at ?bits" "bit_at bits"] b(2)
      bitset_wf_Some(3)[OF assms b(1)] by (simp add: bit_at_clear)
  then show ?thesis unfolding b(4) using assms b(1) by (auto simp: bitset_wf_def)
qed (use assms bitset_clear_out in simp)

lemma bitset_set_nbits [simp]: "nbits_m (snd (bitset_set b i)) = nbits_m b"
  by (simp add: bitset_set_def split: option.splits)

lemma bitset_clear_nbits [simp]: "nbits_m (snd (bitset_clear b i)) = nbits_m b"
  by (simp add: bitset_clear_def split: option.splits)

lemma bitset_set_range: "bitset_wf b \<Longrightarrow> fst (bitset_set b i) \<longleftrightarrow> i < nbits_m b"
  by (auto simp: bitset_set_def bitset_wf_def split: option.splits)

lemma bitset_clear_range: "bitset_wf b \<Longrightarrow> fst (bitset_clear b i) \<longleftrightarrow> i < nbits_m b"
  by (auto simp: bitset_clear_def bitset_wf_def split: option.splits)

lemma card_filter_upt: "card {i. i < n \<and> P i} = length (filter P [0..<n])"
proof -
  have "{i. i < n \<and> P i} = set (filter P [0..<n])" by auto
  then show ?thesis using distinct_card[of "filter P [0..<n]"] by simp
qed

lemma bitset_nset_card: "bitset_wf b \<Longrightarrow> bitset_nset b = card (bitset_abs b)"
  by (auto simp: bitset_nset_def bitset_wf_def bitset_abs_def card_filter_upt split: option.splits)

lemma bitset_init_wf: "n < 2 ^ 31 \<Longrightarrow> fst (bitset_init alloc p n) \<Longrightarrow> bitset_wf (snd (bitset_init alloc p n))"
  by (auto simp: bitset_init_def bitset_wf_def bit_at_replicate words_for_bound intro!: filter_False [symmetric]
      split: if_splits)

section \<open>Whole-set operations, resizing and copying\<close>

lemma bitset_clear_all_abs: "bitset_wf b \<Longrightarrow> bitset_abs (bitset_clear_all b) = {}"
  by (auto simp: bitset_clear_all_def bitset_abs_def bitset_wf_def bit_at_replicate words_for_bound
      split: option.splits)

lemma bitset_clear_all_wf: "bitset_wf b \<Longrightarrow> bitset_wf (bitset_clear_all b) \<and> tail_clean (bitset_clear_all b)"
  by (auto simp: bitset_clear_all_def bitset_wf_def tail_clean_def bit_at_replicate words_for_bound
      list_all_iff intro!: filter_False [symmetric] split: option.splits)

lemma bitset_set_all_abs: "bitset_wf b \<Longrightarrow> bitset_abs (bitset_set_all b) = {..<nbits_m b}"
  by (auto simp: bitset_set_all_def bitset_abs_def bitset_wf_def bit_at_replicate words_for_bound
      split: option.splits)

lemma bitset_set_all_wf: "bitset_wf b \<Longrightarrow> bitset_wf (bitset_set_all b)"
  by (auto simp: bitset_set_all_def bitset_wf_def bit_at_replicate words_for_bound
      filter_True split: option.splits)

text \<open>\<open>count_nset\<close> counts the ones below \<open>nbits_m\<close>, and reads one word too far exactly when
  the last word is full.\<close>

lemma count_inner_eq:
  "counted + length js \<le> nbits \<Longrightarrow>
   count_inner w nbits js counted nset = Inr (counted + length js, nset + length (filter (bit w) js))"
  by (induction js arbitrary: counted nset) (auto simp: and_word_bit)

lemma count_inner_stop:
  "counted \<le> nbits \<Longrightarrow> nbits < counted + length js \<Longrightarrow>
   count_inner w nbits js counted nset = Inl (nset + length (filter (bit w) (take (nbits - counted) js)))"
proof (induction js arbitrary: counted nset)
  case (Cons j js)
  show ?case
  proof (cases "nbits = counted")
    case False
    with Cons.prems have d: "nbits - counted = Suc (nbits - Suc counted)" by simp
    from False Cons.prems Cons.IH[of "Suc counted"] show ?thesis
      unfolding d by (simp add: and_word_bit)
  qed simp
qed simp

lemma length_filter_block:
  "length (filter (bit_at bits) [32 * i..<32 * i + n]) = length (filter (bit (bits ! i)) [0..<n])"
  if "n \<le> 32"
proof -
  have "[32 * i..<32 * i + n] = map (\<lambda>j. 32 * i + j) [0..<n]"
    by (simp add: map_add_upt add.commute)
  moreover have "(bit_at bits \<circ> (\<lambda>j. 32 * i + j)) j = bit (bits ! i) j" if "j \<in> set [0..<n]" for j
    using that \<open>n \<le> 32\<close> by (auto simp: bit_at_def)
  then have "filter (bit_at bits \<circ> (\<lambda>j. 32 * i + j)) [0..<n] = filter (bit (bits ! i)) [0..<n]"
    by (rule filter_cong [OF refl])
  ultimately show ?thesis by (simp add: filter_map)
qed

lemma length_filter_split:
  "a \<le> b \<Longrightarrow> length (filter P [0..<b]) = length (filter P [0..<a]) + length (filter P [a..<b])"
  by (metis filter_append le0 le_add_diff_inverse length_append upt_add_eq_append)

lemma count_outer_eq:
  assumes "nbits mod 32 \<noteq> 0" "length bits = nbits div 32 + 1" "i \<le> nbits div 32"
  shows "count_outer bits nbits [i..<nbits div 32 + 1 + 1] (32 * i) (length (filter (bit_at bits) [0..<32 * i]))
     = Inr (length (filter (bit_at bits) [0..<nbits]))"
  using assms(3)
proof (induction "nbits div 32 - i" arbitrary: i)
  case 0
  then have i: "i = nbits div 32" by simp
  have nb: "nbits = 32 * i + nbits mod 32" using i by (simp add: mult.commute)
  then have d: "nbits - 32 * i = nbits mod 32" by linarith
  have len: "length (filter (bit_at bits) [0..<nbits]) =
     length (filter (bit_at bits) [0..<32 * i]) + length (filter (bit (bits ! i)) [0..<nbits mod 32])"
    using length_filter_split[of "32 * i" nbits "bit_at bits"] length_filter_block[of "nbits mod 32" bits i] nb
    by simp
  have "count_inner (bits ! i) nbits [0..<32] (32 * i) c =
     Inl (c + length (filter (bit (bits ! i)) [0..<nbits mod 32]))" for c
    using nb assms(1) by (subst count_inner_stop) (auto simp: d take_upt less_imp_le)
  then show ?case using i assms(2) len by (simp add: upt_conv_Cons del: upt_Suc)
next
  case (Suc d)
  then have "32 * i + 32 \<le> nbits" by linarith
  then have inner: "count_inner (bits ! i) nbits [0..<32] (32 * i) c =
     Inr (32 * i + 32, c + length (filter (bit (bits ! i)) [0..<32]))" for c
    by (subst count_inner_eq) auto
  have "length (filter (bit_at bits) [0..<32 * Suc i]) =
     length (filter (bit_at bits) [0..<32 * i]) + length (filter (bit (bits ! i)) [0..<32])"
    using length_filter_split[of "32 * i" "32 * Suc i" "bit_at bits"] length_filter_block[of 32 bits i]
    by (simp add: add.commute)
  then show ?case using Suc(1)[of "Suc i"] Suc(2,3) inner assms(2)
    by (simp add: upt_conv_Cons add.commute del: upt_Suc)
qed

lemma count_outer_full:
  assumes "length bits = n" "nbits = 32 * n" "i \<le> n"
  shows "count_outer bits nbits [i..<n + 1] (32 * i) c = Inl OutOfBounds"
  using assms(3)
proof (induction "n - i" arbitrary: i c)
  case 0
  then have "[i..<n + 1] = [n]" by simp
  then show ?case using assms(1) by simp
next
  case (Suc d)
  have "count_inner (bits ! i) nbits [0..<32] (32 * i) c =
     Inr (32 * i + 32, c + length (filter (bit (bits ! i)) [0..<32]))"
    using Suc assms(2) by (subst count_inner_eq) auto
  moreover have "[i..<n + 1] = i # [Suc i..<n + 1]" using Suc by (simp add: upt_conv_Cons del: upt_Suc)
  ultimately show ?case using Suc(1)[of "Suc i"] Suc(2,3) assms(1)
    by (simp add: add.commute del: upt_Suc)
qed

lemma count_nset_correct:
  assumes "length bits = words_for n" "n mod 32 \<noteq> 0"
    "bits_m b = Some bits" "nbits_m b = n" "nwords_m b = words_for n"
  shows "count_nset b = Inr (length (filter (bit_at bits) [0..<n]))"
  using count_outer_eq[of n bits 0] assms by (simp add: count_nset_def words_for_def del: upt_Suc)

lemma count_nset_overrun:
  assumes "length bits = words_for n" "n mod 32 = 0"
    "bits_m b = Some bits" "nbits_m b = n" "nwords_m b = words_for n"
  shows "count_nset b = Inl OutOfBounds"
proof -
  have "n = 32 * (n div 32)" using assms(2) by auto
  then show ?thesis
    using count_outer_full[of bits "n div 32" n 0 0] assms
    by (simp add: count_nset_def words_for_def del: upt_Suc)
qed

lemma bitset_resize_grow:
  assumes wf: "bitset_wf b" and tail: "tail_clean b" and n: "nbits_m b < n" "n < 2 ^ 31"
    and res: "bitset_resize alloc b n = Inr (True, b')"
  shows "bitset_wf b' \<and> tail_clean b' \<and> nbits_m b' = n \<and> bitset_abs b' = bitset_abs b"
proof (cases "bits_m b")
  case None
  with res n show ?thesis
    by (auto simp: bitset_resize_def bitset_init_def bitset_wf_def tail_clean_def bitset_abs_def
        bit_at_replicate words_for_bound list_all_iff intro!: filter_False [symmetric]
        split: if_splits prod.splits bool.splits)
next
  case (Some bits)
  note wfb = bitset_wf_Some[OF wf Some]
  let ?m = "nbits_m b" and ?W = "words_for n"
  let ?bits = "bits @ replicate (?W - words_for ?m) 0"
  have mono: "words_for ?m \<le> ?W" using n(1) by (intro words_for_mono) simp
  have b': "b' = \<lparr>nwords_m = ?W, nbits_m = n, bits_m = Some ?bits, nset_m = nset_m b, pool_m = pool_m b\<rparr>"
    using res n(1) Some wfb(1,2)
    by (auto simp: bitset_resize_def bitset_init_def split: if_splits prod.splits bool.splits)
  have low: "bit_at ?bits i = bit_at bits i" if "i < ?m" for i
    using that wfb(1) by (simp add: bit_at_append_low words_for_bound)
  have high: "\<not> bit_at ?bits i" if i: "?m \<le> i" "i < 32 * ?W" for i
  proof (cases "i div 32 < words_for ?m")
    case True
    then have "i < 32 * words_for ?m" by linarith
    then show ?thesis using True tail i wfb(1,2) Some
      by (auto simp: tail_clean_def list_all_iff bit_at_append_low)
  next
    case False
    have "i div 32 < ?W" using i(2) by linarith
    then show ?thesis using False i wfb(1) mono bit_at_append[of bits i "?W - words_for ?m"] by auto
  qed
  have "filter (bit_at ?bits) [0..<n] = filter (bit_at ?bits) [0..<?m]"
    using high n(1) words_for_cover(1)[of n] by (intro filter_upt_extend) auto
  also have "\<dots> = filter (bit_at bits) [0..<?m]" using low by (intro filter_cong) auto
  finally have "nset_m b = length (filter (bit_at ?bits) [0..<n])" using wfb(3) by simp
  moreover have "length ?bits = ?W" using wfb(1) mono by simp
  moreover have "bitset_abs b' = bitset_abs b"
  proof (rule set_eqI)
    fix i
    show "i \<in> bitset_abs b' \<longleftrightarrow> i \<in> bitset_abs b"
      using low[of i] high[of i] n(1) words_for_cover(1)[of n] Some
      by (cases "i < ?m") (auto simp: b' bitset_abs_def)
  qed
  ultimately show ?thesis using n high
    by (auto simp: b' bitset_wf_def tail_clean_def list_all_iff)
qed

lemma bitset_resize_shrink:
  assumes wf: "bitset_wf b" and n: "n < nbits_m b"
    and res: "bitset_resize alloc b n = Inr (True, b')"
  shows "bitset_wf b' \<and> nbits_m b' = n \<and> bitset_abs b' = bitset_abs b \<inter> {..<n}"
proof -
  from wf n obtain bits where b: "bits_m b = Some bits"
    by (cases "bits_m b") (auto simp: bitset_wf_def)
  note wfb = bitset_wf_Some[OF wf b]
  let ?W = "words_for n" and ?bits = "take (words_for n) bits"
  define c where "c = \<lparr>nwords_m = ?W, nbits_m = n, bits_m = Some ?bits, nset_m = 0, pool_m = pool_m b\<rparr>"
  have len: "length ?bits = ?W" using wfb(1) n words_for_mono[of n "nbits_m b"] by simp
  have step: "(case count_nset c of Inl e \<Rightarrow> Inl e | Inr k \<Rightarrow> Inr (True, c\<lparr>nset_m := k\<rparr>)) = Inr (True, b')"
    using res n b
    by (auto simp: bitset_resize_def bitset_init_def c_def Let_def
        split: if_splits prod.splits bool.splits sum.splits)
  have "n mod 32 \<noteq> 0"
  proof
    assume "n mod 32 = 0"
    then have "count_nset c = Inl OutOfBounds"
      using count_nset_overrun[OF len, of c] by (simp add: c_def)
    with step show False by simp
  qed
  then have "count_nset c = Inr (length (filter (bit_at ?bits) [0..<n]))"
    using count_nset_correct[OF len _, of c] by (simp add: c_def)
  with step have b': "b' = c\<lparr>nset_m := length (filter (bit_at ?bits) [0..<n])\<rparr>" by simp
  have "bit_at ?bits i = bit_at bits i" if "i < n" for i
    using that by (simp add: bit_at_take words_for_bound)
  then have "bitset_abs b' = bitset_abs b \<inter> {..<n}"
    using n b by (auto simp: b' c_def bitset_abs_def)
  then show ?thesis using len n wfb(4) by (auto simp: b' c_def bitset_wf_def)
qed

section \<open>Searching\<close>

text \<open>The upward search finds the least hit from its start on, when \<open>skip\<close> only skips words
  without a hit.\<close>

lemma find_next_loop_least:
  assumes skip: "\<And>w j. skip w \<Longrightarrow> j < 32 \<Longrightarrow> \<not> hit w j" and "i_bit \<le> 32"
  shows "find_next_loop skip hit bits nwords i_word i_bit = Some r \<longleftrightarrow>
     is_least (\<lambda>k. hit (bits ! (k div 32)) (k mod 32)) (32 * i_word + i_bit) (32 * nwords) r"
  using assms(2)
proof (induction "nwords - i_word" arbitrary: i_word i_bit)
  case 0
  then show ?case by (auto simp: find_next_loop.simps[of skip hit bits nwords i_word] is_least_def)
next
  case (Suc d)
  let ?P = "\<lambda>k. hit (bits ! (k div 32)) (k mod 32)" and ?w = "bits ! i_word"
  have lt: "i_word < nwords" using Suc(2) by simp
  have blk: "?P (32 * i_word + j) = hit ?w j" if "j < 32" for j using that by simp
  have "List.find (hit ?w) [i_bit..<32] = None" if "skip ?w"
    using skip[OF that] by (auto simp: find_upt_None)
  then have find: "(if \<not> skip ?w then List.find (hit ?w) [i_bit..<32] else None) = List.find (hit ?w) [i_bit..<32]"
    by auto
  show ?case
  proof (cases "List.find (hit ?w) [i_bit..<32]")
    case None
    have no: "\<not> ?P k" if "32 * i_word + i_bit \<le> k" "k < 32 * Suc i_word" for k
      using that blk[of "k - 32 * i_word"] None by (auto simp: find_upt_None)
    have "find_next_loop skip hit bits nwords i_word i_bit = find_next_loop skip hit bits nwords (Suc i_word) 0"
      using lt find None by (simp add: find_next_loop.simps[of skip hit bits nwords i_word i_bit])
    then show ?thesis
      using Suc(1)[of "Suc i_word" 0] Suc(2,3) is_least_skip[of "32 * i_word + i_bit" "32 * Suc i_word" ?P] no
      by simp
  next
    case (Some j)
    then have j: "i_bit \<le> j" "j < 32" "hit ?w j" "\<forall>k. i_bit \<le> k \<and> k < j \<longrightarrow> \<not> hit ?w k"
      by (auto simp: find_upt_Some)
    have least: "\<not> ?P k" if "32 * i_word + i_bit \<le> k" "k < 32 * i_word + j" for k
    proof -
      have "k - 32 * i_word < j" "i_bit \<le> k - 32 * i_word" using that by linarith+
      then show ?thesis using that j blk[of "k - 32 * i_word"] by auto
    qed
    have "find_next_loop skip hit bits nwords i_word i_bit = Some (32 * i_word + j)"
      using lt find Some by (simp add: find_next_loop.simps[of skip hit bits nwords i_word i_bit] mult.commute)
    moreover have "?P (32 * i_word + j)" using blk j by simp
    moreover have "32 * i_word + j < 32 * nwords" using lt j(2) by linarith
    ultimately show ?thesis
      using is_least_here[of "32 * i_word + i_bit" "32 * i_word + j" "32 * nwords" ?P r] least j(1) by auto
  qed
qed

lemma find_next_one_loop_least:
  "i < n \<Longrightarrow> find_next_loop (\<lambda>w. w = 0) (\<lambda>w j. w AND word_bit j \<noteq> 0) bits nwords (i div 32) (i mod 32) = Some r
     \<longleftrightarrow> is_least (bit_at bits) i (32 * nwords) r"
  by (subst find_next_loop_least) (simp_all add: bitset_bit_simps less_imp_le)

lemma find_next_zero_loop_least:
  "i < n \<Longrightarrow> find_next_loop (\<lambda>w. w = 0xffffffff) (\<lambda>w j. w AND word_bit j = 0) bits nwords (i div 32) (i mod 32) = Some r
     \<longleftrightarrow> is_least (\<lambda>k. \<not> bit_at bits k) i (32 * nwords) r"
proof (subst find_next_loop_least)
  fix w :: u32 and j :: nat
  assume "w = 0xffffffff" "j < 32"
  then have "w = - 1" by simp
  then show "\<not> w AND word_bit j = 0" using \<open>j < 32\<close> unfolding and_word_bit_0 by simp
qed (simp_all add: bitset_bit_simps less_imp_le)

lemma find_result_Some: "n < 2 ^ 31 \<Longrightarrow> find_result (Some n) = int n"
  by (simp add: find_result_def c_int_simps)

lemma find_result_None: "find_result None = -1"
  by (simp add: find_result_def)

lemma bitset_test_bit_at: "bits_m b = Some bits \<Longrightarrow> bitset_test b = (\<lambda>i. i < nbits_m b \<and> bit_at bits i)"
  by (auto simp: bitset_test_def bitset_bit_simps)

lemma tail_cleanD: "tail_clean b \<Longrightarrow> bits_m b = Some bits \<Longrightarrow> k < 32 * nwords_m b \<Longrightarrow> bit_at bits k \<Longrightarrow> k < nbits_m b"
  by (auto simp: tail_clean_def list_all_iff not_less)

lemma is_least_test:
  assumes "bitset_wf b" "tail_clean b" "bits_m b = Some bits"
  shows "is_least (bit_at bits) i (32 * nwords_m b) r \<longleftrightarrow> is_least (bitset_test b) i (nbits_m b) r"
  using tail_cleanD[OF assms(2,3)] words_for_cover(1)[of "nbits_m b"] bitset_wf_Some(2)[OF assms(1,3)]
  unfolding is_least_def bitset_test_bit_at[OF assms(3)]
  by (metis le_trans less_le_trans less_trans)

text \<open>Both searches for a zero, on sets whose last word is full: they miss only when every index is a member.\<close>

lemma find_first_zero_cases:
  assumes "bitset_wf b" "nbits_m b = 32 * nwords_m b"
  shows "(\<exists>r. bitset_find_first_zero b = int r \<and> r < nbits_m b \<and> \<not> bitset_test b r) \<or>
    (bitset_find_first_zero b = -1 \<and> (\<forall>k<nbits_m b. bitset_test b k))"
proof (cases "0 < nbits_m b")
  case False
  then show ?thesis by (auto simp: bitset_find_first_zero_def bitset_find_next_zero_def split: option.splits)
next
  case True
  then obtain bits where b: "bits_m b = Some bits" using assms(1) by (cases "bits_m b") (auto simp: bitset_wf_def)
  define r where "r = find_next_loop (\<lambda>w. w = 0xffffffff) (\<lambda>w j. w AND word_bit j = 0) bits (nwords_m b) (0 div 32) (0 mod 32)"
  have eq: "bitset_find_first_zero b = find_result r"
    using b True by (simp add: bitset_find_first_zero_def bitset_find_next_zero_def r_def)
  have least: "r = Some k \<longleftrightarrow> is_least (\<lambda>k. \<not> bit_at bits k) 0 (nbits_m b) k" for k
    unfolding r_def using find_next_zero_loop_least[OF True, of bits "nwords_m b" k] assms(2) by simp
  have lt: "nbits_m b < 2 ^ 31" using bitset_wf_Some(4)[OF assms(1) b] .
  show ?thesis
  proof (cases r)
    case None
    then have "\<not> (\<exists>k. 0 \<le> k \<and> k < nbits_m b \<and> \<not> bit_at bits k)"
      using least is_least_ex[of "\<lambda>k. \<not> bit_at bits k" 0 "nbits_m b"] by auto
    then show ?thesis using eq None by (auto simp: find_result_None bitset_test_bit_at[OF b])
  next
    case (Some k)
    then have k: "k < nbits_m b" "\<not> bit_at bits k" using least[of k] by (auto simp: is_least_def)
    then show ?thesis using eq Some lt find_result_Some[of k] by (auto simp: bitset_test_bit_at[OF b])
  qed
qed

lemma find_last_zero_loop_cases:
  "(\<exists>r. find_last_zero_loop bits n = Some r \<and> r < 32 * n \<and> \<not> bit_at bits r) \<or>
   (find_last_zero_loop bits n = None \<and> (\<forall>k < 32 * n. bit_at bits k))"
proof (induction n)
  case (Suc n)
  let ?w = "bits ! n"
  have div: "(n * 32 + j) div 32 = n \<and> (n * 32 + j) mod 32 = j" if "j < 32" for j using that by auto
  show ?case
  proof (cases "?w = 0")
    case True
    then show ?thesis using div[of 31] by (auto simp: bit_at_def)
  next
    case False
    show ?thesis
    proof (cases "List.find (\<lambda>j. ?w AND word_bit j = 0) (rev [0..<32])")
      case None
      then have all: "bit ?w j" if "j < 32" for j using that by (auto simp: find_None_iff and_word_bit_0)
      have "bit_at bits k" if "32 * n \<le> k" "k < 32 * Suc n" for k
      proof -
        have "k div 32 = n" "k mod 32 < 32" using that by auto
        then show ?thesis using all by (simp add: bit_at_def)
      qed
      then show ?thesis using Suc False None by (auto simp: not_le) (metis not_le)
    next
      case (Some j)
      then have "j < 32" "\<not> bit ?w j" by (auto simp: find_Some_iff and_word_bit_0 simp del: upt_Suc) (metis length_rev length_upt nth_mem set_rev atLeastLessThan_iff set_upt minus_nat.diff_0)
      then show ?thesis using False Some div[of j] by (auto simp: bit_at_def)
    qed
  qed
qed simp

lemma find_last_zero_cases:
  assumes "bitset_wf b" "nbits_m b = 32 * nwords_m b"
  shows "(\<exists>r. bitset_find_last_zero b = int r \<and> r < nbits_m b \<and> \<not> bitset_test b r) \<or>
    (bitset_find_last_zero b = -1 \<and> (\<forall>k<nbits_m b. bitset_test b k))"
proof (cases "bits_m b")
  case None
  then show ?thesis using assms(1) by (simp add: bitset_find_last_zero_def bitset_wf_def)
next
  case (Some bits)
  have lt: "nbits_m b < 2 ^ 31" using bitset_wf_Some(4)[OF assms(1) Some] .
  show ?thesis
    using find_last_zero_loop_cases[of bits "nwords_m b"] assms(2) lt Some
    by (auto simp: bitset_find_last_zero_def bitset_test_bit_at find_result_Some find_result_None)
qed

section \<open>The index-set interface\<close>

text \<open>
  What the subnet manager relies on: an index set of fixed capacity with insertion,
  deletion, membership test and a population count.
\<close>

locale index_set =
  fixes test :: "'b \<Rightarrow> nat \<Rightarrow> bool"
    and put :: "'b \<Rightarrow> nat \<Rightarrow> 'b"
    and drop :: "'b \<Rightarrow> nat \<Rightarrow> 'b"
    and capacity :: "'b \<Rightarrow> nat"
    and population :: "'b \<Rightarrow> nat"
    and inv :: "'b \<Rightarrow> bool"
  assumes test_put: "inv b \<Longrightarrow> i < capacity b \<Longrightarrow> test (put b i) k \<longleftrightarrow> test b k \<or> k = i"
    and test_drop: "inv b \<Longrightarrow> i < capacity b \<Longrightarrow> test (drop b i) k \<longleftrightarrow> test b k \<and> k \<noteq> i"
    and test_capacity: "inv b \<Longrightarrow> test b k \<Longrightarrow> k < capacity b"
    and capacity_put: "inv b \<Longrightarrow> capacity (put b i) = capacity b"
    and capacity_drop: "inv b \<Longrightarrow> capacity (drop b i) = capacity b"
    and inv_put: "inv b \<Longrightarrow> inv (put b i)"
    and inv_drop: "inv b \<Longrightarrow> inv (drop b i)"
    and population_card: "inv b \<Longrightarrow> population b = card {k. test b k}"
begin

definition put_all :: "nat list \<Rightarrow> 'b \<Rightarrow> 'b" where
  "put_all is b = fold (\<lambda>i b. put b i) is b"

lemma put_all_inv: "inv b \<Longrightarrow> inv (put_all is b) \<and> capacity (put_all is b) = capacity b"
  unfolding put_all_def by (induction "is" arbitrary: b) (auto simp: inv_put capacity_put)

lemma test_put_all:
  "inv b \<Longrightarrow> \<forall>i\<in>set is. i < capacity b \<Longrightarrow> test (put_all is b) k \<longleftrightarrow> test b k \<or> k \<in> set is"
  unfolding put_all_def
  by (induction "is" arbitrary: b) (auto simp: inv_put capacity_put test_put)

lemma finite_members: "inv b \<Longrightarrow> finite {k. test b k}"
  by (rule finite_subset[of _ "{..<capacity b}"]) (auto dest: test_capacity)

lemma population_put:
  assumes "inv b" "i < capacity b"
  shows "population (put b i) = (if test b i then population b else Suc (population b))"
proof -
  have "{k. test (put b i) k} = insert i {k. test b k}" using test_put[OF assms] by auto
  then show ?thesis
    using assms finite_members[OF assms(1)] by (simp add: population_card inv_put card_insert_if)
qed

lemma population_drop:
  assumes "inv b" "i < capacity b"
  shows "population (drop b i) = (if test b i then population b - 1 else population b)"
proof -
  have "{k. test (drop b i) k} = {k. test b k} - {i}" using test_drop[OF assms] by auto
  then show ?thesis
    using assms finite_members[OF assms(1)] by (simp add: population_card inv_drop card_Diff_singleton_if)
qed

lemma population_put_all:
  assumes "inv b" "\<forall>i\<in>set is. i < capacity b" "population b = 0"
  shows "population (put_all is b) = card (set is)"
proof -
  have "{k. test b k} = {}" using assms(1,3) finite_members by (simp add: population_card)
  then show ?thesis
    using put_all_inv[OF assms(1)] test_put_all[OF assms(1,2)] by (simp add: population_card)
qed

end

interpretation bs: index_set bitset_test "\<lambda>b i. snd (bitset_set b i)" "\<lambda>b i. snd (bitset_clear b i)"
  nbits_m bitset_nset bitset_wf
proof unfold_locales
  fix b :: bitset_t and i k :: nat
  assume wf: "bitset_wf b"
  show "bitset_nset b = card {k. bitset_test b k}"
    using wf by (simp add: bitset_nset_card bitset_test_abs)
  show "bitset_test b k \<Longrightarrow> k < nbits_m b" by (auto simp: bitset_test_abs bitset_abs_def)
  show "i < nbits_m b \<Longrightarrow> bitset_test (snd (bitset_set b i)) k \<longleftrightarrow> bitset_test b k \<or> k = i"
    using wf by (auto simp: bitset_test_abs bitset_set_abs)
  show "i < nbits_m b \<Longrightarrow> bitset_test (snd (bitset_clear b i)) k \<longleftrightarrow> bitset_test b k \<and> k \<noteq> i"
    using wf by (auto simp: bitset_test_abs bitset_clear_abs)
qed (simp_all add: bitset_set_wf bitset_clear_wf)

section \<open>Properties\<close>

text \<open>A concrete bit set for the witnesses: 40 bits, with bit 3 and bit 35 set.\<close>

definition bitset_example :: bitset_t where
  "bitset_example = snd (bitset_set (snd (bitset_set (snd (bitset_init (\<lambda>_. True) None 40)) 3)) 35)"

lemma bitset_example_eq:
  "bitset_example = \<lparr>nwords_m = 2, nbits_m = 40, bits_m = Some [8, 8], nset_m = 2, pool_m = None\<rparr>"
proof -
  have "replicate 2 x = [x, x]" for x :: u32 by (simp add: numeral_2_eq_2)
  moreover have "size_inc 0 = 1" "size_inc 1 = 2" by (simp_all add: size_inc_def)
  ultimately show ?thesis
    by (simp add: bitset_example_def bitset_init_def bitset_set_def words_for_def word_bit_def)
qed

lemma bitset_example_nbits [simp]: "nbits_m bitset_example = 40"
  by (simp add: bitset_example_eq)

lemma bitset_example_wf: "bitset_wf bitset_example" "tail_clean bitset_example"
proof -
  have "bitset_wf (snd (bitset_init (\<lambda>_. True) None 40))"
    by (rule bitset_init_wf) (simp_all add: bitset_init_def)
  then show "bitset_wf bitset_example" unfolding bitset_example_def by (intro bitset_set_wf)
  show "tail_clean bitset_example" unfolding bitset_example_eq by code_simp
qed

text \<open>
  C37. Setting any sequence of in-range indices in a well-formed bit set adds exactly those
  indices, keeps the structure well formed, and the cached counter \<open>nset_m\<close> ends as the number of
  distinct members.
\<close>

theorem bitset_set_sequence:
  assumes "bitset_wf b" and "\<forall>i\<in>set is. i < nbits_m b"
  defines "b' \<equiv> fold (\<lambda>i b. snd (bitset_set b i)) is b"
  shows "bitset_wf b' \<and> (\<forall>k. bitset_test b' k \<longleftrightarrow> bitset_test b k \<or> k \<in> set is) \<and>
    bitset_nset b' = card ({k. bitset_test b k} \<union> set is)"
proof -
  have b': "b' = bs.put_all is b" by (simp add: b'_def bs.put_all_def)
  have "{k. bitset_test b' k} = {k. bitset_test b k} \<union> set is"
    using bs.test_put_all[OF assms(1,2)] by (auto simp: b')
  then show ?thesis
    using bs.put_all_inv[OF assms(1)] bs.test_put_all[OF assms(1,2)]
    by (simp add: b' bs.population_card)
qed

theorem bitset_set_sequence_witness:
  "bitset_wf bitset_example \<and> 3 < nbits_m bitset_example \<and> 7 < nbits_m bitset_example \<and>
   bitset_test (fold (\<lambda>i b. snd (bitset_set b i)) [3, 7] bitset_example) 7"
proof -
  have h: "\<forall>i\<in>set [3, 7]. i < nbits_m bitset_example" by simp
  show ?thesis
    using bitset_set_sequence[OF bitset_example_wf(1) h] bitset_example_wf(1) by auto
qed

text \<open>
  On a well-formed bit set whose last word has no stray bits, \<open>bitset_find_next_one b i\<close>
  returns the least member from \<open>i\<close> on, and \<open>-1\<close> exactly when there is none.
\<close>

theorem bitset_find_next_one_least:
  assumes "bitset_wf b" and "tail_clean b"
  shows "(\<exists>r. bitset_find_next_one b i = int r \<and> is_least (bitset_test b) i (nbits_m b) r) \<or>
    (bitset_find_next_one b i = -1 \<and> (\<forall>k\<ge>i. \<not> bitset_test b k))"
proof (cases "bits_m b")
  case None
  then show ?thesis by (simp add: bitset_find_next_one_def bitset_test_def)
next
  case (Some bits)
  let ?r = "find_next_loop (\<lambda>w. w = 0) (\<lambda>w j. w AND word_bit j \<noteq> 0) bits (nwords_m b) (i div 32) (i mod 32)"
  show ?thesis
  proof (cases "i < nbits_m b")
    case False
    then show ?thesis using Some by (simp add: bitset_find_next_one_def bitset_test_def)
  next
    case True
    then have eq: "bitset_find_next_one b i = find_result ?r"
      using Some by (simp add: bitset_find_next_one_def)
    have least: "?r = Some r \<longleftrightarrow> is_least (bitset_test b) i (nbits_m b) r" for r
      using find_next_one_loop_least[OF True] is_least_test[OF assms Some] by simp
    show ?thesis
    proof (cases ?r)
      case None
      then have "\<not> (\<exists>k. i \<le> k \<and> k < nbits_m b \<and> bitset_test b k)"
        using least is_least_ex[of "bitset_test b" i "nbits_m b"] by auto
      moreover have "k < nbits_m b" if "bitset_test b k" for k using assms(1) that by (rule bs.test_capacity)
      ultimately show ?thesis using eq None find_result_None by auto
    next
      case res: (Some r)
      have "r < 2 ^ 31" using least[of r] res bitset_wf_Some(4)[OF assms(1) Some] by (auto simp: is_least_def)
      then show ?thesis using eq res least[of r] find_result_Some by auto
    qed
  qed
qed

theorem bitset_find_next_one_least_witness:
  "bitset_wf bitset_example \<and> tail_clean bitset_example \<and>
   (\<exists>r. bitset_find_next_one bitset_example 4 = int r \<and> is_least (bitset_test bitset_example) 4 40 r)"
proof -
  have "bitset_test bitset_example 35" unfolding bitset_example_eq by code_simp
  then have "\<not> (\<forall>k\<ge>4. \<not> bitset_test bitset_example k)" by (auto intro: exI[of _ 35])
  then show ?thesis
    using bitset_find_next_one_least[OF bitset_example_wf, of 4] bitset_example_wf by auto
qed

text \<open>
  Growing a well-formed bit set with a clean last word keeps its members, its counter and
  the clean tail; the new capacity is the requested one.
\<close>

theorem bitset_resize_grow_keeps:
  assumes "bitset_wf b" and "tail_clean b" and "nbits_m b < n" and "n < 2 ^ 31"
    and "alloc (4 * words_for n)"
  shows "\<exists>b'. bitset_resize alloc b n = Inr (True, b') \<and> bitset_wf b' \<and> tail_clean b' \<and>
     nbits_m b' = n \<and> bitset_test b' = bitset_test b \<and> bitset_nset b' = bitset_nset b"
proof -
  obtain b' where b': "bitset_resize alloc b n = Inr (True, b')"
    using assms(3,5) by (cases "bits_m b") (auto simp: bitset_resize_def bitset_init_def)
  note grow = bitset_resize_grow[OF assms(1-4) b']
  then have "bitset_test b' = bitset_test b" by (auto simp: bitset_test_abs)
  moreover have "bitset_nset b' = bitset_nset b" using grow assms(1) by (simp add: bitset_nset_card)
  ultimately show ?thesis using b' grow by blast
qed

theorem bitset_resize_grow_keeps_witness:
  "bitset_wf bitset_example \<and> tail_clean bitset_example \<and>
   (\<exists>b'. bitset_resize (\<lambda>_. True) bitset_example 100 = Inr (True, b') \<and> nbits_m b' = 100 \<and>
      bitset_test b' = bitset_test bitset_example)"
  using bitset_resize_grow_keeps[OF bitset_example_wf, of 100 "\<lambda>_. True"] bitset_example_wf by auto

text \<open>
  The clean-tail condition is needed and \<open>bitset_set_all\<close> breaks it: a 10-bit set filled by
  \<open>bitset_set_all\<close> and grown to 20 bits reports 10 members in its counter, while all 20 indices
  test as members.
\<close>

theorem bitset_resize_after_set_all_stale:
  "case bitset_resize (\<lambda>_. True) (bitset_set_all (snd (bitset_init (\<lambda>_. True) None 10))) 20 of
     Inl e \<Rightarrow> False
   | Inr (ok, b) \<Rightarrow> ok \<and> bitset_nset b = 10 \<and> list_all (bitset_test b) [0..<20]"
  by code_simp

text \<open>
  Shrinking to a multiple of 32 bits makes \<open>count_nset\<close> read one word past the new array,
  whatever the contents: the loop bound is \<open>i <= nwords_m\<close>.
\<close>

theorem bitset_resize_shrink_overrun:
  assumes "bitset_wf b" and "n < nbits_m b" and "n mod 32 = 0" and "alloc (4 * words_for n)"
  shows "bitset_resize alloc b n = Inl OutOfBounds"
proof -
  from assms(1,2) obtain bits where b: "bits_m b = Some bits"
    by (cases "bits_m b") (auto simp: bitset_wf_def)
  have len: "length (take (words_for n) bits) = words_for n"
    using bitset_wf_Some(1)[OF assms(1) b] assms(2) words_for_mono[of n "nbits_m b"] by simp
  show ?thesis
    using count_nset_overrun[OF len assms(3)] assms(2,4) b
    by (simp add: bitset_resize_def bitset_init_def Let_def)
qed

theorem bitset_resize_shrink_overrun_witness:
  "bitset_wf bitset_example \<and> bitset_resize (\<lambda>_. True) bitset_example 32 = Inl OutOfBounds"
  using bitset_resize_shrink_overrun[OF bitset_example_wf(1), of 32 "\<lambda>_. True"] bitset_example_wf(1) by simp

end
