(* ===== verification/CsQueue.thy ===== *)
theory CsQueue
  imports FM_Prelude
begin

text \<open>
  The fixed-capacity ring buffer of \<^verbatim>\<open>Esm/ib/src/cs/cs_queue.c\<close>, which carries trap-forwarding
  requests between the threads of the subnet manager. Every operation takes the queue lock
  first: the statuses of \<open>vs_lock\<close> and \<open>vs_unlock\<close> are the arguments \<open>lk\<close> and \<open>ul\<close>. An
  element is a pointer, \<open>None\<close> for a null pointer. The \<open>int\<close> fields are integers; the
  block that \<open>vs_pool_alloc\<close> delivers is the list \<open>blk\<close>.
\<close>

section \<open>The data structure and its operations\<close>

record 'a cs_QueueRecord_t =
  Capacity :: int
  Size :: int
  Front :: int
  Rear :: int
  qData :: "'a option list"

definition MinQueueSize :: nat where
  "MinQueueSize = 5"

definition cs_queue_IsEmpty :: "'a cs_QueueRecord_t \<Rightarrow> bool" where
  "cs_queue_IsEmpty Q = (Size Q = 0)"

definition cs_queue_IsFull :: "'a cs_QueueRecord_t \<Rightarrow> bool" where
  "cs_queue_IsFull Q = (Size Q = Capacity Q)"

definition cs_queue_MakeEmpty :: "'a cs_QueueRecord_t \<Rightarrow> 'a cs_QueueRecord_t" where
  "cs_queue_MakeEmpty Q = Q\<lparr>Size := 0, Front := 1, Rear := 0\<rparr>"

text \<open>
  \<open>cs_queue_CreateQueue\<close>: \<open>None\<close> is the null result. \<open>rec_ok\<close> says whether the record could
  be allocated, \<open>blk\<close> is the element block or \<open>None\<close> when that allocation fails, \<open>lk\<close> the
  status of \<open>vs_lock_init\<close>. When the lock cannot be initialised the code frees the record
  and then reads its \<open>qData\<close> field to free the block.
\<close>

definition cs_queue_CreateQueue ::
  "bool \<Rightarrow> 'a option list option \<Rightarrow> Status_t \<Rightarrow> nat \<Rightarrow> 'a cs_QueueRecord_t option c_result" where
  "cs_queue_CreateQueue rec_ok blk lk MaxElements =
     (if MaxElements < MinQueueSize then Inr None
      else if \<not> rec_ok then Inr None
      else case blk of
             None \<Rightarrow> Inr None
           | Some d \<Rightarrow>
               if lk \<noteq> VSTATUS_OK then Inl UseAfterFree
               else Inr (Some (cs_queue_MakeEmpty
                      \<lparr>Capacity = int_of_u32 MaxElements, Size = 0, Front = 0, Rear = 0, qData = d\<rparr>)))"

definition Succ_q :: "int \<Rightarrow> int \<Rightarrow> int" where
  "Succ_q Value Cap = (if Value + 1 = Cap then 0 else Value + 1)"

definition cs_queue_Enqueue ::
  "Status_t \<Rightarrow> Status_t \<Rightarrow> 'a option \<Rightarrow> 'a cs_QueueRecord_t \<Rightarrow> Status_t \<times> 'a cs_QueueRecord_t" where
  "cs_queue_Enqueue lk ul X Q =
     (if lk \<noteq> VSTATUS_OK then (lk, Q)
      else if cs_queue_IsFull Q then (VSTATUS_BAD, Q)
      else let rear = Succ_q (Rear Q) (Capacity Q)
           in (ul, Q\<lparr>Size := Size Q + 1, Rear := rear, qData := (qData Q)[nat rear := X]\<rparr>))"

definition cs_queue_Front :: "Status_t \<Rightarrow> 'a cs_QueueRecord_t \<Rightarrow> 'a option" where
  "cs_queue_Front lk Q =
     (if lk \<noteq> VSTATUS_OK then None
      else if \<not> cs_queue_IsEmpty Q then qData Q ! nat (Front Q) else None)"

definition cs_queue_Dequeue :: "Status_t \<Rightarrow> 'a cs_QueueRecord_t \<Rightarrow> 'a cs_QueueRecord_t" where
  "cs_queue_Dequeue lk Q =
     (if lk \<noteq> VSTATUS_OK then Q
      else if \<not> cs_queue_IsEmpty Q
           then Q\<lparr>Size := Size Q - 1, Front := Succ_q (Front Q) (Capacity Q)\<rparr> else Q)"

definition cs_queue_FrontAndDequeue ::
  "Status_t \<Rightarrow> 'a cs_QueueRecord_t \<Rightarrow> 'a option \<times> 'a cs_QueueRecord_t" where
  "cs_queue_FrontAndDequeue lk Q =
     (if lk \<noteq> VSTATUS_OK then (None, Q)
      else if \<not> cs_queue_IsEmpty Q
           then (qData Q ! nat (Front Q),
                 Q\<lparr>Size := Size Q - 1, Front := Succ_q (Front Q) (Capacity Q)\<rparr>)
           else (None, Q))"

section \<open>The bounded FIFO interface\<close>

text \<open>
  A bounded FIFO: enqueueing at the rear fails exactly when the queue is full and then
  leaves it unchanged; the front element leaves first.
\<close>

datatype 'a fifo_op = Enq 'a | Deq

datatype 'a fifo_out = Enq_ok | Enq_full | Deq_some 'a | Deq_none

locale bounded_fifo =
  fixes enq :: "'a \<Rightarrow> 'q \<Rightarrow> bool \<times> 'q"
    and deq :: "'q \<Rightarrow> 'a option \<times> 'q"
    and cap :: "'q \<Rightarrow> nat"
    and inv :: "'q \<Rightarrow> bool"
    and contents :: "'q \<Rightarrow> 'a list"
  assumes enq_full: "inv q \<Longrightarrow> length (contents q) = cap q \<Longrightarrow> enq x q = (False, q)"
    and enq_room: "inv q \<Longrightarrow> length (contents q) < cap q \<Longrightarrow>
      fst (enq x q) \<and> contents (snd (enq x q)) = contents q @ [x]"
    and deq_empty: "inv q \<Longrightarrow> contents q = [] \<Longrightarrow> deq q = (None, q)"
    and deq_cons: "inv q \<Longrightarrow> contents q = x # xs \<Longrightarrow>
      fst (deq q) = Some x \<and> contents (snd (deq q)) = xs"
    and inv_enq: "inv q \<Longrightarrow> inv (snd (enq x q)) \<and> cap (snd (enq x q)) = cap q"
    and inv_deq: "inv q \<Longrightarrow> inv (snd (deq q)) \<and> cap (snd (deq q)) = cap q"
    and bounded: "inv q \<Longrightarrow> length (contents q) \<le> cap q"
begin

fun step :: "'a fifo_op \<Rightarrow> 'q \<Rightarrow> 'a fifo_out \<times> 'q" where
  "step (Enq x) q = (case enq x q of (ok, q') \<Rightarrow> (if ok then Enq_ok else Enq_full, q'))"
| "step Deq q = (case deq q of (r, q') \<Rightarrow> (case r of None \<Rightarrow> Deq_none | Some x \<Rightarrow> Deq_some x, q'))"

fun run :: "'a fifo_op list \<Rightarrow> 'q \<Rightarrow> 'a fifo_out list \<times> 'q" where
  "run [] q = ([], q)"
| "run (c # cs) q = (case step c q of (out, q') \<Rightarrow> (case run cs q' of (outs, q'') \<Rightarrow> (out # outs, q'')))"

end

text \<open>The specification: the same operations on a list with a capacity.\<close>

fun fifo_spec_step :: "nat \<Rightarrow> 'a fifo_op \<Rightarrow> 'a list \<Rightarrow> 'a fifo_out \<times> 'a list" where
  "fifo_spec_step n (Enq x) xs = (if length xs = n then (Enq_full, xs) else (Enq_ok, xs @ [x]))"
| "fifo_spec_step n Deq xs = (case xs of [] \<Rightarrow> (Deq_none, []) | x # ys \<Rightarrow> (Deq_some x, ys))"

fun fifo_spec_run :: "nat \<Rightarrow> 'a fifo_op list \<Rightarrow> 'a list \<Rightarrow> 'a fifo_out list \<times> 'a list" where
  "fifo_spec_run n [] xs = ([], xs)"
| "fifo_spec_run n (c # cs) xs =
     (case fifo_spec_step n c xs of (out, ys) \<Rightarrow>
       (case fifo_spec_run n cs ys of (outs, zs) \<Rightarrow> (out # outs, zs)))"

context bounded_fifo
begin

lemma step_refines:
  assumes "inv q"
  shows "inv (snd (step c q)) \<and> cap (snd (step c q)) = cap q \<and>
    fifo_spec_step (cap q) c (contents q) = (fst (step c q), contents (snd (step c q)))"
proof (cases c)
  case (Enq x)
  show ?thesis
  proof (cases "length (contents q) = cap q")
    case True
    then show ?thesis using Enq enq_full[OF assms True] assms by simp
  next
    case False
    with bounded[OF assms] have "length (contents q) < cap q" by simp
    then show ?thesis using Enq enq_room[OF assms, of x] inv_enq[OF assms, of x] False
      by (cases "enq x q") simp
  qed
next
  case Deq
  then show ?thesis
    using deq_empty[OF assms] deq_cons[OF assms] inv_deq[OF assms] assms
    by (cases "contents q") (auto split: prod.splits)
qed

theorem run_refines:
  "inv q \<Longrightarrow> inv (snd (run cs q)) \<and>
    fifo_spec_run (cap q) cs (contents q) = (fst (run cs q), contents (snd (run cs q)))"
proof (induction cs arbitrary: q)
  case (Cons c cs)
  show ?case using step_refines[OF Cons.prems, of c] Cons.IH[of "snd (step c q)"]
    by (cases "step c q"; cases "run cs (snd (step c q))") simp
qed simp

end

section \<open>The ring buffer implements it\<close>

definition cs_queue_inv :: "'a cs_QueueRecord_t \<Rightarrow> bool" where
  "cs_queue_inv Q \<longleftrightarrow> 0 < Capacity Q \<and> length (qData Q) = nat (Capacity Q) \<and>
     0 \<le> Size Q \<and> Size Q \<le> Capacity Q \<and> 0 \<le> Front Q \<and> Front Q < Capacity Q \<and>
     0 \<le> Rear Q \<and> Rear Q < Capacity Q \<and> (Rear Q + 1) mod Capacity Q = (Front Q + Size Q) mod Capacity Q"

definition cs_queue_list :: "'a cs_QueueRecord_t \<Rightarrow> 'a option list" where
  "cs_queue_list Q = map (\<lambda>k. qData Q ! nat ((Front Q + int k) mod Capacity Q)) [0..<nat (Size Q)]"

lemma Succ_q_mod: "0 \<le> v \<Longrightarrow> v < c \<Longrightarrow> Succ_q v c = (v + 1) mod c"
  by (auto simp: Succ_q_def)

lemma length_cs_queue_list [simp]: "length (cs_queue_list Q) = nat (Size Q)"
  by (simp add: cs_queue_list_def)

lemma ring_distinct:
  fixes f s c :: int
  assumes "0 \<le> k" "k < s" "s < c"
  shows "(f + k) mod c \<noteq> (f + s) mod c"
proof
  assume "(f + k) mod c = (f + s) mod c"
  then have "c dvd (f + k) - (f + s)" by (rule mod_eq_dvd_iff [THEN iffD1])
  then have "c dvd s - k" by (metis add_diff_cancel_left dvd_minus_iff minus_diff_eq)
  then show False using assms zdvd_not_zless[of "s - k" c] by simp
qed

lemma cs_queue_Enqueue_room:
  assumes "cs_queue_inv Q" "Size Q < Capacity Q" "Q' = snd (cs_queue_Enqueue VSTATUS_OK ul X Q)"
  shows "cs_queue_inv Q' \<and> cs_queue_list Q' = cs_queue_list Q @ [X] \<and> Capacity Q' = Capacity Q"
proof -
  let ?c = "Capacity Q" and ?s = "Size Q" and ?f = "Front Q"
  let ?r = "Succ_q (Rear Q) ?c"
  have inv: "0 < ?c" "length (qData Q) = nat ?c" "0 \<le> ?s" "0 \<le> ?f" "?f < ?c"
    "(Rear Q + 1) mod ?c = (?f + ?s) mod ?c" "0 \<le> Rear Q" "Rear Q < ?c"
    using assms(1) by (auto simp: cs_queue_inv_def)
  have r: "?r = (?f + ?s) mod ?c" using inv by (simp add: Succ_q_mod)
  have rng: "0 \<le> ?r" "?r < ?c" using inv r by simp_all
  have Q': "Q' = Q\<lparr>Size := ?s + 1, Rear := ?r, qData := (qData Q)[nat ?r := X]\<rparr>"
    using assms(2,3) by (simp add: cs_queue_Enqueue_def cs_queue_IsFull_def Let_def)
  have "(?r + 1) mod ?c = (?f + (?s + 1)) mod ?c" unfolding r by (simp add: mod_simps ac_simps)
  then have "cs_queue_inv Q'" using inv rng assms(2) by (simp add: Q' cs_queue_inv_def)
  moreover have "cs_queue_list Q' = cs_queue_list Q @ [X]"
  proof -
    have "[0..<nat (?s + 1)] = [0..<nat ?s] @ [nat ?s]" using inv(3) by (simp add: nat_add_distrib)
    moreover have "(qData Q)[nat ?r := X] ! nat ((?f + int k) mod ?c) = qData Q ! nat ((?f + int k) mod ?c)"
      if "k < nat ?s" for k
    proof -
      have "(?f + int k) mod ?c \<noteq> ?r" unfolding r using that assms(2) by (intro ring_distinct) auto
      then have "nat ((?f + int k) mod ?c) \<noteq> nat ?r" using inv(1) rng by (simp add: nat_eq_iff)
      then show ?thesis by simp
    qed
    ultimately show ?thesis using inv rng by (simp add: Q' cs_queue_list_def r [symmetric])
  qed
  ultimately show ?thesis by (simp add: Q')
qed

lemma cs_queue_FrontAndDequeue_cons:
  assumes "cs_queue_inv Q" "0 < Size Q"
  shows "cs_queue_list Q = fst (cs_queue_FrontAndDequeue VSTATUS_OK Q) #
      cs_queue_list (snd (cs_queue_FrontAndDequeue VSTATUS_OK Q)) \<and>
    cs_queue_inv (snd (cs_queue_FrontAndDequeue VSTATUS_OK Q)) \<and>
    Capacity (snd (cs_queue_FrontAndDequeue VSTATUS_OK Q)) = Capacity Q"
proof -
  let ?c = "Capacity Q" and ?s = "Size Q" and ?f = "Front Q"
  have inv: "0 < ?c" "0 \<le> ?f" "?f < ?c" using assms(1) by (auto simp: cs_queue_inv_def)
  let ?g = "Succ_q ?f ?c"
  have g: "?g = (?f + 1) mod ?c" using inv by (simp add: Succ_q_mod)
  have deq: "cs_queue_FrontAndDequeue VSTATUS_OK Q = (qData Q ! nat ?f, Q\<lparr>Size := ?s - 1, Front := ?g\<rparr>)"
    using assms(2) by (simp add: cs_queue_FrontAndDequeue_def cs_queue_IsEmpty_def)
  have "[0..<nat ?s] = 0 # map Suc [0..<nat (?s - 1)]"
    using assms(2) by (simp add: map_Suc_upt upt_conv_Cons nat_diff_distrib)
  moreover have "(?g + int k) mod ?c = (?f + int (Suc k)) mod ?c" for k
    unfolding g by (simp add: mod_simps ac_simps)
  ultimately have "cs_queue_list Q = qData Q ! nat ?f # cs_queue_list (Q\<lparr>Size := ?s - 1, Front := ?g\<rparr>)"
    using inv by (simp add: cs_queue_list_def comp_def)
  moreover have "cs_queue_inv (Q\<lparr>Size := ?s - 1, Front := ?g\<rparr>)"
    using assms inv g by (auto simp: cs_queue_inv_def mod_simps)
  ultimately show ?thesis by (simp add: deq)
qed

text \<open>
  The client view: \<open>cs_queue_Enqueue\<close> succeeds when it returns \<open>VSTATUS_OK\<close>, and the caller
  tests \<open>cs_queue_IsEmpty\<close> before it takes the front element. Locking succeeds.
\<close>

definition cs_queue_enq :: "'a option \<Rightarrow> 'a cs_QueueRecord_t \<Rightarrow> bool \<times> 'a cs_QueueRecord_t" where
  "cs_queue_enq X Q = (case cs_queue_Enqueue VSTATUS_OK VSTATUS_OK X Q of (s, Q') \<Rightarrow> (s = VSTATUS_OK, Q'))"

definition cs_queue_deq :: "'a cs_QueueRecord_t \<Rightarrow> 'a option option \<times> 'a cs_QueueRecord_t" where
  "cs_queue_deq Q = (if cs_queue_IsEmpty Q then (None, Q)
     else case cs_queue_FrontAndDequeue VSTATUS_OK Q of (X, Q') \<Rightarrow> (Some X, Q'))"

interpretation csq: bounded_fifo cs_queue_enq cs_queue_deq "\<lambda>Q. nat (Capacity Q)" cs_queue_inv cs_queue_list
proof unfold_locales
  fix Q :: "'a cs_QueueRecord_t" and X :: "'a option" and xs
  assume inv: "cs_queue_inv Q"
  then have rng: "0 \<le> Size Q" "Size Q \<le> Capacity Q" "0 < Capacity Q" by (auto simp: cs_queue_inv_def)
  have enq: "snd (cs_queue_enq X Q) = snd (cs_queue_Enqueue VSTATUS_OK VSTATUS_OK X Q)"
    by (simp add: cs_queue_enq_def split: prod.splits)
  show "length (cs_queue_list Q) \<le> nat (Capacity Q)" using rng by simp
  show "length (cs_queue_list Q) = nat (Capacity Q) \<Longrightarrow> cs_queue_enq X Q = (False, Q)"
    using rng by (simp add: cs_queue_enq_def cs_queue_Enqueue_def cs_queue_IsFull_def)
  show "length (cs_queue_list Q) < nat (Capacity Q) \<Longrightarrow>
      fst (cs_queue_enq X Q) \<and> cs_queue_list (snd (cs_queue_enq X Q)) = cs_queue_list Q @ [X]"
    using rng cs_queue_Enqueue_room[OF inv _ refl, of VSTATUS_OK X] enq
    by (simp add: cs_queue_enq_def cs_queue_Enqueue_def cs_queue_IsFull_def Let_def)
  show "cs_queue_inv (snd (cs_queue_enq X Q)) \<and> nat (Capacity (snd (cs_queue_enq X Q))) = nat (Capacity Q)"
    using rng inv cs_queue_Enqueue_room[OF inv _ refl, of VSTATUS_OK X] enq
    by (cases "Size Q = Capacity Q") (auto simp: cs_queue_enq_def cs_queue_Enqueue_def cs_queue_IsFull_def Let_def)
  show "cs_queue_list Q = [] \<Longrightarrow> cs_queue_deq Q = (None, Q)"
    using rng by (simp add: cs_queue_deq_def cs_queue_IsEmpty_def cs_queue_list_def)
  show "cs_queue_list Q = X # xs \<Longrightarrow>
      fst (cs_queue_deq Q) = Some X \<and> cs_queue_list (snd (cs_queue_deq Q)) = xs"
    using rng cs_queue_FrontAndDequeue_cons[OF inv]
    by (cases "Size Q = 0")
       (auto simp: cs_queue_deq_def cs_queue_IsEmpty_def cs_queue_list_def split: prod.splits)
  show "cs_queue_inv (snd (cs_queue_deq Q)) \<and> nat (Capacity (snd (cs_queue_deq Q))) = nat (Capacity Q)"
    using rng inv cs_queue_FrontAndDequeue_cons[OF inv]
    by (cases "Size Q = 0") (auto simp: cs_queue_deq_def cs_queue_IsEmpty_def split: prod.splits)
qed

section \<open>Properties\<close>

lemma cs_queue_create_inv:
  assumes "5 \<le> n" "n < 2 ^ 31" "length d = n"
  shows "\<exists>Q. cs_queue_CreateQueue True (Some d) VSTATUS_OK n = Inr (Some Q) \<and> cs_queue_inv Q \<and>
     cs_queue_list Q = [] \<and> Capacity Q = int n"
  using assms
  by (simp add: cs_queue_CreateQueue_def MinQueueSize_def cs_queue_MakeEmpty_def cs_queue_inv_def
      cs_queue_list_def c_int_simps)



text \<open>
  Error paths: a failed lock leaves the queue untouched and its status is returned; a full
  queue answers \<open>VSTATUS_BAD\<close> and is left unchanged whatever \<open>vs_unlock\<close> reports; otherwise the
  status of the unlock is returned and the element is in the queue.
\<close>

theorem cs_queue_Enqueue_status:
  assumes "cs_queue_inv Q"
  shows "cs_queue_Enqueue lk ul X Q =
    (if lk \<noteq> VSTATUS_OK then (lk, Q)
     else if length (cs_queue_list Q) = nat (Capacity Q) then (VSTATUS_BAD, Q)
     else (ul, snd (cs_queue_Enqueue VSTATUS_OK ul X Q))) \<and>
   (length (cs_queue_list Q) < nat (Capacity Q) \<longrightarrow>
     cs_queue_list (snd (cs_queue_Enqueue VSTATUS_OK ul X Q)) = cs_queue_list Q @ [X])"
proof -
  have "0 \<le> Size Q" "Size Q \<le> Capacity Q" using assms by (auto simp: cs_queue_inv_def)
  then show ?thesis
    using cs_queue_Enqueue_room[OF assms _ refl, of ul X]
    by (auto simp: cs_queue_Enqueue_def cs_queue_IsFull_def Let_def)
qed

theorem cs_queue_Enqueue_status_witness:
  "cs_queue_inv (cs_queue_MakeEmpty \<lparr>Capacity = 5, Size = 0, Front = 0, Rear = 0, qData = replicate 5 (None :: nat option)\<rparr>) \<and>
   fst (cs_queue_Enqueue VSTATUS_TIMEOUT VSTATUS_OK (Some (3::nat))
     (cs_queue_MakeEmpty \<lparr>Capacity = 5, Size = 0, Front = 0, Rear = 0, qData = replicate 5 None\<rparr>)) = VSTATUS_TIMEOUT"
proof -
  let ?Q = "cs_queue_MakeEmpty \<lparr>Capacity = 5, Size = 0, Front = 0, Rear = 0, qData = replicate 5 (None :: nat option)\<rparr>"
  have "cs_queue_inv ?Q" by (simp add: cs_queue_inv_def cs_queue_MakeEmpty_def)
  then show ?thesis using cs_queue_Enqueue_status[of ?Q VSTATUS_TIMEOUT VSTATUS_OK "Some 3"] by simp
qed

end
