(* ===== verification/CsHashtable.thy ===== *)
theory CsHashtable
  imports FM_Prelude
begin

text \<open>
  The chained hash table of \<^verbatim>\<open>Esm/ib/src/cs/cs_hashtable.c\<close>, which holds the subnet manager's SM
  records, the SA's service records and subscriptions and the job table. Entries live in a
  store \<open>ents\<close> indexed by their address, because an entry is shared by a hash chain and by
  the list of all entries; the \<open>hashNext\<close> chains are the lists of addresses in \<open>tbl\<close>, the
  \<open>listNext\<close> list from \<open>listHead\<close> to \<open>listTail\<close> is \<open>elist\<close> and the free list is \<open>efree\<close>.
  The two function pointers \<open>hashfn\<close> and \<open>eqfn\<close> are fields. Allocation is an argument: \<open>tbl_ok\<close>
  says whether the new table of an expansion can be allocated, \<open>fresh\<close> is the address of a
  new entry or \<open>None\<close> when \<open>malloc\<close> fails. Freeing keys and values is not modelled.
\<close>

section \<open>The data structure\<close>

record ('k, 'v) hash_entry =
  ek :: 'k
  ev :: 'v
  eh :: u64

record ('k, 'v) cs_hashtable =
  ents :: "nat \<Rightarrow> ('k, 'v) hash_entry"
  elist :: "nat list"
  efree :: "nat list"
  tablelength :: nat
  tbl :: "nat list list"
  entrycount :: nat
  loadlimit :: nat
  primeindex :: u32
  hashfn :: "'k \<Rightarrow> u64"
  eqfn :: "'k \<Rightarrow> 'k \<Rightarrow> bool"

definition primes :: "nat list" where
  "primes = [53, 97, 193, 389, 769, 1543, 3079, 6151, 12289, 24593, 49157, 98317, 196613, 393241,
     786433, 1572869, 3145739, 6291469, 12582917, 25165843, 50331653, 100663319, 201326611,
     402653189, 805306457, 1610612741]"

definition prime_table_length :: nat where
  "prime_table_length = length primes"

text \<open>\<open>indexFor\<close> takes its hash as \<open>uint32_t\<close>: the 64-bit hash is truncated by the call.\<close>

definition indexFor :: "nat \<Rightarrow> u64 \<Rightarrow> nat" where
  "indexFor n hashvalue = unat (ucast hashvalue :: u32) mod n"

definition hash_mix :: "u64 \<Rightarrow> u64" where
  "hash_mix i0 =
     (let i1 = i0 + NOT (push_bit 9 i0);
          i2 = i1 XOR (drop_bit 14 i1 OR push_bit 18 i1);
          i3 = i2 + push_bit 4 i2;
          i4 = i3 XOR (drop_bit 10 i3 OR push_bit 22 i3)
      in i4)"

definition h_hash :: "('k, 'v) cs_hashtable \<Rightarrow> 'k \<Rightarrow> u64" where
  "h_hash h k = hash_mix (hashfn h k)"

section \<open>Operations\<close>

text \<open>The rehash loop of \<open>cs_hashtable_expand\<close>: entries in list order, each pushed on its chain.\<close>

definition chain_push :: "nat \<Rightarrow> nat \<Rightarrow> nat list list \<Rightarrow> nat list list" where
  "chain_push i e t = t[i := e # t ! i]"

definition rehash :: "('k, 'v) cs_hashtable \<Rightarrow> nat \<Rightarrow> nat list \<Rightarrow> nat list list \<Rightarrow> nat list list" where
  "rehash h newsize es t = fold (\<lambda>e t. chain_push (indexFor newsize (eh (ents h e))) e t) es t"

definition cs_hashtable_expand :: "bool \<Rightarrow> ('k, 'v) cs_hashtable \<Rightarrow> bool \<times> ('k, 'v) cs_hashtable" where
  "cs_hashtable_expand tbl_ok h =
     (if unat (primeindex h) = prime_table_length - 1 then (False, h)
      else let newsize = primes ! unat (primeindex h + 1)
           in if \<not> tbl_ok then (False, h)
              else (True, h\<lparr>primeindex := primeindex h + 1,
                            tbl := rehash h newsize (elist h) (replicate newsize []),
                            tablelength := newsize,
                            loadlimit := newsize * 8 div 10\<rparr>))"

definition cs_create_hashtable ::
  "bool \<Rightarrow> bool \<Rightarrow> (nat \<Rightarrow> ('k, 'v) hash_entry) \<Rightarrow> nat \<Rightarrow> ('k \<Rightarrow> u64) \<Rightarrow> ('k \<Rightarrow> 'k \<Rightarrow> bool)
     \<Rightarrow> ('k, 'v) cs_hashtable option" where
  "cs_create_hashtable hdr_ok tbl_ok mem minsize hashf eqf =
     (if minsize > 2 ^ 30 then None
      else let pindex = length (takeWhile (\<lambda>p. \<not> p > minsize) primes)
           in if \<not> hdr_ok then None
              else case cs_hashtable_expand tbl_ok
                     \<lparr>ents = mem, elist = [], efree = [], tablelength = 0, tbl = [], entrycount = 0,
                      loadlimit = 0, primeindex = of_nat pindex - 1, hashfn = hashf, eqfn = eqf\<rparr> of
                   (True, h) \<Rightarrow> Some h | (False, _) \<Rightarrow> None)"

text \<open>
  \<open>cs_hashtable_insert\<close> counts the entry and grows the table if needed, then takes an entry
  from the free list or the allocator and links it; on allocation failure it only takes
  the count back.
\<close>

definition insert_grow :: "bool \<Rightarrow> ('k, 'v) cs_hashtable \<Rightarrow> ('k, 'v) cs_hashtable" where
  "insert_grow tbl_ok h =
     (let h1 = h\<lparr>entrycount := entrycount h + 1\<rparr>
      in if entrycount h1 > loadlimit h1 then snd (cs_hashtable_expand tbl_ok h1) else h1)"

definition insert_link ::
  "nat option \<Rightarrow> 'k \<Rightarrow> 'v \<Rightarrow> ('k, 'v) cs_hashtable \<Rightarrow> bool \<times> ('k, 'v) cs_hashtable" where
  "insert_link fresh k v h =
     (case (case efree h of [] \<Rightarrow> map_option (\<lambda>e. (e, [])) fresh | e # fs \<Rightarrow> Some (e, fs)) of
        None \<Rightarrow> (False, h\<lparr>entrycount := entrycount h - 1\<rparr>)
      | Some (e, fs) \<Rightarrow>
          let hv = h_hash h k
          in (True, h\<lparr>efree := fs,
                      ents := (ents h)(e := \<lparr>ek = k, ev = v, eh = hv\<rparr>),
                      tbl := chain_push (indexFor (tablelength h) hv) e (tbl h),
                      elist := elist h @ [e]\<rparr>))"

definition cs_hashtable_insert ::
  "bool \<Rightarrow> nat option \<Rightarrow> 'k \<Rightarrow> 'v \<Rightarrow> ('k, 'v) cs_hashtable \<Rightarrow> bool \<times> ('k, 'v) cs_hashtable" where
  "cs_hashtable_insert tbl_ok fresh k v h = insert_link fresh k v (insert_grow tbl_ok h)"

definition entry_matches :: "('k, 'v) cs_hashtable \<Rightarrow> 'k \<Rightarrow> nat \<Rightarrow> bool" where
  "entry_matches h k e = (h_hash h k = eh (ents h e) \<and> eqfn h k (ek (ents h e)))"

text \<open>The chain walk shared by search, change, remove and the iterator search.\<close>

definition chain_find :: "('k, 'v) cs_hashtable \<Rightarrow> 'k \<Rightarrow> nat option" where
  "chain_find h k = List.find (entry_matches h k) (tbl h ! indexFor (tablelength h) (h_hash h k))"

definition cs_hashtable_search :: "('k, 'v) cs_hashtable \<Rightarrow> 'k \<Rightarrow> 'v option" where
  "cs_hashtable_search h k = map_option (\<lambda>e. ev (ents h e)) (chain_find h k)"

definition cs_hashentry_delete :: "nat \<Rightarrow> ('k, 'v) cs_hashtable \<Rightarrow> ('k, 'v) cs_hashtable" where
  "cs_hashentry_delete e h =
     h\<lparr>entrycount := entrycount h - 1, elist := remove1 e (elist h), efree := e # efree h\<rparr>"

definition chain_unlink :: "nat \<Rightarrow> nat \<Rightarrow> ('k, 'v) cs_hashtable \<Rightarrow> ('k, 'v) cs_hashtable" where
  "chain_unlink i e h = h\<lparr>tbl := (tbl h)[i := remove1 e (tbl h ! i)]\<rparr>"

definition cs_hashtable_remove :: "'k \<Rightarrow> ('k, 'v) cs_hashtable \<Rightarrow> 'v option \<times> ('k, 'v) cs_hashtable" where
  "cs_hashtable_remove k h =
     (case chain_find h k of
        None \<Rightarrow> (None, h)
      | Some e \<Rightarrow> (Some (ev (ents h e)),
           cs_hashentry_delete e (chain_unlink (indexFor (tablelength h) (h_hash h k)) e h)))"

definition cs_hashtable_change :: "'k \<Rightarrow> 'v \<Rightarrow> ('k, 'v) cs_hashtable \<Rightarrow> bool \<times> ('k, 'v) cs_hashtable" where
  "cs_hashtable_change k v h =
     (case chain_find h k of
        None \<Rightarrow> (False, h)
      | Some e \<Rightarrow> (True, h\<lparr>ents := (ents h)(e := (ents h e)\<lparr>ev := v\<rparr>)\<rparr>))"

definition cs_hashtable_count :: "('k, 'v) cs_hashtable \<Rightarrow> nat" where
  "cs_hashtable_count h = entrycount h"

text \<open>
  Iterators: the position is an entry address, \<open>None\<close> at the end. \<open>listNext\<close> of an entry is
  the address after it in \<open>elist\<close>.
\<close>

fun list_next :: "nat list \<Rightarrow> nat \<Rightarrow> nat option" where
  "list_next [] e = None"
| "list_next (x # xs) e = (if x = e then (case xs of [] \<Rightarrow> None | y # _ \<Rightarrow> Some y) else list_next xs e)"

definition cs_hashtable_iterator :: "('k, 'v) cs_hashtable \<Rightarrow> nat option" where
  "cs_hashtable_iterator h = (case elist h of [] \<Rightarrow> None | e # _ \<Rightarrow> Some e)"

definition cs_hashtable_iterator_key :: "('k, 'v) cs_hashtable \<Rightarrow> nat \<Rightarrow> 'k" where
  "cs_hashtable_iterator_key h e = ek (ents h e)"

definition cs_hashtable_iterator_value :: "('k, 'v) cs_hashtable \<Rightarrow> nat \<Rightarrow> 'v" where
  "cs_hashtable_iterator_value h e = ev (ents h e)"

definition cs_hashtable_iterator_advance :: "('k, 'v) cs_hashtable \<Rightarrow> nat option \<Rightarrow> bool \<times> nat option" where
  "cs_hashtable_iterator_advance h itr =
     (case itr of None \<Rightarrow> (False, None)
      | Some e \<Rightarrow> (case list_next (elist h) e of None \<Rightarrow> (False, None) | Some e' \<Rightarrow> (True, Some e')))"

definition cs_hashtable_iterator_remove ::
  "('k, 'v) cs_hashtable \<Rightarrow> nat \<Rightarrow> bool \<times> nat option \<times> ('k, 'v) cs_hashtable" where
  "cs_hashtable_iterator_remove h e =
     (case cs_hashtable_iterator_advance h (Some e) of
        (ret, itr) \<Rightarrow>
          let i = indexFor (tablelength h) (h_hash h (ek (ents h e)))
          in (ret, itr, if e \<in> set (tbl h ! i) then cs_hashentry_delete e (chain_unlink i e h) else h))"

definition cs_hashtable_iterator_search :: "('k, 'v) cs_hashtable \<Rightarrow> 'k \<Rightarrow> bool \<times> nat option" where
  "cs_hashtable_iterator_search h k =
     (case chain_find h k of Some e \<Rightarrow> (True, Some e) | None \<Rightarrow> (False, None))"

section \<open>Invariant and abstraction\<close>

text \<open>
  Every chain holds, newest first, exactly the listed entries that hash to its index. The
  abstraction is the association list of keys and values, newest first.
\<close>

definition ht_core :: "('k, 'v) cs_hashtable \<Rightarrow> bool" where
  "ht_core h \<longleftrightarrow> 0 < tablelength h \<and> length (tbl h) = tablelength h \<and>
     (\<forall>i < tablelength h. tbl h ! i =
        filter (\<lambda>e. indexFor (tablelength h) (eh (ents h e)) = i) (rev (elist h))) \<and>
     (\<forall>e \<in> set (elist h). eh (ents h e) = h_hash h (ek (ents h e))) \<and>
     distinct (elist h @ efree h) \<and> unat (primeindex h) < prime_table_length"

definition ht_inv :: "('k, 'v) cs_hashtable \<Rightarrow> bool" where
  "ht_inv h \<longleftrightarrow> ht_core h \<and> entrycount h = length (elist h)"

definition ht_assoc :: "('k, 'v) cs_hashtable \<Rightarrow> ('k \<times> 'v) list" where
  "ht_assoc h = map (\<lambda>e. (ek (ents h e), ev (ents h e))) (rev (elist h))"

definition ht_fun_ok :: "('k, 'v) cs_hashtable \<Rightarrow> bool" where
  "ht_fun_ok h \<longleftrightarrow> (\<forall>a b. eqfn h a b \<longrightarrow> hashfn h a = hashfn h b)"

definition assoc_find :: "('k \<Rightarrow> 'k \<Rightarrow> bool) \<Rightarrow> ('k \<times> 'v) list \<Rightarrow> 'k \<Rightarrow> 'v option" where
  "assoc_find eq al k = map_option snd (List.find (\<lambda>(k', v). eq k k') al)"

lemma ht_coreD:
  assumes "ht_core h"
  shows "0 < tablelength h" "length (tbl h) = tablelength h"
    "i < tablelength h \<Longrightarrow> tbl h ! i = filter (\<lambda>e. indexFor (tablelength h) (eh (ents h e)) = i) (rev (elist h))"
    "e \<in> set (elist h) \<Longrightarrow> eh (ents h e) = h_hash h (ek (ents h e))"
    "distinct (elist h @ efree h)" "unat (primeindex h) < prime_table_length"
  using assms by (auto simp: ht_core_def)

lemma indexFor_less [simp]: "0 < n \<Longrightarrow> indexFor n x < n"
  by (simp add: indexFor_def)

lemma primes_pos: "i < prime_table_length \<Longrightarrow> 0 < primes ! i"
proof -
  have "list_all (\<lambda>p. 0 < p) primes" by (simp add: primes_def)
  then show "i < prime_table_length \<Longrightarrow> 0 < primes ! i"
    by (simp add: prime_table_length_def list_all_length)
qed

lemma rehash_nth:
  assumes "0 < n" "length t = n" "i < n"
  shows "rehash h n es t ! i = rev (filter (\<lambda>e. indexFor n (eh (ents h e)) = i) es) @ t ! i \<and>
    length (rehash h n es t) = n"
  using assms(2)
proof (induction es arbitrary: t)
  case (Cons e es)
  then show ?case
    using assms Cons.IH[of "chain_push (indexFor n (eh (ents h e))) e t"]
    by (auto simp: rehash_def chain_push_def nth_list_update)
qed (simp add: rehash_def)

text \<open>An expansion, successful or not, keeps the listed entries and the invariant.\<close>

lemma expand_frame:
  "ents (snd (cs_hashtable_expand ok h)) = ents h" "elist (snd (cs_hashtable_expand ok h)) = elist h"
  "efree (snd (cs_hashtable_expand ok h)) = efree h" "hashfn (snd (cs_hashtable_expand ok h)) = hashfn h"
  "eqfn (snd (cs_hashtable_expand ok h)) = eqfn h"
  "entrycount (snd (cs_hashtable_expand ok h)) = entrycount h"
  by (simp_all add: cs_hashtable_expand_def Let_def)

lemma h_hash_cong: "hashfn h = hashfn h' \<Longrightarrow> h_hash h = h_hash h'"
  by (auto simp: h_hash_def)

lemma expand_core:
  assumes e: "\<forall>e \<in> set (elist h). eh (ents h e) = h_hash h (ek (ents h e))"
    and d: "distinct (elist h @ efree h)"
    and p: "primeindex h + 1 = 0 \<or> unat (primeindex h) < prime_table_length"
    and ok: "fst (cs_hashtable_expand tbl_ok h)"
  shows "ht_core (snd (cs_hashtable_expand tbl_ok h))"
proof -
  have len: "prime_table_length = 26" by (simp add: prime_table_length_def primes_def)
  have ne: "unat (primeindex h) \<noteq> prime_table_length - 1" and t: "tbl_ok"
    using ok by (auto simp: cs_hashtable_expand_def Let_def split: if_splits)
  have "unat (primeindex h + 1) < prime_table_length"
  proof (cases "primeindex h + 1 = 0")
    case False
    then have "unat (primeindex h + 1) = Suc (unat (primeindex h))"
      using unatSuc[of "primeindex h"] by (simp add: add.commute)
    with False p ne len show ?thesis by simp
  qed (simp add: len)
  then show ?thesis
    using ne t e d primes_pos[of "unat (primeindex h + 1)"]
      rehash_nth[of "primes ! unat (primeindex h + 1)" "replicate (primes ! unat (primeindex h + 1)) []" _ h "elist h"]
    by (auto simp: cs_hashtable_expand_def Let_def ht_core_def rev_filter h_hash_def)
qed

lemma expand_keeps_core: "ht_core h \<Longrightarrow> ht_core (snd (cs_hashtable_expand tbl_ok h))"
proof (cases "fst (cs_hashtable_expand tbl_ok h)")
  case False
  then have "snd (cs_hashtable_expand tbl_ok h) = h"
    by (auto simp: cs_hashtable_expand_def Let_def split: if_splits)
  then show "ht_core h \<Longrightarrow> ?thesis" by simp
next
  case True
  assume "ht_core h"
  then show ?thesis using ht_coreD(4,5,6)[of h] True by (intro expand_core) simp_all
qed

lemma ht_assoc_cong: "ents h = ents h' \<Longrightarrow> elist h = elist h' \<Longrightarrow> ht_assoc h = ht_assoc h'"
  by (simp add: ht_assoc_def)

section \<open>Search agrees with the association list\<close>

lemma find_filter: "(\<And>x. x \<in> set xs \<Longrightarrow> P x \<Longrightarrow> Q x) \<Longrightarrow> List.find P (filter Q xs) = List.find P xs"
  by (induction xs) auto

lemma chain_find_list:
  assumes "ht_core h" "ht_fun_ok h"
  shows "chain_find h k = List.find (\<lambda>e. eqfn h k (ek (ents h e))) (rev (elist h))"
proof -
  let ?i = "indexFor (tablelength h) (h_hash h k)"
  have "tbl h ! ?i = filter (\<lambda>e. indexFor (tablelength h) (eh (ents h e)) = ?i) (rev (elist h))"
    using ht_coreD(1,3)[OF assms(1)] by simp
  then have "chain_find h k = List.find (entry_matches h k) (rev (elist h))"
    unfolding chain_find_def by (metis (mono_tags, lifting) entry_matches_def find_filter)
  also have "\<dots> = List.find (\<lambda>e. eqfn h k (ek (ents h e))) (rev (elist h))"
    using assms ht_coreD(4)[OF assms(1)]
    by (intro find_cong) (auto simp: entry_matches_def ht_fun_ok_def h_hash_def)
  finally show ?thesis .
qed

lemma find_map: "List.find P (map f xs) = map_option f (List.find (P \<circ> f) xs)"
  by (induction xs) auto

lemma search_assoc:
  assumes "ht_core h" "ht_fun_ok h"
  shows "cs_hashtable_search h k = assoc_find (eqfn h) (ht_assoc h) k"
  by (simp add: cs_hashtable_search_def chain_find_list[OF assms] assoc_find_def ht_assoc_def find_map
      comp_def option.map_comp)

section \<open>Insertion, removal and change on the association list\<close>

lemma core_insert:
  assumes core: "ht_core h" and e: "e \<notin> set (elist h)" "e \<notin> set fs" "distinct fs" "set fs \<inter> set (elist h) = {}"
    and h': "h' = h\<lparr>efree := fs, ents := (ents h)(e := \<lparr>ek = k, ev = v, eh = h_hash h k\<rparr>),
        tbl := chain_push (indexFor (tablelength h) (h_hash h k)) e (tbl h), elist := elist h @ [e]\<rparr>"
  shows "ht_core h' \<and> ht_assoc h' = (k, v) # ht_assoc h"
proof -
  let ?n = "tablelength h" and ?ents = "(ents h)(e := \<lparr>ek = k, ev = v, eh = h_hash h k\<rparr>)"
  note c = ht_coreD[OF core]
  have old: "filter (\<lambda>x. indexFor ?n (eh (?ents x)) = i) (rev (elist h)) =
      filter (\<lambda>x. indexFor ?n (eh (ents h x)) = i) (rev (elist h))" for i
    using e(1) by (intro filter_cong) auto
  have "chain_push (indexFor ?n (h_hash h k)) e (tbl h) ! i =
      filter (\<lambda>x. indexFor ?n (eh (?ents x)) = i) (rev (elist h @ [e]))" if "i < ?n" for i
    using that c(1,2) c(3)[OF that] by (auto simp: chain_push_def nth_list_update old fun_upd_same simp del: fun_upd_apply)
  moreover have "h_hash h' = h_hash h" by (rule h_hash_cong) (simp add: h')
  moreover have "distinct ((elist h @ [e]) @ fs)" using c(5) e by auto
  ultimately have "ht_core h'"
    using c(1,2,4,6) e(1) by (auto simp: ht_core_def h' chain_push_def)
  moreover have "ht_assoc h' = (k, v) # ht_assoc h"
    using e(1) by (auto simp: ht_assoc_def h' intro!: map_cong)
  ultimately show ?thesis by blast
qed

definition fresh_ok :: "nat option \<Rightarrow> ('k, 'v) cs_hashtable \<Rightarrow> bool" where
  "fresh_ok fresh h = (case fresh of None \<Rightarrow> True | Some e \<Rightarrow> e \<notin> set (elist h @ efree h))"

lemma insert_result:
  assumes inv: "ht_inv h" and f: "fresh_ok fresh h"
    and res: "cs_hashtable_insert tbl_ok fresh k v h = (ok, h')"
  shows "ht_inv h' \<and> hashfn h' = hashfn h \<and> eqfn h' = eqfn h \<and>
    ht_assoc h' = (if ok then (k, v) # ht_assoc h else ht_assoc h) \<and>
    (ok \<longleftrightarrow> efree h \<noteq> [] \<or> fresh \<noteq> None)"
proof -
  define g where "g = insert_grow tbl_ok h"
  have link: "insert_link fresh k v g = (ok, h')" using res by (simp add: g_def cs_hashtable_insert_def)
  have "ht_core (h\<lparr>entrycount := entrycount h + 1\<rparr>)"
    using inv by (auto simp: ht_inv_def ht_core_def h_hash_def)
  then have core: "ht_core g" by (simp add: g_def insert_grow_def Let_def expand_keeps_core)
  have frame: "ents g = ents h" "elist g = elist h" "efree g = efree h" "hashfn g = hashfn h"
    "eqfn g = eqfn h" "entrycount g = length (elist h) + 1"
    using inv by (auto simp: g_def insert_grow_def Let_def expand_frame ht_inv_def)
  let ?pick = "case efree h of [] \<Rightarrow> map_option (\<lambda>e. (e, [])) fresh | e # fs \<Rightarrow> Some (e, fs)"
  show ?thesis
  proof (cases ?pick)
    case None
    then have "ok = False" "h' = g\<lparr>entrycount := entrycount g - 1\<rparr>"
      using link by (simp_all add: insert_link_def frame)
    moreover have "efree h = [] \<and> fresh = None" using None by (auto split: list.splits)
    ultimately show ?thesis
      using core frame by (auto simp: ht_inv_def ht_core_def h_hash_def ht_assoc_def)
  next
    case (Some p)
    obtain e fs where p: "p = (e, fs)" by force
    have d: "distinct (elist h @ efree h)" using inv ht_coreD(5)[of h] by (simp add: ht_inv_def)
    have e: "e \<notin> set (elist h)" "e \<notin> set fs" "distinct fs" "set fs \<inter> set (elist h) = {}"
      using Some p d f by (auto simp: fresh_ok_def split: list.splits)
    let ?hv = "h_hash g k"
    have ok: "ok = True" and h': "h' = g\<lparr>efree := fs, ents := (ents g)(e := \<lparr>ek = k, ev = v, eh = ?hv\<rparr>),
        tbl := chain_push (indexFor (tablelength g) ?hv) e (tbl g), elist := elist g @ [e]\<rparr>"
      using link Some p by (simp_all add: insert_link_def frame Let_def)
    have "ht_core h' \<and> ht_assoc h' = (k, v) # ht_assoc g"
      using core_insert[OF core _ _ _ _ h'] e frame by simp
    moreover have "efree h \<noteq> [] \<or> fresh \<noteq> None" using Some by (auto split: list.splits)
    moreover have "ht_assoc g = ht_assoc h" using frame by (intro ht_assoc_cong)
    moreover have "entrycount h' = length (elist h')" using frame by (simp add: h')
    ultimately show ?thesis using ok frame by (simp add: ht_inv_def h')
  qed
qed

lemma in_set_remove1D: "x \<in> set (remove1 e xs) \<Longrightarrow> x \<in> set xs"
  using set_remove1_subset[of e xs] by blast

text \<open>Unlinking a listed entry from its chain and from the list.\<close>

lemma remove1_filter: "distinct xs \<Longrightarrow> remove1 e (filter P xs) = filter P (remove1 e xs)"
  by (simp add: distinct_remove1_removeAll removeAll_filter_not_eq conj_commute)

lemma remove1_rev: "distinct xs \<Longrightarrow> remove1 e (rev xs) = rev (remove1 e xs)"
  by (simp add: distinct_remove1_removeAll removeAll_filter_not_eq rev_filter)

lemma core_delete:
  assumes core: "ht_core h" and e: "e \<in> set (elist h)"
    and i: "i = indexFor (tablelength h) (eh (ents h e))"
    and h': "h' = cs_hashentry_delete e (chain_unlink i e h)"
  shows "ht_core h' \<and> elist h' = remove1 e (elist h) \<and> ents h' = ents h"
proof -
  note c = ht_coreD[OF core]
  have d: "distinct (rev (elist h))" using c(5) by simp
  have i': "i < tablelength h" using c(1) i by simp
  have "tbl h' ! j = filter (\<lambda>x. indexFor (tablelength h) (eh (ents h x)) = j) (rev (remove1 e (elist h)))"
    if j: "j < tablelength h" for j
  proof (cases "j = i")
    case True
    then show ?thesis
      using c(2) c(3)[OF i'] i' d by (simp add: h' cs_hashentry_delete_def chain_unlink_def remove1_filter remove1_rev)
  next
    case False
    have "filter P (remove1 e xs) = filter P xs" if "\<not> P e" for P and xs :: "nat list"
      using that by (induction xs) auto
    then have "filter (\<lambda>x. indexFor (tablelength h) (eh (ents h x)) = j) (remove1 e (elist h)) =
       filter (\<lambda>x. indexFor (tablelength h) (eh (ents h x)) = j) (elist h)" using False i by simp
    then show ?thesis
      using c(3)[OF j] False by (simp add: h' cs_hashentry_delete_def chain_unlink_def rev_filter [symmetric])
  qed
  moreover have "distinct (remove1 e (elist h) @ e # efree h)" using c(5) e by (auto dest: in_set_remove1D)
  ultimately have "ht_core h'"
    using c(1,2,4,6)
    by (auto simp: ht_core_def h' cs_hashentry_delete_def chain_unlink_def h_hash_def
        dest: in_set_remove1D)
  then show ?thesis by (simp add: h' cs_hashentry_delete_def chain_unlink_def)
qed

lemma core_delete_inv:
  assumes "ht_inv h" "e \<in> set (elist h)" "i = indexFor (tablelength h) (eh (ents h e))"
    and h': "h' = cs_hashentry_delete e (chain_unlink i e h)"
  shows "ht_inv h' \<and> hashfn h' = hashfn h \<and> eqfn h' = eqfn h \<and> elist h' = remove1 e (elist h) \<and> ents h' = ents h"
  using core_delete[OF _ assms(2-4)] assms(1,2)
  by (simp add: ht_inv_def h' cs_hashentry_delete_def chain_unlink_def length_remove1)

lemma find_SomeD: "List.find P xs = Some x \<Longrightarrow> x \<in> set xs \<and> P x"
  by (auto simp: find_Some_iff)

lemma chain_find_entry:
  assumes "ht_inv h" "ht_fun_ok h" "chain_find h k = Some e"
  shows "e \<in> set (elist h)" "eqfn h k (ek (ents h e))" "h_hash h k = eh (ents h e)"
proof -
  have core: "ht_core h" using assms(1) by (simp add: ht_inv_def)
  then have "List.find (\<lambda>e. eqfn h k (ek (ents h e))) (rev (elist h)) = Some e"
    using chain_find_list assms(2,3) by metis
  then show "e \<in> set (elist h)" "eqfn h k (ek (ents h e))" by (auto dest: find_SomeD)
  show "h_hash h k = eh (ents h e)"
    using assms(3) by (auto simp: chain_find_def entry_matches_def dest: find_SomeD)
qed

text \<open>Removing the newest matching pair from the association list.\<close>

fun assoc_remove :: "('k \<Rightarrow> 'k \<Rightarrow> bool) \<Rightarrow> 'k \<Rightarrow> ('k \<times> 'v) list \<Rightarrow> ('k \<times> 'v) list" where
  "assoc_remove eq k [] = []"
| "assoc_remove eq k ((k', v) # al) = (if eq k k' then al else (k', v) # assoc_remove eq k al)"

lemma assoc_remove_map:
  "distinct xs \<Longrightarrow> List.find (\<lambda>e. eq k (f e)) xs = Some e \<Longrightarrow>
   assoc_remove eq k (map (\<lambda>e. (f e, g e)) xs) = map (\<lambda>e. (f e, g e)) (remove1 e xs)"
  by (induction xs) (auto split: if_splits dest: find_SomeD)

lemma assoc_remove_none:
  "List.find (\<lambda>e. eq k (f e)) xs = None \<Longrightarrow>
   assoc_remove eq k (map (\<lambda>e. (f e, g e)) xs) = map (\<lambda>e. (f e, g e)) xs"
  by (induction xs) (auto split: if_splits)

lemma remove_result:
  assumes inv: "ht_inv h" and f: "ht_fun_ok h" and res: "cs_hashtable_remove k h = (r, h')"
  shows "ht_inv h' \<and> hashfn h' = hashfn h \<and> eqfn h' = eqfn h \<and>
    r = cs_hashtable_search h k \<and> ht_assoc h' = assoc_remove (eqfn h) k (ht_assoc h)"
proof (cases "chain_find h k")
  case None
  have "List.find (\<lambda>e. eqfn h k (ek (ents h e))) (rev (elist h)) = None"
    using chain_find_list[of h k] inv f None by (simp add: ht_inv_def)
  then show ?thesis
    using None res inv by (simp add: cs_hashtable_remove_def cs_hashtable_search_def ht_assoc_def assoc_remove_none)
next
  case (Some e)
  note e = chain_find_entry[OF inv f Some]
  have h': "h' = cs_hashentry_delete e (chain_unlink (indexFor (tablelength h) (h_hash h k)) e h)"
    and r: "r = cs_hashtable_search h k"
    using res Some by (simp_all add: cs_hashtable_remove_def cs_hashtable_search_def)
  note del = core_delete_inv[OF inv e(1) _ h', unfolded e(3), OF refl]
  have d: "distinct (rev (elist h))" using inv ht_coreD(5)[of h] by (simp add: ht_inv_def)
  have "List.find (\<lambda>e. eqfn h k (ek (ents h e))) (rev (elist h)) = Some e"
    using chain_find_list[of h k] inv f Some by (simp add: ht_inv_def)
  then have "ht_assoc h' = assoc_remove (eqfn h) k (ht_assoc h)"
    using assoc_remove_map[OF d, of "eqfn h" k "\<lambda>e. ek (ents h e)" e "\<lambda>e. ev (ents h e)"] del d
    by (simp add: ht_assoc_def remove1_rev)
  then show ?thesis using del r by simp
qed

section \<open>The keyed-table interface\<close>

text \<open>
  What the users of the table rely on: as long as a key is only inserted when it is not
  present (the header asks for this), the table is a finite map up to the key equality.
\<close>

locale keyed_table =
  fixes ins :: "'k \<Rightarrow> 'v \<Rightarrow> 't \<Rightarrow> 't"
    and del :: "'k \<Rightarrow> 't \<Rightarrow> 't"
    and look :: "'t \<Rightarrow> 'k \<Rightarrow> 'v option"
    and keq :: "'t \<Rightarrow> 'k \<Rightarrow> 'k \<Rightarrow> bool"
    and inv :: "'t \<Rightarrow> bool"
  assumes look_ins: "inv t \<Longrightarrow> look t k = None \<Longrightarrow> look (ins k v t) k' = (if keq t k' k then Some v else look t k')"
    and look_del: "inv t \<Longrightarrow> look (del k t) k' = (if keq t k' k then None else look t k')"
    and keq_ins: "inv t \<Longrightarrow> keq (ins k v t) = keq t"
    and keq_del: "inv t \<Longrightarrow> keq (del k t) = keq t"
    and inv_ins: "inv t \<Longrightarrow> look t k = None \<Longrightarrow> inv (ins k v t)"
    and inv_del: "inv t \<Longrightarrow> inv (del k t)"
    and keq_refl: "inv t \<Longrightarrow> keq t k k"
    and keq_sym: "inv t \<Longrightarrow> keq t a b \<Longrightarrow> keq t b a"
begin

text \<open>Replacing a value the way the clients do it: remove, then insert.\<close>

definition put :: "'k \<Rightarrow> 'v \<Rightarrow> 't \<Rightarrow> 't" where
  "put k v t = ins k v (del k t)"

lemma look_after_del: "inv t \<Longrightarrow> look (del k t) k = None"
  by (simp add: look_del keq_refl)

lemma look_put: "inv t \<Longrightarrow> look (put k v t) k' = (if keq t k' k then Some v else look t k')"
  unfolding put_def by (simp add: look_ins inv_del look_after_del keq_del look_del)

lemma inv_put: "inv t \<Longrightarrow> inv (put k v t)"
  unfolding put_def by (simp add: inv_ins inv_del look_after_del)

lemma keq_put: "inv t \<Longrightarrow> keq (put k v t) = keq t"
  unfolding put_def by (simp add: keq_ins inv_del keq_del)

lemma look_put_all:
  "inv t \<Longrightarrow> look (fold (\<lambda>(k, v) t. put k v t) kvs t) k' =
     (case List.find (\<lambda>(k, v). keq t k' k) (rev kvs) of Some (k, v) \<Rightarrow> Some v | None \<Rightarrow> look t k')"
proof (induction kvs arbitrary: t)
  case (Cons kv kvs)
  obtain k v where kv: "kv = (k, v)" by force
  have "look (fold (\<lambda>(k, v) t. put k v t) kvs (put k v t)) k' =
     (case List.find (\<lambda>(k, v). keq t k' k) (rev kvs) of Some (k, v) \<Rightarrow> Some v | None \<Rightarrow> look (put k v t) k')"
    using Cons.IH[of "put k v t"] Cons.prems by (simp add: inv_put keq_put)
  moreover have "List.find P (xs @ ys) = (case List.find P xs of None \<Rightarrow> List.find P ys | Some x \<Rightarrow> Some x)"
    for P and xs ys :: "('k \<times> 'v) list" by (induction xs) auto
  ultimately show ?case using Cons.prems by (auto simp: kv look_put split: option.splits)
qed simp

end

definition fresh_id :: "('k, 'v) cs_hashtable \<Rightarrow> nat" where
  "fresh_id h = Suc (fold max (elist h @ efree h) 0)"

definition ht_ins :: "'k \<Rightarrow> 'v \<Rightarrow> ('k, 'v) cs_hashtable \<Rightarrow> ('k, 'v) cs_hashtable" where
  "ht_ins k v h = snd (cs_hashtable_insert True (Some (fresh_id h)) k v h)"

definition ht_del :: "'k \<Rightarrow> ('k, 'v) cs_hashtable \<Rightarrow> ('k, 'v) cs_hashtable" where
  "ht_del k h = snd (cs_hashtable_remove k h)"

text \<open>Clients use an equivalence as \<open>eqfn\<close> that the hash respects, and no duplicate keys.\<close>

definition ht_client_inv :: "('k, 'v) cs_hashtable \<Rightarrow> bool" where
  "ht_client_inv h \<longleftrightarrow> ht_inv h \<and> ht_fun_ok h \<and> equivp (eqfn h) \<and>
     sorted_wrt (\<lambda>p q. \<not> eqfn h (fst p) (fst q)) (ht_assoc h)"

lemma fold_max_ge: "(x::nat) \<in> set xs \<or> x \<le> a \<Longrightarrow> x \<le> fold max xs a"
proof (induction xs arbitrary: a)
  case (Cons y ys)
  then have "x \<in> set ys \<or> x \<le> max y a" by auto
  then show ?case using Cons.IH[of "max y a"] by simp
qed simp

lemma fresh_id_ok: "fresh_ok (Some (fresh_id h)) h"
proof -
  have "x \<noteq> fresh_id h" if "x \<in> set (elist h @ efree h)" for x
    using fold_max_ge[of x "elist h @ efree h" 0] that unfolding fresh_id_def by linarith
  then show ?thesis unfolding fresh_ok_def by auto
qed

lemma assoc_find_None: "assoc_find eq al k = None \<longleftrightarrow> (\<forall>p \<in> set al. \<not> eq k (fst p))"
  by (auto simp: assoc_find_def find_None_iff split: prod.splits)

lemma assoc_find_Cons: "assoc_find eq ((k, v) # al) k' = (if eq k' k then Some v else assoc_find eq al k')"
  by (simp add: assoc_find_def)

lemma assoc_find_cong: "equivp eq \<Longrightarrow> eq a b \<Longrightarrow> assoc_find eq al a = assoc_find eq al b"
  unfolding assoc_find_def
  by (rule arg_cong[where f = "map_option snd"], rule find_cong) (auto dest: equivp_symp equivp_transp)

lemma assoc_find_remove:
  assumes "equivp eq" "sorted_wrt (\<lambda>p q. \<not> eq (fst p) (fst q)) al"
  shows "assoc_find eq (assoc_remove eq k al) k' = (if eq k' k then None else assoc_find eq al k')"
  using assms(2)
proof (induction al)
  case (Cons p al)
  obtain a v where p: "p = (a, v)" by force
  show ?case
  proof (cases "eq k a")
    case True
    have "assoc_find eq al k' = None" if "eq k' k"
    proof -
      have "eq a k'" using that True equivp_symp[OF assms(1)] equivp_transp[OF assms(1)] by blast
      then have "\<not> eq k' (fst q)" if "q \<in> set al" for q
        using that Cons.prems p equivp_transp[OF assms(1), of a k' "fst q"] by auto
      then show ?thesis by (simp add: assoc_find_None)
    qed
    moreover have "\<not> eq k' a" if "\<not> eq k' k"
      using that True equivp_symp[OF assms(1)] equivp_transp[OF assms(1)] by blast
    ultimately show ?thesis using True p by (simp add: assoc_find_Cons)
  next
    case False
    have "\<not> eq k' a" if "eq k' k"
      using that False equivp_symp[OF assms(1)] equivp_transp[OF assms(1)] by blast
    then show ?thesis using False p Cons by (simp add: assoc_find_Cons)
  qed
qed (simp add: assoc_find_def)

lemma sorted_wrt_assoc_remove:
  "sorted_wrt R al \<Longrightarrow> sorted_wrt R (assoc_remove eq k al) \<and> set (assoc_remove eq k al) \<subseteq> set al"
  by (induction eq k al rule: assoc_remove.induct) auto

lemma insert_client:
  assumes inv: "ht_client_inv h" and none: "cs_hashtable_search h k = None"
  shows "ht_client_inv (ht_ins k v h) \<and> eqfn (ht_ins k v h) = eqfn h \<and>
    cs_hashtable_search (ht_ins k v h) k' = (if eqfn h k' k then Some v else cs_hashtable_search h k')"
proof -
  have h: "ht_inv h" "ht_fun_ok h" "equivp (eqfn h)" and core: "ht_core h"
    using inv by (auto simp: ht_client_inv_def ht_inv_def)
  obtain ok h' where res: "cs_hashtable_insert True (Some (fresh_id h)) k v h = (ok, h')" by force
  note ins = insert_result[OF h(1) fresh_id_ok res]
  have h': "ht_ins k v h = h'" by (simp add: ht_ins_def res)
  have f': "ht_fun_ok h'" and core': "ht_core h'" using ins h(2) by (auto simp: ht_fun_ok_def ht_inv_def)
  have al: "ht_assoc h' = (k, v) # ht_assoc h" using ins by simp
  have "\<forall>p \<in> set (ht_assoc h). \<not> eqfn h k (fst p)"
    using none by (simp add: search_assoc[OF core h(2)] assoc_find_None)
  then have "ht_client_inv h'" using ins f' inv by (simp add: ht_client_inv_def al)
  moreover have "cs_hashtable_search h' k' = (if eqfn h k' k then Some v else cs_hashtable_search h k')"
    using ins by (simp add: search_assoc[OF core' f'] search_assoc[OF core h(2)] al assoc_find_Cons)
  ultimately show ?thesis using ins h' by simp
qed

lemma remove_client:
  assumes inv: "ht_client_inv h"
  shows "ht_client_inv (ht_del k h) \<and> eqfn (ht_del k h) = eqfn h \<and>
    cs_hashtable_search (ht_del k h) k' = (if eqfn h k' k then None else cs_hashtable_search h k')"
proof -
  have h: "ht_inv h" "ht_fun_ok h" "equivp (eqfn h)" and core: "ht_core h"
    and srt: "sorted_wrt (\<lambda>p q. \<not> eqfn h (fst p) (fst q)) (ht_assoc h)"
    using inv by (auto simp: ht_client_inv_def ht_inv_def)
  obtain r h' where res: "cs_hashtable_remove k h = (r, h')" by force
  note del = remove_result[OF h(1,2) res]
  have h': "ht_del k h = h'" by (simp add: ht_del_def res)
  have f': "ht_fun_ok h'" and core': "ht_core h'" using del h(2) by (auto simp: ht_fun_ok_def ht_inv_def)
  have al: "ht_assoc h' = assoc_remove (eqfn h) k (ht_assoc h)" using del by simp
  have "ht_client_inv h'"
    using del f' h(3) sorted_wrt_assoc_remove[OF srt] by (simp add: ht_client_inv_def al)
  moreover have "cs_hashtable_search h' k' = (if eqfn h k' k then None else cs_hashtable_search h k')"
    using del by (simp add: search_assoc[OF core' f'] search_assoc[OF core h(2)] al assoc_find_remove[OF h(3) srt])
  ultimately show ?thesis using del h' by simp
qed

lemma eqfn_insert: "ht_client_inv h \<Longrightarrow> eqfn (ht_ins k v h) = eqfn h"
proof -
  assume "ht_client_inv h"
  then have h: "ht_inv h" by (simp add: ht_client_inv_def)
  obtain ok h' where res: "cs_hashtable_insert True (Some (fresh_id h)) k v h = (ok, h')" by force
  from insert_result[OF h fresh_id_ok res] show ?thesis by (simp add: ht_ins_def res)
qed

lemma client_equivp: "ht_client_inv h \<Longrightarrow> equivp (eqfn h)"
  by (simp add: ht_client_inv_def)

lemmas insert_client_inv = insert_client[THEN conjunct1]
  and insert_client_look = insert_client[THEN conjunct2, THEN conjunct2]
  and remove_client_inv = remove_client[THEN conjunct1]
  and remove_client_eqfn = remove_client[THEN conjunct2, THEN conjunct1]
  and remove_client_look = remove_client[THEN conjunct2, THEN conjunct2]

interpretation ht: keyed_table ht_ins ht_del cs_hashtable_search eqfn ht_client_inv
proof (unfold_locales, goal_cases)
  case (1 t k v k') then show ?case by (rule insert_client_look)
next
  case (2 t k k') then show ?case by (rule remove_client_look)
next
  case (3 t k v) then show ?case by (rule eqfn_insert)
next
  case (4 t k) then show ?case by (rule remove_client_eqfn)
next
  case (5 t k v) then show ?case by (rule insert_client_inv)
next
  case (6 t k) then show ?case by (rule remove_client_inv)
next
  case (7 t k) then show ?case by (rule equivp_reflp[OF client_equivp])
next
  case (8 t a b) then show ?case by (rule equivp_symp[OF client_equivp])
qed

lemma find_prefix_sum: "length (takeWhile P xs) < length xs" if "x \<in> set xs" "\<not> P x"
  using that by (induction xs) auto

lemma create_pindex:
  assumes "minsize \<le> 2 ^ 30" and p: "p = length (takeWhile (\<lambda>q. \<not> q > minsize) primes)"
  shows "(of_nat p - 1 :: u32) + 1 = 0 \<or> unat (of_nat p - 1 :: u32) < prime_table_length"
    "unat (of_nat p - 1 :: u32) \<noteq> prime_table_length - 1"
proof -
  have len: "prime_table_length = 26" by (simp add: prime_table_length_def primes_def)
  have "p < length primes"
    unfolding p using assms(1) by (intro find_prefix_sum[of 1610612741]) (auto simp: primes_def)
  then have p: "p < 26" by (simp add: primes_def)
  have pos: "unat (of_nat p - 1 :: u32) = p - 1" if "p \<noteq> 0"
  proof -
    have "of_nat p - 1 = (of_nat (p - 1) :: u32)" using that by (cases p) simp_all
    then show ?thesis using p by (simp add: unat_of_nat)
  qed
  show "(of_nat p - 1 :: u32) + 1 = 0 \<or> unat (of_nat p - 1 :: u32) < prime_table_length"
    using pos p len by (cases "p = 0") auto
  have "unat (- 1 :: u32) = 2 ^ 32 - 1" by (simp add: unsigned_minus_1_eq_mask mask_eq_exp_minus_1)
  then show "unat (of_nat p - 1 :: u32) \<noteq> prime_table_length - 1"
    using pos p len by (cases "p = 0") auto
qed

lemma create_inv:
  assumes "minsize \<le> 2 ^ 30"
  obtains h where "cs_create_hashtable True True mem minsize hf ef = Some h" "ht_inv h" "ht_assoc h = []"
    "hashfn h = hf" "eqfn h = ef" "elist h = []" "efree h = []"
proof -
  define p where "p = length (takeWhile (\<lambda>q. \<not> q > minsize) primes)"
  define h0 where "h0 = \<lparr>ents = mem, elist = [], efree = [], tablelength = 0, tbl = [], entrycount = 0,
     loadlimit = 0, primeindex = of_nat p - 1, hashfn = hf, eqfn = ef\<rparr>"
  note pidx = create_pindex[OF assms p_def]
  have ok: "fst (cs_hashtable_expand True h0)"
    using pidx(2) by (simp add: cs_hashtable_expand_def h0_def Let_def)
  have core: "ht_core (snd (cs_hashtable_expand True h0))"
    using pidx(1) ok by (intro expand_core) (simp_all add: h0_def)
  have "cs_create_hashtable True True mem minsize hf ef = Some (snd (cs_hashtable_expand True h0))"
    using assms ok
    by (cases "cs_hashtable_expand True h0")
       (simp add: cs_create_hashtable_def Let_def p_def [symmetric] h0_def [symmetric])
  then show ?thesis using that core by (simp add: ht_inv_def expand_frame ht_assoc_def h0_def)
qed

section \<open>Iteration\<close>

fun iterate :: "nat \<Rightarrow> ('k, 'v) cs_hashtable \<Rightarrow> nat option \<Rightarrow> nat list" where
  "iterate 0 h itr = []"
| "iterate (Suc n) h itr =
     (case itr of None \<Rightarrow> []
      | Some e \<Rightarrow> e # iterate n h (snd (cs_hashtable_iterator_advance h (Some e))))"

lemma list_next_append: "distinct (xs @ e # ys) \<Longrightarrow> list_next (xs @ e # ys) e = (case ys of [] \<Rightarrow> None | y # _ \<Rightarrow> Some y)"
  by (induction xs) auto

lemma iterate_suffix:
  assumes "distinct (elist h)" "elist h = xs @ ys" "length ys \<le> n"
  shows "iterate n h (case ys of [] \<Rightarrow> None | e # _ \<Rightarrow> Some e) = ys"
  using assms
proof (induction ys arbitrary: xs n)
  case Nil
  then show ?case by (cases n) auto
next
  case (Cons e ys)
  then obtain m where n: "n = Suc m" by (cases n) auto
  have next_e: "snd (cs_hashtable_iterator_advance h (Some e)) = (case ys of [] \<Rightarrow> None | y # _ \<Rightarrow> Some y)"
    using list_next_append[of xs e ys] Cons.prems(1,2)
    by (auto simp: cs_hashtable_iterator_advance_def split: list.splits)
  show ?case using Cons.IH[of "xs @ [e]" m] Cons.prems n by (simp add: next_e)
qed

section \<open>Properties\<close>

text \<open>A table of 64-bit keys with the identity hash, as the subnet manager uses for port GUIDs.\<close>

definition ht_example :: "(u64, nat) cs_hashtable option" where
  "ht_example = cs_create_hashtable True True (\<lambda>_. \<lparr>ek = 0, ev = 0, eh = 0\<rparr>) 16 (\<lambda>k. k) (=)"

lemma ht_example_inv:
  obtains h where "ht_example = Some h" "ht_client_inv h" "ht_assoc h = []" "efree h = []" "elist h = []" "eqfn h = (=)"
proof -
  obtain h where h: "ht_example = Some h" "ht_inv h" "ht_assoc h = []" "efree h = []" "elist h = []"
    "hashfn h = (\<lambda>k. k)" "eqfn h = (=)"
    unfolding ht_example_def by (rule create_inv[of 16]) auto
  then have "ht_client_inv h" by (simp add: ht_client_inv_def ht_fun_ok_def identity_equivp)
  then show ?thesis using that h by blast
qed

text \<open>
  C39. A table used as a map is a map: after any sequence of replacements (remove, then insert)
  into a well-formed table, a search returns the value of the last replacement of an equal
  key, and otherwise what it returned before, through every growth of the table.
\<close>

theorem cs_hashtable_last_put_wins:
  assumes "ht_client_inv h"
  shows "cs_hashtable_search (fold (\<lambda>(k, v) h. ht_ins k v (ht_del k h)) kvs h) k =
    (case List.find (\<lambda>(k', v). eqfn h k k') (rev kvs) of
       Some (k', v) \<Rightarrow> Some v | None \<Rightarrow> cs_hashtable_search h k)"
  using ht.look_put_all[OF assms, of kvs k] by (simp add: ht.put_def)

theorem cs_hashtable_last_put_wins_witness:
  "case ht_example of None \<Rightarrow> False
   | Some h \<Rightarrow> cs_hashtable_search (fold (\<lambda>(k, v) h. ht_ins k v (ht_del k h)) [(7, 1), (9, 2), (7, 3)] h) 7 = Some 3"
proof -
  obtain h where h: "ht_example = Some h" "ht_client_inv h" "eqfn h = (=)" using ht_example_inv by blast
  then show ?thesis unfolding h(1) using cs_hashtable_last_put_wins[OF h(2), of "[(7, 1), (9, 2), (7, 3)]" 7]
    by (simp add: h(3))
qed



lemma count_assoc: "ht_inv h \<Longrightarrow> cs_hashtable_count h = length (ht_assoc h)"
  by (simp add: ht_inv_def ht_assoc_def cs_hashtable_count_def)

text \<open>
  Insertion, whatever the allocator does: the new pair is in front of the association list
  exactly when the call reports success, which needs a free-list entry or a successful
  \<open>malloc\<close>; a failed table expansion does not make the insertion fail. On failure the contents
  and the count are unchanged.
\<close>

theorem cs_hashtable_insert_outcome:
  assumes "ht_inv h" and "fresh_ok fresh h"
  shows "case cs_hashtable_insert tbl_ok fresh k v h of (ok, h') \<Rightarrow>
    ht_inv h' \<and> (ok \<longleftrightarrow> efree h \<noteq> [] \<or> fresh \<noteq> None) \<and>
    ht_assoc h' = (if ok then (k, v) # ht_assoc h else ht_assoc h) \<and>
    cs_hashtable_count h' = (if ok then cs_hashtable_count h + 1 else cs_hashtable_count h)"
proof -
  obtain ok h' where res: "cs_hashtable_insert tbl_ok fresh k v h = (ok, h')" by force
  note ins = insert_result[OF assms res]
  have "ht_inv h'" using ins by simp
  then show ?thesis using ins assms(1) by (auto simp: res count_assoc)
qed

theorem cs_hashtable_insert_outcome_witness:
  "case ht_example of None \<Rightarrow> False
   | Some h \<Rightarrow> (case cs_hashtable_insert False (Some 4) 7 1 h of (ok, h') \<Rightarrow> ok \<and> ht_assoc h' = [(7, 1)])"
proof -
  obtain h where h: "ht_example = Some h" "ht_client_inv h" "ht_assoc h = []" "efree h = []" "elist h = []"
    using ht_example_inv by blast
  have inv: "ht_inv h" using h(2) by (simp add: ht_client_inv_def)
  have fresh: "fresh_ok (Some 4) h" by (simp add: fresh_ok_def h)
  show ?thesis unfolding h(1)
    using cs_hashtable_insert_outcome[where tbl_ok = False and k = 7 and v = 1, OF inv fresh]
    by (auto simp: h)
qed

text \<open>
  Iterating from \<open>cs_hashtable_iterator\<close> with \<open>cs_hashtable_iterator_advance\<close> visits every
  entry exactly once, in insertion order.
\<close>

theorem cs_hashtable_iterator_visits_all:
  assumes "ht_inv h"
  shows "iterate (cs_hashtable_count h + 1) h (cs_hashtable_iterator h) = elist h \<and> distinct (elist h) \<and>
    map (\<lambda>e. (cs_hashtable_iterator_key h e, cs_hashtable_iterator_value h e)) (elist h) = rev (ht_assoc h)"
proof -
  have "distinct (elist h)" using assms ht_coreD(5)[of h] by (simp add: ht_inv_def)
  moreover have "length (elist h) = cs_hashtable_count h"
    using assms by (simp add: ht_inv_def cs_hashtable_count_def)
  ultimately show ?thesis
    using iterate_suffix[of h "[]" "elist h" "cs_hashtable_count h + 1"]
    by (simp add: cs_hashtable_iterator_def ht_assoc_def cs_hashtable_iterator_key_def
        cs_hashtable_iterator_value_def rev_map)
qed

theorem cs_hashtable_iterator_visits_all_witness:
  "case ht_example of None \<Rightarrow> False
   | Some h \<Rightarrow> length (iterate 2 (ht_ins 5 8 h) (cs_hashtable_iterator (ht_ins 5 8 h))) = 1"
proof -
  obtain h where h: "ht_example = Some h" "ht_client_inv h" and e: "ht_assoc h = []"
    using ht_example_inv by blast
  have inv: "ht_inv h" using h(2) by (simp add: ht_client_inv_def)
  obtain ok h' where res: "cs_hashtable_insert True (Some (fresh_id h)) 5 8 h = (ok, h')" by force
  note ins = insert_result[OF inv fresh_id_ok res]
  have h': "ht_ins 5 8 h = h'" "ht_inv h'" "ht_assoc h' = [(5, 8)]" using ins res e by (auto simp: ht_ins_def)
  then have l: "length (elist h') = 1" by (metis One_nat_def ht_assoc_def length_Cons length_map length_rev list.size(3))
  then have "cs_hashtable_count h' + 1 = 2" using h'(2) by (simp add: ht_inv_def cs_hashtable_count_def)
  then have "iterate 2 h' (cs_hashtable_iterator h') = elist h'"
    using cs_hashtable_iterator_visits_all[OF h'(2)] by (simp only:)
  then show ?thesis using l by (simp add: h(1) h'(1))
qed

end
