(* ===== verification/SmFsm.thy ===== *)
theory SmFsm
  imports FM_Prelude
begin

text \<open>
  The SM state machine: \<^verbatim>\<open>sm_fsm.c\<close> (timer and SMInfo events, the handlers of the four states,
  the standby's check of the master), \<^verbatim>\<open>sm_mkey.c\<close> (the M_Key check) and the transition and
  priority functions of \<^verbatim>\<open>sm_utility.c\<close>. The global variables these functions share are the
  record \<open>fsm\<close>, the configuration they read is \<open>fsm_cfg\<close>, and what one event observes of the
  rest of the system (clock, topology lookups, replies of other SMs, the dbsync and SM record
  tables) is \<open>fsm_env\<close>. Calls into those parts that change them are recorded in order in the
  field \<open>effects\<close>. Logging, counters and the locks that are taken and released unconditionally
  leave no trace in the model.
\<close>

section \<open>Constants and data\<close>

type_synonym u4 = "4 word"

abbreviation (input) SM_STATE_NOTACTIVE :: "'a::len word" where "SM_STATE_NOTACTIVE \<equiv> 0"
abbreviation (input) SM_STATE_DISCOVERING :: "'a::len word" where "SM_STATE_DISCOVERING \<equiv> 1"
abbreviation (input) SM_STATE_STANDBY :: "'a::len word" where "SM_STATE_STANDBY \<equiv> 2"
abbreviation (input) SM_STATE_MASTER :: "'a::len word" where "SM_STATE_MASTER \<equiv> 3"

abbreviation (input) SM_AMOD_HANDOVER :: u32 where "SM_AMOD_HANDOVER \<equiv> 1"
abbreviation (input) SM_AMOD_ACKNOWLEDGE :: u32 where "SM_AMOD_ACKNOWLEDGE \<equiv> 2"
abbreviation (input) SM_AMOD_DISABLE :: u32 where "SM_AMOD_DISABLE \<equiv> 3"
abbreviation (input) SM_AMOD_STANDBY :: u32 where "SM_AMOD_STANDBY \<equiv> 4"
abbreviation (input) SM_AMOD_DISCOVER :: u32 where "SM_AMOD_DISCOVER \<equiv> 5"

abbreviation (input) MAD_CM_GET :: u8 where "MAD_CM_GET \<equiv> 1"
abbreviation (input) MAD_CM_SET :: u8 where "MAD_CM_SET \<equiv> 2"
abbreviation (input) MAD_CV_SUBN_LR :: u8 where "MAD_CV_SUBN_LR \<equiv> 1"
abbreviation (input) MAD_SMA_SMINFO :: u16 where "MAD_SMA_SMINFO \<equiv> 0x20"
abbreviation (input) MAD_STATUS_OK :: u16 where "MAD_STATUS_OK \<equiv> 0"
abbreviation (input) MAD_STATUS_BAD_ATTR :: u16 where "MAD_STATUS_BAD_ATTR \<equiv> 0xc"
abbreviation (input) MAD_STATUS_BAD_FIELD :: u16 where "MAD_STATUS_BAD_FIELD \<equiv> 0x1c"
abbreviation (input) PERMISSIVE_LID :: u32 where "PERMISSIVE_LID \<equiv> 0xFFFF"
abbreviation (input) IB_PORT_DOWN :: u8 where "IB_PORT_DOWN \<equiv> 1"
abbreviation (input) IB_PORT_ACTIVE :: u8 where "IB_PORT_ACTIVE \<equiv> 4"

datatype SweepReason_t =
    SM_SWEEP_REASON_INIT | SM_SWEEP_REASON_SCHEDULED | SM_SWEEP_REASON_RECONFIG
  | SM_SWEEP_REASON_MCMEMBER | SM_SWEEP_REASON_ACTIVATE_FAIL | SM_SWEEP_REASON_ROUTING_FAIL
  | SM_SWEEP_REASON_MC_ROUTING_FAIL | SM_SWEEP_REASON_UNEXPECTED_BOUNCE
  | SM_SWEEP_REASON_LOCAL_PORT_FAIL | SM_SWEEP_REASON_STATE_TRANSITION
  | SM_SWEEP_REASON_SECONDARY_TROUBLE | SM_SWEEP_REASON_MASTER_TROUBLE
  | SM_SWEEP_REASON_UPDATED_STANDBY | SM_SWEEP_REASON_HANDOFF | SM_SWEEP_REASON_UNEXPECTED_SM
  | SM_SWEEP_REASON_FORCED | SM_SWEEP_REASON_INTERVAL_CHANGE | SM_SWEEP_REASON_FAILED_SWEEP
  | SM_SWEEP_REASON_TRAP_EVENT | SM_SWEEP_REASON_UNDETERMINED

record STL_SM_INFO =
  PortGUID :: u64
  SM_Key :: u64
  ActCount :: u32
  ElapsedTime :: u32
  Priority :: u4
  ElevatedPriority :: u4
  InitialPriority :: u4
  SMStateCurrent :: u4

text \<open>The parts of a received SMInfo MAD the handlers read; \<open>mi_info\<close> is its payload.\<close>

record Mai_t =
  mi_aid :: u16
  mi_method :: u8
  mi_amod :: u32
  mi_status :: u16
  mi_mclass :: u8
  mi_hopCount :: u8
  mi_mkey :: u64
  mi_slid :: u32
  mi_dlid :: u32
  mi_info :: STL_SM_INFO
  mi_RetPath :: "u8 list"

record portinfo =
  pi_LID :: u32
  pi_MasterSMLID :: u32
  pi_PortState :: u8

datatype effect =
    Reply u16 STL_SM_INFO
  | TriggerSweep SweepReason_t
  | SetSMInfo u32 "u8 list option" STL_SM_INFO u64
  | DbsyncUpdateSm STL_SM_INFO
  | DbsyncDeleteSm u64
  | DbsyncStandbyHello u64
  | DbsyncStandbyCheck
  | DbsyncFullSyncCheck u64
  | SetDefBcGrp
  | AddServiceRecordSM

record fsm_cfg =
  cfg_mkey :: u64
  cfg_mkey_protect_level :: u32
  cfg_timer :: u64
  cfg_priority :: u32
  cfg_elevated_priority :: u32
  cfg_monitor_standby_enable :: bool
  cfg_master_ping_max_fail :: u32
  cfg_masterCheckInterval :: u64

record fsm_env =
  env_now :: u64
  env_time :: u32
  env_vfs :: bool
  env_passcount :: u32
  env_node_by_guid :: "u64 \<Rightarrow> u64 option option"
  env_node_by_lid :: "u32 \<Rightarrow> u64 option option"
  env_fullSyncCheck :: Status_t
  env_uptodate :: bool
  env_smLock :: Status_t
  env_smMap :: "u64 \<Rightarrow> u4 option"
  env_portInfo :: "Status_t + portinfo"
  env_smInfo :: "Status_t + STL_SM_INFO"

record fsm =
  sm_state :: u32
  sm_prevState :: u32
  sm_smInfo :: STL_SM_INFO
  sm_masterStartTime :: u32
  sm_saw_another_sm :: bool
  handover_sent :: bool
  triggered_handover :: bool
  sm_resweep_reason :: SweepReason_t
  topology_triggered :: bool
  topology_wakeup_time :: u64
  new_sm_timer :: u64
  lastStandbyCheck :: u64
  fsmCheckMasterFailed :: u32
  fsmMultMaxFail :: u32
  topo_slid :: u32
  topo_dlid :: u32
  topo_sm_count :: u32
  topo_sm_key :: u64
  topo_sm_path :: "u8 list"
  effects :: "effect list"

definition emit :: "effect \<Rightarrow> fsm \<Rightarrow> fsm" where
  "emit x s = s\<lparr>effects := effects s @ [x]\<rparr>"

section \<open>Sweep requests, priority and transitions\<close>

definition setResweepReason :: "SweepReason_t \<Rightarrow> fsm \<Rightarrow> fsm" where
  "setResweepReason reason s =
     (if sm_resweep_reason s = SM_SWEEP_REASON_UNDETERMINED then s\<lparr>sm_resweep_reason := reason\<rparr> else s)"

definition sm_trigger_sweep :: "SweepReason_t \<Rightarrow> fsm \<Rightarrow> fsm" where
  "sm_trigger_sweep reason s =
     emit (TriggerSweep reason) ((setResweepReason reason s)\<lparr>topology_triggered := True\<rparr>)"

definition sm_forceSweep :: "fsm_cfg \<Rightarrow> fsm \<Rightarrow> fsm" where
  "sm_forceSweep c s = s\<lparr>new_sm_timer := cfg_timer c\<rparr>"

definition set_priority :: "u32 \<Rightarrow> fsm \<Rightarrow> fsm" where
  "set_priority p s = (let i = (sm_smInfo s)\<lparr>Priority := ucast p\<rparr> in emit (DbsyncUpdateSm i) (s\<lparr>sm_smInfo := i\<rparr>))"

definition sm_elevatePriority :: "fsm_cfg \<Rightarrow> fsm \<Rightarrow> fsm" where
  "sm_elevatePriority c s =
     (if sm_saw_another_sm s \<and> cfg_priority c < cfg_elevated_priority c
      then set_priority (cfg_elevated_priority c) s else s)"

definition sm_restorePriorityOnly :: "fsm_cfg \<Rightarrow> fsm \<Rightarrow> fsm" where
  "sm_restorePriorityOnly c s =
     (let s1 = set_priority (cfg_priority c) s
      in if sm_state s1 = SM_STATE_MASTER then sm_forceSweep c s1 else s1)"

definition sm_restorePriority :: "fsm_cfg \<Rightarrow> fsm \<Rightarrow> fsm" where
  "sm_restorePriority c s = sm_restorePriorityOnly c (s\<lparr>sm_saw_another_sm := False\<rparr>)"

text \<open>The legal transitions, as the \<open>switch\<close> of \<open>sm_transition\<close> lists them.\<close>

definition legal_transition :: "u32 \<Rightarrow> u32 \<Rightarrow> bool" where
  "legal_transition old new =
     (if old = SM_STATE_NOTACTIVE then new = SM_STATE_DISCOVERING \<or> new = SM_STATE_STANDBY
      else if old = SM_STATE_DISCOVERING
      then new = SM_STATE_STANDBY \<or> new = SM_STATE_MASTER \<or> new = SM_STATE_NOTACTIVE
      else if old = SM_STATE_STANDBY
      then new = SM_STATE_MASTER \<or> new = SM_STATE_DISCOVERING \<or> new = SM_STATE_NOTACTIVE
      else if old = SM_STATE_MASTER then new = SM_STATE_STANDBY \<or> new = SM_STATE_NOTACTIVE
      else False)"

text \<open>
  The part after the \<open>switch\<close>: the default broadcast groups are set up for a request to
  become master, legal or not; a legal transition is then reflected in the SMInfo.
\<close>

definition transition_enter :: "fsm_env \<Rightarrow> u32 \<Rightarrow> fsm \<Rightarrow> fsm" where
  "transition_enter e old s =
     (let s1 = (if sm_state s = SM_STATE_MASTER
                then (emit AddServiceRecordSM s)\<lparr>sm_masterStartTime := env_time e\<rparr> else s);
          i = (sm_smInfo s1)\<lparr>SMStateCurrent := ucast (sm_state s1)\<rparr>
      in emit (DbsyncUpdateSm i) (s1\<lparr>sm_smInfo := i, sm_prevState := old\<rparr>))"

definition sm_transition :: "fsm_cfg \<Rightarrow> fsm_env \<Rightarrow> u32 \<Rightarrow> fsm \<Rightarrow> Status_t \<times> fsm" where
  "sm_transition c e new_state s =
     (if sm_state s = new_state
      then (VSTATUS_OK, s\<lparr>sm_smInfo := (sm_smInfo s)\<lparr>SMStateCurrent := ucast (sm_state s)\<rparr>\<rparr>)
      else let ok = legal_transition (sm_state s) new_state;
               s1 = (if ok then s\<lparr>sm_state := new_state\<rparr> else s);
               s2 = (if sm_state s = SM_STATE_MASTER then sm_restorePriorityOnly c s1 else s1);
               s3 = (if new_state = SM_STATE_MASTER \<and> env_vfs e then emit SetDefBcGrp s2 else s2)
           in if ok then (VSTATUS_OK, transition_enter e (sm_state s) s3) else (VSTATUS_BAD, s3))"

section \<open>M_Key check\<close>

definition sm_mkey_check :: "fsm_cfg \<Rightarrow> Mai_t \<Rightarrow> Status_t" where
  "sm_mkey_check c maip =
     (if cfg_mkey c = 0 then VSTATUS_OK
      else if mi_mkey maip = cfg_mkey c then VSTATUS_OK
      else if cfg_mkey_protect_level c = 0
      then (if mi_method maip = MAD_CM_GET then VSTATUS_OK else VSTATUS_MISMATCH)
      else if cfg_mkey_protect_level c = 1
      then (if mi_method maip = MAD_CM_GET then VSTATUS_CONDITIONAL else VSTATUS_MISMATCH)
      else VSTATUS_MISMATCH)"

section \<open>Replies and the handover acknowledgement\<close>

definition reply :: "u16 \<Rightarrow> fsm \<Rightarrow> fsm" where
  "reply st s = (let i = (sm_smInfo s)\<lparr>ActCount := ActCount (sm_smInfo s) + 1\<rparr>
                 in emit (Reply st i) (s\<lparr>sm_smInfo := i\<rparr>))"

text \<open>
  The directed path of the acknowledgement: the return path of the request reversed into a
  64-byte array. Nothing bounds \<open>hopCount\<close>, so the copy can leave the array.
\<close>

definition ack_ipath :: "u8 \<Rightarrow> u8 list \<Rightarrow> u8 list c_result" where
  "ack_ipath hopCount rpath =
     (let n = unat hopCount
      in if n \<ge> 64 \<or> n \<ge> length rpath then Inl OutOfBounds
         else Inr (hopCount # map (\<lambda>i. rpath ! (n + 1 - i)) [1..<n + 1] @ replicate (63 - n) 0))"

definition ack_handover :: "fsm_cfg \<Rightarrow> Mai_t \<Rightarrow> fsm \<Rightarrow> fsm c_result" where
  "ack_handover c maip s =
     (if mi_mclass maip = MAD_CV_SUBN_LR
      then Inr (emit (SetSMInfo SM_AMOD_ACKNOWLEDGE None (sm_smInfo s) (cfg_mkey c))
                 (s\<lparr>topo_dlid := mi_slid maip, topo_slid := mi_dlid maip\<rparr>))
      else case ack_ipath (mi_hopCount maip) (mi_RetPath maip) of
             Inl x \<Rightarrow> Inl x
           | Inr p \<Rightarrow> Inr (emit (SetSMInfo SM_AMOD_ACKNOWLEDGE (Some p) (sm_smInfo s) (cfg_mkey c)) s))"

text \<open>The end of a handover, in \<open>sm_fsm_standby\<close> and \<open>sm_fsm_master\<close>.\<close>

definition finish_handover :: "fsm_cfg \<Rightarrow> fsm_env \<Rightarrow> Mai_t \<Rightarrow> u32 \<Rightarrow> fsm \<Rightarrow> fsm c_result" where
  "finish_handover c e maip new_state s =
     (if mi_amod maip = SM_AMOD_HANDOVER
      then (case ack_handover c maip s of
              Inl x \<Rightarrow> Inl x
            | Inr s' \<Rightarrow> Inr (sm_trigger_sweep SM_SWEEP_REASON_STATE_TRANSITION
                               (snd (sm_transition c e new_state s'))))
      else Inr s)"

section \<open>The handlers of the states\<close>

text \<open>\<open>new_state\<close> is a \<open>long\<close> initialised to -1: here \<open>None\<close>.\<close>

definition standby_request :: "u32 \<Rightarrow> u16 \<Rightarrow> u32 option \<times> u16" where
  "standby_request amod st =
     (if amod = SM_AMOD_DISCOVER then (Some SM_STATE_DISCOVERING, st)
      else if amod = SM_AMOD_DISABLE then (Some SM_STATE_NOTACTIVE, st)
      else if amod = SM_AMOD_HANDOVER then (Some SM_STATE_MASTER, st)
      else if amod = SM_AMOD_ACKNOWLEDGE then (None, st)
      else (None, MAD_STATUS_BAD_ATTR))"

text \<open>The transition that does not wait for the handover acknowledgement.\<close>

definition standby_apply :: "fsm_cfg \<Rightarrow> fsm_env \<Rightarrow> u32 option \<Rightarrow> fsm \<Rightarrow> fsm" where
  "standby_apply c e new_state s =
     (case new_state of
        None \<Rightarrow> s
      | Some n \<Rightarrow>
          if n \<noteq> SM_STATE_MASTER
          then let s' = snd (sm_transition c e n s)
               in if n = SM_STATE_DISCOVERING
                  then sm_trigger_sweep SM_SWEEP_REASON_STATE_TRANSITION s' else s'
          else s)"

definition sm_fsm_standby :: "fsm_cfg \<Rightarrow> fsm_env \<Rightarrow> Mai_t \<Rightarrow> fsm \<Rightarrow> fsm c_result" where
  "sm_fsm_standby c e maip s =
     (case standby_request (mi_amod maip) (mi_status maip) of
        (new_state, st) \<Rightarrow>
          finish_handover c e maip SM_STATE_MASTER (standby_apply c e new_state (reply st s)))"

definition notactive_request :: "u32 \<Rightarrow> u16 \<Rightarrow> u32 option \<times> u16" where
  "notactive_request amod st =
     (if amod = SM_AMOD_STANDBY then (Some SM_STATE_STANDBY, st)
      else if amod = SM_AMOD_DISABLE then (Some SM_STATE_NOTACTIVE, st)
      else (None, MAD_STATUS_BAD_ATTR))"

definition sm_fsm_notactive :: "fsm_cfg \<Rightarrow> fsm_env \<Rightarrow> Mai_t \<Rightarrow> fsm \<Rightarrow> fsm c_result" where
  "sm_fsm_notactive c e maip s =
     (case notactive_request (mi_amod maip) (mi_status maip) of
        (new_state, st) \<Rightarrow>
          let s1 = reply st s
          in Inr (case new_state of None \<Rightarrow> s1 | Some n \<Rightarrow> snd (sm_transition c e n s1)))"

definition master_request :: "u32 \<Rightarrow> u4 \<Rightarrow> u16 \<Rightarrow> u32 option \<times> bool \<times> u16" where
  "master_request amod theirState st =
     (if amod = SM_AMOD_HANDOVER then (Some SM_STATE_MASTER, False, st)
      else if amod = SM_AMOD_ACKNOWLEDGE
      then (if theirState < SM_STATE_STANDBY then (None, False, MAD_STATUS_BAD_FIELD)
            else (Some SM_STATE_STANDBY, True, st))
      else (None, False, MAD_STATUS_BAD_ATTR))"

definition master_apply :: "fsm_cfg \<Rightarrow> fsm_env \<Rightarrow> u32 option \<Rightarrow> bool \<Rightarrow> fsm \<Rightarrow> fsm" where
  "master_apply c e new_state wakeTpThread s =
     (let s1 = (case new_state of
                  None \<Rightarrow> s
                | Some n \<Rightarrow> if n \<noteq> sm_state s then snd (sm_transition c e n s) else s)
      in if wakeTpThread then sm_trigger_sweep SM_SWEEP_REASON_HANDOFF s1 else s1)"

definition sm_fsm_master :: "fsm_cfg \<Rightarrow> fsm_env \<Rightarrow> Mai_t \<Rightarrow> fsm \<Rightarrow> fsm c_result" where
  "sm_fsm_master c e maip s =
     (case master_request (mi_amod maip) (SMStateCurrent (mi_info maip)) (mi_status maip) of
        (new_state, wakeTpThread, st) \<Rightarrow>
          finish_handover c e maip SM_STATE_MASTER (master_apply c e new_state wakeTpThread (reply st s)))"

definition sm_fsm_discovering :: "fsm \<Rightarrow> fsm c_result" where
  "sm_fsm_discovering s = Inr (reply MAD_STATUS_BAD_ATTR s)"

definition sm_fsm_default :: "fsm \<Rightarrow> fsm c_result" where
  "sm_fsm_default s = Inr (reply MAD_STATUS_BAD_ATTR s)"

section \<open>SMInfo events\<close>

text \<open>
  Identification of the requester (master only, after the first sweep): by the port GUID of
  its SMInfo, else by source LID; then the dbsync state of that SM is looked up. The result is
  whether the remote included its identity, the dbsync check status and whether it is up to
  date.
\<close>

definition identify_node :: "fsm_env \<Rightarrow> Mai_t \<Rightarrow> fsm \<Rightarrow> bool \<times> u64" where
  "identify_node e maip s =
     (let portguid = PortGUID (mi_info maip);
          byguid = (if portguid \<noteq> 0 then env_node_by_guid e portguid else None);
          nodep = (case byguid of
                     None \<Rightarrow> if mi_slid maip \<noteq> PERMISSIVE_LID then env_node_by_lid e (mi_slid maip) else None
                   | Some n \<Rightarrow> Some n);
          identified = (byguid \<noteq> None \<and> portguid \<noteq> 0 \<and> portguid \<noteq> PortGUID (sm_smInfo s))
      in (identified, case nodep of Some (Some g) \<Rightarrow> g | _ \<Rightarrow> portguid))"

definition identify :: "fsm_env \<Rightarrow> Mai_t \<Rightarrow> fsm \<Rightarrow> bool \<times> Status_t \<times> bool \<times> fsm" where
  "identify e maip s =
     (if sm_state s = SM_STATE_MASTER \<and> env_passcount e > 0
      then (case identify_node e maip s of
              (identified, portguid) \<Rightarrow>
                if (identified \<or> portguid \<noteq> 0) \<and> PortGUID (sm_smInfo s) \<noteq> portguid
                then (identified, env_fullSyncCheck e, env_uptodate e, emit (DbsyncFullSyncCheck portguid) s)
                else (identified, VSTATUS_OK, False, s))
      else (False, VSTATUS_OK, False, s))"

definition get_reply_info :: "fsm_env \<Rightarrow> Status_t \<Rightarrow> fsm \<Rightarrow> STL_SM_INFO" where
  "get_reply_info e mkeyStatus s =
     (let i = sm_smInfo s;
          i1 = (if mkeyStatus = VSTATUS_CONDITIONAL then i\<lparr>SM_Key := 0\<rparr> else i)
      in i1\<lparr>ElapsedTime := (if SMStateCurrent i1 = SM_STATE_MASTER then env_time e - sm_masterStartTime s else 0)\<rparr>)"

text \<open>Lower priority, or equal priority and greater GUID: the other SM wins.\<close>

definition they_win :: "STL_SM_INFO \<Rightarrow> STL_SM_INFO \<Rightarrow> bool" where
  "they_win ours theirs \<longleftrightarrow> Priority ours < Priority theirs \<or>
     (Priority ours = Priority theirs \<and> PortGUID ours > PortGUID theirs)"

definition check_sm_record :: "fsm_env \<Rightarrow> STL_SM_INFO \<Rightarrow> fsm \<Rightarrow> fsm" where
  "check_sm_record e theirs s =
     (if env_smLock e \<noteq> VSTATUS_OK then s
      else case env_smMap e (PortGUID theirs) of
             Some st \<Rightarrow> if st \<noteq> SMStateCurrent theirs then sm_trigger_sweep SM_SWEEP_REASON_UPDATED_STANDBY s else s
           | None \<Rightarrow> sm_trigger_sweep SM_SWEEP_REASON_UNEXPECTED_SM s)"

definition consider_handover :: "fsm_cfg \<Rightarrow> STL_SM_INFO \<Rightarrow> bool \<Rightarrow> fsm \<Rightarrow> fsm" where
  "consider_handover c theirs uptodate s =
     (if they_win (sm_smInfo s) theirs
      then if uptodate
           then let s1 = (if handover_sent s then s\<lparr>handover_sent := False, triggered_handover := False\<rparr> else s)
                in if \<not> triggered_handover s1
                   then (sm_trigger_sweep SM_SWEEP_REASON_HANDOFF s1)\<lparr>triggered_handover := True\<rparr>
                   else s1
           else s
      else if cfg_monitor_standby_enable c then emit (DbsyncStandbyHello (PortGUID theirs)) s else s)"

definition get_from_sm :: "fsm_cfg \<Rightarrow> fsm_env \<Rightarrow> STL_SM_INFO \<Rightarrow> Status_t \<Rightarrow> bool \<Rightarrow> fsm \<Rightarrow> fsm" where
  "get_from_sm c e theirs dbStat uptodate s =
     (let st = SMStateCurrent theirs
      in if st = SM_STATE_MASTER \<or> st = SM_STATE_STANDBY
         then consider_handover c theirs uptodate (check_sm_record e theirs s)
         else if st = SM_STATE_DISCOVERING
         then (if dbStat \<noteq> VSTATUS_NOT_FOUND then emit (DbsyncDeleteSm (PortGUID theirs)) s else s)
         else if st = SM_STATE_NOTACTIVE then emit (DbsyncDeleteSm (PortGUID theirs)) s
         else s)"

definition handle_get ::
  "fsm_cfg \<Rightarrow> fsm_env \<Rightarrow> Mai_t \<Rightarrow> Status_t \<Rightarrow> bool \<Rightarrow> Status_t \<Rightarrow> bool \<Rightarrow> fsm \<Rightarrow> fsm" where
  "handle_get c e maip mkeyStatus identified dbStat uptodate s =
     (let s1 = s\<lparr>sm_smInfo := (sm_smInfo s)\<lparr>ActCount := ActCount (sm_smInfo s) + 1\<rparr>\<rparr>;
          s2 = emit (Reply (mi_status maip) (get_reply_info e mkeyStatus s1)) s1
      in if identified \<and> SMStateCurrent (sm_smInfo s2) = SM_STATE_MASTER
         then get_from_sm c e (mi_info maip) dbStat uptodate s2 else s2)"

definition handle_set :: "fsm_cfg \<Rightarrow> fsm_env \<Rightarrow> Mai_t \<Rightarrow> fsm \<Rightarrow> fsm c_result" where
  "handle_set c e maip s =
     (if mi_amod maip \<noteq> SM_AMOD_ACKNOWLEDGE \<and> SMStateCurrent (mi_info maip) \<noteq> SM_STATE_MASTER
      then Inr (emit (Reply MAD_STATUS_BAD_FIELD (mi_info maip)) s)
      else if sm_state s = SM_STATE_STANDBY then sm_fsm_standby c e maip s
      else if sm_state s = SM_STATE_NOTACTIVE then sm_fsm_notactive c e maip s
      else if sm_state s = SM_STATE_MASTER then sm_fsm_master c e maip s
      else if sm_state s = SM_STATE_DISCOVERING then sm_fsm_discovering s
      else sm_fsm_default s)"

definition state_event_mad :: "fsm_cfg \<Rightarrow> fsm_env \<Rightarrow> Mai_t \<Rightarrow> fsm \<Rightarrow> (Status_t \<times> fsm) c_result" where
  "state_event_mad c e maip s =
     (if mi_aid maip \<noteq> MAD_SMA_SMINFO then Inr (VSTATUS_BAD, s)
      else case identify e maip s of
        (identified, dbStat, uptodate, s1) \<Rightarrow>
          let mk = sm_mkey_check c maip
          in if mk = VSTATUS_MISMATCH then Inr (VSTATUS_BAD, s1)
             else if mi_method maip = MAD_CM_GET
             then Inr (VSTATUS_OK, handle_get c e maip mk identified dbStat uptodate s1)
             else map_sum id (Pair VSTATUS_OK) (handle_set c e maip s1))"

section \<open>The standby's check of the master, and the timer\<close>

text \<open>\<open>True\<close> in the result is the exit to \<open>discovering\<close>, which also resets both counters.\<close>

definition to_discovering :: "fsm \<Rightarrow> Status_t \<times> fsm" where
  "to_discovering s = (VSTATUS_BAD, s\<lparr>fsmCheckMasterFailed := 0, fsmMultMaxFail := 1\<rparr>)"

definition count_failure :: "fsm_cfg \<Rightarrow> fsm \<Rightarrow> Status_t \<times> fsm" where
  "count_failure c s =
     (let s1 = s\<lparr>fsmCheckMasterFailed := fsmCheckMasterFailed s + 1\<rparr>
      in if fsmCheckMasterFailed s1 \<ge> fsmMultMaxFail s1 * cfg_master_ping_max_fail c
         then to_discovering s1 else (VSTATUS_OK, s1))"

definition check_master_smInfo :: "fsm_cfg \<Rightarrow> fsm_env \<Rightarrow> fsm \<Rightarrow> Status_t \<times> fsm" where
  "check_master_smInfo c e s =
     (case env_smInfo e of
        Inl _ \<Rightarrow> count_failure c s
      | Inr theirs \<Rightarrow>
          let s1 = s\<lparr>sm_saw_another_sm := True\<rparr>
          in if SMStateCurrent theirs \<noteq> SM_STATE_MASTER then to_discovering s1
             else (VSTATUS_OK, s1\<lparr>topo_sm_count := ActCount theirs, topo_sm_key := SM_Key theirs,
                                  fsmCheckMasterFailed := 0, fsmMultMaxFail := 1\<rparr>))"

definition sm_check_Master :: "fsm_cfg \<Rightarrow> fsm_env \<Rightarrow> fsm \<Rightarrow> Status_t \<times> fsm" where
  "sm_check_Master c e s =
     (case env_portInfo e of
        Inl _ \<Rightarrow> (VSTATUS_OK, s\<lparr>fsmCheckMasterFailed := 0\<rparr>)
      | Inr p \<Rightarrow>
          if pi_LID p = 0 \<or> pi_MasterSMLID p = 0 \<or> pi_PortState p \<noteq> IB_PORT_ACTIVE
          then (if pi_PortState p > IB_PORT_DOWN then to_discovering s else (VSTATUS_OK, s))
          else if pi_LID p = pi_MasterSMLID p then count_failure c (s\<lparr>fsmMultMaxFail := 2\<rparr>)
          else check_master_smInfo c e (s\<lparr>topo_slid := pi_LID p, topo_dlid := pi_MasterSMLID p\<rparr>))"

definition timeout_sweep :: "fsm_cfg \<Rightarrow> fsm_env \<Rightarrow> fsm \<Rightarrow> fsm" where
  "timeout_sweep c e s =
     (let now = env_now e
      in if topology_wakeup_time s \<noteq> 0 \<and> now \<ge> topology_wakeup_time s
         then sm_trigger_sweep SM_SWEEP_REASON_SCHEDULED (s\<lparr>topology_wakeup_time := 0, lastStandbyCheck := now\<rparr>)
         else if cfg_monitor_standby_enable c \<and> topology_wakeup_time s \<noteq> 0 \<and> sm_state s = SM_STATE_MASTER \<and>
                 now - lastStandbyCheck s > cfg_masterCheckInterval c * ucast (cfg_master_ping_max_fail c)
         then (emit DbsyncStandbyCheck s)\<lparr>lastStandbyCheck := now\<rparr>
         else s)"

definition state_event_timeout :: "fsm_cfg \<Rightarrow> fsm_env \<Rightarrow> fsm \<Rightarrow> fsm" where
  "state_event_timeout c e s0 =
     (let s = (if lastStandbyCheck s0 = 0 then s0\<lparr>lastStandbyCheck := env_now e\<rparr> else s0)
      in if sm_state s = SM_STATE_STANDBY
         then (case sm_check_Master c e s of
                 (status, s1) \<Rightarrow>
                   if status \<noteq> VSTATUS_OK
                   then sm_trigger_sweep SM_SWEEP_REASON_MASTER_TROUBLE
                          (snd (sm_transition c e SM_STATE_DISCOVERING s1))
                   else s1)
         else if sm_state s = SM_STATE_DISCOVERING \<or> sm_state s = SM_STATE_MASTER
         then timeout_sweep c e s
         else if sm_state s = SM_STATE_NOTACTIVE then snd (sm_check_Master c e s)
         else s)"

text \<open>The globals as \<open>sm_main\<close> initialises them.\<close>

definition fsm_init :: "fsm_cfg \<Rightarrow> u64 \<Rightarrow> u64 \<Rightarrow> fsm" where
  "fsm_init c portguid smkey =
     \<lparr>sm_state = SM_STATE_NOTACTIVE, sm_prevState = SM_STATE_NOTACTIVE,
      sm_smInfo = \<lparr>PortGUID = portguid, SM_Key = smkey, ActCount = 0, ElapsedTime = 0,
        Priority = ucast (cfg_priority c), ElevatedPriority = ucast (cfg_elevated_priority c),
        InitialPriority = ucast (cfg_priority c), SMStateCurrent = 0\<rparr>,
      sm_masterStartTime = 0, sm_saw_another_sm = False, handover_sent = False,
      triggered_handover = False, sm_resweep_reason = SM_SWEEP_REASON_INIT,
      topology_triggered = False, topology_wakeup_time = 0, new_sm_timer = - 1,
      lastStandbyCheck = 0, fsmCheckMasterFailed = 0, fsmMultMaxFail = 1, topo_slid = 0,
      topo_dlid = 0, topo_sm_count = 0, topo_sm_key = 0, topo_sm_path = replicate 64 0, effects = []\<rparr>"

section \<open>Frame lemmas\<close>

named_theorems fsm_frame

lemma emit_frame [fsm_frame]:
  "sm_state (emit x s) = sm_state s" "sm_smInfo (emit x s) = sm_smInfo s"
  "sm_prevState (emit x s) = sm_prevState s" "effects (emit x s) = effects s @ [x]"
  "fsmCheckMasterFailed (emit x s) = fsmCheckMasterFailed s" "fsmMultMaxFail (emit x s) = fsmMultMaxFail s"
  "handover_sent (emit x s) = handover_sent s" "triggered_handover (emit x s) = triggered_handover s"
  "new_sm_timer (emit x s) = new_sm_timer s" "lastStandbyCheck (emit x s) = lastStandbyCheck s"
  by (simp_all add: emit_def)

lemma trigger_frame [fsm_frame]:
  "sm_state (sm_trigger_sweep r s) = sm_state s" "sm_smInfo (sm_trigger_sweep r s) = sm_smInfo s"
  "sm_prevState (sm_trigger_sweep r s) = sm_prevState s"
  "effects (sm_trigger_sweep r s) = effects s @ [TriggerSweep r]"
  "fsmCheckMasterFailed (sm_trigger_sweep r s) = fsmCheckMasterFailed s"
  "fsmMultMaxFail (sm_trigger_sweep r s) = fsmMultMaxFail s"
  "handover_sent (sm_trigger_sweep r s) = handover_sent s"
  "triggered_handover (sm_trigger_sweep r s) = triggered_handover s"
  by (simp_all add: sm_trigger_sweep_def setResweepReason_def fsm_frame)

lemma restore_frame [fsm_frame]:
  "sm_state (sm_restorePriorityOnly c s) = sm_state s"
  "SMStateCurrent (sm_smInfo (sm_restorePriorityOnly c s)) = SMStateCurrent (sm_smInfo s)"
  "PortGUID (sm_smInfo (sm_restorePriorityOnly c s)) = PortGUID (sm_smInfo s)"
  "SM_Key (sm_smInfo (sm_restorePriorityOnly c s)) = SM_Key (sm_smInfo s)"
  "Priority (sm_smInfo (sm_restorePriorityOnly c s)) = ucast (cfg_priority c)"
  "sm_state s = SM_STATE_MASTER \<Longrightarrow> new_sm_timer (sm_restorePriorityOnly c s) = cfg_timer c"
  by (simp_all add: sm_restorePriorityOnly_def set_priority_def sm_forceSweep_def Let_def fsm_frame)

lemma elevate_frame [fsm_frame]:
  "sm_state (sm_elevatePriority c s) = sm_state s"
  "SMStateCurrent (sm_smInfo (sm_elevatePriority c s)) = SMStateCurrent (sm_smInfo s)"
  by (simp_all add: sm_elevatePriority_def set_priority_def Let_def fsm_frame)

lemma reply_frame [fsm_frame]:
  "sm_state (reply st s) = sm_state s"
  "SMStateCurrent (sm_smInfo (reply st s)) = SMStateCurrent (sm_smInfo s)"
  by (simp_all add: reply_def Let_def fsm_frame)

lemma enter_frame [fsm_frame]:
  "sm_state (transition_enter e old s) = sm_state s"
  "SMStateCurrent (sm_smInfo (transition_enter e old s)) = ucast (sm_state s)"
  by (simp_all add: transition_enter_def Let_def fsm_frame)

text \<open>A transition request is decided by the old state alone.\<close>

lemma transition_state [fsm_frame]:
  "sm_state (snd (sm_transition c e n s)) = (if legal_transition (sm_state s) n then n else sm_state s)"
  "fst (sm_transition c e n s) = (if sm_state s = n \<or> legal_transition (sm_state s) n then VSTATUS_OK else VSTATUS_BAD)"
  by (simp_all add: sm_transition_def Let_def fsm_frame)

lemma transition_mirror [fsm_frame]:
  "SMStateCurrent (sm_smInfo (snd (sm_transition c e n s))) =
     (if sm_state s = n then ucast n
      else if legal_transition (sm_state s) n then ucast n else SMStateCurrent (sm_smInfo s))"
  by (auto simp: sm_transition_def Let_def fsm_frame)

section \<open>Invariant and step relation\<close>

text \<open>The state is one of the four and the SMInfo that is sent to other SMs mirrors it.\<close>

definition fsm_ok :: "fsm \<Rightarrow> bool" where
  "fsm_ok s \<longleftrightarrow> sm_state s \<in> {SM_STATE_NOTACTIVE, SM_STATE_DISCOVERING, SM_STATE_STANDBY, SM_STATE_MASTER} \<and>
     SMStateCurrent (sm_smInfo s) = ucast (sm_state s)"

text \<open>One event changes the state not at all or along one legal transition.\<close>

definition moves :: "fsm \<Rightarrow> fsm \<Rightarrow> bool" where
  "moves s s' \<longleftrightarrow> (sm_state s' = sm_state s \<or> legal_transition (sm_state s) (sm_state s')) \<and>
     (fsm_ok s \<longrightarrow> fsm_ok s')"

lemma legal_target: "legal_transition a b \<Longrightarrow>
  b \<in> {SM_STATE_NOTACTIVE, SM_STATE_DISCOVERING, SM_STATE_STANDBY, SM_STATE_MASTER}"
  by (auto simp: legal_transition_def split: if_splits)

lemma moves_same [intro]:
  "sm_state s' = sm_state s \<Longrightarrow> SMStateCurrent (sm_smInfo s') = SMStateCurrent (sm_smInfo s) \<Longrightarrow> moves s s'"
  by (simp add: moves_def fsm_ok_def)

lemma moves_transition: "moves s (snd (sm_transition c e n s))"
  using legal_target[of "sm_state s" n] by (auto simp: moves_def fsm_ok_def fsm_frame)

lemma moves_before:
  "sm_state s1 = sm_state s \<Longrightarrow> SMStateCurrent (sm_smInfo s1) = SMStateCurrent (sm_smInfo s) \<Longrightarrow>
   moves s1 s' \<Longrightarrow> moves s s'"
  by (simp add: moves_def fsm_ok_def)

lemma moves_after:
  "sm_state s2 = sm_state s1 \<Longrightarrow> SMStateCurrent (sm_smInfo s2) = SMStateCurrent (sm_smInfo s1) \<Longrightarrow>
   moves s s1 \<Longrightarrow> moves s s2"
  by (simp add: moves_def fsm_ok_def)

lemma moves_trigger: "moves s s1 \<Longrightarrow> moves s (sm_trigger_sweep r s1)"
  by (rule moves_after) (simp_all add: fsm_frame)

lemma moves_reply_transition: "moves s (snd (sm_transition c e n (reply st s)))"
  by (rule moves_before[OF _ _ moves_transition]) (simp_all add: fsm_frame)

lemma ack_frame:
  "ack_handover c maip s = Inr s' \<Longrightarrow> sm_state s' = sm_state s \<and> sm_smInfo s' = sm_smInfo s"
  by (auto simp: ack_handover_def fsm_frame split: if_splits sum.splits)

lemma moves_finish:
  assumes "finish_handover c e maip n s1 = Inr s'" and "moves s s1"
    and "mi_amod maip = SM_AMOD_HANDOVER \<Longrightarrow>
      sm_state s1 = sm_state s \<and> SMStateCurrent (sm_smInfo s1) = SMStateCurrent (sm_smInfo s)"
  shows "moves s s'"
proof (cases "mi_amod maip = SM_AMOD_HANDOVER")
  case True
  then obtain s2 where a: "ack_handover c maip s1 = Inr s2"
    and s': "s' = sm_trigger_sweep SM_SWEEP_REASON_STATE_TRANSITION (snd (sm_transition c e n s2))"
    using assms(1) by (auto simp: finish_handover_def split: sum.splits)
  have "moves s (snd (sm_transition c e n s2))"
    using ack_frame[OF a] assms(3)[OF True] by (intro moves_before[OF _ _ moves_transition]) simp_all
  then show ?thesis unfolding s' by (rule moves_trigger)
next
  case False
  then show ?thesis using assms(1,2) by (simp add: finish_handover_def)
qed

lemma moves_standby:
  assumes "sm_fsm_standby c e maip s = Inr s'"
  shows "moves s s'"
proof -
  obtain ns st where r: "standby_request (mi_amod maip) (mi_status maip) = (ns, st)" by force
  have f: "finish_handover c e maip SM_STATE_MASTER (standby_apply c e ns (reply st s)) = Inr s'"
    using assms by (simp add: sm_fsm_standby_def r)
  have m: "moves s (standby_apply c e ns (reply st s))"
    using moves_reply_transition[of s c e _ st]
    by (auto simp: standby_apply_def Let_def fsm_frame moves_same moves_trigger split: option.splits)
  have "ns = Some SM_STATE_MASTER" if "mi_amod maip = SM_AMOD_HANDOVER"
    using r that by (simp add: standby_request_def)
  then show ?thesis by (intro moves_finish[OF f m]) (simp add: standby_apply_def fsm_frame)
qed

lemma moves_notactive: "sm_fsm_notactive c e maip s = Inr s' \<Longrightarrow> moves s s'"
  using moves_reply_transition[of s c e]
  by (auto simp: sm_fsm_notactive_def Let_def fsm_frame moves_same split: prod.splits option.splits)

lemma moves_master:
  assumes "sm_fsm_master c e maip s = Inr s'" and "sm_state s = SM_STATE_MASTER"
  shows "moves s s'"
proof -
  obtain ns w st where r: "master_request (mi_amod maip) (SMStateCurrent (mi_info maip)) (mi_status maip) = (ns, w, st)"
    by (metis prod_cases3)
  have f: "finish_handover c e maip SM_STATE_MASTER (master_apply c e ns w (reply st s)) = Inr s'"
    using assms(1) by (simp add: sm_fsm_master_def r)
  have m: "moves s (master_apply c e ns w (reply st s))"
    using moves_reply_transition[of s c e _ st]
    by (auto simp: master_apply_def Let_def fsm_frame moves_same moves_trigger split: option.splits)
  have "ns = Some SM_STATE_MASTER \<and> \<not> w" if "mi_amod maip = SM_AMOD_HANDOVER"
    using r that by (auto simp: master_request_def)
  then show ?thesis by (intro moves_finish[OF f m]) (simp add: master_apply_def fsm_frame assms(2))
qed

lemma identify_frame:
  "identify e maip s = (i, d, u, s1) \<Longrightarrow> sm_state s1 = sm_state s \<and> sm_smInfo s1 = sm_smInfo s \<and>
     (effects s1 = effects s \<or> (\<exists>g. effects s1 = effects s @ [DbsyncFullSyncCheck g]))"
  by (auto simp: identify_def fsm_frame split: if_splits prod.splits)

lemma get_frame:
  "sm_state (handle_get c e maip mk i d u s) = sm_state s \<and>
   SMStateCurrent (sm_smInfo (handle_get c e maip mk i d u s)) = SMStateCurrent (sm_smInfo s)"
  by (simp add: handle_get_def get_from_sm_def consider_handover_def check_sm_record_def Let_def fsm_frame
      split: option.splits)

lemma moves_set: "handle_set c e maip s = Inr s' \<Longrightarrow> moves s s'"
  using moves_standby[of c e maip s s'] moves_notactive[of c e maip s s'] moves_master[of c e maip s s']
  by (auto simp: handle_set_def sm_fsm_discovering_def sm_fsm_default_def fsm_frame moves_same split: if_splits)

lemma moves_mad:
  assumes "state_event_mad c e maip s = Inr (st, s')"
  shows "moves s s'"
proof -
  obtain i d u s1 where id: "identify e maip s = (i, d, u, s1)" by (metis prod_cases4)
  note fr = identify_frame[OF id]
  consider "s' = s" | "s' = s1" | mk where "s' = handle_get c e maip mk i d u s1" | "handle_set c e maip s1 = Inr s'"
    using assms unfolding state_event_mad_def id
    by (cases "handle_set c e maip s1") (auto simp: Let_def split: if_splits)
  then show ?thesis
  proof cases
    case 3
    then show ?thesis using fr by (auto simp: get_frame)
  next
    case 4
    then show ?thesis using fr by (intro moves_before[OF _ _ moves_set]) auto
  qed (use fr in auto)
qed

lemma check_master_frame:
  "sm_check_Master c e s = (st, s1) \<Longrightarrow> sm_state s1 = sm_state s \<and> sm_smInfo s1 = sm_smInfo s \<and> effects s1 = effects s"
  by (auto simp: sm_check_Master_def count_failure_def to_discovering_def check_master_smInfo_def Let_def
      split: sum.splits if_splits)

lemma moves_timeout: "moves s (state_event_timeout c e s)"
proof -
  define s0 where "s0 = (if lastStandbyCheck s = 0 then s\<lparr>lastStandbyCheck := env_now e\<rparr> else s)"
  have s0: "sm_state s0 = sm_state s" "sm_smInfo s0 = sm_smInfo s" by (simp_all add: s0_def)
  obtain st s1 where cm: "sm_check_Master c e s0 = (st, s1)" by force
  note fr = check_master_frame[OF cm]
  have tr: "moves s (sm_trigger_sweep r (snd (sm_transition c e n s1)))" for r n
    using fr s0 by (intro moves_trigger moves_before[OF _ _ moves_transition]) simp_all
  have m1: "moves s s1" using fr s0 by auto
  have ts: "moves s (timeout_sweep c e s0)"
    by (rule moves_same) (simp_all add: timeout_sweep_def Let_def fsm_frame s0)
  show ?thesis
    unfolding state_event_timeout_def Let_def s0_def [symmetric] cm using tr m1 ts s0 by auto
qed

text \<open>
  The step relation: SMInfo packets, timer ticks, and the requests of the topology and
  other threads, which call \<open>sm_transition\<close> and the priority functions.
\<close>

inductive fsm_step :: "fsm_cfg \<Rightarrow> fsm \<Rightarrow> fsm \<Rightarrow> bool" for c where
  mad: "state_event_mad c e maip s = Inr (st, s') \<Longrightarrow> fsm_step c s s'"
| timeout: "fsm_step c s (state_event_timeout c e s)"
| request: "fsm_step c s (snd (sm_transition c e n s))"
| elevate: "fsm_step c s (sm_elevatePriority c s)"
| restore: "fsm_step c s (sm_restorePriority c s)"

inductive_cases fsm_stepE: "fsm_step c s s'"

lemma step_moves: "fsm_step c s s' \<Longrightarrow> moves s s'"
  by (erule fsm_step.cases)
     (auto intro: moves_mad moves_timeout moves_transition simp: fsm_frame sm_restorePriority_def)

interpretation fsm_inv: invariant_step "fsm_step c" fsm_ok for c
  by unfold_locales (use step_moves in \<open>auto simp: moves_def\<close>)

section \<open>Lemmas on single events\<close>

lemma mkey_set: "mi_method maip \<noteq> MAD_CM_GET \<Longrightarrow>
  sm_mkey_check c maip = VSTATUS_MISMATCH \<longleftrightarrow> cfg_mkey c \<noteq> 0 \<and> mi_mkey maip \<noteq> cfg_mkey c"
  by (simp add: sm_mkey_check_def)

lemma set_to_master:
  assumes "handle_set c e maip s = Inr s'" and "sm_state s \<noteq> SM_STATE_MASTER"
  shows "sm_state s' = SM_STATE_MASTER \<longleftrightarrow> sm_state s = SM_STATE_STANDBY \<and> mi_amod maip = SM_AMOD_HANDOVER \<and>
    SMStateCurrent (mi_info maip) = SM_STATE_MASTER"
proof -
  have ack: "sm_state s1 = sm_state t" if "ack_handover c maip t = Inr s1" for t s1
    using ack_frame[OF that] by simp
  show ?thesis
    using assms
    by (auto simp: handle_set_def sm_fsm_standby_def sm_fsm_notactive_def sm_fsm_discovering_def
        sm_fsm_default_def standby_request_def notactive_request_def finish_handover_def standby_apply_def
        legal_transition_def Let_def fsm_frame dest!: ack split: if_splits sum.splits)
qed

lemma set_handover_effects:
  assumes "handle_set c e maip s = Inr s'" and "sm_state s = SM_STATE_STANDBY"
    and "mi_amod maip = SM_AMOD_HANDOVER" and "SMStateCurrent (mi_info maip) = SM_STATE_MASTER"
  shows "\<exists>p. SetSMInfo SM_AMOD_ACKNOWLEDGE p (sm_smInfo (reply (mi_status maip) s)) (cfg_mkey c) \<in> set (effects s') \<and>
    TriggerSweep SM_SWEEP_REASON_STATE_TRANSITION \<in> set (effects s')"
proof -
  obtain s2 where a: "ack_handover c maip (reply (mi_status maip) s) = Inr s2"
    and s': "s' = sm_trigger_sweep SM_SWEEP_REASON_STATE_TRANSITION (snd (sm_transition c e SM_STATE_MASTER s2))"
    using assms by (auto simp: handle_set_def sm_fsm_standby_def standby_request_def finish_handover_def
        standby_apply_def split: sum.splits)
  have "sm_state s2 = SM_STATE_STANDBY" using ack_frame[OF a] assms(2) by (simp add: fsm_frame)
  then have "set (effects s2) \<subseteq> set (effects s')"
    by (auto simp: s' sm_transition_def legal_transition_def transition_enter_def Let_def fsm_frame)
  moreover have "\<exists>p. SetSMInfo SM_AMOD_ACKNOWLEDGE p (sm_smInfo (reply (mi_status maip) s)) (cfg_mkey c) \<in> set (effects s2)"
    using a by (auto simp: ack_handover_def fsm_frame split: if_splits sum.splits)
  ultimately show ?thesis unfolding s' by (auto simp: fsm_frame)
qed

lemma mad_set_iff:
  assumes "mi_aid maip = MAD_SMA_SMINFO" and "mi_method maip \<noteq> MAD_CM_GET" and "sm_state s \<noteq> SM_STATE_MASTER"
    and "sm_mkey_check c maip \<noteq> VSTATUS_MISMATCH"
  shows "state_event_mad c e maip s = map_sum id (Pair VSTATUS_OK) (handle_set c e maip s)"
  using assms by (simp add: state_event_mad_def identify_def Let_def)

text \<open>A tick of a standby whose master does not answer while its own port is active.\<close>

definition master_silent :: "fsm_env \<Rightarrow> bool" where
  "master_silent e =
     (case (env_portInfo e, env_smInfo e) of
        (Inr p, Inl _) \<Rightarrow> pi_LID p \<noteq> 0 \<and> pi_MasterSMLID p \<noteq> 0 \<and> pi_PortState p = IB_PORT_ACTIVE \<and>
                          pi_LID p \<noteq> pi_MasterSMLID p
      | _ \<Rightarrow> False)"

lemma silent_check:
  assumes "master_silent e"
  shows "sm_check_Master c e s =
    (case env_portInfo e of Inr p \<Rightarrow> count_failure c (s\<lparr>topo_slid := pi_LID p, topo_dlid := pi_MasterSMLID p\<rparr>))"
  using assms by (auto simp: master_silent_def sm_check_Master_def check_master_smInfo_def split: sum.splits)

lemma silent_tick:
  assumes "master_silent e" and "sm_state s = SM_STATE_STANDBY" and "fsmMultMaxFail s = 1"
  shows "if fsmCheckMasterFailed s + 1 \<ge> cfg_master_ping_max_fail c
    then sm_state (state_event_timeout c e s) = SM_STATE_DISCOVERING
    else sm_state (state_event_timeout c e s) = SM_STATE_STANDBY \<and>
      fsmCheckMasterFailed (state_event_timeout c e s) = fsmCheckMasterFailed s + 1 \<and>
      fsmMultMaxFail (state_event_timeout c e s) = 1"
  using assms(2,3)
  by (auto simp: state_event_timeout_def silent_check[OF assms(1)] count_failure_def to_discovering_def Let_def
      legal_transition_def fsm_frame split: sum.splits prod.splits)
     (use assms(1) in \<open>auto simp: master_silent_def split: sum.splits\<close>)

lemma ping_count_word:
  fixes m :: u32
  assumes "Suc n < max 1 (unat m)"
  shows "\<not> m \<le> of_nat n + 1"
proof -
  have "unat m < 2 ^ 32" using unat_u32_less[of m] by simp
  then have "unat (of_nat (Suc n) :: u32) = Suc n" using assms by (intro unat_of_nat_u32) (simp add: max_def split: if_splits)
  then show ?thesis using assms by (simp add: word_le_nat_alt add.commute)
qed

lemma silent_run:
  assumes "sm_state s = SM_STATE_STANDBY" "fsmCheckMasterFailed s = 0" "fsmMultMaxFail s = 1"
  shows "list_all master_silent es \<Longrightarrow> length es < max 1 (unat (cfg_master_ping_max_fail c)) \<Longrightarrow>
    sm_state (fold (state_event_timeout c) es s) = SM_STATE_STANDBY \<and>
    fsmCheckMasterFailed (fold (state_event_timeout c) es s) = of_nat (length es) \<and>
    fsmMultMaxFail (fold (state_event_timeout c) es s) = 1"
proof (induction es rule: rev_induct)
  case (snoc e es)
  have ih: "sm_state (fold (state_event_timeout c) es s) = SM_STATE_STANDBY"
    "fsmCheckMasterFailed (fold (state_event_timeout c) es s) = of_nat (length es)"
    "fsmMultMaxFail (fold (state_event_timeout c) es s) = 1" "master_silent e"
    using snoc by simp_all
  have "\<not> cfg_master_ping_max_fail c \<le> of_nat (length es) + 1"
    using ping_count_word[of "length es"] snoc.prems(2) by simp
  then show ?case using silent_tick[OF ih(4,1,3), of c] ih(2) by (simp add: add.commute)
qed (use assms in simp)

lemma silent_last:
  assumes "sm_state s = SM_STATE_STANDBY" "fsmMultMaxFail s = 1" "fsmCheckMasterFailed s = of_nat n" "master_silent e"
    and "Suc n = max 1 (unat (cfg_master_ping_max_fail c))"
  shows "sm_state (state_event_timeout c e s) = SM_STATE_DISCOVERING"
proof -
  have "n < 2 ^ 32" using assms(5) unat_u32_less[of "cfg_master_ping_max_fail c"] by (auto simp: max_def split: if_splits)
  moreover have "cfg_master_ping_max_fail c \<le> of_nat n + 1"
  proof (cases "cfg_master_ping_max_fail c = 0")
    case False
    then have "Suc n = unat (cfg_master_ping_max_fail c)" using assms(5) unat_pos_u32[OF False] by simp
    then have "cfg_master_ping_max_fail c = of_nat (Suc n)" by (simp del: of_nat_Suc)
    then show ?thesis by (simp add: add.commute)
  qed simp
  ultimately show ?thesis using silent_tick[OF assms(4,1,2), of c] assms(3) by simp
qed

text \<open>Requests answered while the topology thread is still busy with the previous one.\<close>

definition handoffs :: "fsm \<Rightarrow> nat" where
  "handoffs s = length (filter (\<lambda>x. x = TriggerSweep SM_SWEEP_REASON_HANDOFF) (effects s))"

lemma handoffs_frame:
  "handoffs (emit x s) = handoffs s + (if x = TriggerSweep SM_SWEEP_REASON_HANDOFF then 1 else 0)"
  "handoffs (sm_trigger_sweep r s) = handoffs s + (if r = SM_SWEEP_REASON_HANDOFF then 1 else 0)"
  by (auto simp: handoffs_def fsm_frame)

lemma check_record_frame:
  "handoffs (check_sm_record e i s) = handoffs s \<and> handover_sent (check_sm_record e i s) = handover_sent s \<and>
   triggered_handover (check_sm_record e i s) = triggered_handover s \<and> sm_smInfo (check_sm_record e i s) = sm_smInfo s"
  by (simp add: check_sm_record_def handoffs_frame fsm_frame split: option.splits)

lemma handoffs_upd [simp]:
  "handoffs (s\<lparr>triggered_handover := b\<rparr>) = handoffs s" "handoffs (s\<lparr>sm_smInfo := i\<rparr>) = handoffs s"
  by (simp_all add: handoffs_def)

lemma get_handoff:
  assumes "\<not> handover_sent s"
  shows "handoffs (handle_get c e maip mk i d u s) \<le> handoffs s + (if triggered_handover s then 0 else 1) \<and>
    (handoffs (handle_get c e maip mk i d u s) = handoffs s \<or> triggered_handover (handle_get c e maip mk i d u s)) \<and>
    \<not> handover_sent (handle_get c e maip mk i d u s) \<and>
    (triggered_handover s \<longrightarrow> triggered_handover (handle_get c e maip mk i d u s))"
proof -
  define s2 where "s2 = emit (Reply (mi_status maip) (get_reply_info e mk
      (s\<lparr>sm_smInfo := (sm_smInfo s)\<lparr>ActCount := ActCount (sm_smInfo s) + 1\<rparr>\<rparr>)))
      (s\<lparr>sm_smInfo := (sm_smInfo s)\<lparr>ActCount := ActCount (sm_smInfo s) + 1\<rparr>\<rparr>)"
  have s2: "handoffs s2 = handoffs s" "handover_sent s2 = handover_sent s" "triggered_handover s2 = triggered_handover s"
    by (simp_all add: s2_def handoffs_frame fsm_frame)
  have "handle_get c e maip mk i d u s = (if i \<and> SMStateCurrent (sm_smInfo s2) = SM_STATE_MASTER
      then get_from_sm c e (mi_info maip) d u s2 else s2)"
    by (simp add: handle_get_def Let_def s2_def)
  then show ?thesis
    using check_record_frame[of e "mi_info maip" s2] assms s2
    by (auto simp: get_from_sm_def consider_handover_def Let_def handoffs_frame fsm_frame)
qed

section \<open>Properties\<close>

text \<open>A configuration, environment and request for concrete instances.\<close>

definition ex_cfg :: fsm_cfg where
  "ex_cfg = \<lparr>cfg_mkey = 5, cfg_mkey_protect_level = 1, cfg_timer = 300, cfg_priority = 1, cfg_elevated_priority = 4,
     cfg_monitor_standby_enable = True, cfg_master_ping_max_fail = 3, cfg_masterCheckInterval = 5\<rparr>"

definition ex_info :: "u64 \<Rightarrow> u4 \<Rightarrow> u4 \<Rightarrow> STL_SM_INFO" where
  "ex_info guid prio st = \<lparr>PortGUID = guid, SM_Key = 9, ActCount = 0, ElapsedTime = 0, Priority = prio,
     ElevatedPriority = 0, InitialPriority = prio, SMStateCurrent = st\<rparr>"

definition ex_env :: fsm_env where
  "ex_env = \<lparr>env_now = 1000, env_time = 50, env_vfs = True, env_passcount = 1, env_node_by_guid = (\<lambda>g. Some (Some g)),
     env_node_by_lid = (\<lambda>_. None), env_fullSyncCheck = VSTATUS_OK, env_uptodate = True, env_smLock = VSTATUS_OK,
     env_smMap = (\<lambda>_. Some 2), env_portInfo = Inr \<lparr>pi_LID = 4, pi_MasterSMLID = 1, pi_PortState = 4\<rparr>,
     env_smInfo = Inl VSTATUS_TIMEOUT\<rparr>"

definition ex_mad :: "u8 \<Rightarrow> u32 \<Rightarrow> u64 \<Rightarrow> STL_SM_INFO \<Rightarrow> Mai_t" where
  "ex_mad meth amod key info = \<lparr>mi_aid = 0x20, mi_method = meth, mi_amod = amod, mi_status = 0, mi_mclass = 1,
     mi_hopCount = 0, mi_mkey = key, mi_slid = 1, mi_dlid = 4, mi_info = info, mi_RetPath = replicate 64 0\<rparr>"

definition ex_state :: "u32 \<Rightarrow> fsm" where
  "ex_state st = (fsm_init ex_cfg 7 9)\<lparr>sm_state := st, sm_smInfo := ex_info 7 1 (ucast st)\<rparr>"

text \<open>
  C5. Safety of the state machine: in every state reachable from initialisation through
  SMInfo packets, timer events, transition requests and priority changes, in any order,
  the SM is in one of its four states and the SMInfo it shows to other SMs carries it.
\<close>

theorem fsm_reachable_ok:
  assumes "rtranclp (fsm_step c) (fsm_init c portguid smkey) s"
  shows "sm_state s \<in> {SM_STATE_NOTACTIVE, SM_STATE_DISCOVERING, SM_STATE_STANDBY, SM_STATE_MASTER} \<and>
    SMStateCurrent (sm_smInfo s) = ucast (sm_state s)"
  using fsm_inv.inv_reach[OF assms] by (simp add: fsm_ok_def fsm_init_def)

theorem fsm_reachable_ok_witness:
  "SMStateCurrent (sm_smInfo (snd (sm_transition ex_cfg ex_env SM_STATE_DISCOVERING (fsm_init ex_cfg 7 9)))) =
   ucast (sm_state (snd (sm_transition ex_cfg ex_env SM_STATE_DISCOVERING (fsm_init ex_cfg 7 9))))"
  using fsm_reachable_ok[OF r_into_rtranclp[where r = "fsm_step ex_cfg", OF fsm_step.request[of ex_cfg "fsm_init ex_cfg 7 9" ex_env SM_STATE_DISCOVERING]]]
  by (rule conjunct2)

text \<open>
  One event moves the SM along at most one legal transition: from MASTER only to STANDBY
  or NOTACTIVE, never directly to DISCOVERING; from NOTACTIVE never to MASTER.
\<close>

theorem fsm_step_legal:
  assumes "fsm_step c s s'"
  shows "sm_state s' = sm_state s \<or> legal_transition (sm_state s) (sm_state s')"
  using step_moves[OF assms] by (simp add: moves_def)

theorem fsm_step_legal_witness:
  "sm_state (state_event_timeout ex_cfg ex_env (ex_state 2)) = sm_state (ex_state 2) \<or>
   legal_transition (sm_state (ex_state 2)) (sm_state (state_event_timeout ex_cfg ex_env (ex_state 2)))"
  by (rule fsm_step_legal[OF fsm_step.timeout])

text \<open>
  C6. The only packet that makes an SM master: a Set(SMInfo) HANDOVER from a master, with
  the right M_Key (or no key configured), received in STANDBY. Whenever that packet is
  handled the SM becomes master, and it has acknowledged the handover with its SMInfo and
  has woken the topology thread.
\<close>

theorem mad_becomes_master_iff:
  assumes "state_event_mad c e maip s = Inr (st, s')" and "sm_state s \<noteq> SM_STATE_MASTER"
    and "mi_aid maip = MAD_SMA_SMINFO"
  shows "(sm_state s' = SM_STATE_MASTER \<longleftrightarrow>
      sm_state s = SM_STATE_STANDBY \<and> mi_method maip \<noteq> MAD_CM_GET \<and> mi_amod maip = SM_AMOD_HANDOVER \<and>
      SMStateCurrent (mi_info maip) = SM_STATE_MASTER \<and> (cfg_mkey c = 0 \<or> mi_mkey maip = cfg_mkey c)) \<and>
    (sm_state s' = SM_STATE_MASTER \<longrightarrow>
      (\<exists>p. SetSMInfo SM_AMOD_ACKNOWLEDGE p (sm_smInfo (reply (mi_status maip) s)) (cfg_mkey c) \<in> set (effects s')) \<and>
      TriggerSweep SM_SWEEP_REASON_STATE_TRANSITION \<in> set (effects s'))"
proof (cases "mi_method maip \<noteq> MAD_CM_GET \<and> sm_mkey_check c maip \<noteq> VSTATUS_MISMATCH")
  case True
  then have hs: "handle_set c e maip s = Inr s'"
    using assms mad_set_iff[of maip s c e] by (cases "handle_set c e maip s") auto
  show ?thesis
    using set_to_master[OF hs assms(2)] set_handover_effects[OF hs] mkey_set[of maip c] True by auto
next
  case False
  then have "sm_state s' = sm_state s"
    using assms by (auto simp: state_event_mad_def identify_def Let_def get_frame split: if_splits)
  then show ?thesis using assms(2) False mkey_set[of maip c] by auto
qed

theorem mad_becomes_master_iff_witness:
  "case state_event_mad ex_cfg ex_env (ex_mad MAD_CM_SET SM_AMOD_HANDOVER 5 (ex_info 3 1 SM_STATE_MASTER)) (ex_state 2) of
     Inl _ \<Rightarrow> False | Inr (st, s') \<Rightarrow> sm_state s' = SM_STATE_MASTER"
proof -
  let ?m = "ex_mad MAD_CM_SET SM_AMOD_HANDOVER 5 (ex_info 3 1 SM_STATE_MASTER)"
  have "\<exists>st s'. state_event_mad ex_cfg ex_env ?m (ex_state 2) = Inr (st, s')"
    by (simp add: state_event_mad_def ex_mad_def ex_state_def ex_info_def ex_cfg_def ex_env_def fsm_init_def
        identify_def sm_mkey_check_def handle_set_def sm_fsm_standby_def standby_request_def finish_handover_def
        ack_handover_def)
  then obtain st s' where r: "state_event_mad ex_cfg ex_env ?m (ex_state 2) = Inr (st, s')" by auto
  show ?thesis using mad_becomes_master_iff[OF r] unfolding r
    by (simp add: ex_mad_def ex_state_def ex_info_def ex_cfg_def)
qed

text \<open>
  C7. Failover after exactly the configured number of silent pings: a standby whose master
  stops answering stays STANDBY for the first \<open>master_ping_max_fail - 1\<close> checks and is
  DISCOVERING after the last one (a limit of 0 acts like 1).
\<close>

theorem standby_failover_after_max_fail:
  assumes "sm_state s = SM_STATE_STANDBY" and "fsmCheckMasterFailed s = 0" and "fsmMultMaxFail s = 1"
    and "list_all master_silent es" and "length es \<le> max 1 (unat (cfg_master_ping_max_fail c))"
  shows "sm_state (fold (state_event_timeout c) es s) =
    (if length es < max 1 (unat (cfg_master_ping_max_fail c)) then SM_STATE_STANDBY else SM_STATE_DISCOVERING)"
proof (cases "length es < max 1 (unat (cfg_master_ping_max_fail c))")
  case True
  then show ?thesis using silent_run[OF assms(1-4)] by simp
next
  case False
  then have len: "length es = max 1 (unat (cfg_master_ping_max_fail c))" using assms(5) by simp
  then have "es \<noteq> []" by auto
  then obtain fs e where es: "es = fs @ [e]" by (cases es rule: rev_cases) auto
  have run: "sm_state (fold (state_event_timeout c) fs s) = SM_STATE_STANDBY"
    "fsmCheckMasterFailed (fold (state_event_timeout c) fs s) = of_nat (length fs)"
    "fsmMultMaxFail (fold (state_event_timeout c) fs s) = 1"
    using silent_run[OF assms(1-3), of fs c] assms(4) len by (simp_all add: es)
  show ?thesis
    using silent_last[OF run(1,3,2), of e c] assms(4) len by (simp add: es)
qed

theorem standby_failover_after_max_fail_witness:
  "sm_state (fold (state_event_timeout ex_cfg) [ex_env, ex_env] (ex_state 2)) = SM_STATE_STANDBY \<and>
   sm_state (fold (state_event_timeout ex_cfg) [ex_env, ex_env, ex_env] (ex_state 2)) = SM_STATE_DISCOVERING"
proof -
  have p: "sm_state (ex_state 2) = SM_STATE_STANDBY" "fsmCheckMasterFailed (ex_state 2) = 0"
    "fsmMultMaxFail (ex_state 2) = 1" "master_silent ex_env" "unat (cfg_master_ping_max_fail ex_cfg) = 3"
    by (simp_all add: ex_state_def fsm_init_def master_silent_def ex_env_def ex_cfg_def)
  show ?thesis
    using standby_failover_after_max_fail[OF p(1-3), of "[ex_env, ex_env]" ex_cfg]
      standby_failover_after_max_fail[OF p(1-3), of "[ex_env, ex_env, ex_env]" ex_cfg] p(4,5) by simp
qed



text \<open>
  C17. The SM key is never disclosed to a Get with a wrong M_Key at protection level 1 or
  above: at level 1 the SMInfo of the reply has the key zeroed, at higher levels there is no
  reply at all.
\<close>

theorem get_hides_sm_key:
  assumes "cfg_mkey c \<noteq> 0" and "mi_mkey maip \<noteq> cfg_mkey c" and "cfg_mkey_protect_level c > 0"
    and "mi_method maip = MAD_CM_GET" and "state_event_mad c e maip s = Inr (st, s')"
    and "Reply r info \<in> set (effects s')"
  shows "Reply r info \<in> set (effects s) \<or> SM_Key info = 0"
proof -
  obtain i d u s1 where id: "identify e maip s = (i, d, u, s1)" by (metis prod_cases4)
  have old: "Reply r info \<in> set (effects s1) \<Longrightarrow> Reply r info \<in> set (effects s)"
    using identify_frame[OF id] by auto
  have mk: "sm_mkey_check c maip = VSTATUS_MISMATCH \<or> sm_mkey_check c maip = VSTATUS_CONDITIONAL"
    using assms(1-4) by (auto simp: sm_mkey_check_def)
  have g: "Reply r info \<in> set (effects (handle_get c e maip VSTATUS_CONDITIONAL i d u s1)) \<Longrightarrow>
    Reply r info \<in> set (effects s1) \<or> SM_Key info = 0"
    by (auto simp: handle_get_def get_reply_info_def get_from_sm_def consider_handover_def check_sm_record_def
        Let_def fsm_frame split: if_splits option.splits)
  show ?thesis
    using assms(4-6) mk old g unfolding state_event_mad_def id by (auto simp: Let_def split: if_splits)
qed

theorem get_hides_sm_key_witness:
  "case state_event_mad ex_cfg ex_env (ex_mad MAD_CM_GET 0 6 (ex_info 3 1 2)) (ex_state 2) of
     Inl _ \<Rightarrow> False
   | Inr (st, s') \<Rightarrow> (case effects s' of [Reply r info] \<Rightarrow> SM_Key info = 0 | _ \<Rightarrow> False)"
proof -
  let ?m = "ex_mad MAD_CM_GET 0 6 (ex_info 3 1 2)"
  have h: "cfg_mkey ex_cfg \<noteq> 0" "mi_mkey ?m \<noteq> cfg_mkey ex_cfg" "cfg_mkey_protect_level ex_cfg > 0"
    "mi_method ?m = MAD_CM_GET" and e: "effects (ex_state 2) = []"
    by (simp_all add: ex_cfg_def ex_mad_def ex_state_def fsm_init_def)
  have "\<exists>st s' r info. state_event_mad ex_cfg ex_env ?m (ex_state 2) = Inr (st, s') \<and> effects s' = [Reply r info]"
    by (simp add: state_event_mad_def ex_mad_def ex_state_def ex_info_def ex_cfg_def ex_env_def fsm_init_def
        identify_def sm_mkey_check_def handle_get_def Let_def fsm_frame)
  then obtain st s' r info where r: "state_event_mad ex_cfg ex_env ?m (ex_state 2) = Inr (st, s')"
    "effects s' = [Reply r info]" by auto
  show ?thesis using get_hides_sm_key[OF h r(1), of r info] by (simp add: r e)
qed

text \<open>
  Pings of a better standby trigger one handover sweep, not one per ping: over any
  sequence of Get(SMInfo) requests handled before the topology thread has sent the
  handover, at most one HANDOFF sweep is triggered.
\<close>

theorem handoff_triggered_once:
  assumes "\<not> handover_sent s"
  shows "handoffs (fold (\<lambda>(e, maip, mk, i, d, u). handle_get c e maip mk i d u) reqs s) \<le> handoffs s + 1"
proof -
  have "handoffs (fold (\<lambda>(e, maip, mk, i, d, u). handle_get c e maip mk i d u) reqs s)
      \<le> handoffs s + (if triggered_handover s then 0 else 1)"
    using assms
  proof (induction reqs arbitrary: s)
    case (Cons q reqs)
    obtain e maip mk i d u where q: "q = (e, maip, mk, i, d, u)" by (metis prod_cases6)
    note g = get_handoff[OF Cons.prems, of c e maip mk i d u]
    have "handoffs (fold (\<lambda>(e, maip, mk, i, d, u). handle_get c e maip mk i d u) reqs (handle_get c e maip mk i d u s))
      \<le> handoffs (handle_get c e maip mk i d u s) +
         (if triggered_handover (handle_get c e maip mk i d u s) then 0 else 1)"
      using Cons.IH[of "handle_get c e maip mk i d u s"] g by simp
    then show ?case using g by (auto simp: q split: if_splits)
  qed simp
  then show ?thesis by (auto split: if_splits)
qed

theorem handoff_triggered_once_witness:
  "handoffs (fold (\<lambda>(e, maip, mk, i, d, u). handle_get ex_cfg e maip mk i d u)
     (replicate 5 (ex_env, ex_mad MAD_CM_GET 0 5 (ex_info 3 8 2), VSTATUS_OK, True, VSTATUS_OK, True)) (ex_state 3)) \<le> 1"
  using handoff_triggered_once[of "ex_state 3" ex_cfg
      "replicate 5 (ex_env, ex_mad MAD_CM_GET 0 5 (ex_info 3 8 2), VSTATUS_OK, True, VSTATUS_OK, True)"]
  by (simp add: ex_state_def fsm_init_def handoffs_def)

text \<open>
  C18. The directed path of a handover acknowledgement visits the ports of the request's
  return path in reverse; a request with a hop count of 64 or more, which no check in the
  handler excludes, overruns the 64-byte path array.
\<close>

theorem handover_ack_path:
  assumes "length rpath = 64"
  shows "(unat hops < 64 \<longrightarrow> (\<exists>p. ack_ipath hops rpath = Inr p \<and> length p = 64 \<and> p ! 0 = hops \<and>
      take (unat hops) (drop 1 p) = rev (take (unat hops) (drop 1 rpath)))) \<and>
    (unat hops \<ge> 64 \<longrightarrow> ack_ipath hops rpath = Inl OutOfBounds)"
proof -
  have "map (\<lambda>i. rpath ! (unat hops + 1 - i)) [1..<unat hops + 1] = rev (take (unat hops) (drop 1 rpath))"
    if "unat hops < 64"
    using that assms by (intro nth_equalityI) (auto simp: rev_nth Suc_diff_Suc simp del: upt_Suc)
  then show ?thesis using assms by (auto simp: ack_ipath_def Let_def)
qed

theorem handover_ack_path_witness:
  "\<exists>p. ack_ipath 2 ([0, 7, 9] @ replicate 61 0) = Inr p \<and> take 2 (drop 1 p) = [9, 7]"
  using handover_ack_path[of "[0, 7, 9] @ replicate 61 0" 2] by auto

text \<open>
  An illegal request to a master (such as MASTER to DISCOVERING) is refused with
  \<open>VSTATUS_BAD\<close> and leaves it master, but its elevated priority is restored to the configured
  one all the same and a sweep is forced.
\<close>

theorem master_illegal_request_restores_priority:
  assumes "sm_state s = SM_STATE_MASTER" and "n \<notin> {SM_STATE_MASTER, SM_STATE_STANDBY, SM_STATE_NOTACTIVE}"
  shows "fst (sm_transition c e n s) = VSTATUS_BAD \<and> sm_state (snd (sm_transition c e n s)) = SM_STATE_MASTER \<and>
    Priority (sm_smInfo (snd (sm_transition c e n s))) = ucast (cfg_priority c) \<and>
    new_sm_timer (snd (sm_transition c e n s)) = cfg_timer c"
  using assms by (auto simp: sm_transition_def legal_transition_def Let_def fsm_frame)

theorem master_illegal_request_restores_priority_witness:
  "fst (sm_transition ex_cfg ex_env SM_STATE_DISCOVERING (sm_elevatePriority ex_cfg ((ex_state 3)\<lparr>sm_saw_another_sm := True\<rparr>)))
     = VSTATUS_BAD \<and>
   Priority (sm_smInfo (sm_elevatePriority ex_cfg ((ex_state 3)\<lparr>sm_saw_another_sm := True\<rparr>))) = 4 \<and>
   Priority (sm_smInfo (snd (sm_transition ex_cfg ex_env SM_STATE_DISCOVERING
     (sm_elevatePriority ex_cfg ((ex_state 3)\<lparr>sm_saw_another_sm := True\<rparr>))))) = 1"
proof -
  let ?s = "sm_elevatePriority ex_cfg ((ex_state 3)\<lparr>sm_saw_another_sm := True\<rparr>)"
  have st: "sm_state ?s = SM_STATE_MASTER" by (simp add: fsm_frame ex_state_def)
  have "Priority (sm_smInfo ?s) = 4"
    by (simp add: sm_elevatePriority_def set_priority_def ex_cfg_def Let_def fsm_frame)
  then show ?thesis
    using master_illegal_request_restores_priority[OF st, of SM_STATE_DISCOVERING ex_cfg ex_env]
    by (simp add: ex_cfg_def)
qed

end
