(* ===== verification/SmElection.thy ===== *)
theory SmElection
  imports SmFsm CsHashtable
begin

text \<open>
  The election of the master at the end of a discovery sweep: \<open>topology_transition\<close> of
  \<^verbatim>\<open>sm_topology.c\<close>. The SM records found by the sweep are the values of the hash table
  \<open>smRecords.smMap\<close>, walked with its iterator; the state is that of the SM state machine.
  The dbsync state of the other SM and the result of sending it a HANDOVER are arguments.
\<close>

section \<open>Model\<close>

record SmRec =
  sr_portguid :: u64
  sr_SMInfo :: STL_SM_INFO
  sr_path :: "u8 list"

definition sm_records :: "(u64, SmRec) cs_hashtable \<Rightarrow> SmRec list" where
  "sm_records h = map (cs_hashtable_iterator_value h) (iterate (cs_hashtable_count h + 1) h (cs_hashtable_iterator h))"

text \<open>The loop that looks for the best other SM: skip, or keep the better of two.\<close>

definition sm_candidate :: "STL_SM_INFO \<Rightarrow> SmRec \<Rightarrow> bool" where
  "sm_candidate mine r \<longleftrightarrow>
     \<not> (sr_portguid r = PortGUID mine \<or> SMStateCurrent (sr_SMInfo r) = SM_STATE_NOTACTIVE \<or>
        SM_Key (sr_SMInfo r) \<noteq> SM_Key mine)"

definition pick_top :: "STL_SM_INFO \<Rightarrow> SmRec \<Rightarrow> SmRec option \<Rightarrow> SmRec option" where
  "pick_top mine smrecp topSm =
     (if \<not> sm_candidate mine smrecp then topSm
      else case topSm of
             None \<Rightarrow> Some smrecp
           | Some t \<Rightarrow>
               if Priority (sr_SMInfo t) > Priority (sr_SMInfo smrecp) then Some t
               else if Priority (sr_SMInfo t) < Priority (sr_SMInfo smrecp) then Some smrecp
               else if PortGUID (sr_SMInfo t) > PortGUID (sr_SMInfo smrecp) then Some smrecp
               else Some t)"

definition find_topSm :: "(u64, SmRec) cs_hashtable \<Rightarrow> STL_SM_INFO \<Rightarrow> SmRec option" where
  "find_topSm h mine = (if cs_hashtable_count h > 1 then fold (pick_top mine) (sm_records h) None else None)"

text \<open>The three outcomes the master remembers: hand over now, later, or wait for the other.\<close>

record decision =
  doHandover :: bool
  willHandover :: bool
  suspendDiscovery :: bool

definition no_decision :: decision where
  "no_decision = \<lparr>doHandover = False, willHandover = False, suspendDiscovery = False\<rparr>"

definition discovering_resolve :: "fsm_cfg \<Rightarrow> fsm_env \<Rightarrow> SmRec \<Rightarrow> fsm \<Rightarrow> fsm" where
  "discovering_resolve c e topSm s =
     (let t = sr_SMInfo topSm; m = sm_smInfo s; standby = snd (sm_transition c e SM_STATE_STANDBY (s\<lparr>topo_sm_path := sr_path topSm\<rparr>))
      in if SMStateCurrent t = SM_STATE_MASTER then standby
         else if SMStateCurrent t = SM_STATE_STANDBY \<or> SMStateCurrent t = SM_STATE_DISCOVERING
         then (if Priority m > Priority t \<or> Priority m = Priority t \<and> PortGUID m < PortGUID t
               then snd (sm_transition c e SM_STATE_MASTER s) else standby)
         else s)"

definition master_resolve :: "bool \<Rightarrow> SmRec \<Rightarrow> fsm \<Rightarrow> decision" where
  "master_resolve uptodate topSm s =
     (let t = sr_SMInfo topSm; m = sm_smInfo s;
          lose = (Priority m < Priority t \<or> Priority m = Priority t \<and> PortGUID m > PortGUID t)
      in if SMStateCurrent t = SM_STATE_MASTER \<or> SMStateCurrent t = SM_STATE_STANDBY
         then (if lose then no_decision\<lparr>willHandover := True, doHandover := uptodate\<rparr>
               else if SMStateCurrent t = SM_STATE_MASTER then no_decision\<lparr>suspendDiscovery := True\<rparr>
               else no_decision)
         else if SMStateCurrent t = SM_STATE_DISCOVERING
         then (if lose then no_decision\<lparr>willHandover := True\<rparr> else no_decision)
         else no_decision)"

definition send_handover :: "fsm_cfg \<Rightarrow> Status_t \<Rightarrow> SmRec \<Rightarrow> fsm \<Rightarrow> fsm" where
  "send_handover c sent topSm s =
     (let i = (sm_smInfo s)\<lparr>ActCount := ActCount (sm_smInfo s) + 1\<rparr>;
          s1 = emit (SetSMInfo SM_AMOD_HANDOVER (Some (sr_path topSm)) i (cfg_mkey c)) (s\<lparr>sm_smInfo := i\<rparr>);
          s2 = (if sent = VSTATUS_OK then s1\<lparr>topo_sm_path := sr_path topSm\<rparr> else s1)
      in s2\<lparr>handover_sent := True\<rparr>)"

definition topology_transition ::
  "fsm_cfg \<Rightarrow> fsm_env \<Rightarrow> (u64 \<Rightarrow> bool) \<Rightarrow> Status_t \<Rightarrow> (u64, SmRec) cs_hashtable \<Rightarrow> fsm \<Rightarrow> Status_t \<times> fsm" where
  "topology_transition c e isUpToDate sent h s0 =
     (let s = (if cs_hashtable_count h > 1 then s0\<lparr>sm_saw_another_sm := True\<rparr> else s0)
      in case find_topSm h (sm_smInfo s) of
           None \<Rightarrow>
             (VSTATUS_OK, sm_elevatePriority c
                (if sm_state s \<noteq> SM_STATE_MASTER then snd (sm_transition c e SM_STATE_MASTER s) else s))
         | Some topSm \<Rightarrow>
             let mine = SMStateCurrent (sm_smInfo s);
                 s1 = (if mine = SM_STATE_DISCOVERING then discovering_resolve c e topSm s else s);
                 d = (if mine = SM_STATE_MASTER then master_resolve (isUpToDate (PortGUID (sr_SMInfo topSm))) topSm s
                      else no_decision);
                 s2 = (if doHandover d then send_handover c sent topSm s1
                       else if sm_state s1 = SM_STATE_MASTER \<and> \<not> willHandover d then sm_elevatePriority c s1
                       else s1)
             in (if sm_state s2 \<noteq> SM_STATE_MASTER \<or> suspendDiscovery d \<or> doHandover d
                 then VSTATUS_NOT_MASTER else VSTATUS_OK, s2))"

section \<open>The ranking of SMs\<close>

text \<open>The rule the election implements: higher priority first, then the lower port GUID.\<close>

definition outranks :: "STL_SM_INFO \<Rightarrow> STL_SM_INFO \<Rightarrow> bool" where
  "outranks a b \<longleftrightarrow> Priority a > Priority b \<or> Priority a = Priority b \<and> PortGUID a < PortGUID b"

lemma outranks_trans: "outranks a b \<Longrightarrow> outranks b c \<Longrightarrow> outranks a c"
  by (auto simp: outranks_def)

lemma outranks_asym: "outranks a b \<Longrightarrow> \<not> outranks b a"
  by (auto simp: outranks_def)

lemma outranks_total: "PortGUID a \<noteq> PortGUID b \<Longrightarrow> outranks a b \<or> outranks b a"
  by (auto simp: outranks_def)

lemma pick_top_Some:
  "pick_top mine r (Some t) =
     Some (if sm_candidate mine r \<and> outranks (sr_SMInfo r) (sr_SMInfo t) then r else t)"
  by (auto simp: pick_top_def outranks_def)

lemma pick_top_None: "pick_top mine r None = (if sm_candidate mine r then Some r else None)"
  by (simp add: pick_top_def)

lemma fold_pick_top:
  "case fold (pick_top mine) recs None of
     None \<Rightarrow> \<forall>r \<in> set recs. \<not> sm_candidate mine r
   | Some t \<Rightarrow> t \<in> set recs \<and> sm_candidate mine t \<and>
       (\<forall>r \<in> set recs. sm_candidate mine r \<longrightarrow> \<not> outranks (sr_SMInfo r) (sr_SMInfo t))"
proof (induction recs rule: rev_induct)
  case (snoc r recs)
  show ?case
  proof (cases "fold (pick_top mine) recs None")
    case None
    then show ?thesis using snoc by (auto simp: pick_top_None dest: outranks_asym)
  next
    case (Some t)
    then show ?thesis using snoc by (auto simp: pick_top_Some dest: outranks_asym outranks_trans)
  qed
qed simp

lemma sm_records_assoc: "ht_inv h \<Longrightarrow> sm_records h = rev (map snd (ht_assoc h))"
  using iterate_suffix[of h "[]" "elist h" "cs_hashtable_count h + 1"] ht_coreD(5)[of h]
  by (simp add: sm_records_def ht_inv_def cs_hashtable_count_def cs_hashtable_iterator_def ht_assoc_def
      cs_hashtable_iterator_value_def rev_map)

lemma sm_records_length: "ht_inv h \<Longrightarrow> cs_hashtable_count h = length (sm_records h)"
  by (simp add: sm_records_assoc count_assoc)

section \<open>Election lemmas\<close>

text \<open>
  What an SM has seen when every SM of the fabric takes part: its table holds one record per
  SM, itself included, each under the port GUID of its SMInfo.
\<close>

definition full_view :: "STL_SM_INFO list \<Rightarrow> (u64, SmRec) cs_hashtable \<Rightarrow> bool" where
  "full_view infos h \<longleftrightarrow> ht_inv h \<and> length (sm_records h) = length infos \<and>
     set (map sr_SMInfo (sm_records h)) = set infos \<and>
     list_all (\<lambda>r. sr_portguid r = PortGUID (sr_SMInfo r)) (sm_records h)"

definition same_election :: "STL_SM_INFO list \<Rightarrow> bool" where
  "same_election infos \<longleftrightarrow> infos \<noteq> [] \<and> distinct (map PortGUID infos) \<and>
     list_all (\<lambda>i. SMStateCurrent i = SM_STATE_DISCOVERING \<and> SM_Key i = SM_Key (hd infos)) infos"

definition best :: "STL_SM_INFO list \<Rightarrow> STL_SM_INFO \<Rightarrow> bool" where
  "best infos i \<longleftrightarrow> i \<in> set infos \<and> list_all (\<lambda>j. \<not> outranks j i) infos"

lemma best_exists: "infos \<noteq> [] \<Longrightarrow> \<exists>i. best infos i"
proof (induction infos)
  case (Cons a infos)
  show ?case
  proof (cases "infos = []")
    case True
    then have "best (a # infos) a" by (auto simp: best_def dest: outranks_asym)
    then show ?thesis ..
  next
    case False
    then obtain b where b: "best infos b" using Cons by auto
    have "best (a # infos) (if outranks a b then a else b)"
      using b by (auto simp: best_def list_all_iff dest: outranks_asym outranks_trans)
    then show ?thesis ..
  qed
qed simp

lemma same_electionD:
  assumes "same_election infos" and "i \<in> set infos" and "j \<in> set infos"
  shows "SMStateCurrent i = SM_STATE_DISCOVERING" "SM_Key i = SM_Key j" "i \<noteq> j \<Longrightarrow> PortGUID i \<noteq> PortGUID j"
proof -
  have all: "SMStateCurrent x = SM_STATE_DISCOVERING" "SM_Key x = SM_Key (hd infos)" if "x \<in> set infos" for x
    using assms(1) that unfolding same_election_def list_all_iff by blast+
  show "SMStateCurrent i = SM_STATE_DISCOVERING" by (rule all(1)[OF assms(2)])
  show "SM_Key i = SM_Key j" by (simp only: all(2)[OF assms(2)] all(2)[OF assms(3)])
  show "PortGUID i \<noteq> PortGUID j" if "i \<noteq> j"
    using assms that unfolding same_election_def distinct_map by (blast dest: inj_onD)
qed

lemma best_unique:
  assumes "same_election infos" and "best infos i" and "best infos j"
  shows "i = j"
proof (rule ccontr)
  assume ne: "i \<noteq> j"
  have m: "i \<in> set infos" "j \<in> set infos" "\<not> outranks i j" "\<not> outranks j i"
    using assms(2,3) by (simp_all add: best_def list_all_iff)
  show False using outranks_total[OF same_electionD(3)[OF assms(1) m(1,2) ne]] m(3,4) by blast
qed

lemma candidate_iff:
  assumes "same_election infos" and "full_view infos h" and "i \<in> set infos" and "r \<in> set (sm_records h)"
  shows "sm_candidate i r \<longleftrightarrow> sr_SMInfo r \<noteq> i" and "sr_SMInfo r \<in> set infos"
proof -
  have r: "sr_SMInfo r \<in> set infos" "sr_portguid r = PortGUID (sr_SMInfo r)"
    using assms(2,4) by (auto simp: full_view_def list_all_iff)
  show "sr_SMInfo r \<in> set infos" by (rule r(1))
  show "sm_candidate i r \<longleftrightarrow> sr_SMInfo r \<noteq> i"
    using same_electionD[OF assms(1) r(1) assms(3)] r(2) by (auto simp: sm_candidate_def)
qed

lemma topSm_view:
  assumes "same_election infos" and "full_view infos h" and "i \<in> set infos"
  shows "case find_topSm h i of
      None \<Rightarrow> set infos = {i}
    | Some t \<Rightarrow> sr_SMInfo t \<in> set infos \<and> sr_SMInfo t \<noteq> i \<and> (\<forall>j \<in> set infos. j \<noteq> i \<longrightarrow> \<not> outranks j (sr_SMInfo t))"
proof (cases "cs_hashtable_count h > 1")
  case False
  then have "length infos = 1" using assms(2,3) sm_records_length[of h] by (cases infos) (auto simp: full_view_def)
  then have "set infos = {i}" using assms(3) by (cases infos) auto
  with False show ?thesis by (simp add: find_topSm_def)
next
  case True
  have img: "set infos = sr_SMInfo ` set (sm_records h)" using assms(2) by (simp add: full_view_def)
  show ?thesis
  proof (cases "find_topSm h i")
    case None
    then have "\<forall>r \<in> set (sm_records h). \<not> sm_candidate i r"
      using fold_pick_top[where mine = i and recs = "sm_records h"] True by (simp add: find_topSm_def)
    then show ?thesis using None candidate_iff(1)[OF assms] assms(3) by (auto simp: img)
  next
    case (Some t)
    then have "t \<in> set (sm_records h) \<and> sm_candidate i t \<and>
        (\<forall>r \<in> set (sm_records h). sm_candidate i r \<longrightarrow> \<not> outranks (sr_SMInfo r) (sr_SMInfo t))"
      using fold_pick_top[where mine = i and recs = "sm_records h"] True by (simp add: find_topSm_def)
    then show ?thesis using Some candidate_iff[OF assms] by (auto simp: img)
  qed
qed

lemma discovering_result:
  assumes "sm_state s = SM_STATE_DISCOVERING" and "SMStateCurrent (sm_smInfo s) = SM_STATE_DISCOVERING"
  shows "sm_state (snd (topology_transition c e u r h s)) =
    (case find_topSm h (sm_smInfo s) of
       None \<Rightarrow> SM_STATE_MASTER
     | Some t \<Rightarrow> if SMStateCurrent (sr_SMInfo t) = SM_STATE_MASTER then SM_STATE_STANDBY
         else if SMStateCurrent (sr_SMInfo t) = SM_STATE_STANDBY \<or> SMStateCurrent (sr_SMInfo t) = SM_STATE_DISCOVERING
         then (if outranks (sm_smInfo s) (sr_SMInfo t) then SM_STATE_MASTER else SM_STATE_STANDBY)
         else SM_STATE_DISCOVERING)"
  using assms
  by (simp add: topology_transition_def discovering_resolve_def outranks_def Let_def legal_transition_def
      no_decision_def fsm_frame split: option.splits)

lemma election_result:
  assumes "same_election infos" and "full_view infos h" and "i \<in> set infos"
    and "sm_state s = SM_STATE_DISCOVERING" and "sm_smInfo s = i"
  shows "sm_state (snd (topology_transition c e u r h s)) = (if best infos i then SM_STATE_MASTER else SM_STATE_STANDBY)"
proof -
  have d: "SMStateCurrent i = SM_STATE_DISCOVERING" by (rule same_electionD(1)[OF assms(1,3,3)])
  note res = discovering_result[of s c e u r h, unfolded assms(5), OF assms(4) d]
  show ?thesis
  proof (cases "find_topSm h i")
    case None
    then have "set infos = {i}" using topSm_view[OF assms(1-3)] by simp
    then have "best infos i" by (auto simp: best_def list_all_iff dest: outranks_asym)
    with None res show ?thesis by simp
  next
    case (Some t)
    then have t: "sr_SMInfo t \<in> set infos" "sr_SMInfo t \<noteq> i" "\<forall>j \<in> set infos. j \<noteq> i \<longrightarrow> \<not> outranks j (sr_SMInfo t)"
      using topSm_view[OF assms(1-3)] by simp_all
    note td = same_electionD[OF assms(1) t(1) assms(3)]
    have "outranks i (sr_SMInfo t) \<longleftrightarrow> best infos i"
    proof
      assume o: "outranks i (sr_SMInfo t)"
      then have "\<not> outranks j i" if "j \<in> set infos" for j
        using t(3) that outranks_trans[OF _ o, of j] by (cases "j = i") (auto dest: outranks_asym)
      then show "best infos i" using assms(3) by (auto simp: best_def list_all_iff)
    next
      assume "best infos i"
      then show "outranks i (sr_SMInfo t)" using t(1) td(3)[OF t(2)] outranks_total by (auto simp: best_def list_all_iff)
    qed
    then show ?thesis using res Some td(1) by simp
  qed
qed

lemma master_resolve_saw: "master_resolve u t (s\<lparr>sm_saw_another_sm := b\<rparr>) = master_resolve u t s"
  by (simp add: master_resolve_def)

lemma send_handover_frame:
  "sm_state (send_handover c r t s) = sm_state s" "handover_sent (send_handover c r t s)"
  by (simp_all add: send_handover_def Let_def fsm_frame)

lemma elevate_handover_sent: "handover_sent (sm_elevatePriority c s) = handover_sent s"
  by (simp add: sm_elevatePriority_def set_priority_def Let_def fsm_frame)

lemma master_transition:
  assumes "sm_state s = SM_STATE_MASTER" and "SMStateCurrent (sm_smInfo s) = SM_STATE_MASTER"
    and "find_topSm h (sm_smInfo s) = Some t"
  shows "topology_transition c e u r h s =
    (let s1 = (if cs_hashtable_count h > 1 then s\<lparr>sm_saw_another_sm := True\<rparr> else s);
         d = master_resolve (u (PortGUID (sr_SMInfo t))) t s
     in (if suspendDiscovery d \<or> doHandover d then VSTATUS_NOT_MASTER else VSTATUS_OK,
         if doHandover d then send_handover c r t s1 else if willHandover d then s1 else sm_elevatePriority c s1))"
  using assms
  by (simp add: topology_transition_def Let_def master_resolve_saw send_handover_frame fsm_frame)

section \<open>Properties\<close>

text \<open>
  C4. The election has exactly one winner: when all SMs of a fabric discover each other, with
  distinct port GUIDs and the same SM key, and each runs \<open>topology_transition\<close> on its own
  table, exactly one of them becomes MASTER and all the others become STANDBY, whatever the
  order of the records in their tables.
\<close>

theorem election_unique_master:
  assumes "same_election infos"
    and "\<And>i. i \<in> set infos \<Longrightarrow> full_view infos (h i) \<and> sm_state (s i) = SM_STATE_DISCOVERING \<and> sm_smInfo (s i) = i"
  shows "(\<exists>!i. i \<in> set infos \<and> sm_state (snd (topology_transition (c i) (e i) (u i) (r i) (h i) (s i))) = SM_STATE_MASTER) \<and>
    (\<forall>i. i \<in> set infos \<longrightarrow>
      sm_state (snd (topology_transition (c i) (e i) (u i) (r i) (h i) (s i))) \<in> {SM_STATE_MASTER, SM_STATE_STANDBY})"
proof -
  define f where "f i = sm_state (snd (topology_transition (c i) (e i) (u i) (r i) (h i) (s i)))" for i
  have res: "f i = (if best infos i then SM_STATE_MASTER else SM_STATE_STANDBY)" if "i \<in> set infos" for i
    unfolding f_def using assms(2)[OF that] by (intro election_result[OF assms(1) _ that]) simp_all
  obtain b where b: "best infos b" using best_exists assms(1) by (auto simp: same_election_def)
  then have bi: "b \<in> set infos" by (simp add: best_def)
  have uniq: "j = b" if "j \<in> set infos" "f j = SM_STATE_MASTER" for j
  proof -
    have "best infos j" using that res[OF that(1)] by (cases "best infos j") simp_all
    then show ?thesis by (rule best_unique[OF assms(1) _ b])
  qed
  have "\<exists>!i. i \<in> set infos \<and> f i = SM_STATE_MASTER"
  proof (rule ex1I[of _ b])
    show "b \<in> set infos \<and> f b = SM_STATE_MASTER" using bi res[OF bi] b by simp
    show "j = b" if "j \<in> set infos \<and> f j = SM_STATE_MASTER" for j
      by (rule uniq[OF conjunct1[OF that] conjunct2[OF that]])
  qed
  moreover have "\<forall>i. i \<in> set infos \<longrightarrow> f i \<in> {SM_STATE_MASTER, SM_STATE_STANDBY}" using res by simp
  ultimately show ?thesis unfolding f_def by (rule conjI)
qed

definition ex_rec :: "STL_SM_INFO \<Rightarrow> SmRec" where
  "ex_rec i = \<lparr>sr_portguid = PortGUID i, sr_SMInfo = i, sr_path = []\<rparr>"

definition ex_table :: "u4 \<Rightarrow> (u64, SmRec) cs_hashtable" where
  "ex_table st = ht_ins 3 (ex_rec (ex_info 3 1 st)) (ht_ins 7 (ex_rec (ex_info 7 1 st))
     (the (cs_create_hashtable True True (\<lambda>_. \<lparr>ek = 0, ev = ex_rec (ex_info 0 0 0), eh = 0\<rparr>) 16 (\<lambda>k. k) (=))))"

lemma ht_ins_assoc:
  assumes "ht_inv h"
  shows "ht_inv (ht_ins k v h) \<and> ht_assoc (ht_ins k v h) = (k, v) # ht_assoc h"
proof -
  obtain ok h' where res: "cs_hashtable_insert True (Some (fresh_id h)) k v h = (ok, h')" by force
  from insert_result[OF assms fresh_id_ok res] show ?thesis by (simp add: ht_ins_def res)
qed

lemma ex_table_assoc:
  "ht_inv (ex_table st) \<and> ht_assoc (ex_table st) = [(3, ex_rec (ex_info 3 1 st)), (7, ex_rec (ex_info 7 1 st))]"
proof -
  obtain h0 :: "(u64, SmRec) cs_hashtable" where
    h0: "cs_create_hashtable True True (\<lambda>_. \<lparr>ek = 0, ev = ex_rec (ex_info 0 0 0), eh = 0\<rparr>) 16 (\<lambda>k. k) (=) = Some h0"
    "ht_inv h0" "ht_assoc h0 = []"
    by (rule create_inv[of 16]) auto
  note i1 = ht_ins_assoc[OF h0(2), of 7 "ex_rec (ex_info 7 1 st)"]
  note i2 = ht_ins_assoc[OF conjunct1[OF i1], of 3 "ex_rec (ex_info 3 1 st)"]
  show ?thesis unfolding ex_table_def h0(1) option.sel using i1 i2 h0(3) by simp
qed

lemma ex_table_records: "sm_records (ex_table st) = [ex_rec (ex_info 7 1 st), ex_rec (ex_info 3 1 st)]"
  using ex_table_assoc[of st] by (simp add: sm_records_assoc)

lemma ex_table_view: "full_view [ex_info 7 1 st, ex_info 3 1 st] (ex_table st)"
  using ex_table_assoc[of st] by (simp add: full_view_def ex_table_records ex_rec_def)

theorem election_unique_master_witness:
  "\<exists>!i. i \<in> set [ex_info 7 1 1, ex_info 3 1 1] \<and>
     sm_state (snd (topology_transition ex_cfg ex_env (\<lambda>_. True) VSTATUS_OK (ex_table 1) ((ex_state 1)\<lparr>sm_smInfo := i\<rparr>))) = SM_STATE_MASTER"
proof -
  have s: "same_election [ex_info 7 1 1, ex_info 3 1 1]" by (simp add: same_election_def ex_info_def)
  show ?thesis
    using election_unique_master[OF s, where h = "\<lambda>_. ex_table 1" and s = "\<lambda>i. (ex_state 1)\<lparr>sm_smInfo := i\<rparr>"
      and c = "\<lambda>_. ex_cfg" and e = "\<lambda>_. ex_env" and u = "\<lambda>_ _. True" and r = "\<lambda>_. VSTATUS_OK"] ex_table_view
    by (simp add: ex_state_def)
qed



end
