(* ===== verification/SmPartMgr.thy ===== *)
theory SmPartMgr
  imports CsBitset
begin

text \<open>
  The partition manager's checks (\<^verbatim>\<open>sm_partMgr.c\<close>): P_Key tables of the SM and of ports, the
  validation of P_Keys between ports, the choice of a common P_Key, and the selection of
  virtual fabrics by service ID, multicast GID and membership. A P_Key is 15 bits of value and
  the membership bit (1 for full members); a port's table has 32 entries. Sets of virtual
  fabrics are the bit sets of \<^verbatim>\<open>cs_bitset.c\<close>. The ordered maps of applications of a virtual
  fabric are lists in key order.
\<close>

section \<open>P_Keys\<close>

abbreviation (input) PKEY_TABLE_LIST_COUNT :: nat where "PKEY_TABLE_LIST_COUNT \<equiv> 32"
abbreviation (input) MAX_VFABRICS :: nat where "MAX_VFABRICS \<equiv> 32"
abbreviation (input) STL_MAX_SLS :: u8 where "STL_MAX_SLS \<equiv> 32"
abbreviation (input) INVALID_PKEY :: u16 where "INVALID_PKEY \<equiv> 0"
abbreviation (input) DEFAULT_PKEY :: u16 where "DEFAULT_PKEY \<equiv> 0x7fff"
abbreviation (input) STL_DEFAULT_FM_PKEY :: u16 where "STL_DEFAULT_FM_PKEY \<equiv> 0xFFFF"
abbreviation (input) STL_DEFAULT_CLIENT_PKEY :: u16 where "STL_DEFAULT_CLIENT_PKEY \<equiv> 0x7FFF"
abbreviation (input) STL_DEFAULT_CLIENT_PKEY_IDX :: nat where "STL_DEFAULT_CLIENT_PKEY_IDX \<equiv> 1"
abbreviation (input) STL_DEFAULT_FM_PKEY_IDX :: nat where "STL_DEFAULT_FM_PKEY_IDX \<equiv> 2"
abbreviation (input) UNDEFINED_XML8 :: u8 where "UNDEFINED_XML8 \<equiv> 0xff"

definition PKEY_VALUE :: "u16 \<Rightarrow> u16" where
  "PKEY_VALUE key = key AND 0x7FFF"

definition PKEY_FULL :: "u16 \<Rightarrow> bool" where
  "PKEY_FULL key \<longleftrightarrow> drop_bit 15 key = 1"

definition MAKE_PKEY :: "u16 \<Rightarrow> u16 \<Rightarrow> u16" where
  "MAKE_PKEY type key = push_bit 15 (type AND 1) OR (key AND 0x7FFF)"

text \<open>A port: an identity (its address), its P_Key table and its virtual fabric memberships.\<close>

record part_port =
  pp_id :: nat
  pPKey :: "u16 list"
  vfMember :: bitset_t
  fullPKeyMember :: bitset_t

record pkey_tables =
  defaultPKeys :: "u16 list"
  defaultPKeyTable :: "u16 list"
  sweep_forced :: bool

definition setPKey :: "u32 \<Rightarrow> u16 \<Rightarrow> bool \<Rightarrow> pkey_tables \<Rightarrow> Status_t \<times> pkey_tables" where
  "setPKey index pkey forceSweep t =
     (if index > 31 then (VSTATUS_ILLPARM, t)
      else (VSTATUS_OK, t\<lparr>defaultPKeys := (defaultPKeys t)[unat index := pkey],
                         defaultPKeyTable := (defaultPKeyTable t)[unat index := pkey],
                         sweep_forced := sweep_forced t \<or> forceSweep\<rparr>))"

definition getPKey :: "u8 \<Rightarrow> pkey_tables \<Rightarrow> u16" where
  "getPKey index t = (if index > 31 then 0 else defaultPKeys t ! unat index)"

definition checkPKey :: "u16 \<Rightarrow> pkey_tables \<Rightarrow> int" where
  "checkPKey pkey t =
     (case List.find (\<lambda>i. PKEY_VALUE (defaultPKeys t ! i) = PKEY_VALUE pkey) [0..<32] of
        Some i \<Rightarrow> int i | None \<Rightarrow> - 1)"

definition getDefaultPKey :: "pkey_tables \<Rightarrow> u16" where
  "getDefaultPKey t = defaultPKeys t ! STL_DEFAULT_FM_PKEY_IDX"

definition smGetPortPkey :: "u16 \<Rightarrow> part_port \<Rightarrow> u16" where
  "smGetPortPkey pkey p =
     (if PKEY_VALUE pkey = STL_DEFAULT_CLIENT_PKEY \<and> pPKey p ! STL_DEFAULT_FM_PKEY_IDX = STL_DEFAULT_FM_PKEY
      then STL_DEFAULT_FM_PKEY
      else case List.find (\<lambda>i. PKEY_VALUE (pPKey p ! i) = PKEY_VALUE pkey) [0..<32] of
             Some i \<Rightarrow> pPKey p ! i | None \<Rightarrow> 0)"

definition smCheckPortPKey :: "u16 \<Rightarrow> part_port \<Rightarrow> bool" where
  "smCheckPortPKey pkey p = list_ex (\<lambda>i. PKEY_VALUE (pPKey p ! i) = PKEY_VALUE pkey) [0..<32]"

definition smValidatePortPKey :: "u16 \<Rightarrow> part_port \<Rightarrow> bool" where
  "smValidatePortPKey pkey p =
     list_ex (\<lambda>i. PKEY_VALUE (pPKey p ! i) = PKEY_VALUE pkey \<and> (PKEY_FULL pkey \<or> PKEY_FULL (pPKey p ! i))) [0..<32]"

definition sm_valid_port_mgmt_allowed_pkey :: "part_port \<Rightarrow> bool" where
  "sm_valid_port_mgmt_allowed_pkey p \<longleftrightarrow>
     pPKey p ! STL_DEFAULT_FM_PKEY_IDX = STL_DEFAULT_FM_PKEY \<or> pPKey p ! STL_DEFAULT_CLIENT_PKEY_IDX = STL_DEFAULT_FM_PKEY"

text \<open>
  The port and node found for the source LID of a general management packet: whether the
  port is up, the kind of node, and for switches the port index and enhanced port 0 flag.
\<close>

datatype node_kind = CA | Switch nat bool | OtherNode

definition client_key_ok :: "part_port \<Rightarrow> bool" where
  "client_key_ok p \<longleftrightarrow> PKEY_VALUE (pPKey p ! STL_DEFAULT_CLIENT_PKEY_IDX) = PKEY_VALUE STL_DEFAULT_CLIENT_PKEY"

definition smValidateGsiMadPKey :: "u16 \<Rightarrow> (bool \<times> part_port \<times> node_kind) option \<Rightarrow> bool \<Rightarrow> bool \<Rightarrow> bool" where
  "smValidateGsiMadPKey pkey found mgmntAllowedRequired antiSpoof =
     (if \<not> antiSpoof
      then (if mgmntAllowedRequired then pkey = STL_DEFAULT_FM_PKEY
            else pkey = STL_DEFAULT_FM_PKEY \<or> pkey = STL_DEFAULT_CLIENT_PKEY)
      else case found of
             None \<Rightarrow> False
           | Some (up, p, kind) \<Rightarrow>
               if \<not> up then False
               else if mgmntAllowedRequired then pkey = STL_DEFAULT_FM_PKEY \<and> sm_valid_port_mgmt_allowed_pkey p
               else (case kind of
                       CA \<Rightarrow> if pkey = STL_DEFAULT_FM_PKEY then sm_valid_port_mgmt_allowed_pkey p
                             else pkey = STL_DEFAULT_CLIENT_PKEY \<and> client_key_ok p
                     | Switch idx enhanced0 \<Rightarrow>
                         if idx \<noteq> 0 then False
                         else if enhanced0
                         then (if pkey = STL_DEFAULT_FM_PKEY then sm_valid_port_mgmt_allowed_pkey p
                               else pkey = STL_DEFAULT_CLIENT_PKEY \<and> client_key_ok p)
                         else pkey = STL_DEFAULT_FM_PKEY \<and> sm_valid_port_mgmt_allowed_pkey p
                     | OtherNode \<Rightarrow> False))"

definition smValidatePortPKey2Way :: "u16 \<Rightarrow> part_port \<Rightarrow> part_port \<Rightarrow> bool" where
  "smValidatePortPKey2Way pkey p1 p2 =
     (if pp_id p1 = pp_id p2 then True
      else if PKEY_VALUE pkey = STL_DEFAULT_CLIENT_PKEY
      then (if sm_valid_port_mgmt_allowed_pkey p1 then smValidatePortPKey STL_DEFAULT_FM_PKEY p2
            else smValidatePortPKey STL_DEFAULT_CLIENT_PKEY p2)
      else case List.find (\<lambda>i. PKEY_VALUE (pPKey p1 ! i) = PKEY_VALUE pkey) [0..<32] of
             None \<Rightarrow> False
           | Some i \<Rightarrow>
               (case List.find (\<lambda>j. PKEY_VALUE (pPKey p2 ! j) = PKEY_VALUE pkey) [0..<32] of
                  None \<Rightarrow> False
                | Some j \<Rightarrow> PKEY_FULL (pPKey p1 ! i) \<or> PKEY_FULL (pPKey p2 ! j)))"

text \<open>\<open>reqPort\<close> is the active port found for the source LID with its state, \<open>smPort\<close> the SM's own.\<close>

definition smGetRequestPkeyIndex :: "u8 \<Rightarrow> (bool \<times> part_port) option \<Rightarrow> part_port \<Rightarrow> u16" where
  "smGetRequestPkeyIndex pkeyIndex reqPort smPort =
     (if pkeyIndex > 31 then INVALID_PKEY
      else case reqPort of
             Some (True, p) \<Rightarrow>
               let pkey = pPKey p ! unat pkeyIndex
               in if smValidatePortPKey2Way pkey p smPort then pkey else INVALID_PKEY
           | _ \<Rightarrow> INVALID_PKEY)"

text \<open>The loop of \<open>smGetCommonPKey\<close>: a common P_Key, or the entry of the default P_Key.\<close>

fun common_pkey_loop :: "u16 list \<Rightarrow> nat list \<Rightarrow> nat option \<Rightarrow> part_port \<Rightarrow> u16 + nat option" where
  "common_pkey_loop keys [] def p2 = Inr def"
| "common_pkey_loop keys (i # is) def p2 =
     (let pkey = keys ! i
      in if PKEY_VALUE pkey = INVALID_PKEY then Inr def
         else if PKEY_VALUE pkey = PKEY_VALUE STL_DEFAULT_FM_PKEY
         then common_pkey_loop keys is (if def = None \<or> PKEY_FULL pkey then Some i else def) p2
         else if smValidatePortPKey pkey p2 then Inl (PKEY_VALUE pkey)
         else common_pkey_loop keys is def p2)"

definition smGetCommonPKey :: "part_port \<Rightarrow> part_port \<Rightarrow> u16" where
  "smGetCommonPKey p1 p2 =
     (case common_pkey_loop (pPKey p1) [0..<32] None p2 of
        Inl v \<Rightarrow> v
      | Inr None \<Rightarrow> INVALID_PKEY
      | Inr (Some i) \<Rightarrow> if smValidatePortPKey (pPKey p1 ! i) p2 then PKEY_VALUE (pPKey p1 ! i) else INVALID_PKEY)"

section \<open>Virtual fabrics\<close>

record VFAppSid =
  service_id :: u64
  service_id_last :: u64
  service_id_mask :: u64

record VFAppMgid =
  mgid :: "u64 \<times> u64"
  mgid_last :: "u64 \<times> u64"
  mgid_mask :: "u64 \<times> u64"

record VF =
  vf_name :: string
  vf_index :: nat
  vf_pkey :: u32
  vf_security :: bool
  max_mtu_int :: u8
  max_rate_int :: u8
  base_sl :: u8
  resp_sl :: u8
  mcast_sl :: u8
  sidMap :: "VFAppSid list"
  select_unmatched_sid :: bool
  mgidMap :: "VFAppMgid list"
  select_unmatched_mgid :: bool

definition vf_pkey_value :: "VF \<Rightarrow> u16" where
  "vf_pkey_value v = PKEY_VALUE (ucast (vf_pkey v))"

definition sid_match :: "u64 \<Rightarrow> VFAppSid \<Rightarrow> bool" where
  "sid_match serviceId app \<longleftrightarrow>
     (service_id_last app = 0 \<and> serviceId = service_id app) \<or>
     (service_id app \<le> serviceId \<and> service_id_last app \<ge> serviceId) \<or>
     serviceId AND service_id_mask app = service_id app AND service_id_mask app"

definition smCheckServiceId :: "VF \<Rightarrow> u64 \<Rightarrow> bool" where
  "smCheckServiceId v serviceId = list_ex (sid_match serviceId) (sidMap v)"

definition smVFValidateVfServiceId :: "VF list \<Rightarrow> nat \<Rightarrow> u64 \<Rightarrow> Status_t" where
  "smVFValidateVfServiceId vfs vf serviceId =
     (if smCheckServiceId (vfs ! vf) serviceId then VSTATUS_OK
      else if \<not> select_unmatched_sid (vfs ! vf) then VSTATUS_BAD
      else if list_ex (\<lambda>vf2. smCheckServiceId (vfs ! vf2) serviceId) [0..<min (length vfs) MAX_VFABRICS] then VSTATUS_BAD
      else VSTATUS_OK)"

text \<open>The filters shared by \<open>smGetValidatedVFs\<close> and \<open>smGetValidatedServiceIDVFs\<close>.\<close>

definition vf_usable :: "part_port \<Rightarrow> part_port \<Rightarrow> u16 \<Rightarrow> u8 \<Rightarrow> u8 \<Rightarrow> VF \<Rightarrow> bool" where
  "vf_usable src dst pkey reqSL respSL v \<longleftrightarrow>
     \<not> (pkey \<noteq> 0 \<and> PKEY_VALUE pkey \<noteq> vf_pkey_value v) \<and>
     \<not> (pp_id src \<noteq> pp_id dst \<and> \<not> bitset_test (fullPKeyMember src) (vf_index v) \<and>
        \<not> bitset_test (fullPKeyMember dst) (vf_index v)) \<and>
     bitset_test (vfMember src) (vf_index v) \<and> bitset_test (vfMember dst) (vf_index v) \<and>
     \<not> (reqSL < STL_MAX_SLS \<and> reqSL \<noteq> base_sl v) \<and> \<not> (respSL < STL_MAX_SLS \<and> respSL \<noteq> resp_sl v)"

definition smGetValidatedVFs :: "VF list \<Rightarrow> part_port \<Rightarrow> part_port \<Rightarrow> u16 \<Rightarrow> u8 \<Rightarrow> u8 \<Rightarrow> bitset_t \<Rightarrow> bitset_t" where
  "smGetValidatedVFs vfs src dst pkey reqSL respSL b =
     fold (\<lambda>vf b. if vf_usable src dst pkey reqSL respSL (vfs ! vf) then snd (bitset_set b vf) else b) [0..<length vfs] b"

definition sid_vf_step ::
  "VF list \<Rightarrow> part_port \<Rightarrow> part_port \<Rightarrow> u16 \<Rightarrow> u8 \<Rightarrow> u8 \<Rightarrow> u64 \<Rightarrow> nat \<Rightarrow> bool \<times> bitset_t \<Rightarrow> bool \<times> bitset_t" where
  "sid_vf_step vfs src dst pkey reqSL respSL serviceId vf st =
     (let (appFound, b) = st;
          srvIdInVF = smCheckServiceId (vfs ! vf) serviceId;
          (appFound1, b1) = (if srvIdInVF \<and> \<not> appFound then (True, bitset_clear_all b) else (appFound, b))
      in if appFound1 \<and> \<not> srvIdInVF then (appFound1, b1)
         else if \<not> appFound1 \<and> \<not> select_unmatched_sid (vfs ! vf) then (appFound1, b1)
         else if vf_usable src dst pkey reqSL respSL (vfs ! vf) then (appFound1, snd (bitset_set b1 vf))
         else (appFound1, b1))"

definition smGetValidatedServiceIDVFs ::
  "VF list \<Rightarrow> part_port \<Rightarrow> part_port \<Rightarrow> u16 \<Rightarrow> u8 \<Rightarrow> u8 \<Rightarrow> u64 \<Rightarrow> bitset_t \<Rightarrow> bitset_t" where
  "smGetValidatedServiceIDVFs vfs src dst pkey reqSL respSL serviceId b =
     snd (fold (sid_vf_step vfs src dst pkey reqSL respSL serviceId) [0..<min (length vfs) MAX_VFABRICS] (False, b))"

definition mgidMatch :: "u64 \<times> u64 \<Rightarrow> VFAppMgid \<Rightarrow> bool" where
  "mgidMatch g app =
     (if fst (mgid_last app) \<noteq> 0 \<or> snd (mgid_last app) \<noteq> 0
      then if fst g < fst (mgid app) then False
           else if fst g = fst (mgid app) \<and> snd g < snd (mgid app) then False
           else if fst g > fst (mgid_last app) then False
           else if fst g = fst (mgid_last app) \<and> snd g > snd (mgid_last app) then False
           else True
      else if fst g AND fst (mgid_mask app) = fst (mgid app) \<and> snd g AND snd (mgid_mask app) = snd (mgid app) then True
      else False)"

definition smCheckMGid :: "VF \<Rightarrow> u64 \<times> u64 \<Rightarrow> bool" where
  "smCheckMGid v g = list_ex (mgidMatch g) (mgidMap v)"

definition smVFValidateVfMGid :: "VF list \<Rightarrow> nat \<Rightarrow> u64 \<times> u64 \<Rightarrow> Status_t" where
  "smVFValidateVfMGid vfs vf g =
     (if smCheckMGid (vfs ! vf) g then VSTATUS_OK
      else if \<not> select_unmatched_mgid (vfs ! vf) then VSTATUS_BAD
      else if list_ex (\<lambda>vf2. smCheckMGid (vfs ! vf2) g) [0..<min (length vfs) MAX_VFABRICS] then VSTATUS_BAD
      else VSTATUS_OK)"

definition smVerifyMcastPkey :: "u64 \<times> u64 \<Rightarrow> u16 \<Rightarrow> u64 \<times> u64" where
  "smVerifyMcastPkey g pkey =
     (if fst g AND 0xffff0000 = 0 \<and>
         (fst g AND 0xff00ffff00000000 = 0xff00401b00000000 \<or> fst g AND 0xff00ffff00000000 = 0xff00601b00000000)
      then (fst g OR (0xffff0000 AND push_bit 16 (ucast (MAKE_PKEY 1 pkey))), snd g) else g)"

definition smVFValidateMcDefaultGroup :: "VF list option \<Rightarrow> int \<Rightarrow> u64 \<times> u64 \<Rightarrow> Status_t" where
  "smVFValidateMcDefaultGroup vfs vf g =
     (if vf < 0 \<or> vf \<ge> 32 then VSTATUS_BAD
      else case vfs of
             None \<Rightarrow> VSTATUS_OK
           | Some l \<Rightarrow> if select_unmatched_mgid (l ! nat vf) then VSTATUS_OK
                       else if smCheckMGid (l ! nat vf) g then VSTATUS_OK
                       else VSTATUS_BAD)"

fun vf_name_loop :: "u16 \<Rightarrow> VF list \<Rightarrow> string option \<Rightarrow> string option" where
  "vf_name_loop pKey [] name = name"
| "vf_name_loop pKey (v # vs) name =
     (if PKEY_VALUE pKey = vf_pkey_value v
      then (case name of None \<Rightarrow> vf_name_loop pKey vs (Some (vf_name v)) | Some _ \<Rightarrow> None)
      else vf_name_loop pKey vs name)"

definition smGetVfName :: "VF list option \<Rightarrow> u16 \<Rightarrow> string option" where
  "smGetVfName vfs pKey =
     (case vfs of None \<Rightarrow> None | Some l \<Rightarrow> if l = [] then None else vf_name_loop pKey l None)"

section \<open>Multicast groups and virtual fabrics\<close>

definition linkrate_to_ordinal :: "u8 \<Rightarrow> nat" where
  "linkrate_to_ordinal rate =
     (case map_of [(2, 25), (5, 50), (3, 100), (11, 125), (6, 200), (15, 250), (4, 300), (7, 375), (12, 500), (8, 600),
        (9, 750), (16, 1040), (13, 1120), (10, 1200), (14, 1680), (17, 2080), (18, 3120)] rate of
        Some n \<Rightarrow> n | None \<Rightarrow> 25)"

record McMemberRec =
  mc_mgid :: "u64 \<times> u64"
  mc_P_Key :: u16
  mc_SL :: u8
  mc_Mtu :: u8
  mc_Rate :: u8

text \<open>The checks of the loop body after the search for the MGID.\<close>

definition mc_create_ok :: "part_port \<Rightarrow> part_port option \<Rightarrow> McMemberRec \<Rightarrow> VF \<Rightarrow> bool" where
  "mc_create_ok joiner requestor r v \<longleftrightarrow>
     \<not> (PKEY_VALUE (mc_P_Key r) \<noteq> vf_pkey_value v \<or> \<not> bitset_test (vfMember joiner) (vf_index v) \<or>
        (case requestor of None \<Rightarrow> False | Some q \<Rightarrow> \<not> bitset_test (vfMember q) (vf_index v))) \<and>
     \<not> (mcast_sl v \<noteq> UNDEFINED_XML8 \<and> mc_SL r \<noteq> mcast_sl v \<or> mcast_sl v = UNDEFINED_XML8 \<and> mc_SL r \<noteq> base_sl v) \<and>
     \<not> (vf_security v \<and> \<not> bitset_test (fullPKeyMember joiner) (vf_index v)) \<and>
     \<not> mc_Mtu r > max_mtu_int v \<and> \<not> linkrate_to_ordinal (mc_Rate r) > linkrate_to_ordinal (max_rate_int v)"

record mc_create_state =
  mcs_mgidFound :: bool
  mcs_foundMatch :: bool
  mcs_groupVf :: bitset_t
  mcs_unmatched :: bitset_t

definition mc_create_step ::
  "VF list \<Rightarrow> part_port \<Rightarrow> part_port option \<Rightarrow> McMemberRec \<Rightarrow> nat \<Rightarrow> mc_create_state \<Rightarrow> mc_create_state" where
  "mc_create_step vfs joiner requestor r vf st =
     (let v = vfs ! vf; mgidInVF = smCheckMGid v (mc_mgid r);
          st1 = (if mgidInVF then st\<lparr>mcs_mgidFound := True, mcs_groupVf := snd (bitset_set (mcs_groupVf st) vf)\<rparr> else st)
      in if \<not> mc_create_ok joiner requestor r v then st1
         else let st2 = (if mgidInVF then st1\<lparr>mcs_foundMatch := True\<rparr> else st1)
              in if select_unmatched_mgid v then st2\<lparr>mcs_unmatched := snd (bitset_set (mcs_unmatched st2) vf)\<rparr> else st2)"

definition smVFValidateMcGrpCreateParams ::
  "(nat \<Rightarrow> bool) \<Rightarrow> (bool \<times> VF list) option \<Rightarrow> part_port option \<Rightarrow> part_port option \<Rightarrow> McMemberRec \<Rightarrow> bitset_t
     \<Rightarrow> (Status_t \<times> bitset_t) c_result" where
  "smVFValidateMcGrpCreateParams alloc fabrics joiner requestor r groupVf0 =
     (let groupVf = bitset_clear_all groupVf0;
          nosec = (Inr (if PKEY_VALUE (mc_P_Key r) = DEFAULT_PKEY then VSTATUS_OK else VSTATUS_BAD, groupVf))
      in case fabrics of
           None \<Rightarrow> nosec
         | Some (securityEnabled, vfs) \<Rightarrow>
             if \<not> securityEnabled then nosec
             else (case joiner of
                     None \<Rightarrow> Inr (VSTATUS_BAD, groupVf)
                   | Some j \<Rightarrow>
                       let st = fold (mc_create_step vfs j requestor r) [0..<length vfs]
                                  \<lparr>mcs_mgidFound = False, mcs_foundMatch = False, mcs_groupVf = groupVf,
                                   mcs_unmatched = snd (bitset_init alloc (Some 0) MAX_VFABRICS)\<rparr>
                       in if \<not> mcs_mgidFound st \<and> \<not> mcs_foundMatch st \<and> nset_m (mcs_unmatched st) \<noteq> 0
                          then map_sum id (Pair VSTATUS_OK) (bitset_copy alloc (mcs_groupVf st) (mcs_unmatched st))
                          else Inr (if mcs_foundMatch st then VSTATUS_OK else VSTATUS_BAD, mcs_groupVf st)))"

record max_mtu_state =
  mms_found :: bool
  mms_mtu :: u8
  mms_rate :: u8
  mms_unMtu :: u8
  mms_unRate :: u8

definition max_rate_of :: "u8 \<Rightarrow> u8 \<Rightarrow> u8" where
  "max_rate_of r1 r2 = (if linkrate_to_ordinal r1 < linkrate_to_ordinal r2 then r2 else r1)"

definition max_mtu_step :: "VF list \<Rightarrow> part_port \<Rightarrow> part_port \<Rightarrow> McMemberRec \<Rightarrow> nat \<Rightarrow> max_mtu_state \<Rightarrow> max_mtu_state" where
  "max_mtu_step vfs p q r vf st =
     (let v = vfs ! vf
      in if PKEY_VALUE (mc_P_Key r) \<noteq> vf_pkey_value v then st
         else if \<not> (mc_SL r = base_sl v \<or> mc_SL r = resp_sl v) then st
         else if \<not> bitset_test (vfMember p) (vf_index v) then st
         else if \<not> bitset_test (vfMember q) (vf_index v) then st
         else if vf_security v \<and> \<not> bitset_test (fullPKeyMember p) (vf_index v) then st
         else let st1 = (if smCheckMGid v (mc_mgid r)
                         then st\<lparr>mms_found := True, mms_mtu := max (mms_mtu st) (max_mtu_int v),
                                 mms_rate := max_rate_of (mms_rate st) (max_rate_int v)\<rparr>
                         else st)
              in if mms_found st1 then st1
                 else if select_unmatched_mgid v
                 then st1\<lparr>mms_unMtu := max (mms_unMtu st1) (max_mtu_int v),
                          mms_unRate := max_rate_of (mms_unRate st1) (max_rate_int v)\<rparr>
                 else st1)"

definition smGetVfMaxMtu :: "VF list option \<Rightarrow> part_port option \<Rightarrow> part_port option \<Rightarrow> McMemberRec \<Rightarrow> u8 \<times> u8" where
  "smGetVfMaxMtu fabrics portp reqportp r =
     (case (fabrics, portp, reqportp) of
        (Some vfs, Some p, Some q) \<Rightarrow>
          let st = fold (max_mtu_step vfs p q r) [0..<length vfs]
                     \<lparr>mms_found = False, mms_mtu = 0, mms_rate = 0, mms_unMtu = 0, mms_unRate = 0\<rparr>
          in if mms_found st then (mms_mtu st, mms_rate st) else (mms_unMtu st, mms_unRate st)
      | _ \<Rightarrow> (0, 0))"

section \<open>Lemmas on P_Keys\<close>

lemma validate_iff:
  "smValidatePortPKey k p \<longleftrightarrow> (\<exists>i < 32. PKEY_VALUE (pPKey p ! i) = PKEY_VALUE k \<and> (PKEY_FULL k \<or> PKEY_FULL (pPKey p ! i)))"
  by (auto simp: smValidatePortPKey_def list_ex_iff)

text \<open>A full key is accepted wherever a limited key of the same value is.\<close>

lemma validate_full_mono:
  "smValidatePortPKey k p \<Longrightarrow> PKEY_VALUE k = PKEY_VALUE k' \<Longrightarrow> PKEY_FULL k' \<or> \<not> PKEY_FULL k \<Longrightarrow> smValidatePortPKey k' p"
  by (auto simp: validate_iff)

text \<open>The part of a P_Key table before its first empty entry.\<close>

definition used_entries :: "u16 list \<Rightarrow> nat" where
  "used_entries keys = length (takeWhile (\<lambda>i. PKEY_VALUE (keys ! i) \<noteq> INVALID_PKEY) [0..<32])"

fun scan_ok :: "u16 list \<Rightarrow> nat list \<Rightarrow> part_port \<Rightarrow> bool" where
  "scan_ok keys [] p2 = False"
| "scan_ok keys (i # is) p2 =
     (if PKEY_VALUE (keys ! i) = INVALID_PKEY then False else smValidatePortPKey (keys ! i) p2 \<or> scan_ok keys is p2)"

lemma scan_ok_iff:
  "scan_ok keys is p2 \<longleftrightarrow> (\<exists>i \<in> set (takeWhile (\<lambda>i. PKEY_VALUE (keys ! i) \<noteq> INVALID_PKEY) is). smValidatePortPKey (keys ! i) p2)"
  by (induction "is") auto

text \<open>A default entry that was noted is usable whenever some default entry seen so far is.\<close>

definition def_best :: "u16 list \<Rightarrow> nat option \<Rightarrow> part_port \<Rightarrow> bool" where
  "def_best keys def p2 = (case def of None \<Rightarrow> False | Some d \<Rightarrow> smValidatePortPKey (keys ! d) p2)"

definition def_ok :: "u16 list \<Rightarrow> nat option \<Rightarrow> bool" where
  "def_ok keys def = (case def of None \<Rightarrow> True | Some d \<Rightarrow> d < 32 \<and> PKEY_VALUE (keys ! d) = 0x7FFF)"

lemma fm_value: "PKEY_VALUE STL_DEFAULT_FM_PKEY = 0x7FFF"
  by (simp add: PKEY_VALUE_def)

lemma def_best_step:
  assumes "def_ok keys def" "i < 32" "PKEY_VALUE (keys ! i) = 0x7FFF"
  shows "def_ok keys (if def = None \<or> PKEY_FULL (keys ! i) then Some i else def)"
    "def_best keys (if def = None \<or> PKEY_FULL (keys ! i) then Some i else def) p2 \<longleftrightarrow>
      def_best keys def p2 \<or> smValidatePortPKey (keys ! i) p2"
proof -
  show "def_ok keys (if def = None \<or> PKEY_FULL (keys ! i) then Some i else def)"
    using assms by (auto simp: def_ok_def)
  show "def_best keys (if def = None \<or> PKEY_FULL (keys ! i) then Some i else def) p2 \<longleftrightarrow>
      def_best keys def p2 \<or> smValidatePortPKey (keys ! i) p2"
  proof (cases "def = None \<or> PKEY_FULL (keys ! i)")
    case True
    then show ?thesis
      using assms validate_full_mono[of _ p2 "keys ! i"] by (auto simp: def_best_def def_ok_def split: option.splits)
  next
    case False
    then show ?thesis
      using assms validate_full_mono[of "keys ! i" p2] by (auto simp: def_best_def def_ok_def split: option.splits)
  qed
qed

lemma common_loop:
  assumes "def_ok keys def" "set is \<subseteq> {..<32}"
  shows "case common_pkey_loop keys is def p2 of
      Inl v \<Rightarrow> v \<noteq> 0 \<and> (\<exists>i < 32. PKEY_VALUE (keys ! i) = v \<and> smValidatePortPKey (keys ! i) p2) \<and> scan_ok keys is p2
    | Inr d \<Rightarrow> def_ok keys d \<and> (def_best keys d p2 \<longleftrightarrow> def_best keys def p2 \<or> scan_ok keys is p2)"
  using assms
proof (induction keys "is" "def" p2 rule: common_pkey_loop.induct)
  case (2 keys i "is" "def" p2)
  have i: "i < 32" "set is \<subseteq> {..<32}" using 2(4) by auto
  consider (inv) "PKEY_VALUE (keys ! i) = 0" | (dflt) "PKEY_VALUE (keys ! i) = 0x7FFF"
    | (hit) "PKEY_VALUE (keys ! i) \<noteq> 0" "PKEY_VALUE (keys ! i) \<noteq> 0x7FFF" "smValidatePortPKey (keys ! i) p2"
    | (miss) "PKEY_VALUE (keys ! i) \<noteq> 0" "PKEY_VALUE (keys ! i) \<noteq> 0x7FFF" "\<not> smValidatePortPKey (keys ! i) p2"
    by blast
  then show ?case
  proof cases
    case inv
    then show ?thesis using 2(3) by simp
  next
    case dflt
    note st = def_best_step(1)[OF 2(3) i(1) dflt] def_best_step(2)[OF 2(3) i(1) dflt, where ?p2.0 = p2]
    show ?thesis
      using 2(1)[OF refl _ _ st(1) i(2)] dflt st(2) by (auto simp: fm_value Let_def split: sum.splits)
  next
    case hit
    then show ?thesis using i(1) by (auto simp: fm_value Let_def)
  next
    case miss
    then show ?thesis using 2(2)[OF refl _ _ _ 2(3) i(2)] by (auto simp: fm_value Let_def split: sum.splits)
  qed
qed simp

section \<open>Lemmas on sets of virtual fabrics\<close>

definition set_if :: "(nat \<Rightarrow> bool) \<Rightarrow> nat \<Rightarrow> bitset_t \<Rightarrow> bitset_t" where
  "set_if P vf b = (if P vf then snd (bitset_set b vf) else b)"

lemma set_if_keeps [simp]: "nbits_m (set_if P vf b) = nbits_m b"
  by (simp add: set_if_def)

lemma set_if_wf: "bitset_wf b \<Longrightarrow> bitset_wf (set_if P vf b)"
  by (simp add: set_if_def bitset_set_wf)

lemma set_if_abs:
  "bitset_wf b \<Longrightarrow> vf < nbits_m b \<Longrightarrow> bitset_abs (set_if P vf b) = bitset_abs b \<union> {i. i = vf \<and> P i}"
  by (auto simp: set_if_def bitset_set_abs)

lemma fold_set_if:
  assumes "bitset_wf b" "n \<le> nbits_m b"
  shows "bitset_wf (fold (set_if P) [0..<n] b) \<and> nbits_m (fold (set_if P) [0..<n] b) = nbits_m b \<and>
    bitset_abs (fold (set_if P) [0..<n] b) = bitset_abs b \<union> {vf. vf < n \<and> P vf}"
  using assms(2)
proof (induction n)
  case (Suc n)
  then show ?case by (auto simp: set_if_wf set_if_abs less_Suc_eq)
qed (use assms in simp)

lemma validated_fold:
  "smGetValidatedVFs vfs src dst pkey reqSL respSL b =
     fold (set_if (\<lambda>vf. vf_usable src dst pkey reqSL respSL (vfs ! vf))) [0..<length vfs] b"
  unfolding smGetValidatedVFs_def set_if_def ..

lemma clear_all_nbits [simp]: "nbits_m (bitset_clear_all b) = nbits_m b"
  by (simp add: bitset_clear_all_def split: option.splits)

text \<open>One step of the scan by service ID, as a clearing followed by a conditional insertion.\<close>

lemma sid_vf_step_eq:
  "sid_vf_step vfs src dst pkey reqSL respSL serviceId vf (found, b) =
     (found \<or> smCheckServiceId (vfs ! vf) serviceId,
      set_if (\<lambda>vf. vf_usable src dst pkey reqSL respSL (vfs ! vf) \<and>
          (smCheckServiceId (vfs ! vf) serviceId \<or> \<not> found \<and> select_unmatched_sid (vfs ! vf))) vf
        (if smCheckServiceId (vfs ! vf) serviceId \<and> \<not> found then bitset_clear_all b else b))"
  by (auto simp: sid_vf_step_def set_if_def)

definition sid_vfs :: "VF list \<Rightarrow> part_port \<Rightarrow> part_port \<Rightarrow> u16 \<Rightarrow> u8 \<Rightarrow> u8 \<Rightarrow> u64 \<Rightarrow> nat \<Rightarrow> nat set \<Rightarrow> nat set" where
  "sid_vfs vfs src dst pkey reqSL respSL serviceId n old =
     (if \<exists>vf < n. smCheckServiceId (vfs ! vf) serviceId
      then {vf. vf < n \<and> smCheckServiceId (vfs ! vf) serviceId \<and> vf_usable src dst pkey reqSL respSL (vfs ! vf)}
      else old \<union> {vf. vf < n \<and> select_unmatched_sid (vfs ! vf) \<and> vf_usable src dst pkey reqSL respSL (vfs ! vf)})"

lemma fold_sid_vf_step:
  assumes "bitset_wf b" "n \<le> nbits_m b"
  shows "\<exists>b'. fold (sid_vf_step vfs src dst pkey reqSL respSL serviceId) [0..<n] (False, b) =
      ((\<exists>vf < n. smCheckServiceId (vfs ! vf) serviceId), b') \<and>
    bitset_wf b' \<and> nbits_m b' = nbits_m b \<and>
    bitset_abs b' = sid_vfs vfs src dst pkey reqSL respSL serviceId n (bitset_abs b)"
  using assms(2)
proof (induction n)
  case (Suc n)
  let ?S = "\<lambda>vf. smCheckServiceId (vfs ! vf) serviceId" and ?F = "\<exists>vf < n. smCheckServiceId (vfs ! vf) serviceId"
  obtain b' where b': "fold (sid_vf_step vfs src dst pkey reqSL respSL serviceId) [0..<n] (False, b) = (?F, b')"
    "bitset_wf b'" "nbits_m b' = nbits_m b" "bitset_abs b' = sid_vfs vfs src dst pkey reqSL respSL serviceId n (bitset_abs b)"
    using Suc by auto
  let ?c = "if ?S n \<and> \<not> ?F then bitset_clear_all b' else b'"
  have c: "bitset_wf ?c" "n < nbits_m ?c" "bitset_abs ?c = (if ?S n \<and> \<not> ?F then {} else bitset_abs b')"
    using b' Suc.prems by (auto simp: bitset_clear_all_abs bitset_clear_all_wf)
  have "(\<exists>vf < Suc n. ?S vf) = (?F \<or> ?S n)" by (auto simp: less_Suc_eq)
  then show ?case
    using b' c by (auto simp: sid_vf_step_eq set_if_abs set_if_wf sid_vfs_def less_Suc_eq)
qed (use assms in \<open>simp add: sid_vfs_def\<close>)

lemma mc_create_step_eq:
  "mc_create_step vfs j q r vf st =
     \<lparr>mcs_mgidFound = mcs_mgidFound st \<or> smCheckMGid (vfs ! vf) (mc_mgid r),
      mcs_foundMatch = mcs_foundMatch st \<or> smCheckMGid (vfs ! vf) (mc_mgid r) \<and> mc_create_ok j q r (vfs ! vf),
      mcs_groupVf = set_if (\<lambda>vf. smCheckMGid (vfs ! vf) (mc_mgid r)) vf (mcs_groupVf st),
      mcs_unmatched = set_if (\<lambda>vf. mc_create_ok j q r (vfs ! vf) \<and> select_unmatched_mgid (vfs ! vf)) vf (mcs_unmatched st)\<rparr>"
  by (simp add: mc_create_step_def set_if_def Let_def)

lemma fold_mc_create_step:
  "fold (mc_create_step vfs j q r) [0..<n] st =
     \<lparr>mcs_mgidFound = mcs_mgidFound st \<or> (\<exists>vf < n. smCheckMGid (vfs ! vf) (mc_mgid r)),
      mcs_foundMatch = mcs_foundMatch st \<or> (\<exists>vf < n. smCheckMGid (vfs ! vf) (mc_mgid r) \<and> mc_create_ok j q r (vfs ! vf)),
      mcs_groupVf = fold (set_if (\<lambda>vf. smCheckMGid (vfs ! vf) (mc_mgid r))) [0..<n] (mcs_groupVf st),
      mcs_unmatched = fold (set_if (\<lambda>vf. mc_create_ok j q r (vfs ! vf) \<and> select_unmatched_mgid (vfs ! vf))) [0..<n]
        (mcs_unmatched st)\<rparr>"
  by (induction n) (auto simp: mc_create_step_eq less_Suc_eq)

lemma bitset_copy_same:
  assumes "bitset_wf b1" "bitset_wf b2" "nbits_m b1 = nbits_m b2" "nbits_m b1 \<noteq> 0"
  shows "\<exists>b. bitset_copy alloc b1 b2 = Inr b \<and> bitset_wf b \<and> bitset_abs b = bitset_abs b2"
proof -
  obtain bits1 bits2 where "bits_m b1 = Some bits1" "bits_m b2 = Some bits2"
    using assms by (auto simp: bitset_wf_def split: option.splits)
  with assms show ?thesis by (simp add: bitset_copy_def bitset_wf_def bitset_abs_def)
qed

lemma bitset_init_ok:
  assumes "alloc (4 * words_for n)" "n < 2 ^ 31"
  shows "bitset_wf (snd (bitset_init alloc p n))" "nbits_m (snd (bitset_init alloc p n)) = n"
    "bitset_abs (snd (bitset_init alloc p n)) = {}"
proof -
  show "bitset_wf (snd (bitset_init alloc p n))"
    using assms by (intro bitset_init_wf) (simp_all add: bitset_init_def)
  show "nbits_m (snd (bitset_init alloc p n)) = n" "bitset_abs (snd (bitset_init alloc p n)) = {}"
    using assms by (simp_all add: bitset_init_def bitset_abs_def bit_at_replicate words_for_bound)
qed

text \<open>The outcome of a group creation when security is enabled and the joiner is known.\<close>

lemma mc_create_outcome:
  fixes r :: McMemberRec and j :: part_port and vfs :: "VF list" and q :: "part_port option"
  assumes wf: "bitset_wf b" "nbits_m b = 32" "length vfs \<le> 32" "alloc (4 * words_for 32)"
  defines "M \<equiv> {vf. vf < length vfs \<and> smCheckMGid (vfs ! vf) (mc_mgid r)}"
    and "K \<equiv> {vf. vf < length vfs \<and> mc_create_ok j q r (vfs ! vf)}"
    and "U \<equiv> {vf. vf < length vfs \<and> select_unmatched_mgid (vfs ! vf)}"
  shows "\<exists>b'. smVFValidateMcGrpCreateParams alloc (Some (True, vfs)) (Some j) q r b =
      Inr (if M \<inter> K \<noteq> {} \<or> M = {} \<and> K \<inter> U \<noteq> {} then VSTATUS_OK else VSTATUS_BAD, b') \<and>
    bitset_wf b' \<and> bitset_abs b' = (if M = {} then K \<inter> U else M)"
proof -
  let ?g = "fold (set_if (\<lambda>vf. smCheckMGid (vfs ! vf) (mc_mgid r))) [0..<length vfs] (bitset_clear_all b)"
  let ?u = "fold (set_if (\<lambda>vf. mc_create_ok j q r (vfs ! vf) \<and> select_unmatched_mgid (vfs ! vf))) [0..<length vfs]
      (snd (bitset_init alloc (Some 0) 32))"
  have c: "bitset_wf (bitset_clear_all b)" "bitset_abs (bitset_clear_all b) = {}"
    using wf(1) by (auto simp: bitset_clear_all_abs bitset_clear_all_wf)
  have g: "bitset_wf ?g" "nbits_m ?g = 32" "bitset_abs ?g = M"
    using fold_set_if[OF c(1), of "length vfs" "\<lambda>vf. smCheckMGid (vfs ! vf) (mc_mgid r)"] c wf by (auto simp: M_def)
  note i = bitset_init_ok[where alloc = alloc and n = 32 and p = "Some 0", OF wf(4)]
  have u: "bitset_wf ?u" "nbits_m ?u = 32" "bitset_abs ?u = K \<inter> U"
    using fold_set_if[OF i(1), of "length vfs" "\<lambda>vf. mc_create_ok j q r (vfs ! vf) \<and> select_unmatched_mgid (vfs ! vf)"] i(2,3) wf(3)
    by (auto simp: K_def U_def)
  have n: "nset_m ?u = 0 \<longleftrightarrow> K \<inter> U = {}"
    using bitset_nset_card[OF u(1)] u(3) by (simp add: bitset_nset_def K_def)
  have m: "(\<exists>vf < length vfs. smCheckMGid (vfs ! vf) (mc_mgid r)) \<longleftrightarrow> M \<noteq> {}"
    "(\<exists>vf < length vfs. smCheckMGid (vfs ! vf) (mc_mgid r) \<and> mc_create_ok j q r (vfs ! vf)) \<longleftrightarrow> M \<inter> K \<noteq> {}"
    by (auto simp: M_def K_def)
  show ?thesis
    unfolding smVFValidateMcGrpCreateParams_def Let_def fold_mc_create_step
    using bitset_copy_same[OF g(1) u(1), of alloc] g u n m by auto
qed

section \<open>Properties\<close>

text \<open>Concrete ports and fabrics for the witnesses.\<close>

definition vf_bits :: bitset_t where
  "vf_bits = \<lparr>nwords_m = 1, nbits_m = 32, bits_m = Some [0xFFFFFFFF], nset_m = 32, pool_m = None\<rparr>"

definition vf_none :: bitset_t where
  "vf_none = \<lparr>nwords_m = 1, nbits_m = 32, bits_m = Some [0], nset_m = 0, pool_m = None\<rparr>"

definition port_a :: part_port where
  "port_a = \<lparr>pp_id = 1, pPKey = [0x8001, 0x7FFF] @ replicate 30 0, vfMember = vf_bits, fullPKeyMember = vf_bits\<rparr>"

definition port_b :: part_port where
  "port_b = \<lparr>pp_id = 2, pPKey = [0x0001, 0x7FFF, 0xFFFF] @ replicate 29 0, vfMember = vf_bits, fullPKeyMember = vf_none\<rparr>"

definition vf_a :: VF where
  "vf_a = \<lparr>vf_name = ''Compute'', vf_index = 0, vf_pkey = 0x1, vf_security = True, max_mtu_int = 7, max_rate_int = 16,
     base_sl = 0, resp_sl = 0, mcast_sl = 0xff,
     sidMap = [\<lparr>service_id = 0x10, service_id_last = 0x1f, service_id_mask = 0xFFFFFFFFFFFFFFFF\<rparr>], select_unmatched_sid = False,
     mgidMap = [\<lparr>mgid = (0xff12401b80010000, 1), mgid_last = (0, 0), mgid_mask = (0xFFFFFFFFFFFFFFFF, 0xFFFFFFFFFFFFFFFF)\<rparr>],
     select_unmatched_mgid = False\<rparr>"

definition vf_b :: VF where
  "vf_b = vf_a\<lparr>vf_name := ''Other'', vf_index := 1, sidMap := [], select_unmatched_sid := True, mgidMap := [],
     select_unmatched_mgid := True\<rparr>"

lemma vf_none_init: "vf_none = snd (bitset_init (\<lambda>_. True) None 32)"
  by (simp add: vf_none_def bitset_init_def words_for_def)

lemma vf_none_wf: "bitset_wf vf_none" "nbits_m vf_none = 32" "bitset_abs vf_none = {}"
  using bitset_init_ok[of "\<lambda>_. True" 32 None] by (simp_all add: vf_none_init)

lemma used_takeWhile:
  "set (takeWhile (\<lambda>i. PKEY_VALUE (keys ! i) \<noteq> INVALID_PKEY) [0..<32]) = {..<used_entries keys}"
proof -
  have "takeWhile P [0..<n] = [0..<length (takeWhile P [0..<n])]" for P and n :: nat
    using takeWhile_eq_take[of P "[0..<n]"] length_takeWhile_le[of P "[0..<n]"] by (simp add: take_upt)
  then show ?thesis unfolding used_entries_def by (metis atLeast_upt lessThan_atLeast0)
qed

lemma common_pkey_cases:
  "smGetCommonPKey p1 p2 \<noteq> 0 \<and> scan_ok (pPKey p1) [0..<32] p2 \<and>
     (\<exists>i < 32. PKEY_VALUE (pPKey p1 ! i) = smGetCommonPKey p1 p2 \<and> smValidatePortPKey (pPKey p1 ! i) p2) \<or>
   smGetCommonPKey p1 p2 = 0 \<and> \<not> scan_ok (pPKey p1) [0..<32] p2"
proof -
  have "def_ok (pPKey p1) None" "set [0..<32] \<subseteq> {..<32}" by (auto simp: def_ok_def)
  from common_loop[OF this, of p2] show ?thesis
    by (auto simp: smGetCommonPKey_def def_ok_def def_best_def split: sum.splits option.splits)
qed

text \<open>
  C34. The common P_Key of two ports: a nonzero result is the value of an entry of the first
  port's table that the second port accepts (one of the two sides is a full member), and the
  result is zero exactly when no entry of the first table before its first empty one is
  accepted by the second port.
\<close>

theorem common_pkey_sound_complete:
  "(smGetCommonPKey p1 p2 = INVALID_PKEY \<or>
     (\<exists>i < 32. PKEY_VALUE (pPKey p1 ! i) = smGetCommonPKey p1 p2 \<and> smValidatePortPKey (pPKey p1 ! i) p2)) \<and>
   (smGetCommonPKey p1 p2 = INVALID_PKEY \<longleftrightarrow>
     \<not> (\<exists>i < used_entries (pPKey p1). smValidatePortPKey (pPKey p1 ! i) p2))"
  using common_pkey_cases[of p1 p2] by (auto simp: scan_ok_iff used_takeWhile)

theorem common_pkey_sound_complete_witness:
  "\<exists>i < 32. PKEY_VALUE (pPKey port_b ! i) = 1 \<and> smValidatePortPKey (pPKey port_b ! i) port_a"
proof -
  have "smGetCommonPKey port_b port_a = 1" by code_simp
  then show ?thesis using common_pkey_sound_complete[of port_b port_a] by auto
qed

text \<open>
  Between distinct ports and for keys other than the management key, the two-way check does
  not depend on the order of the ports.
\<close>

lemma pkey_2way_symmetric:
  "PKEY_VALUE pkey \<noteq> STL_DEFAULT_CLIENT_PKEY \<Longrightarrow> smValidatePortPKey2Way pkey p1 p2 = smValidatePortPKey2Way pkey p2 p1"
  by (auto simp: smValidatePortPKey2Way_def split: option.splits)

text \<open>
  The virtual fabrics chosen for a path record with a service ID: when some enabled fabric
  lists the service ID, exactly the usable fabrics that list it; otherwise the usable fabrics
  that take unmatched service IDs, added to what the set held before. Usable means: the P_Key
  and service levels agree, both ports are members and one of them is a full member.
\<close>

theorem validated_service_id_vfs:
  assumes "bitset_wf b" "min (length vfs) MAX_VFABRICS \<le> nbits_m b"
  shows "bitset_abs (smGetValidatedServiceIDVFs vfs src dst pkey reqSL respSL serviceId b) =
    (let n = min (length vfs) MAX_VFABRICS; U = {vf. vf < n \<and> vf_usable src dst pkey reqSL respSL (vfs ! vf)};
         S = {vf. vf < n \<and> smCheckServiceId (vfs ! vf) serviceId}
     in if S = {} then bitset_abs b \<union> {vf. vf < n \<and> select_unmatched_sid (vfs ! vf)} \<inter> U else S \<inter> U)"
proof -
  obtain b' where b': "fold (sid_vf_step vfs src dst pkey reqSL respSL serviceId) [0..<min (length vfs) 32] (False, b) =
      ((\<exists>vf < min (length vfs) 32. smCheckServiceId (vfs ! vf) serviceId), b')"
    "bitset_abs b' = sid_vfs vfs src dst pkey reqSL respSL serviceId (min (length vfs) 32) (bitset_abs b)"
    using fold_sid_vf_step[OF assms] by blast
  then have "bitset_abs (smGetValidatedServiceIDVFs vfs src dst pkey reqSL respSL serviceId b) =
      sid_vfs vfs src dst pkey reqSL respSL serviceId (min (length vfs) 32) (bitset_abs b)"
    by (simp add: smGetValidatedServiceIDVFs_def)
  then show ?thesis by (auto simp: sid_vfs_def Let_def)
qed

theorem validated_service_id_vfs_witness:
  "bitset_abs (smGetValidatedServiceIDVFs [vf_b, vf_a, vf_b] port_a port_a 1 0 0 0x12 vf_none) = {1}"
proof -
  have u: "vf_usable port_a port_a 1 0 0 vf_a" by code_simp
  have s: "smCheckServiceId vf_a 0x12" "\<not> smCheckServiceId vf_b 0x12" by code_simp+
  have "{vf. vf < 3 \<and> smCheckServiceId ([vf_b, vf_a, vf_b] ! vf) 0x12} = {1}"
    using s by (auto simp: less_Suc_eq numeral_3_eq_3)
  then show ?thesis
    using validated_service_id_vfs[of vf_none "[vf_b, vf_a, vf_b]", where src = port_a and dst = port_a and
        pkey = 1 and reqSL = 0 and respSL = 0 and serviceId = "0x12"] u vf_none_wf
    by (auto simp: Let_def numeral_3_eq_3)
qed

text \<open>
  Creating a multicast group with security enabled succeeds exactly when some virtual fabric
  that lists the MGID passes all checks (P_Key, membership of joiner and requestor, service
  level, MTU and rate), or when no fabric lists the MGID and some fabric that takes unmatched
  MGIDs passes them; the group is then recorded in the fabrics that list the MGID, respectively
  in the passing unmatched ones.
\<close>

theorem mc_group_create_iff:
  fixes r :: McMemberRec and j :: part_port and vfs :: "VF list" and q :: "part_port option"
  assumes "bitset_wf b" "nbits_m b = MAX_VFABRICS" "length vfs \<le> MAX_VFABRICS" "alloc (4 * words_for MAX_VFABRICS)"
  defines "M \<equiv> {vf. vf < length vfs \<and> smCheckMGid (vfs ! vf) (mc_mgid r)}"
    and "K \<equiv> {vf. vf < length vfs \<and> mc_create_ok j q r (vfs ! vf)}"
    and "U \<equiv> {vf. vf < length vfs \<and> select_unmatched_mgid (vfs ! vf)}"
  shows "\<exists>b'. smVFValidateMcGrpCreateParams alloc (Some (True, vfs)) (Some j) q r b =
      Inr (if M \<inter> K \<noteq> {} \<or> M = {} \<and> K \<inter> U \<noteq> {} then VSTATUS_OK else VSTATUS_BAD, b') \<and>
    bitset_wf b' \<and> bitset_abs b' = (if M = {} then K \<inter> U else M)"
  unfolding M_def K_def U_def by (rule mc_create_outcome) fact+

theorem mc_group_create_iff_witness:
  "\<exists>b'. smVFValidateMcGrpCreateParams (\<lambda>_. True) (Some (True, [vf_a, vf_b])) (Some port_a) None
      \<lparr>mc_mgid = (0xff12401b80010000, 1), mc_P_Key = 0x8001, mc_SL = 0, mc_Mtu = 5, mc_Rate = 7\<rparr> vf_none =
      Inr (VSTATUS_OK, b') \<and> bitset_abs b' = {0}"
proof -
  let ?r = "\<lparr>mc_mgid = (0xff12401b80010000, 1), mc_P_Key = 0x8001, mc_SL = 0, mc_Mtu = 5, mc_Rate = 7\<rparr> :: McMemberRec"
  have c: "smCheckMGid vf_a (mc_mgid ?r)" "\<not> smCheckMGid vf_b (mc_mgid ?r)" "mc_create_ok port_a None ?r vf_a" by code_simp+
  have M: "{vf. vf < length [vf_a, vf_b] \<and> smCheckMGid ([vf_a, vf_b] ! vf) (mc_mgid ?r)} = {0}"
    using c(1,2) by (auto simp: less_Suc_eq)
  have K: "0 \<in> {vf. vf < length [vf_a, vf_b] \<and> mc_create_ok port_a None ?r ([vf_a, vf_b] ! vf)}"
    using c(3) by simp
  show ?thesis
    using mc_group_create_iff[of vf_none "[vf_a, vf_b]" "\<lambda>_. True", where r = ?r and j = port_a and q = None] vf_none_wf K unfolding M by auto
qed

text \<open>
  C36. The SM's own P_Key table: after \<open>setPKey\<close> at a valid index the key reads back from that
  index and every other entry is as before, the table sent to the port agrees with it if it
  did, and the key is then found by \<open>checkPKey\<close> at that index or an earlier one; an index past
  the table is refused and nothing changes.
\<close>

theorem setPKey_getPKey:
  assumes "length (defaultPKeys t) = PKEY_TABLE_LIST_COUNT" "defaultPKeyTable t = defaultPKeys t"
    "setPKey index pkey force t = (st, t')"
  shows "(st = VSTATUS_OK \<longleftrightarrow> index \<le> 31) \<and> (st \<noteq> VSTATUS_OK \<longrightarrow> t' = t) \<and> defaultPKeyTable t' = defaultPKeys t' \<and>
    (index \<le> 31 \<longrightarrow> (\<forall>i. getPKey i t' = (if ucast i = index then pkey else getPKey i t)) \<and>
       0 \<le> checkPKey pkey t' \<and> checkPKey pkey t' \<le> uint index)"
proof (cases "index \<le> 31")
  case True
  then have i: "unat index < 32" and n: "\<not> index > 31" by (simp_all add: word_le_nat_alt word_less_nat_alt)
  have t': "defaultPKeys t' = (defaultPKeys t)[unat index := pkey]" "defaultPKeyTable t' = defaultPKeys t'" "st = VSTATUS_OK"
    using assms n by (auto simp: setPKey_def)
  have "getPKey j t' = (if ucast j = index then pkey else getPKey j t)" for j
  proof -
    have "unat (ucast j :: u32) = unat j"
      using unsigned_less[of j, where ?'a = nat] by (simp add: unsigned_ucast_eq take_bit_nat_eq_self)
    then have "ucast j = index \<longleftrightarrow> unat j = unat index" by (simp add: word_unat_eq_iff)
    with i t'(1) assms(1) show ?thesis
      by (auto simp: getPKey_def nth_list_update word_less_nat_alt word_le_nat_alt not_less)
  qed
  moreover have "0 \<le> checkPKey pkey t' \<and> checkPKey pkey t' \<le> int (unat index)"
  proof -
    let ?P = "\<lambda>i. PKEY_VALUE (defaultPKeys t' ! i) = PKEY_VALUE pkey"
    have P: "?P (unat index)" using i t'(1) assms(1) by simp
    then obtain k where k: "List.find ?P [0..<32] = Some k"
      using i by (cases "List.find ?P [0..<32]") (auto simp: find_None_iff)
    then have "k \<le> unat index" using P i by (auto simp: find_Some_iff not_less[symmetric])
    then have "int k \<le> int (unat index)" by (rule of_nat_mono)
    with k show ?thesis unfolding checkPKey_def by (simp only: option.case) simp
  qed
  ultimately show ?thesis using True t' by simp
next
  case False
  then show ?thesis using assms by (auto simp: setPKey_def not_le)
qed

theorem setPKey_getPKey_witness:
  "let t = \<lparr>defaultPKeys = replicate 32 0, defaultPKeyTable = replicate 32 0, sweep_forced = False\<rparr>;
       t' = snd (setPKey 2 0xFFFF True t)
   in getPKey 2 t' = 0xFFFF \<and> getPKey 1 t' = 0"
  using setPKey_getPKey[of "\<lparr>defaultPKeys = replicate 32 0, defaultPKeyTable = replicate 32 0, sweep_forced = False\<rparr>" 2 "0xFFFF"
    True, OF _ _ surjective_pairing]
  by (auto simp: Let_def getPKey_def setPKey_def)

text \<open>A 128-bit GID as a number; the halves are compared as one unsigned integer.\<close>

definition gid_val :: "u64 \<times> u64 \<Rightarrow> nat" where
  "gid_val g = unat (fst g) * 2 ^ 64 + unat (snd g)"

lemma gid_val_less: "gid_val a < gid_val b \<longleftrightarrow> fst a < fst b \<or> fst a = fst b \<and> snd a < snd b"
proof -
  have "unat (snd a) < 2 ^ 64" "unat (snd b) < 2 ^ 64" 
    using unsigned_less[of "snd a", where ?'a = nat] unsigned_less[of "snd b", where ?'a = nat] by simp_all
  then show ?thesis
    unfolding gid_val_def word_less_nat_alt word_unat_eq_iff by (cases "unat (fst a)" "unat (fst b)" rule: linorder_cases) auto
qed

text \<open>
  An application entry with an upper MGID matches exactly the MGIDs of the closed 128-bit
  interval from its MGID to the upper one; without it, the MGIDs whose masked bits are the
  entry's MGID.
\<close>

theorem mgid_match_interval:
  "mgidMatch g app \<longleftrightarrow>
     (if gid_val (mgid_last app) \<noteq> 0 then gid_val (mgid app) \<le> gid_val g \<and> gid_val g \<le> gid_val (mgid_last app)
      else (fst g AND fst (mgid_mask app), snd g AND snd (mgid_mask app)) = mgid app)"
proof -
  have "gid_val (mgid_last app) \<noteq> 0 \<longleftrightarrow> fst (mgid_last app) \<noteq> 0 \<or> snd (mgid_last app) \<noteq> 0"
    by (simp add: gid_val_def unat_eq_0)
  moreover have "gid_val (mgid app) \<le> gid_val g \<longleftrightarrow> \<not> (fst g < fst (mgid app) \<or> fst g = fst (mgid app) \<and> snd g < snd (mgid app))"
    "gid_val g \<le> gid_val (mgid_last app) \<longleftrightarrow>
       \<not> (fst (mgid_last app) < fst g \<or> fst (mgid_last app) = fst g \<and> snd (mgid_last app) < snd g)"
    unfolding gid_val_less[symmetric] by auto
  ultimately show ?thesis by (auto simp: mgidMatch_def prod_eq_iff)
qed

end
