(* ===== verification/McHeap.thy ===== *)
theory McHeap
  imports FM_Prelude "HOL-Library.Multiset"
begin

text \<open>
  The binary heap of multicast LIDs of \<^verbatim>\<open>sm_multicast.c\<close>: an array of LIDs with the number of
  groups that use each, ordered so that the least used LID is at the front. Entries past
  \<open>lidsUsed\<close> are filled with ones, which makes their count the greatest. The operations
  are compiled with their run-time checks (\<open>TEST_HEAP\<close> is defined), so each returns a failed
  assertion when \<open>checkHeap\<close> finds the order broken.
\<close>

section \<open>Data and operations\<close>

record LidUsage_t =
  lu_lid :: u32
  usageCount :: u16

record LidClass_t =
  lidsUsed :: nat
  lc_pKey :: u16
  lc_mtu :: u16
  lc_rate :: u16
  lids :: "LidUsage_t list"

text \<open>The entry that \<open>memset(.., 0xFF, ..)\<close> writes.\<close>

definition lid_unused :: LidUsage_t where
  "lid_unused = \<lparr>lu_lid = 0xFFFFFFFF, usageCount = 0xFFFF\<rparr>"

definition PARENT_NODE :: "nat \<Rightarrow> nat" where
  "PARENT_NODE x = (x - 1) div 2"

definition CHILD_LEFT :: "nat \<Rightarrow> nat" where
  "CHILD_LEFT x = 2 * x + 1"

definition heap_ok :: "nat \<Rightarrow> LidUsage_t list \<Rightarrow> bool" where
  "heap_ok n ls = list_all (\<lambda>i. usageCount (ls ! i) \<ge> usageCount (ls ! PARENT_NODE i)) [1..<n]"

definition checkHeap :: "LidClass_t \<Rightarrow> LidClass_t c_result" where
  "checkHeap c = (if heap_ok (lidsUsed c) (lids c) then Inr c else Inl AssertFailed)"

text \<open>The child that the loop of \<open>heapTrickleDown\<close> descends to: the less used of the two.\<close>

definition pick_child :: "nat \<Rightarrow> LidUsage_t list \<Rightarrow> nat \<Rightarrow> nat" where
  "pick_child n ls child =
     (if child + 1 < n \<and> usageCount (ls ! child) > usageCount (ls ! (child + 1)) then child + 1 else child)"

lemma pick_child_gt: "i < pick_child n ls (CHILD_LEFT i)"
  by (simp add: pick_child_def CHILD_LEFT_def)

function trickle_down :: "nat \<Rightarrow> LidUsage_t \<Rightarrow> nat \<Rightarrow> LidUsage_t list \<Rightarrow> LidUsage_t list" where
  "trickle_down n temp i ls =
     (if CHILD_LEFT i < n
      then let child = pick_child n ls (CHILD_LEFT i)
           in if usageCount temp \<le> usageCount (ls ! child) then ls[i := temp]
              else trickle_down n temp child (ls[i := ls ! child])
      else ls[i := temp])"
  by pat_completeness auto
termination
  by (relation "measure (\<lambda>(n, temp, i, ls). n - i)") (auto simp: pick_child_def CHILD_LEFT_def)

declare trickle_down.simps [simp del]

definition heapTrickleDown :: "LidClass_t \<Rightarrow> nat \<Rightarrow> LidClass_t c_result" where
  "heapTrickleDown c index = checkHeap (c\<lparr>lids := trickle_down (lidsUsed c) (lids c ! index) index (lids c)\<rparr>)"

function trickle_up :: "nat \<Rightarrow> LidUsage_t list \<Rightarrow> LidUsage_t list" where
  "trickle_up i ls =
     (if i > 0
      then if usageCount (ls ! i) < usageCount (ls ! PARENT_NODE i)
           then trickle_up (PARENT_NODE i) (ls[PARENT_NODE i := ls ! i, i := ls ! PARENT_NODE i])
           else ls
      else ls)"
  by pat_completeness auto
termination
  by (relation "measure fst") (auto simp: PARENT_NODE_def)

declare trickle_up.simps [simp del]

definition heapTrickleUp :: "LidClass_t \<Rightarrow> nat \<Rightarrow> LidClass_t c_result" where
  "heapTrickleUp c index = checkHeap (c\<lparr>lids := trickle_up index (lids c)\<rparr>)"

section \<open>Heap order\<close>

lemma parent_less [simp]: "0 < i \<Longrightarrow> PARENT_NODE i < i"
  by (auto simp: PARENT_NODE_def)

lemma parent_neq: "0 < i \<Longrightarrow> PARENT_NODE i \<noteq> i"
  by (metis parent_less less_irrefl)

lemma parent_le: "PARENT_NODE i \<le> i"
  by (simp add: PARENT_NODE_def)

lemma parent_of_left: "PARENT_NODE (CHILD_LEFT i) = i" "PARENT_NODE (CHILD_LEFT i + 1) = i"
  by (simp_all add: PARENT_NODE_def CHILD_LEFT_def)

lemma parent_cases: "0 < j \<Longrightarrow> PARENT_NODE j = i \<Longrightarrow> j = CHILD_LEFT i \<or> j = CHILD_LEFT i + 1"
  by (auto simp: PARENT_NODE_def CHILD_LEFT_def)

lemma pick_child_cases: "pick_child n ls (CHILD_LEFT i) = CHILD_LEFT i \<or> pick_child n ls (CHILD_LEFT i) = CHILD_LEFT i + 1"
  by (simp add: pick_child_def)

lemma pick_child_parent: "PARENT_NODE (pick_child n ls (CHILD_LEFT i)) = i"
  using pick_child_cases[of n ls i] parent_of_left by auto

lemma pick_child_less: "CHILD_LEFT i < n \<Longrightarrow> pick_child n ls (CHILD_LEFT i) < n"
  by (simp add: pick_child_def)

lemma pick_child_least:
  "0 < j \<Longrightarrow> j < n \<Longrightarrow> PARENT_NODE j = i \<Longrightarrow> usageCount (ls ! pick_child n ls (CHILD_LEFT i)) \<le> usageCount (ls ! j)"
  using parent_cases[of j i] by (auto simp: pick_child_def)

lemma heap_ok_iff: "heap_ok n ls \<longleftrightarrow> (\<forall>j. 0 < j \<and> j < n \<longrightarrow> usageCount (ls ! PARENT_NODE j) \<le> usageCount (ls ! j))"
  by (auto simp: heap_ok_def list_all_iff)

text \<open>The front of a heap has the least count.\<close>

lemma heap_front_least: "heap_ok n ls \<Longrightarrow> j < n \<Longrightarrow> usageCount (ls ! 0) \<le> usageCount (ls ! j)"
proof (induction j rule: less_induct)
  case (less j)
  show ?case
  proof (cases "j = 0")
    case False
    then have "usageCount (ls ! 0) \<le> usageCount (ls ! PARENT_NODE j)"
      using less by simp
    also have "\<dots> \<le> usageCount (ls ! j)" using less.prems False by (simp add: heap_ok_iff)
    finally show ?thesis .
  qed simp
qed

text \<open>
  The order with one entry out of place, for the two directions: below position \<open>i\<close> the
  entry may be too great, above it too small, and \<open>i\<close> could be bypassed.
\<close>

definition bypass_ok :: "nat \<Rightarrow> nat \<Rightarrow> LidUsage_t list \<Rightarrow> bool" where
  "bypass_ok n i ls \<longleftrightarrow>
     (\<forall>j. 0 < i \<and> 0 < j \<and> j < n \<and> PARENT_NODE j = i \<longrightarrow> usageCount (ls ! PARENT_NODE i) \<le> usageCount (ls ! j))"

definition heap_below :: "nat \<Rightarrow> nat \<Rightarrow> LidUsage_t list \<Rightarrow> bool" where
  "heap_below n i ls \<longleftrightarrow> bypass_ok n i ls \<and>
     (\<forall>j. 0 < j \<and> j < n \<and> PARENT_NODE j \<noteq> i \<longrightarrow> usageCount (ls ! PARENT_NODE j) \<le> usageCount (ls ! j))"

definition heap_above :: "nat \<Rightarrow> nat \<Rightarrow> LidUsage_t list \<Rightarrow> bool" where
  "heap_above n i ls \<longleftrightarrow> bypass_ok n i ls \<and>
     (\<forall>j. 0 < j \<and> j < n \<and> j \<noteq> i \<longrightarrow> usageCount (ls ! PARENT_NODE j) \<le> usageCount (ls ! j))"

lemma heap_bypass: "heap_ok n ls \<Longrightarrow> i < n \<Longrightarrow> bypass_ok n i ls"
  unfolding heap_ok_iff bypass_ok_def by (meson order.trans)

lemma swap_down_below:
  assumes b: "heap_below n i ls" and i: "i < length ls" "n \<le> length ls" and c: "0 < c" "c < n" "PARENT_NODE c = i"
    and least: "\<And>j. 0 < j \<Longrightarrow> j < n \<Longrightarrow> PARENT_NODE j = i \<Longrightarrow> usageCount (ls ! c) \<le> usageCount (ls ! j)"
    and gt: "usageCount (ls ! c) < usageCount (ls ! i)"
  shows "heap_below n c (ls[i := ls ! c, c := ls ! i])"
proof -
  let ?l = "ls[i := ls ! c, c := ls ! i]"
  have ne: "i < c" "i \<noteq> c" using c parent_less[of c] by auto
  have nthl: "?l ! k = (if k = c then ls ! i else if k = i then ls ! c else ls ! k)" for k
    using i c ne by (simp add: nth_list_update)
  have old: "usageCount (ls ! PARENT_NODE j) \<le> usageCount (ls ! j)" if "0 < j" "j < n" "PARENT_NODE j \<noteq> i" for j
    using b that unfolding heap_below_def by blast
  have byp: "usageCount (ls ! PARENT_NODE i) \<le> usageCount (ls ! j)" if "0 < i" "0 < j" "j < n" "PARENT_NODE j = i" for j
    using b that unfolding heap_below_def bypass_ok_def by blast
  have "usageCount (?l ! PARENT_NODE j) \<le> usageCount (?l ! j)" if j: "0 < j" "j < n" "PARENT_NODE j \<noteq> c" for j
  proof -
    consider (child) "PARENT_NODE j = i" | (self) "j = i" "PARENT_NODE j \<noteq> i" | (other) "PARENT_NODE j \<noteq> i" "j \<noteq> i" by blast
    then show ?thesis
    proof cases
      case child
      then show ?thesis using least[OF j(1,2) child] gt parent_less[OF j(1)] ne by (auto simp: nthl)
    next
      case self
      then show ?thesis using byp[OF _ c] j ne by (auto simp: nthl)
    next
      case other
      then have "j \<noteq> c" using c by auto
      then show ?thesis using old[OF j(1,2) other(1)] other j(3) by (simp add: nthl)
    qed
  qed
  moreover have "bypass_ok n c ?l"
    unfolding bypass_ok_def using old c ne parent_less by (auto simp: nthl)
  ultimately show ?thesis unfolding heap_below_def by blast
qed

lemma swap_up_above:
  assumes b: "heap_above n i ls" and i: "0 < i" "i < n" "n \<le> length ls"
    and lt: "usageCount (ls ! i) < usageCount (ls ! PARENT_NODE i)"
  shows "heap_above n (PARENT_NODE i) (ls[PARENT_NODE i := ls ! i, i := ls ! PARENT_NODE i])"
proof -
  let ?p = "PARENT_NODE i" and ?l = "ls[PARENT_NODE i := ls ! i, i := ls ! PARENT_NODE i]"
  note ne = parent_less[OF i(1)] less_imp_neq[OF parent_less[OF i(1)]]
  have nthl: "?l ! k = (if k = i then ls ! ?p else if k = ?p then ls ! i else ls ! k)" for k
    using i ne by (simp add: nth_list_update)
  have old: "usageCount (ls ! PARENT_NODE j) \<le> usageCount (ls ! j)" if "0 < j" "j < n" "j \<noteq> i" for j
    using b that unfolding heap_above_def by blast
  have byp: "usageCount (ls ! ?p) \<le> usageCount (ls ! j)" if "0 < j" "j < n" "PARENT_NODE j = i" for j
    using b that i unfolding heap_above_def bypass_ok_def by blast
  have "usageCount (?l ! PARENT_NODE j) \<le> usageCount (?l ! j)" if j: "0 < j" "j < n" "j \<noteq> ?p" for j
  proof (cases "PARENT_NODE j = i")
    case True
    moreover from True have "j \<noteq> i" using parent_less[OF j(1)] by auto
    ultimately show ?thesis using byp[OF j(1,2) True] j by (auto simp: nthl)
  next
    case False
    then show ?thesis using old[OF j(1,2)] j lt by (auto simp: nthl)
  qed
  moreover have "bypass_ok n ?p ?l"
    unfolding bypass_ok_def
  proof (intro allI impI)
    fix j assume j: "0 < ?p \<and> 0 < j \<and> j < n \<and> PARENT_NODE j = ?p"
    have pp: "PARENT_NODE ?p < ?p" using j by simp
    have "usageCount (ls ! PARENT_NODE ?p) \<le> usageCount (ls ! ?p)" using old[of ?p] j i ne by auto
    moreover have "j \<noteq> i \<Longrightarrow> usageCount (ls ! ?p) \<le> usageCount (ls ! j)" using old[of j] j by auto
    moreover have "j \<noteq> ?p" using j by (metis parent_less less_irrefl)
    ultimately show "usageCount (?l ! PARENT_NODE ?p) \<le> usageCount (?l ! j)"
      using pp ne by (auto simp: nthl)
  qed
  ultimately show ?thesis unfolding heap_above_def by blast
qed

lemma mset_swap_upd: "i < length ls \<Longrightarrow> j < length ls \<Longrightarrow> mset (ls[i := ls ! j, j := ls ! i]) = mset ls"
  by (rule mset_swap)

text \<open>Both loops restore the order by exchanging entries of the first \<open>n\<close> positions.\<close>

lemma trickle_down_correct:
  assumes "heap_below n i (ls[i := temp])" "i < n" "n \<le> length ls"
  shows "heap_ok n (trickle_down n temp i ls) \<and> length (trickle_down n temp i ls) = length ls \<and>
    mset (trickle_down n temp i ls) = mset (ls[i := temp]) \<and> drop n (trickle_down n temp i ls) = drop n ls"
  using assms
proof (induction n temp i ls rule: trickle_down.induct)
  case (1 n temp i ls)
  let ?c = "pick_child n ls (CHILD_LEFT i)" and ?L = "ls[i := temp]"
  have cnt: "?L ! k = (if k = i then temp else ls ! k)" if "k < n" for k
    using that 1(4) by (simp add: nth_list_update)
  consider (leaf) "\<not> CHILD_LEFT i < n" | (stop) "CHILD_LEFT i < n" "usageCount temp \<le> usageCount (ls ! ?c)"
    | (down) "CHILD_LEFT i < n" "\<not> usageCount temp \<le> usageCount (ls ! ?c)" by blast
  then show ?case
  proof cases
    case leaf
    then have "\<not> (0 < j \<and> j < n \<and> PARENT_NODE j = i)" for j using parent_cases[of j i] by auto
    then have "heap_ok n ?L" using 1(2) unfolding heap_below_def heap_ok_iff by blast
    with leaf show ?thesis using 1(3) by (simp add: trickle_down.simps[of n temp i ls])
  next
    case stop
    have "usageCount (?L ! PARENT_NODE j) \<le> usageCount (?L ! j)" if j: "0 < j" "j < n" for j
    proof (cases "PARENT_NODE j = i")
      case True
      then have "j \<noteq> i" using parent_less[OF j(1)] by auto
      then show ?thesis using pick_child_least[OF j True, of ls] stop(2) True j 1(3) by (simp add: cnt)
    qed (use 1(2) j in \<open>auto simp: heap_below_def\<close>)
    with stop show ?thesis using 1(3) by (simp add: trickle_down.simps[of n temp i ls] heap_ok_iff)
  next
    case down
    have c: "0 < ?c" "?c < n" "PARENT_NODE ?c = i" "i \<noteq> ?c"
      using pick_child_gt[of i n ls] pick_child_less[OF down(1), of ls] pick_child_parent[of n ls i] by auto
    have sw: "?L[i := ?L ! ?c, ?c := ?L ! i] = ls[i := ls ! ?c, ?c := temp]"
      using c 1(3,4) by simp
    have "heap_below n ?c (?L[i := ?L ! ?c, ?c := ?L ! i])"
    proof (rule swap_down_below[OF 1(2)])
      fix j assume j: "0 < j" "j < n" "PARENT_NODE j = i"
      then have "j \<noteq> i" using parent_neq by blast
      then show "usageCount (?L ! ?c) \<le> usageCount (?L ! j)"
        using pick_child_least[OF j, of ls] c j by (simp add: cnt)
    qed (use c 1(3,4) down(2) in \<open>auto simp: cnt\<close>)
    then have "heap_below n ?c ((ls[i := ls ! ?c])[?c := temp])" unfolding sw .
    note IH = 1(1)[OF down(1) refl down(2) this c(2)]
    have "mset (ls[i := ls ! ?c, ?c := temp]) = mset ?L"
      unfolding sw[symmetric] using mset_swap_upd[of i ?L ?c] c 1(3,4) by simp
    with IH down show ?thesis using 1(3,4) by (simp add: trickle_down.simps[of n temp i ls] Let_def)
  qed
qed

lemma trickle_up_correct:
  assumes "heap_above n i ls" "i < n" "n \<le> length ls"
  shows "heap_ok n (trickle_up i ls) \<and> length (trickle_up i ls) = length ls \<and>
    mset (trickle_up i ls) = mset ls \<and> drop n (trickle_up i ls) = drop n ls"
  using assms
proof (induction i ls rule: trickle_up.induct)
  case (1 i ls)
  let ?p = "PARENT_NODE i" and ?l = "ls[PARENT_NODE i := ls ! i, i := ls ! PARENT_NODE i]"
  show ?case
  proof (cases "0 < i \<and> usageCount (ls ! i) < usageCount (ls ! ?p)")
    case True
    have p: "?p < n" using parent_le[of i] 1(3) by simp
    have "heap_above n ?p ?l" using swap_up_above 1(2-4) True by blast
    from 1(1)[OF _ _ this p] True show ?thesis
      using mset_swap_upd[of ?p ls i] p 1(3,4) by (simp add: trickle_up.simps[of i ls])
  next
    case False
    then have "heap_ok n ls" using 1(2) unfolding heap_above_def heap_ok_iff by (metis not_less)
    with False show ?thesis by (auto simp: trickle_up.simps[of i ls])
  qed
qed

lemma mset_take_drop:
  assumes "mset xs = mset ys" "drop n xs = drop n ys"
  shows "mset (take n xs) = mset (take n ys)"
proof -
  have "mset (take n xs) + mset (drop n xs) = mset (take n ys) + mset (drop n ys)"
    using assms(1) by (metis append_take_drop_id mset_append)
  then show ?thesis using assms(2) by simp
qed

text \<open>What a caller sees of the two operations: no assertion fails, and the entries in use are rearranged.\<close>

definition rearranged :: "nat \<Rightarrow> LidUsage_t list \<Rightarrow> LidUsage_t list \<Rightarrow> bool" where
  "rearranged n ls ls' \<longleftrightarrow> heap_ok n ls' \<and> length ls' = length ls \<and> mset (take n ls') = mset (take n ls) \<and>
     drop n ls' = drop n ls"

lemma heapTrickleDown_ok:
  assumes "heap_below (lidsUsed c) index (lids c)" "index < lidsUsed c" "lidsUsed c \<le> length (lids c)"
  shows "\<exists>ls. heapTrickleDown c index = Inr (c\<lparr>lids := ls\<rparr>) \<and> rearranged (lidsUsed c) (lids c) ls"
proof -
  have "heap_below (lidsUsed c) index ((lids c)[index := lids c ! index])" using assms by simp
  note t = trickle_down_correct[OF this assms(2,3)]
  let ?t = "trickle_down (lidsUsed c) (lids c ! index) index (lids c)"
  have "mset (take (lidsUsed c) ?t) = mset (take (lidsUsed c) (lids c))"
    using t by (intro mset_take_drop) simp_all
  with t have "rearranged (lidsUsed c) (lids c) ?t" unfolding rearranged_def by blast
  with t show ?thesis by (auto simp: heapTrickleDown_def checkHeap_def)
qed

lemma heap_ok_mono: "heap_ok n ls \<Longrightarrow> m \<le> n \<Longrightarrow> heap_ok m ls"
  by (simp add: heap_ok_iff)

text \<open>\<open>heapTrickleUp\<close> may be called before \<open>lidsUsed\<close> counts the new entry.\<close>

lemma heapTrickleUp_ok:
  assumes "heap_above n index (lids c)" "index < n" "n \<le> length (lids c)" "lidsUsed c \<le> n"
  shows "\<exists>ls. heapTrickleUp c index = Inr (c\<lparr>lids := ls\<rparr>) \<and> rearranged n (lids c) ls"
proof -
  note t = trickle_up_correct[OF assms(1-3)]
  have "mset (take n (trickle_up index (lids c))) = mset (take n (lids c))"
    using t by (intro mset_take_drop) simp_all
  with t have "rearranged n (lids c) (trickle_up index (lids c))" unfolding rearranged_def by blast
  moreover have "heap_ok (lidsUsed c) (trickle_up index (lids c))" using t heap_ok_mono assms(4) by blast
  ultimately show ?thesis by (auto simp: heapTrickleUp_def checkHeap_def)
qed

text \<open>A heap in which the entry at \<open>i\<close> is replaced.\<close>

lemma heap_upd_below:
  assumes "heap_ok n ls" "i < n" "n \<le> length ls" "0 < i \<Longrightarrow> usageCount (ls ! PARENT_NODE i) \<le> usageCount e"
  shows "heap_below n i (ls[i := e])"
proof -
  have "bypass_ok n i (ls[i := e])"
    using heap_bypass[OF assms(1,2)] assms(2,3) parent_neq[of i] unfolding bypass_ok_def
    by (metis nth_list_update_neq parent_neq)
  moreover have "usageCount (ls[i := e] ! PARENT_NODE j) \<le> usageCount (ls[i := e] ! j)"
    if "0 < j" "j < n" "PARENT_NODE j \<noteq> i" for j
    using that assms by (cases "j = i") (auto simp: heap_ok_iff)
  ultimately show ?thesis unfolding heap_below_def by blast
qed

lemma heap_upd_above:
  assumes "heap_ok n ls" "i < n" "n \<le> length ls" "usageCount e \<le> usageCount (ls ! i)"
  shows "heap_above n i (ls[i := e])"
proof -
  have "bypass_ok n i (ls[i := e])"
    using heap_bypass[OF assms(1,2)] assms(2,3) unfolding bypass_ok_def
    by (metis nth_list_update_neq parent_neq)
  moreover have "usageCount (ls[i := e] ! PARENT_NODE j) \<le> usageCount (ls[i := e] ! j)"
    if j: "0 < j" "j < n" "j \<noteq> i" for j
  proof (cases "PARENT_NODE j = i")
    case True
    then have "usageCount (ls ! i) \<le> usageCount (ls ! j)" using assms(1) j by (auto simp: heap_ok_iff)
    then show ?thesis using True j assms by simp
  qed (use j assms in \<open>auto simp: heap_ok_iff\<close>)
  ultimately show ?thesis unfolding heap_above_def by blast
qed

end
