(* ===== verification/SmMcast.thy ===== *)
theory SmMcast
  imports McHeap SmPartMgr "HOL-Library.AList"
begin

text \<open>
  Multicast groups and the assignment of multicast LIDs (\<^verbatim>\<open>sm_multicast.c\<close>, with the group and
  member lists of \<^verbatim>\<open>sm_l.h\<close>). Groups are sorted into configured classes by a mask and value on
  their MGID. A class with a limit shares its LIDs: while the limit is not reached each new
  group gets a LID of its own, afterwards the least used LID of the groups with the same
  P_Key, MTU and rate is shared. A GID is its 16 bytes in memory (little endian, so byte 15 is
  the multicast prefix). \<open>usageMap\<close> is an association list; no result depends on its order.
\<close>

section \<open>Data\<close>

type_synonym IB_GID = "u8 list"

abbreviation (input) MULTICAST_LID_MIN :: u32 where "MULTICAST_LID_MIN \<equiv> 0xC000"
abbreviation (input) MAX_SIZE_MFT :: nat where "MAX_SIZE_MFT \<equiv> 0x3FFF"
abbreviation (input) MAX_SUPPORTED_MCAST_GRP_CLASSES :: nat where "MAX_SUPPORTED_MCAST_GRP_CLASSES \<equiv> 32"
abbreviation (input) MAX_MCAST_MGIDS :: nat where "MAX_MCAST_MGIDS \<equiv> 20000"
abbreviation (input) IB_LINK_LOCAL_SCOPE :: u8 where "IB_LINK_LOCAL_SCOPE \<equiv> 2"
abbreviation (input) IB_SITE_LOCAL_SCOPE :: u8 where "IB_SITE_LOCAL_SCOPE \<equiv> 5"
abbreviation (input) IB_ORG_LOCAL_SCOPE :: u8 where "IB_ORG_LOCAL_SCOPE \<equiv> 8"
abbreviation (input) IB_GLOBAL_SCOPE :: u8 where "IB_GLOBAL_SCOPE \<equiv> 0xE"
abbreviation (input) LID_FREE :: u32 where "LID_FREE \<equiv> 0xFFFFFFFF"

record McGroupClass_t =
  maximumLids :: u16
  currentLids :: u16
  gc_mask :: IB_GID
  gc_value :: IB_GID
  usageMap :: "(u64 \<times> LidClass_t) list"

record McMember_t =
  mm_index :: u32
  mm_PortGID :: IB_GID

record McGroup_t =
  mg_mGid :: IB_GID
  mg_mLid :: u32
  mg_pKey :: u16
  mg_mtu :: u8
  mg_rate :: u8
  mg_index_pool :: u32
  mcMembers :: "McMember_t list"

record mcast =
  mcGroupClasses :: "McGroupClass_t list"
  defaultMcGroupClass :: McGroupClass_t
  sm_McGroups :: "McGroup_t list"
  mlid_table_cap :: nat

section \<open>Group classes\<close>

definition lidClassKey :: "u16 \<Rightarrow> u8 \<Rightarrow> u8 \<Rightarrow> u64" where
  "lidClassKey pKey mtu rate =
     ucast (mtu AND 0x3F) OR push_bit 8 (ucast (rate AND 0x3F)) OR push_bit 16 (ucast (PKEY_VALUE pKey))"

definition getLidClass :: "McGroupClass_t \<Rightarrow> u16 \<Rightarrow> u8 \<Rightarrow> u8 \<Rightarrow> LidClass_t option" where
  "getLidClass g pKey mtu rate = map_of (usageMap g) (lidClassKey pKey mtu rate)"

definition put_class :: "McGroupClass_t \<Rightarrow> u16 \<Rightarrow> u8 \<Rightarrow> u8 \<Rightarrow> LidClass_t \<Rightarrow> McGroupClass_t" where
  "put_class g pKey mtu rate c = g\<lparr>usageMap := AList.update (lidClassKey pKey mtu rate) c (usageMap g)\<rparr>"

definition addLidClass :: "bool \<Rightarrow> McGroupClass_t \<Rightarrow> u16 \<Rightarrow> u8 \<Rightarrow> u8 \<Rightarrow> (LidClass_t \<times> McGroupClass_t) option" where
  "addLidClass alloc g pKey mtu rate =
     (if alloc
      then let c = \<lparr>lidsUsed = 0, lc_pKey = pKey, lc_mtu = ucast mtu, lc_rate = ucast rate,
                    lids = replicate (unat (maximumLids g)) lid_unused\<rparr>
           in Some (c, put_class g pKey mtu rate c)
      else None)"

definition sm_multicast_create_group_class :: "IB_GID \<Rightarrow> IB_GID \<Rightarrow> u16 \<Rightarrow> McGroupClass_t" where
  "sm_multicast_create_group_class msk val maxLids =
     \<lparr>maximumLids = maxLids, currentLids = 0, gc_mask = msk, gc_value = val, usageMap = []\<rparr>"

definition sm_multicast_add_group_class :: "IB_GID \<Rightarrow> IB_GID \<Rightarrow> u16 \<Rightarrow> mcast \<Rightarrow> Status_t \<times> mcast" where
  "sm_multicast_add_group_class msk val maxLids s =
     (let n = length (mcGroupClasses s);
          status = (if n = 0 then VSTATUS_OK
                    else if n \<ge> MAX_SUPPORTED_MCAST_GRP_CLASSES then VSTATUS_NOMEM
                    else if list_ex (\<lambda>g. gc_mask g = msk \<and> gc_value g = val) (mcGroupClasses s) then VSTATUS_KNOWN
                    else VSTATUS_OK)
      in if status = VSTATUS_OK
         then (VSTATUS_OK, s\<lparr>mcGroupClasses := mcGroupClasses s @ [sm_multicast_create_group_class msk val maxLids]\<rparr>)
         else (status, s))"

definition sm_multicast_set_default_group_class :: "u16 \<Rightarrow> mcast \<Rightarrow> Status_t \<times> mcast" where
  "sm_multicast_set_default_group_class maxLids s =
     (VSTATUS_OK, s\<lparr>defaultMcGroupClass := sm_multicast_create_group_class (replicate 16 0) (replicate 16 0) maxLids\<rparr>)"

definition gid_matches :: "IB_GID \<Rightarrow> McGroupClass_t \<Rightarrow> bool" where
  "gid_matches gid g = list_all (\<lambda>j. gc_mask g ! j AND gid ! j = gc_value g ! j) [0..<16]"

text \<open>The class of a GID, by its index in the table; \<open>None\<close> is the default class.\<close>

definition find_mc_group_class :: "mcast \<Rightarrow> IB_GID \<Rightarrow> nat option" where
  "find_mc_group_class s gid =
     List.find (\<lambda>i. gid_matches gid (mcGroupClasses s ! i)) [0..<length (mcGroupClasses s)]"

definition class_at :: "mcast \<Rightarrow> nat option \<Rightarrow> McGroupClass_t" where
  "class_at s r = (case r of None \<Rightarrow> defaultMcGroupClass s | Some i \<Rightarrow> mcGroupClasses s ! i)"

definition set_class_at :: "nat option \<Rightarrow> McGroupClass_t \<Rightarrow> mcast \<Rightarrow> mcast" where
  "set_class_at r g s =
     (case r of None \<Rightarrow> s\<lparr>defaultMcGroupClass := g\<rparr> | Some i \<Rightarrow> s\<lparr>mcGroupClasses := (mcGroupClasses s)[i := g]\<rparr>)"

section \<open>Multicast LIDs\<close>

definition sm_multicast_is_lid_in_use :: "McGroup_t list \<Rightarrow> u32 \<Rightarrow> nat" where
  "sm_multicast_is_lid_in_use groups lid = length (filter (\<lambda>g. mg_mLid g = lid) groups)"

definition sm_mc_find_unused_lid :: "nat \<Rightarrow> McGroup_t list \<Rightarrow> u32 option" where
  "sm_mc_find_unused_lid cap groups =
     map_option (\<lambda>k. MULTICAST_LID_MIN + of_nat k)
       (List.find (\<lambda>k. sm_multicast_is_lid_in_use groups (MULTICAST_LID_MIN + of_nat k) = 0) [0..<cap])"

definition sm_multicast_get_max_lid :: "McGroup_t list \<Rightarrow> u32" where
  "sm_multicast_get_max_lid groups = fold (\<lambda>g m. if mg_mLid g > m then mg_mLid g else m) groups 0"

text \<open>The four ways \<open>sm_mc_get_group_class_lid\<close> changes a heap of LIDs.\<close>

definition append_new :: "LidClass_t \<Rightarrow> u32 \<Rightarrow> LidClass_t c_result" where
  "append_new c lid =
     (if \<not> lidsUsed c < length (lids c) then Inl OutOfBounds
      else if lu_lid (lids c ! lidsUsed c) \<noteq> LID_FREE then Inl AssertFailed
      else heapTrickleUp (c\<lparr>lidsUsed := lidsUsed c + 1,
                           lids := (lids c)[lidsUsed c := \<lparr>lu_lid = lid, usageCount = 1\<rparr>]\<rparr>) (lidsUsed c))"

definition append_requested :: "LidClass_t \<Rightarrow> u32 \<Rightarrow> LidClass_t c_result" where
  "append_requested c lid =
     (if \<not> lidsUsed c < length (lids c) then Inl OutOfBounds
      else if lu_lid (lids c ! lidsUsed c) \<noteq> LID_FREE then Inl AssertFailed
      else map_sum id (\<lambda>c'. c'\<lparr>lidsUsed := lidsUsed c' + 1\<rparr>)
             (heapTrickleUp (c\<lparr>lids := (lids c)[lidsUsed c := \<lparr>lu_lid = lid, usageCount = 1\<rparr>]\<rparr>) (lidsUsed c)))"

definition bump :: "LidClass_t \<Rightarrow> nat \<Rightarrow> LidClass_t c_result" where
  "bump c index =
     heapTrickleDown (c\<lparr>lids := (lids c)[index := (lids c ! index)\<lparr>usageCount := usageCount (lids c ! index) + 1\<rparr>]\<rparr>) index"

definition find_lid :: "LidClass_t \<Rightarrow> u32 \<Rightarrow> nat" where
  "find_lid c lid =
     (case List.find (\<lambda>i. lu_lid (lids c ! i) = lid) [0..<lidsUsed c] of Some i \<Rightarrow> i | None \<Rightarrow> lidsUsed c)"

text \<open>
  \<open>unused\<close> is what \<open>sm_mc_find_unused_lid\<close> finds for the current groups; the result's second
  part is the LID written through the pointer, if any.
\<close>

definition sm_mc_get_group_class_lid ::
  "bool \<Rightarrow> u32 option \<Rightarrow> McGroupClass_t \<Rightarrow> u16 \<Rightarrow> u8 \<Rightarrow> u8 \<Rightarrow> u32 \<Rightarrow> (Status_t \<times> u32 option \<times> McGroupClass_t) c_result" where
  "sm_mc_get_group_class_lid alloc unused g pKey mtu rate requestedLid =
     (let lc = getLidClass g pKey mtu rate
      in if currentLids g < maximumLids g
         then (case (case lc of Some c \<Rightarrow> Some (c, g) | None \<Rightarrow> addLidClass alloc g pKey mtu rate) of
                 None \<Rightarrow> Inr (VSTATUS_NOMEM, None, g)
               | Some (c, g1) \<Rightarrow>
                   let g2 = g1\<lparr>currentLids := currentLids g1 + 1\<rparr>
                   in if requestedLid = 0
                      then (case unused of
                              None \<Rightarrow> Inr (VSTATUS_BAD, None, g1)
                            | Some newLid \<Rightarrow>
                                map_sum id (\<lambda>c'. (VSTATUS_OK, Some newLid, put_class g2 pKey mtu rate c')) (append_new c newLid))
                      else let index = find_lid c requestedLid
                           in if index = lidsUsed c
                              then map_sum id (\<lambda>c'. (VSTATUS_OK, Some requestedLid, put_class g2 pKey mtu rate c'))
                                     (append_requested c requestedLid)
                              else map_sum id (\<lambda>c'. (VSTATUS_OK, Some requestedLid, put_class g1 pKey mtu rate c')) (bump c index))
         else (case lc of
                 None \<Rightarrow> Inr (VSTATUS_NORESOURCE, None, g)
               | Some c \<Rightarrow>
                   if requestedLid = 0
                   then (if lids c = [] then Inl OutOfBounds
                         else if lu_lid (lids c ! 0) = LID_FREE then Inl AssertFailed
                         else map_sum id (\<lambda>c'. (VSTATUS_OK, Some (lu_lid (lids c ! 0)), put_class g pKey mtu rate c')) (bump c 0))
                   else let index = find_lid c requestedLid
                        in if index < lidsUsed c
                           then map_sum id (\<lambda>c'. (VSTATUS_OK, Some requestedLid, put_class g pKey mtu rate c')) (bump c index)
                           else Inr (VSTATUS_NORESOURCE, None, g)))"

definition sm_multicast_assign_lid ::
  "bool \<Rightarrow> IB_GID \<Rightarrow> u16 \<Rightarrow> u8 \<Rightarrow> u8 \<Rightarrow> mcast \<Rightarrow> (Status_t \<times> u32 option \<times> mcast) c_result" where
  "sm_multicast_assign_lid alloc mGid pKey mtu rate s =
     (let r = find_mc_group_class s mGid; g = class_at s r; unused = sm_mc_find_unused_lid (mlid_table_cap s) (sm_McGroups s)
      in if maximumLids g = 0
         then (case unused of
                 None \<Rightarrow> Inr (VSTATUS_BAD, None, s)
               | Some lid \<Rightarrow> Inr (VSTATUS_OK, Some lid, set_class_at r (g\<lparr>currentLids := currentLids g + 1\<rparr>) s))
         else map_sum id (\<lambda>(st, lid, g'). (st, lid, set_class_at r g' s))
                (sm_mc_get_group_class_lid alloc unused g pKey mtu rate 0))"

text \<open>Release of an entry whose count has dropped to zero, before \<open>lidsUsed\<close> is decremented.\<close>

definition drop_entry :: "LidClass_t \<Rightarrow> nat \<Rightarrow> LidClass_t c_result" where
  "drop_entry c i =
     (let last = lidsUsed c - 1
      in if i \<noteq> last
         then let c1 = c\<lparr>lids := (lids c)[i := lids c ! last, last := lid_unused]\<rparr>
              in if i \<noteq> 0 \<and> usageCount (lids c1 ! i) < usageCount (lids c1 ! PARENT_NODE i)
                 then heapTrickleUp c1 i else heapTrickleDown c1 i
         else Inr (c\<lparr>lids := (lids c)[last := lid_unused]\<rparr>))"

definition release_lid :: "LidClass_t \<Rightarrow> nat \<Rightarrow> (bool \<times> LidClass_t) c_result" where
  "release_lid c i =
     (if usageCount (lids c ! i) = 0 then Inl AssertFailed
      else let c1 = c\<lparr>lids := (lids c)[i := (lids c ! i)\<lparr>usageCount := usageCount (lids c ! i) - 1\<rparr>]\<rparr>
           in if usageCount (lids c1 ! i) = 0
              then map_sum id (\<lambda>c2. (True, c2\<lparr>lidsUsed := lidsUsed c2 - 1\<rparr>)) (drop_entry c1 i)
              else map_sum id (Pair False) (heapTrickleUp c1 i))"

definition sm_multicast_decommision_group :: "McGroup_t \<Rightarrow> mcast \<Rightarrow> (Status_t \<times> mcast) c_result" where
  "sm_multicast_decommision_group grp s =
     (let r = find_mc_group_class s (mg_mGid grp); g = class_at s r
      in if maximumLids g = 0 then Inr (VSTATUS_OK, s)
         else case getLidClass g (mg_pKey grp) (mg_mtu grp) (mg_rate grp) of
                None \<Rightarrow> Inl AssertFailed
              | Some c \<Rightarrow>
                  let i = find_lid c (mg_mLid grp)
                  in if i < lidsUsed c
                     then map_sum id (\<lambda>(dropped, c').
                            let g1 = put_class g (mg_pKey grp) (mg_mtu grp) (mg_rate grp) c'
                            in (VSTATUS_OK, set_class_at r (if dropped then g1\<lparr>currentLids := currentLids g1 - 1\<rparr> else g1) s))
                            (release_lid c i)
                     else Inr (VSTATUS_OK, s))"

text \<open>
  The check before a standby takes over an assignment of the master: the LID must not be in
  use in a class other than the one it belongs to. The entry of the class itself is
  recognised by its stored P_Key (membership bit included), MTU and rate.
\<close>

definition same_lid_class :: "u16 \<Rightarrow> u8 \<Rightarrow> u8 \<Rightarrow> LidClass_t \<Rightarrow> bool" where
  "same_lid_class pKey mtu rate c \<longleftrightarrow> lc_pKey c = pKey \<and> lc_mtu c = ucast mtu \<and> lc_rate c = ucast rate"

definition holds_lid :: "u32 \<Rightarrow> LidClass_t \<Rightarrow> bool" where
  "holds_lid lid c = list_ex (\<lambda>j. lu_lid (lids c ! j) = lid) [0..<lidsUsed c]"

definition sm_multicast_check_sync_consistancy :: "mcast \<Rightarrow> nat option \<Rightarrow> u16 \<Rightarrow> u8 \<Rightarrow> u8 \<Rightarrow> u32 \<Rightarrow> Status_t" where
  "sm_multicast_check_sync_consistancy s r pKey mtu rate lid =
     (if list_ex (\<lambda>i. list_ex (\<lambda>(k, c). \<not> (r = Some i \<and> same_lid_class pKey mtu rate c) \<and> holds_lid lid c)
                            (usageMap (mcGroupClasses s ! i))) [0..<length (mcGroupClasses s)] \<or>
         list_ex (\<lambda>(k, c). \<not> same_lid_class pKey mtu rate c \<and> holds_lid lid c) (usageMap (defaultMcGroupClass s))
      then VSTATUS_REJECT else VSTATUS_OK)"

definition sm_multicast_sync_lid :: "bool \<Rightarrow> IB_GID \<Rightarrow> u16 \<Rightarrow> u8 \<Rightarrow> u8 \<Rightarrow> u32 \<Rightarrow> mcast \<Rightarrow> (Status_t \<times> mcast) c_result" where
  "sm_multicast_sync_lid alloc mGid pKey mtu rate lid s =
     (let r = find_mc_group_class s mGid; g = class_at s r; status = sm_multicast_check_sync_consistancy s r pKey mtu rate lid
      in if status \<noteq> VSTATUS_OK then Inr (status, s)
         else if maximumLids g = 0 then Inr (VSTATUS_OK, set_class_at r (g\<lparr>currentLids := currentLids g + 1\<rparr>) s)
         else map_sum id (\<lambda>(st, _, g'). (st, set_class_at r g' s))
                (sm_mc_get_group_class_lid alloc (sm_mc_find_unused_lid (mlid_table_cap s) (sm_McGroups s)) g pKey mtu rate lid))"

section \<open>Groups and members\<close>

definition McGroup_Create :: "McGroup_t \<Rightarrow> mcast \<Rightarrow> mcast" where
  "McGroup_Create grp s = s\<lparr>sm_McGroups := grp # sm_McGroups s\<rparr>"

definition McGroup_Delete :: "McGroup_t \<Rightarrow> mcast \<Rightarrow> mcast c_result" where
  "McGroup_Delete grp s =
     map_sum id (\<lambda>(_, s1). s1\<lparr>sm_McGroups := remove1 grp (sm_McGroups s1)\<rparr>) (sm_multicast_decommision_group grp s)"

definition McMember_Create :: "IB_GID \<Rightarrow> McGroup_t \<Rightarrow> McGroup_t" where
  "McMember_Create gid grp =
     (let i = mg_index_pool grp + 1
      in grp\<lparr>mg_index_pool := i, mcMembers := \<lparr>mm_index = i, mm_PortGID = gid\<rparr> # mcMembers grp\<rparr>)"

definition McMember_Delete :: "McMember_t \<Rightarrow> McGroup_t \<Rightarrow> McGroup_t" where
  "McMember_Delete m grp = grp\<lparr>mcMembers := remove1 m (mcMembers grp)\<rparr>"

text \<open>A request that creates a group: the LID is assigned, then the group is entered with it.\<close>

definition new_group :: "IB_GID \<Rightarrow> u32 \<Rightarrow> u16 \<Rightarrow> u8 \<Rightarrow> u8 \<Rightarrow> McGroup_t" where
  "new_group mGid lid pKey mtu rate =
     \<lparr>mg_mGid = mGid, mg_mLid = lid, mg_pKey = pKey, mg_mtu = mtu, mg_rate = rate, mg_index_pool = 0, mcMembers = []\<rparr>"

definition create_group :: "bool \<Rightarrow> IB_GID \<Rightarrow> u16 \<Rightarrow> u8 \<Rightarrow> u8 \<Rightarrow> mcast \<Rightarrow> (Status_t \<times> mcast) c_result" where
  "create_group alloc mGid pKey mtu rate s =
     (if length (sm_McGroups s) = MAX_MCAST_MGIDS then Inr (VSTATUS_NORESOURCE, s)
      else map_sum id (\<lambda>(st, lid, s1). case (st, lid) of
               (VSTATUS_OK, Some l) \<Rightarrow> (VSTATUS_OK, McGroup_Create (new_group mGid l pKey mtu rate) s1)
             | _ \<Rightarrow> (st, s1))
             (sm_multicast_assign_lid alloc mGid pKey mtu rate s))"

text \<open>The standby enters a group of the master, with the LID the master gave it.\<close>

definition sync_group :: "bool \<Rightarrow> IB_GID \<Rightarrow> u16 \<Rightarrow> u8 \<Rightarrow> u8 \<Rightarrow> u32 \<Rightarrow> mcast \<Rightarrow> (Status_t \<times> mcast) c_result" where
  "sync_group alloc mGid pKey mtu rate lid s =
     map_sum id (\<lambda>(st, s1). if st = VSTATUS_OK then (st, McGroup_Create (new_group mGid lid pKey mtu rate) s1) else (st, s1))
       (sm_multicast_sync_lid alloc mGid pKey mtu rate lid s)"

definition sm_find_multicast_gid :: "McGroup_t list \<Rightarrow> IB_GID \<Rightarrow> McGroup_t option" where
  "sm_find_multicast_gid groups gid = List.find (\<lambda>g. mg_mGid g = gid) groups"

text \<open>The byte-wise comparison of the two inner loops: is the first GID greater?\<close>

fun raw_gt :: "IB_GID \<Rightarrow> IB_GID \<Rightarrow> bool" where
  "raw_gt (x # xs) (y # ys) = (if x < y then False else if x > y then True else raw_gt xs ys)"
| "raw_gt _ _ = False"

definition next_best :: "IB_GID \<Rightarrow> McGroup_t \<Rightarrow> McGroup_t option \<Rightarrow> McGroup_t option" where
  "next_best gid d best =
     (if raw_gt (mg_mGid d) gid
      then (case best of None \<Rightarrow> Some d | Some b \<Rightarrow> if raw_gt (mg_mGid b) (mg_mGid d) then Some d else Some b)
      else best)"

definition sm_find_next_multicast_gid :: "McGroup_t list \<Rightarrow> IB_GID \<Rightarrow> McGroup_t option" where
  "sm_find_next_multicast_gid groups gid = fold (next_best gid) groups None"

definition le_bytes :: "nat \<Rightarrow> u64 \<Rightarrow> u8 list" where
  "le_bytes n w = map (\<lambda>k. ucast (drop_bit (8 * k) w)) [0..<n]"

text \<open>
  The GIDs tried by \<open>sm_multicast_gid_assign\<close>: a counter, the subnet prefix, the SA's
  signature, transient flag and scope, and the multicast prefix. The function gets the GID
  by value: a caller sees only the status.
\<close>

definition gid_candidate :: "u32 \<Rightarrow> u64 \<Rightarrow> nat \<Rightarrow> IB_GID" where
  "gid_candidate scope prefix i =
     le_bytes 4 (of_nat i) @ le_bytes 8 prefix @ [0x1b, 0xa0, push_bit 4 1 OR (ucast scope AND 0xF), 0xff]"

function gid_assign_loop :: "McGroup_t list \<Rightarrow> u32 \<Rightarrow> u64 \<Rightarrow> nat \<Rightarrow> Status_t" where
  "gid_assign_loop groups scope prefix i =
     (if sm_find_multicast_gid groups (gid_candidate scope prefix i) = None then VSTATUS_OK
      else if i < 0xFFFFFFFF then gid_assign_loop groups scope prefix (i + 1)
      else VSTATUS_BAD)"
  by pat_completeness auto
termination
  by (relation "measure (\<lambda>(groups, scope, prefix, i). 0xFFFFFFFF - i)") auto

declare gid_assign_loop.simps [simp del]

definition sm_multicast_gid_assign :: "u64 \<Rightarrow> McGroup_t list \<Rightarrow> u32 \<Rightarrow> Status_t" where
  "sm_multicast_gid_assign prefix groups scope =
     gid_assign_loop groups (if scope = 0 then ucast IB_SITE_LOCAL_SCOPE else scope) prefix 0"

definition sm_multicast_gid_check :: "McGroup_t list \<Rightarrow> IB_GID \<Rightarrow> Status_t" where
  "sm_multicast_gid_check groups gid = (if sm_find_multicast_gid groups gid \<noteq> None then VSTATUS_BAD else VSTATUS_OK)"

definition sm_multicast_gid_valid :: "IB_GID \<Rightarrow> Status_t" where
  "sm_multicast_gid_valid gid =
     (let temp = gid ! 14 AND 0xF
      in if gid ! 15 \<noteq> 0xff then VSTATUS_BAD
         else if drop_bit 4 (gid ! 14) \<ge> 2 then VSTATUS_BAD
         else if temp \<noteq> IB_LINK_LOCAL_SCOPE \<and> temp \<noteq> IB_SITE_LOCAL_SCOPE \<and> temp \<noteq> IB_ORG_LOCAL_SCOPE \<and> temp \<noteq> IB_GLOBAL_SCOPE
         then VSTATUS_BAD
         else if gid ! 13 = 0xa0 \<and> gid ! 12 = 0x1b \<and> temp = 2 then VSTATUS_BAD
         else VSTATUS_OK)"

text \<open>
  The creation of a group without an MGID in \<open>sa_McMemberRecord_Set\<close>: the GID assignment leaves
  the request's MGID as it was, zero, and the LID is assigned with the MTU, rate and P_Key
  passed in the places of P_Key, MTU and rate.
\<close>

definition create_group_no_mgid :: "bool \<Rightarrow> u64 \<Rightarrow> u32 \<Rightarrow> u16 \<Rightarrow> u8 \<Rightarrow> u8 \<Rightarrow> mcast \<Rightarrow> (Status_t \<times> mcast) c_result" where
  "create_group_no_mgid alloc prefix scope pKey mtu rate s =
     (let mGid = replicate 16 0
      in if length (sm_McGroups s) = MAX_MCAST_MGIDS then Inr (VSTATUS_NORESOURCE, s)
         else if sm_multicast_gid_assign prefix (sm_McGroups s) scope \<noteq> VSTATUS_OK then Inr (VSTATUS_NORESOURCE, s)
         else map_sum id (\<lambda>(st, lid, s1). case (st, lid) of
                  (VSTATUS_OK, Some l) \<Rightarrow> (VSTATUS_OK, McGroup_Create (new_group mGid l pKey mtu rate) s1)
                | _ \<Rightarrow> (st, s1))
                (sm_multicast_assign_lid alloc mGid (ucast mtu) rate (ucast pKey) s))"

definition sm_find_multicast_member :: "McGroup_t \<Rightarrow> IB_GID \<Rightarrow> McMember_t option" where
  "sm_find_multicast_member grp gid = List.find (\<lambda>m. gid = mm_PortGID m) (mcMembers grp)"

definition sm_find_multicast_member_by_index :: "McGroup_t \<Rightarrow> u32 \<Rightarrow> McMember_t option" where
  "sm_find_multicast_member_by_index grp index = List.find (\<lambda>m. mm_index m = index) (mcMembers grp)"

definition next_member :: "u32 \<Rightarrow> McMember_t \<Rightarrow> McMember_t option \<Rightarrow> McMember_t option" where
  "next_member index m best =
     (if mm_index m > index
      then (case best of None \<Rightarrow> Some m | Some b \<Rightarrow> if mm_index m < mm_index b then Some m else Some b)
      else best)"

definition sm_find_next_multicast_member_by_index :: "McGroup_t \<Rightarrow> u32 \<Rightarrow> McMember_t option" where
  "sm_find_next_multicast_member_by_index grp index = fold (next_member index) (mcMembers grp) None"

end
