(* ===== verification/SmMcastLids.thy ===== *)
theory SmMcastLids
  imports SmMcast
begin

text \<open>
  Correctness of the multicast LID assignment: the heaps stay ordered and well formed, the
  counts of every class are exactly the groups that use each LID, deletions never fail, and a
  new group gets an unused LID or the least used one. Two sequences that make the code fail
  are given as theorems.
\<close>

section \<open>The LIDs of a class\<close>

text \<open>
  Entries in use: distinct LIDs with positive counts, then unused entries up to the capacity.
  \<open>use_of\<close> is the number of groups recorded for a LID.
\<close>

definition ok_list :: "nat \<Rightarrow> nat \<Rightarrow> LidUsage_t list \<Rightarrow> bool" where
  "ok_list m n ls \<longleftrightarrow> length ls = m \<and> n \<le> m \<and> drop n ls = replicate (m - n) lid_unused \<and>
     (\<forall>u \<in> set (take n ls). usageCount u \<noteq> 0 \<and> lu_lid u \<noteq> LID_FREE) \<and> distinct (map lu_lid (take n ls))"

definition use_of :: "LidUsage_t list \<Rightarrow> u32 \<Rightarrow> nat" where
  "use_of us lid = sum_list (map (\<lambda>u. if lu_lid u = lid then unat (usageCount u) else 0) us)"

definition lc_ok :: "nat \<Rightarrow> LidClass_t \<Rightarrow> bool" where
  "lc_ok m c \<longleftrightarrow> ok_list m (lidsUsed c) (lids c) \<and> heap_ok (lidsUsed c) (lids c)"

definition usage :: "LidClass_t \<Rightarrow> u32 \<Rightarrow> nat" where
  "usage c = use_of (take (lidsUsed c) (lids c))"

lemma use_of_mset: "mset us = mset vs \<Longrightarrow> use_of us = use_of vs"
  unfolding use_of_def by (metis (no_types) mset_map sum_mset_sum_list)

lemma use_of_append: "use_of (us @ vs) lid = use_of us lid + use_of vs lid"
  by (simp add: use_of_def)

lemma use_of_pos: "\<forall>u \<in> set us. usageCount u \<noteq> 0 \<Longrightarrow> use_of us lid = 0 \<longleftrightarrow> lid \<notin> lu_lid ` set us"
  by (induction us) (auto simp: use_of_def unat_eq_0)

lemma use_of_nth:
  assumes "distinct (map lu_lid us)" "i < length us"
  shows "use_of us (lu_lid (us ! i)) = unat (usageCount (us ! i))"
  using assms
proof (induction us arbitrary: i)
  case (Cons u us)
  have z: "use_of us lid = 0" if "lid \<notin> lu_lid ` set us" for lid
    using that by (induction us) (auto simp: use_of_def)
  show ?case
  proof (cases i)
    case 0
    then show ?thesis using Cons z[of "lu_lid u"] by (simp add: use_of_def)
  next
    case (Suc k)
    then have "us ! k \<in> set us" using Cons by simp
    then have "lu_lid u \<noteq> lu_lid (us ! k)" using Cons.prems(1) by auto
    then show ?thesis using Suc Cons by (simp add: use_of_def)
  qed
qed simp

lemma ok_list_rearranged:
  assumes "rearranged n ls ls'" "ok_list m n ls"
  shows "ok_list m n ls' \<and> use_of (take n ls') = use_of (take n ls)"
proof -
  have ms: "mset (take n ls') = mset (take n ls)" using assms(1) by (simp add: rearranged_def)
  then have "set (take n ls') = set (take n ls)" "distinct (map lu_lid (take n ls')) = distinct (map lu_lid (take n ls))"
    using mset_eq_setD[OF ms] mset_eq_imp_distinct_iff[of "map lu_lid (take n ls')" "map lu_lid (take n ls)"] by simp_all
  then show ?thesis using assms use_of_mset[OF ms] by (simp add: ok_list_def rearranged_def)
qed

text \<open>A new entry at the end.\<close>

lemma ok_list_append:
  assumes "ok_list m n ls" "n < m" "lid \<noteq> LID_FREE" "use_of (take n ls) lid = 0"
  shows "ok_list m (Suc n) (ls[n := \<lparr>lu_lid = lid, usageCount = 1\<rparr>]) \<and>
    use_of (take (Suc n) (ls[n := \<lparr>lu_lid = lid, usageCount = 1\<rparr>])) = (use_of (take n ls))(lid := 1)"
proof -
  let ?x = "\<lparr>lu_lid = lid, usageCount = 1\<rparr> :: LidUsage_t"
  have l: "length ls = m" "drop n ls = replicate (m - n) lid_unused" using assms(1) by (auto simp: ok_list_def)
  have t: "take (Suc n) (ls[n := ?x]) = take n ls @ [?x]"
    using l assms(2) by (simp add: take_Suc_conv_app_nth)
  have "drop (Suc n) ls = replicate (m - Suc n) lid_unused"
    using l(2) by (metis Suc_diff_Suc assms(2) drop_Suc drop_tl replicate_Suc list.sel(3))
  then have d: "drop (Suc n) (ls[n := ?x]) = replicate (m - Suc n) lid_unused" by simp
  have "lid \<notin> lu_lid ` set (take n ls)" using assms(1,4) use_of_pos[of "take n ls" lid] by (simp add: ok_list_def)
  then have "ok_list m (Suc n) (ls[n := ?x])"
    unfolding ok_list_def t d using assms(1-3) l(1) by (auto simp: ok_list_def)
  moreover have "use_of (take n ls @ [?x]) = (use_of (take n ls))(lid := 1)"
    using assms(4) by (rule_tac ext) (simp add: use_of_append use_of_def[of "[?x]"])
  ultimately show ?thesis unfolding t by blast
qed

text \<open>Another count for an entry in use.\<close>

lemma ok_list_count:
  assumes "ok_list m n ls" "i < n" "cnt \<noteq> 0"
  shows "ok_list m n (ls[i := (ls ! i)\<lparr>usageCount := cnt\<rparr>]) \<and>
    use_of (take n (ls[i := (ls ! i)\<lparr>usageCount := cnt\<rparr>])) = (use_of (take n ls))(lu_lid (ls ! i) := unat cnt)"
proof -
  let ?x = "(ls ! i)\<lparr>usageCount := cnt\<rparr>" and ?us = "take n ls"
  have i: "i < length ?us" "?us ! i = ls ! i" and dis: "distinct (map lu_lid ?us)"
    using assms by (auto simp: ok_list_def)
  have t: "take n (ls[i := ?x]) = ?us[i := ?x]" by (simp add: take_update_swap)
  have "map lu_lid (?us[i := ?x]) = map lu_lid ?us"
    using i by (simp add: map_update list_update_same_conv)
  moreover have "\<forall>u \<in> set (?us[i := ?x]). usageCount u \<noteq> 0 \<and> lu_lid u \<noteq> LID_FREE"
    using assms i set_update_subset_insert[of ?us i ?x] nth_mem[OF i(1)] by (auto simp: ok_list_def)
  ultimately have "ok_list m n (ls[i := ?x])"
    unfolding ok_list_def t using assms by (auto simp: ok_list_def)
  moreover have "use_of (?us[i := ?x]) lid = ((use_of ?us)(lu_lid (ls ! i) := unat cnt)) lid" for lid
  proof (cases "lid = lu_lid (ls ! i)")
    case True
    then show ?thesis
      using use_of_nth[of "?us[i := ?x]" i] \<open>map lu_lid (?us[i := ?x]) = map lu_lid ?us\<close> dis i by simp
  next
    case False
    let ?f = "\<lambda>u :: LidUsage_t. if lu_lid u = lid then unat (usageCount u) else 0"
    have "(map ?f ?us)[i := ?f ?x] = map ?f ?us"
      using False i list_update_same_conv[of i "map ?f ?us"] by simp
    then show ?thesis using False by (simp add: use_of_def map_update)
  qed
  ultimately show ?thesis unfolding t by blast
qed

text \<open>The last entry takes the place of a released one.\<close>

lemma ok_list_drop:
  assumes "ok_list m (Suc n) ls" "i < Suc n"
  shows "ok_list m n (ls[i := ls ! n, n := lid_unused]) \<and>
    use_of (take n (ls[i := ls ! n, n := lid_unused])) = (use_of (take (Suc n) ls))(lu_lid (ls ! i) := 0)"
proof -
  let ?r = "ls[i := ls ! n, n := lid_unused]" and ?us = "take (Suc n) ls"
  have l: "n < length ls" "length ls = m" "drop (Suc n) ls = replicate (m - Suc n) lid_unused" and dis: "distinct (map lu_lid ?us)"
    using assms by (auto simp: ok_list_def)
  have "take n ?r = take n (ls[i := ls ! n])" by simp
  then have t: "take n ?r = (take n ls)[i := ls ! n]" by (simp only: take_update_swap)
  have us: "?us = take n ls @ [ls ! n]" using l by (simp add: take_Suc_conv_app_nth)
  have ms: "mset ?us = add_mset (ls ! i) (mset (take n ?r))"
  proof (cases "i = n")
    case True
    then have "(take n ls)[i := ls ! n] = take n ls" using l by (simp add: list_update_beyond)
    then show ?thesis unfolding us t using True by simp
  next
    case False
    then have i: "i < length (take n ls)" "take n ls ! i = ls ! i" using assms(2) l by auto
    then have "ls ! i \<in># mset (take n ls)" by (metis nth_mem set_mset_mset)
    then show ?thesis unfolding us t mset_update[OF i(1)] i(2) by simp
  qed
  then have "image_mset lu_lid (mset ?us) = add_mset (lu_lid (ls ! i)) (image_mset lu_lid (mset (take n ?r)))" by simp
  then have mm: "mset (map lu_lid ?us) = mset (lu_lid (ls ! i) # map lu_lid (take n ?r))" by simp
  have d2: "distinct (lu_lid (ls ! i) # map lu_lid (take n ?r))"
    using mset_eq_imp_distinct_iff[OF mm] dis by blast
  have sub: "set (take n ?r) \<subseteq> set ?us" using ms by (metis set_mset_add_mset_insert set_mset_mset subset_insertI)
  have "drop n ?r = lid_unused # drop (Suc n) ls"
    using l assms(2) by (simp add: Cons_nth_drop_Suc[symmetric] del: Cons_nth_drop_Suc)
  then have "drop n ?r = replicate (m - n) lid_unused" using l by (metis Suc_diff_Suc replicate_Suc)
  then have "ok_list m n ?r"
    unfolding ok_list_def using assms(1) sub d2 by (auto simp: ok_list_def)
  moreover have "use_of (take n ?r) lid = ((use_of ?us)(lu_lid (ls ! i) := 0)) lid" for lid
  proof (cases "lid = lu_lid (ls ! i)")
    case True
    have "\<forall>u \<in> set (take n ?r). usageCount u \<noteq> 0" using sub assms(1) by (auto simp: ok_list_def)
    then show ?thesis using use_of_pos[of "take n ?r" lid] d2 True by auto
  next
    case False
    have "use_of ?us = use_of (ls ! i # take n ?r)" using ms by (intro use_of_mset) simp
    then show ?thesis using False by (simp add: use_of_def[of "_ # _"] use_of_def[symmetric])
  qed
  ultimately show ?thesis by blast
qed
text \<open>An unused last entry is never moved by \<open>trickle_down\<close>: it may as well not be there.\<close>

lemma count_le_max: "(x :: u16) \<le> 0xFFFF"
  using unsigned_less[of x, where ?'a = nat] by (simp add: word_le_nat_alt)

lemma trickle_down_unused:
  assumes "usageCount (ls ! n) = 0xFFFF" "i < n"
  shows "trickle_down (Suc n) temp i ls = trickle_down n temp i ls"
  using assms
proof (induction n temp i ls rule: trickle_down.induct)
  case (1 n temp i ls)
  have full: "\<not> x > usageCount (ls ! n)" for x using count_le_max[of x] 1(2) by simp
  have pc: "CHILD_LEFT i < n \<Longrightarrow> pick_child (Suc n) ls (CHILD_LEFT i) = pick_child n ls (CHILD_LEFT i)"
    using full by (auto simp: pick_child_def less_Suc_eq)
  consider (inner) "CHILD_LEFT i < n" | (border) "CHILD_LEFT i = n" | (out) "CHILD_LEFT i > n" by linarith
  then show ?case
  proof cases
    case inner
    let ?c = "pick_child n ls (CHILD_LEFT i)"
    have c: "?c < n" using pick_child_less[OF inner] .
    have "usageCount (ls[i := ls ! ?c] ! n) = 0xFFFF" using 1(2,3) by simp
    then show ?thesis
      using 1(1)[OF inner refl _ _ c] inner pc
      by (simp add: trickle_down.simps[of "Suc n" temp i ls] trickle_down.simps[of n temp i ls] Let_def)
  next
    case border
    then have "pick_child (Suc n) ls (CHILD_LEFT i) = n" by (simp add: pick_child_def)
    then show ?thesis using full[of "usageCount temp"] border
      by (simp add: trickle_down.simps[of "Suc n" temp i ls] trickle_down.simps[of n temp i ls] Let_def not_less)
  next
    case out
    then show ?thesis
      by (simp add: trickle_down.simps[of "Suc n" temp i ls] trickle_down.simps[of n temp i ls])
  qed
qed

lemma heap_ok_Suc_unused: "heap_ok n ls \<Longrightarrow> usageCount (ls ! n) = 0xFFFF \<Longrightarrow> heap_ok (Suc n) ls"
  unfolding heap_ok_iff using count_le_max by (auto simp: less_Suc_eq)

lemma rearranged_last: "rearranged n ls ls' \<Longrightarrow> n < length ls \<Longrightarrow> ls' ! n = ls ! n"
  unfolding rearranged_def by (metis hd_drop_conv_nth)

text \<open>The four operations on the heap of a class.\<close>

definition same_attrs :: "LidClass_t \<Rightarrow> LidClass_t \<Rightarrow> bool" where
  "same_attrs c c' \<longleftrightarrow> lc_pKey c' = lc_pKey c \<and> lc_mtu c' = lc_mtu c \<and> lc_rate c' = lc_rate c"

lemma lc_okD:
  assumes "lc_ok m c"
  shows "length (lids c) = m" "lidsUsed c \<le> m" "heap_ok (lidsUsed c) (lids c)" "ok_list m (lidsUsed c) (lids c)"
  using assms by (auto simp: lc_ok_def ok_list_def)

lemma lc_ok_free: "lc_ok m c \<Longrightarrow> lidsUsed c < m \<Longrightarrow> lids c ! lidsUsed c = lid_unused"
  using nth_drop[of "lidsUsed c" "lids c" 0] by (auto simp: lc_ok_def ok_list_def)

lemma append_heap_above:
  assumes "lc_ok m c" "lidsUsed c < m"
  shows "heap_above (Suc (lidsUsed c)) (lidsUsed c) ((lids c)[lidsUsed c := \<lparr>lu_lid = lid, usageCount = 1\<rparr>])"
proof -
  have u: "usageCount (lids c ! lidsUsed c) = 0xFFFF" using lc_ok_free[OF assms] by (simp add: lid_unused_def)
  show ?thesis
  proof (rule heap_upd_above)
    show "heap_ok (Suc (lidsUsed c)) (lids c)" using heap_ok_Suc_unused lc_okD(3)[OF assms(1)] u by blast
  qed (use assms lc_okD[OF assms(1)] u in auto)
qed

lemma append_new_ok:
  assumes "lc_ok m c" "lidsUsed c < m" "lid \<noteq> LID_FREE" "usage c lid = 0"
  shows "\<exists>c'. append_new c lid = Inr c' \<and> lc_ok m c' \<and> lidsUsed c' = Suc (lidsUsed c) \<and>
    usage c' = (usage c)(lid := 1) \<and> same_attrs c c'"
proof -
  let ?ls = "(lids c)[lidsUsed c := \<lparr>lu_lid = lid, usageCount = 1\<rparr>]"
  let ?c = "c\<lparr>lidsUsed := lidsUsed c + 1, lids := ?ls\<rparr>"
  note ok = lc_okD[OF assms(1)] lc_ok_free[OF assms(1,2)]
  obtain ls' where ls': "heapTrickleUp ?c (lidsUsed c) = Inr (?c\<lparr>lids := ls'\<rparr>)" "rearranged (Suc (lidsUsed c)) ?ls ls'"
    using heapTrickleUp_ok[of "Suc (lidsUsed c)" "lidsUsed c" ?c] append_heap_above[OF assms(1,2)] ok assms(2) by auto
  note a = ok_list_append[OF ok(4) assms(2,3) assms(4)[unfolded usage_def]]
  note r = ok_list_rearranged[OF ls'(2) conjunct1[OF a]]
  have "append_new c lid = Inr (?c\<lparr>lids := ls'\<rparr>)"
    using ls'(1) ok assms(2) by (simp add: append_new_def lid_unused_def)
  moreover have "lc_ok m (?c\<lparr>lids := ls'\<rparr>)" "usage (?c\<lparr>lids := ls'\<rparr>) = (usage c)(lid := 1)"
    using r a assms(4) ls'(2) by (simp_all add: lc_ok_def usage_def rearranged_def)
  ultimately show ?thesis by (auto simp: same_attrs_def)
qed

lemma append_requested_eq:
  assumes "lc_ok m c" "lidsUsed c < m" "append_new c lid = Inr c'"
  shows "append_requested c lid = Inr c'"
proof -
  have "heap_ok (Suc (lidsUsed c)) (trickle_up (lidsUsed c) ((lids c)[lidsUsed c := \<lparr>lu_lid = lid, usageCount = 1\<rparr>]))"
    using trickle_up_correct[OF append_heap_above[OF assms(1,2), of lid]] lc_okD[OF assms(1)] assms(2) by simp
  then show ?thesis
    using assms(3) heap_ok_mono[where n = "Suc (lidsUsed c)" and m = "lidsUsed c"]
    by (auto simp: append_new_def append_requested_def heapTrickleUp_def checkHeap_def split: if_splits)
qed

lemma bump_ok:
  assumes "lc_ok m c" "i < lidsUsed c" "usageCount (lids c ! i) \<noteq> 0xFFFF"
  shows "\<exists>c'. bump c i = Inr c' \<and> lc_ok m c' \<and> lidsUsed c' = lidsUsed c \<and>
    usage c' = (usage c)(lu_lid (lids c ! i) := usage c (lu_lid (lids c ! i)) + 1) \<and> same_attrs c c'"
proof -
  let ?k = "usageCount (lids c ! i)" and ?e = "(lids c ! i)\<lparr>usageCount := usageCount (lids c ! i) + 1\<rparr>"
  let ?c = "c\<lparr>lids := (lids c)[i := ?e]\<rparr>"
  note ok = lc_okD[OF assms(1)]
  have k: "unat (?k + 1) = unat ?k + 1" "?k + 1 \<noteq> 0" "?k \<le> ?k + 1"
  proof -
    have "unat ?k < 2 ^ 16" "unat ?k \<noteq> unat (0xFFFF :: u16)"
      using unsigned_less[of ?k, where ?'a = nat] assms(3) by (simp_all add: word_unat_eq_iff)
    then show "unat (?k + 1) = unat ?k + 1" by (simp add: unat_word_ariths)
    then show "?k + 1 \<noteq> 0" "?k \<le> ?k + 1" by (auto simp: word_le_nat_alt)
  qed
  have "heap_below (lidsUsed c) i ((lids c)[i := ?e])"
  proof (rule heap_upd_below[OF ok(3)])
    assume "0 < i"
    then have "usageCount (lids c ! PARENT_NODE i) \<le> ?k" using ok(3) assms(2) by (simp add: heap_ok_iff)
    then show "usageCount (lids c ! PARENT_NODE i) \<le> usageCount ?e" using k(3) by simp
  qed (use ok assms in auto)
  then obtain ls' where ls': "heapTrickleDown ?c i = Inr (?c\<lparr>lids := ls'\<rparr>)" "rearranged (lidsUsed c) ((lids c)[i := ?e]) ls'"
    using heapTrickleDown_ok[of ?c i] ok assms(2) by auto
  note a = ok_list_count[OF ok(4) assms(2) k(2)]
  note r = ok_list_rearranged[OF ls'(2) conjunct1[OF a]]
  have u: "usage c (lu_lid (lids c ! i)) = unat ?k"
    using use_of_nth[of "take (lidsUsed c) (lids c)" i] ok assms(2) by (simp add: usage_def ok_list_def)
  have "lc_ok m (?c\<lparr>lids := ls'\<rparr>)"
    "usage (?c\<lparr>lids := ls'\<rparr>) = (usage c)(lu_lid (lids c ! i) := usage c (lu_lid (lids c ! i)) + 1)"
    using r a ls'(2) k(1) u by (simp_all add: lc_ok_def usage_def rearranged_def)
  then show ?thesis using ls'(1) by (auto simp: bump_def same_attrs_def)
qed

text \<open>The repair after a release runs with the unused entry still counted.\<close>

lemma trickle_drop_ok:
  assumes "i < n" "n < length (lids c)" "usageCount (lids c ! n) = 0xFFFF" "lidsUsed c = Suc n"
  shows "heap_above n i (lids c) \<Longrightarrow> \<exists>ls. heapTrickleUp c i = Inr (c\<lparr>lids := ls\<rparr>) \<and> rearranged n (lids c) ls"
    and "heap_below n i (lids c) \<Longrightarrow> \<exists>ls. heapTrickleDown c i = Inr (c\<lparr>lids := ls\<rparr>) \<and> rearranged n (lids c) ls"
proof -
  have fin: "\<exists>ls. checkHeap (c\<lparr>lids := t\<rparr>) = Inr (c\<lparr>lids := ls\<rparr>) \<and> rearranged n (lids c) ls"
    if t: "heap_ok n t" "length t = length (lids c)" "mset t = mset (lids c)" "drop n t = drop n (lids c)" for t
  proof -
    have r: "rearranged n (lids c) t" unfolding rearranged_def using t mset_take_drop[OF t(3,4)] by simp
    then have "heap_ok (Suc n) t" using heap_ok_Suc_unused[OF t(1)] rearranged_last[OF r assms(2)] assms(3) by simp
    then show ?thesis using r assms(4) by (auto simp: checkHeap_def)
  qed
  show "\<exists>ls. heapTrickleUp c i = Inr (c\<lparr>lids := ls\<rparr>) \<and> rearranged n (lids c) ls" if "heap_above n i (lids c)"
    unfolding heapTrickleUp_def using trickle_up_correct[OF that assms(1)] assms(2) by (intro fin) simp_all
  show "\<exists>ls. heapTrickleDown c i = Inr (c\<lparr>lids := ls\<rparr>) \<and> rearranged n (lids c) ls" if "heap_below n i (lids c)"
    unfolding heapTrickleDown_def assms(4) trickle_down_unused[OF assms(3,1)]
    using trickle_down_correct[of n i "lids c" "lids c ! i"] that assms(1,2) by (intro fin) simp_all
qed

lemma drop_heap:
  fixes ls :: "LidUsage_t list"
  assumes "heap_ok (Suc n) ls" "i < n" "n < length ls"
  defines "l \<equiv> ls[i := ls ! n, n := lid_unused]"
  shows "if i \<noteq> 0 \<and> usageCount (l ! i) < usageCount (l ! PARENT_NODE i) then heap_above n i l else heap_below n i l"
proof -
  let ?b = "ls[n := lid_unused]"
  have l: "l = ?b[i := ls ! n]" using assms(2) by (simp add: l_def list_update_swap)
  have b: "heap_ok n ?b"
    using heap_ok_mono[OF assms(1), of n] parent_le unfolding heap_ok_iff
    by (metis le_less_trans le_SucI le_refl nth_list_update_neq nat_neq_iff)
  have p: "i \<noteq> 0 \<Longrightarrow> l ! PARENT_NODE i = ?b ! PARENT_NODE i" using parent_neq[of i] by (simp add: l)
  have li: "l ! i = ls ! n" using assms(2,3) by (simp add: l)
  show ?thesis
  proof (cases "i \<noteq> 0 \<and> usageCount (l ! i) < usageCount (l ! PARENT_NODE i)")
    case True
    have "usageCount (?b ! PARENT_NODE i) \<le> usageCount (?b ! i)" using b True assms(2) by (simp add: heap_ok_iff)
    then have "usageCount (ls ! n) \<le> usageCount (?b ! i)" using True p li by auto
    then show ?thesis using heap_upd_above[OF b assms(2)] assms(3) True by (simp add: l)
  next
    case False
    then have "0 < i \<Longrightarrow> usageCount (?b ! PARENT_NODE i) \<le> usageCount (ls ! n)" using p li by (auto simp: not_less)
    then have "heap_below n i l" unfolding l using assms(3) by (intro heap_upd_below[OF b assms(2)]) simp_all
    with False show ?thesis by (simp only: if_False)
  qed
qed

lemma drop_entry_ok:
  assumes "lc_ok m c" "i < lidsUsed c" "lu_lid e = lu_lid (lids c ! i)"
  shows "\<exists>ls. drop_entry (c\<lparr>lids := (lids c)[i := e]\<rparr>) i = Inr (c\<lparr>lids := ls\<rparr>) \<and>
    rearranged (lidsUsed c - 1) ((lids c)[i := lids c ! (lidsUsed c - 1), lidsUsed c - 1 := lid_unused]) ls"
proof -
  obtain n where n: "lidsUsed c = Suc n" using assms(2) by (cases "lidsUsed c") auto
  note ok = lc_okD[OF assms(1), unfolded n]
  let ?l = "(lids c)[i := lids c ! n, n := lid_unused]"
  show ?thesis
  proof (cases "i = n")
    case True
    have h: "heap_ok n ?l"
      using heap_ok_mono[OF ok(3), of n] parent_le True unfolding heap_ok_iff
      by (metis le_less_trans le_SucI le_refl nth_list_update_neq nat_neq_iff)
    show ?thesis using True n h by (auto simp: drop_entry_def rearranged_def)
  next
    case False
    let ?c2 = "c\<lparr>lids := ?l\<rparr>"
    have i: "i < n" "n < length (lids c)" using False assms(2) n ok by auto
    have eq: "(lids c)[i := e, i := (lids c)[i := e] ! n, n := lid_unused] = ?l" using i by simp
    note d = drop_heap[OF ok(3) i]
    have u: "usageCount lid_unused = 0xFFFF" by (simp add: lid_unused_def)
    note t = trickle_drop_ok[of i n ?c2, simplified, OF i u n]
    show ?thesis
    proof (cases "i \<noteq> 0 \<and> usageCount (?l ! i) < usageCount (?l ! PARENT_NODE i)")
      case True
      then have "heap_above n i ?l" using d by simp
      from t(1)[OF this] show ?thesis using True False n eq by (auto simp: drop_entry_def Let_def)
    next
      case nup: False
      then have "heap_below n i ?l" using d by (simp only: if_False)
      from t(2)[OF this] show ?thesis using nup False n eq by (auto simp: drop_entry_def Let_def)
    qed
  qed
qed

lemma entry_count:
  assumes "lc_ok m c" "i < lidsUsed c"
  shows "usage c (lu_lid (lids c ! i)) = unat (usageCount (lids c ! i))" "usageCount (lids c ! i) \<noteq> 0"
    "lu_lid (lids c ! i) \<noteq> LID_FREE"
proof -
  have "take (lidsUsed c) (lids c) ! i \<in> set (take (lidsUsed c) (lids c))"
    using lc_okD[OF assms(1)] assms(2) by (intro nth_mem) simp
  then show "usageCount (lids c ! i) \<noteq> 0" "lu_lid (lids c ! i) \<noteq> LID_FREE"
    using lc_okD(4)[OF assms(1)] assms(2) by (auto simp: ok_list_def)
  show "usage c (lu_lid (lids c ! i)) = unat (usageCount (lids c ! i))"
    using use_of_nth[of "take (lidsUsed c) (lids c)" i] lc_okD[OF assms(1)] assms(2) by (simp add: usage_def ok_list_def)
qed

lemma release_lid_ok:
  assumes "lc_ok m c" "i < lidsUsed c"
  defines "lid \<equiv> lu_lid (lids c ! i)"
  shows "\<exists>c'. release_lid c i = Inr (usage c lid = 1, c') \<and> lc_ok m c' \<and>
    lidsUsed c' = (if usage c lid = 1 then lidsUsed c - 1 else lidsUsed c) \<and>
    usage c' = (usage c)(lid := usage c lid - 1) \<and> same_attrs c c'"
proof -
  let ?k = "usageCount (lids c ! i)" and ?e = "(lids c ! i)\<lparr>usageCount := usageCount (lids c ! i) - 1\<rparr>"
  note ok = lc_okD[OF assms(1)] and ec = entry_count[OF assms(1,2)]
  have k: "unat (?k - 1) = unat ?k - 1" "?k - 1 \<le> ?k"
    using ec(2) by (simp_all add: unat_minus_one word_le_nat_alt)
  have k0: "?k - 1 = 0 \<longleftrightarrow> usage c lid = 1"
    using ec(2) k(1) unfolding lid_def ec(1) by (metis One_nat_def Suc_pred diff_Suc_1 unat_eq_0 neq0_conv)
  have nth: "(lids c)[i := ?e] ! i = ?e" using assms(2) ok by simp
  show ?thesis
  proof (cases "usage c lid = 1")
    case True
    obtain ls where ls: "drop_entry (c\<lparr>lids := (lids c)[i := ?e]\<rparr>) i = Inr (c\<lparr>lids := ls\<rparr>)"
      "rearranged (lidsUsed c - 1) ((lids c)[i := lids c ! (lidsUsed c - 1), lidsUsed c - 1 := lid_unused]) ls"
      using drop_entry_ok[OF assms(1,2), of ?e] by auto
    have n: "Suc (lidsUsed c - 1) = lidsUsed c" using assms(2) by simp
    note a = ok_list_drop[of m "lidsUsed c - 1", unfolded n, OF ok(4) assms(2)]
    note r = ok_list_rearranged[OF ls(2) conjunct1[OF a]]
    let ?c = "c\<lparr>lids := ls, lidsUsed := lidsUsed c - 1\<rparr>"
    have "lc_ok m ?c" "usage ?c = (usage c)(lid := usage c lid - 1)"
      using r a ls(2) True by (simp_all add: lc_ok_def usage_def rearranged_def lid_def)
    then show ?thesis using ls(1) True k0 ec(2) nth by (auto simp: release_lid_def same_attrs_def Let_def)
  next
    case False
    then have k1: "?k - 1 \<noteq> 0" using k0 by simp
    note a = ok_list_count[OF ok(4) assms(2) k1]
    have "heap_above (lidsUsed c) i ((lids c)[i := ?e])"
      using heap_upd_above[OF ok(3) assms(2)] ok k(2) by simp
    then obtain ls where ls: "heapTrickleUp (c\<lparr>lids := (lids c)[i := ?e]\<rparr>) i = Inr (c\<lparr>lids := ls\<rparr>)"
      "rearranged (lidsUsed c) ((lids c)[i := ?e]) ls"
      using heapTrickleUp_ok[of "lidsUsed c" i "c\<lparr>lids := (lids c)[i := ?e]\<rparr>"] ok assms(2) by auto
    note r = ok_list_rearranged[OF ls(2) conjunct1[OF a]]
    have "lc_ok m (c\<lparr>lids := ls\<rparr>)" "usage (c\<lparr>lids := ls\<rparr>) = (usage c)(lid := usage c lid - 1)"
      using r a ls(2) k(1) ec(1) by (simp_all add: lc_ok_def usage_def rearranged_def lid_def)
    then show ?thesis using ls(1) False k1 ec(2) nth by (auto simp: release_lid_def same_attrs_def Let_def)
  qed
qed

lemma find_lid_cases:
  assumes "lc_ok m c"
  shows "find_lid c lid < lidsUsed c \<and> lu_lid (lids c ! find_lid c lid) = lid \<or> find_lid c lid = lidsUsed c \<and> usage c lid = 0"
proof (cases "List.find (\<lambda>i. lu_lid (lids c ! i) = lid) [0..<lidsUsed c]")
  case None
  then have "\<forall>i < lidsUsed c. lu_lid (lids c ! i) \<noteq> lid" by (auto simp: find_None_iff)
  then have "lid \<notin> lu_lid ` set (take (lidsUsed c) (lids c))" by (fastforce simp: in_set_conv_nth)
  then show ?thesis
    using None lc_okD(4)[OF assms] use_of_pos[of "take (lidsUsed c) (lids c)" lid]
    by (auto simp: find_lid_def usage_def ok_list_def)
next
  case (Some i)
  then have "find_lid c lid = i" by (simp add: find_lid_def)
  with Some show ?thesis by (auto simp: find_upt_Some)
qed

section \<open>The LIDs of a group class\<close>

definition total_used :: "(u64 \<times> LidClass_t) list \<Rightarrow> nat" where
  "total_used m = sum_list (map (\<lambda>(k, c). lidsUsed c) m)"

lemma total_used_update:
  "map_of m k = Some c \<Longrightarrow> total_used (AList.update k c' m) + lidsUsed c = total_used m + lidsUsed c'"
  "map_of m k = None \<Longrightarrow> total_used (AList.update k c' m) = total_used m + lidsUsed c'"
  by (induction m) (auto simp: total_used_def split: if_splits)

lemma lidsUsed_le_total: "map_of m k = Some c \<Longrightarrow> lidsUsed c \<le> total_used m"
  by (induction m) (auto simp: total_used_def split: if_splits)

definition gc_ok :: "McGroupClass_t \<Rightarrow> bool" where
  "gc_ok g \<longleftrightarrow> (\<forall>k c. map_of (usageMap g) k = Some c \<longrightarrow> lc_ok (unat (maximumLids g)) c) \<and>
     total_used (usageMap g) = unat (currentLids g) \<and> currentLids g \<le> maximumLids g"

definition usage_at :: "McGroupClass_t \<Rightarrow> u64 \<Rightarrow> u32 \<Rightarrow> nat" where
  "usage_at g k lid = (case map_of (usageMap g) k of None \<Rightarrow> 0 | Some c \<Rightarrow> usage c lid)"

definition same_class :: "McGroupClass_t \<Rightarrow> McGroupClass_t \<Rightarrow> bool" where
  "same_class g g' \<longleftrightarrow> maximumLids g' = maximumLids g \<and> gc_mask g' = gc_mask g \<and> gc_value g' = gc_value g"

lemma same_class_refl [simp]: "same_class g g"
  by (simp add: same_class_def)

text \<open>Replacing the LIDs of one key, with the new number of LIDs of the class.\<close>

lemma gc_ok_put:
  assumes "gc_ok g" "lc_ok (unat (maximumLids g)) c'" "k = lidClassKey pKey mtu rate"
    "unat cur + (case map_of (usageMap g) k of None \<Rightarrow> 0 | Some c \<Rightarrow> lidsUsed c) = unat (currentLids g) + lidsUsed c'"
    "cur \<le> maximumLids g"
  shows "gc_ok (put_class (g\<lparr>currentLids := cur\<rparr>) pKey mtu rate c')"
    "same_class g (put_class (g\<lparr>currentLids := cur\<rparr>) pKey mtu rate c')"
    "usage_at (put_class (g\<lparr>currentLids := cur\<rparr>) pKey mtu rate c') = (usage_at g)(k := usage c')"
proof -
  let ?g = "put_class (g\<lparr>currentLids := cur\<rparr>) pKey mtu rate c'"
  have m: "usageMap ?g = AList.update k c' (usageMap g)" "maximumLids ?g = maximumLids g" "currentLids ?g = cur"
    by (simp_all add: put_class_def assms(3))
  have "total_used (usageMap ?g) = unat cur"
  proof (cases "map_of (usageMap g) k")
    case None
    then show ?thesis using assms(1,4) total_used_update(2)[OF None, of c'] unfolding m gc_ok_def by simp
  next
    case (Some c)
    then show ?thesis using assms(1,4) total_used_update(1)[OF Some, of c'] unfolding m gc_ok_def by simp
  qed
  then show "gc_ok ?g"
    using assms(1,2,5) m by (auto simp: gc_ok_def update_conv' split: if_splits)
  show "same_class g ?g" by (simp add: same_class_def put_class_def)
  show "usage_at ?g = (usage_at g)(k := usage c')"
    by (rule ext)+ (auto simp: usage_at_def m update_conv')
qed

lemma put_class_same_cur: "put_class (g\<lparr>currentLids := currentLids g\<rparr>) pKey mtu rate c = put_class g pKey mtu rate c"
  by (simp add: put_class_def)

lemma empty_class_ok:
  "lc_ok m \<lparr>lidsUsed = 0, lc_pKey = p, lc_mtu = x, lc_rate = y, lids = replicate m lid_unused\<rparr>"
  "usage \<lparr>lidsUsed = 0, lc_pKey = p, lc_mtu = x, lc_rate = y, lids = replicate m lid_unused\<rparr> = (\<lambda>_. 0)"
  by (auto simp: lc_ok_def ok_list_def usage_def use_of_def heap_ok_iff)

text \<open>The class with an entry for the key: found, or added empty.\<close>

lemma class_for_key:
  assumes "gc_ok g" "(case getLidClass g pKey mtu rate of Some c \<Rightarrow> Some (c, g) | None \<Rightarrow> addLidClass alloc g pKey mtu rate) = Some (c, g1)"
  shows "gc_ok g1 \<and> same_class g g1 \<and> usage_at g1 = usage_at g \<and> currentLids g1 = currentLids g \<and>
    map_of (usageMap g1) (lidClassKey pKey mtu rate) = Some c"
proof (cases "map_of (usageMap g) (lidClassKey pKey mtu rate)")
  let ?k = "lidClassKey pKey mtu rate"
    case None
    then have c: "c = \<lparr>lidsUsed = 0, lc_pKey = pKey, lc_mtu = ucast mtu, lc_rate = ucast rate,
        lids = replicate (unat (maximumLids g)) lid_unused\<rparr>" and g1: "g1 = put_class (g\<lparr>currentLids := currentLids g\<rparr>) pKey mtu rate c"
      using assms(2) by (auto simp: getLidClass_def addLidClass_def put_class_same_cur Let_def split: if_splits)
    have "lc_ok (unat (maximumLids g)) c" "usage c = (\<lambda>_. 0)" unfolding c by (rule empty_class_ok)+
    moreover have "(usage_at g)(?k := \<lambda>_. 0) = usage_at g" using None by (auto simp: usage_at_def fun_eq_iff)
    moreover have "lidsUsed c = 0" "currentLids g \<le> maximumLids g" using assms(1) by (simp_all add: c gc_ok_def)
    ultimately show ?thesis
      using gc_ok_put[OF assms(1), of c ?k pKey mtu rate "currentLids g"] None
      unfolding g1 by (simp add: put_class_def update_conv')
next
  case (Some c0)
  then show ?thesis using assms by (auto simp: getLidClass_def)
qed

text \<open>
  The outcome of \<open>sm_mc_get_group_class_lid\<close>. With no LID requested, a full class whose entry
  for the key has no LID at all runs into the assertion; in every other case one use of one
  LID is recorded, or the request is refused and no use changes.
\<close>

definition one_more :: "McGroupClass_t \<Rightarrow> u64 \<Rightarrow> u32 \<Rightarrow> McGroupClass_t \<Rightarrow> bool" where
  "one_more g k lid g' \<longleftrightarrow> gc_ok g' \<and> same_class g g' \<and>
     usage_at g' = (usage_at g)(k := (usage_at g k)(lid := usage_at g k lid + 1))"

lemma append_one_more:
  assumes "gc_ok g" "map_of (usageMap g) k = Some c" "k = lidClassKey pKey mtu rate" "currentLids g < maximumLids g"
    "lid \<noteq> LID_FREE" "usage c lid = 0"
  shows "\<exists>c'. append_new c lid = Inr c' \<and> append_requested c lid = Inr c' \<and>
    one_more g k lid (put_class (g\<lparr>currentLids := currentLids g + 1\<rparr>) pKey mtu rate c')"
proof -
  have c: "lc_ok (unat (maximumLids g)) c" "lidsUsed c \<le> unat (currentLids g)"
    using assms(1,2) lidsUsed_le_total[OF assms(2)] by (auto simp: gc_ok_def)
  have lt: "unat (currentLids g) < unat (maximumLids g)" using assms(4) by (simp add: word_less_nat_alt)
  then have u: "lidsUsed c < unat (maximumLids g)" using c(2) by simp
  have inc: "unat (currentLids g + 1) = unat (currentLids g) + 1"
    using lt unsigned_less[of "maximumLids g", where ?'a = nat] by (simp add: unat_word_ariths)
  obtain c' where c': "append_new c lid = Inr c'" "lc_ok (unat (maximumLids g)) c'" "lidsUsed c' = Suc (lidsUsed c)"
    "usage c' = (usage c)(lid := 1)"
    using append_new_ok[OF c(1) u assms(5,6)] by blast
  have "one_more g k lid (put_class (g\<lparr>currentLids := currentLids g + 1\<rparr>) pKey mtu rate c')"
    unfolding one_more_def using gc_ok_put[OF assms(1) c'(2) assms(3), of "currentLids g + 1"] assms(2,6) c'(3,4) inc lt
    by (auto simp: word_le_nat_alt usage_at_def fun_eq_iff)
  then show ?thesis using c'(1) append_requested_eq[OF c(1) u c'(1)] by blast
qed

lemma bump_one_more:
  assumes "gc_ok g" "map_of (usageMap g) k = Some c" "k = lidClassKey pKey mtu rate" "i < lidsUsed c"
    "usage c (lu_lid (lids c ! i)) < 0xFFFF"
  shows "\<exists>c'. bump c i = Inr c' \<and> one_more g k (lu_lid (lids c ! i)) (put_class g pKey mtu rate c')"
proof -
  have c: "lc_ok (unat (maximumLids g)) c" using assms(1,2) by (auto simp: gc_ok_def)
  have "usageCount (lids c ! i) \<noteq> 0xFFFF" using entry_count(1)[OF c assms(4)] assms(5) by auto
  from bump_ok[OF c assms(4) this] obtain c' where c': "bump c i = Inr c'" "lc_ok (unat (maximumLids g)) c'"
    "lidsUsed c' = lidsUsed c" "usage c' = (usage c)(lu_lid (lids c ! i) := usage c (lu_lid (lids c ! i)) + 1)" by blast
  have "one_more g k (lu_lid (lids c ! i)) (put_class g pKey mtu rate c')"
    unfolding one_more_def
    using gc_ok_put[OF assms(1) c'(2) assms(3), of "currentLids g", unfolded put_class_same_cur] assms(1,2) c'(3,4)
    by (auto simp: gc_ok_def usage_at_def fun_eq_iff)
  then show ?thesis using c'(1) by blast
qed

definition least_used :: "McGroupClass_t \<Rightarrow> u64 \<Rightarrow> u32 \<Rightarrow> bool" where
  "least_used g k lid \<longleftrightarrow> 0 < usage_at g k lid \<and> (\<forall>l. 0 < usage_at g k l \<longrightarrow> usage_at g k lid \<le> usage_at g k l)"

lemma front_least_used:
  assumes "gc_ok g" "map_of (usageMap g) k = Some c" "0 < lidsUsed c"
  shows "least_used g k (lu_lid (lids c ! 0))"
proof -
  have c: "lc_ok (unat (maximumLids g)) c" using assms(1,2) by (auto simp: gc_ok_def)
  have "usage c (lu_lid (lids c ! 0)) \<le> usage c l" if "0 < usage c l" for l
  proof -
    have "find_lid c l < lidsUsed c" "lu_lid (lids c ! find_lid c l) = l"
      using find_lid_cases[OF c, of l] that by auto
    then show ?thesis
      using heap_front_least[OF lc_okD(3)[OF c]] entry_count(1)[OF c] assms(3) by (metis word_le_nat_alt)
  qed
  moreover have "0 < usage c (lu_lid (lids c ! 0))"
    using entry_count(1,2)[OF c assms(3)] by (simp add: unat_gt_0)
  ultimately show ?thesis using assms(2) by (simp add: least_used_def usage_at_def)
qed

definition refused :: "McGroupClass_t \<Rightarrow> (Status_t \<times> u32 option \<times> McGroupClass_t) c_result \<Rightarrow> bool" where
  "refused g res \<longleftrightarrow> (\<exists>st g'. res = Inr (st, None, g') \<and> st \<noteq> VSTATUS_OK \<and> gc_ok g' \<and> same_class g g' \<and> usage_at g' = usage_at g)"

definition granted :: "McGroupClass_t \<Rightarrow> u64 \<Rightarrow> u32 option \<Rightarrow> u32 \<Rightarrow> (Status_t \<times> u32 option \<times> McGroupClass_t) c_result \<Rightarrow> bool" where
  "granted g k unused req res \<longleftrightarrow> (\<exists>lid g'. res = Inr (VSTATUS_OK, Some lid, g') \<and> one_more g k lid g' \<and>
     (if req \<noteq> 0 then lid = req else if currentLids g < maximumLids g then unused = Some lid else least_used g k lid))"

definition empty_entry :: "McGroupClass_t \<Rightarrow> u64 \<Rightarrow> bool" where
  "empty_entry g k \<longleftrightarrow> \<not> currentLids g < maximumLids g \<and> (\<exists>c. map_of (usageMap g) k = Some c \<and> lidsUsed c = 0)"

lemma one_more_trans:
  "one_more g1 k lid g' \<Longrightarrow> same_class g g1 \<Longrightarrow> usage_at g1 = usage_at g \<Longrightarrow> one_more g k lid g'"
  by (auto simp: one_more_def same_class_def)

lemma get_class_lid_room:
  fixes alloc :: bool
  assumes ok: "gc_ok g" and room: "currentLids g < maximumLids g" and k: "k = lidClassKey pKey mtu rate"
    and un: "\<forall>lid. unused = Some lid \<longrightarrow> lid \<noteq> LID_FREE \<and> usage_at g k lid = 0"
    and cnt: "\<forall>lid. usage_at g k lid < 0xFFFF" and req: "req \<noteq> LID_FREE"
  defines "res \<equiv> sm_mc_get_group_class_lid alloc unused g pKey mtu rate req"
  shows "granted g k unused req res \<or> refused g res"
proof (cases "case getLidClass g pKey mtu rate of Some c \<Rightarrow> Some (c, g) | None \<Rightarrow> addLidClass alloc g pKey mtu rate")
  case None
  then have "res = Inr (VSTATUS_NOMEM, None, g)" using room by (simp add: res_def sm_mc_get_group_class_lid_def)
  then show ?thesis using ok by (simp add: refused_def)
next
  case (Some cg)
  obtain c g1 where cg: "cg = (c, g1)" by force
  note g1 = class_for_key[OF ok Some[unfolded cg]]
  have m1: "map_of (usageMap g1) k = Some c" "gc_ok g1" "currentLids g1 < maximumLids g1" "usage_at g1 = usage_at g" "same_class g g1"
    using g1 k room by (auto simp: same_class_def)
  have uc: "usage c = usage_at g k" using m1(1,4) by (metis option.simps(5) usage_at_def ext)
  have lc: "lc_ok (unat (maximumLids g1)) c" using m1(1,2) by (auto simp: gc_ok_def)
  note res = res_def[unfolded sm_mc_get_group_class_lid_def Let_def if_P[OF room] Some cg option.case prod.case]
  consider (none) "req = 0" "unused = None" | (new) lid where "req = 0" "unused = Some lid"
    | (miss) "req \<noteq> 0" "find_lid c req = lidsUsed c" | (hit) "req \<noteq> 0" "find_lid c req \<noteq> lidsUsed c" by fastforce
  then show ?thesis
  proof cases
    case none
    then show ?thesis using m1 by (simp add: res refused_def)
  next
    case (new lid)
    from append_one_more[OF m1(2,1) k m1(3), of lid] un new uc show ?thesis
      using one_more_trans m1 room by (auto simp: res granted_def)
  next
    case miss
    then have "usage c req = 0" using find_lid_cases[OF lc, of req] by auto
    from append_one_more[OF m1(2,1) k m1(3) req this] miss show ?thesis
      using one_more_trans m1 by (auto simp: res granted_def)
  next
    case hit
    then have f: "find_lid c req < lidsUsed c" "lu_lid (lids c ! find_lid c req) = req"
      using find_lid_cases[OF lc, of req] by auto
    from bump_one_more[OF m1(2,1) k f(1)] f(2) cnt uc hit show ?thesis
      using one_more_trans m1 by (auto simp: res granted_def)
  qed
qed

lemma get_class_lid_full:
  fixes alloc :: bool and unused :: "u32 option" and req :: u32
  assumes ok: "gc_ok g" and full: "\<not> currentLids g < maximumLids g" and m: "maximumLids g \<noteq> 0"
    and k: "k = lidClassKey pKey mtu rate" and cnt: "\<forall>lid. usage_at g k lid < 0xFFFF"
  defines "res \<equiv> sm_mc_get_group_class_lid alloc unused g pKey mtu rate req"
  shows "if req = 0 \<and> empty_entry g k then res = Inl AssertFailed else granted g k unused req res \<or> refused g res"
proof (cases "map_of (usageMap g) k")
  case None
  then have "res = Inr (VSTATUS_NORESOURCE, None, g)"
    using full k by (simp add: res_def sm_mc_get_group_class_lid_def getLidClass_def)
  then show ?thesis using ok None by (simp add: refused_def empty_entry_def)
next
  case (Some c)
  have lc: "lc_ok (unat (maximumLids g)) c" using ok Some by (auto simp: gc_ok_def)
  have ne: "lids c \<noteq> []" using lc_okD(1)[OF lc] m by (auto simp: unat_eq_0)
  have uc: "usage c = usage_at g k" using Some by (auto simp: usage_at_def)
  have lcg: "getLidClass g pKey mtu rate = Some c" using Some k by (simp add: getLidClass_def)
  note res = res_def[unfolded sm_mc_get_group_class_lid_def Let_def if_not_P[OF full] lcg option.case]
  consider (empty) "req = 0" "lidsUsed c = 0" | (front) "req = 0" "0 < lidsUsed c"
    | (miss) "req \<noteq> 0" "find_lid c req = lidsUsed c" | (hit) "req \<noteq> 0" "find_lid c req < lidsUsed c"
    using find_lid_cases[OF lc, of req] by fastforce
  then show ?thesis
  proof cases
    case empty
    then have "lids c ! 0 = lid_unused" using lc_ok_free[OF lc] m by (simp add: unat_gt_0)
    then show ?thesis using empty Some full ne by (auto simp: res empty_entry_def lid_unused_def)
  next
    case front
    from bump_one_more[OF ok Some k front(2)] cnt uc obtain c' where
      c': "bump c 0 = Inr c'" "one_more g k (lu_lid (lids c ! 0)) (put_class g pKey mtu rate c')" by auto
    have "granted g k unused req res"
      using front c' entry_count(3)[OF lc front(2)] front_least_used[OF ok Some front(2)] ne full
      by (auto simp: res granted_def)
    then show ?thesis using front Some by (auto simp: empty_entry_def)
  next
    case miss
    then show ?thesis using ok by (simp add: res refused_def)
  next
    case hit
    then have f: "lu_lid (lids c ! find_lid c req) = req" using find_lid_cases[OF lc, of req] by auto
    from bump_one_more[OF ok Some k hit(2)] f cnt uc hit show ?thesis by (auto simp: res granted_def)
  qed
qed

section \<open>All groups and classes\<close>

definition gkey :: "McGroup_t \<Rightarrow> u64" where
  "gkey gr = lidClassKey (mg_pKey gr) (mg_mtu gr) (mg_rate gr)"

definition n_groups :: "mcast \<Rightarrow> nat option \<Rightarrow> u64 \<Rightarrow> u32 \<Rightarrow> nat" where
  "n_groups s r k lid =
     length (filter (\<lambda>gr. find_mc_group_class s (mg_mGid gr) = r \<and> gkey gr = k \<and> mg_mLid gr = lid) (sm_McGroups s))"

definition valid_ref :: "mcast \<Rightarrow> nat option \<Rightarrow> bool" where
  "valid_ref s r = (case r of None \<Rightarrow> True | Some i \<Rightarrow> i < length (mcGroupClasses s))"

text \<open>
  The recorded uses of every LID in every class are exactly the groups that have it.
\<close>

definition mc_inv :: "mcast \<Rightarrow> bool" where
  "mc_inv s \<longleftrightarrow>
     (\<forall>r. valid_ref s r \<and> maximumLids (class_at s r) \<noteq> 0 \<longrightarrow>
        gc_ok (class_at s r) \<and> (\<forall>k lid. usage_at (class_at s r) k lid = n_groups s r k lid)) \<and>
     length (sm_McGroups s) \<le> MAX_MCAST_MGIDS \<and> mlid_table_cap s \<le> MAX_SIZE_MFT"

lemma find_class_valid: "valid_ref s (find_mc_group_class s gid)"
  by (auto simp: valid_ref_def find_mc_group_class_def find_upt_Some split: option.splits)

lemma class_at_set:
  "valid_ref s r \<Longrightarrow> class_at (set_class_at r g s) r' = (if r' = r then g else class_at s r')"
  by (auto simp: class_at_def set_class_at_def valid_ref_def nth_list_update split: option.splits)

lemma set_class_keeps [simp]:
  "sm_McGroups (set_class_at r g s) = sm_McGroups s" "mlid_table_cap (set_class_at r g s) = mlid_table_cap s"
  "length (mcGroupClasses (set_class_at r g s)) = length (mcGroupClasses s)" "valid_ref (set_class_at r g s) = valid_ref s"
  by (auto simp: set_class_at_def valid_ref_def fun_eq_iff split: option.splits)

lemma find_class_set:
  assumes "valid_ref s r" "same_class (class_at s r) g"
  shows "find_mc_group_class (set_class_at r g s) = find_mc_group_class s"
proof -
  have "gid_matches gid (mcGroupClasses (set_class_at r g s) ! i) = gid_matches gid (mcGroupClasses s ! i)"
    if "i < length (mcGroupClasses s)" for gid i
    using assms that
    by (cases r) (auto simp: set_class_at_def class_at_def same_class_def gid_matches_def valid_ref_def nth_list_update)
  then show ?thesis unfolding find_mc_group_class_def fun_eq_iff
    by (auto intro!: find_cong)
qed

lemma n_groups_set:
  "valid_ref s r \<Longrightarrow> same_class (class_at s r) g \<Longrightarrow> n_groups (set_class_at r g s) = n_groups s"
  by (simp add: n_groups_def fun_eq_iff find_class_set)

lemma n_groups_le: "n_groups s r k lid \<le> length (sm_McGroups s)"
  by (simp add: n_groups_def)

lemma mc_inv_count: "mc_inv s \<Longrightarrow> valid_ref s r \<Longrightarrow> maximumLids (class_at s r) \<noteq> 0 \<Longrightarrow> usage_at (class_at s r) k lid < 0xFFFF"
  using n_groups_le[of s r k lid] by (simp add: mc_inv_def)

lemma unused_lid:
  assumes "sm_mc_find_unused_lid cap groups = Some lid" "cap \<le> MAX_SIZE_MFT"
  shows "lid \<noteq> LID_FREE" "lid \<noteq> 0" "\<forall>gr \<in> set groups. mg_mLid gr \<noteq> lid" "MULTICAST_LID_MIN \<le> lid"
proof -
  obtain k where k: "k < cap" "lid = MULTICAST_LID_MIN + of_nat k" "sm_multicast_is_lid_in_use groups lid = 0"
    using assms(1) by (auto simp: sm_mc_find_unused_lid_def find_upt_Some)
  then have u: "unat lid = 0xC000 + k" using assms(2) by (simp add: unat_word_ariths unat_of_nat)
  then show "lid \<noteq> LID_FREE" "lid \<noteq> 0" using k(1) assms(2) by (auto simp: word_unat_eq_iff)
  show "MULTICAST_LID_MIN \<le> lid" using u by (simp add: word_le_nat_alt)
  show "\<forall>gr \<in> set groups. mg_mLid gr \<noteq> lid" using k(3) by (auto simp: sm_multicast_is_lid_in_use_def filter_empty_conv)
qed

lemma n_groups_Create:
  "n_groups (McGroup_Create gr s) r k lid =
     n_groups s r k lid + (if find_mc_group_class s (mg_mGid gr) = r \<and> gkey gr = k \<and> mg_mLid gr = lid then 1 else 0)"
  by (simp add: n_groups_def McGroup_Create_def find_mc_group_class_def)

lemma Create_keeps [simp]:
  "class_at (McGroup_Create gr s) = class_at s" "valid_ref (McGroup_Create gr s) = valid_ref s"
  "mlid_table_cap (McGroup_Create gr s) = mlid_table_cap s" "sm_McGroups (McGroup_Create gr s) = gr # sm_McGroups s"
  by (auto simp: McGroup_Create_def class_at_def valid_ref_def fun_eq_iff split: option.splits)

text \<open>A class with the same recorded uses, or one use more for the group that is entered.\<close>

lemma mc_inv_refused:
  assumes "mc_inv s" "valid_ref s r" "same_class (class_at s r) g"
    "maximumLids g \<noteq> 0 \<Longrightarrow> gc_ok g \<and> usage_at g = usage_at (class_at s r)"
  shows "mc_inv (set_class_at r g s)"
  using assms n_groups_set[OF assms(2,3)] unfolding mc_inv_def
  by (auto simp: class_at_set same_class_def)

lemma mc_inv_create:
  assumes inv: "mc_inv s" and r: "r = find_mc_group_class s (mg_mGid gr)" and g: "same_class (class_at s r) g"
    and len: "length (sm_McGroups s) < MAX_MCAST_MGIDS"
    and one: "maximumLids g \<noteq> 0 \<Longrightarrow> one_more (class_at s r) (gkey gr) (mg_mLid gr) g"
  shows "mc_inv (McGroup_Create gr (set_class_at r g s))"
proof -
  have v: "valid_ref s r" unfolding r by (rule find_class_valid)
  note f = find_class_set[OF v g] n_groups_set[OF v g]
  have "gc_ok (class_at (set_class_at r g s) r') \<and>
      (\<forall>k lid. usage_at (class_at (set_class_at r g s) r') k lid = n_groups (McGroup_Create gr (set_class_at r g s)) r' k lid)"
    if m: "valid_ref s r'" "maximumLids (class_at (set_class_at r g s) r') \<noteq> 0" for r'
  proof (cases "r' = r")
    case True
    then have mg: "maximumLids g \<noteq> 0" using m(2) by (simp add: class_at_set[OF v])
    have "maximumLids (class_at s r) \<noteq> 0" using mg g by (simp add: same_class_def)
    then have "\<forall>k lid. usage_at (class_at s r) k lid = n_groups s r k lid" using inv v by (simp add: mc_inv_def)
    then show ?thesis
      using one[OF mg] True by (simp add: class_at_set[OF v] n_groups_Create f one_more_def r[symmetric])
  next
    case False
    then have "maximumLids (class_at s r') \<noteq> 0" using m(2) by (simp add: class_at_set[OF v])
    then have "gc_ok (class_at s r') \<and> (\<forall>k lid. usage_at (class_at s r') k lid = n_groups s r' k lid)"
      using inv m(1) by (simp add: mc_inv_def)
    then show ?thesis using False by (simp add: class_at_set[OF v] n_groups_Create f r[symmetric])
  qed
  then show ?thesis using inv len unfolding mc_inv_def by simp
qed

text \<open>Creating a group keeps the invariant; only a full class with an empty entry for the key fails.\<close>

lemma set_class_same: "valid_ref s r \<Longrightarrow> set_class_at r (class_at s r) s = s"
  by (auto simp: set_class_at_def class_at_def valid_ref_def split: option.splits)

definition assigned :: "mcast \<Rightarrow> nat option \<Rightarrow> u64 \<Rightarrow> u32 \<Rightarrow> McGroupClass_t \<Rightarrow> bool" where
  "assigned s r k l g \<longleftrightarrow> same_class (class_at s r) g \<and> (maximumLids g \<noteq> 0 \<longrightarrow> one_more (class_at s r) k l g) \<and>
     (if maximumLids g = 0 \<or> currentLids (class_at s r) < maximumLids g
      then sm_mc_find_unused_lid (mlid_table_cap s) (sm_McGroups s) = Some l else least_used (class_at s r) k l)"

definition not_assigned :: "mcast \<Rightarrow> nat option \<Rightarrow> McGroupClass_t \<Rightarrow> bool" where
  "not_assigned s r g \<longleftrightarrow> same_class (class_at s r) g \<and> (maximumLids g \<noteq> 0 \<longrightarrow> gc_ok g \<and> usage_at g = usage_at (class_at s r))"

lemma assign_lid_cases:
  fixes alloc :: bool and mGid :: IB_GID and pKey :: u16 and mtu rate :: u8
  assumes inv: "mc_inv s"
  defines "r \<equiv> find_mc_group_class s mGid" and "k \<equiv> lidClassKey pKey mtu rate"
    and "res \<equiv> sm_multicast_assign_lid alloc mGid pKey mtu rate s"
  shows "if maximumLids (class_at s r) \<noteq> 0 \<and> empty_entry (class_at s r) k then res = Inl AssertFailed
    else (\<exists>l g. res = Inr (VSTATUS_OK, Some l, set_class_at r g s) \<and> assigned s r k l g) \<or>
      (\<exists>st g. res = Inr (st, None, set_class_at r g s) \<and> st \<noteq> VSTATUS_OK \<and> not_assigned s r g)"
proof -
  let ?g = "class_at s r" and ?u = "sm_mc_find_unused_lid (mlid_table_cap s) (sm_McGroups s)"
  have v: "valid_ref s r" unfolding r_def by (rule find_class_valid)
  have cap: "mlid_table_cap s \<le> MAX_SIZE_MFT" using inv by (simp add: mc_inv_def)
  show ?thesis
  proof (cases "maximumLids ?g = 0")
    case True
    have u: "res = (case ?u of None \<Rightarrow> Inr (VSTATUS_BAD, None, s)
        | Some lid \<Rightarrow> Inr (VSTATUS_OK, Some lid, set_class_at r (?g\<lparr>currentLids := currentLids ?g + 1\<rparr>) s))"
      using True by (simp add: res_def sm_multicast_assign_lid_def r_def[symmetric] Let_def)
    show ?thesis
    proof (cases ?u)
      case None
      then have "res = Inr (VSTATUS_BAD, None, set_class_at r ?g s)" using u by (simp add: set_class_same[OF v])
      then show ?thesis using True unfolding not_assigned_def by fastforce
    next
      case (Some l)
      have "assigned s r k l (?g\<lparr>currentLids := currentLids ?g + 1\<rparr>)"
        using True Some by (simp add: assigned_def same_class_def)
      then show ?thesis using u Some True by auto
    qed
  next
    case False
    let ?res = "sm_mc_get_group_class_lid alloc ?u ?g pKey mtu rate 0"
    have res: "res = map_sum id (\<lambda>(st, lid, g'). (st, lid, set_class_at r g' s)) ?res"
      using False by (simp add: res_def sm_multicast_assign_lid_def r_def[symmetric] Let_def)
    have ok: "gc_ok ?g" and us: "\<forall>k lid. usage_at ?g k lid = n_groups s r k lid"
      using inv v False by (auto simp: mc_inv_def)
    have cnt: "\<forall>lid. usage_at ?g k lid < 0xFFFF" using mc_inv_count[OF inv v False] by blast
    have un: "\<forall>lid. ?u = Some lid \<longrightarrow> lid \<noteq> LID_FREE \<and> usage_at ?g k lid = 0"
      using unused_lid[OF _ cap] us by (auto simp: n_groups_def filter_empty_conv)
    have g: "granted ?g k ?u 0 ?res \<Longrightarrow> \<exists>l g. res = Inr (VSTATUS_OK, Some l, set_class_at r g s) \<and> assigned s r k l g"
    proof -
      assume "granted ?g k ?u 0 ?res"
      then obtain l g' where l: "?res = Inr (VSTATUS_OK, Some l, g')" "one_more ?g k l g'"
        "if currentLids ?g < maximumLids ?g then ?u = Some l else least_used ?g k l" by (auto simp: granted_def)
      then have "assigned s r k l g'" using False by (auto simp: assigned_def one_more_def same_class_def)
      then show ?thesis using l(1) res by auto
    qed
    have n: "refused ?g ?res \<Longrightarrow> \<exists>st g. res = Inr (st, None, set_class_at r g s) \<and> st \<noteq> VSTATUS_OK \<and> not_assigned s r g"
      by (force simp: refused_def res not_assigned_def)
    show ?thesis
    proof (cases "currentLids ?g < maximumLids ?g")
      case True
      have "granted ?g k ?u 0 ?res \<or> refused ?g ?res"
        by (rule get_class_lid_room[OF ok True _ un cnt]) (simp_all add: k_def)
      moreover have "\<not> empty_entry ?g k" using True by (simp add: empty_entry_def)
      ultimately show ?thesis using g n by auto
    next
      case full: False
      have "if empty_entry ?g k then ?res = Inl AssertFailed else granted ?g k ?u 0 ?res \<or> refused ?g ?res"
        using get_class_lid_full[OF ok full False _ cnt, of pKey mtu rate 0 alloc ?u] by (simp add: k_def)
      then show ?thesis using g n False res by (cases "empty_entry ?g k") auto
    qed
  qed
qed

lemma create_group_cases:
  fixes alloc :: bool and mGid :: IB_GID and pKey :: u16 and mtu rate :: u8
  assumes inv: "mc_inv s"
  defines "r \<equiv> find_mc_group_class s mGid"
  shows "case create_group alloc mGid pKey mtu rate s of
      Inl e \<Rightarrow> e = AssertFailed \<and> maximumLids (class_at s r) \<noteq> 0 \<and> empty_entry (class_at s r) (lidClassKey pKey mtu rate)
    | Inr (st, s') \<Rightarrow> mc_inv s'"
proof (cases "length (sm_McGroups s) = MAX_MCAST_MGIDS")
  case True
  then show ?thesis using inv by (simp add: create_group_def)
next
  case False
  then have len: "length (sm_McGroups s) < MAX_MCAST_MGIDS" using inv by (simp add: mc_inv_def)
  let ?k = "lidClassKey pKey mtu rate" and ?res = "sm_multicast_assign_lid alloc mGid pKey mtu rate s"
  note c = assign_lid_cases[OF inv, of mGid pKey mtu rate alloc, folded r_def]
  consider (fail) "?res = Inl AssertFailed" "maximumLids (class_at s r) \<noteq> 0" "empty_entry (class_at s r) ?k"
    | (ok) l g where "?res = Inr (VSTATUS_OK, Some l, set_class_at r g s)" "assigned s r ?k l g"
    | (no) st g where "?res = Inr (st, None, set_class_at r g s)" "st \<noteq> VSTATUS_OK" "not_assigned s r g"
    using c by (auto split: if_splits)
  then show ?thesis
  proof cases
    case fail
    then show ?thesis using False by (simp add: create_group_def)
  next
    case ok
    have "mc_inv (McGroup_Create (new_group mGid l pKey mtu rate) (set_class_at r g s))"
      using ok(2) inv len by (intro mc_inv_create) (auto simp: assigned_def new_group_def gkey_def r_def)
    then show ?thesis using ok(1) False by (simp add: create_group_def)
  next
    case no
    have "valid_ref s r" unfolding r_def by (rule find_class_valid)
    then have "mc_inv (set_class_at r g s)"
      using no(3) by (intro mc_inv_refused[OF inv]) (auto simp: not_assigned_def)
    then show ?thesis using no(1,2) False by (cases st) (simp_all add: create_group_def)
  qed
qed

lemma put_class_cur:
  "(put_class g pKey mtu rate c)\<lparr>currentLids := x\<rparr> = put_class (g\<lparr>currentLids := x\<rparr>) pKey mtu rate c"
  "currentLids (put_class g pKey mtu rate c) = currentLids g"
  by (simp_all add: put_class_def)

text \<open>Deleting a group that exists: no assertion fails, and one use of its LID goes.\<close>

lemma decommision_ok:
  assumes inv: "mc_inv s" and mem: "gr \<in> set (sm_McGroups s)"
  defines "r \<equiv> find_mc_group_class s (mg_mGid gr)"
  shows "\<exists>g. sm_multicast_decommision_group gr s = Inr (VSTATUS_OK, set_class_at r g s) \<and> same_class (class_at s r) g \<and>
    (maximumLids g \<noteq> 0 \<longrightarrow> gc_ok g \<and> usage_at g = (usage_at (class_at s r))
      (gkey gr := (usage_at (class_at s r) (gkey gr))(mg_mLid gr := usage_at (class_at s r) (gkey gr) (mg_mLid gr) - 1)))"
proof (cases "maximumLids (class_at s r) = 0")
  case True
  have "valid_ref s r" unfolding r_def by (rule find_class_valid)
  then show ?thesis
    using True by (intro exI[of _ "class_at s r"])
      (simp add: sm_multicast_decommision_group_def r_def[symmetric] Let_def set_class_same)
next
  case False
  let ?g = "class_at s r" and ?k = "gkey gr" and ?l = "mg_mLid gr"
  have v: "valid_ref s r" unfolding r_def by (rule find_class_valid)
  have ok: "gc_ok ?g" and us: "usage_at ?g ?k ?l = n_groups s r ?k ?l" using inv v False by (auto simp: mc_inv_def)
  have "0 < n_groups s r ?k ?l" using mem by (auto simp: n_groups_def r_def filter_empty_conv)
  then obtain c where c: "map_of (usageMap ?g) ?k = Some c" "0 < usage c ?l"
    using us by (auto simp: usage_at_def split: option.splits)
  have lc: "lc_ok (unat (maximumLids ?g)) c" using ok c(1) by (auto simp: gc_ok_def)
  let ?i = "find_lid c ?l"
  have i: "?i < lidsUsed c" "lu_lid (lids c ! ?i) = ?l" using find_lid_cases[OF lc, of ?l] c(2) by auto
  obtain c' where c': "release_lid c ?i = Inr (usage c ?l = 1, c')" "lc_ok (unat (maximumLids ?g)) c'"
    "lidsUsed c' = (if usage c ?l = 1 then lidsUsed c - 1 else lidsUsed c)" "usage c' = (usage c)(?l := usage c ?l - 1)"
    using release_lid_ok[OF lc i(1)] unfolding i(2) by blast
  define cur where "cur = (if usage c ?l = 1 then currentLids ?g - 1 else currentLids ?g)"
  have le: "lidsUsed c \<le> unat (currentLids ?g)" using lidsUsed_le_total[OF c(1)] ok by (simp add: gc_ok_def)
  then have pos: "currentLids ?g \<noteq> 0" using i(1) by auto
  have cur: "unat cur + lidsUsed c = unat (currentLids ?g) + lidsUsed c'" "cur \<le> maximumLids ?g"
  proof -
    have m1: "unat (currentLids ?g - 1) = unat (currentLids ?g) - 1" using pos by (simp add: unat_minus_one)
    show "unat cur + lidsUsed c = unat (currentLids ?g) + lidsUsed c'" using m1 i(1) le c'(3) by (auto simp: cur_def)
    have "unat cur \<le> unat (currentLids ?g)" using m1 by (auto simp: cur_def)
    then show "cur \<le> maximumLids ?g" using ok by (auto simp: gc_ok_def word_le_nat_alt)
  qed
  let ?g' = "put_class (?g\<lparr>currentLids := cur\<rparr>) (mg_pKey gr) (mg_mtu gr) (mg_rate gr) c'"
  note p = gc_ok_put[OF ok c'(2) gkey_def, of cur]
  have res: "sm_multicast_decommision_group gr s = Inr (VSTATUS_OK, set_class_at r ?g' s)"
    using False c(1) i(1) c'(1)
    by (auto simp: sm_multicast_decommision_group_def r_def[symmetric] Let_def getLidClass_def gkey_def cur_def put_class_cur
        put_class_same_cur)
  have "usage_at ?g ?k = usage c" using c(1) by (auto simp: usage_at_def)
  then show ?thesis using res p cur c(1) c'(4) by (intro exI[of _ ?g']) simp
qed

lemma length_filter_remove1:
  "x \<in> set xs \<Longrightarrow> length (filter P (remove1 x xs)) = length (filter P xs) - (if P x then 1 else 0)"
  by (simp add: filter_remove1 length_remove1)

lemma McGroup_Delete_ok:
  assumes inv: "mc_inv s" and mem: "gr \<in> set (sm_McGroups s)"
  shows "\<exists>s'. McGroup_Delete gr s = Inr s' \<and> mc_inv s' \<and> sm_McGroups s' = remove1 gr (sm_McGroups s)"
proof -
  define r where "r = find_mc_group_class s (mg_mGid gr)"
  have v: "valid_ref s r" unfolding r_def by (rule find_class_valid)
  obtain g where g: "sm_multicast_decommision_group gr s = Inr (VSTATUS_OK, set_class_at r g s)" "same_class (class_at s r) g"
    "maximumLids g \<noteq> 0 \<longrightarrow> gc_ok g \<and> usage_at g = (usage_at (class_at s r))
      (gkey gr := (usage_at (class_at s r) (gkey gr))(mg_mLid gr := usage_at (class_at s r) (gkey gr) (mg_mLid gr) - 1))"
    using decommision_ok[OF inv mem] unfolding r_def by blast
  define s' where "s' = (set_class_at r g s)\<lparr>sm_McGroups := remove1 gr (sm_McGroups s)\<rparr>"
  have cl: "class_at s' = class_at (set_class_at r g s)" "valid_ref s' = valid_ref s" "find_mc_group_class s' = find_mc_group_class s"
    using find_class_set[OF v g(2)]
    by (auto simp: s'_def class_at_def find_mc_group_class_def fun_eq_iff valid_ref_def split: option.splits)
  have n: "n_groups s' r' k lid = n_groups s r' k lid - (if r = r' \<and> gkey gr = k \<and> mg_mLid gr = lid then 1 else 0)" for r' k lid
    unfolding n_groups_def cl(3) using mem by (simp add: s'_def length_filter_remove1 r_def)
  have "gc_ok (class_at s' r') \<and> (\<forall>k lid. usage_at (class_at s' r') k lid = n_groups s' r' k lid)"
    if m: "valid_ref s r'" "maximumLids (class_at s' r') \<noteq> 0" for r'
  proof (cases "r' = r")
    case True
    then have mg: "maximumLids g \<noteq> 0" using m(2) by (simp add: cl class_at_set[OF v])
    then have "maximumLids (class_at s r) \<noteq> 0" using g(2) by (simp add: same_class_def)
    then have "\<forall>k lid. usage_at (class_at s r) k lid = n_groups s r k lid" using inv v by (simp add: mc_inv_def)
    then show ?thesis using g(3) mg True by (simp add: cl class_at_set[OF v] n)
  next
    case False
    then have "maximumLids (class_at s r') \<noteq> 0" using m(2) by (simp add: cl class_at_set[OF v])
    then show ?thesis using inv m(1) False by (simp add: mc_inv_def cl class_at_set[OF v] n)
  qed
  then have "mc_inv s'" using inv unfolding mc_inv_def cl(2) by (auto simp: s'_def length_remove1)
  then show ?thesis using g(1) by (simp add: McGroup_Delete_def s'_def)
qed

lemma sync_group_ok:
  assumes inv: "mc_inv s" and len: "length (sm_McGroups s) < MAX_MCAST_MGIDS" and lid: "lid \<noteq> 0" "lid \<noteq> LID_FREE"
  shows "\<exists>st s'. sync_group alloc mGid pKey mtu rate lid s = Inr (st, s') \<and> mc_inv s'"
proof -
  define r where "r = find_mc_group_class s mGid"
  let ?g = "class_at s r" and ?k = "lidClassKey pKey mtu rate" and ?n = "new_group mGid lid pKey mtu rate"
  let ?u = "sm_mc_find_unused_lid (mlid_table_cap s) (sm_McGroups s)" and ?c = "sm_multicast_check_sync_consistancy s r pKey mtu rate lid"
  have v: "valid_ref s r" unfolding r_def by (rule find_class_valid)
  have create: "same_class ?g g \<Longrightarrow> (maximumLids g \<noteq> 0 \<Longrightarrow> one_more ?g ?k lid g) \<Longrightarrow> mc_inv (McGroup_Create ?n (set_class_at r g s))" for g
    using mc_inv_create[OF inv _ _ len, of r ?n g] by (simp add: r_def new_group_def gkey_def)
  consider (rej) "?c \<noteq> VSTATUS_OK" | (own) "?c = VSTATUS_OK" "maximumLids ?g = 0" | (share) "?c = VSTATUS_OK" "maximumLids ?g \<noteq> 0" by blast
  then show ?thesis
  proof cases
    case rej
    then show ?thesis using inv by (simp add: sync_group_def sm_multicast_sync_lid_def r_def[symmetric] Let_def)
  next
    case own
    have "mc_inv (McGroup_Create ?n (set_class_at r (?g\<lparr>currentLids := currentLids ?g + 1\<rparr>) s))"
      using own(2) by (intro create) (simp_all add: same_class_def)
    then show ?thesis using own by (simp add: sync_group_def sm_multicast_sync_lid_def r_def[symmetric] Let_def)
  next
    case share
    let ?res = "sm_mc_get_group_class_lid alloc ?u ?g pKey mtu rate lid"
    have ok: "gc_ok ?g" and us: "\<forall>k lid. usage_at ?g k lid = n_groups s r k lid" using inv v share(2) by (auto simp: mc_inv_def)
    have cnt: "\<forall>lid. usage_at ?g ?k lid < 0xFFFF" using mc_inv_count[OF inv v share(2)] by blast
    have cap: "mlid_table_cap s \<le> MAX_SIZE_MFT" using inv by (simp add: mc_inv_def)
    have un: "\<forall>lid. ?u = Some lid \<longrightarrow> lid \<noteq> LID_FREE \<and> usage_at ?g ?k lid = 0"
      using unused_lid[OF _ cap] us by (auto simp: n_groups_def filter_empty_conv)
    have "granted ?g ?k ?u lid ?res \<or> refused ?g ?res"
      using get_class_lid_room[OF ok _ refl un cnt lid(2), of alloc] get_class_lid_full[OF ok _ share(2) refl cnt, of lid alloc ?u] lid(1)
      by (cases "currentLids ?g < maximumLids ?g") auto
    then show ?thesis
    proof
      assume "granted ?g ?k ?u lid ?res"
      then obtain g where g: "?res = Inr (VSTATUS_OK, Some lid, g)" "one_more ?g ?k lid g" using lid(1) by (auto simp: granted_def)
      then have "mc_inv (McGroup_Create ?n (set_class_at r g s))" by (intro create) (simp_all add: one_more_def)
      then show ?thesis using g(1) share by (simp add: sync_group_def sm_multicast_sync_lid_def r_def[symmetric] Let_def)
    next
      assume "refused ?g ?res"
      then obtain st g where g: "?res = Inr (st, None, g)" "st \<noteq> VSTATUS_OK" "gc_ok g" "same_class ?g g" "usage_at g = usage_at ?g"
        by (auto simp: refused_def)
      then have "mc_inv (set_class_at r g s)" by (intro mc_inv_refused[OF inv v]) simp_all
      then show ?thesis using g share by (simp add: sync_group_def sm_multicast_sync_lid_def r_def[symmetric] Let_def)
    qed
  qed
qed

text \<open>
  The changes of the group table: requests that create groups, synchronisation from the
  master, and deletions of existing groups.
\<close>

inductive mc_step :: "mcast \<Rightarrow> mcast \<Rightarrow> bool" where
  create: "create_group alloc mGid pKey mtu rate s = Inr (st, s') \<Longrightarrow> mc_step s s'"
| sync: "length (sm_McGroups s) < MAX_MCAST_MGIDS \<Longrightarrow> lid \<noteq> 0 \<Longrightarrow> lid \<noteq> LID_FREE \<Longrightarrow>
    sync_group alloc mGid pKey mtu rate lid s = Inr (st, s') \<Longrightarrow> mc_step s s'"
| delete: "gr \<in> set (sm_McGroups s) \<Longrightarrow> McGroup_Delete gr s = Inr s' \<Longrightarrow> mc_step s s'"

lemma mc_step_inv: "mc_step s s' \<Longrightarrow> mc_inv s \<Longrightarrow> mc_inv s'"
proof (induction rule: mc_step.induct)
  case (create alloc mGid pKey mtu rate s st s')
  then show ?case using create_group_cases[where s = s and alloc = alloc and mGid = mGid and pKey = pKey and mtu = mtu and rate = rate] by simp
next
  case (sync s lid alloc mGid pKey mtu rate st s')
  then show ?case using sync_group_ok[where s = s and lid = lid and alloc = alloc and mGid = mGid and pKey = pKey and mtu = mtu and rate = rate] by simp
next
  case (delete gr s s')
  then show ?case using McGroup_Delete_ok[of s gr] by simp
qed

interpretation mc_invariant: invariant_step mc_step mc_inv
  by unfold_locales (rule mc_step_inv)

text \<open>The state after configuration: classes without LIDs, no groups.\<close>

definition mc_fresh :: "mcast \<Rightarrow> bool" where
  "mc_fresh s \<longleftrightarrow> list_all (\<lambda>g. usageMap g = [] \<and> currentLids g = 0) (defaultMcGroupClass s # mcGroupClasses s) \<and>
     sm_McGroups s = [] \<and> mlid_table_cap s \<le> MAX_SIZE_MFT"

lemma add_group_class_fresh:
  "mc_fresh s \<Longrightarrow> mc_fresh (snd (sm_multicast_add_group_class msk val maxLids s))"
  "mc_fresh s \<Longrightarrow> mc_fresh (snd (sm_multicast_set_default_group_class maxLids s))"
  by (auto simp: mc_fresh_def sm_multicast_add_group_class_def sm_multicast_set_default_group_class_def
      sm_multicast_create_group_class_def Let_def)

lemma fresh_inv: "mc_fresh s \<Longrightarrow> mc_inv s"
  by (auto simp: mc_fresh_def mc_inv_def class_at_def valid_ref_def gc_ok_def total_used_def usage_at_def n_groups_def
      list_all_length split: option.splits)

lemma reach_inv: "mc_fresh s0 \<Longrightarrow> rtranclp mc_step s0 s \<Longrightarrow> mc_inv s"
  using mc_invariant.inv_reach fresh_inv by blast

section \<open>GIDs\<close>

lemma gid_loop_ok:
  assumes "\<exists>j. i \<le> j \<and> j \<le> 0xFFFFFFFF \<and> sm_find_multicast_gid groups (gid_candidate scope prefix j) = None"
  shows "gid_assign_loop groups scope prefix i = VSTATUS_OK"
  using assms
proof (induction groups scope prefix i rule: gid_assign_loop.induct)
  case (1 groups scope prefix i)
  show ?case
  proof (cases "sm_find_multicast_gid groups (gid_candidate scope prefix i) = None")
    case False
    from 1(2) obtain j where j: "i \<le> j" "j \<le> 0xFFFFFFFF" "sm_find_multicast_gid groups (gid_candidate scope prefix j) = None"
      by blast
    then have "i \<noteq> j" using False by auto
    then have "i < 0xFFFFFFFF" "i + 1 \<le> j" using j(1,2) by auto
    with 1(1) j False show ?thesis by (subst gid_assign_loop.simps) auto
  qed (simp add: gid_assign_loop.simps)
qed

lemma le_bytes_bit:
  assumes "n < 8 * m"
  shows "bit (le_bytes m w ! (n div 8)) (n mod 8) = bit w n"
proof -
  have "n div 8 < m" using assms by (simp add: less_mult_imp_div_less mult.commute)
  then show ?thesis by (simp add: le_bytes_def bit_ucast_iff bit_drop_bit_eq)
qed

lemma gid_candidate_inj:
  assumes "gid_candidate scope prefix i = gid_candidate scope prefix j" "i < 2 ^ 32" "j < 2 ^ 32"
  shows "i = j"
proof -
  let ?w = "\<lambda>n. of_nat n :: u64"
  have "le_bytes 4 (?w i) = le_bytes 4 (?w j)" using assms(1) by (simp add: gid_candidate_def le_bytes_def)
  then have low: "bit (?w i) n = bit (?w j) n" if "n < 32" for n
    using le_bytes_bit[of n 4 "?w i"] le_bytes_bit[of n 4 "?w j"] that by simp
  have small: "unat (?w n) = n" if "n < 2 ^ 32" for n using that by (simp add: unat_of_nat)
  have "\<not> bit (?w m) n" if "32 \<le> n" "m < 2 ^ 32" for m n
  proof -
    have "m < 2 ^ n" using that by (meson less_le_trans one_le_numeral power_increasing)
    then have "\<not> bit m n" by (simp add: bit_iff_odd)
    then show ?thesis by (simp add: bit_of_nat_iff)
  qed
  then have "?w i = ?w j" using low assms(2,3) by (intro bit_eqI) (metis not_less)
  then show ?thesis using small assms(2,3) by metis
qed

section \<open>Properties\<close>

text \<open>One class of one shared LID for all groups, and a table of four LIDs.\<close>

definition ex_mcast :: mcast where
  "ex_mcast = \<lparr>mcGroupClasses = [],
     defaultMcGroupClass = sm_multicast_create_group_class (replicate 16 0) (replicate 16 0) 1,
     sm_McGroups = [], mlid_table_cap = 4\<rparr>"

definition ex_gid :: "u8 \<Rightarrow> IB_GID" where
  "ex_gid n = n # replicate 13 0 @ [0x12, 0xff]"

fun run :: "(mcast \<Rightarrow> (Status_t \<times> mcast) c_result) list \<Rightarrow> mcast \<Rightarrow> mcast c_result" where
  "run [] s = Inr s"
| "run (f # fs) s = (case f s of Inl e \<Rightarrow> Inl e | Inr (st, s') \<Rightarrow> run fs s')"

text \<open>The example after a first group, and after a LID is assigned again.\<close>

definition ex_mcast1 :: mcast where
  "ex_mcast1 = (case create_group True (ex_gid 1) 1 5 7 ex_mcast of Inr (_, s) \<Rightarrow> s | Inl _ \<Rightarrow> ex_mcast)"

definition ex_mcast2 :: mcast where
  "ex_mcast2 = (case sm_multicast_assign_lid True (ex_gid 2) 1 5 7 ex_mcast1 of Inr (_, _, s) \<Rightarrow> s | Inl _ \<Rightarrow> ex_mcast)"

lemma ex_mcast1_reach: "mc_fresh ex_mcast" "rtranclp mc_step ex_mcast ex_mcast1"
proof -
  show "mc_fresh ex_mcast" by code_simp
  have "create_group True (ex_gid 1) 1 5 7 ex_mcast = Inr (VSTATUS_OK, ex_mcast1)" by code_simp
  then have "mc_step ex_mcast ex_mcast1" by (rule mc_step.create)
  then show "rtranclp mc_step ex_mcast ex_mcast1" by (rule r_into_rtranclp)
qed





text \<open>
  The LID given to a new group: while the class has room (or does not share LIDs), one that
  no group has; otherwise one used least among those of the same P_Key, MTU and rate.
\<close>

theorem assigned_lid_choice:
  assumes "mc_fresh s0" "rtranclp mc_step s0 s"
    "sm_multicast_assign_lid alloc mGid pKey mtu rate s = Inr (VSTATUS_OK, Some lid, s')"
  defines "g \<equiv> class_at s (find_mc_group_class s mGid)" and "k \<equiv> lidClassKey pKey mtu rate"
  shows "if maximumLids g = 0 \<or> currentLids g < maximumLids g
    then MULTICAST_LID_MIN \<le> lid \<and> (\<forall>gr \<in> set (sm_McGroups s). mg_mLid gr \<noteq> lid)
    else 0 < usage_at g k lid \<and> (\<forall>l. 0 < usage_at g k l \<longrightarrow> usage_at g k lid \<le> usage_at g k l)"
proof -
  have inv: "mc_inv s" using reach_inv[OF assms(1,2)] .
  obtain g' where g': "assigned s (find_mc_group_class s mGid) k lid g'"
    using assign_lid_cases[OF inv, of mGid pKey mtu rate alloc] assms(3) by (auto simp: k_def split: if_splits)
  then have m: "maximumLids g' = maximumLids g" by (simp add: assigned_def same_class_def g_def)
  show ?thesis
  proof (cases "maximumLids g = 0 \<or> currentLids g < maximumLids g")
    case True
    then have "sm_mc_find_unused_lid (mlid_table_cap s) (sm_McGroups s) = Some lid"
      using g' m by (simp add: assigned_def g_def)
    from unused_lid[OF this] True inv show ?thesis by (simp add: mc_inv_def)
  next
    case False
    then show ?thesis using g' m by (simp add: assigned_def g_def least_used_def)
  qed
qed

theorem assigned_lid_choice_witness:
  "0 < usage_at (class_at ex_mcast1 None) (lidClassKey 1 5 7) 0xC000"
proof -
  have r: "sm_multicast_assign_lid True (ex_gid 2) 1 5 7 ex_mcast1 = Inr (VSTATUS_OK, Some 0xC000, ex_mcast2)"
    and f: "find_mc_group_class ex_mcast1 (ex_gid 2) = None"
    and n: "\<not> (maximumLids (class_at ex_mcast1 None) = 0 \<or> currentLids (class_at ex_mcast1 None) < maximumLids (class_at ex_mcast1 None))"
    by code_simp+
  show ?thesis using assigned_lid_choice[OF ex_mcast1_reach r] n unfolding f by simp
qed


text \<open>
  A group created without an MGID is entered with a zero MGID, and its LID is accounted
  under the wrong key (the MTU in the place of the P_Key): deleting it fails an assertion.
\<close>

theorem no_mgid_group_not_deletable:
  "run [create_group_no_mgid True 0xfe80000000000000 2 0x8001 5 7,
        (\<lambda>s. map_sum id (Pair VSTATUS_OK) (McGroup_Delete (hd (sm_McGroups s)) s))] ex_mcast = Inl AssertFailed"
  by code_simp

text \<open>
  The search for a free MGID ends, and with fewer than \<open>2 ^ 32\<close> groups it ends with success.
\<close>

theorem gid_assign_succeeds:
  assumes "length groups < 2 ^ 32"
  shows "sm_multicast_gid_assign prefix groups scope = VSTATUS_OK"
proof -
  let ?sc = "if scope = 0 then ucast IB_SITE_LOCAL_SCOPE else scope" and ?used = "mg_mGid ` set groups"
  have "inj_on (gid_candidate ?sc prefix) {..<2 ^ 32}" using gid_candidate_inj by (auto intro: inj_onI)
  then have "card (gid_candidate ?sc prefix ` {..<2 ^ 32}) = 2 ^ 32" by (simp add: card_image)
  moreover have "card ?used < 2 ^ 32"
    using assms card_image_le[of "set groups" mg_mGid] card_length[of groups] by simp
  ultimately have "\<not> gid_candidate ?sc prefix ` {..<2 ^ 32} \<subseteq> ?used"
    using card_mono[of ?used "gid_candidate ?sc prefix ` {..<2 ^ 32}"] by auto
  then obtain j where j: "j < 2 ^ 32" "gid_candidate ?sc prefix j \<notin> ?used" by auto
  have "sm_find_multicast_gid groups (gid_candidate ?sc prefix j) = None"
    unfolding sm_find_multicast_gid_def find_None_iff using j(2) by (metis imageI)
  moreover have "0 \<le> j \<and> j \<le> 0xFFFFFFFF" using j(1) by simp
  ultimately have "\<exists>j. 0 \<le> j \<and> j \<le> 0xFFFFFFFF \<and> sm_find_multicast_gid groups (gid_candidate ?sc prefix j) = None" by blast
  then show ?thesis unfolding sm_multicast_gid_assign_def by (rule gid_loop_ok)
qed

theorem gid_assign_succeeds_witness:
  "sm_multicast_gid_assign 0xfe80000000000000 [new_group (gid_candidate 5 0xfe80000000000000 0) 0xC000 1 5 7] 0 = VSTATUS_OK"
  using gid_assign_succeeds[of "[new_group (gid_candidate 5 0xfe80000000000000 0) 0xC000 1 5 7]"] by simp

end
