(* ===== verification/SmQosSl.thy ===== *)
theory SmQosSl
  imports CsBitset
begin

text \<open>
  The assignment of service levels (SLs) to virtual fabrics (\<^verbatim>\<open>sm_routing_func_assign_sls\<close> and its
  helpers in \<^verbatim>\<open>sm_routing_funcs.c\<close>). A virtual fabric has up to three SLs: for requests, for
  responses and for multicast; \<open>0xff\<close> is an SL the configuration leaves open. Fabrics with QoS
  keep the SLs they are configured with and get unused ones for the rest; all fabrics without
  QoS share one set of SLs. The routing module is the record of the function pointers the code
  calls; the two arrays of fabrics (all, and the active ones) are lists.
\<close>

section \<open>Model\<close>

abbreviation (input) SL_UNDEFINED :: u8 where "SL_UNDEFINED \<equiv> 0xff"
abbreviation (input) MAX_SLS :: int where "MAX_SLS \<equiv> 16"
abbreviation (input) STL_MAX_SL_COUNT :: nat where "STL_MAX_SL_COUNT \<equiv> 32"

record RoutingModule_t =
  num_routing_scs :: "nat \<Rightarrow> bool \<Rightarrow> nat"
  mcast_isolation_required :: bool
  min_vls :: nat
  max_vls :: nat

record VF_t =
  name :: string
  standby :: bool
  qos_enable :: bool
  base_sl :: u8
  requires_resp_sl :: bool
  resp_sl :: u8
  contains_mcast :: bool
  mcast_sl :: u8
  percent_bandwidth :: u8
  priority :: bool

record VirtualFabrics_t =
  v_fabric :: "VF_t list"
  v_fabric_all :: "VF_t list"

definition findVfIdxInActiveList :: "VF_t \<Rightarrow> VirtualFabrics_t \<Rightarrow> nat option" where
  "findVfIdxInActiveList vfToFind vfs =
     (if name vfToFind = [] then None
      else List.find (\<lambda>vf. name (v_fabric vfs ! vf) \<noteq> [] \<and> name (v_fabric vfs ! vf) = name vfToFind)
             [0..<length (v_fabric vfs)])"

text \<open>The SLs in use and the number of SCs they need; the latter only goes to the log.\<close>

record sl_use =
  usedSLs :: bitset_t
  numSCs :: nat

definition use_sl :: "RoutingModule_t \<Rightarrow> u8 \<Rightarrow> bool \<Rightarrow> sl_use \<Rightarrow> sl_use" where
  "use_sl rm sl mc st =
     \<lparr>usedSLs = snd (bitset_set (usedSLs st) (unat sl)),
      numSCs = (if bitset_test (usedSLs st) (unat sl) then numSCs st
                else numSCs st + num_routing_scs rm (unat sl) mc)\<rparr>"

text \<open>One round of the loop of \<open>_handle_preassigned_sl\<close>; an error is remembered, the loop goes on.\<close>

definition preassigned_vf ::
  "RoutingModule_t \<Rightarrow> VF_t \<Rightarrow> sl_use \<Rightarrow> Status_t \<Rightarrow> VF_t \<times> sl_use \<times> Status_t" where
  "preassigned_vf rm vfp st ret =
     (if \<not> qos_enable vfp
      then (vfp\<lparr>base_sl := SL_UNDEFINED, resp_sl := SL_UNDEFINED, mcast_sl := SL_UNDEFINED\<rparr>, st, ret)
      else let (st1, ret1) =
                 (if base_sl vfp = SL_UNDEFINED then (st, ret)
                  else (use_sl rm (base_sl vfp) False st,
                        if mcast_isolation_required rm \<and> contains_mcast vfp \<and>
                           (mcast_sl vfp = SL_UNDEFINED \<or> mcast_sl vfp = base_sl vfp)
                        then VSTATUS_BAD else ret));
               st2 = (if resp_sl vfp = SL_UNDEFINED then st1 else use_sl rm (resp_sl vfp) False st1);
               st3 = (if mcast_sl vfp = SL_UNDEFINED then st2 else use_sl rm (mcast_sl vfp) True st2)
           in (vfp, st3, ret1))"

fun handle_preassigned_sl ::
  "RoutingModule_t \<Rightarrow> VF_t list \<Rightarrow> sl_use \<Rightarrow> Status_t \<Rightarrow> VF_t list \<times> sl_use \<times> Status_t" where
  "handle_preassigned_sl rm [] st ret = ([], st, ret)"
| "handle_preassigned_sl rm (vfp # vfs) st ret =
     (case preassigned_vf rm vfp st ret of (vfp', st', ret') \<Rightarrow>
        (case handle_preassigned_sl rm vfs st' ret' of (vfs', st'', ret'') \<Rightarrow> (vfp' # vfs', st'', ret'')))"

text \<open>
  \<open>_handle_unassigned_sl\<close>: \<open>noqos\<close> is the SL the fabrics without QoS share, \<open>-1\<close> before it is
  chosen. The low search rejects SLs from \<open>maxsl\<close> on but not the value \<open>-1\<close> of a failed search,
  which becomes the 8-bit value \<open>0xff\<close>.
\<close>

record sl_out =
  so_sl :: u8
  so_use :: sl_use
  so_noqos :: int

definition handle_unassigned_sl ::
  "VF_t \<Rightarrow> u8 \<Rightarrow> sl_use \<Rightarrow> int \<Rightarrow> bool \<Rightarrow> int \<Rightarrow> nat \<Rightarrow> Status_t \<times> sl_out" where
  "handle_unassigned_sl vfp sl st noqos highsls maxsl scspersl =
     (let same = \<lparr>so_sl = sl, so_use = st, so_noqos = noqos\<rparr>;
          newsl = (if \<not> highsls then bitset_find_first_zero (usedSLs st) else bitset_find_last_zero (usedSLs st))
      in if sl \<noteq> SL_UNDEFINED then (VSTATUS_OK, same)
         else if qos_enable vfp \<or> noqos = -1
         then if (if \<not> highsls then newsl \<ge> maxsl else newsl = -1) then (VSTATUS_BAD, same)
              else (VSTATUS_OK,
                    \<lparr>so_sl = word_of_int newsl,
                     so_use = \<lparr>usedSLs = snd (bitset_set (usedSLs st) (unat (word_of_int newsl :: u32))),
                               numSCs = numSCs st + scspersl\<rparr>,
                     so_noqos = (if qos_enable vfp then noqos else newsl)\<rparr>)
         else (VSTATUS_OK, same\<lparr>so_sl := word_of_int noqos\<rparr>))"

text \<open>The state of the loop of \<open>sm_routing_func_assign_sls\<close>.\<close>

record assign_state =
  as_use :: sl_use
  noqos_base :: int
  noqos_resp :: int
  noqos_mcast :: int

definition assign_base :: "RoutingModule_t \<Rightarrow> VF_t \<Rightarrow> assign_state \<Rightarrow> Status_t \<times> VF_t \<times> assign_state" where
  "assign_base rm vfp s =
     (case handle_unassigned_sl vfp (base_sl vfp) (as_use s) (noqos_base s) False MAX_SLS
             (num_routing_scs rm (unat (resp_sl vfp)) False) of
        (ret, out) \<Rightarrow> (ret, vfp\<lparr>base_sl := so_sl out\<rparr>, s\<lparr>as_use := so_use out, noqos_base := so_noqos out\<rparr>))"

definition assign_resp :: "RoutingModule_t \<Rightarrow> VF_t \<Rightarrow> assign_state \<Rightarrow> Status_t \<times> VF_t \<times> assign_state" where
  "assign_resp rm vfp s =
     (if requires_resp_sl vfp
      then (case handle_unassigned_sl vfp (resp_sl vfp) (as_use s) (noqos_resp s) True (int STL_MAX_SL_COUNT)
                   (num_routing_scs rm (unat (resp_sl vfp)) False) of
              (ret, out) \<Rightarrow> (ret, vfp\<lparr>resp_sl := so_sl out\<rparr>, s\<lparr>as_use := so_use out, noqos_resp := so_noqos out\<rparr>))
      else if resp_sl vfp = SL_UNDEFINED then (VSTATUS_OK, vfp\<lparr>resp_sl := base_sl vfp\<rparr>, s)
      else (VSTATUS_OK, vfp, s))"

definition add_mcast_scs :: "RoutingModule_t \<Rightarrow> VF_t \<Rightarrow> assign_state \<Rightarrow> assign_state" where
  "add_mcast_scs rm vfp s =
     s\<lparr>as_use := (as_use s)\<lparr>numSCs := numSCs (as_use s) + num_routing_scs rm (unat (mcast_sl vfp)) True\<rparr>\<rparr>"

definition assign_mcast :: "RoutingModule_t \<Rightarrow> VF_t \<Rightarrow> assign_state \<Rightarrow> Status_t \<times> VF_t \<times> assign_state" where
  "assign_mcast rm vfp s =
     (if contains_mcast vfp \<and> mcast_isolation_required rm
      then (case handle_unassigned_sl vfp (mcast_sl vfp) (as_use s) (noqos_mcast s) False MAX_SLS
                   (num_routing_scs rm (unat (mcast_sl vfp)) True) of
              (ret, out) \<Rightarrow>
                let vfp' = vfp\<lparr>mcast_sl := so_sl out\<rparr>; s' = s\<lparr>as_use := so_use out, noqos_mcast := so_noqos out\<rparr>
                in (ret, vfp', if ret = VSTATUS_OK then add_mcast_scs rm vfp' s' else s'))
      else if mcast_sl vfp = SL_UNDEFINED then (VSTATUS_OK, vfp\<lparr>mcast_sl := base_sl vfp\<rparr>, s)
      else (VSTATUS_OK, vfp, s))"

text \<open>One round of the loop; the first status other than OK leaves the function.\<close>

definition assign_vf :: "RoutingModule_t \<Rightarrow> VF_t \<Rightarrow> assign_state \<Rightarrow> Status_t \<times> VF_t \<times> assign_state" where
  "assign_vf rm vfp s =
     (case assign_base rm vfp s of (r1, v1, s1) \<Rightarrow>
        if r1 \<noteq> VSTATUS_OK then (r1, v1, s1)
        else case assign_resp rm v1 s1 of (r2, v2, s2) \<Rightarrow>
          if r2 \<noteq> VSTATUS_OK then (r2, v2, s2) else assign_mcast rm v2 s2)"

fun assign_loop :: "RoutingModule_t \<Rightarrow> VF_t list \<Rightarrow> assign_state \<Rightarrow> Status_t \<times> VF_t list \<times> assign_state" where
  "assign_loop rm [] s = (VSTATUS_OK, [], s)"
| "assign_loop rm (vfp # vfs) s =
     (case assign_vf rm vfp s of (ret, vfp', s') \<Rightarrow>
        if ret \<noteq> VSTATUS_OK then (ret, vfp' # vfs, s')
        else case assign_loop rm vfs s' of (ret', vfs', s'') \<Rightarrow> (ret', vfp' # vfs', s''))"

definition copy_sls :: "VF_t \<Rightarrow> VF_t \<Rightarrow> VF_t" where
  "copy_sls src dst = dst\<lparr>base_sl := base_sl src, resp_sl := resp_sl src, mcast_sl := mcast_sl src\<rparr>"

definition publish_sls :: "VF_t \<Rightarrow> VirtualFabrics_t \<Rightarrow> VirtualFabrics_t" where
  "publish_sls vfp vfs =
     (if standby vfp then vfs
      else case findVfIdxInActiveList vfp vfs of
             None \<Rightarrow> vfs
           | Some i \<Rightarrow> vfs\<lparr>v_fabric := (v_fabric vfs)[i := copy_sls vfp (v_fabric vfs ! i)]\<rparr>)"

definition sm_routing_func_assign_sls ::
  "(nat \<Rightarrow> bool) \<Rightarrow> RoutingModule_t \<Rightarrow> VirtualFabrics_t option \<Rightarrow> Status_t \<times> VirtualFabrics_t option" where
  "sm_routing_func_assign_sls alloc rm vfsp =
     (case vfsp of
        None \<Rightarrow> (VSTATUS_OK, None)
      | Some vfs \<Rightarrow>
          if v_fabric vfs = [] \<or> v_fabric_all vfs = [] then (VSTATUS_OK, Some vfs)
          else let used0 = \<lparr>usedSLs = snd (bitset_init alloc (Some 0) STL_MAX_SL_COUNT), numSCs = 0\<rparr>
               in case handle_preassigned_sl rm (v_fabric_all vfs) used0 VSTATUS_OK of (pre, use, ret) \<Rightarrow>
                    if ret \<noteq> VSTATUS_OK then (ret, Some (vfs\<lparr>v_fabric_all := pre\<rparr>))
                    else case assign_loop rm pre \<lparr>as_use = use, noqos_base = -1, noqos_resp = -1, noqos_mcast = -1\<rparr> of
                           (ret', all', s') \<Rightarrow>
                              if ret' \<noteq> VSTATUS_OK then (ret', Some (vfs\<lparr>v_fabric_all := all'\<rparr>))
                              else (VSTATUS_OK, Some (fold publish_sls all' (vfs\<lparr>v_fabric_all := all'\<rparr>))))"

section \<open>Who uses an SL\<close>

definition vf_sls :: "VF_t \<Rightarrow> u8 set" where
  "vf_sls v = {base_sl v, resp_sl v, mcast_sl v}"

text \<open>The SLs the configuration gives to a fabric; those of a fabric without QoS are ignored.\<close>

definition configured_sls :: "VF_t \<Rightarrow> u8 set" where
  "configured_sls v = (if qos_enable v then vf_sls v - {SL_UNDEFINED} else {})"

definition sl_set :: "sl_use \<Rightarrow> bool" where
  "sl_set st \<longleftrightarrow> bitset_wf (usedSLs st) \<and> nbits_m (usedSLs st) = 32"

definition in_use :: "sl_use \<Rightarrow> u8 \<Rightarrow> bool" where
  "in_use st x \<longleftrightarrow> bitset_test (usedSLs st) (unat x)"

lemma sl_set_words: "sl_set st \<Longrightarrow> nbits_m (usedSLs st) = 32 * nwords_m (usedSLs st)"
  by (auto simp: sl_set_def bitset_wf_def words_for_def)

lemma sl_set_init: "alloc 4 \<Longrightarrow> sl_set \<lparr>usedSLs = snd (bitset_init alloc p 32), numSCs = n\<rparr>"
  using bitset_init_wf[of 32 alloc p] by (simp add: sl_set_def bitset_init_def words_for_def)

lemma sl_set_put: "sl_set st \<Longrightarrow> sl_set \<lparr>usedSLs = snd (bitset_set (usedSLs st) k), numSCs = n\<rparr>"
  by (simp add: sl_set_def bitset_set_wf)

lemma in_use_put:
  "sl_set st \<Longrightarrow> unat x < 32 \<Longrightarrow>
   in_use \<lparr>usedSLs = snd (bitset_set (usedSLs st) (unat x)), numSCs = n\<rparr> y \<longleftrightarrow> in_use st y \<or> y = x"
  by (auto simp: in_use_def sl_set_def bs.test_put dest: word_unat_eq_iff[THEN iffD2])

lemma in_use_range: "sl_set st \<Longrightarrow> in_use st x \<Longrightarrow> unat x < 32"
  by (auto simp: in_use_def sl_set_def dest: bs.test_capacity)

lemma use_sl_set: "sl_set st \<Longrightarrow> sl_set (use_sl rm x mc st)"
  by (simp add: use_sl_def sl_set_put)

lemma in_use_use_sl: "sl_set st \<Longrightarrow> unat x < 32 \<Longrightarrow> in_use (use_sl rm x mc st) y \<longleftrightarrow> in_use st y \<or> y = x"
  by (simp add: use_sl_def in_use_put)

text \<open>The preassigned SLs: those of fabrics with QoS are marked, the others are dropped.\<close>

definition drop_unused_sls :: "VF_t \<Rightarrow> VF_t" where
  "drop_unused_sls v = (if qos_enable v then v else
     v\<lparr>base_sl := SL_UNDEFINED, resp_sl := SL_UNDEFINED, mcast_sl := SL_UNDEFINED\<rparr>)"

lemma in_use_mark:
  assumes "sl_set st" "x \<noteq> SL_UNDEFINED \<Longrightarrow> unat x < 32" "st' = (if x = SL_UNDEFINED then st else use_sl rm x mc st)"
  shows "sl_set st'" "in_use st' y \<longleftrightarrow> in_use st y \<or> y \<in> {x} - {SL_UNDEFINED}"
  using assms by (auto simp: use_sl_set in_use_use_sl)

lemma preassigned_vf_marks:
  assumes "sl_set st" "\<And>x. x \<in> configured_sls v \<Longrightarrow> unat x < 32"
    and "preassigned_vf rm v st ret = (v', st', ret')"
  shows "sl_set st' \<and> v' = drop_unused_sls v \<and> (\<forall>x. in_use st' x \<longleftrightarrow> in_use st x \<or> x \<in> configured_sls v)"
proof (cases "qos_enable v")
  case False
  then show ?thesis using assms by (auto simp: preassigned_vf_def drop_unused_sls_def configured_sls_def)
next
  case True
  define st1 where "st1 = (if base_sl v = SL_UNDEFINED then st else use_sl rm (base_sl v) False st)"
  define st2 where "st2 = (if resp_sl v = SL_UNDEFINED then st1 else use_sl rm (resp_sl v) False st1)"
  define st3 where "st3 = (if mcast_sl v = SL_UNDEFINED then st2 else use_sl rm (mcast_sl v) True st2)"
  have r: "x \<in> vf_sls v \<Longrightarrow> x \<noteq> SL_UNDEFINED \<Longrightarrow> unat x < 32" for x
    using assms(2) True by (auto simp: configured_sls_def)
  have v': "v' = v" "st' = st3"
    using assms(3) True by (auto simp: preassigned_vf_def st1_def st2_def st3_def Let_def split: if_splits)
  note m1 = in_use_mark[OF assms(1) r st1_def]
  note m2 = in_use_mark[OF m1(1) r st2_def]
  note m3 = in_use_mark[OF m2(1) r st3_def]
  show ?thesis
    using v' True m1(2) m2(2) m3 by (auto simp: vf_sls_def configured_sls_def drop_unused_sls_def)
qed

lemma handle_preassigned_marks:
  assumes "sl_set st" "\<And>v x. v \<in> set vs \<Longrightarrow> x \<in> configured_sls v \<Longrightarrow> unat x < 32"
    and "handle_preassigned_sl rm vs st ret = (vs', st', ret')"
  shows "sl_set st' \<and> vs' = map drop_unused_sls vs \<and>
    (\<forall>x. in_use st' x \<longleftrightarrow> in_use st x \<or> (\<exists>v\<in>set vs. x \<in> configured_sls v))"
  using assms
proof (induction vs arbitrary: st ret vs' st' ret')
  case (Cons v vs)
  obtain v1 st1 ret1 where 1: "preassigned_vf rm v st ret = (v1, st1, ret1)" by (cases "preassigned_vf rm v st ret")
  obtain vs2 st2 ret2 where 2: "handle_preassigned_sl rm vs st1 ret1 = (vs2, st2, ret2)"
    by (cases "handle_preassigned_sl rm vs st1 ret1")
  have m: "sl_set st1" "v1 = drop_unused_sls v" "\<forall>x. in_use st1 x \<longleftrightarrow> in_use st x \<or> x \<in> configured_sls v"
    using preassigned_vf_marks[OF Cons.prems(1) _ 1] Cons.prems(2) by auto
  have "sl_set st2 \<and> vs2 = map drop_unused_sls vs \<and>
    (\<forall>x. in_use st2 x \<longleftrightarrow> in_use st1 x \<or> (\<exists>v\<in>set vs. x \<in> configured_sls v))"
    using Cons.IH[OF m(1) _ 2] Cons.prems(2) by auto
  then show ?case using m 1 2 Cons.prems(3) by auto
qed auto

section \<open>Ownership\<close>

text \<open>
  Every SL in use has one owner: the configuration, the one fabric with QoS it was chosen for, or
  the fabrics without QoS together.
\<close>

datatype owner = Configured | Own nat | Shared

definition fits :: "(u8 \<Rightarrow> owner) \<Rightarrow> sl_use \<Rightarrow> nat \<Rightarrow> u8 set \<Rightarrow> bool \<Rightarrow> u8 \<Rightarrow> bool" where
  "fits own st i conf qos x \<longleftrightarrow> x = SL_UNDEFINED \<or>
     in_use st x \<and> (case own x of Configured \<Rightarrow> qos \<and> x \<in> conf | Own j \<Rightarrow> qos \<and> j = i | Shared \<Rightarrow> \<not> qos)"

definition fits_vf :: "(u8 \<Rightarrow> owner) \<Rightarrow> sl_use \<Rightarrow> nat \<Rightarrow> u8 set \<Rightarrow> VF_t \<Rightarrow> bool" where
  "fits_vf own st i conf v \<longleftrightarrow> (\<forall>x\<in>vf_sls v. fits own st i conf (qos_enable v) x)"

definition shared :: "(u8 \<Rightarrow> owner) \<Rightarrow> sl_use \<Rightarrow> int \<Rightarrow> bool" where
  "shared own st n \<longleftrightarrow> n = -1 \<or> (\<exists>x. n = int (unat x) \<and> in_use st x \<and> own x = Shared)"

definition extends :: "(u8 \<Rightarrow> owner) \<Rightarrow> sl_use \<Rightarrow> (u8 \<Rightarrow> owner) \<Rightarrow> sl_use \<Rightarrow> bool" where
  "extends own st own' st' \<longleftrightarrow> sl_set st' \<and> (\<forall>x. in_use st x \<longrightarrow> in_use st' x \<and> own' x = own x)"

lemma extends_refl: "sl_set st \<Longrightarrow> extends own st own st"
  by (simp add: extends_def)

lemma extends_trans: "extends o1 s1 o2 s2 \<Longrightarrow> extends o2 s2 o3 s3 \<Longrightarrow> extends o1 s1 o3 s3"
  by (auto simp: extends_def)

lemma fits_extends: "fits own st i c q x \<Longrightarrow> extends own st own' st' \<Longrightarrow> fits own' st' i c q x"
  by (auto simp: fits_def extends_def)

lemma fits_vf_extends: "fits_vf own st i c v \<Longrightarrow> extends own st own' st' \<Longrightarrow> fits_vf own' st' i c v"
  by (auto simp: fits_vf_def intro: fits_extends)

lemma shared_extends: "shared own st n \<Longrightarrow> extends own st own' st' \<Longrightarrow> shared own' st' n"
  by (auto simp: shared_def extends_def)

text \<open>What one choice of an SL guarantees.\<close>

definition chosen ::
  "(u8 \<Rightarrow> owner) \<Rightarrow> sl_use \<Rightarrow> (u8 \<Rightarrow> owner) \<Rightarrow> sl_use \<Rightarrow> nat \<Rightarrow> u8 set \<Rightarrow> bool \<Rightarrow> u8 \<Rightarrow> u8 \<Rightarrow> bool" where
  "chosen own st own' st' i c q sl sl' \<longleftrightarrow> extends own st own' st' \<and> fits own' st' i c q sl' \<and>
     (sl \<noteq> SL_UNDEFINED \<longrightarrow> sl' = sl) \<and> (\<forall>x. in_use st' x \<longrightarrow> in_use st x \<or> x = sl') \<and>
     (sl' = SL_UNDEFINED \<longrightarrow> (\<forall>x. unat x < 32 \<longrightarrow> in_use st' x))"

lemma search_zero_cases:
  assumes "sl_set st" "newsl = (if \<not> h then bitset_find_first_zero (usedSLs st) else bitset_find_last_zero (usedSLs st))"
  obtains (found) x where "newsl = int (unat x)" "unat x < 32" "\<not> in_use st x"
    | (full) "newsl = -1" "\<forall>x. unat x < 32 \<longrightarrow> in_use st x"
proof -
  have n: "bitset_wf (usedSLs st)" "nbits_m (usedSLs st) = 32" using assms(1) by (auto simp: sl_set_def)
  have "(\<exists>r. newsl = int r \<and> r < 32 \<and> \<not> bitset_test (usedSLs st) r) \<or>
    (newsl = -1 \<and> (\<forall>k<32. bitset_test (usedSLs st) k))"
    using find_first_zero_cases[OF n(1) sl_set_words[OF assms(1)]] find_last_zero_cases[OF n(1) sl_set_words[OF assms(1)]]
      assms(2) n(2) by (cases h) auto
  then show ?thesis
  proof (elim disjE exE conjE)
    fix r assume r: "newsl = int r" "r < 32" "\<not> bitset_test (usedSLs st) r"
    have "unat (of_nat r :: u8) = r" using r(2) by (simp add: unat_of_nat)
    then show ?thesis using found[of "of_nat r"] r by (simp add: in_use_def)
  next
    assume "newsl = -1" "\<forall>k<32. bitset_test (usedSLs st) k"
    then show ?thesis using full by (simp add: in_use_def)
  qed
qed

lemma small_neq_undefined: "unat (x :: u8) < 32 \<Longrightarrow> x \<noteq> 255" by auto

lemma word_of_int_unat_u8: "word_of_int (int (unat (x :: u8))) = x"
  by simp

lemma unat_u32_of_u8: "unat (word_of_int (int (unat (x :: u8))) :: u32) = unat x"
proof -
  have "unat (word_of_int (int n) :: u32) = n" if "n < 2 ^ 32" for n using that by (simp add: unat_of_nat)
  moreover have "unat x < 2 ^ 32" using unsigned_less[of x, where ?'a = nat] by simp
  ultimately show ?thesis by blast
qed

lemma shared_unused:
  assumes "sl_set st" "shared own st n" "n \<noteq> -1"
  shows "fits own st i c False (word_of_int n)" "word_of_int n \<noteq> SL_UNDEFINED"
  using assms in_use_range[OF assms(1)] small_neq_undefined by (auto simp: shared_def fits_def word_of_int_unat_u8)

lemma unassigned_chosen:
  assumes "sl_set st" "fits own st i c (qos_enable v) sl" "shared own st noqos"
    and "handle_unassigned_sl v sl st noqos h m n = (VSTATUS_OK, out)"
  shows "\<exists>own'. chosen own st own' (so_use out) i c (qos_enable v) sl (so_sl out) \<and> shared own' (so_use out) (so_noqos out)"
proof -
  define newsl where "newsl = (if \<not> h then bitset_find_first_zero (usedSLs st) else bitset_find_last_zero (usedSLs st))"
  consider (kept) "sl \<noteq> SL_UNDEFINED" | (old) "sl = SL_UNDEFINED" "\<not> qos_enable v" "noqos \<noteq> -1"
    | (new) "sl = SL_UNDEFINED" "qos_enable v \<or> noqos = -1" by blast
  then show ?thesis
  proof cases
    case kept
    then show ?thesis using assms by (intro exI[of _ own]) (auto simp: handle_unassigned_sl_def Let_def chosen_def extends_refl)
  next
    case old
    then have out: "out = \<lparr>so_sl = word_of_int noqos, so_use = st, so_noqos = noqos\<rparr>"
      using assms(4) by (simp add: handle_unassigned_sl_def Let_def)
    show ?thesis using old shared_unused[OF assms(1,3) old(3)] assms out
      by (intro exI[of _ own]) (auto simp: chosen_def extends_refl)
  next
    case new
    let ?st' = "\<lparr>usedSLs = snd (bitset_set (usedSLs st) (unat (word_of_int newsl :: u32))), numSCs = numSCs st + n\<rparr>"
    have out: "out = \<lparr>so_sl = word_of_int newsl, so_use = ?st', so_noqos = (if qos_enable v then noqos else newsl)\<rparr>"
      using new assms(4) by (auto simp: handle_unassigned_sl_def Let_def newsl_def split: if_splits)
    from assms(1) newsl_def show ?thesis
    proof (cases rule: search_zero_cases)
      case (found x)
      define own' where "own' = own(x := if qos_enable v then Own i else Shared)"
      have st': "?st' = \<lparr>usedSLs = snd (bitset_set (usedSLs st) (unat x)), numSCs = numSCs st + n\<rparr>"
        using found(1) unat_u32_of_u8[of x] by simp
      have use: "in_use ?st' y \<longleftrightarrow> in_use st y \<or> y = x" for y
        unfolding st' using in_use_put[OF assms(1) found(2)] .
      have ext: "extends own st own' ?st'"
        using use found(3) sl_set_put[OF assms(1)] by (auto simp: extends_def own'_def)
      have "chosen own st own' ?st' i c (qos_enable v) sl x"
        using ext use new(1) small_neq_undefined[OF found(2)] by (auto simp: chosen_def fits_def own'_def)
      moreover have "shared own' ?st' (if qos_enable v then noqos else newsl)"
        using shared_extends[OF assms(3) ext] found(1) use by (auto simp: shared_def own'_def)
      ultimately show ?thesis using out found(1) by auto
    next
      case full
      have "unat (word_of_int (-1) :: u32) = 2 ^ 32 - 1" by (simp add: unsigned_minus_1_eq_mask mask_eq_exp_minus_1)
      then have "usedSLs ?st' = usedSLs st"
        using full(1) assms(1) by (simp add: bitset_set_out sl_set_def)
      then have use: "in_use ?st' y \<longleftrightarrow> in_use st y" "sl_set ?st'" for y
        using assms(1) by (auto simp: in_use_def sl_set_def)
      have ext: "extends own st own ?st'" using use by (simp add: extends_def)
      have "chosen own st own ?st' i c (qos_enable v) sl SL_UNDEFINED"
        using ext use new(1) full(2) by (auto simp: chosen_def fits_def)
      moreover have "shared own ?st' (if qos_enable v then noqos else newsl)"
        using shared_extends[OF assms(3) ext] full(1) by (auto simp: shared_def)
      moreover have "so_sl out = SL_UNDEFINED" "so_use out = ?st'" "so_noqos out = (if qos_enable v then noqos else newsl)"
        using out full(1) by simp_all
      ultimately show ?thesis by metis
    qed
  qed
qed

text \<open>The three choices for one fabric.\<close>

definition noqos_ok :: "(u8 \<Rightarrow> owner) \<Rightarrow> assign_state \<Rightarrow> bool" where
  "noqos_ok own s \<longleftrightarrow> shared own (as_use s) (noqos_base s) \<and> shared own (as_use s) (noqos_resp s) \<and>
     shared own (as_use s) (noqos_mcast s)"

lemma in_use_numSCs [simp]: "in_use (st\<lparr>numSCs := k\<rparr>) = in_use st"
  by (simp add: in_use_def fun_eq_iff)

lemma sl_set_numSCs [simp]: "sl_set (st\<lparr>numSCs := k\<rparr>) = sl_set st"
  by (simp add: sl_set_def)

lemma chosen_numSCs [simp]: "chosen own st own' (st'\<lparr>numSCs := k\<rparr>) i c q sl sl' = chosen own st own' st' i c q sl sl'"
  by (simp add: chosen_def extends_def fits_def)

lemma shared_numSCs [simp]: "shared own (st\<lparr>numSCs := k\<rparr>) n = shared own st n"
  by (simp add: shared_def)

lemma chosen_same:
  assumes "sl_set st" "fits own st i c q sl'" "sl' = SL_UNDEFINED \<Longrightarrow> \<forall>x. unat x < 32 \<longrightarrow> in_use st x"
    "sl = SL_UNDEFINED \<or> sl' = sl"
  shows "chosen own st own st i c q sl sl'"
  using assms by (auto simp: chosen_def extends_refl)

lemma chosenD:
  assumes "chosen own st own' st' i c q sl sl'"
  shows "extends own st own' st'" "sl_set st'" "fits own' st' i c q sl'" "sl \<noteq> SL_UNDEFINED \<Longrightarrow> sl' = sl"
    "in_use st' x \<Longrightarrow> in_use st x \<or> x = sl'" "sl' = SL_UNDEFINED \<Longrightarrow> unat x < 32 \<Longrightarrow> in_use st' x"
  using assms by (auto simp: chosen_def extends_def)

lemma assign_base_chosen:
  assumes "sl_set (as_use s)" "noqos_ok own s" "fits own (as_use s) i c (qos_enable v) (base_sl v)"
    and "assign_base rm v s = (VSTATUS_OK, v', s')"
  shows "\<exists>own'. chosen own (as_use s) own' (as_use s') i c (qos_enable v) (base_sl v) (base_sl v') \<and> noqos_ok own' s' \<and>
    v' = v\<lparr>base_sl := base_sl v'\<rparr>"
proof -
  obtain ret out where o: "handle_unassigned_sl v (base_sl v) (as_use s) (noqos_base s) False MAX_SLS
      (num_routing_scs rm (unat (resp_sl v)) False) = (ret, out)" by fastforce
  have ret: "ret = VSTATUS_OK" "v' = v\<lparr>base_sl := so_sl out\<rparr>" "s' = s\<lparr>as_use := so_use out, noqos_base := so_noqos out\<rparr>"
    using assms(4) o by (auto simp: assign_base_def)
  obtain own' where c: "chosen own (as_use s) own' (so_use out) i c (qos_enable v) (base_sl v) (so_sl out)"
      "shared own' (so_use out) (so_noqos out)"
    using unassigned_chosen[OF assms(1,3) _ o[unfolded ret(1)]] assms(2) by (auto simp: noqos_ok_def)
  then show ?thesis
    using ret assms(2) shared_extends[OF _ chosenD(1)[OF c(1)]] by (intro exI[of _ own']) (auto simp: noqos_ok_def)
qed

lemma assign_resp_chosen:
  assumes "sl_set (as_use s)" "noqos_ok own s" "fits own (as_use s) i c (qos_enable v) (resp_sl v)"
    and base: "fits own (as_use s) i c (qos_enable v) (base_sl v)"
      "base_sl v = SL_UNDEFINED \<Longrightarrow> \<forall>x. unat x < 32 \<longrightarrow> in_use (as_use s) x"
    and "assign_resp rm v s = (VSTATUS_OK, v', s')"
  shows "\<exists>own'. chosen own (as_use s) own' (as_use s') i c (qos_enable v) (resp_sl v) (resp_sl v') \<and> noqos_ok own' s' \<and>
    v' = v\<lparr>resp_sl := resp_sl v'\<rparr>"
proof (cases "requires_resp_sl v")
  case True
  obtain ret out where o: "handle_unassigned_sl v (resp_sl v) (as_use s) (noqos_resp s) True (int STL_MAX_SL_COUNT)
      (num_routing_scs rm (unat (resp_sl v)) False) = (ret, out)" by fastforce
  have ret: "ret = VSTATUS_OK" "v' = v\<lparr>resp_sl := so_sl out\<rparr>" "s' = s\<lparr>as_use := so_use out, noqos_resp := so_noqos out\<rparr>"
    using assms(6) o True by (auto simp: assign_resp_def)
  obtain own' where c: "chosen own (as_use s) own' (so_use out) i c (qos_enable v) (resp_sl v) (so_sl out)"
      "shared own' (so_use out) (so_noqos out)"
    using unassigned_chosen[OF assms(1,3) _ o[unfolded ret(1)]] assms(2) by (auto simp: noqos_ok_def)
  then show ?thesis
    using ret assms(2) shared_extends[OF _ chosenD(1)[OF c(1)]] by (intro exI[of _ own']) (auto simp: noqos_ok_def)
next
  case False
  then have "s' = s" "v' = (if resp_sl v = SL_UNDEFINED then v\<lparr>resp_sl := base_sl v\<rparr> else v)"
    using assms(6) by (auto simp: assign_resp_def split: if_splits)
  moreover have "chosen own (as_use s) own (as_use s) i c (qos_enable v) (resp_sl v) (if resp_sl v = SL_UNDEFINED then base_sl v else resp_sl v)"
    using assms(1,3) base by (intro chosen_same) (auto split: if_splits)
  ultimately show ?thesis using assms(2) by (intro exI[of _ own]) auto
qed

lemma assign_mcast_chosen:
  assumes "sl_set (as_use s)" "noqos_ok own s" "fits own (as_use s) i c (qos_enable v) (mcast_sl v)"
    and base: "fits own (as_use s) i c (qos_enable v) (base_sl v)"
      "base_sl v = SL_UNDEFINED \<Longrightarrow> \<forall>x. unat x < 32 \<longrightarrow> in_use (as_use s) x"
    and "assign_mcast rm v s = (VSTATUS_OK, v', s')"
  shows "\<exists>own'. chosen own (as_use s) own' (as_use s') i c (qos_enable v) (mcast_sl v) (mcast_sl v') \<and> noqos_ok own' s' \<and>
    v' = v\<lparr>mcast_sl := mcast_sl v'\<rparr>"
proof (cases "contains_mcast v \<and> mcast_isolation_required rm")
  case True
  obtain ret out where o: "handle_unassigned_sl v (mcast_sl v) (as_use s) (noqos_mcast s) False MAX_SLS
      (num_routing_scs rm (unat (mcast_sl v)) True) = (ret, out)" by fastforce
  have ret: "ret = VSTATUS_OK" "v' = v\<lparr>mcast_sl := so_sl out\<rparr>"
      "s' = add_mcast_scs rm v' (s\<lparr>as_use := so_use out, noqos_mcast := so_noqos out\<rparr>)"
    using assms(6) o True by (auto simp: assign_mcast_def Let_def)
  obtain own' where c: "chosen own (as_use s) own' (so_use out) i c (qos_enable v) (mcast_sl v) (so_sl out)"
      "shared own' (so_use out) (so_noqos out)"
    using unassigned_chosen[OF assms(1,3) _ o[unfolded ret(1)]] assms(2) by (auto simp: noqos_ok_def)
  then show ?thesis
    using ret assms(2) shared_extends[OF _ chosenD(1)[OF c(1)]]
    by (intro exI[of _ own']) (auto simp: noqos_ok_def add_mcast_scs_def)
next
  case False
  then have "s' = s" "v' = (if mcast_sl v = SL_UNDEFINED then v\<lparr>mcast_sl := base_sl v\<rparr> else v)"
    using assms(6) by (auto simp: assign_mcast_def split: if_splits)
  moreover have "chosen own (as_use s) own (as_use s) i c (qos_enable v) (mcast_sl v) (if mcast_sl v = SL_UNDEFINED then base_sl v else mcast_sl v)"
    using assms(1,3) base by (intro chosen_same) (auto split: if_splits)
  ultimately show ?thesis using assms(2) by (intro exI[of _ own]) auto
qed

text \<open>One fabric, then all of them.\<close>

definition assigned ::
  "(u8 \<Rightarrow> owner) \<Rightarrow> sl_use \<Rightarrow> (u8 \<Rightarrow> owner) \<Rightarrow> sl_use \<Rightarrow> nat \<Rightarrow> u8 set \<Rightarrow> VF_t \<Rightarrow> VF_t \<Rightarrow> bool" where
  "assigned own st own' st' i c v v' \<longleftrightarrow> extends own st own' st' \<and> fits_vf own' st' i c v' \<and>
     qos_enable v' = qos_enable v \<and> configured_sls v \<subseteq> vf_sls v' \<and> name v' = name v \<and> standby v' = standby v \<and>
     (\<forall>x. in_use st' x \<longrightarrow> in_use st x \<or> x \<in> vf_sls v') \<and>
     (SL_UNDEFINED \<in> vf_sls v' \<longrightarrow> (\<forall>x. unat x < 32 \<longrightarrow> in_use st' x))"

lemma assign_vf_assigned:
  assumes "sl_set (as_use s)" "noqos_ok own s" "fits_vf own (as_use s) i c v"
    and "assign_vf rm v s = (VSTATUS_OK, v', s')"
  shows "\<exists>own'. assigned own (as_use s) own' (as_use s') i c v v' \<and> noqos_ok own' s'"
proof -
  obtain r1 v1 s1 where 1: "assign_base rm v s = (r1, v1, s1)" by (cases "assign_base rm v s")
  then have r1: "r1 = VSTATUS_OK" using assms(4) by (auto simp: assign_vf_def split: if_splits)
  obtain r2 v2 s2 where 2: "assign_resp rm v1 s1 = (r2, v2, s2)" by (cases "assign_resp rm v1 s1")
  then have r2: "r2 = VSTATUS_OK" using assms(4) 1 r1 by (auto simp: assign_vf_def split: if_splits)
  have 3: "assign_mcast rm v2 s2 = (VSTATUS_OK, v', s')" using assms(4) 1 2 r1 r2 by (simp add: assign_vf_def)
  have f: "fits own (as_use s) i c (qos_enable v) (base_sl v)" "fits own (as_use s) i c (qos_enable v) (resp_sl v)"
      "fits own (as_use s) i c (qos_enable v) (mcast_sl v)" using assms(3) by (auto simp: fits_vf_def vf_sls_def)
  obtain o1 where c1: "chosen own (as_use s) o1 (as_use s1) i c (qos_enable v) (base_sl v) (base_sl v1)"
      "noqos_ok o1 s1" and v1: "v1 = v\<lparr>base_sl := base_sl v1\<rparr>"
    using assign_base_chosen[OF assms(1,2) f(1) 1[unfolded r1]] by blast
  note d1 = chosenD[OF c1(1)]
  have v1e: "qos_enable v1 = qos_enable v" "resp_sl v1 = resp_sl v" "mcast_sl v1 = mcast_sl v" "name v1 = name v"
      "standby v1 = standby v" by (subst v1, simp)+
  obtain o2 where c2: "chosen o1 (as_use s1) o2 (as_use s2) i c (qos_enable v) (resp_sl v) (resp_sl v2)"
      "noqos_ok o2 s2" and v2: "v2 = v1\<lparr>resp_sl := resp_sl v2\<rparr>"
    using assign_resp_chosen[OF d1(2) c1(2) _ _ _ 2[unfolded r2], of i c] fits_extends[OF f(2) d1(1)] d1(3,6)
    unfolding v1e by blast
  note d2 = chosenD[OF c2(1)]
  have v2e: "qos_enable v2 = qos_enable v" "base_sl v2 = base_sl v1" "mcast_sl v2 = mcast_sl v" "name v2 = name v"
      "standby v2 = standby v" by (subst v2, simp add: v1e)+
  have full: "\<forall>x. unat x < 32 \<longrightarrow> in_use (as_use s2) x" if "base_sl v1 = SL_UNDEFINED"
    using d1(6)[OF that] d2(1) by (auto simp: extends_def)
  obtain o3 where c3: "chosen o2 (as_use s2) o3 (as_use s') i c (qos_enable v) (mcast_sl v) (mcast_sl v')"
      "noqos_ok o3 s'" and v3: "v' = v2\<lparr>mcast_sl := mcast_sl v'\<rparr>"
    using assign_mcast_chosen[OF d2(2) c2(2) _ _ _ 3, of i c] fits_extends[OF fits_extends[OF f(3) d1(1)] d2(1)]
      fits_extends[OF d1(3) d2(1)] full unfolding v2e by blast
  note d3 = chosenD[OF c3(1)]
  have v3e: "qos_enable v' = qos_enable v" "base_sl v' = base_sl v1" "resp_sl v' = resp_sl v2" "name v' = name v"
      "standby v' = standby v" by (subst v3, simp add: v2e)+
  have "assigned own (as_use s) o3 (as_use s') i c v v'"
    unfolding assigned_def
  proof (intro conjI)
    show "extends own (as_use s) o3 (as_use s')" using d1(1) d2(1) d3(1) extends_trans by blast
    show "fits_vf o3 (as_use s') i c v'"
      using fits_extends[OF fits_extends[OF d1(3) d2(1)] d3(1)] fits_extends[OF d2(3) d3(1)] d3(3)
      by (simp add: fits_vf_def vf_sls_def v3e)
    show "configured_sls v \<subseteq> vf_sls v'"
      using d1(4) d2(4) d3(4)
      by (cases "base_sl v = SL_UNDEFINED"; cases "resp_sl v = SL_UNDEFINED"; cases "mcast_sl v = SL_UNDEFINED")
         (auto simp: configured_sls_def vf_sls_def v3e)
    show "\<forall>x. in_use (as_use s') x \<longrightarrow> in_use (as_use s) x \<or> x \<in> vf_sls v'"
      using d1(5) d2(5) d3(5) by (auto simp: vf_sls_def v3e)
    show "SL_UNDEFINED \<in> vf_sls v' \<longrightarrow> (\<forall>x. unat x < 32 \<longrightarrow> in_use (as_use s') x)"
      using full d2(6) d3(1,6) by (auto simp: vf_sls_def v3e extends_def)
  qed (simp_all add: v3e)
  then show ?thesis using c3(2) by blast
qed

lemma assign_loop_assigned:
  assumes "sl_set (as_use s)" "noqos_ok own s" "\<And>j. j < length vs \<Longrightarrow> fits_vf own (as_use s) (i + j) (configured_sls (vs ! j)) (vs ! j)"
    and "assign_loop rm vs s = (VSTATUS_OK, vs', s')"
  shows "\<exists>own'. extends own (as_use s) own' (as_use s') \<and> length vs' = length vs \<and>
    (\<forall>j<length vs. fits_vf own' (as_use s') (i + j) (configured_sls (vs ! j)) (vs' ! j) \<and>
       qos_enable (vs' ! j) = qos_enable (vs ! j) \<and> configured_sls (vs ! j) \<subseteq> vf_sls (vs' ! j) \<and>
       name (vs' ! j) = name (vs ! j) \<and> standby (vs' ! j) = standby (vs ! j) \<and>
       (SL_UNDEFINED \<in> vf_sls (vs' ! j) \<longrightarrow> (\<forall>x. unat x < 32 \<longrightarrow> in_use (as_use s') x))) \<and>
    (\<forall>x. in_use (as_use s') x \<longrightarrow> in_use (as_use s) x \<or> (\<exists>j<length vs. x \<in> vf_sls (vs' ! j)))"
  using assms
proof (induction vs arbitrary: s own i vs' s')
  case Nil
  then show ?case by (intro exI[of _ own]) (auto simp: extends_refl)
next
  case (Cons v vs)
  obtain r1 v1 s1 where 1: "assign_vf rm v s = (r1, v1, s1)" by (cases "assign_vf rm v s")
  then have r1: "r1 = VSTATUS_OK" using Cons.prems(4) by (auto split: if_splits)
  obtain r2 vs2 s2 where 2: "assign_loop rm vs s1 = (r2, vs2, s2)" by (cases "assign_loop rm vs s1")
  then have r2: "r2 = VSTATUS_OK" "vs' = v1 # vs2" "s' = s2" using Cons.prems(4) 1 r1 by auto
  obtain o1 where a: "assigned own (as_use s) o1 (as_use s1) i (configured_sls v) v v1" "noqos_ok o1 s1"
    using assign_vf_assigned[OF Cons.prems(1,2) _ 1[unfolded r1], of i "configured_sls v"] Cons.prems(3)[of 0] by auto
  have e1: "extends own (as_use s) o1 (as_use s1)" "sl_set (as_use s1)" using a(1) by (auto simp: assigned_def extends_def)
  have f: "fits_vf o1 (as_use s1) (Suc i + j) (configured_sls (vs ! j)) (vs ! j)" if "j < length vs" for j
    using fits_vf_extends[OF _ e1(1), of "Suc i + j"] Cons.prems(3)[of "Suc j"] that by simp
  obtain o2 where e2: "extends o1 (as_use s1) o2 (as_use s2)" "length vs2 = length vs"
    and all: "\<And>j. j < length vs \<Longrightarrow> fits_vf o2 (as_use s2) (Suc i + j) (configured_sls (vs ! j)) (vs2 ! j) \<and>
       qos_enable (vs2 ! j) = qos_enable (vs ! j) \<and> configured_sls (vs ! j) \<subseteq> vf_sls (vs2 ! j) \<and>
       name (vs2 ! j) = name (vs ! j) \<and> standby (vs2 ! j) = standby (vs ! j) \<and>
       (SL_UNDEFINED \<in> vf_sls (vs2 ! j) \<longrightarrow> (\<forall>x. unat x < 32 \<longrightarrow> in_use (as_use s2) x))"
    and new: "\<And>x. in_use (as_use s2) x \<Longrightarrow> in_use (as_use s1) x \<or> (\<exists>j<length vs. x \<in> vf_sls (vs2 ! j))"
    using Cons.IH[OF e1(2) a(2) f 2[unfolded r2(1)]] by blast
  have first: "fits_vf o2 (as_use s2) i (configured_sls v) v1" "qos_enable v1 = qos_enable v" "configured_sls v \<subseteq> vf_sls v1"
      "name v1 = name v" "standby v1 = standby v"
      "SL_UNDEFINED \<in> vf_sls v1 \<Longrightarrow> \<forall>x. unat x < 32 \<longrightarrow> in_use (as_use s2) x"
    using a(1) fits_vf_extends[OF _ e2(1)] e2(1) by (auto simp: assigned_def extends_def)
  show ?case
  proof (intro exI[of _ o2] conjI allI impI)
    fix j assume j: "j < length (v # vs)"
    show "fits_vf o2 (as_use s') (i + j) (configured_sls ((v # vs) ! j)) (vs' ! j)"
      using first(1) all[of "j - 1"] j r2 by (cases j) auto
    show "qos_enable (vs' ! j) = qos_enable ((v # vs) ! j)" using first(2) all[of "j - 1"] j r2 by (cases j) auto
    show "configured_sls ((v # vs) ! j) \<subseteq> vf_sls (vs' ! j)" using first(3) all[of "j - 1"] j r2 by (cases j) auto
    show "name (vs' ! j) = name ((v # vs) ! j)" using first(4) all[of "j - 1"] j r2 by (cases j) auto
    show "standby (vs' ! j) = standby ((v # vs) ! j)" using first(5) all[of "j - 1"] j r2 by (cases j) auto
    show "in_use (as_use s') x" if "SL_UNDEFINED \<in> vf_sls (vs' ! j)" "unat x < 32" for x
      using first(6) all[of "j - 1"] j r2 that by (cases j) auto
  next
    fix x assume "in_use (as_use s') x"
    then consider "in_use (as_use s) x" | "x \<in> vf_sls v1" | j where "j < length vs" "x \<in> vf_sls (vs2 ! j)"
      using new[of x] a(1) r2 by (auto simp: assigned_def)
    then show "in_use (as_use s) x \<or> (\<exists>j<length (v # vs). x \<in> vf_sls (vs' ! j))"
    proof cases
      case 2
      then have "0 < length (v # vs) \<and> x \<in> vf_sls (vs' ! 0)" using r2 by simp
      then show ?thesis by blast
    next
      case 3
      then have "Suc j < length (v # vs) \<and> x \<in> vf_sls (vs' ! Suc j)" using r2 by simp
      then show ?thesis by blast
    qed simp
  qed (use extends_trans[OF e1(1) e2(1)] e2(2) r2 in auto)
qed

lemma fold_publish_all [simp]: "v_fabric_all (fold publish_sls vs w) = v_fabric_all w"
proof (induction vs arbitrary: w)
  case (Cons v vs)
  have "v_fabric_all (publish_sls v w) = v_fabric_all w" by (simp add: publish_sls_def split: option.splits)
  with Cons show ?case by simp
qed simp

lemma assign_sls_parts:
  assumes ok: "sm_routing_func_assign_sls alloc rm (Some vfs) = (VSTATUS_OK, Some vfs')"
    and ne: "v_fabric vfs \<noteq> []" "v_fabric_all vfs \<noteq> []"
  obtains use s' where
    "handle_preassigned_sl rm (v_fabric_all vfs) \<lparr>usedSLs = snd (bitset_init alloc (Some 0) 32), numSCs = 0\<rparr> VSTATUS_OK =
       (fst (handle_preassigned_sl rm (v_fabric_all vfs) \<lparr>usedSLs = snd (bitset_init alloc (Some 0) 32), numSCs = 0\<rparr> VSTATUS_OK), use, VSTATUS_OK)"
    "assign_loop rm (fst (handle_preassigned_sl rm (v_fabric_all vfs) \<lparr>usedSLs = snd (bitset_init alloc (Some 0) 32), numSCs = 0\<rparr> VSTATUS_OK))
       \<lparr>as_use = use, noqos_base = -1, noqos_resp = -1, noqos_mcast = -1\<rparr> = (VSTATUS_OK, v_fabric_all vfs', s')"
    "vfs' = fold publish_sls (v_fabric_all vfs') (vfs\<lparr>v_fabric_all := v_fabric_all vfs'\<rparr>)"
proof -
  let ?h = "handle_preassigned_sl rm (v_fabric_all vfs) \<lparr>usedSLs = snd (bitset_init alloc (Some 0) 32), numSCs = 0\<rparr> VSTATUS_OK"
  obtain pre use ret where h: "?h = (pre, use, ret)" by (cases ?h)
  obtain ret' all' s' where l: "assign_loop rm pre \<lparr>as_use = use, noqos_base = -1, noqos_resp = -1, noqos_mcast = -1\<rparr> = (ret', all', s')"
    by (cases "assign_loop rm pre \<lparr>as_use = use, noqos_base = -1, noqos_resp = -1, noqos_mcast = -1\<rparr>")
  have r: "ret = VSTATUS_OK" "ret' = VSTATUS_OK" "vfs' = fold publish_sls all' (vfs\<lparr>v_fabric_all := all'\<rparr>)"
    using ok ne h l by (auto simp: sm_routing_func_assign_sls_def Let_def split: if_splits)
  then have "v_fabric_all vfs' = all'" by simp
  then show ?thesis using that[of use s'] h l r by simp
qed

lemma configured_drop_unused [simp]: "configured_sls (drop_unused_sls v) = configured_sls v"
  by (simp add: configured_sls_def drop_unused_sls_def vf_sls_def)

lemma qos_drop_unused [simp]: "qos_enable (drop_unused_sls v) = qos_enable v"
  by (simp add: drop_unused_sls_def)

lemma fits_vfD: "fits_vf own st i c v \<Longrightarrow> x \<in> vf_sls v \<Longrightarrow> fits own st i c (qos_enable v) x"
  by (simp add: fits_vf_def)

lemma fits_configured:
  assumes "\<And>x. x \<in> configured_sls v \<Longrightarrow> in_use st x"
  shows "fits_vf (\<lambda>_. Configured) st i (configured_sls (drop_unused_sls v)) (drop_unused_sls v)"
  using assms by (auto simp: fits_vf_def fits_def configured_sls_def drop_unused_sls_def vf_sls_def)

section \<open>Examples\<close>

definition example_vf :: "string \<Rightarrow> bool \<Rightarrow> u8 \<Rightarrow> VF_t" where
  "example_vf n q b = \<lparr>name = n, standby = False, qos_enable = q, base_sl = b, requires_resp_sl = False,
     resp_sl = SL_UNDEFINED, contains_mcast = False, mcast_sl = SL_UNDEFINED, percent_bandwidth = 0xff, priority = False\<rparr>"

definition example_rm :: RoutingModule_t where
  "example_rm = \<lparr>num_routing_scs = (\<lambda>sl mc. 1), mcast_isolation_required = False, min_vls = 8, max_vls = 8\<rparr>"

definition example_vfs :: VirtualFabrics_t where
  "example_vfs = (let l = [example_vf ''A'' True 0, example_vf ''B'' True SL_UNDEFINED, example_vf ''C'' False 0,
     example_vf ''D'' False SL_UNDEFINED] in \<lparr>v_fabric = l, v_fabric_all = l\<rparr>)"

lemma example_assign:
  "\<exists>vfs'. sm_routing_func_assign_sls (\<lambda>_. True) example_rm (Some example_vfs) = (VSTATUS_OK, Some vfs') \<and>
     map base_sl (v_fabric_all vfs') = [0, 1, 2, 2]"
proof -
  have "case sm_routing_func_assign_sls (\<lambda>_. True) example_rm (Some example_vfs) of
     (r, Some vfs') \<Rightarrow> r = VSTATUS_OK \<and> map base_sl (v_fabric_all vfs') = [0, 1, 2, 2] | _ \<Rightarrow> False"
    by code_simp
  then show ?thesis by (auto split: prod.splits option.splits)
qed

lemma example_configured: "\<forall>v\<in>set (v_fabric_all example_vfs). \<forall>x\<in>configured_sls v. unat x < 32"
  by (auto simp: example_vfs_def example_vf_def configured_sls_def vf_sls_def Let_def)

lemma assign_sls_sharing:
  assumes "sm_routing_func_assign_sls alloc rm (Some vfs) = (VSTATUS_OK, Some vfs')" and "alloc 4"
    and "v_fabric vfs \<noteq> []"
    and "\<forall>v\<in>set (v_fabric_all vfs). \<forall>x\<in>configured_sls v. unat x < 32"
    and "i < length (v_fabric_all vfs)"
  defines "v \<equiv> v_fabric_all vfs ! i" and "v' \<equiv> v_fabric_all vfs' ! i"
  shows "configured_sls v \<subseteq> vf_sls v' \<and> qos_enable v' = qos_enable v \<and>
    (\<forall>j x. j < length (v_fabric_all vfs) \<and> j \<noteq> i \<and> x \<noteq> SL_UNDEFINED \<and> x \<in> vf_sls v' \<and> x \<in> vf_sls (v_fabric_all vfs' ! j) \<longrightarrow>
       (\<not> qos_enable v \<and> \<not> qos_enable (v_fabric_all vfs ! j)) \<or>
       (x \<in> configured_sls v \<and> x \<in> configured_sls (v_fabric_all vfs ! j))) \<and>
    (SL_UNDEFINED \<in> vf_sls v' \<longrightarrow> (\<forall>x. unat x < 32 \<longrightarrow> (\<exists>w\<in>set (v_fabric_all vfs'). x \<in> vf_sls w)))"
proof -
  let ?u0 = "\<lparr>usedSLs = snd (bitset_init alloc (Some 0) 32), numSCs = 0\<rparr>"
  let ?all = "v_fabric_all vfs" and ?all' = "v_fabric_all vfs'"
  let ?s0 = "\<lambda>use. \<lparr>as_use = use, noqos_base = -1, noqos_resp = -1, noqos_mcast = -1\<rparr>"
  have ne: "?all \<noteq> []" using assms(5) by auto
  obtain use s' where p: "handle_preassigned_sl rm ?all ?u0 VSTATUS_OK =
        (fst (handle_preassigned_sl rm ?all ?u0 VSTATUS_OK), use, VSTATUS_OK)"
    and l: "assign_loop rm (fst (handle_preassigned_sl rm ?all ?u0 VSTATUS_OK)) (?s0 use) = (VSTATUS_OK, ?all', s')"
    using assign_sls_parts[OF assms(1,3) ne] by blast
  have s0: "sl_set ?u0" using assms(2) by (simp add: sl_set_init)
  have m: "sl_set use" "fst (handle_preassigned_sl rm ?all ?u0 VSTATUS_OK) = map drop_unused_sls ?all"
      "\<And>x. in_use use x \<longleftrightarrow> in_use ?u0 x \<or> (\<exists>v\<in>set ?all. x \<in> configured_sls v)"
    using handle_preassigned_marks[OF s0 _ p] assms(4) by blast+
  have u0: "\<not> in_use ?u0 x" for x
    using assms(2) bitset_init_def[of alloc "Some 0" 32] in_use_range[OF s0, of x]
    by (auto simp: in_use_def bitset_test_def words_for_def)
  have base: "fits_vf (\<lambda>_. Configured) (as_use (?s0 use)) (0 + j) (configured_sls (map drop_unused_sls ?all ! j)) (map drop_unused_sls ?all ! j)"
    if "j < length (map drop_unused_sls ?all)" for j
  proof -
    have "in_use use x" if "x \<in> configured_sls (?all ! j)" for x
      using m(3) that \<open>j < length (map drop_unused_sls ?all)\<close> nth_mem by auto
    then show ?thesis using that fits_configured[of "?all ! j" use j] by simp
  qed
  have start: "sl_set (as_use (?s0 use))" "noqos_ok (\<lambda>_. Configured) (?s0 use)"
    using m(1) by (simp_all add: noqos_ok_def shared_def)
  obtain own' where len: "length ?all' = length ?all"
    and all: "\<And>j. j < length ?all \<Longrightarrow> fits_vf own' (as_use s') j (configured_sls (?all ! j)) (?all' ! j) \<and>
       qos_enable (?all' ! j) = qos_enable (?all ! j) \<and> configured_sls (?all ! j) \<subseteq> vf_sls (?all' ! j) \<and>
       (SL_UNDEFINED \<in> vf_sls (?all' ! j) \<longrightarrow> (\<forall>x. unat x < 32 \<longrightarrow> in_use (as_use s') x))"
    and new: "\<And>x. in_use (as_use s') x \<Longrightarrow> in_use use x \<or> (\<exists>j<length ?all. x \<in> vf_sls (?all' ! j))"
    using assign_loop_assigned[OF start base l[unfolded m(2)]] by (simp add: ex_simps) blast
  have share: "(\<not> qos_enable v \<and> \<not> qos_enable (?all ! j)) \<or> (x \<in> configured_sls v \<and> x \<in> configured_sls (?all ! j))"
    if "j < length ?all" "j \<noteq> i" "x \<noteq> SL_UNDEFINED" "x \<in> vf_sls v'" "x \<in> vf_sls (?all' ! j)" for j x
  proof -
    have f: "fits_vf own' (as_use s') k (configured_sls (?all ! k)) (?all' ! k)" "qos_enable (?all' ! k) = qos_enable (?all ! k)"
      if "k < length ?all" for k using all[OF that] by simp_all
    have "fits own' (as_use s') j (configured_sls (?all ! j)) (qos_enable (?all ! j)) x"
      using fits_vfD[OF f(1)[OF that(1)] that(5)] f(2)[OF that(1)] by simp
    moreover have "fits own' (as_use s') i (configured_sls v) (qos_enable v) x"
      using fits_vfD[OF f(1)[OF assms(5)], of x] that(4) f(2)[OF assms(5)] by (simp add: v_def v'_def)
    ultimately show ?thesis using that(2,3) by (cases "own' x") (auto simp: fits_def)
  qed
  have full: "\<exists>w\<in>set ?all'. x \<in> vf_sls w" if u: "SL_UNDEFINED \<in> vf_sls v'" "unat x < 32" for x
  proof -
    have "in_use use x \<or> (\<exists>j<length ?all. x \<in> vf_sls (?all' ! j))"
      using new all[OF assms(5)] u unfolding v'_def by blast
    moreover have "\<exists>j<length ?all. x \<in> vf_sls (?all' ! j)" if inu: "in_use use x"
    proof -
      obtain w where "w \<in> set ?all" "x \<in> configured_sls w" using m(3)[of x] u0 inu by blast
      moreover then obtain k where "k < length ?all" "w = ?all ! k" by (metis in_set_conv_nth)
      ultimately show ?thesis using all[of k] by blast
    qed
    ultimately obtain j where "j < length ?all" "x \<in> vf_sls (?all' ! j)" by blast
    then show ?thesis using len nth_mem by metis
  qed
  show ?thesis using all[OF assms(5)] share full unfolding v_def v'_def by blast
qed

section \<open>Properties\<close>

text \<open>
  C35. When the assignment succeeds, a fabric keeps the SLs it is configured with, and two fabrics
  share an SL only if neither has QoS, or if the configuration gives it to both: an SL chosen for a
  fabric with QoS is its own. An SL stays undefined only when all 32 are taken.
\<close>

theorem sl_sharing:
  assumes "sm_routing_func_assign_sls alloc rm (Some vfs) = (VSTATUS_OK, Some vfs')" and "alloc 4"
    and "v_fabric vfs \<noteq> []"
    and "\<forall>v\<in>set (v_fabric_all vfs). \<forall>x\<in>configured_sls v. unat x < 32"
    and "i < length (v_fabric_all vfs)"
  defines "v \<equiv> v_fabric_all vfs ! i" and "v' \<equiv> v_fabric_all vfs' ! i"
  shows "configured_sls v \<subseteq> vf_sls v' \<and> qos_enable v' = qos_enable v \<and>
    (\<forall>j x. j < length (v_fabric_all vfs) \<and> j \<noteq> i \<and> x \<noteq> SL_UNDEFINED \<and> x \<in> vf_sls v' \<and> x \<in> vf_sls (v_fabric_all vfs' ! j) \<longrightarrow>
       (\<not> qos_enable v \<and> \<not> qos_enable (v_fabric_all vfs ! j)) \<or>
       (x \<in> configured_sls v \<and> x \<in> configured_sls (v_fabric_all vfs ! j))) \<and>
    (SL_UNDEFINED \<in> vf_sls v' \<longrightarrow> (\<forall>x. unat x < 32 \<longrightarrow> (\<exists>w\<in>set (v_fabric_all vfs'). x \<in> vf_sls w)))"
  unfolding v_def v'_def by (rule assign_sls_sharing[OF assms(1-5)])

theorem sl_sharing_witness:
  "\<exists>vfs'. sm_routing_func_assign_sls (\<lambda>_. True) example_rm (Some example_vfs) = (VSTATUS_OK, Some vfs') \<and>
     base_sl (v_fabric_all vfs' ! 1) = 1 \<and> (\<forall>x\<in>vf_sls (v_fabric_all vfs' ! 1). x = SL_UNDEFINED \<or> x \<notin> vf_sls (v_fabric_all vfs' ! 2))"
proof -
  obtain vfs' where a: "sm_routing_func_assign_sls (\<lambda>_. True) example_rm (Some example_vfs) = (VSTATUS_OK, Some vfs')"
      "map base_sl (v_fabric_all vfs') = [0, 1, 2, 2]" using example_assign by (elim exE conjE)
  have e: "length (v_fabric_all example_vfs) = 4" "v_fabric example_vfs \<noteq> []" "qos_enable (v_fabric_all example_vfs ! 1)"
      "configured_sls (v_fabric_all example_vfs ! 1) = {}"
    by (simp_all add: example_vfs_def example_vf_def configured_sls_def vf_sls_def Let_def)
  have "length (v_fabric_all vfs') = 4" using arg_cong[OF a(2), of length] by simp
  then have "base_sl (v_fabric_all vfs' ! 1) = map base_sl (v_fabric_all vfs') ! 1" by simp
  then have "base_sl (v_fabric_all vfs' ! 1) = 1" using a(2) by simp
  moreover have "x = SL_UNDEFINED \<or> x \<notin> vf_sls (v_fabric_all vfs' ! 2)" if "x \<in> vf_sls (v_fabric_all vfs' ! 1)" for x
  proof -
    have "1 < length (v_fabric_all example_vfs)" "2 < length (v_fabric_all example_vfs)" "(2 :: nat) \<noteq> 1" using e(1) by simp_all
    then show ?thesis using sl_sharing[OF a(1) TrueI e(2) example_configured, of 1] that e(3,4) by blast
  qed
  ultimately show ?thesis using a(1) by blast
qed

text \<open>
  With all 32 SLs taken, the search for a high SL reports an error, but the search for a low SL
  returns OK with the undefined SL \<open>0xff\<close>: the result \<open>-1\<close> of the search is below the limit.
\<close>

theorem unassigned_sl_exhausted:
  assumes "bitset_wf (usedSLs st)" and "nbits_m (usedSLs st) = 32" and "\<forall>k<32. bitset_test (usedSLs st) k"
    and "qos_enable v"
  shows "(\<exists>out. handle_unassigned_sl v SL_UNDEFINED st noqos False MAX_SLS n = (VSTATUS_OK, out) \<and> so_sl out = SL_UNDEFINED) \<and>
    (\<exists>out. handle_unassigned_sl v SL_UNDEFINED st noqos True 32 n = (VSTATUS_BAD, out))"
proof -
  have s: "sl_set st" using assms(1,2) by (simp add: sl_set_def)
  have "bitset_find_first_zero (usedSLs st) = -1" "bitset_find_last_zero (usedSLs st) = -1"
    using find_first_zero_cases[OF assms(1) sl_set_words[OF s]] find_last_zero_cases[OF assms(1) sl_set_words[OF s]] assms(2,3)
    by auto
  then show ?thesis using assms(4) by (simp add: handle_unassigned_sl_def Let_def)
qed

theorem unassigned_sl_exhausted_witness:
  "\<exists>st out. bitset_wf (usedSLs st) \<and> (\<forall>k<32. bitset_test (usedSLs st) k) \<and>
     handle_unassigned_sl (example_vf ''E'' True SL_UNDEFINED) SL_UNDEFINED st (-1) False MAX_SLS 1 = (VSTATUS_OK, out) \<and>
     so_sl out = SL_UNDEFINED"
proof -
  define b where "b = bitset_set_all (snd (bitset_init (\<lambda>_. True) None 32))"
  have i: "bitset_wf (snd (bitset_init (\<lambda>_. True) None 32))" by (rule bitset_init_wf) (simp_all add: bitset_init_def)
  have w: "bitset_wf b" "nbits_m b = 32" "\<forall>k<32. bitset_test b k"
    unfolding b_def using bitset_set_all_wf[OF i] bitset_set_all_abs[OF i]
    by (simp_all add: bitset_test_abs) (simp_all add: bitset_set_all_def bitset_init_def)
  let ?st = "\<lparr>usedSLs = b, numSCs = 0\<rparr>"
  have "bitset_wf (usedSLs ?st)" "nbits_m (usedSLs ?st) = 32" "\<forall>k<32. bitset_test (usedSLs ?st) k"
    "qos_enable (example_vf ''E'' True SL_UNDEFINED)" using w by (simp_all add: example_vf_def)
  from unassigned_sl_exhausted[OF this] this show ?thesis by blast
qed

end
