(* ===== verification/SmQosBw.thy ===== *)
theory SmQosBw
  imports SmQosSl
begin

text \<open>
  The distribution of bandwidth to virtual fabrics (\<^verbatim>\<open>sm_update_bw\<close> of \<^verbatim>\<open>sm_qos.c\<close>). Fabrics
  with QoS and low priority have a configured percentage or an equal part of what is left; all
  fabrics without QoS share one part of at least 5\%; high-priority fabrics take no part. The C
  \<open>int\<close> variables are integers, the percentages 8-bit words.
\<close>

section \<open>Model\<close>

abbreviation (input) BW_UNDEFINED :: u8 where "BW_UNDEFINED \<equiv> 0xff"

record bw_tally =
  bwInUse :: int
  nonQosVfs :: int
  qosNoBwVfs :: int

definition tally_vf :: "VF_t \<Rightarrow> bw_tally \<Rightarrow> bw_tally" where
  "tally_vf vfp t =
     (if qos_enable vfp
      then if \<not> priority vfp
           then if percent_bandwidth vfp = BW_UNDEFINED then t\<lparr>qosNoBwVfs := qosNoBwVfs t + 1\<rparr>
                else t\<lparr>bwInUse := bwInUse t + int (unat (percent_bandwidth vfp))\<rparr>
           else t
      else t\<lparr>nonQosVfs := nonQosVfs t + 1\<rparr>)"

text \<open>The shares: of each fabric that asks for none, of those without QoS, and what is left for the former.\<close>

definition bw_shares :: "int \<Rightarrow> int \<Rightarrow> int \<Rightarrow> int \<times> int \<times> int" where
  "bw_shares freeBw nonQos qosNoBw =
     (if nonQos \<noteq> 0 \<or> qosNoBw \<noteq> 0
      then if nonQos = 0 then (freeBw div qosNoBw, 0, freeBw)
           else let shareSz = freeBw div (qosNoBw + 1); nonQosShareSz = freeBw - shareSz * qosNoBw
                in if nonQosShareSz < 5
                   then ((freeBw - 5) div (if qosNoBw \<noteq> 0 then qosNoBw else 1), 5, freeBw - 5)
                   else (shareSz, nonQosShareSz, freeBw - nonQosShareSz)
      else (0, 0, freeBw))"

text \<open>The loop that hands out the shares; it returns the last value of \<open>shareSz\<close> too.\<close>

fun assign_bw :: "int \<Rightarrow> VF_t list \<Rightarrow> int \<Rightarrow> int \<Rightarrow> int \<Rightarrow> VF_t list \<times> int" where
  "assign_bw nonQosShareSz [] shareSz freeBw qosNoBw = ([], shareSz)"
| "assign_bw nonQosShareSz (vfp # vfs) shareSz freeBw qosNoBw =
     (if qos_enable vfp
      then if priority vfp \<or> percent_bandwidth vfp \<noteq> BW_UNDEFINED
           then (case assign_bw nonQosShareSz vfs shareSz freeBw qosNoBw of (vs, sh) \<Rightarrow> (vfp # vs, sh))
           else let freeBw' = freeBw - shareSz; qosNoBw' = qosNoBw - 1;
                    shareSz' = (if qosNoBw' \<noteq> 0 then freeBw' div qosNoBw' else 0)
                in (case assign_bw nonQosShareSz vfs shareSz' freeBw' qosNoBw' of
                      (vs, sh) \<Rightarrow> (vfp\<lparr>percent_bandwidth := word_of_int shareSz\<rparr> # vs, sh))
      else (case assign_bw nonQosShareSz vfs shareSz freeBw qosNoBw of
              (vs, sh) \<Rightarrow> (vfp\<lparr>percent_bandwidth := word_of_int nonQosShareSz\<rparr> # vs, sh)))"

text \<open>The last loop: a share for a fabric still without one, and the update of the active list by name.\<close>

definition report_bw :: "int \<Rightarrow> nat \<Rightarrow> VirtualFabrics_t \<Rightarrow> VirtualFabrics_t" where
  "report_bw shareSz vf vfs =
     (let v = v_fabric vfs ! vf;
          v' = (if qos_enable v \<and> \<not> priority v \<and> percent_bandwidth v = BW_UNDEFINED
                then v\<lparr>percent_bandwidth := word_of_int shareSz\<rparr> else v);
          vfs1 = vfs\<lparr>v_fabric := (v_fabric vfs)[vf := v']\<rparr>
      in case findVfIdxInActiveList v' vfs1 of
           None \<Rightarrow> vfs1
         | Some i \<Rightarrow> vfs1\<lparr>v_fabric := (v_fabric vfs1)[i := (v_fabric vfs1 ! i)\<lparr>percent_bandwidth := percent_bandwidth v'\<rparr>]\<rparr>)"

definition sm_update_bw :: "VirtualFabrics_t option \<Rightarrow> Status_t \<times> VirtualFabrics_t option" where
  "sm_update_bw vfsp =
     (case vfsp of
        None \<Rightarrow> (VSTATUS_OK, None)
      | Some vfs \<Rightarrow>
          if v_fabric_all vfs = [] then (VSTATUS_OK, Some vfs)
          else let t = fold tally_vf (v_fabric vfs) \<lparr>bwInUse = 0, nonQosVfs = 0, qosNoBwVfs = 0\<rparr>;
                   freeBw = 100 - bwInUse t;
                   neededFreeBw = (if nonQosVfs t \<noteq> 0 then 5 else 0) + qosNoBwVfs t
               in if freeBw < neededFreeBw then (VSTATUS_BAD, Some vfs)
                  else case bw_shares freeBw (nonQosVfs t) (qosNoBwVfs t) of (shareSz, nonQosShareSz, freeBw') \<Rightarrow>
                         (case assign_bw nonQosShareSz (v_fabric vfs) shareSz freeBw' (qosNoBwVfs t) of (vs, shareSz') \<Rightarrow>
                            (VSTATUS_OK, Some (fold (report_bw shareSz') [0..<length vs] (vfs\<lparr>v_fabric := vs\<rparr>)))))"

section \<open>Sums and shares\<close>

text \<open>The three kinds of fabrics, and the percentage a fabric has of its own.\<close>

definition low_qos :: "VF_t \<Rightarrow> bool" where
  "low_qos v \<longleftrightarrow> qos_enable v \<and> \<not> priority v"

definition wants_bw :: "VF_t \<Rightarrow> bool" where
  "wants_bw v \<longleftrightarrow> low_qos v \<and> percent_bandwidth v = BW_UNDEFINED"

definition bw_of :: "VF_t \<Rightarrow> int" where
  "bw_of v = int (unat (percent_bandwidth v))"

definition configured_bw :: "VF_t list \<Rightarrow> int" where
  "configured_bw vs = (\<Sum>v\<leftarrow>filter (\<lambda>v. low_qos v \<and> \<not> wants_bw v) vs. bw_of v)"

definition low_bw :: "VF_t list \<Rightarrow> int" where
  "low_bw vs = (\<Sum>v\<leftarrow>filter low_qos vs. bw_of v)"

abbreviation wanting :: "VF_t list \<Rightarrow> int" where
  "wanting vs \<equiv> int (length (filter wants_bw vs))"

abbreviation without_qos :: "VF_t list \<Rightarrow> int" where
  "without_qos vs \<equiv> int (length (filter (\<lambda>v. \<not> qos_enable v) vs))"

lemma fold_tally:
  "fold tally_vf vs t = \<lparr>bwInUse = bwInUse t + configured_bw vs, nonQosVfs = nonQosVfs t + without_qos vs,
     qosNoBwVfs = qosNoBwVfs t + wanting vs\<rparr>"
  by (induction vs arbitrary: t)
     (auto simp: tally_vf_def configured_bw_def low_qos_def wants_bw_def bw_of_def)

lemma configured_bw_nonneg: "0 \<le> configured_bw vs"
  by (auto simp: configured_bw_def bw_of_def intro!: sum_list_nonneg)

lemma bw_shares_spec:
  assumes "(if nonQos \<noteq> 0 then 5 else 0) + q \<le> free" "0 \<le> q" "0 \<le> nonQos" "free \<le> 100"
    and "bw_shares free nonQos q = (sh, nq, free')"
  shows "(q \<noteq> 0 \<longrightarrow> sh = free' div q) \<and> q \<le> free' \<and> free' + nq = free \<and> (nonQos \<noteq> 0 \<longrightarrow> 5 \<le> nq) \<and>
    (nonQos = 0 \<longrightarrow> nq = 0) \<and> (q = 0 \<and> nonQos \<noteq> 0 \<longrightarrow> nq = free)"
proof (cases "nonQos = 0")
  case True
  then show ?thesis using assms by (auto simp: bw_shares_def split: if_splits)
next
  case False
  let ?sh = "free div (q + 1)"
  have sh: "?sh * (q + 1) \<le> free" "0 \<le> ?sh"
    using assms False by (auto simp: pos_imp_zdiv_nonneg_iff minus_mod_eq_div_mult[symmetric])
  show ?thesis
  proof (cases "free - ?sh * q < 5")
    case True
    have "q \<noteq> 0" using True assms(1) False by auto
    then show ?thesis using True False assms by (auto simp: bw_shares_def Let_def)
  next
    case f: False
    then have r: "sh = ?sh" "nq = free - ?sh * q" "free' = ?sh * q" using False assms(5) by (auto simp: bw_shares_def Let_def)
    have "q \<le> ?sh * q"
    proof (cases "q = 0")
      case False
      have "1 \<le> ?sh"
        using assms(1) \<open>nonQos \<noteq> 0\<close> False assms(2) by (simp add: pos_imp_zdiv_pos_iff int_one_le_iff_zero_less)
      then show ?thesis using assms(2) mult_right_mono[of 1 ?sh q] by simp
    qed simp
    then show ?thesis using r f False assms(2) by auto
  qed
qed

text \<open>What the loop does to one fabric.\<close>

definition bw_given :: "int \<Rightarrow> VF_t \<Rightarrow> VF_t \<Rightarrow> bool" where
  "bw_given nq v v' \<longleftrightarrow> v' = v\<lparr>percent_bandwidth := percent_bandwidth v'\<rparr> \<and>
     (if \<not> qos_enable v then bw_of v' = nq
      else if wants_bw v then 1 \<le> bw_of v' \<and> bw_of v' \<le> 100 else percent_bandwidth v' = percent_bandwidth v)"

lemma bw_of_word: "0 \<le> n \<Longrightarrow> n \<le> 100 \<Longrightarrow> bw_of (v\<lparr>percent_bandwidth := word_of_int n\<rparr>) = n"
  by (simp add: bw_of_def unsigned_of_int take_bit_int_eq_self)

lemma bw_given_same: "qos_enable v \<Longrightarrow> \<not> wants_bw v \<Longrightarrow> bw_given nq v v"
  by (simp add: bw_given_def)

lemma low_bw_Cons: "low_bw (v # vs) = (if low_qos v then bw_of v else 0) + low_bw vs"
  by (simp add: low_bw_def)

lemma configured_bw_Cons: "configured_bw (v # vs) = (if low_qos v \<and> \<not> wants_bw v then bw_of v else 0) + configured_bw vs"
  by (simp add: configured_bw_def)

lemma share_left:
  fixes q free :: int
  assumes "0 < q" "q \<le> free"
  shows "1 \<le> free div q" "free div q \<le> free" "q - 1 \<le> free - free div q" "q = 1 \<Longrightarrow> free div q = free"
proof -
  show 1: "1 \<le> free div q" using assms zdiv_mono1[of q free q] by simp
  have m: "(free div q) * q \<le> free" using assms by (simp add: minus_mod_eq_div_mult[symmetric])
  have "(q - 1) * 1 \<le> (q - 1) * (free div q)" using 1 assms by (intro mult_left_mono) auto
  then show "q - 1 \<le> free - free div q" using m by (simp add: algebra_simps)
  then show "free div q \<le> free" using assms by linarith
  show "q = 1 \<Longrightarrow> free div q = free" by simp
qed

lemma assign_bw_spec:
  assumes "q = wanting vs" "q \<le> free" "free \<le> 100" "q \<noteq> 0 \<longrightarrow> sh = free div q" "0 \<le> nq" "nq \<le> 100"
    and "assign_bw nq vs sh free q = (vs', sh')"
  shows "list_all2 (bw_given nq) vs vs' \<and> low_bw vs' = configured_bw vs + (if q \<noteq> 0 then free else 0)"
  using assms
proof (induction vs arbitrary: sh free q vs')
  case Nil
  then show ?case by (simp add: low_bw_def configured_bw_def)
next
  case (Cons v vs)
  show ?case
  proof (cases "wants_bw v")
    case True
    then have w: "qos_enable v" "\<not> priority v" "percent_bandwidth v = BW_UNDEFINED" by (auto simp: wants_bw_def low_qos_def)
    have q: "0 < q" "q - 1 = wanting vs" "sh = free div q" using Cons.prems(1,4) True by auto
    note s = share_left[OF q(1) Cons.prems(2), folded q(3)]
    define sh2 where "sh2 = (if q - 1 \<noteq> 0 then (free - sh) div (q - 1) else 0)"
    obtain vs2 where r: "assign_bw nq vs sh2 (free - sh) (q - 1) = (vs2, sh')"
        "vs' = v\<lparr>percent_bandwidth := word_of_int sh\<rparr> # vs2"
      using Cons.prems(7) w by (auto simp: Let_def sh2_def split: prod.splits)
    have IH: "list_all2 (bw_given nq) vs vs2 \<and> low_bw vs2 = configured_bw vs + (if q - 1 \<noteq> 0 then free - sh else 0)"
      using Cons.IH[OF q(2) _ _ _ Cons.prems(5,6) r(1)] s Cons.prems(3) by (simp add: sh2_def)
    have "bw_of (v\<lparr>percent_bandwidth := word_of_int sh\<rparr>) = sh" using s Cons.prems(3) by (intro bw_of_word) auto
    moreover then have "bw_given nq v (v\<lparr>percent_bandwidth := word_of_int sh\<rparr>)"
      using True s Cons.prems(3) w(1) by (simp add: bw_given_def)
    moreover have "sh + (if q - 1 \<noteq> 0 then free - sh else 0) = free" using s(4) by simp
    ultimately show ?thesis
      using IH r(2) True q(1) by (simp add: low_bw_Cons configured_bw_Cons low_qos_def w)
  next
    case False
    then have q: "q = wanting vs" using Cons.prems(1) by simp
    obtain vs2 v2 where r: "assign_bw nq vs sh free q = (vs2, sh')" "vs' = v2 # vs2"
        "v2 = (if qos_enable v then v else v\<lparr>percent_bandwidth := word_of_int nq\<rparr>)"
      using Cons.prems(7) False by (auto simp: wants_bw_def low_qos_def Let_def split: prod.splits if_splits)
    note IH = Cons.IH[OF q Cons.prems(2-6) r(1)]
    have "bw_given nq v v2"
      using r(3) False bw_of_word[OF Cons.prems(5,6)] by (auto simp: bw_given_def)
    moreover have "low_qos v2 = low_qos v" "low_qos v \<Longrightarrow> v2 = v" using r(3) by (auto simp: low_qos_def)
    ultimately show ?thesis using IH r(2) False by (auto simp: low_bw_Cons configured_bw_Cons)
  qed
qed

text \<open>The update of the active list writes back what is there, when names are unique.\<close>

definition names_unique :: "VF_t list \<Rightarrow> bool" where
  "names_unique vs \<longleftrightarrow> (\<forall>i<length vs. \<forall>j<length vs. name (vs ! i) = name (vs ! j) \<and> name (vs ! i) \<noteq> [] \<longrightarrow> i = j)"

lemma report_bw_id:
  assumes "names_unique (v_fabric vfs)" "vf < length (v_fabric vfs)" "\<not> wants_bw (v_fabric vfs ! vf)"
  shows "report_bw sh vf vfs = vfs"
proof -
  have "\<not> (qos_enable (v_fabric vfs ! vf) \<and> \<not> priority (v_fabric vfs ! vf) \<and> percent_bandwidth (v_fabric vfs ! vf) = BW_UNDEFINED)"
    using assms(3) by (simp add: wants_bw_def low_qos_def)
  moreover have "i = vf" if "findVfIdxInActiveList (v_fabric vfs ! vf) vfs = Some i" for i
    using that assms(1,2) by (auto simp: findVfIdxInActiveList_def names_unique_def find_upt_Some split: if_splits)
  ultimately show ?thesis
    by (auto simp: report_bw_def Let_def split: option.splits)
qed

lemma fold_report_id:
  assumes "names_unique (v_fabric vfs)" "\<forall>v\<in>set (v_fabric vfs). \<not> wants_bw v" "set is \<subseteq> {..<length (v_fabric vfs)}"
  shows "fold (report_bw sh) is vfs = vfs"
  using assms(3)
proof (induction "is")
  case (Cons i "is")
  then show ?case using report_bw_id[OF assms(1), of i] assms(2) by simp
qed simp

lemma bw_given_list:
  assumes "list_all2 (bw_given nq) vs vs'"
  shows "map name vs' = map name vs" "\<forall>v\<in>set vs'. \<not> wants_bw v"
proof -
  have n: "bw_given nq v v' \<Longrightarrow> name v' = name v" "bw_given nq v v' \<Longrightarrow> \<not> wants_bw v'" for v v'
  proof -
    assume g: "bw_given nq v v'"
    then have e: "v' = v\<lparr>percent_bandwidth := percent_bandwidth v'\<rparr>" by (simp add: bw_given_def)
    show "name v' = name v" by (subst e) simp
    have q: "qos_enable v' = qos_enable v" "priority v' = priority v" by (subst e, simp)+
    show "\<not> wants_bw v'"
      using g q by (auto simp: bw_given_def wants_bw_def low_qos_def bw_of_def split: if_splits)
  qed
  show "map name vs' = map name vs" using assms n(1) by (induction rule: list_all2_induct) auto
  show "\<forall>v\<in>set vs'. \<not> wants_bw v" using assms n(2) by (induction rule: list_all2_induct) auto
qed

lemma names_unique_map: "map name vs' = map name vs \<Longrightarrow> names_unique vs' = names_unique vs"
  unfolding names_unique_def by (metis length_map nth_map)

text \<open>Success, with the shares and the sum.\<close>

lemma update_bw_ok:
  assumes "v_fabric_all vfs \<noteq> []" and "names_unique (v_fabric vfs)"
  defines "vs \<equiv> v_fabric vfs"
  defines "needed \<equiv> (if without_qos vs \<noteq> 0 then 5 else 0) + wanting vs"
  assumes n: "needed \<le> 100 - configured_bw vs"
  obtains vs' nq where "sm_update_bw (Some vfs) = (VSTATUS_OK, Some (vfs\<lparr>v_fabric := vs'\<rparr>))" "list_all2 (bw_given nq) vs vs'"
    "without_qos vs \<noteq> 0 \<Longrightarrow> 5 \<le> nq"
    "low_bw vs' + (if without_qos vs \<noteq> 0 then nq else 0) = (if needed \<noteq> 0 then 100 else configured_bw vs)"
proof -
  obtain sh nq free where sh: "bw_shares (100 - configured_bw vs) (without_qos vs) (wanting vs) = (sh, nq, free)"
    by (cases "bw_shares (100 - configured_bw vs) (without_qos vs) (wanting vs)")
  have "free \<le> 100" "nq \<le> 100" "0 \<le> nq"
    and spec: "(wanting vs \<noteq> 0 \<longrightarrow> sh = free div wanting vs)" "wanting vs \<le> free" "free + nq = 100 - configured_bw vs"
      "without_qos vs \<noteq> 0 \<longrightarrow> 5 \<le> nq" "without_qos vs = 0 \<longrightarrow> nq = 0" "wanting vs = 0 \<and> without_qos vs \<noteq> 0 \<longrightarrow> nq = 100 - configured_bw vs"
    using bw_shares_spec[OF _ _ _ _ sh] n configured_bw_nonneg[of vs] by (auto simp: needed_def)
  obtain vs' sh' where a: "assign_bw nq vs sh free (wanting vs) = (vs', sh')"
    by (cases "assign_bw nq vs sh free (wanting vs)")
  have g: "list_all2 (bw_given nq) vs vs'" "low_bw vs' = configured_bw vs + (if wanting vs \<noteq> 0 then free else 0)"
    using assign_bw_spec[OF refl spec(2) \<open>free \<le> 100\<close> spec(1) \<open>0 \<le> nq\<close> \<open>nq \<le> 100\<close> a] by auto
  have "names_unique vs'" using bw_given_list(1)[OF g(1)] names_unique_map assms(2) unfolding vs_def by blast
  then have "fold (report_bw sh') [0..<length vs'] (vfs\<lparr>v_fabric := vs'\<rparr>) = vfs\<lparr>v_fabric := vs'\<rparr>"
    using fold_report_id[of "vfs\<lparr>v_fabric := vs'\<rparr>" "[0..<length vs']" sh'] bw_given_list(2)[OF g(1)] by (simp add: atLeast0LessThan)
  then have "sm_update_bw (Some vfs) = (VSTATUS_OK, Some (vfs\<lparr>v_fabric := vs'\<rparr>))"
    using assms(1) n sh a by (simp add: sm_update_bw_def fold_tally Let_def needed_def vs_def)
  moreover have "low_bw vs' + (if without_qos vs \<noteq> 0 then nq else 0) = (if needed \<noteq> 0 then 100 else configured_bw vs)"
    using g(2) spec by (auto simp: needed_def)
  ultimately show ?thesis using that g(1) spec(4) by blast
qed

lemma update_bw_bad:
  assumes "v_fabric_all vfs \<noteq> []"
    and "100 - configured_bw (v_fabric vfs) < (if without_qos (v_fabric vfs) \<noteq> 0 then 5 else 0) + wanting (v_fabric vfs)"
  shows "sm_update_bw (Some vfs) = (VSTATUS_BAD, Some vfs)"
  using assms by (simp add: sm_update_bw_def fold_tally Let_def)

section \<open>Properties\<close>

text \<open>
  The bandwidth update fails, changing nothing, exactly when what the configured fabrics leave of
  100\% is less than 1\% for each fabric that wants a part and 5\% for the fabrics without QoS. Otherwise
  configured percentages are kept, every other low-priority fabric gets at least 1\%, the fabrics
  without QoS share at least 5\%, and, when there is anything to distribute, exactly 100\% is given out.
\<close>

theorem update_bw_distributes:
  assumes "v_fabric_all vfs \<noteq> []" and "names_unique (v_fabric vfs)"
  defines "vs \<equiv> v_fabric vfs"
  defines "needed \<equiv> (if without_qos vs \<noteq> 0 then 5 else 0) + wanting vs"
  shows "(100 - configured_bw vs < needed \<longrightarrow> sm_update_bw (Some vfs) = (VSTATUS_BAD, Some vfs)) \<and>
    (needed \<le> 100 - configured_bw vs \<longrightarrow>
      (\<exists>vs' nq. sm_update_bw (Some vfs) = (VSTATUS_OK, Some (vfs\<lparr>v_fabric := vs'\<rparr>)) \<and> list_all2 (bw_given nq) vs vs' \<and>
         (without_qos vs \<noteq> 0 \<longrightarrow> 5 \<le> nq) \<and>
         low_bw vs' + (if without_qos vs \<noteq> 0 then nq else 0) =
           (if needed \<noteq> 0 then 100 else configured_bw vs)))"
proof (intro conjI impI)
  assume "100 - configured_bw vs < needed"
  then show "sm_update_bw (Some vfs) = (VSTATUS_BAD, Some vfs)"
    using update_bw_bad[OF assms(1)] unfolding needed_def vs_def by blast
next
  assume "needed \<le> 100 - configured_bw vs"
  then show "\<exists>vs' nq. sm_update_bw (Some vfs) = (VSTATUS_OK, Some (vfs\<lparr>v_fabric := vs'\<rparr>)) \<and> list_all2 (bw_given nq) vs vs' \<and>
         (without_qos vs \<noteq> 0 \<longrightarrow> 5 \<le> nq) \<and>
         low_bw vs' + (if without_qos vs \<noteq> 0 then nq else 0) = (if needed \<noteq> 0 then 100 else configured_bw vs)"
    using update_bw_ok[OF assms(1,2)] unfolding needed_def vs_def by metis
qed

theorem update_bw_distributes_witness:
  "v_fabric_all example_vfs \<noteq> [] \<and> names_unique (v_fabric example_vfs) \<and>
   (\<exists>vs' nq. sm_update_bw (Some example_vfs) = (VSTATUS_OK, Some (example_vfs\<lparr>v_fabric := vs'\<rparr>)) \<and> low_bw vs' + nq = 100)"
proof -
  have u: "names_unique (v_fabric example_vfs)" "v_fabric_all example_vfs \<noteq> []"
    by (auto simp: names_unique_def example_vfs_def example_vf_def Let_def less_Suc_eq numeral_2_eq_2)
  have "without_qos (v_fabric example_vfs) = 2" "wanting (v_fabric example_vfs) = 2" "configured_bw (v_fabric example_vfs) = 0"
    by (simp_all add: example_vfs_def example_vf_def Let_def wants_bw_def low_qos_def configured_bw_def)
  then show ?thesis using update_bw_distributes[OF u(2,1)] u by auto
qed

end
