(* ===== verification/SmQosMap.thy ===== *)
theory SmQosMap
  imports SmQosBw
begin

text \<open>
  The mapping of service levels to service channels and virtual lanes, and of bandwidth to virtual
  lanes (\<^verbatim>\<open>sm_qos.c\<close>, with the SC-to-VL tables of \<^verbatim>\<open>sm_scvlmatrix.c\<close>). An SL is given a block
  of consecutive SCs whose VLs are consecutive and not used by another SL; the bandwidth of a fabric
  is divided over the VLs of its SLs. VL, SC and SL numbers are naturals below 256, the bandwidths
  8-bit words. A memory allocation that fails ends the process in \<^verbatim>\<open>AllocQos\<close> and
  \<^verbatim>\<open>PopulateSCtoSL\<close>, so those allocations succeed here; in \<^verbatim>\<open>sm_fill_SCVLMap\<close> it only returns,
  which is the argument \<open>alloc\<close>.
\<close>

section \<open>SC to VL tables\<close>

abbreviation (input) SCVLMAP_BASE :: nat where "SCVLMAP_BASE \<equiv> 8"
abbreviation (input) STL_MAX_SCS :: nat where "STL_MAX_SCS \<equiv> 32"
abbreviation (input) STL_MAX_VLS :: nat where "STL_MAX_VLS \<equiv> 32"
abbreviation (input) STL_MAX_SLS :: nat where "STL_MAX_SLS \<equiv> 32"
abbreviation (input) MAX_VFABRICS :: nat where "MAX_VFABRICS \<equiv> 32"

definition sm_globalSCVLMatrix :: "nat list list" where
  "sm_globalSCVLMatrix =
     [replicate 32 0,
      [0, 0, 0, 0, 0, 0, 0, 0, 0, 0, 0, 0, 0, 0, 0, 15,
       0, 0, 0, 0, 0, 0, 0, 0, 0, 0, 0, 0, 0, 0, 0, 0],
      [0, 1, 0, 1, 0, 1, 0, 1, 0, 1, 0, 1, 0, 1, 0, 15,
       0, 1, 0, 1, 0, 1, 0, 1, 0, 1, 0, 1, 0, 1, 1, 15],
      [0, 1, 0, 1, 0, 1, 0, 1, 0, 1, 0, 1, 0, 1, 0, 15,
       0, 1, 0, 1, 0, 1, 0, 1, 0, 1, 0, 1, 0, 1, 2, 15],
      [0, 1, 2, 3, 0, 1, 2, 3, 0, 1, 2, 3, 0, 1, 2, 15,
       0, 1, 2, 3, 0, 1, 2, 3, 0, 1, 2, 3, 0, 1, 3, 15],
      [0, 1, 2, 3, 0, 1, 2, 3, 0, 1, 2, 3, 0, 1, 2, 15,
       0, 1, 2, 3, 0, 1, 2, 3, 0, 1, 2, 3, 0, 1, 4, 15],
      [0, 1, 2, 3, 0, 1, 2, 3, 0, 1, 2, 3, 0, 1, 2, 15,
       0, 1, 2, 3, 0, 1, 2, 3, 0, 1, 2, 3, 0, 1, 5, 15],
      [0, 1, 2, 3, 0, 1, 2, 3, 0, 1, 2, 3, 0, 1, 2, 15,
       0, 1, 2, 3, 0, 1, 2, 3, 0, 1, 2, 3, 0, 1, 6, 15],
      [0, 1, 2, 3, 4, 5, 6, 7, 0, 1, 2, 3, 4, 5, 6, 15,
       0, 1, 2, 3, 4, 5, 6, 7, 0, 1, 2, 3, 4, 5, 6, 7]]"

record Qos_t =
  numVLs :: nat
  activeVLs :: nat
  scvl :: "nat list"
  highPriorityVLs :: bitset_t
  lowPriorityVLs :: bitset_t
  bw :: "u8 list"
  highPriority :: "u8 list"
  weightMultiplier :: u8
  vlvf :: "int list list"

definition vl_bitset :: "nat \<Rightarrow> bitset_t" where
  "vl_bitset n = snd (bitset_init (\<lambda>_. True) (Some 0) n)"

definition new_qos :: "nat \<Rightarrow> Qos_t" where
  "new_qos i = \<lparr>numVLs = i, activeVLs = 0, scvl = replicate STL_MAX_SCS 15, highPriorityVLs = vl_bitset STL_MAX_VLS,
     lowPriorityVLs = vl_bitset STL_MAX_VLS, bw = replicate STL_MAX_VLS 0, highPriority = replicate STL_MAX_VLS 0,
     weightMultiplier = 0, vlvf = replicate STL_MAX_VLS (replicate MAX_VFABRICS 0)\<rparr>"

text \<open>The array of \<^verbatim>\<open>AllocQos\<close>; entry 0 is left as the allocator delivers it.\<close>

definition AllocQos :: "Qos_t \<Rightarrow> Qos_t list" where
  "AllocQos uninitialised = uninitialised # map new_qos [1..<STL_MAX_VLS + 1]"

definition sm_fill_SCVLMap :: "(nat \<Rightarrow> bool) \<Rightarrow> Qos_t \<Rightarrow> Qos_t" where
  "sm_fill_SCVLMap alloc qos =
     (let vlsel = (if numVLs qos > SCVLMAP_BASE then SCVLMAP_BASE else numVLs qos) in
      if vlsel < 1 then qos
      else case bitset_init alloc (Some 0) STL_MAX_SCS of
             (False, _) \<Rightarrow> qos
           | (True, bitmap) \<Rightarrow>
               let row = sm_globalSCVLMatrix ! vlsel;
                   bitmap' = fold (\<lambda>i b. if row ! i \<noteq> 15 then snd (bitset_set b (row ! i)) else b) [0..<STL_MAX_SCS] bitmap
               in qos\<lparr>scvl := row, activeVLs := bitset_nset bitmap'\<rparr>)"

section \<open>SLs to SCs\<close>

text \<open>
  The search for the first SC of a VL: the loop runs while \<open>sc <= STL_MAX_SCS - numSCs\<close>, which
  reads one entry too far when \<open>numSCs\<close> is 0.
\<close>

definition find_sc :: "nat list \<Rightarrow> nat \<Rightarrow> nat \<Rightarrow> nat c_result" where
  "find_sc scs n vl =
     (case List.find (\<lambda>sc. scs ! sc = vl) [0..<min STL_MAX_SCS (STL_MAX_SCS + 1 - n)] of
        Some sc \<Rightarrow> Inr sc
      | None \<Rightarrow> if n = 0 then Inl OutOfBounds else Inr (STL_MAX_SCS + 1 - n))"

definition block_free :: "nat list \<Rightarrow> nat \<Rightarrow> bitset_t \<Rightarrow> nat \<Rightarrow> nat \<Rightarrow> bool" where
  "block_free scs n free vl sc = list_all (\<lambda>k. scs ! (sc + k) = vl + k \<and> bitset_test free (vl + k)) [0..<n]"

text \<open>
  The loop over the free VLs, with as much fuel as the set has bits and more; it returns the set, from
  which VLs without SC have been removed, and the block found.
\<close>

fun vl_search :: "nat \<Rightarrow> nat list \<Rightarrow> nat \<Rightarrow> bitset_t \<Rightarrow> int \<Rightarrow> (bitset_t \<times> (nat \<times> nat) option) c_result" where
  "vl_search 0 scs n free vl = Inr (free, None)"
| "vl_search (Suc fuel) scs n free vl =
     (if vl = -1 then Inr (free, None)
      else case find_sc scs n (nat vl) of
             Inl e \<Rightarrow> Inl e
           | Inr sc \<Rightarrow>
               if sc \<ge> STL_MAX_SCS - n
               then let free' = snd (bitset_clear free (nat vl))
                    in vl_search fuel scs n free' (bitset_find_next_one free' (nat vl + 1))
               else if block_free scs n free (nat vl) sc then Inr (free, Some (nat vl, sc))
               else vl_search fuel scs n free (bitset_find_next_one free (nat vl + 1)))"

record pop_state =
  mappedSLs :: bitset_t
  freeVLs :: bitset_t
  ps_SLtoSC :: "nat list"
  ps_SCtoSL :: "nat list"

definition place_sl :: "nat \<Rightarrow> nat \<Rightarrow> nat \<Rightarrow> nat \<Rightarrow> pop_state \<Rightarrow> pop_state" where
  "place_sl sl n vl sc st =
     fold (\<lambda>k st. st\<lparr>freeVLs := snd (bitset_clear (freeVLs st) (vl + k)), ps_SCtoSL := (ps_SCtoSL st)[sc + k := sl]\<rparr>)
       [0..<n] st\<lparr>ps_SLtoSC := (ps_SLtoSC st)[sl := sc]\<rparr>"

definition map_sl :: "RoutingModule_t \<Rightarrow> nat list \<Rightarrow> nat \<times> bool \<Rightarrow> pop_state \<Rightarrow> (Status_t \<times> pop_state) c_result" where
  "map_sl rm scs req st =
     (let sl = fst req; n = num_routing_scs rm sl (snd req) in
      if bitset_test (mappedSLs st) sl then Inr (VSTATUS_OK, st)
      else let st1 = st\<lparr>mappedSLs := snd (bitset_set (mappedSLs st) sl)\<rparr>
           in case vl_search (nbits_m (freeVLs st) + 2) scs n (freeVLs st) (bitset_find_first_one (freeVLs st)) of
                Inl e \<Rightarrow> Inl e
              | Inr (free, None) \<Rightarrow> Inr (VSTATUS_BAD, st1\<lparr>freeVLs := free\<rparr>)
              | Inr (free, Some (vl, sc)) \<Rightarrow>
                  if sl < STL_MAX_SLS then Inr (VSTATUS_OK, place_sl sl n vl sc (st1\<lparr>freeVLs := free\<rparr>))
                  else Inl OutOfBounds)"

definition sl_requests :: "VF_t list \<Rightarrow> (nat \<times> bool) list" where
  "sl_requests vfs = concat (map (\<lambda>v. [(unat (base_sl v), False), (unat (resp_sl v), False), (unat (mcast_sl v), True)]) vfs)"

fun map_sls :: "RoutingModule_t \<Rightarrow> nat list \<Rightarrow> (nat \<times> bool) list \<Rightarrow> pop_state \<Rightarrow> (Status_t \<times> pop_state) c_result" where
  "map_sls rm scs [] st = Inr (VSTATUS_OK, st)"
| "map_sls rm scs (req # reqs) st =
     (case map_sl rm scs req st of
        Inl e \<Rightarrow> Inl e
      | Inr (ret, st') \<Rightarrow> if ret \<noteq> VSTATUS_OK then Inr (ret, st') else map_sls rm scs reqs st')"

definition PopulateSCtoSL ::
  "RoutingModule_t \<Rightarrow> Qos_t \<Rightarrow> VirtualFabrics_t \<Rightarrow> nat list \<Rightarrow> nat list \<Rightarrow> (Status_t \<times> nat list \<times> nat list) c_result" where
  "PopulateSCtoSL rm qos vfs SLtoSC SCtoSL =
     (let all = bitset_set_all (vl_bitset (activeVLs qos));
          free = (if activeVLs qos > 15 then snd (bitset_clear all 15) else all)
      in case map_sls rm (scvl qos) (sl_requests (v_fabric_all vfs))
                \<lparr>mappedSLs = vl_bitset STL_MAX_SLS, freeVLs = free, ps_SLtoSC = SLtoSC, ps_SCtoSL = SCtoSL\<rparr> of
           Inl e \<Rightarrow> Inl e
         | Inr (ret, st) \<Rightarrow> Inr (ret, ps_SLtoSC st, ps_SCtoSL st))"

section \<open>Bandwidth of virtual lanes\<close>

text \<open>The VLs of the SCs of an SL, in the order of the loop; reads beyond the tables are errors.\<close>

definition vls_of_sl :: "nat list \<Rightarrow> nat list \<Rightarrow> nat \<Rightarrow> nat \<Rightarrow> nat list c_result" where
  "vls_of_sl scs SLtoSC n sl =
     (if n = 0 then Inr []
      else if sl < STL_MAX_SLS \<and> SLtoSC ! sl + n \<le> STL_MAX_SCS
      then Inr [scs ! (SLtoSC ! sl + j). j \<leftarrow> [0..<n]]
      else Inl OutOfBounds)"

fun divide_bw :: "nat list \<Rightarrow> nat \<Rightarrow> nat \<Rightarrow> u8 list \<Rightarrow> u8 list" where
  "divide_bw [] b num_vls bws = bws"
| "divide_bw (vl # vls) b num_vls bws =
     divide_bw vls (b - b div num_vls) (num_vls - 1) (bws[vl := bws ! vl + of_nat (b div num_vls)])"

fun collect_vls :: "nat list \<Rightarrow> nat list \<Rightarrow> (nat \<times> nat) list \<Rightarrow> nat list c_result" where
  "collect_vls scs SLtoSC [] = Inr []"
| "collect_vls scs SLtoSC ((sl, n) # xs) =
     (case vls_of_sl scs SLtoSC n sl of
        Inl e \<Rightarrow> Inl e
      | Inr a \<Rightarrow> (case collect_vls scs SLtoSC xs of Inl e \<Rightarrow> Inl e | Inr b \<Rightarrow> Inr (a @ b)))"

definition DivideBwUp :: "RoutingModule_t \<Rightarrow> Qos_t \<Rightarrow> nat \<Rightarrow> nat \<Rightarrow> nat \<Rightarrow> nat \<Rightarrow> nat list \<Rightarrow> Qos_t c_result" where
  "DivideBwUp rm qos b base resp mcast SLtoSC =
     (let n = num_routing_scs rm;
          num_vls = n base False + (if resp \<noteq> base then n resp False else 0) +
                    (if mcast \<noteq> base \<and> mcast \<noteq> resp then n mcast True else 0);
          sls = (if mcast = base \<or> mcast = resp then [] else [(mcast, n mcast True)]) @
                (if resp = base then [] else [(resp, n resp False)]) @ [(base, n base False)]
      in case collect_vls (scvl qos) SLtoSC sls of
           Inl e \<Rightarrow> Inl e
         | Inr vls \<Rightarrow> Inr (qos\<lparr>bw := divide_bw vls b num_vls (bw qos)\<rparr>))"

definition AddVfToVl :: "nat \<Rightarrow> nat \<Rightarrow> Qos_t \<Rightarrow> Qos_t" where
  "AddVfToVl vl vf qos =
     (case List.find (\<lambda>i. vlvf qos ! vl ! i = int vf \<or> vlvf qos ! vl ! i = -1) [0..<MAX_VFABRICS] of
        None \<Rightarrow> qos
      | Some i \<Rightarrow> if vlvf qos ! vl ! i = int vf then qos
                  else qos\<lparr>vlvf := (vlvf qos)[vl := (vlvf qos ! vl)[i := int vf]]\<rparr>)"

definition setup_vl :: "VF_t \<Rightarrow> nat \<Rightarrow> nat \<Rightarrow> Qos_t \<Rightarrow> Qos_t" where
  "setup_vl vfp vf vl qos =
     (if vl = 15 \<or> vl \<ge> numVLs qos then qos
      else AddVfToVl vl vf
             (if priority vfp
              then qos\<lparr>highPriorityVLs := snd (bitset_set (highPriorityVLs qos) vl), highPriority := (highPriority qos)[vl := 1]\<rparr>
              else qos\<lparr>lowPriorityVLs := snd (bitset_set (lowPriorityVLs qos) vl)\<rparr>))"

definition setup_sl :: "RoutingModule_t \<Rightarrow> nat list \<Rightarrow> VF_t \<Rightarrow> nat \<Rightarrow> nat \<times> bool \<Rightarrow> Qos_t \<Rightarrow> Qos_t c_result" where
  "setup_sl rm SLtoSC vfp vf req qos =
     (let sl = fst req; n = num_routing_scs rm sl (snd req) in
      if \<not> sl < STL_MAX_SLS then Inl AssertFailed
      else if \<not> SLtoSC ! sl + n \<le> STL_MAX_SCS then Inl AssertFailed
      else Inr (fold (\<lambda>j. setup_vl vfp vf (scvl qos ! (SLtoSC ! sl + j))) [0..<n] qos))"

definition setup_requests :: "VF_t \<Rightarrow> (nat \<times> bool) list" where
  "setup_requests v =
     (unat (base_sl v), False) #
     (if resp_sl v = base_sl v then [] else [(unat (resp_sl v), False)]) @
     (if mcast_sl v = base_sl v \<or> mcast_sl v = resp_sl v then [] else [(unat (mcast_sl v), True)])"

fun setup_sls :: "RoutingModule_t \<Rightarrow> nat list \<Rightarrow> VF_t \<Rightarrow> nat \<Rightarrow> (nat \<times> bool) list \<Rightarrow> Qos_t \<Rightarrow> Qos_t c_result" where
  "setup_sls rm SLtoSC vfp vf [] qos = Inr qos"
| "setup_sls rm SLtoSC vfp vf (r # rs) qos =
     (case setup_sl rm SLtoSC vfp vf r qos of Inl e \<Rightarrow> Inl e | Inr qos' \<Rightarrow> setup_sls rm SLtoSC vfp vf rs qos')"

fun setup_vfs :: "RoutingModule_t \<Rightarrow> nat list \<Rightarrow> VF_t list \<Rightarrow> nat \<Rightarrow> Qos_t \<Rightarrow> Qos_t c_result" where
  "setup_vfs rm SLtoSC [] vf qos = Inr qos"
| "setup_vfs rm SLtoSC (v # vs) vf qos =
     (case setup_sls rm SLtoSC v vf (setup_requests v) qos of Inl e \<Rightarrow> Inl e | Inr qos' \<Rightarrow> setup_vfs rm SLtoSC vs (vf + 1) qos')"

text \<open>The bandwidth loop: fabrics with QoS at once, the common part of the others remembered for the end.\<close>

record nonqos =
  nonQosBw :: nat
  nonQos_base_sl :: int
  nonQos_resp_sl :: int
  nonQos_mcast_sl :: int

definition note_nonqos :: "VF_t \<Rightarrow> nonqos \<Rightarrow> nonqos" where
  "note_nonqos v a =
     \<lparr>nonQosBw = unat (percent_bandwidth v), nonQos_base_sl = int (unat (base_sl v)),
      nonQos_resp_sl = (if resp_sl v \<noteq> base_sl v then int (unat (resp_sl v)) else nonQos_resp_sl a),
      nonQos_mcast_sl = (if mcast_sl v \<noteq> base_sl v then int (unat (mcast_sl v)) else nonQos_mcast_sl a)\<rparr>"

fun bw_vfs :: "RoutingModule_t \<Rightarrow> nat list \<Rightarrow> VF_t list \<Rightarrow> nonqos \<Rightarrow> Qos_t \<Rightarrow> (nonqos \<times> Qos_t) c_result" where
  "bw_vfs rm SLtoSC [] a qos = Inr (a, qos)"
| "bw_vfs rm SLtoSC (v # vs) a qos =
     (if qos_enable v
      then if priority v then bw_vfs rm SLtoSC vs a qos
           else (case DivideBwUp rm qos (unat (percent_bandwidth v)) (unat (base_sl v)) (unat (resp_sl v))
                        (unat (mcast_sl v)) SLtoSC of
                   Inl e \<Rightarrow> Inl e
                 | Inr qos' \<Rightarrow> bw_vfs rm SLtoSC vs a qos')
      else bw_vfs rm SLtoSC vs (note_nonqos v a) qos)"

definition SetupQos :: "RoutingModule_t \<Rightarrow> Qos_t \<Rightarrow> VirtualFabrics_t \<Rightarrow> nat list \<Rightarrow> Qos_t c_result" where
  "SetupQos rm qos vfs SLtoSC =
     (case setup_vfs rm SLtoSC (v_fabric vfs) 0 (qos\<lparr>vlvf := replicate STL_MAX_VLS (replicate MAX_VFABRICS (-1))\<rparr>) of
        Inl e \<Rightarrow> Inl e
      | Inr qos1 \<Rightarrow>
          (case bw_vfs rm SLtoSC (v_fabric vfs)
                  \<lparr>nonQosBw = 0, nonQos_base_sl = -1, nonQos_resp_sl = -1, nonQos_mcast_sl = -1\<rparr> qos1 of
             Inl e \<Rightarrow> Inl e
           | Inr (a, qos2) \<Rightarrow>
               if nonQosBw a = 0 then Inr qos2
               else let resp = (if nonQos_resp_sl a = -1 then nonQos_base_sl a else nonQos_resp_sl a);
                        mcast = (if nonQos_mcast_sl a = -1 then nonQos_base_sl a else nonQos_mcast_sl a)
                    in DivideBwUp rm qos2 (nonQosBw a) (nat (nonQos_base_sl a)) (nat resp) (nat mcast) SLtoSC))"

text \<open>One VL for all traffic.\<close>

definition SetupQos1VL :: "Qos_t \<Rightarrow> VirtualFabrics_t \<Rightarrow> Qos_t" where
  "SetupQos1VL qos vfs =
     (let qos1 = qos\<lparr>lowPriorityVLs := snd (bitset_set (lowPriorityVLs qos) 0),
                     vlvf := replicate STL_MAX_VLS (replicate MAX_VFABRICS (-1))\<rparr>;
          qos2 = fold (AddVfToVl 0) [0..<length (v_fabric vfs)] qos1
      in qos2\<lparr>bw := (bw qos2)[0 := 100]\<rparr>)"

section \<open>The fixed mapping\<close>

record qos_globals =
  sm_SLtoSC :: "nat list"
  sm_SCtoSL :: "nat list"
  sm_Qos :: "Qos_t list option"

fun setup_all :: "RoutingModule_t \<Rightarrow> VirtualFabrics_t \<Rightarrow> nat list \<Rightarrow> nat list \<Rightarrow> Qos_t list \<Rightarrow> Qos_t list c_result" where
  "setup_all rm vfs SLtoSC [] qos = Inr qos"
| "setup_all rm vfs SLtoSC (i # is) qos =
     (if \<not> i < length qos then Inl OutOfBounds
      else case SetupQos rm (qos ! i) vfs SLtoSC of
             Inl e \<Rightarrow> Inl e
           | Inr q \<Rightarrow> setup_all rm vfs SLtoSC is (qos[i := q]))"

definition sm_assign_scs_to_sls_FixedMap ::
  "(nat \<Rightarrow> bool) \<Rightarrow> Qos_t \<Rightarrow> RoutingModule_t \<Rightarrow> VirtualFabrics_t \<Rightarrow> qos_globals \<Rightarrow> (Status_t \<times> qos_globals) c_result" where
  "sm_assign_scs_to_sls_FixedMap alloc uninitialised rm vfs g =
     (if min_vls rm > max_vls rm then Inr (VSTATUS_BAD, g)
      else if max_vls rm > STL_MAX_VLS then Inl OutOfBounds
      else let qos = AllocQos uninitialised;
               qos1 = map (\<lambda>i. if 1 \<le> i \<and> i \<le> max_vls rm then sm_fill_SCVLMap alloc (qos ! i) else qos ! i) [0..<STL_MAX_VLS + 1]
           in case PopulateSCtoSL rm (qos1 ! min_vls rm) vfs (replicate STL_MAX_SLS 15) (replicate STL_MAX_SCS 0xff) of
                Inl e \<Rightarrow> Inl e
              | Inr (ret, SLtoSC, SCtoSL) \<Rightarrow>
                  if ret \<noteq> VSTATUS_OK then Inr (ret, g)
                  else (case setup_all rm vfs SLtoSC [min_vls rm..<max_vls rm + 1] (qos1[1 := SetupQos1VL (qos1 ! 1) vfs]) of
                          Inl e \<Rightarrow> Inl e
                        | Inr qos2 \<Rightarrow> Inr (ret, \<lparr>sm_SLtoSC = SLtoSC, sm_SCtoSL = SCtoSL, sm_Qos = Some qos2\<rparr>)))"

section \<open>Weights\<close>

text \<open>The loop \<open>for (vl = first_one; vl > -1; vl = next_one(vl + 1))\<close>, as the list of its values.\<close>

fun ones_loop :: "nat \<Rightarrow> bitset_t \<Rightarrow> int \<Rightarrow> nat list" where
  "ones_loop 0 b vl = []"
| "ones_loop (Suc fuel) b vl = (if vl > -1 then nat vl # ones_loop fuel b (bitset_find_next_one b (nat vl + 1)) else [])"

definition bitset_ones :: "bitset_t \<Rightarrow> nat list" where
  "bitset_ones b = ones_loop (nbits_m b + 1) b (bitset_find_first_one b)"

definition min_and_base :: "u8 list \<Rightarrow> nat \<Rightarrow> nat \<times> bool \<Rightarrow> nat \<times> bool" where
  "min_and_base bws vl a =
     (let cur = unat (bws ! vl) in
      if cur > 0 then (if fst a > cur then cur else fst a, if cur mod 10 > 2 then False else snd a) else a)"

definition not_divisible :: "u8 list \<Rightarrow> nat list \<Rightarrow> nat \<Rightarrow> bool" where
  "not_divisible bws vls m = list_ex (\<lambda>vl. bws ! vl > 0 \<and> unat (bws ! vl) mod m \<noteq> 0) vls"

definition setWeightMultiplier :: "Qos_t \<Rightarrow> Qos_t" where
  "setWeightMultiplier qos =
     (let vls = bitset_ones (lowPriorityVLs qos);
          (minBandwidth, tbase) = fold (min_and_base (bw qos)) vls (0xff, True);
          w = (if nset_m (lowPriorityVLs qos) \<le> 1 then 100
               else if tbase
               then if minBandwidth \<noteq> 100 \<and> minBandwidth \<noteq> 50 \<and> not_divisible (bw qos) vls minBandwidth then 10 else minBandwidth
               else if minBandwidth > 5
               then if not_divisible (bw qos) vls minBandwidth then 5 else minBandwidth
               else 5)
      in qos\<lparr>weightMultiplier := of_nat w\<rparr>)"

definition round5 :: "u8 \<Rightarrow> u8" where
  "round5 x = (if x mod 5 = 0 then x
     else if x mod 5 > 2 then x + (5 - x mod 5)
     else let y = x - x mod 5 in if y = 0 then 5 else y)"

definition sm_roundVLBandwidths :: "Qos_t \<Rightarrow> Qos_t c_result" where
  "sm_roundVLBandwidths origQos =
     (if \<not> activeVLs origQos \<le> length (bw origQos) then Inl OutOfBounds
      else if (\<Sum>x\<leftarrow>take (activeVLs origQos) (bw origQos). unat x) > 100 then Inl AssertFailed
      else let qos = origQos\<lparr>bw := map round5 (take (activeVLs origQos) (bw origQos)) @ drop (activeVLs origQos) (bw origQos)\<rparr>
           in Inr (origQos\<lparr>weightMultiplier := weightMultiplier (setWeightMultiplier qos)\<rparr>))"

section \<open>Blocks of virtual lanes\<close>

text \<open>The number of SCs of an SL is decided by its first use.\<close>

definition width :: "RoutingModule_t \<Rightarrow> (nat \<times> bool) list \<Rightarrow> nat \<Rightarrow> nat" where
  "width rm reqs sl = num_routing_scs rm sl (the (map_of reqs sl))"

definition sl_vls :: "RoutingModule_t \<Rightarrow> nat list \<Rightarrow> (nat \<times> bool) list \<Rightarrow> nat list \<Rightarrow> nat \<Rightarrow> nat set" where
  "sl_vls rm scs reqs SLtoSC sl = {scs ! (SLtoSC ! sl + k) | k. k < width rm reqs sl}"

text \<open>The SCs of an SL are a block that is mapped back to it, on consecutive data VLs.\<close>

definition block_ok ::
  "RoutingModule_t \<Rightarrow> nat list \<Rightarrow> nat \<Rightarrow> (nat \<times> bool) list \<Rightarrow> nat list \<Rightarrow> nat list \<Rightarrow> nat \<Rightarrow> bool" where
  "block_ok rm scs act reqs SLtoSC SCtoSL sl \<longleftrightarrow>
     SLtoSC ! sl + width rm reqs sl < STL_MAX_SCS \<and>
     (\<forall>k < width rm reqs sl. scs ! (SLtoSC ! sl + k) = scs ! (SLtoSC ! sl) + k \<and> SCtoSL ! (SLtoSC ! sl + k) = sl \<and>
        scs ! (SLtoSC ! sl + k) < act \<and> scs ! (SLtoSC ! sl + k) \<noteq> 15)"

lemma test_clear: "bitset_wf b \<Longrightarrow> bitset_test (snd (bitset_clear b i)) k \<longleftrightarrow> bitset_test b k \<and> k \<noteq> i"
  using bs.test_drop[of b i k] bs.test_capacity[of b i] bitset_clear_out[of i b] by (cases "i < nbits_m b") auto

lemma find_sc_found: "find_sc scs n vl = Inr sc \<Longrightarrow> sc < STL_MAX_SCS - n \<Longrightarrow> scs ! sc = vl"
  by (auto simp: find_sc_def find_upt_Some split: option.splits if_splits)

lemma vl_search_found:
  assumes "vl_search fuel scs n free vl = Inr (free', Some (v, sc))" "bitset_wf free"
  shows "bitset_wf free' \<and> nbits_m free' = nbits_m free \<and> (\<forall>k. bitset_test free' k \<longrightarrow> bitset_test free k) \<and>
    sc < STL_MAX_SCS - n \<and> scs ! sc = v \<and> block_free scs n free' v sc"
  using assms
proof (induction fuel arbitrary: free vl)
  case (Suc fuel)
  let ?free = "snd (bitset_clear free (nat vl))"
  have c: "bitset_wf ?free" "nbits_m ?free = nbits_m free" "bitset_test ?free k \<longrightarrow> bitset_test free k" for k
    using Suc.prems(2) by (auto simp: bitset_clear_wf test_clear)
  obtain s where s: "find_sc scs n (nat vl) = Inr s" and "vl \<noteq> -1"
    using Suc.prems(1) by (auto split: if_splits sum.splits)
  consider (drop) "s \<ge> STL_MAX_SCS - n" | (hit) "s < STL_MAX_SCS - n" "block_free scs n free (nat vl) s"
    | (skip) "s < STL_MAX_SCS - n" "\<not> block_free scs n free (nat vl) s" by linarith
  then show ?case
  proof cases
    case drop
    then show ?thesis using Suc.IH[of ?free] Suc.prems(1) s \<open>vl \<noteq> -1\<close> c by (auto simp: Let_def)
  next
    case hit
    then show ?thesis using Suc.prems s \<open>vl \<noteq> -1\<close> find_sc_found[OF s] by auto
  next
    case skip
    then show ?thesis using Suc.IH[of free] Suc.prems s \<open>vl \<noteq> -1\<close> by auto
  qed
qed simp

lemma place_sl_effect:
  fixes sl vl :: nat
  assumes "bitset_wf (freeVLs st)" "sc + n \<le> length (ps_SCtoSL st)"
  defines "st' \<equiv> place_sl sl n vl sc st"
  shows "bitset_wf (freeVLs st')" "nbits_m (freeVLs st') = nbits_m (freeVLs st)"
    "bitset_test (freeVLs st') j \<longleftrightarrow> bitset_test (freeVLs st) j \<and> \<not> (vl \<le> j \<and> j < vl + n)"
    "length (ps_SCtoSL st') = length (ps_SCtoSL st)"
    "i < length (ps_SCtoSL st) \<Longrightarrow> ps_SCtoSL st' ! i = (if sc \<le> i \<and> i < sc + n then sl else ps_SCtoSL st ! i)"
    "mappedSLs st' = mappedSLs st" "ps_SLtoSC st' = (ps_SLtoSC st)[sl := sc]"
proof -
  define f where "f = (\<lambda>k st. st\<lparr>freeVLs := snd (bitset_clear (freeVLs st) (vl + k)), ps_SCtoSL := (ps_SCtoSL st)[sc + k := sl]\<rparr> :: pop_state)"
  have "bitset_wf (freeVLs (fold f [0..<m] st)) \<and> nbits_m (freeVLs (fold f [0..<m] st)) = nbits_m (freeVLs st) \<and>
    (\<forall>j. bitset_test (freeVLs (fold f [0..<m] st)) j \<longleftrightarrow> bitset_test (freeVLs st) j \<and> \<not> (vl \<le> j \<and> j < vl + m)) \<and>
    length (ps_SCtoSL (fold f [0..<m] st)) = length (ps_SCtoSL st) \<and>
    (\<forall>i < length (ps_SCtoSL st). ps_SCtoSL (fold f [0..<m] st) ! i = (if sc \<le> i \<and> i < sc + m then sl else ps_SCtoSL st ! i)) \<and>
    mappedSLs (fold f [0..<m] st) = mappedSLs st \<and> ps_SLtoSC (fold f [0..<m] st) = ps_SLtoSC st"
    if "m \<le> n" for m
    using that
  proof (induction m)
    case 0
    then show ?case using assms(1) by simp
  next
    case (Suc m)
    let ?s = "fold f [0..<m] st"
    have IH: "bitset_wf (freeVLs ?s)" "nbits_m (freeVLs ?s) = nbits_m (freeVLs st)"
      "\<And>j. bitset_test (freeVLs ?s) j \<longleftrightarrow> bitset_test (freeVLs st) j \<and> \<not> (vl \<le> j \<and> j < vl + m)"
      "length (ps_SCtoSL ?s) = length (ps_SCtoSL st)"
      "\<And>i. i < length (ps_SCtoSL st) \<Longrightarrow> ps_SCtoSL ?s ! i = (if sc \<le> i \<and> i < sc + m then sl else ps_SCtoSL st ! i)"
      "mappedSLs ?s = mappedSLs st" "ps_SLtoSC ?s = ps_SLtoSC st"
      using Suc by auto
    have "fold f [0..<Suc m] st = f m ?s" by simp
    then show ?case
      using IH test_clear[OF IH(1)] bitset_clear_wf[OF IH(1)] Suc.prems assms(2)
      by (auto simp: f_def nth_list_update less_Suc_eq)
  qed
  from this[of n] show "bitset_wf (freeVLs st')" "nbits_m (freeVLs st') = nbits_m (freeVLs st)"
    "bitset_test (freeVLs st') j \<longleftrightarrow> bitset_test (freeVLs st) j \<and> \<not> (vl \<le> j \<and> j < vl + n)"
    "length (ps_SCtoSL st') = length (ps_SCtoSL st)"
    "i < length (ps_SCtoSL st) \<Longrightarrow> ps_SCtoSL st' ! i = (if sc \<le> i \<and> i < sc + n then sl else ps_SCtoSL st ! i)"
    "mappedSLs st' = mappedSLs st" "ps_SLtoSC st' = (ps_SLtoSC st)[sl := sc]"
    unfolding st'_def place_sl_def f_def[symmetric] by auto
qed

definition pop_inv :: "RoutingModule_t \<Rightarrow> nat list \<Rightarrow> nat \<Rightarrow> (nat \<times> bool) list \<Rightarrow> pop_state \<Rightarrow> bool" where
  "pop_inv rm scs act reqs st \<longleftrightarrow>
     bitset_wf (mappedSLs st) \<and> nbits_m (mappedSLs st) = 32 \<and>
     (\<forall>sl. bitset_test (mappedSLs st) sl \<longleftrightarrow> sl \<in> fst ` set reqs) \<and>
     bitset_wf (freeVLs st) \<and> nbits_m (freeVLs st) = act \<and> \<not> bitset_test (freeVLs st) 15 \<and>
     length (ps_SLtoSC st) = 32 \<and> length (ps_SCtoSL st) = 32 \<and>
     (\<forall>sl \<in> fst ` set reqs. block_ok rm scs act reqs (ps_SLtoSC st) (ps_SCtoSL st) sl \<and>
        (\<forall>v \<in> sl_vls rm scs reqs (ps_SLtoSC st) sl. \<not> bitset_test (freeVLs st) v) \<and>
        (\<forall>sl' \<in> fst ` set reqs. sl' \<noteq> sl \<longrightarrow>
           sl_vls rm scs reqs (ps_SLtoSC st) sl \<inter> sl_vls rm scs reqs (ps_SLtoSC st) sl' = {}))"

lemma width_snoc:
  "sl \<in> fst ` set reqs \<Longrightarrow> width rm (reqs @ [req]) sl = width rm reqs sl"
  "fst req \<notin> fst ` set reqs \<Longrightarrow> width rm (reqs @ [req]) (fst req) = num_routing_scs rm (fst req) (snd req)"
proof -
  assume "sl \<in> fst ` set reqs"
  then obtain y where "map_of reqs sl = Some y" by (metis domD dom_map_of_conv_image_fst)
  then show "width rm (reqs @ [req]) sl = width rm reqs sl" by (simp add: width_def map_add_def)
next
  assume "fst req \<notin> fst ` set reqs"
  then have "map_of reqs (fst req) = None" by (simp add: map_of_eq_None_iff)
  then show "width rm (reqs @ [req]) (fst req) = num_routing_scs rm (fst req) (snd req)"
    by (cases req) (simp add: width_def map_add_def)
qed

text \<open>A new SL: the block found, and what its placement changes.\<close>

lemma map_sl_new:
  assumes inv: "pop_inv rm scs act reqs st" and ok: "map_sl rm scs (sl, mc) st = Inr (VSTATUS_OK, st')"
    and new: "sl \<notin> fst ` set reqs" and n: "n = num_routing_scs rm sl mc"
  obtains vl sc where "sl < 32" "sc + n < 32" "\<And>k. k < n \<Longrightarrow> scs ! (sc + k) = vl + k \<and> bitset_test (freeVLs st) (vl + k)"
    "bitset_wf (freeVLs st')" "nbits_m (freeVLs st') = act"
    "\<And>j. bitset_test (freeVLs st') j \<Longrightarrow> bitset_test (freeVLs st) j \<and> \<not> (vl \<le> j \<and> j < vl + n)"
    "length (ps_SCtoSL st') = 32"
    "\<And>i. i < 32 \<Longrightarrow> ps_SCtoSL st' ! i = (if sc \<le> i \<and> i < sc + n then sl else ps_SCtoSL st ! i)"
    "mappedSLs st' = snd (bitset_set (mappedSLs st) sl)" "ps_SLtoSC st' = (ps_SLtoSC st)[sl := sc]"
proof -
  define st1 where "st1 = st\<lparr>mappedSLs := snd (bitset_set (mappedSLs st) sl)\<rparr>"
  have unmapped: "\<not> bitset_test (mappedSLs st) sl" using new inv by (simp add: pop_inv_def)
  obtain free vl sc where s: "vl_search (nbits_m (freeVLs st) + 2) scs n (freeVLs st) (bitset_find_first_one (freeVLs st)) = Inr (free, Some (vl, sc))"
    and sl: "sl < 32" and st': "st' = place_sl sl n vl sc (st1\<lparr>freeVLs := free\<rparr>)"
    using ok unmapped by (auto simp: map_sl_def Let_def n st1_def split: sum.splits option.splits if_splits)
  have wf: "bitset_wf (freeVLs st)" "nbits_m (freeVLs st) = act" using inv by (auto simp: pop_inv_def)
  note f = vl_search_found[OF s wf(1)]
  have blk: "scs ! (sc + k) = vl + k \<and> bitset_test (freeVLs st) (vl + k)" if "k < n" for k
    using f that by (auto simp: block_free_def list_all_iff)
  have sc: "sc + n < 32" using f by linarith
  let ?s = "st1\<lparr>freeVLs := free\<rparr>"
  have pre: "bitset_wf (freeVLs ?s)" "sc + n \<le> length (ps_SCtoSL ?s)" and l: "length (ps_SCtoSL ?s) = 32"
    using f sc inv by (auto simp: pop_inv_def st1_def)
  note e = place_sl_effect[OF pre, where sl = sl and vl = vl, folded st']
  have "ps_SCtoSL st' ! i = (if sc \<le> i \<and> i < sc + n then sl else ps_SCtoSL st ! i)" if "i < 32" for i
    using e(5)[of i] l that by (simp add: st1_def)
  moreover have "bitset_test (freeVLs st') j \<Longrightarrow> bitset_test (freeVLs st) j \<and> \<not> (vl \<le> j \<and> j < vl + n)" for j
    using e(3)[of j] f by simp
  ultimately show ?thesis
    using that[OF sl sc blk] e(1,2,4,6,7) l f wf(2) by (simp add: st1_def)
qed

lemma map_sl_inv_new:
  assumes inv: "pop_inv rm scs act reqs st" and ok: "map_sl rm scs (sl, mc) st = Inr (VSTATUS_OK, st')"
    and new: "sl \<notin> fst ` set reqs"
  shows "pop_inv rm scs act (reqs @ [(sl, mc)]) st'"
proof -
  define n where "n = num_routing_scs rm sl mc"
  define all where "all = reqs @ [(sl, mc)]"
  obtain vl sc where sl: "sl < 32" and sc: "sc + n < 32"
    and blk: "\<And>k. k < n \<Longrightarrow> scs ! (sc + k) = vl + k \<and> bitset_test (freeVLs st) (vl + k)"
    and free: "bitset_wf (freeVLs st')" "nbits_m (freeVLs st') = act"
      "\<And>j. bitset_test (freeVLs st') j \<Longrightarrow> bitset_test (freeVLs st) j \<and> \<not> (vl \<le> j \<and> j < vl + n)"
    and SC: "length (ps_SCtoSL st') = 32"
      "\<And>i. i < 32 \<Longrightarrow> ps_SCtoSL st' ! i = (if sc \<le> i \<and> i < sc + n then sl else ps_SCtoSL st ! i)"
    and st': "mappedSLs st' = snd (bitset_set (mappedSLs st) sl)" "ps_SLtoSC st' = (ps_SLtoSC st)[sl := sc]"
    using map_sl_new[OF inv ok new n_def] by metis
  have mapped: "bitset_wf (mappedSLs st')" "nbits_m (mappedSLs st') = 32"
      "\<And>x. bitset_test (mappedSLs st') x \<longleftrightarrow> x \<in> fst ` set all"
    using inv sl st'(1) bs.test_put[of "mappedSLs st" sl] by (auto simp: pop_inv_def bitset_set_wf all_def)
  have len: "length (ps_SLtoSC st) = 32" "length (ps_SLtoSC st') = 32" using inv st'(2) by (auto simp: pop_inv_def)
  have mem: "x = sl \<or> x \<in> fst ` set reqs" if "x \<in> fst ` set all" for x using that by (auto simp: all_def)
  have SL: "ps_SLtoSC st' ! x = (if x = sl then sc else ps_SLtoSC st ! x)" for x using st'(2) sl len by simp
  have w: "width rm all sl = n" "x \<in> fst ` set reqs \<Longrightarrow> width rm all x = width rm reqs x" for x
    using width_snoc(1)[of x reqs rm] width_snoc(2)[of "(sl, mc)" reqs rm] new by (auto simp: n_def all_def)
  have "sl_vls rm scs all (ps_SLtoSC st') sl = {scs ! (sc + k) | k. k < n}" using w(1) SL[of sl] by (simp add: sl_vls_def)
  also have "\<dots> = {vl + k | k. k < n}" by (rule Collect_cong) (metis blk)
  also have "\<dots> = {vl..<vl + n}" by auto (metis add_less_cancel_left le_add_diff_inverse)
  finally have vls_new: "sl_vls rm scs all (ps_SLtoSC st') sl = {vl..<vl + n}" .
  have vls_old: "sl_vls rm scs all (ps_SLtoSC st') x = sl_vls rm scs reqs (ps_SLtoSC st) x" if "x \<in> fst ` set reqs" for x
    using w(2)[OF that] SL[of x] that new by (auto simp: sl_vls_def)
  have old: "block_ok rm scs act reqs (ps_SLtoSC st) (ps_SCtoSL st) x"
      "\<And>v. v \<in> sl_vls rm scs reqs (ps_SLtoSC st) x \<Longrightarrow> \<not> bitset_test (freeVLs st) v"
      "\<And>y. y \<in> fst ` set reqs \<Longrightarrow> y \<noteq> x \<Longrightarrow> sl_vls rm scs reqs (ps_SLtoSC st) x \<inter> sl_vls rm scs reqs (ps_SLtoSC st) y = {}"
    if "x \<in> fst ` set reqs" for x using inv that unfolding pop_inv_def by blast+
  have was_free: "bitset_test (freeVLs st) v" if "v \<in> {vl..<vl + n}" for v using that blk[of "v - vl"] by auto
  have apart: "sl_vls rm scs reqs (ps_SLtoSC st) x \<inter> {vl..<vl + n} = {}" if "x \<in> fst ` set reqs" for x
    using old(2)[OF that] was_free by blast
  have "block_ok rm scs act all (ps_SLtoSC st') (ps_SCtoSL st') sl"
    using w(1) SL[of sl] blk blk[of 0] sc SC(2) was_free inv bs.test_capacity[of "freeVLs st"]
    by (auto simp: block_ok_def pop_inv_def)
  moreover have "block_ok rm scs act all (ps_SLtoSC st') (ps_SCtoSL st') x" if x: "x \<in> fst ` set reqs" for x
  proof -
    have "ps_SCtoSL st' ! (ps_SLtoSC st ! x + k) = x" if "k < width rm reqs x" for k
    proof -
      have k: "ps_SLtoSC st ! x + k < 32" "ps_SCtoSL st ! (ps_SLtoSC st ! x + k) = x" using old(1)[OF x] that by (auto simp: block_ok_def)
      have "scs ! (ps_SLtoSC st ! x + k) \<in> sl_vls rm scs reqs (ps_SLtoSC st) x" using that by (auto simp: sl_vls_def)
      moreover have "scs ! (ps_SLtoSC st ! x + k) \<in> {vl..<vl + n}"
        if "sc \<le> ps_SLtoSC st ! x + k" "ps_SLtoSC st ! x + k < sc + n"
        using that blk[of "ps_SLtoSC st ! x + k - sc"] by auto
      ultimately show ?thesis using apart[OF x] SC(2)[OF k(1)] k(2) by (auto split: if_splits)
    qed
    moreover have "x \<noteq> sl" using x new by blast
    ultimately show ?thesis using old(1)[OF x] w(2)[OF x] SL[of x] by (auto simp: block_ok_def)
  qed
  ultimately have blocks: "block_ok rm scs act all (ps_SLtoSC st') (ps_SCtoSL st') x" if "x \<in> fst ` set all" for x
    using mem[OF that] by blast
  have busy: "\<not> bitset_test (freeVLs st') v" if "x \<in> fst ` set all" "v \<in> sl_vls rm scs all (ps_SLtoSC st') x" for x v
  proof (cases "x = sl")
    case True
    then show ?thesis using that(2) vls_new free(3)[of v] by auto
  next
    case False
    then have "x \<in> fst ` set reqs" using mem[OF that(1)] by simp
    then show ?thesis using vls_old old(2)[of x v] that(2) free(3)[of v] by blast
  qed
  have disj: "sl_vls rm scs all (ps_SLtoSC st') x \<inter> sl_vls rm scs all (ps_SLtoSC st') y = {}"
    if xy: "x \<in> fst ` set all" "y \<in> fst ` set all" "y \<noteq> x" for x y
  proof -
    consider "x = sl" "y \<in> fst ` set reqs" | "y = sl" "x \<in> fst ` set reqs" | "x \<in> fst ` set reqs" "y \<in> fst ` set reqs"
      using mem[OF xy(1)] mem[OF xy(2)] xy(3) by blast
    then show ?thesis
    proof cases
      case 1
      then show ?thesis using vls_new vls_old[OF 1(2)] apart[OF 1(2)] by blast
    next
      case 2
      then show ?thesis using vls_new vls_old[OF 2(2)] apart[OF 2(2)] by blast
    next
      case 3
      then show ?thesis using vls_old[OF 3(1)] vls_old[OF 3(2)] old(3)[OF 3 xy(3)] by blast
    qed
  qed
  have "\<not> bitset_test (freeVLs st') 15" using free(3)[of 15] inv by (auto simp: pop_inv_def)
  then show ?thesis
    unfolding pop_inv_def all_def[symmetric] using mapped free(1,2) SC(1) len(2) blocks busy disj by blast
qed

lemma map_sl_inv:
  assumes inv: "pop_inv rm scs act reqs st" and ok: "map_sl rm scs req st = Inr (VSTATUS_OK, st')"
  shows "pop_inv rm scs act (reqs @ [req]) st'"
proof (cases "fst req \<in> fst ` set reqs")
  case True
  then have old: "st' = st" using ok inv by (auto simp: map_sl_def Let_def pop_inv_def)
  have "fst ` set (reqs @ [req]) = fst ` set reqs" using True by auto
  moreover have "block_ok rm scs act (reqs @ [req]) a b x = block_ok rm scs act reqs a b x"
      "sl_vls rm scs (reqs @ [req]) a x = sl_vls rm scs reqs a x" if "x \<in> fst ` set reqs" for x a b
    using width_snoc(1)[OF that, of rm req] by (simp_all add: block_ok_def sl_vls_def)
  ultimately show ?thesis using inv unfolding pop_inv_def old(1) by simp
next
  case False
  then show ?thesis using map_sl_inv_new[OF inv, of "fst req" "snd req"] ok by simp
qed

lemma map_sls_inv:
  assumes "pop_inv rm scs act done st" "map_sls rm scs reqs st = Inr (VSTATUS_OK, st')"
  shows "pop_inv rm scs act (done @ reqs) st'"
  using assms
proof (induction reqs arbitrary: "done" st)
  case (Cons req reqs)
  then obtain st1 where "map_sl rm scs req st = Inr (VSTATUS_OK, st1)" "map_sls rm scs reqs st1 = Inr (VSTATUS_OK, st')"
    by (auto split: sum.splits if_splits)
  then show ?case using Cons.IH[of "done @ [req]" st1] map_sl_inv[OF Cons.prems(1)] by simp
qed simp

lemma vl_bitset_wf: "n < 2 ^ 31 \<Longrightarrow> bitset_wf (vl_bitset n) \<and> nbits_m (vl_bitset n) = n"
  using bitset_init_wf[of n "\<lambda>_. True" "Some 0"] by (simp add: vl_bitset_def bitset_init_def)

lemma vl_bitset_empty: "n < 2 ^ 31 \<Longrightarrow> \<not> bitset_test (vl_bitset n) k"
  by (auto simp: vl_bitset_def bitset_init_def bitset_test_def words_for_bound)

lemma pop_inv_start:
  assumes "act < 256" "length a = 32" "length b = 32"
  defines "all \<equiv> bitset_set_all (vl_bitset act)"
  shows "pop_inv rm scs act []
    \<lparr>mappedSLs = vl_bitset STL_MAX_SLS, freeVLs = (if act > 15 then snd (bitset_clear all 15) else all), ps_SLtoSC = a, ps_SCtoSL = b\<rparr>"
proof -
  have v: "bitset_wf (vl_bitset act)" "nbits_m (vl_bitset act) = act" using assms(1) vl_bitset_wf[of act] by simp_all
  have n: "nbits_m all = act" using v(2) by (simp add: all_def bitset_set_all_def split: option.splits)
  have all: "bitset_wf all" "bitset_test all k \<longleftrightarrow> k < act" for k
    unfolding all_def using bitset_set_all_wf[OF v(1)] bitset_set_all_abs[OF v(1)] v(2) by (simp_all add: bitset_test_abs)
  show ?thesis
    unfolding pop_inv_def using all n vl_bitset_wf[of 32] vl_bitset_empty[of 32] assms(2,3)
    by (auto simp: test_clear bitset_clear_wf)
qed

lemma populate_blocks:
  assumes "PopulateSCtoSL rm qos vfs a b = Inr (VSTATUS_OK, SLtoSC, SCtoSL)"
    and "activeVLs qos < 256" and "length a = 32" and "length b = 32"
    and "v \<in> set (v_fabric_all vfs)" and "x \<in> vf_sls v" and "v' \<in> set (v_fabric_all vfs)" and "x' \<in> vf_sls v'"
  defines "reqs \<equiv> sl_requests (v_fabric_all vfs)"
  shows "block_ok rm (scvl qos) (activeVLs qos) reqs SLtoSC SCtoSL (unat x) \<and>
    (x \<noteq> x' \<longrightarrow> sl_vls rm (scvl qos) reqs SLtoSC (unat x) \<inter> sl_vls rm (scvl qos) reqs SLtoSC (unat x') = {})"
proof -
  let ?all = "bitset_set_all (vl_bitset (activeVLs qos))"
  obtain st where st: "map_sls rm (scvl qos) reqs
      \<lparr>mappedSLs = vl_bitset STL_MAX_SLS, freeVLs = (if activeVLs qos > 15 then snd (bitset_clear ?all 15) else ?all),
       ps_SLtoSC = a, ps_SCtoSL = b\<rparr> = Inr (VSTATUS_OK, st)" and "SLtoSC = ps_SLtoSC st" "SCtoSL = ps_SCtoSL st"
    using assms(1) by (auto simp: PopulateSCtoSL_def reqs_def Let_def split: sum.splits)
  moreover have "pop_inv rm (scvl qos) (activeVLs qos) reqs st"
    using map_sls_inv[OF pop_inv_start[OF assms(2-4)] st] by simp
  moreover have "unat x \<in> fst ` set reqs" "unat x' \<in> fst ` set reqs"
    using assms(5-8) by (auto simp: reqs_def sl_requests_def vf_sls_def image_iff)
  ultimately show ?thesis unfolding pop_inv_def by (metis unsigned_word_eqI)
qed

text \<open>
  A successful mapping gives every SL of every fabric a block of SCs on consecutive data VLs of its
  own: the SC table leads back to the SL, no VL is 15 or beyond the active ones, and different SLs
  use disjoint VLs.
\<close>

theorem populate_disjoint:
  assumes "PopulateSCtoSL rm qos vfs a b = Inr (VSTATUS_OK, SLtoSC, SCtoSL)"
    and "activeVLs qos < 256" and "length a = 32" and "length b = 32"
    and "v \<in> set (v_fabric_all vfs)" and "x \<in> vf_sls v" and "v' \<in> set (v_fabric_all vfs)" and "x' \<in> vf_sls v'"
  defines "reqs \<equiv> sl_requests (v_fabric_all vfs)"
  shows "block_ok rm (scvl qos) (activeVLs qos) reqs SLtoSC SCtoSL (unat x) \<and>
    (x \<noteq> x' \<longrightarrow> sl_vls rm (scvl qos) reqs SLtoSC (unat x) \<inter> sl_vls rm (scvl qos) reqs SLtoSC (unat x') = {})"
  unfolding reqs_def by (rule populate_blocks[OF assms(1-8)])

text \<open>The search gives up only when no free VL starts a block; the fuel is enough.\<close>

lemma find_next_one_bounds:
  assumes "bitset_wf b"
  obtains (none) "bitset_find_next_one b i = -1" "\<And>k. i \<le> k \<Longrightarrow> \<not> bitset_test b k"
    | (some) r where "bitset_find_next_one b i = int r" "i \<le> r" "i < nbits_m b" "\<And>k. i \<le> k \<Longrightarrow> k < r \<Longrightarrow> \<not> bitset_test b k"
proof (cases "i < nbits_m b")
  case False
  then have "\<not> bitset_test b k" if "i \<le> k" for k using that bs.test_capacity[OF assms] by fastforce
  then show ?thesis using False none by (simp add: bitset_find_next_one_def split: option.splits)
next
  case True
  then obtain bits where b: "bits_m b = Some bits" using assms by (cases "bits_m b") (auto simp: bitset_wf_def)
  let ?r = "find_next_loop (\<lambda>w. w = 0) (\<lambda>w j. w AND word_bit j \<noteq> 0) bits (nwords_m b) (i div 32) (i mod 32)"
  have eq: "bitset_find_next_one b i = find_result ?r" using b True by (simp add: bitset_find_next_one_def)
  note least = find_next_one_loop_least[OF True, of bits "nwords_m b"]
  note w = bitset_wf_Some[OF assms b] words_for_cover[of "nbits_m b"]
  show ?thesis
  proof (cases ?r)
    case None
    then have "\<not> (\<exists>k. i \<le> k \<and> k < 32 * nwords_m b \<and> bit_at bits k)" using least is_least_ex[of "bit_at bits"] by (metis option.distinct(1))
    then have "\<not> bitset_test b k" if "i \<le> k" for k using that w by (auto simp: bitset_test_bit_at[OF b])
    then show ?thesis using none eq None by (simp add: find_result_None)
  next
    case (Some r)
    then have r: "is_least (bit_at bits) i (32 * nwords_m b) r" using least by blast
    then have "r < 2 ^ 31 + 32" using w by (auto simp: is_least_def)
    have "32 * words_for (nbits_m b) \<le> 2 ^ 31"
    proof -
      have "nbits_m b \<le> 2 ^ 31" "words_for (2 ^ 31) = 2 ^ 26" using w(4) by (simp_all add: words_for_def)
      then show ?thesis using words_for_mono[of "nbits_m b" "2 ^ 31"] by simp
    qed
    then have "r < 2 ^ 31" using r w(2) by (auto simp: is_least_def)
    then show ?thesis using some[of r] eq Some True r by (auto simp: find_result_Some is_least_def bitset_test_bit_at[OF b])
  qed
qed

definition starts_block :: "nat list \<Rightarrow> nat \<Rightarrow> bitset_t \<Rightarrow> nat \<Rightarrow> bool" where
  "starts_block scs n free v \<longleftrightarrow> (\<exists>sc. find_sc scs n v = Inr sc \<and> sc < STL_MAX_SCS - n \<and> block_free scs n free v sc)"

lemma vl_search_complete:
  assumes "vl_search fuel scs n free vl = Inr (free', None)" "bitset_wf free" "vl = bitset_find_next_one free i"
    "nbits_m free - i + 1 \<le> fuel" "i \<le> v" "bitset_test free v"
  shows "\<not> starts_block scs n free v"
  using assms
proof (induction fuel arbitrary: free vl i)
  case (Suc fuel)
  from Suc.prems(2) show ?case
  proof (cases rule: find_next_one_bounds[of free i])
    case none
    then show ?thesis using Suc.prems(5,6) by blast
  next
    case (some r)
    then have vl: "vl = int r" "nat vl = r" using Suc.prems(3) by simp_all
    obtain s where s: "find_sc scs n r = Inr s" using Suc.prems(1) vl by (auto split: sum.splits)
    have "r \<le> v" using some(4) Suc.prems(5,6) by (meson not_le)
    have fuel: "nbits_m free - (r + 1) + 1 \<le> fuel" using Suc.prems(4) some(2,3) by linarith
    define free1 where "free1 = (if s \<ge> STL_MAX_SCS - n then snd (bitset_clear free r) else free)"
    have hit: "\<not> (s < STL_MAX_SCS - n \<and> block_free scs n free r s)" using Suc.prems(1) vl s by (auto split: if_splits)
    then have nxt: "vl_search fuel scs n free1 (bitset_find_next_one free1 (r + 1)) = Inr (free', None)"
      using Suc.prems(1) vl s by (auto simp: free1_def Let_def split: if_splits)
    have f1: "bitset_wf free1" "nbits_m free1 = nbits_m free" "\<And>k. r < k \<Longrightarrow> bitset_test free1 k = bitset_test free k"
      using Suc.prems(2) by (auto simp: free1_def bitset_clear_wf test_clear)
    show ?thesis
    proof (cases "v = r")
      case True
      then show ?thesis using hit s by (auto simp: starts_block_def)
    next
      case False
      then have "r < v" using \<open>r \<le> v\<close> by simp
      then have "\<not> starts_block scs n free1 v"
        using Suc.IH[OF nxt f1(1) refl] fuel f1(2,3) Suc.prems(6) by simp
      then show ?thesis using f1(3) \<open>r < v\<close> by (auto simp: starts_block_def block_free_def list_all_iff)
    qed
  qed
qed simp

lemma map_sl_fails:
  assumes "map_sl rm scs (sl, mc) st = Inr (VSTATUS_BAD, st')" "bitset_wf (freeVLs st)" "bitset_test (freeVLs st) v"
  shows "\<not> starts_block scs (num_routing_scs rm sl mc) (freeVLs st) v"
proof -
  obtain free where s: "vl_search (nbits_m (freeVLs st) + 2) scs (num_routing_scs rm sl mc) (freeVLs st)
      (bitset_find_first_one (freeVLs st)) = Inr (free, None)"
    using assms(1) by (auto simp: map_sl_def Let_def simp del: vl_search.simps split: sum.splits option.splits if_splits)
  show ?thesis
    using vl_search_complete[OF s assms(2) _ _ _ assms(3), of 0] by (simp add: bitset_find_first_one_def)
qed

text \<open>The number of active VLs of a table is the number of its data VLs.\<close>

lemma fold_mark_row:
  assumes "bitset_wf b" "nbits_m b = 32" "\<forall>i\<in>set is. row ! i < 32"
  shows "bitset_wf (fold (\<lambda>i b. if row ! i \<noteq> 15 then snd (bitset_set b (row ! i)) else b) is b) \<and>
    (\<forall>k. bitset_test (fold (\<lambda>i b. if row ! i \<noteq> 15 then snd (bitset_set b (row ! i)) else b) is b) k \<longleftrightarrow>
      bitset_test b k \<or> k \<in> (!) row ` set is - {15})"
  using assms
proof (induction "is" arbitrary: b)
  case (Cons i "is")
  let ?b = "if row ! i \<noteq> 15 then snd (bitset_set b (row ! i)) else b"
  have "bitset_wf ?b" "nbits_m ?b = 32" "\<And>k. bitset_test ?b k \<longleftrightarrow> bitset_test b k \<or> (k = row ! i \<and> k \<noteq> 15)"
    using Cons.prems bs.test_put[of b "row ! i"] by (auto simp: bitset_set_wf)
  then show ?case using Cons.IH[of ?b] Cons.prems(3) by auto
qed simp

lemma fill_activeVLs:
  assumes "alloc 4" "1 \<le> n"
  defines "row \<equiv> sm_globalSCVLMatrix ! min n 8"
  shows "scvl (sm_fill_SCVLMap alloc (new_qos n)) = row"
    "list_all (\<lambda>x. x < 32) row \<Longrightarrow> length row = 32 \<Longrightarrow> activeVLs (sm_fill_SCVLMap alloc (new_qos n)) = card (set row - {15})"
proof -
  define b0 where "b0 = snd (bitset_init alloc (Some 0) 32)"
  let ?b = "fold (\<lambda>i b. if row ! i \<noteq> 15 then snd (bitset_set b (row ! i)) else b) [0..<32] b0"
  have init: "bitset_init alloc (Some 0) 32 = (True, b0)" using assms(1) by (simp add: b0_def bitset_init_def words_for_def)
  have sel: "(if numVLs (new_qos n) > 8 then 8 else numVLs (new_qos n)) = min n 8" by (simp add: new_qos_def)
  have fill: "sm_fill_SCVLMap alloc (new_qos n) = (new_qos n)\<lparr>scvl := row, activeVLs := bitset_nset ?b\<rparr>"
    using assms(2) unfolding sm_fill_SCVLMap_def Let_def row_def sel init by (simp add: min_def del: upt.simps upt_Suc)
  then show "scvl (sm_fill_SCVLMap alloc (new_qos n)) = row" by simp
  assume r: "list_all (\<lambda>x. x < 32) row" "length row = 32"
  have b0: "bitset_wf b0" "nbits_m b0 = 32" using assms(1) bitset_init_wf[of 32 alloc "Some 0"]
    by (simp_all add: b0_def bitset_init_def words_for_def)
  have e: "\<not> bitset_test b0 k" for k using assms(1) by (auto simp: b0_def bitset_init_def words_for_def bitset_test_def)
  have "\<forall>i\<in>set [0..<32]. row ! i < 32" using r by (auto simp: list_all_length)
  note m = fold_mark_row[OF b0 this]
  have "(!) row ` set [0..<32] = set row" using r(2) nth_image[of 32 row] by simp
  then have "{k. bitset_test ?b k} = set row - {15}" using m e by auto
  then show "activeVLs (sm_fill_SCVLMap alloc (new_qos n)) = card (set row - {15})"
    using fill m bs.population_card[of ?b] by simp
qed

lemma row_6_7:
  assumes "n = 6 \<or> n = 7"
  shows "length (sm_globalSCVLMatrix ! min n 8) = 32" "list_all (\<lambda>x. x < 32) (sm_globalSCVLMatrix ! min n 8)"
    "set (sm_globalSCVLMatrix ! min n 8) - {15} = {0, 1, 2, 3, n - 1}"
proof -
  have row: "sm_globalSCVLMatrix ! min n 8 = [0, 1, 2, 3, 0, 1, 2, 3, 0, 1, 2, 3, 0, 1, 2, 15,
       0, 1, 2, 3, 0, 1, 2, 3, 0, 1, 2, 3, 0, 1, n - 1, 15]" using assms by (auto simp: sm_globalSCVLMatrix_def)
  show "length (sm_globalSCVLMatrix ! min n 8) = 32" "list_all (\<lambda>x. x < 32) (sm_globalSCVLMatrix ! min n 8)"
    using assms by (auto simp: row)
  show "set (sm_globalSCVLMatrix ! min n 8) - {15} = {0, 1, 2, 3, n - 1}"
    unfolding row using assms by (elim disjE) force+
qed

text \<open>
  With 6 or 7 VLs the tables use five data VLs, 0 to 3 and the last one, but the mapping only
  considers VL numbers below the number of active VLs: when every SL needs one SC, at most four SLs
  can be mapped.
\<close>

theorem six_or_seven_vls_map_four_sls:
  assumes "n = 6 \<or> n = 7" and "\<forall>sl mc. num_routing_scs rm sl mc = 1"
  defines "qos \<equiv> sm_fill_SCVLMap (\<lambda>_. True) (new_qos n)"
  assumes "PopulateSCtoSL rm qos vfs (replicate 32 15) (replicate 32 0xff) = Inr (VSTATUS_OK, SLtoSC, SCtoSL)"
  shows "activeVLs qos = 5 \<and> card (\<Union> (vf_sls ` set (v_fabric_all vfs))) \<le> 4"
proof -
  have n: "1 \<le> n" using assms(1) by auto
  note row = row_6_7[OF assms(1)]
  have scs: "scvl qos = sm_globalSCVLMatrix ! min n 8"
    unfolding qos_def by (rule fill_activeVLs(1)) (use n in simp_all)
  have "activeVLs qos = card (set (sm_globalSCVLMatrix ! min n 8) - {15})"
    unfolding qos_def by (rule fill_activeVLs(2)) (use n row in simp_all)
  then have "activeVLs qos = card {0, 1, 2, 3, n - 1}" using row(3) by simp
  then have act: "activeVLs qos = 5" using assms(1) by (elim disjE) simp_all
  let ?sls = "\<Union> (vf_sls ` set (v_fabric_all vfs))"
  let ?f = "\<lambda>x. scvl qos ! (SLtoSC ! unat x)"
  define reqs where "reqs = sl_requests (v_fabric_all vfs)"
  have w: "width rm reqs sl = 1" for sl using assms(2) by (simp add: width_def)
  have p: "block_ok rm (scvl qos) 5 reqs SLtoSC SCtoSL (unat x) \<and>
      (x \<noteq> x' \<longrightarrow> sl_vls rm (scvl qos) reqs SLtoSC (unat x) \<inter> sl_vls rm (scvl qos) reqs SLtoSC (unat x') = {})"
    if xx: "x \<in> ?sls" "x' \<in> ?sls" for x x'
  proof -
    obtain v v' where "v \<in> set (v_fabric_all vfs)" "x \<in> vf_sls v" "v' \<in> set (v_fabric_all vfs)" "x' \<in> vf_sls v'"
      using xx by blast
    moreover have "activeVLs qos < 256" "length (replicate 32 (15 :: nat)) = 32" "length (replicate 32 (0xff :: nat)) = 32"
      using act by simp_all
    ultimately show ?thesis using populate_blocks[OF assms(4)] unfolding reqs_def act by blast
  qed
  have vl4: "?f x \<in> {0, 1, 2, 3}" if "x \<in> ?sls" for x
  proof -
    have b: "SLtoSC ! unat x < 31" "?f x < 5" "?f x \<noteq> 15" using p[OF that that] w by (auto simp: block_ok_def)
    then have "?f x \<in> set (scvl qos)" using scs row(1) by (intro nth_mem) simp
    with b(3) have "?f x \<in> set (scvl qos) - {15}" by simp
    then have "?f x \<in> {0, 1, 2, 3, n - 1}" unfolding scs row(3) .
    then show ?thesis using b(2) assms(1) by auto
  qed
  have inj: "inj_on ?f ?sls"
  proof (rule inj_onI, rule ccontr)
    fix x y assume xy: "x \<in> ?sls" "y \<in> ?sls" "?f x = ?f y" "x \<noteq> y"
    have "?f z \<in> sl_vls rm (scvl qos) reqs SLtoSC (unat z)" for z using w by (auto simp: sl_vls_def)
    then show False using p[OF xy(1,2)] xy(3,4) by (metis IntI empty_iff)
  qed
  have "?f ` ?sls \<subseteq> {0, 1, 2, 3}" using vl4 by (rule image_subsetI)
  then have "card ?sls \<le> card {0, 1, 2, 3 :: nat}" using inj by (intro card_inj_on_le[of ?f]) auto
  then show ?thesis using act by simp
qed

section \<open>Division of bandwidth\<close>

definition total_bw :: "u8 list \<Rightarrow> nat" where
  "total_bw bws = (\<Sum>x\<leftarrow>bws. unat x)"

lemma total_bw_update: "i < length bws \<Longrightarrow> total_bw (bws[i := x]) + unat (bws ! i) = total_bw bws + unat x"
proof (induction bws arbitrary: i)
  case (Cons b bws)
  then show ?case by (cases i) (auto simp: total_bw_def)
qed simp

lemma nth_le_total: "i < length bws \<Longrightarrow> unat (bws ! i) \<le> total_bw bws"
  unfolding total_bw_def by (intro member_le_sum_list) simp_all

lemma total_bw_add:
  assumes "i < length bws" "total_bw bws + k < 256"
  shows "total_bw (bws[i := bws ! i + of_nat k]) = total_bw bws + k"
proof -
  have "unat (bws ! i + of_nat k) = unat (bws ! i) + k"
    using assms nth_le_total[OF assms(1)] by (simp add: unat_word_ariths unat_of_nat)
  then show ?thesis using total_bw_update[OF assms(1), of "bws ! i + of_nat k"] by simp
qed

lemma divide_bw_total:
  assumes "\<forall>vl\<in>set vls. vl < length bws" "total_bw bws + b < 256" "num = length vls"
  shows "total_bw (divide_bw vls b num bws) = total_bw bws + (if vls = [] then 0 else b) \<and>
    length (divide_bw vls b num bws) = length bws"
  using assms
proof (induction vls arbitrary: bws b num)
  case (Cons vl vls)
  let ?part = "b div num" and ?bws = "bws[vl := bws ! vl + of_nat (b div num)]"
  have part: "?part \<le> b" by simp
  have t: "total_bw ?bws = total_bw bws + ?part" using Cons.prems(1) le_less_trans[OF add_left_mono[OF part] Cons.prems(2)] by (intro total_bw_add) auto
  have "vls = [] \<Longrightarrow> ?part = b" using Cons.prems(3) by simp
  then show ?case using Cons.IH[of ?bws "b - ?part" "num - 1"] Cons.prems t part by auto
qed simp

lemma vls_of_sl_length: "vls_of_sl scs SLtoSC n sl = Inr vls \<Longrightarrow> length vls = n"
  by (auto simp: vls_of_sl_def split: if_splits)

lemma vls_of_sl_set: "vls_of_sl scs SLtoSC n sl = Inr vls \<Longrightarrow> length scs = 32 \<Longrightarrow> set vls \<subseteq> set scs"
  by (auto simp: vls_of_sl_def split: if_splits)

lemma collect_vls_facts:
  "collect_vls scs SLtoSC xs = Inr vls \<Longrightarrow> length scs = 32 \<Longrightarrow> length vls = sum_list (map snd xs) \<and> set vls \<subseteq> set scs"
proof (induction scs SLtoSC xs arbitrary: vls rule: collect_vls.induct)
  case (2 scs SLtoSC sl n xs)
  from "2.prems"(1) obtain a b where "vls_of_sl scs SLtoSC n sl = Inr a" "collect_vls scs SLtoSC xs = Inr b" "vls = a @ b"
    by (auto split: sum.splits)
  then show ?case using "2.IH"[of a b] "2.prems"(2) vls_of_sl_length[of scs SLtoSC n sl a] vls_of_sl_set[of scs SLtoSC n sl a] by auto
qed simp

text \<open>Tables of a set of VLs: VL numbers in range, one byte of bandwidth for each.\<close>

definition qos_ok :: "Qos_t \<Rightarrow> bool" where
  "qos_ok q \<longleftrightarrow> length (scvl q) = 32 \<and> (\<forall>v\<in>set (scvl q). v < 32) \<and> length (bw q) = 32 \<and> activeVLs q \<le> 32"

lemma DivideBwUp_total:
  assumes "qos_ok q" "total_bw (bw q) + b < 256" "0 < num_routing_scs rm base False"
    and "DivideBwUp rm q b base resp mcast SLtoSC = Inr q'"
  shows "total_bw (bw q') = total_bw (bw q) + b \<and> activeVLs q' = activeVLs q \<and> qos_ok q'"
proof -
  let ?n = "num_routing_scs rm"
  define sls where "sls = (if mcast = base \<or> mcast = resp then [] else [(mcast, ?n mcast True)]) @
                (if resp = base then [] else [(resp, ?n resp False)]) @ [(base, ?n base False)]"
  define num where "num = ?n base False + (if resp \<noteq> base then ?n resp False else 0) +
                    (if mcast \<noteq> base \<and> mcast \<noteq> resp then ?n mcast True else 0)"
  obtain vls where v: "collect_vls (scvl q) SLtoSC sls = Inr vls" and q': "q' = q\<lparr>bw := divide_bw vls b num (bw q)\<rparr>"
    using assms(4) by (auto simp: DivideBwUp_def Let_def sls_def num_def split: sum.splits)
  have l: "length (scvl q) = 32" "length (bw q) = 32" using assms(1) by (auto simp: qos_ok_def)
  have "sum_list (map snd sls) = num" by (simp add: sls_def num_def)
  then have f: "num = length vls" "set vls \<subseteq> set (scvl q)" using collect_vls_facts[OF v l(1)] by auto
  have "vls \<noteq> []" using f(1) assms(3) by (auto simp: num_def)
  moreover have "\<forall>vl\<in>set vls. vl < length (bw q)" using f(2) assms(1) by (auto simp: qos_ok_def)
  ultimately show ?thesis using divide_bw_total[OF _ assms(2) f(1)] q' assms(1) by (auto simp: qos_ok_def)
qed

text \<open>Marking the VLs leaves the tables and the bandwidths alone.\<close>

definition same_tables :: "Qos_t \<Rightarrow> Qos_t \<Rightarrow> bool" where
  "same_tables q q' \<longleftrightarrow> bw q' = bw q \<and> scvl q' = scvl q \<and> activeVLs q' = activeVLs q"

lemma same_tables_refl: "same_tables q q" and same_tables_trans: "same_tables a b \<Longrightarrow> same_tables b c \<Longrightarrow> same_tables a c"
  by (simp_all add: same_tables_def)

lemma setup_vl_same: "same_tables q (setup_vl v vf vl q)"
  by (auto simp: same_tables_def setup_vl_def AddVfToVl_def split: option.splits)

lemma fold_setup_vl_same: "same_tables q (fold (\<lambda>j. setup_vl v vf (f j)) js q)"
proof (induction js arbitrary: q)
  case (Cons j js)
  show ?case unfolding fold.simps comp_apply by (rule same_tables_trans[OF setup_vl_same Cons.IH])
qed (simp add: same_tables_refl)

lemma setup_sls_same: "setup_sls rm SLtoSC v vf reqs q = Inr q' \<Longrightarrow> same_tables q q'"
proof (induction reqs arbitrary: q)
  case (Cons r reqs)
  from Cons.prems obtain q1 where 1: "setup_sl rm SLtoSC v vf r q = Inr q1" "setup_sls rm SLtoSC v vf reqs q1 = Inr q'"
    by (auto split: sum.splits)
  then have "same_tables q q1" using fold_setup_vl_same by (auto simp: setup_sl_def Let_def split: if_splits)
  then show ?case using Cons.IH[OF 1(2)] same_tables_trans by blast
qed (simp add: same_tables_refl)

lemma setup_vfs_same: "setup_vfs rm SLtoSC vs vf q = Inr q' \<Longrightarrow> same_tables q q'"
proof (induction vs arbitrary: vf q)
  case (Cons v vs)
  from Cons.prems obtain q1 where "setup_sls rm SLtoSC v vf (setup_requests v) q = Inr q1" "setup_vfs rm SLtoSC vs (vf + 1) q1 = Inr q'"
    by (auto split: sum.splits)
  then show ?case using setup_sls_same Cons.IH same_tables_trans by blast
qed (simp add: same_tables_refl)

text \<open>The bandwidth loop: the sum of the low-priority fabrics, and the part of the others.\<close>

definition last_nonqos_bw :: "VF_t list \<Rightarrow> nat \<Rightarrow> nat" where
  "last_nonqos_bw vs d = fold (\<lambda>v d. if qos_enable v then d else unat (percent_bandwidth v)) vs d"

lemma bw_vfs_total:
  assumes "qos_ok q" "\<forall>sl mc. 0 < num_routing_scs rm sl mc" "int (total_bw (bw q)) + low_bw vs < 256"
    and "bw_vfs rm SLtoSC vs a q = Inr (a', q')"
  shows "int (total_bw (bw q')) = int (total_bw (bw q)) + low_bw vs \<and> qos_ok q' \<and> activeVLs q' = activeVLs q \<and>
    nonQosBw a' = last_nonqos_bw vs (nonQosBw a)"
  using assms(1,3,4)
proof (induction vs arbitrary: a q)
  case (Cons v vs)
  have low: "0 \<le> low_bw vs" by (auto simp: low_bw_def bw_of_def intro!: sum_list_nonneg)
  show ?case
  proof (cases "low_qos v")
    case True
    then obtain q1 where 1: "DivideBwUp rm q (unat (percent_bandwidth v)) (unat (base_sl v)) (unat (resp_sl v)) (unat (mcast_sl v)) SLtoSC = Inr q1"
        "bw_vfs rm SLtoSC vs a q1 = Inr (a', q')"
      using Cons.prems(3) by (auto simp: low_qos_def split: sum.splits)
    have l: "low_bw (v # vs) = int (unat (percent_bandwidth v)) + low_bw vs" using True by (simp only: low_bw_Cons bw_of_def if_True)
    have "int (total_bw (bw q) + unat (percent_bandwidth v)) < int 256"
      using Cons.prems(2) low unfolding l by (simp only: of_nat_add of_nat_numeral)
    then have lt: "total_bw (bw q) + unat (percent_bandwidth v) < 256" by (simp only: of_nat_less_iff)
    have d: "total_bw (bw q1) = total_bw (bw q) + unat (percent_bandwidth v)" "qos_ok q1" "activeVLs q1 = activeVLs q"
      using DivideBwUp_total[OF Cons.prems(1) lt _ 1(1)] assms(2) by auto
    have i: "int (total_bw (bw q1)) + low_bw vs = int (total_bw (bw q)) + low_bw (v # vs)" using d(1) l by simp
    show ?thesis using Cons.IH[OF d(2) _ 1(2)] d(3) i Cons.prems(2) True by (simp add: last_nonqos_bw_def low_qos_def)
  next
    case False
    have "low_bw (v # vs) = low_bw vs" using False by (simp add: low_bw_Cons)
    then show ?thesis
      using Cons.IH[OF Cons.prems(1)] Cons.prems(2,3) False
      by (auto simp: last_nonqos_bw_def low_qos_def note_nonqos_def split: if_splits)
  qed
qed (simp add: low_bw_def last_nonqos_bw_def)

lemma SetupQos_total:
  assumes "qos_ok q" "\<forall>sl mc. 0 < num_routing_scs rm sl mc" "SetupQos rm q vfs SLtoSC = Inr q'"
    and "int (total_bw (bw q)) + low_bw (v_fabric vfs) + int (last_nonqos_bw (v_fabric vfs) 0) < 256"
  shows "int (total_bw (bw q')) = int (total_bw (bw q)) + low_bw (v_fabric vfs) + int (last_nonqos_bw (v_fabric vfs) 0) \<and>
    qos_ok q' \<and> activeVLs q' = activeVLs q"
proof -
  obtain q1 q2 a where 1: "setup_vfs rm SLtoSC (v_fabric vfs) 0 (q\<lparr>vlvf := replicate STL_MAX_VLS (replicate MAX_VFABRICS (-1))\<rparr>) = Inr q1"
    and 2: "bw_vfs rm SLtoSC (v_fabric vfs) \<lparr>nonQosBw = 0, nonQos_base_sl = -1, nonQos_resp_sl = -1, nonQos_mcast_sl = -1\<rparr> q1 = Inr (a, q2)"
    using assms(3) by (auto simp: SetupQos_def split: sum.splits)
  have s: "bw q1 = bw q" "qos_ok q1" "activeVLs q1 = activeVLs q" using setup_vfs_same[OF 1] assms(1) by (auto simp: same_tables_def qos_ok_def)
  have t: "int (total_bw (bw q2)) = int (total_bw (bw q)) + low_bw (v_fabric vfs)" "qos_ok q2" "activeVLs q2 = activeVLs q"
      "nonQosBw a = last_nonqos_bw (v_fabric vfs) 0"
    using bw_vfs_total[OF s(2) assms(2) _ 2] s assms(4) by auto
  show ?thesis
  proof (cases "nonQosBw a = 0")
    case True
    then show ?thesis using assms(3) 1 2 t by (simp add: SetupQos_def)
  next
    case False
    then obtain base resp mcast where d: "DivideBwUp rm q2 (nonQosBw a) base resp mcast SLtoSC = Inr q'"
      using assms(3) 1 2 by (auto simp: SetupQos_def Let_def)
    have "total_bw (bw q2) + nonQosBw a < 256" using t assms(4) by simp
    note e = DivideBwUp_total[OF t(2) this _ d]
    show ?thesis using e assms(2) t by simp
  qed
qed

section \<open>Rounding\<close>

lemma min_and_base_range:
  "0 < fst a \<Longrightarrow> fst a < 256 \<Longrightarrow> 0 < fst (fold (min_and_base bws) vls a) \<and> fst (fold (min_and_base bws) vls a) < 256"
proof (induction vls arbitrary: a)
  case (Cons vl vls)
  have "0 < fst (min_and_base bws vl a) \<and> fst (min_and_base bws vl a) < 256"
    using Cons.prems unsigned_less[of "bws ! vl", where ?'a = nat] by (auto simp: min_and_base_def Let_def)
  then show ?case using Cons.IH by simp
qed simp

lemma weight_nonzero: "weightMultiplier (setWeightMultiplier q) \<noteq> 0"
proof -
  obtain m t where f: "fold (min_and_base (bw q)) (bitset_ones (lowPriorityVLs q)) (255, True) = (m, t)" by fastforce
  have "0 < m" "m < 256" using min_and_base_range[of "(255, True)" "bw q" "bitset_ones (lowPriorityVLs q)"] f by auto
  moreover have nz: "(of_nat k :: u8) \<noteq> 0" if "0 < k" "k < 256" for k :: nat
  proof -
    have "unat (of_nat k :: u8) = k" using that(2) by (simp add: unat_of_nat)
    then show ?thesis using that(1) by (metis less_irrefl unat_0)
  qed
  ultimately show ?thesis using f by (auto simp: setWeightMultiplier_def Let_def)
qed

lemma total_bw_take: "total_bw (take n bws) \<le> total_bw bws"
  unfolding total_bw_def by (metis append_take_drop_id map_append sum_list_append le_add1)

lemma rows_ok: "1 \<le> n \<Longrightarrow> length (sm_globalSCVLMatrix ! min n 8) = 32 \<and> list_all (\<lambda>x. x < 32) (sm_globalSCVLMatrix ! min n 8)"
proof -
  assume "1 \<le> n"
  have l: "length sm_globalSCVLMatrix = 9" by (simp add: sm_globalSCVLMatrix_def)
  have "list_all (\<lambda>r. length r = 32 \<and> list_all (\<lambda>x. x < 32) r) sm_globalSCVLMatrix"
    by (simp add: sm_globalSCVLMatrix_def list_all_iff)
  moreover have "min n 8 < 9" by simp
  ultimately show ?thesis using l unfolding list_all_length by presburger
qed

lemma filled_qos_ok:
  assumes "alloc 4" "1 \<le> n"
  shows "qos_ok (sm_fill_SCVLMap alloc (new_qos n))" "total_bw (bw (sm_fill_SCVLMap alloc (new_qos n))) = 0"
proof -
  let ?row = "sm_globalSCVLMatrix ! min n 8" and ?q = "sm_fill_SCVLMap alloc (new_qos n)"
  have row: "length ?row = 32" "list_all (\<lambda>x. x < 32) ?row" using rows_ok[OF assms(2)] by auto
  have s: "scvl ?q = ?row" "activeVLs ?q = card (set ?row - {15})"
    using fill_activeVLs(1)[where alloc = alloc, OF assms] fill_activeVLs(2)[where alloc = alloc, OF assms row(2,1)] by auto
  have "card (set ?row - {15}) \<le> length ?row" by (metis card_Diff1_le card_length le_trans)
  moreover have b: "bw ?q = replicate 32 0"
    by (simp add: sm_fill_SCVLMap_def new_qos_def Let_def split: prod.splits bool.splits)
  ultimately show "qos_ok ?q" using s row by (auto simp: qos_ok_def list_all_iff)
  show "total_bw (bw ?q) = 0" using b by (simp add: total_bw_def map_replicate_const sum_list_replicate)
qed

lemma last_nonqos_given:
  "list_all2 (bw_given nq) vs vs' \<Longrightarrow>
   int (last_nonqos_bw vs' d) = (if without_qos vs \<noteq> 0 then nq else int d)"
proof (induction arbitrary: d rule: list_all2_induct)
  case (Cons v vs v' vs')
  have "v' = v\<lparr>percent_bandwidth := percent_bandwidth v'\<rparr>" using Cons(1) by (simp add: bw_given_def)
  then have "qos_enable v' = qos_enable v" by (metis VF_t.select_convs(3) VF_t.surjective VF_t.update_convs(9))
  then show ?case using Cons.IH Cons(1) by (auto simp: last_nonqos_bw_def bw_given_def bw_of_def)
qed (simp add: last_nonqos_bw_def)

text \<open>The set-up succeeds on tables with room for every SL of a fabric.\<close>

definition room :: "RoutingModule_t \<Rightarrow> nat list \<Rightarrow> VF_t \<Rightarrow> bool" where
  "room rm SLtoSC v \<longleftrightarrow> (\<forall>x\<in>vf_sls v. \<forall>mc. unat x < 32 \<and> SLtoSC ! unat x + num_routing_scs rm (unat x) mc \<le> 32)"

lemma setup_sls_succeeds:
  assumes "\<forall>(sl, mc)\<in>set reqs. sl < 32 \<and> SLtoSC ! sl + num_routing_scs rm sl mc \<le> 32"
  shows "\<exists>q'. setup_sls rm SLtoSC v vf reqs q = Inr q'"
  using assms by (induction reqs arbitrary: q) (auto simp: setup_sl_def Let_def)

lemma setup_vfs_succeeds:
  assumes "\<forall>v\<in>set vs. room rm SLtoSC v"
  shows "\<exists>q'. setup_vfs rm SLtoSC vs vf q = Inr q'"
  using assms
proof (induction vs arbitrary: vf q)
  case (Cons v vs)
  have "\<forall>(sl, mc)\<in>set (setup_requests v). sl < 32 \<and> SLtoSC ! sl + num_routing_scs rm sl mc \<le> 32"
    using Cons.prems by (auto simp: setup_requests_def room_def vf_sls_def)
  then obtain q1 where "setup_sls rm SLtoSC v vf (setup_requests v) q = Inr q1" using setup_sls_succeeds by blast
  then show ?case using Cons by simp
qed simp

lemma DivideBwUp_succeeds:
  assumes "\<forall>sl\<in>{base, resp, mcast}. \<forall>mc. sl < 32 \<and> SLtoSC ! sl + num_routing_scs rm sl mc \<le> 32"
  shows "\<exists>q'. DivideBwUp rm q b base resp mcast SLtoSC = Inr q'"
  using assms by (auto simp: DivideBwUp_def Let_def vls_of_sl_def)

lemma bw_vfs_succeeds:
  assumes "\<forall>v\<in>set vs. room rm SLtoSC v"
  shows "\<exists>a' q'. bw_vfs rm SLtoSC vs a q = Inr (a', q')"
  using assms
proof (induction vs arbitrary: a q)
  case (Cons v vs)
  have "\<forall>sl\<in>{unat (base_sl v), unat (resp_sl v), unat (mcast_sl v)}. \<forall>mc. sl < 32 \<and> SLtoSC ! sl + num_routing_scs rm sl mc \<le> 32"
    using Cons.prems by (simp add: room_def vf_sls_def)
  then obtain q1 where "DivideBwUp rm q (unat (percent_bandwidth v)) (unat (base_sl v)) (unat (resp_sl v)) (unat (mcast_sl v)) SLtoSC = Inr q1"
    using DivideBwUp_succeeds by blast
  then show ?case using Cons by simp
qed simp

lemma SetupQos_succeeds:
  assumes "\<forall>v\<in>set (v_fabric vfs). room rm SLtoSC v" "\<forall>v\<in>set (v_fabric vfs). qos_enable v"
  shows "\<exists>q'. SetupQos rm q vfs SLtoSC = Inr q'"
proof -
  let ?a = "\<lparr>nonQosBw = 0, nonQos_base_sl = -1, nonQos_resp_sl = -1, nonQos_mcast_sl = -1\<rparr>"
  obtain q1 where 1: "setup_vfs rm SLtoSC (v_fabric vfs) 0 (q\<lparr>vlvf := replicate STL_MAX_VLS (replicate MAX_VFABRICS (-1))\<rparr>) = Inr q1"
    using setup_vfs_succeeds[OF assms(1)] by blast
  obtain a q2 where 2: "bw_vfs rm SLtoSC (v_fabric vfs) ?a q1 = Inr (a, q2)" using bw_vfs_succeeds[OF assms(1)] by blast
  have "nonQosBw a' = nonQosBw a0" if "\<forall>v\<in>set vs. qos_enable v" "bw_vfs rm SLtoSC vs a0 q0 = Inr (a', q')" for vs a0 q0 a' q'
    using that by (induction vs arbitrary: q0) (auto split: if_splits sum.splits)
  then have "nonQosBw a = 0" using assms(2) 2 by fastforce
  then show ?thesis using 1 2 by (simp add: SetupQos_def)
qed

text \<open>
  From fabrics to virtual lanes: when the bandwidth update succeeds and the tables of a number of
  VLs are set up from its result, the VLs together have what the fabrics were given, at most 100\%;
  so the assertion of the rounding step holds, and the weight unit it computes, a divisor later, is
  not zero.
\<close>

theorem vl_bandwidth_total:
  assumes "sm_update_bw (Some vfs) = (VSTATUS_OK, Some vfs')" and "v_fabric_all vfs \<noteq> []" and "names_unique (v_fabric vfs)"
    and "alloc 4" and "1 \<le> n" and "\<forall>sl mc. 0 < num_routing_scs rm sl mc"
    and "SetupQos rm (sm_fill_SCVLMap alloc (new_qos n)) vfs' SLtoSC = Inr q"
  shows "int (total_bw (bw q)) =
      (if without_qos (v_fabric vfs) \<noteq> 0 \<or> wanting (v_fabric vfs) \<noteq> 0 then 100 else configured_bw (v_fabric vfs)) \<and>
    total_bw (bw q) \<le> 100 \<and>
    (\<exists>q'. sm_roundVLBandwidths q = Inr q' \<and> weightMultiplier q' \<noteq> 0 \<and> bw q' = bw q)"
proof -
  let ?vs = "v_fabric vfs"
  let ?needed = "(if without_qos ?vs \<noteq> 0 then 5 else 0) + wanting ?vs"
  have need: "?needed \<le> 100 - configured_bw ?vs"
    using update_bw_bad[OF assms(2)] assms(1) by (metis Pair_inject Status_t.distinct(1) not_le)
  obtain vs' nq where u: "sm_update_bw (Some vfs) = (VSTATUS_OK, Some (vfs\<lparr>v_fabric := vs'\<rparr>))" "list_all2 (bw_given nq) ?vs vs'"
    "low_bw vs' + (if without_qos ?vs \<noteq> 0 then nq else 0) = (if ?needed \<noteq> 0 then 100 else configured_bw ?vs)"
    using update_bw_ok[OF assms(2,3) need] by blast
  have vs': "v_fabric vfs' = vs'" using u(1) assms(1) by auto
  have sum: "low_bw vs' + int (last_nonqos_bw vs' 0) = (if ?needed \<noteq> 0 then 100 else configured_bw ?vs)"
    using u(3) last_nonqos_given[OF u(2), of 0] by (simp split: if_splits)
  have le: "(if ?needed \<noteq> 0 then 100 else configured_bw ?vs) \<le> 100" using need by auto
  note f = filled_qos_ok[where alloc = alloc, OF assms(4,5)]
  have q: "int (total_bw (bw q)) = (if ?needed \<noteq> 0 then 100 else configured_bw ?vs)" "qos_ok q"
    using SetupQos_total[OF f(1) assms(6,7)] f(2) sum le unfolding vs' by auto
  have total: "total_bw (bw q) \<le> 100" using q(1) le by linarith
  then have "total_bw (take (activeVLs q) (bw q)) \<le> 100" using total_bw_take le_trans by blast
  then have "\<exists>q'. sm_roundVLBandwidths q = Inr q' \<and> weightMultiplier q' \<noteq> 0 \<and> bw q' = bw q"
    using q(2) weight_nonzero by (auto simp: sm_roundVLBandwidths_def Let_def total_bw_def qos_ok_def)
  moreover have "?needed \<noteq> 0 \<longleftrightarrow> without_qos ?vs \<noteq> 0 \<or> wanting ?vs \<noteq> 0" by auto
  ultimately show ?thesis using q(1) total by simp
qed

definition two_vfs :: VirtualFabrics_t where
  "two_vfs = (let l = [(example_vf ''A'' True 0)\<lparr>resp_sl := 0, mcast_sl := 0, percent_bandwidth := 30\<rparr>,
     (example_vf ''B'' True 1)\<lparr>resp_sl := 1, mcast_sl := 1\<rparr>] in \<lparr>v_fabric = l, v_fabric_all = l\<rparr>)"

theorem vl_bandwidth_total_witness:
  "\<exists>vfs' q. sm_update_bw (Some two_vfs) = (VSTATUS_OK, Some vfs') \<and>
     SetupQos example_rm (sm_fill_SCVLMap (\<lambda>_. True) (new_qos 8)) vfs' ([0, 1] @ replicate 30 15) = Inr q \<and> total_bw (bw q) = 100"
proof -
  have u: "v_fabric_all two_vfs \<noteq> []" "names_unique (v_fabric two_vfs)"
    by (auto simp: names_unique_def two_vfs_def example_vf_def Let_def less_Suc_eq)
  have c: "without_qos (v_fabric two_vfs) = 0" "wanting (v_fabric two_vfs) = 1" "configured_bw (v_fabric two_vfs) = 30"
    by (simp_all add: two_vfs_def example_vf_def Let_def wants_bw_def low_qos_def configured_bw_def bw_of_def)
  have need: "(if without_qos (v_fabric two_vfs) \<noteq> 0 then 5 else 0) + wanting (v_fabric two_vfs) \<le> 100 - configured_bw (v_fabric two_vfs)"
    unfolding c by simp
  obtain vs' nq where ok: "sm_update_bw (Some two_vfs) = (VSTATUS_OK, Some (two_vfs\<lparr>v_fabric := vs'\<rparr>))"
      "list_all2 (bw_given nq) (v_fabric two_vfs) vs'"
    using update_bw_ok[OF u] need by blast
  have same: "bw_given nq v v' \<Longrightarrow> qos_enable v' = qos_enable v \<and> vf_sls v' = vf_sls v" for v v'
    unfolding bw_given_def vf_sls_def by (metis VF_t.select_convs(3,4,6,8) VF_t.surjective VF_t.update_convs(9))
  have old: "qos_enable v \<and> vf_sls v \<subseteq> {0, 1}" if "v \<in> set (v_fabric two_vfs)" for v
    using that by (auto simp: two_vfs_def example_vf_def Let_def vf_sls_def)
  have new: "qos_enable v \<and> vf_sls v \<subseteq> {0, 1}" if "v \<in> set vs'" for v
    using ok(2) that same old by (metis in_set_conv_nth list_all2_conv_all_nth nth_mem)
  have zero_one: "x = 0 \<or> x = 1" if "v \<in> set vs'" "x \<in> vf_sls v" for v x using new that by blast
  have "\<forall>v\<in>set (v_fabric (two_vfs\<lparr>v_fabric := vs'\<rparr>)). room example_rm ([0, 1] @ replicate 30 15) v"
    "\<forall>v\<in>set (v_fabric (two_vfs\<lparr>v_fabric := vs'\<rparr>)). qos_enable v"
    using new by (auto simp: room_def example_rm_def dest!: zero_one)
  then obtain q where q: "SetupQos example_rm (sm_fill_SCVLMap (\<lambda>_. True) (new_qos 8)) (two_vfs\<lparr>v_fabric := vs'\<rparr>) ([0, 1] @ replicate 30 15) = Inr q"
    using SetupQos_succeeds by blast
  have "int (total_bw (bw q)) = 100"
    using vl_bandwidth_total[OF ok(1) u _ _ _ q] c by (simp add: example_rm_def)
  then show ?thesis using ok(1) q by auto
qed

lemma populate_two:
  "\<exists>a b. PopulateSCtoSL example_rm (sm_fill_SCVLMap (\<lambda>_. True) (new_qos 7)) two_vfs (replicate 32 15) (replicate 32 0xff) =
     Inr (VSTATUS_OK, a, b)"
proof -
  have row: "sm_globalSCVLMatrix ! min 7 8 = sm_globalSCVLMatrix ! 7" by simp
  have q: "scvl (sm_fill_SCVLMap (\<lambda>_. True) (new_qos 7)) = sm_globalSCVLMatrix ! 7"
    using fill_activeVLs(1)[of "\<lambda>_. True" 7] row by simp
  have "card {0, 1, 2, 3, 7 - 1 :: nat} = 5" by simp
  then have a: "activeVLs (sm_fill_SCVLMap (\<lambda>_. True) (new_qos 7)) = 5"
    using fill_activeVLs(2)[of "\<lambda>_. True" 7] row_6_7[of 7] by simp
  have "case map_sls example_rm (sm_globalSCVLMatrix ! 7) (sl_requests (v_fabric_all two_vfs))
      \<lparr>mappedSLs = vl_bitset 32, freeVLs = bitset_set_all (vl_bitset 5), ps_SLtoSC = replicate 32 15, ps_SCtoSL = replicate 32 0xff\<rparr> of
      Inr (r, st) \<Rightarrow> r = VSTATUS_OK | Inl _ \<Rightarrow> False"
    by code_simp
  then show ?thesis
    by (auto simp: PopulateSCtoSL_def Let_def q a split: sum.splits)
qed

theorem populate_disjoint_witness:
  "\<exists>a b. PopulateSCtoSL example_rm (sm_fill_SCVLMap (\<lambda>_. True) (new_qos 7)) two_vfs (replicate 32 15) (replicate 32 0xff) =
      Inr (VSTATUS_OK, a, b) \<and>
     sl_vls example_rm (scvl (sm_fill_SCVLMap (\<lambda>_. True) (new_qos 7))) (sl_requests (v_fabric_all two_vfs)) a 0 \<inter>
     sl_vls example_rm (scvl (sm_fill_SCVLMap (\<lambda>_. True) (new_qos 7))) (sl_requests (v_fabric_all two_vfs)) a 1 = {}"
proof -
  let ?q = "sm_fill_SCVLMap (\<lambda>_. True) (new_qos 7)"
  obtain a b where p: "PopulateSCtoSL example_rm ?q two_vfs (replicate 32 15) (replicate 32 0xff) = Inr (VSTATUS_OK, a, b)"
    using populate_two by blast
  have "activeVLs ?q < 256" using filled_qos_ok(1)[of "\<lambda>_. True" 7] by (simp add: qos_ok_def)
  moreover have "two_vfs = two_vfs" "v_fabric_all two_vfs ! 0 \<in> set (v_fabric_all two_vfs)" "0 \<in> vf_sls (v_fabric_all two_vfs ! 0)"
    "v_fabric_all two_vfs ! 1 \<in> set (v_fabric_all two_vfs)" "1 \<in> vf_sls (v_fabric_all two_vfs ! 1)"
    by (simp_all add: two_vfs_def example_vf_def Let_def vf_sls_def)
  ultimately show ?thesis
    using populate_disjoint[OF p, of "v_fabric_all two_vfs ! 0" 0 "v_fabric_all two_vfs ! 1" 1] p by auto
qed

theorem six_or_seven_vls_map_four_sls_witness:
  "\<exists>a b. PopulateSCtoSL example_rm (sm_fill_SCVLMap (\<lambda>_. True) (new_qos 7)) two_vfs (replicate 32 15) (replicate 32 0xff) =
      Inr (VSTATUS_OK, a, b) \<and> activeVLs (sm_fill_SCVLMap (\<lambda>_. True) (new_qos 7)) = 5"
proof -
  obtain a b where p: "PopulateSCtoSL example_rm (sm_fill_SCVLMap (\<lambda>_. True) (new_qos 7)) two_vfs (replicate 32 15) (replicate 32 0xff) =
      Inr (VSTATUS_OK, a, b)" using populate_two by blast
  show ?thesis using six_or_seven_vls_map_four_sls[OF _ _ p] p by (simp add: example_rm_def)
qed

end
