(* ===== verification/SmQosSetup.thy ===== *)
theory SmQosSetup
  imports SmQosMap
begin

text \<open>
  The QoS set-up as a whole (\<^verbatim>\<open>sm_assign_qos_params\<close> of \<^verbatim>\<open>sm_main.c\<close>): the routing module's functions
  that assign SLs, distribute the bandwidth and map SLs to SCs and VLs run one after the other, with
  the functions of \<^verbatim>\<open>defaultRoutingFuncs\<close>. The map is computed for the smallest number of VLs a port
  may have and used for every number up to the largest; the lemmas show why blocks of different SLs
  stay apart on all of them.
\<close>

section \<open>The set-up\<close>

text \<open>The function pointers, \<^verbatim>\<open>NULL\<close> as \<^term>\<open>None\<close>.\<close>

record qos_funcs =
  assign_sls :: "(VirtualFabrics_t option \<Rightarrow> Status_t \<times> VirtualFabrics_t option) option"
  update_bw :: "(VirtualFabrics_t option \<Rightarrow> Status_t \<times> VirtualFabrics_t option) option"
  assign_scs_to_sls :: "(VirtualFabrics_t option \<Rightarrow> qos_globals \<Rightarrow> (Status_t \<times> qos_globals) c_result) option"

text \<open>\<^verbatim>\<open>sm_assign_scs_to_sls_FixedMap\<close> reads its argument without a test for \<^verbatim>\<open>NULL\<close>.\<close>

definition defaultRoutingFuncs :: "(nat \<Rightarrow> bool) \<Rightarrow> Qos_t \<Rightarrow> RoutingModule_t \<Rightarrow> qos_funcs" where
  "defaultRoutingFuncs alloc uninitialised rm =
     \<lparr>assign_sls = Some (sm_routing_func_assign_sls alloc rm), update_bw = Some sm_update_bw,
      assign_scs_to_sls = Some (\<lambda>vfsp g. case vfsp of
         None \<Rightarrow> if min_vls rm > max_vls rm then Inr (VSTATUS_BAD, g) else Inl NullDeref
       | Some vfs \<Rightarrow> sm_assign_scs_to_sls_FixedMap alloc uninitialised rm vfs g)\<rparr>"

definition sm_assign_qos_params ::
  "qos_funcs \<Rightarrow> VirtualFabrics_t option \<Rightarrow> qos_globals \<Rightarrow> (Status_t \<times> VirtualFabrics_t option \<times> qos_globals) c_result" where
  "sm_assign_qos_params funcs vfsp g =
     (case (case assign_sls funcs of None \<Rightarrow> (VSTATUS_OK, vfsp) | Some f \<Rightarrow> f vfsp) of (r1, vfsp1) \<Rightarrow>
        if r1 \<noteq> VSTATUS_OK then Inr (VSTATUS_BAD, vfsp1, g)
        else case (case update_bw funcs of None \<Rightarrow> (VSTATUS_OK, vfsp1) | Some f \<Rightarrow> f vfsp1) of (r2, vfsp2) \<Rightarrow>
          if r2 \<noteq> VSTATUS_OK then Inr (VSTATUS_BAD, vfsp2, g)
          else case (case assign_scs_to_sls funcs of None \<Rightarrow> Inr (VSTATUS_OK, g) | Some f \<Rightarrow> f vfsp2 g) of
            Inl e \<Rightarrow> Inl e
          | Inr (r3, g') \<Rightarrow> if r3 \<noteq> VSTATUS_OK then Inr (VSTATUS_BAD, vfsp2, g') else Inr (VSTATUS_OK, vfsp2, g'))"

section \<open>Blocks on other numbers of VLs\<close>

text \<open>An SC is primary when no lower SC has its VL; the search for SCs only finds primary ones.\<close>

definition primary :: "nat list \<Rightarrow> nat \<Rightarrow> bool" where
  "primary scs sc \<longleftrightarrow> list_all (\<lambda>j. scs ! j \<noteq> scs ! sc) [0..<sc]"

abbreviation scvl_row :: "nat \<Rightarrow> nat list" where
  "scvl_row n \<equiv> sm_globalSCVLMatrix ! min n 8"

definition data_primaries :: "nat \<Rightarrow> nat list" where
  "data_primaries n = filter (\<lambda>sc. primary (sm_globalSCVLMatrix ! n) sc \<and> sm_globalSCVLMatrix ! n ! sc \<noteq> 15) [0..<32]"

lemma data_primaries_next:
  "list_all (\<lambda>n. list_all (\<lambda>sc. sm_globalSCVLMatrix ! n ! Suc sc = Suc (sm_globalSCVLMatrix ! n ! sc) \<and>
     sm_globalSCVLMatrix ! n ! Suc sc \<noteq> 15 \<longrightarrow> Suc sc \<in> set (data_primaries n)) (filter (\<lambda>sc. sc < 31) (data_primaries n))) [1..<9]"
  by code_simp

lemma data_primaries_apart:
  "list_all (\<lambda>n. list_all (\<lambda>m. distinct (map ((!) (sm_globalSCVLMatrix ! m)) (data_primaries n))) [n..<9]) [1..<9]"
  by code_simp

lemma find_sc_primary: "find_sc scs n vl = Inr sc \<Longrightarrow> sc < STL_MAX_SCS - n \<Longrightarrow> primary scs sc"
  by (auto simp: find_sc_def primary_def list_all_iff find_upt_Some split: option.splits if_splits)

lemma vl_search_primary:
  "vl_search fuel scs n free vl = Inr (free', Some (v, sc)) \<Longrightarrow> primary scs sc"
proof (induction fuel arbitrary: free vl)
  case (Suc fuel)
  then show ?case using find_sc_primary by (auto simp: Let_def split: if_splits sum.splits)
qed simp

lemma map_sls_primary:
  assumes "map_sls rm scs reqs st = Inr (VSTATUS_OK, st')" "pop_inv rm scs act done st"
    and "\<forall>sl\<in>fst ` set done. primary scs (ps_SLtoSC st ! sl)"
  shows "\<forall>sl\<in>fst ` set (done @ reqs). primary scs (ps_SLtoSC st' ! sl)"
  using assms
proof (induction reqs arbitrary: "done" st)
  case (Cons req reqs)
  then obtain st1 where st1: "map_sl rm scs req st = Inr (VSTATUS_OK, st1)" "map_sls rm scs reqs st1 = Inr (VSTATUS_OK, st')"
    by (auto split: sum.splits if_splits)
  have inv: "pop_inv rm scs act (done @ [req]) st1" using map_sl_inv[OF Cons.prems(2) st1(1)] .
  have "\<forall>sl\<in>fst ` set (done @ [req]). primary scs (ps_SLtoSC st1 ! sl)"
  proof (cases "bitset_test (mappedSLs st) (fst req)")
    case True
    then have "st1 = st" "fst req \<in> fst ` set done" using st1(1) Cons.prems(2) by (auto simp: map_sl_def Let_def pop_inv_def)
    then show ?thesis using Cons.prems(3) by auto
  next
    case False
    then obtain free vl sc where s: "vl_search (nbits_m (freeVLs st) + 2) scs (num_routing_scs rm (fst req) (snd req))
        (freeVLs st) (bitset_find_first_one (freeVLs st)) = Inr (free, Some (vl, sc))" "fst req < 32"
        "st1 = place_sl (fst req) (num_routing_scs rm (fst req) (snd req)) vl sc (st\<lparr>mappedSLs := snd (bitset_set (mappedSLs st) (fst req)), freeVLs := free\<rparr>)"
      using st1(1) by (auto simp: map_sl_def Let_def simp del: vl_search.simps split: sum.splits option.splits if_splits)
    have "ps_SLtoSC st1 = (ps_SLtoSC st)[fst req := sc]" unfolding s(3) by (simp add: place_sl_def)
    moreover have "length (ps_SLtoSC st) = 32" using Cons.prems(2) by (simp add: pop_inv_def)
    ultimately show ?thesis using vl_search_primary[OF s(1)] s(2) Cons.prems(3)
      by (auto simp: nth_list_update)
  qed
  then show ?case using Cons.IH[OF st1(2) inv] by simp
qed simp


lemma block_primaries:
  assumes b: "block_ok rm (scvl_row n) act reqs SLtoSC SCtoSL sl" and p: "primary (scvl_row n) (SLtoSC ! sl)" and n: "1 \<le> n"
    and k: "k < width rm reqs sl"
  shows "SLtoSC ! sl + k \<in> set (data_primaries (min n 8))"
  using k
proof (induction k)
  case 0
  then show ?case using b p by (auto simp: block_ok_def data_primaries_def)
next
  case (Suc k)
  let ?sc = "SLtoSC ! sl + k"
  have ih: "?sc \<in> set (data_primaries (min n 8))" using Suc by simp
  have w: "?sc < 31" using b Suc.prems by (auto simp: block_ok_def)
  have s: "SLtoSC ! sl + Suc k = Suc ?sc" by simp
  have "scvl_row n ! (SLtoSC ! sl + Suc k) = scvl_row n ! (SLtoSC ! sl) + Suc k" "scvl_row n ! (SLtoSC ! sl + Suc k) \<noteq> 15"
      "scvl_row n ! ?sc = scvl_row n ! (SLtoSC ! sl) + k"
    using b Suc.prems unfolding block_ok_def by (blast, blast, auto)
  then have "scvl_row n ! Suc ?sc = Suc (scvl_row n ! ?sc) \<and> scvl_row n ! Suc ?sc \<noteq> 15" unfolding s by simp
  moreover have "min n 8 \<in> set [1..<9]" using n by auto
  ultimately show ?case using data_primaries_next ih w unfolding list_all_iff s by simp
qed

lemma primaries_apart:
  assumes "s \<in> set (data_primaries (min n 8))" "t \<in> set (data_primaries (min n 8))" "s \<noteq> t" "1 \<le> n" "n \<le> m"
  shows "scvl_row m ! s \<noteq> scvl_row m ! t"
proof -
  have "min n 8 \<in> set [1..<9]" "min m 8 \<in> set [min n 8..<9]" using assms(4,5) by auto
  then have "distinct (map ((!) (scvl_row m)) (data_primaries (min n 8)))" using data_primaries_apart unfolding list_all_iff by blast
  then show ?thesis using assms(1-3) by (auto simp: distinct_map inj_on_def)
qed

text \<open>Blocks that are apart for the smallest number of VLs are apart for every larger one.\<close>

lemma blocks_stay_apart:
  assumes "block_ok rm (scvl_row n) act reqs SLtoSC SCtoSL x" "primary (scvl_row n) (SLtoSC ! x)"
    and "block_ok rm (scvl_row n) act reqs SLtoSC SCtoSL y" "primary (scvl_row n) (SLtoSC ! y)"
    and "sl_vls rm (scvl_row n) reqs SLtoSC x \<inter> sl_vls rm (scvl_row n) reqs SLtoSC y = {}" "1 \<le> n" "n \<le> m"
  shows "sl_vls rm (scvl_row m) reqs SLtoSC x \<inter> sl_vls rm (scvl_row m) reqs SLtoSC y = {}"
proof -
  have "scvl_row m ! (SLtoSC ! x + k) \<noteq> scvl_row m ! (SLtoSC ! y + l)" if kl: "k < width rm reqs x" "l < width rm reqs y" for k l
  proof -
    have "scvl_row n ! (SLtoSC ! x + k) \<in> sl_vls rm (scvl_row n) reqs SLtoSC x" "scvl_row n ! (SLtoSC ! y + l) \<in> sl_vls rm (scvl_row n) reqs SLtoSC y"
      using kl by (auto simp: sl_vls_def)
    then have "SLtoSC ! x + k \<noteq> SLtoSC ! y + l" using assms(5) by (metis IntI empty_iff)
    then show ?thesis
      using primaries_apart[OF block_primaries[OF assms(1,2,6) kl(1)] block_primaries[OF assms(3,4,6) kl(2)]] assms(6,7) by blast
  qed
  then show ?thesis unfolding sl_vls_def by blast
qed

section \<open>The published tables\<close>

lemma DivideBwUp_scvl: "DivideBwUp rm q b base resp mcast SLtoSC = Inr q' \<Longrightarrow> scvl q' = scvl q"
  by (auto simp: DivideBwUp_def Let_def split: sum.splits)

lemma bw_vfs_scvl: "bw_vfs rm SLtoSC vs a q = Inr (a', q') \<Longrightarrow> scvl q' = scvl q"
  by (induction vs arbitrary: a q) (auto dest: DivideBwUp_scvl split: if_splits sum.splits)

lemma SetupQos_scvl: "SetupQos rm q vfs SLtoSC = Inr q' \<Longrightarrow> scvl q' = scvl q"
  using setup_vfs_same by (fastforce simp: SetupQos_def Let_def same_tables_def dest: bw_vfs_scvl DivideBwUp_scvl split: sum.splits if_splits)

lemma setup_all_scvl: "setup_all rm vfs SLtoSC is qs = Inr qs' \<Longrightarrow> map scvl qs' = map scvl qs"
proof (induction "is" arbitrary: qs)
  case (Cons i "is")
  then obtain q where i: "i < length qs" and q: "SetupQos rm (qs ! i) vfs SLtoSC = Inr q" "setup_all rm vfs SLtoSC is (qs[i := q]) = Inr qs'"
    by (auto split: if_splits sum.splits)
  have "map scvl (qs[i := q]) = map scvl qs" using SetupQos_scvl[OF q(1)] i by (simp add: map_update list_update_same_conv)
  then show ?case using Cons.IH[OF q(2)] by simp
qed simp

lemma fold_AddVfToVl_scvl: "scvl (fold (AddVfToVl vl) vfs q) = scvl q"
  by (induction vfs arbitrary: q) (auto simp: AddVfToVl_def split: option.splits)

lemma FixedMap_ok:
  assumes "sm_assign_scs_to_sls_FixedMap alloc u rm vfs g = Inr (VSTATUS_OK, g')" "alloc 4" "1 \<le> min_vls rm"
  obtains qs where "sm_Qos g' = Some qs" "\<And>m. min_vls rm \<le> m \<Longrightarrow> m \<le> max_vls rm \<Longrightarrow> scvl (qs ! m) = scvl_row m"
    "PopulateSCtoSL rm (sm_fill_SCVLMap alloc (new_qos (min_vls rm))) vfs (replicate 32 15) (replicate 32 0xff) =
       Inr (VSTATUS_OK, sm_SLtoSC g', sm_SCtoSL g')"
proof -
  define qos1 where "qos1 = map (\<lambda>i. if 1 \<le> i \<and> i \<le> max_vls rm then sm_fill_SCVLMap alloc (AllocQos u ! i) else AllocQos u ! i) [0..<33]"
  have b: "\<not> max_vls rm < min_vls rm" "\<not> 32 < max_vls rm" using assms(1) by (auto simp: sm_assign_scs_to_sls_FixedMap_def split: if_splits)
  have e: "qos1 ! m = sm_fill_SCVLMap alloc (new_qos m)" if "1 \<le> m" "m \<le> max_vls rm" for m
  proof -
    have "AllocQos u ! m = new_qos m" using that b(2) by (cases m) (auto simp: AllocQos_def simp del: upt_Suc)
    then show ?thesis using that b(2) by (simp add: qos1_def del: upt_Suc)
  qed
  obtain SLtoSC SCtoSL qs where p: "PopulateSCtoSL rm (qos1 ! min_vls rm) vfs (replicate 32 15) (replicate 32 0xff) = Inr (VSTATUS_OK, SLtoSC, SCtoSL)"
    and a: "setup_all rm vfs SLtoSC [min_vls rm..<max_vls rm + 1] (qos1[1 := SetupQos1VL (qos1 ! 1) vfs]) = Inr qs"
    and g': "g' = \<lparr>sm_SLtoSC = SLtoSC, sm_SCtoSL = SCtoSL, sm_Qos = Some qs\<rparr>"
    using assms(1) b unfolding sm_assign_scs_to_sls_FixedMap_def Let_def qos1_def
    by (auto simp del: upt_Suc setup_all.simps split: sum.splits if_splits)
  have "scvl (SetupQos1VL (qos1 ! 1) vfs) = scvl (qos1 ! 1)" by (simp add: SetupQos1VL_def Let_def fold_AddVfToVl_scvl)
  then have "map scvl qs = map scvl qos1" using setup_all_scvl[OF a] by (simp add: map_update list_update_same_conv qos1_def del: upt_Suc)
  then have s: "scvl (qs ! m) = scvl (qos1 ! m)" if "m < 33" for m using that
    by (metis (no_types, lifting) diff_zero length_map length_upt nth_map qos1_def)
  have "scvl (qs ! m) = scvl_row m" if m: "min_vls rm \<le> m" "m \<le> max_vls rm" for m
    using s[of m] e[of m] m b(2) assms(3) fill_activeVLs(1)[where alloc = alloc, OF assms(2), of m] by simp
  then show ?thesis using that[of qs] p e[of "min_vls rm"] assms(3) b g' by simp
qed

lemma populate_primary:
  assumes "PopulateSCtoSL rm q vfs a b = Inr (VSTATUS_OK, SLtoSC, SCtoSL)" "activeVLs q < 256" "length a = 32" "length b = 32"
    and "v \<in> set (v_fabric_all vfs)" "x \<in> vf_sls v"
  shows "primary (scvl q) (SLtoSC ! unat x) \<and> unat x < 32"
proof -
  let ?all = "bitset_set_all (vl_bitset (activeVLs q))" and ?reqs = "sl_requests (v_fabric_all vfs)"
  obtain st where st: "map_sls rm (scvl q) ?reqs
      \<lparr>mappedSLs = vl_bitset STL_MAX_SLS, freeVLs = (if activeVLs q > 15 then snd (bitset_clear ?all 15) else ?all),
       ps_SLtoSC = a, ps_SCtoSL = b\<rparr> = Inr (VSTATUS_OK, st)" and s: "SLtoSC = ps_SLtoSC st"
    using assms(1) by (auto simp: PopulateSCtoSL_def Let_def split: sum.splits)
  have x: "unat x \<in> fst ` set ?reqs" using assms(5,6) by (auto simp: sl_requests_def vf_sls_def image_iff)
  have inv: "pop_inv rm (scvl q) (activeVLs q) ?reqs st" using map_sls_inv[OF pop_inv_start[OF assms(2-4)] st] by simp
  then have "unat x < 32" using x bs.test_capacity[of "mappedSLs st" "unat x"] by (auto simp: pop_inv_def)
  moreover have "primary (scvl q) (SLtoSC ! unat x)"
    using map_sls_primary[OF st pop_inv_start[OF assms(2-4)]] x s by auto
  ultimately show ?thesis by simp
qed

lemma FixedMap_isolates:
  assumes "sm_assign_scs_to_sls_FixedMap alloc u rm vfs g = Inr (VSTATUS_OK, g')" "alloc 4" "1 \<le> min_vls rm"
    and v: "v \<in> set (v_fabric_all vfs)" "x \<in> vf_sls v" and w: "w \<in> set (v_fabric_all vfs)" "y \<in> vf_sls w"
    and m: "min_vls rm \<le> m" "m \<le> max_vls rm" and "x \<noteq> y"
  defines "vls \<equiv> sl_vls rm (scvl (the (sm_Qos g') ! m)) (sl_requests (v_fabric_all vfs)) (sm_SLtoSC g')"
  shows "vls (unat x) \<inter> vls (unat y) = {}"
proof -
  let ?q = "sm_fill_SCVLMap alloc (new_qos (min_vls rm))"
  obtain qs where qs: "sm_Qos g' = Some qs" "scvl (qs ! m) = scvl_row m"
    and p: "PopulateSCtoSL rm ?q vfs (replicate 32 15) (replicate 32 0xff) = Inr (VSTATUS_OK, sm_SLtoSC g', sm_SCtoSL g')"
    using FixedMap_ok[OF assms(1-3)] m by metis
  have q: "scvl ?q = scvl_row (min_vls rm)" "activeVLs ?q < 256"
    using fill_activeVLs(1)[where alloc = alloc, OF assms(2,3)] filled_qos_ok(1)[where alloc = alloc, OF assms(2,3)]
    by (simp_all add: qos_ok_def)
  note pb = populate_blocks[OF p q(2) _ _ _ _ _ , simplified, unfolded q(1)] and pp = populate_primary[OF p q(2), simplified, unfolded q(1)]
  show ?thesis unfolding vls_def qs(1) option.sel qs(2)
    by (rule blocks_stay_apart[OF _ _ _ _ _ assms(3) m(1)])
      (use pb[OF v w] pb[OF w v] pp[OF v] pp[OF w] \<open>x \<noteq> y\<close> in \<open>blast+\<close>)
qed

section \<open>The three steps together\<close>

lemma handle_preassigned_length: "handle_preassigned_sl rm vs use r = (vs', use', r') \<Longrightarrow> length vs' = length vs"
  by (induction vs arbitrary: use r vs') (auto split: prod.splits)

lemma assign_loop_length: "assign_loop rm vs s = (r, vs', s') \<Longrightarrow> length vs' = length vs"
  by (induction vs arbitrary: s vs') (auto split: prod.splits if_splits)

lemma assign_sls_length:
  assumes "sm_routing_func_assign_sls alloc rm (Some vfs) = (VSTATUS_OK, Some vfs')" "v_fabric vfs \<noteq> []" "v_fabric_all vfs \<noteq> []"
  shows "length (v_fabric_all vfs') = length (v_fabric_all vfs)"
  using assign_sls_parts[OF assms] handle_preassigned_length assign_loop_length by metis

lemma report_bw_all: "v_fabric_all (fold (report_bw sh) is vfs) = v_fabric_all vfs"
  by (induction "is" arbitrary: vfs) (auto simp: report_bw_def Let_def split: option.splits)

lemma update_bw_all: "sm_update_bw (Some vfs) = (r, vfsp) \<Longrightarrow> \<exists>vfs'. vfsp = Some vfs' \<and> v_fabric_all vfs' = v_fabric_all vfs"
  by (auto simp: sm_update_bw_def Let_def report_bw_all split: prod.splits if_splits)

lemma assign_sls_some: "sm_routing_func_assign_sls alloc rm (Some vfs) = (r, vfsp) \<Longrightarrow> \<exists>vfs'. vfsp = Some vfs'"
  by (auto simp: sm_routing_func_assign_sls_def Let_def split: prod.splits if_splits)

lemma assign_qos_params_ok:
  assumes "sm_assign_qos_params (defaultRoutingFuncs alloc u rm) (Some vfs) g = Inr (VSTATUS_OK, Some vfs', g')"
  obtains vfs1 where "sm_routing_func_assign_sls alloc rm (Some vfs) = (VSTATUS_OK, Some vfs1)"
    "v_fabric_all vfs' = v_fabric_all vfs1" "sm_assign_scs_to_sls_FixedMap alloc u rm vfs' g = Inr (VSTATUS_OK, g')"
proof -
  obtain r1 vfs1 where 1: "sm_routing_func_assign_sls alloc rm (Some vfs) = (r1, Some vfs1)"
    using assign_sls_some by (metis surj_pair)
  obtain r2 vfs2 where 2: "sm_update_bw (Some vfs1) = (r2, Some vfs2)" "v_fabric_all vfs2 = v_fabric_all vfs1"
    using update_bw_all by (metis surj_pair)
  have "r1 = VSTATUS_OK \<and> r2 = VSTATUS_OK \<and> vfs2 = vfs' \<and> sm_assign_scs_to_sls_FixedMap alloc u rm vfs2 g = Inr (VSTATUS_OK, g')"
    using assms by (auto simp: sm_assign_qos_params_def defaultRoutingFuncs_def 1 2 split: if_splits sum.splits)
  then show ?thesis using that 1 2 by blast
qed

lemma assign_qos_params_isolates:
  assumes "sm_assign_qos_params (defaultRoutingFuncs alloc u rm) (Some vfs) g = Inr (VSTATUS_OK, Some vfs', g')"
    and "alloc 4" and "1 \<le> min_vls rm" and "v_fabric vfs \<noteq> []"
    and "\<forall>v\<in>set (v_fabric_all vfs). \<forall>x\<in>configured_sls v. unat x < 32"
    and ij: "i < length (v_fabric_all vfs)" "j < length (v_fabric_all vfs)" "i \<noteq> j"
    and "qos_enable (v_fabric_all vfs ! i)" and "configured_sls (v_fabric_all vfs ! i) \<inter> configured_sls (v_fabric_all vfs ! j) = {}"
    and x: "x \<in> vf_sls (v_fabric_all vfs' ! i)" and y: "y \<in> vf_sls (v_fabric_all vfs' ! j)"
    and m: "min_vls rm \<le> m" "m \<le> max_vls rm"
  defines "vls \<equiv> sl_vls rm (scvl (the (sm_Qos g') ! m)) (sl_requests (v_fabric_all vfs')) (sm_SLtoSC g')"
  shows "unat x < 32 \<and> vls (unat x) \<inter> vls (unat y) = {}"
proof -
  obtain vfs1 where a: "sm_routing_func_assign_sls alloc rm (Some vfs) = (VSTATUS_OK, Some vfs1)" "v_fabric_all vfs' = v_fabric_all vfs1"
    and fm: "sm_assign_scs_to_sls_FixedMap alloc u rm vfs' g = Inr (VSTATUS_OK, g')"
    using assign_qos_params_ok[OF assms(1)] .
  have "v_fabric_all vfs \<noteq> []" using ij(1) by auto
  then have mem: "v_fabric_all vfs' ! i \<in> set (v_fabric_all vfs')" "v_fabric_all vfs' ! j \<in> set (v_fabric_all vfs')"
    using assign_sls_length[OF a(1) assms(4)] ij a(2) by simp_all
  let ?q = "sm_fill_SCVLMap alloc (new_qos (min_vls rm))"
  have "PopulateSCtoSL rm ?q vfs' (replicate 32 15) (replicate 32 0xff) = Inr (VSTATUS_OK, sm_SLtoSC g', sm_SCtoSL g')"
    by (rule FixedMap_ok[OF fm assms(2,3)])
  moreover have "activeVLs ?q < 256" using filled_qos_ok(1)[where alloc = alloc, OF assms(2,3)] by (simp add: qos_ok_def)
  ultimately have r: "unat x < 32" using populate_primary[OF _ _ _ _ mem(1) x] by auto
  have "x \<noteq> y"
  proof
    assume "x = y"
    moreover have "x \<noteq> SL_UNDEFINED" using r by auto
    ultimately have "x \<in> configured_sls (v_fabric_all vfs ! i) \<inter> configured_sls (v_fabric_all vfs ! j)"
      using assign_sls_sharing[where alloc = alloc, OF a(1) assms(2,4,5) ij(1)] ij(2,3) x y assms(9) a(2) by auto
    then show False using assms(10) by simp
  qed
  then show ?thesis using FixedMap_isolates[OF fm assms(2,3) mem(1) x mem(2) y m] r unfolding vls_def by simp
qed

section \<open>An example\<close>

lemma two_assign: "sm_routing_func_assign_sls (\<lambda>_. True) example_rm (Some two_vfs) = (VSTATUS_OK, Some two_vfs)"
  by code_simp

definition two_vfs_bw :: VirtualFabrics_t where
  "two_vfs_bw = two_vfs\<lparr>v_fabric := [(v_fabric two_vfs ! 0), (v_fabric two_vfs ! 1)\<lparr>percent_bandwidth := 70\<rparr>]\<rparr>"

lemma two_update: "sm_update_bw (Some two_vfs) = (VSTATUS_OK, Some two_vfs_bw)"
  by code_simp

lemma two_fixed_map: "\<exists>g'. sm_assign_scs_to_sls_FixedMap (\<lambda>_. True) u example_rm two_vfs_bw g = Inr (VSTATUS_OK, g')"
proof -
  let ?q = "sm_fill_SCVLMap (\<lambda>_. True) (new_qos 8)"
  have q: "scvl ?q = sm_globalSCVLMatrix ! 8" using fill_activeVLs(1)[of "\<lambda>_. True" 8] by simp
  have row: "set (sm_globalSCVLMatrix ! 8) - {15} = {0, 1, 2, 3, 4, 5, 6, 7}" by code_simp
  have a: "activeVLs ?q = 8" using fill_activeVLs(2)[of "\<lambda>_. True" 8] rows_ok[of 8] row by simp
  have "case map_sls example_rm (sm_globalSCVLMatrix ! 8) (sl_requests (v_fabric_all two_vfs_bw))
      \<lparr>mappedSLs = vl_bitset 32, freeVLs = bitset_set_all (vl_bitset 8), ps_SLtoSC = replicate 32 15, ps_SCtoSL = replicate 32 0xff\<rparr> of
      Inr (r, st) \<Rightarrow> r = VSTATUS_OK \<and> ps_SLtoSC st = [0, 1] @ replicate 30 15 | Inl _ \<Rightarrow> False"
    by code_simp
  then obtain b where p: "PopulateSCtoSL example_rm ?q two_vfs_bw (replicate 32 15) (replicate 32 0xff) = Inr (VSTATUS_OK, [0, 1] @ replicate 30 15, b)"
    by (auto simp: PopulateSCtoSL_def Let_def q a split: sum.splits)
  have "\<forall>v\<in>set (v_fabric two_vfs_bw). room example_rm ([0, 1] @ replicate 30 15) v" "\<forall>v\<in>set (v_fabric two_vfs_bw). qos_enable v"
    by (auto simp: two_vfs_bw_def two_vfs_def example_vf_def example_rm_def room_def vf_sls_def Let_def)
  then have s: "\<exists>q'. SetupQos example_rm q0 two_vfs_bw ([0, 1] @ replicate 30 15) = Inr q'" for q0 using SetupQos_succeeds by blast
  have vls: "min_vls example_rm = 8" "max_vls example_rm = 8" by (simp_all add: example_rm_def)
  let ?qos1 = "map (\<lambda>i. if 1 \<le> i \<and> i \<le> 8 then sm_fill_SCVLMap (\<lambda>_. True) (AllocQos u ! i) else AllocQos u ! i) [0..<32 + 1]"
  have "AllocQos u ! 8 = new_qos 8" by (simp add: AllocQos_def del: upt_Suc)
  then have 8: "?qos1 ! 8 = ?q" by (simp del: upt_Suc)
  obtain q' where "SetupQos example_rm (?qos1[1 := SetupQos1VL (?qos1 ! 1) two_vfs_bw] ! 8) two_vfs_bw ([0, 1] @ replicate 30 15) = Inr q'" using s by blast
  then have "\<exists>qs. setup_all example_rm two_vfs_bw ([0, 1] @ replicate 30 15) [8..<8 + 1] (?qos1[1 := SetupQos1VL (?qos1 ! 1) two_vfs_bw]) = Inr qs"
    by (simp del: upt_Suc add: upt_rec[of 8 9])
  then show ?thesis unfolding sm_assign_scs_to_sls_FixedMap_def Let_def vls 8 p by auto
qed

lemma two_set_up:
  "\<exists>g'. sm_assign_qos_params (defaultRoutingFuncs (\<lambda>_. True) u example_rm) (Some two_vfs) g = Inr (VSTATUS_OK, Some two_vfs_bw, g')"
  using two_fixed_map[of u g] by (auto simp: sm_assign_qos_params_def defaultRoutingFuncs_def two_assign two_update)

end
