(* ===== verification/SmFloyd.thy ===== *)
theory SmFloyd
  imports FM_Prelude
begin

text \<open>
  The cost and path matrices of shortest-path routing (\<^verbatim>\<open>sm_routing_funcs.c\<close>):
  \<open>sm_routing_func_init_cost_matrix_floyds\<close> and the Floyd-Warshall loops of
  \<open>sm_routing_func_calc_cost_matrix_floyds\<close>, with the 16-bit costs, the flat row-major arrays
  and the in-place symmetric update of the code. \<open>path[i * n + j]\<close> is the mask of the ports of
  switch \<open>i\<close> on best routes to switch \<open>j\<close>; a mask is one 64-bit word (\<open>MAX_STL_PORTS\<close> is 64),
  with port \<open>p\<close> at bit \<open>p - 1\<close>.
\<close>

section \<open>Port masks\<close>

definition Cost_Infinity :: u16 where
  "Cost_Infinity = 32767"

definition sm_path_portmask_set :: "u64 \<Rightarrow> nat \<Rightarrow> u64" where
  "sm_path_portmask_set ports port = ports OR push_bit (port - 1) 1"

definition sm_path_portmask_clear :: "u64 \<Rightarrow> nat \<Rightarrow> u64" where
  "sm_path_portmask_clear ports port = ports AND NOT (push_bit (port - 1) 1)"

definition sm_path_portmask_merge :: "u64 \<Rightarrow> u64 \<Rightarrow> u64" where
  "sm_path_portmask_merge dst src = dst OR src"

definition sm_path_portmask_pop_first :: "u64 \<Rightarrow> nat \<times> u64" where
  "sm_path_portmask_pop_first ports =
     (case List.find (bit ports) [0..<64] of
        None \<Rightarrow> (0, ports)
      | Some b \<Rightarrow> (b + 1, ports XOR push_bit b 1))"

text \<open>Port \<open>p\<close> is in the mask.\<close>

definition in_mask :: "nat \<Rightarrow> u64 \<Rightarrow> bool" where
  "in_mask p m \<longleftrightarrow> 0 < p \<and> p \<le> 64 \<and> bit m (p - 1)"

section \<open>The matrices\<close>

record matrices =
  cost :: "nat \<Rightarrow> u16"
  path :: "nat \<Rightarrow> u64"

text \<open>A port of a switch as the initialisation sees it.\<close>

record sw_port =
  sp_up :: bool
  sp_neighbor :: "nat option"
  sp_index :: nat
  sp_portno :: nat
  sp_speed :: u16

definition SpeedWidth_to_Cost :: "u16 \<Rightarrow> u16" where
  "SpeedWidth_to_Cost x = (if x \<noteq> 0 then 2400 div x else 2400)"

definition Index :: "nat \<Rightarrow> nat \<Rightarrow> nat \<Rightarrow> nat" where
  "Index max_sws x y = x * max_sws + y"

text \<open>First loop of the initialisation: everything unreachable, the lower triangle and its mirror.\<close>

definition fill_infinity :: "nat \<Rightarrow> matrices \<Rightarrow> matrices" where
  "fill_infinity n m = fold (\<lambda>i m. fold (\<lambda>j m.
     m\<lparr>cost := (cost m)(i * n + j := Cost_Infinity, Index n j i := Cost_Infinity)\<rparr>) [0..<i + 1] m) [0..<n] m"

definition add_port :: "nat \<Rightarrow> nat \<Rightarrow> sw_port \<Rightarrow> matrices \<Rightarrow> matrices" where
  "add_port n i p m =
     (if \<not> sp_up p then m
      else case sp_neighbor p of
             None \<Rightarrow> m
           | Some k \<Rightarrow>
               let ik = Index n i k; ki = Index n k i; c = SpeedWidth_to_Cost (sp_speed p);
                   path1 = (path m)(ik := sm_path_portmask_set (path m ik) (sp_index p))
               in m\<lparr>cost := (cost m)(ki := c, ik := c),
                    path := path1(ki := sm_path_portmask_set (path1 ki) (sp_portno p))\<rparr>)"

text \<open>Switches are given as pairs of \<open>swIdx\<close> and port list, in the order of the switch list.\<close>

definition add_links :: "nat \<Rightarrow> (nat \<times> sw_port list) list \<Rightarrow> matrices \<Rightarrow> matrices" where
  "add_links n sws m = fold (\<lambda>(i, ports) m. fold (add_port n i) ports m) sws m"

definition clear_diagonal :: "nat \<Rightarrow> matrices \<Rightarrow> matrices" where
  "clear_diagonal n m = fold (\<lambda>i m. m\<lparr>cost := (cost m)(i * (n + 1) := 0)\<rparr>) [0..<n] m"

definition sm_routing_func_init_cost_matrix_floyds ::
  "nat \<Rightarrow> (nat \<times> sw_port list) list \<Rightarrow> matrices \<Rightarrow> matrices" where
  "sm_routing_func_init_cost_matrix_floyds n sws m = clear_diagonal n (add_links n sws (fill_infinity n m))"

section \<open>The Floyd-Warshall loops\<close>

text \<open>
  The body of the innermost loop; \<open>n\<close> is \<open>switches\<close> and \<open>m\<close> the \<open>max_sws\<close> behind \<open>Index\<close>. The
  sum is truncated to \<open>unsigned short\<close> by the assignment to \<open>value\<close>.
\<close>

definition relax :: "nat \<Rightarrow> nat \<Rightarrow> nat \<Rightarrow> nat \<Rightarrow> nat \<Rightarrow> matrices \<Rightarrow> matrices" where
  "relax n m k i j s =
     (let ik = i * n + k; ij = i * n + j; kj = k * n + j; ji = Index m j i; jk = Index m j k;
          value = cost s ik + cost s kj
      in if value < cost s ij
         then let path1 = (path s)(ij := path s ik)
              in s\<lparr>cost := (cost s)(ij := value, ji := value), path := path1(ji := path1 jk)\<rparr>
         else if value = cost s ij
         then let path1 = (path s)(ij := sm_path_portmask_merge (path s ij) (path s ik))
              in s\<lparr>path := path1(ji := sm_path_portmask_merge (path1 ji) (path1 jk))\<rparr>
         else s)"

definition relax_row :: "nat \<Rightarrow> nat \<Rightarrow> nat \<Rightarrow> nat \<Rightarrow> matrices \<Rightarrow> matrices" where
  "relax_row n m k i s =
     (if cost s (i * n + k) = Cost_Infinity then s else fold (relax n m k i) [i + 1..<n] s)"

definition floyds :: "nat \<Rightarrow> nat \<Rightarrow> matrices \<Rightarrow> matrices" where
  "floyds n m s = fold (\<lambda>k s. fold (relax_row n m k) [0..<n] s) [0..<n] s"

section \<open>Analysis of the costs: change detection and multicast root\<close>

text \<open>
  After the loops the code compares the costs with those of the previous sweep and, when
  configured, selects the root of the multicast spanning tree: the switch with the least
  total cost, or the least worst-case cost, to the others.
\<close>

record root_cfg =
  sm_useIdealMcSpanningTreeRoot :: bool
  useLeastTotalCost :: bool
  useLeastWorstCaseCost :: bool
  sm_mcRootCostDeltaThreshold :: u32

definition switch_total_cost :: "root_cfg \<Rightarrow> nat \<Rightarrow> nat \<Rightarrow> matrices \<Rightarrow> nat \<Rightarrow> u32" where
  "switch_total_cost c n m s k =
     fold (\<lambda>i total. if i \<noteq> k \<and> sm_useIdealMcSpanningTreeRoot c \<and> cost s (Index m k i) < Cost_Infinity \<and> useLeastTotalCost c
                     then total + ucast (cost s (Index m k i)) else total) [0..<n] 0"

definition switch_max_cost :: "root_cfg \<Rightarrow> nat \<Rightarrow> nat \<Rightarrow> matrices \<Rightarrow> nat \<Rightarrow> u32" where
  "switch_max_cost c n m s k =
     fold (\<lambda>i mx. if i \<noteq> k \<and> sm_useIdealMcSpanningTreeRoot c \<and> cost s (Index m k i) < Cost_Infinity \<and>
                       \<not> useLeastTotalCost c \<and> useLeastWorstCaseCost c \<and> ucast (cost s (Index m k i)) > mx
                  then ucast (cost s (Index m k i)) else mx) [0..<n] 0"

text \<open>The sticky flag \<open>topology_cost_path_changes\<close>, for one switch.\<close>

definition switch_cost_changed :: "nat \<Rightarrow> (nat \<Rightarrow> u16) \<Rightarrow> nat \<Rightarrow> matrices \<Rightarrow> nat \<Rightarrow> bool \<Rightarrow> bool" where
  "switch_cost_changed old_max_sws old_cost n s k changes =
     fold (\<lambda>i changes. if i = k then changes
                       else if changes then True
                       else if k \<ge> old_max_sws \<or> i \<ge> old_max_sws then changes
                       else old_cost (i * old_max_sws + k) \<noteq> cost s (i * n + k)) [0..<n] changes"

text \<open>One of the two candidate searches: least value so far, its switch, and whether that is the SM's neighbour.\<close>

definition select_least :: "u32 \<Rightarrow> u64 \<times> nat \<Rightarrow> u32 \<times> u64 \<times> bool \<Rightarrow> u32 \<times> u64 \<times> bool" where
  "select_least value sw sel =
     (case (sw, sel) of ((guid, swIdx), (least, leastGuid, smNeighbor)) \<Rightarrow>
        if least = 0 \<or> value < least then (value, guid, swIdx = 0)
        else if smNeighbor \<and> value = least then (if swIdx \<noteq> 0 then (least, guid, False) else (least, leastGuid, smNeighbor))
        else (least, leastGuid, smNeighbor))"

record root_sel =
  leastTotal :: "u32 \<times> u64"
  leastWorst :: "u32 \<times> u64"
  smNeighborSel :: bool
  currRootTotal :: u32
  currRootWorst :: u32

definition select_switch :: "root_cfg \<Rightarrow> nat \<Rightarrow> nat \<Rightarrow> matrices \<Rightarrow> u64 \<Rightarrow> u64 \<times> nat \<Rightarrow> root_sel \<Rightarrow> root_sel" where
  "select_switch c n m s rootGuid sw r =
     (if \<not> sm_useIdealMcSpanningTreeRoot c then r
      else let total = switch_total_cost c n m s (snd sw); mx = switch_max_cost c n m s (snd sw);
               isroot = (fst sw = rootGuid);
               r1 = r\<lparr>currRootTotal := if isroot \<and> useLeastTotalCost c then total else currRootTotal r,
                      currRootWorst := if isroot \<and> useLeastWorstCaseCost c then mx else currRootWorst r\<rparr>;
               r2 = (if useLeastTotalCost c
                     then (case select_least total sw (fst (leastTotal r1), snd (leastTotal r1), smNeighborSel r1) of
                             (l, g, b) \<Rightarrow> r1\<lparr>leastTotal := (l, g), smNeighborSel := b\<rparr>)
                     else r1)
           in if useLeastWorstCaseCost c
              then (case select_least mx sw (fst (leastWorst r2), snd (leastWorst r2), smNeighborSel r2) of
                      (l, g, b) \<Rightarrow> r2\<lparr>leastWorst := (l, g), smNeighborSel := b\<rparr>)
              else r2)"

text \<open>
  The decision for one criterion; \<open>None\<close> is the early return when the lock cannot be taken.
\<close>

definition change_root :: "root_cfg \<Rightarrow> bool \<Rightarrow> bool \<Rightarrow> u32 \<times> u64 \<Rightarrow> u32 \<Rightarrow> u64 \<Rightarrow> u64 option" where
  "change_root c lock_ok old_root_exists least currCost rootGuid =
     (if \<not> old_root_exists then (if lock_ok then Some (snd least) else None)
      else if currCost \<noteq> 0 \<and> fst least < currCost
      then let delta = currCost - fst least
           in if delta * 100 div currCost \<ge> sm_mcRootCostDeltaThreshold c
              then (if lock_ok then Some (snd least) else None)
              else Some rootGuid
      else Some rootGuid)"

definition choose_root :: "root_cfg \<Rightarrow> bool \<Rightarrow> bool \<Rightarrow> root_sel \<Rightarrow> u64 \<Rightarrow> u64 \<times> bool" where
  "choose_root c lock_ok old_root_exists r rootGuid =
     (case (if useLeastTotalCost c then change_root c lock_ok old_root_exists (leastTotal r) (currRootTotal r) rootGuid
            else Some rootGuid) of
        None \<Rightarrow> (rootGuid, False)
      | Some g1 \<Rightarrow>
          (case (if useLeastWorstCaseCost c then change_root c lock_ok old_root_exists (leastWorst r) (currRootWorst r) g1
                 else Some g1) of
             None \<Rightarrow> (g1, False)
           | Some g2 \<Rightarrow> (g2, True)))"

text \<open>
  The whole function: the matrices, the change flag, the root and whether it was sent to the
  standby SMs. \<open>sws\<close> is the switch list as pairs of GUID and \<open>swIdx\<close>, \<open>node_guids\<close> the GUIDs
  of all nodes, in which the old root is looked up.
\<close>

definition sm_routing_func_calc_cost_matrix_floyds ::
  "root_cfg \<Rightarrow> bool \<Rightarrow> nat \<Rightarrow> nat \<Rightarrow> nat \<Rightarrow> (nat \<Rightarrow> u16) \<Rightarrow> (u64 \<times> nat) list \<Rightarrow> u64 list
     \<Rightarrow> bool \<times> bool \<Rightarrow> u64 \<Rightarrow> matrices
     \<Rightarrow> matrices \<times> bool \<times> u64 \<times> bool" where
  "sm_routing_func_calc_cost_matrix_floyds c lock_ok switches max_sws old_max_sws old_cost sws node_guids flags rootGuid s0 =
     (let s = floyds switches max_sws s0;
          (first_pass, changes0) = flags;
          changes1 = (if switches \<noteq> old_max_sws \<or> first_pass then True else changes0);
          changes = fold (\<lambda>sw ch. switch_cost_changed old_max_sws old_cost switches s (snd sw) ch) sws changes1;
          r = fold (select_switch c switches max_sws s rootGuid) sws
                \<lparr>leastTotal = (0, 0), leastWorst = (0, 0), smNeighborSel = False, currRootTotal = 0, currRootWorst = 0\<rparr>
      in if \<not> sm_useIdealMcSpanningTreeRoot c then (s, changes, rootGuid, False)
         else let old_root_exists = (rootGuid \<noteq> 0 \<and> rootGuid \<in> set node_guids)
              in (s, changes, choose_root c lock_ok old_root_exists r rootGuid))"

section \<open>Reference: shortest walks\<close>

text \<open>
  The reference is the usual recurrence on natural numbers, and the least cost of a walk. A
  missing edge has the cost \<open>Cost_Infinity\<close>, so distances are capped there.
\<close>

fun fw :: "(nat \<Rightarrow> nat \<Rightarrow> nat) \<Rightarrow> nat \<Rightarrow> nat \<Rightarrow> nat \<Rightarrow> nat" where
  "fw w 0 i j = w i j"
| "fw w (Suc k) i j = min (fw w k i j) (fw w k i k + fw w k k j)"

fun walk_cost :: "(nat \<Rightarrow> nat \<Rightarrow> nat) \<Rightarrow> nat list \<Rightarrow> nat" where
  "walk_cost w (x # y # xs) = w x y + walk_cost w (y # xs)"
| "walk_cost w _ = 0"

lemma fw_mono: "fw w (Suc k) i j \<le> fw w k i j"
  by simp

lemma fw_mono_le: "k \<le> l \<Longrightarrow> fw w l i j \<le> fw w k i j"
  by (induction l rule: dec_induct) (auto intro: le_trans[OF fw_mono])

lemma fw_triangle: "l < k \<Longrightarrow> fw w k i j \<le> fw w k i l + fw w k l j"
proof (induction k arbitrary: i j)
  case (Suc k)
  show ?case
  proof (cases "l = k")
    case True
    then show ?thesis by (auto simp: min_def)
  next
    case False
    then have "l < k" using Suc.prems by simp
    note ih = Suc.IH[OF this]
    show ?thesis using ih[of i j] ih[of i k] ih[of k j] ih[of k k] by (auto simp: min_def)
  qed
qed simp

lemma walk_cost_append:
  "xs \<noteq> [] \<Longrightarrow> ys \<noteq> [] \<Longrightarrow> last xs = hd ys \<Longrightarrow> walk_cost w (xs @ tl ys) = walk_cost w xs + walk_cost w ys"
  by (induction w xs rule: walk_cost.induct) (auto simp: neq_Nil_conv)

text \<open>The recurrence is a lower bound of every walk, and some walk attains it.\<close>

lemma fw_le_walk:
  "\<lbrakk>xs \<noteq> []; set xs \<subseteq> {..<n}\<rbrakk> \<Longrightarrow> fw w n (hd xs) (last xs) \<le> walk_cost w xs + (if length xs = 1 then fw w n (hd xs) (hd xs) else 0)"
proof (induction w xs rule: walk_cost.induct)
  case (1 w x y xs)
  show ?case
  proof (cases "xs = []")
    case True
    then show ?thesis using fw_mono_le[of 0 n w x y] by simp
  next
    case False
    have "fw w n x (last (y # xs)) \<le> fw w n x y + fw w n y (last (y # xs))"
      using 1 by (intro fw_triangle) auto
    moreover have "fw w n x y \<le> w x y" using fw_mono_le[of 0 n w x y] by simp
    ultimately show ?thesis using 1 False by (auto simp: Suc_length_conv)
  qed
qed simp_all

lemma fw_attained:
  "i < n \<Longrightarrow> j < n \<Longrightarrow> k \<le> n \<Longrightarrow>
    \<exists>xs. xs \<noteq> [] \<and> tl xs \<noteq> [] \<and> hd xs = i \<and> last xs = j \<and> set xs \<subseteq> {..<n} \<and> walk_cost w xs = fw w k i j"
proof (induction k arbitrary: i j)
  case 0
  then show ?case by (intro exI[of _ "[i, j]"]) auto
next
  case (Suc k)
  show ?case
  proof (cases "fw w k i j \<le> fw w k i k + fw w k k j")
    case True
    then show ?thesis using Suc by (simp add: min_def)
  next
    case False
    obtain xs where xs: "xs \<noteq> []" "tl xs \<noteq> []" "hd xs = i" "last xs = k" "set xs \<subseteq> {..<n}" "walk_cost w xs = fw w k i k"
      using Suc.IH[of i k] Suc.prems by auto
    obtain ys where ys: "ys \<noteq> []" "tl ys \<noteq> []" "hd ys = k" "last ys = j" "set ys \<subseteq> {..<n}" "walk_cost w ys = fw w k k j"
      using Suc.IH[of k j] Suc.prems by auto
    have "walk_cost w (xs @ tl ys) = fw w (Suc k) i j"
      using xs ys False walk_cost_append[of xs ys w] by simp
    moreover have "set (xs @ tl ys) \<subseteq> {..<n}" using xs ys list.set_sel(2)[of ys] by auto
    ultimately show ?thesis using xs ys by (intro exI[of _ "xs @ tl ys"]) (auto simp: last_tl)
  qed
qed

lemma fw_sym: "(\<And>a b. w a b = w b a) \<Longrightarrow> fw w k i j = fw w k j i"
  by (induction k arbitrary: i j) (simp_all add: add.commute min_def)

lemma fw_diag: "w i i = 0 \<Longrightarrow> fw w k i i = 0"
  by (induction k) simp_all

lemma fw_pivot: "w k k = 0 \<Longrightarrow> fw w (Suc k) i k = fw w k i k" "w k k = 0 \<Longrightarrow> fw w (Suc k) k j = fw w k k j"
  by (simp_all add: fw_diag)

section \<open>The loops compute the recurrence\<close>

lemma idx_eq: "b < n \<Longrightarrow> d < n \<Longrightarrow> a * n + b = c * n + d \<longleftrightarrow> a = c \<and> b = (d::nat)"
  by (metis add.commute div_mult_self1 div_less mod_mult_self1 mod_less mult.commute not_less_zero add_cancel_right_left)

text \<open>The cost matrix of a fabric of \<open>n\<close> switches: symmetric, zero diagonal, at most infinity.\<close>

definition cost_ok :: "nat \<Rightarrow> matrices \<Rightarrow> bool" where
  "cost_ok n s \<longleftrightarrow> (\<forall>a < n. cost s (a * n + a) = 0) \<and>
     (\<forall>a < n. \<forall>b < n. cost s (a * n + b) = cost s (b * n + a) \<and> cost s (a * n + b) \<le> Cost_Infinity)"

definition weight :: "nat \<Rightarrow> matrices \<Rightarrow> nat \<Rightarrow> nat \<Rightarrow> nat" where
  "weight n s a b = (if a < n \<and> b < n then unat (cost s (a * n + b)) else 0)"

lemma weight_props:
  assumes "cost_ok n s"
  shows "weight n s a b = weight n s b a" "weight n s a a = 0" "weight n s a b \<le> 32767"
proof -
  show "weight n s a b = weight n s b a" "weight n s a a = 0" using assms by (auto simp: weight_def cost_ok_def)
  have "cost s (a * n + b) \<le> 32767" if "a < n" "b < n"
    using assms that by (simp add: cost_ok_def Cost_Infinity_def)
  then show "weight n s a b \<le> 32767" by (auto simp: weight_def word_le_nat_alt)
qed

lemma unat_eq_of_nat_u16: "unat (x :: u16) = n \<Longrightarrow> x = of_nat n"
  by auto

lemma unat_of_nat_u16: "n < 65536 \<Longrightarrow> unat (of_nat n :: u16) = n"
  by (simp add: unat_of_nat)

lemma u16_add_small: "unat (x :: u16) + unat y < 65536 \<Longrightarrow> unat (x + y) = unat x + unat y"
  by (simp add: unat_word_ariths)

text \<open>Pivot \<open>k\<close> in progress: the entries in \<open>P\<close> are done.\<close>

definition pivot_inv :: "nat \<Rightarrow> (nat \<Rightarrow> nat \<Rightarrow> nat) \<Rightarrow> nat \<Rightarrow> (nat \<Rightarrow> nat \<Rightarrow> bool) \<Rightarrow> matrices \<Rightarrow> bool" where
  "pivot_inv n w k P s \<longleftrightarrow>
     (\<forall>a < n. \<forall>b < n. unat (cost s (a * n + b)) = (if P a b then fw w (Suc k) a b else fw w k a b))"

definition weights_ok :: "(nat \<Rightarrow> nat \<Rightarrow> nat) \<Rightarrow> bool" where
  "weights_ok w \<longleftrightarrow> (\<forall>a b. w a b = w b a \<and> w a b \<le> 32767) \<and> (\<forall>a. w a a = 0)"

lemma fw_bound: "weights_ok w \<Longrightarrow> fw w k a b \<le> 32767"
  using fw_mono_le[of 0 k w a b] by (auto simp: weights_ok_def intro: le_trans)

lemma pivot_reads:
  assumes "pivot_inv n w k P s" and "weights_ok w" and "i < n" and "j < n" and "k < n"
  shows "unat (cost s (i * n + k)) = fw w k i k" "unat (cost s (k * n + j)) = fw w k k j"
    "unat (cost s (i * n + k) + cost s (k * n + j)) = fw w k i k + fw w k k j"
    "min (unat (cost s (i * n + j))) (fw w k i k + fw w k k j) = fw w (Suc k) i j"
proof -
  have w: "w k k = 0" using assms(2) by (simp add: weights_ok_def)
  show a: "unat (cost s (i * n + k)) = fw w k i k" and b: "unat (cost s (k * n + j)) = fw w k k j"
    using assms w by (auto simp: pivot_inv_def fw_diag)
  show "unat (cost s (i * n + k) + cost s (k * n + j)) = fw w k i k + fw w k k j"
    using fw_bound[OF assms(2), of k i k] fw_bound[OF assms(2), of k k j] a b by (subst u16_add_small) auto
  show "min (unat (cost s (i * n + j))) (fw w k i k + fw w k k j) = fw w (Suc k) i j"
    using assms by (auto simp: pivot_inv_def)
qed

lemma relax_cost:
  assumes "pivot_inv n w k P s" and "weights_ok w" and "i < n" and "j < n" and "k < n"
    and sym: "cost s (i * n + j) = cost s (j * n + i)"
  shows "cost (relax n n k i j s) = (cost s)(i * n + j := of_nat (fw w (Suc k) i j), j * n + i := of_nat (fw w (Suc k) i j))"
proof -
  note r = pivot_reads[OF assms(1-5)]
  let ?v = "cost s (i * n + k) + cost s (k * n + j)"
  have v: "?v = of_nat (fw w k i k + fw w k k j)" using r(3) by (metis unat_eq_of_nat_u16)
  show ?thesis
  proof (cases "?v < cost s (i * n + j)")
    case True
    then have "fw w (Suc k) i j = fw w k i k + fw w k k j" using r(3,4) by (simp add: word_less_nat_alt min_def split: if_splits)
    then show ?thesis using True v by (simp add: relax_def Let_def Index_def)
  next
    case False
    then have "unat (cost s (i * n + j)) = fw w (Suc k) i j" using r(3,4) by (simp add: word_less_nat_alt min_def split: if_splits)
    then have "cost s (i * n + j) = of_nat (fw w (Suc k) i j)" by (metis unat_eq_of_nat_u16)
    then show ?thesis using False sym by (auto simp: relax_def Let_def fun_eq_iff)
  qed
qed

lemma pivot_sym:
  assumes "pivot_inv n w k P s" "weights_ok w" "\<And>a b. P a b = P b a" "i < n" "j < n"
  shows "cost s (i * n + j) = cost s (j * n + i)"
proof -
  have "fw w l i j = fw w l j i" for l using assms(2) by (intro fw_sym) (simp add: weights_ok_def)
  then have "unat (cost s (i * n + j)) = unat (cost s (j * n + i))"
    using assms(1,4,5) assms(3)[of i j] unfolding pivot_inv_def by presburger
  then show ?thesis by (simp add: word_unat_eq_iff)
qed

lemma relax_inv:
  assumes "pivot_inv n w k P s" "weights_ok w" "\<And>a b. P a b = P b a" "i < n" "j < n" "k < n" "i \<noteq> j"
  shows "pivot_inv n w k (\<lambda>a b. P a b \<or> a = i \<and> b = j \<or> a = j \<and> b = i) (relax n n k i j s)"
proof -
  let ?v = "of_nat (fw w (Suc k) i j) :: u16"
  have v: "unat ?v = fw w (Suc k) i j"
    using fw_bound[OF assms(2), of "Suc k" i j] by (intro unat_of_nat_u16) simp
  have sy: "fw w (Suc k) i j = fw w (Suc k) j i" using assms(2) by (intro fw_sym) (simp add: weights_ok_def)
  have c: "cost (relax n n k i j s) = (cost s)(i * n + j := ?v, j * n + i := ?v)"
    by (rule relax_cost[OF assms(1,2,4,5,6) pivot_sym[OF assms(1-5)]])
  have "unat (((cost s)(i * n + j := ?v, j * n + i := ?v)) (a * n + b)) =
      (if P a b \<or> a = i \<and> b = j \<or> a = j \<and> b = i then fw w (Suc k) a b else fw w k a b)" if "a < n" "b < n" for a b
  proof -
    consider "a = i \<and> b = j" | "a = j \<and> b = i" | "\<not> (a = i \<and> b = j)" "\<not> (a = j \<and> b = i)" by blast
    then show ?thesis
    proof cases
      case 1
      then show ?thesis using v by (simp del: fw.simps)
    next
      case 2
      then show ?thesis using v sy by (simp del: fw.simps)
    next
      case 3
      then have "a * n + b \<noteq> i * n + j" "a * n + b \<noteq> j * n + i"
        using idx_eq[OF that(2) assms(5), of a i] idx_eq[OF that(2) assms(4), of a j] by simp_all
      then show ?thesis using assms(1) that 3 unfolding pivot_inv_def by (simp del: fw.simps) blast
    qed
  qed
  then show ?thesis unfolding pivot_inv_def c by blast
qed

lemma pivot_inv_cong:
  assumes "pivot_inv n w k P s" "weights_ok w" "\<And>a b. a < n \<Longrightarrow> b < n \<Longrightarrow> a \<noteq> b \<Longrightarrow> P a b = Q a b"
  shows "pivot_inv n w k Q s"
proof -
  have "fw w (Suc k) a a = fw w k a a" for a using assms(2) by (simp add: weights_ok_def fw_diag)
  then show ?thesis using assms(1,3) unfolding pivot_inv_def by (metis (no_types, lifting))
qed

text \<open>
  The path masks: every port in the mask of \<open>(a, b)\<close> leads to a switch from which \<open>b\<close> is near
  enough, and where \<open>b\<close> is reachable there is such a port that is not a loopback. The
  neighbour behind port \<open>p\<close> of switch \<open>a\<close> is \<open>nb a p\<close>.
\<close>

definition path_inv :: "nat \<Rightarrow> (nat \<Rightarrow> nat \<Rightarrow> nat) \<Rightarrow> (nat \<Rightarrow> nat \<Rightarrow> nat) \<Rightarrow> matrices \<Rightarrow> bool" where
  "path_inv n w nb s \<longleftrightarrow> (\<forall>a < n. \<forall>b < n.
     (\<forall>p. in_mask p (path s (a * n + b)) \<longrightarrow>
        nb a p < n \<and> w a (nb a p) + fw w n (nb a p) b \<le> unat (cost s (a * n + b))) \<and>
     (a \<noteq> b \<and> unat (cost s (a * n + b)) < 32767 \<longrightarrow> (\<exists>p. in_mask p (path s (a * n + b)) \<and> nb a p \<noteq> a)))"

lemma path_invD:
  assumes "path_inv n w nb s" "a < n" "b < n"
  shows "in_mask p (path s (a * n + b)) \<Longrightarrow> nb a p < n \<and> w a (nb a p) + fw w n (nb a p) b \<le> unat (cost s (a * n + b))"
    "a \<noteq> b \<Longrightarrow> unat (cost s (a * n + b)) < 32767 \<Longrightarrow> \<exists>p. in_mask p (path s (a * n + b)) \<and> nb a p \<noteq> a"
  using assms by (auto simp: path_inv_def)

lemma in_mask_merge: "in_mask p (sm_path_portmask_merge x y) \<longleftrightarrow> in_mask p x \<or> in_mask p y"
  by (auto simp: in_mask_def sm_path_portmask_merge_def bit_or_iff)

text \<open>A port towards \<open>k\<close> is good for \<open>b\<close> when the sum over \<open>k\<close> is no better than the cost to \<open>b\<close>.\<close>

lemma path_via:
  assumes "path_inv n w nb s" "a < n" "b < n" "k < n" "in_mask p (path s (a * n + k))"
    and "fw w n k b \<le> d" and "unat (cost s (a * n + k)) + d \<le> c"
  shows "nb a p < n \<and> w a (nb a p) + fw w n (nb a p) b \<le> c"
proof -
  have "nb a p < n" "w a (nb a p) + fw w n (nb a p) k \<le> unat (cost s (a * n + k))"
    using path_invD(1)[OF assms(1,2,4,5)] by simp_all
  moreover have "fw w n (nb a p) b \<le> fw w n (nb a p) k + fw w n k b" by (rule fw_triangle[OF assms(4)])
  ultimately show ?thesis using assms(6,7) by linarith
qed

lemma path_inv_update:
  assumes "path_inv n w nb s" "a < n" "b < n"
    and "\<And>p. in_mask p m \<Longrightarrow> nb a p < n \<and> w a (nb a p) + fw w n (nb a p) b \<le> unat c"
    and "a \<noteq> b \<Longrightarrow> unat c < 32767 \<Longrightarrow> \<exists>p. in_mask p m \<and> nb a p \<noteq> a"
  shows "path_inv n w nb (s\<lparr>cost := (cost s)(a * n + b := c), path := (path s)(a * n + b := m)\<rparr>)"
  unfolding path_inv_def
proof (intro allI impI)
  fix a' b' assume ab: "a' < n" "b' < n"
  show "(\<forall>p. in_mask p (path (s\<lparr>cost := (cost s)(a * n + b := c), path := (path s)(a * n + b := m)\<rparr>) (a' * n + b')) \<longrightarrow>
       nb a' p < n \<and> w a' (nb a' p) + fw w n (nb a' p) b' \<le>
         unat (cost (s\<lparr>cost := (cost s)(a * n + b := c), path := (path s)(a * n + b := m)\<rparr>) (a' * n + b'))) \<and>
    (a' \<noteq> b' \<and> unat (cost (s\<lparr>cost := (cost s)(a * n + b := c), path := (path s)(a * n + b := m)\<rparr>) (a' * n + b')) < 32767 \<longrightarrow>
      (\<exists>p. in_mask p (path (s\<lparr>cost := (cost s)(a * n + b := c), path := (path s)(a * n + b := m)\<rparr>) (a' * n + b')) \<and> nb a' p \<noteq> a'))"
    using path_invD[OF assms(1) ab] assms(4,5) idx_eq[OF ab(2) assms(3), of a' a]
    by (cases "a' = a \<and> b' = b") simp_all
qed

lemma matrices_upd: "s\<lparr>cost := c, path := p\<rparr>\<lparr>cost := c', path := p'\<rparr> = s\<lparr>cost := c', path := p'\<rparr>"
  by simp

lemma relax_path:
  assumes piv: "pivot_inv n w k P s" and w: "weights_ok w" and P: "\<And>a b. P a b = P b a"
    and ij: "i < n" "j < n" "k < n" "i \<noteq> j" and fin: "unat (cost s (i * n + k)) < 32767"
    and inv: "path_inv n w nb s"
  shows "path_inv n w nb (relax n n k i j s)"
proof -
  note r = pivot_reads[OF piv w ij(1,2,3)]
  let ?v = "cost s (i * n + k) + cost s (k * n + j)"
  have sym: "fw w l a b = fw w l b a" for l a b using w by (intro fw_sym) (simp add: weights_ok_def)
  have csym: "cost s (a * n + b) = cost s (b * n + a)" if "a < n" "b < n" for a b
    by (rule pivot_sym[OF piv w P that])
  have le: "fw w n k j \<le> unat (cost s (k * n + j))" "fw w n k i \<le> unat (cost s (i * n + k))"
    using fw_mono_le[of k n w k j] fw_mono_le[of k n w k i] sym[of k k i] ij(3) r(1,2) by simp_all
  have v: "unat ?v = unat (cost s (i * n + k)) + unat (cost s (k * n + j))" using r(1,2,3) by simp
  have ne: "i * n + j \<noteq> j * n + i" "j * n + k \<noteq> i * n + j" using ij idx_eq[of j n i i j] idx_eq[of k n j j i] by auto
  have via_ij: "nb i p < n \<and> w i (nb i p) + fw w n (nb i p) j \<le> unat ?v" if "in_mask p (path s (i * n + k))" for p
    by (rule path_via[OF inv ij(1,2,3) that le(1)]) (simp add: v)
  have via_ji: "nb j p < n \<and> w j (nb j p) + fw w n (nb j p) i \<le> unat ?v" if "in_mask p (path s (j * n + k))" for p
    by (rule path_via[OF inv ij(2,1,3) that le(2)]) (simp add: v csym[OF ij(2,3)])
  have costs: "unat (cost s (a * n + b)) \<le> 32767" if "a < n" "b < n" for a b
    using piv that fw_bound[OF w] unfolding pivot_inv_def by (auto simp del: fw.simps)
  consider "?v < cost s (i * n + j)" | "?v = cost s (i * n + j)" | "\<not> ?v < cost s (i * n + j)" "?v \<noteq> cost s (i * n + j)" by blast
  then show ?thesis
  proof cases
    case 1
    then have lt: "unat ?v < unat (cost s (i * n + j))" by (simp add: word_less_nat_alt)
    have ik: "i \<noteq> k" using lt v r(1) w by (auto simp: weights_ok_def fw_diag)
    have jk: "j \<noteq> k" using lt v r(2) w by (auto simp: weights_ok_def fw_diag)
    have kj: "unat (cost s (j * n + k)) < 32767" using lt v costs[OF ij(1,2)] csym[OF ij(2,3)] by simp
    have s1: "path_inv n w nb (s\<lparr>cost := (cost s)(i * n + j := ?v), path := (path s)(i * n + j := path s (i * n + k))\<rparr>)"
      using via_ij path_invD(2)[OF inv ij(1,3) ik fin] by (intro path_inv_update[OF inv ij(1,2)]) auto
    have "path_inv n w nb (s\<lparr>cost := (cost s)(i * n + j := ?v, j * n + i := ?v),
        path := (path s)(i * n + j := path s (i * n + k), j * n + i := path s (j * n + k))\<rparr>)"
      using path_inv_update[OF s1 ij(2,1), of "path s (j * n + k)" ?v] via_ji path_invD(2)[OF inv ij(2,3) jk kj]
      by simp
    then show ?thesis using 1 ne by (simp add: relax_def Let_def Index_def)
  next
    case 2
    let ?m1 = "sm_path_portmask_merge (path s (i * n + j)) (path s (i * n + k))"
    let ?m2 = "sm_path_portmask_merge (path s (j * n + i)) (path s (j * n + k))"
    have s1: "path_inv n w nb (s\<lparr>cost := (cost s)(i * n + j := cost s (i * n + j)), path := (path s)(i * n + j := ?m1)\<rparr>)"
      using via_ij path_invD[OF inv ij(1,2)] 2 by (intro path_inv_update[OF inv ij(1,2)]) (auto simp: in_mask_merge)
    have "path_inv n w nb (s\<lparr>cost := (cost s)(i * n + j := cost s (i * n + j), j * n + i := cost s (j * n + i)),
        path := (path s)(i * n + j := ?m1, j * n + i := ?m2)\<rparr>)"
      using path_inv_update[OF s1 ij(2,1), of ?m2 "cost s (j * n + i)"] via_ji path_invD[OF inv ij(2,1)] 2 csym[OF ij(1,2)]
      by (simp add: in_mask_merge) blast
    then show ?thesis using 2 ne by (simp add: relax_def Let_def Index_def)
  next
    case 3
    then show ?thesis using inv by (simp add: relax_def Let_def)
  qed
qed

section \<open>The loops\<close>

definition loop_inv where
  "loop_inv n w nb k P s \<longleftrightarrow> pivot_inv n w k P s \<and> path_inv n w nb s"

lemma row_fold:
  assumes "weights_ok w" "i < n" "k < n" "fw w k i k < 32767"
  shows "\<lbrakk>set js \<subseteq> {i + 1..<n}; \<And>a b. P a b = P b a; loop_inv n w nb k P s\<rbrakk> \<Longrightarrow>
    loop_inv n w nb k (\<lambda>a b. P a b \<or> a = i \<and> b \<in> set js \<or> b = i \<and> a \<in> set js) (fold (relax n n k i) js s)"
proof (induction js arbitrary: s P)
  case (Cons j js)
  have j: "j < n" "i \<noteq> j" using Cons.prems(1) by auto
  have inv: "pivot_inv n w k P s" "path_inv n w nb s" using Cons.prems(3) by (simp_all add: loop_inv_def)
  let ?P = "\<lambda>a b. P a b \<or> a = i \<and> b = j \<or> a = j \<and> b = i"
  have "loop_inv n w nb k ?P (relax n n k i j s)"
    unfolding loop_inv_def
    using relax_inv[OF inv(1) assms(1) Cons.prems(2) assms(2) j(1) assms(3) j(2)]
      relax_path[OF inv(1) assms(1) Cons.prems(2) assms(2) j(1) assms(3) j(2) _ inv(2)]
      pivot_reads(1)[OF inv(1) assms(1,2) j(1) assms(3)] assms(4) by simp
  moreover have "?P a b = ?P b a" for a b using Cons.prems(2)[of a b] by blast
  ultimately have "loop_inv n w nb k (\<lambda>a b. ?P a b \<or> a = i \<and> b \<in> set js \<or> b = i \<and> a \<in> set js) (fold (relax n n k i) (j # js) s)"
    using Cons.IH[of ?P "relax n n k i j s"] Cons.prems(1) by simp
  moreover have "(\<lambda>a b. ?P a b \<or> a = i \<and> b \<in> set js \<or> b = i \<and> a \<in> set js) =
      (\<lambda>a b. P a b \<or> a = i \<and> b \<in> set (j # js) \<or> b = i \<and> a \<in> set (j # js))" by (auto simp: fun_eq_iff)
  ultimately show ?case by simp
qed simp

lemma row_skip:
  assumes "weights_ok w" "fw w k i k = 32767"
  shows "fw w (Suc k) i b = fw w k i b" "fw w (Suc k) b i = fw w k b i"
proof -
  have "fw w k b i = fw w k i b" "fw w k b k + fw w k k i = fw w k i k + fw w k k b"
    using assms(1) fw_sym[of w k b i] fw_sym[of w k b k] fw_sym[of w k k i] by (simp_all add: weights_ok_def)
  then show "fw w (Suc k) i b = fw w k i b" "fw w (Suc k) b i = fw w k b i"
    using fw_bound[OF assms(1), of k i b] assms(2) by simp_all
qed

lemma row_inv:
  assumes w: "weights_ok w" and k: "i < n" "k < n"
    and inv: "loop_inv n w nb k (\<lambda>a b. a < i \<or> b < i) s"
  shows "loop_inv n w nb k (\<lambda>a b. a < Suc i \<or> b < Suc i) (relax_row n n k i s)"
proof -
  have piv: "pivot_inv n w k (\<lambda>a b. a < i \<or> b < i) s" using inv by (simp add: loop_inv_def)
  have ik: "unat (cost s (i * n + k)) = fw w k i k" by (rule pivot_reads(1)[OF piv w k(1,2,2)])
  have inf: "cost s (i * n + k) = Cost_Infinity \<longleftrightarrow> fw w k i k = 32767"
    unfolding ik [symmetric] by (simp add: word_unat_eq_iff Cost_Infinity_def)
  show ?thesis
  proof (cases "fw w k i k = 32767")
    case True
    have "unat (cost s (a * n + b)) = (if a < Suc i \<or> b < Suc i then fw w (Suc k) a b else fw w k a b)" if "a < n" "b < n" for a b
      using piv that row_skip[OF w True] unfolding pivot_inv_def
      by (cases "a = i"; cases "b = i") (auto simp: less_Suc_eq simp del: fw.simps)
    then have "pivot_inv n w k (\<lambda>a b. a < Suc i \<or> b < Suc i) s" unfolding pivot_inv_def by blast
    then show ?thesis using inv True inf by (simp add: loop_inv_def relax_row_def)
  next
    case False
    then have "fw w k i k < 32767" using fw_bound[OF w, of k i k] by simp
    then have "loop_inv n w nb k (\<lambda>a b. (a < i \<or> b < i) \<or> a = i \<and> b \<in> set [i + 1..<n] \<or> b = i \<and> a \<in> set [i + 1..<n])
        (fold (relax n n k i) [i + 1..<n] s)"
      by (intro row_fold[OF w k _ _ _ inv]) auto
    then have "loop_inv n w nb k (\<lambda>a b. a < Suc i \<or> b < Suc i) (fold (relax n n k i) [i + 1..<n] s)"
      unfolding loop_inv_def by (auto elim!: pivot_inv_cong[OF _ w])
    then show ?thesis using False inf by (simp add: relax_row_def)
  qed
qed

lemma pivot_step:
  assumes "weights_ok w" "k < n" "loop_inv n w nb k (\<lambda>_ _. False) s"
  shows "loop_inv n w nb (Suc k) (\<lambda>_ _. False) (fold (relax_row n n k) [0..<n] s)"
proof -
  have "i \<le> n \<Longrightarrow> loop_inv n w nb k (\<lambda>a b. a < i \<or> b < i) (fold (relax_row n n k) [0..<i] s)" for i
    using assms(3) row_inv[OF assms(1) _ assms(2)] by (induction i) auto
  from this[of n] have "loop_inv n w nb k (\<lambda>a b. a < n \<or> b < n) (fold (relax_row n n k) [0..<n] s)" by simp
  then show ?thesis unfolding loop_inv_def pivot_inv_def by (simp del: fw.simps)
qed

lemma floyds_inv:
  assumes "weights_ok w" "loop_inv n w nb 0 (\<lambda>_ _. False) s"
  shows "loop_inv n w nb n (\<lambda>_ _. False) (floyds n n s)"
proof -
  have "k \<le> n \<Longrightarrow> loop_inv n w nb k (\<lambda>_ _. False) (fold (\<lambda>k s. fold (relax_row n n k) [0..<n] s) [0..<k] s)" for k
    using assms(2) pivot_step[OF assms(1)] by (induction k) auto
  from this[of n] show ?thesis by (simp add: floyds_def)
qed

lemma weights_ok_weight: "cost_ok n s \<Longrightarrow> weights_ok (weight n s)"
  using weight_props by (auto simp: weights_ok_def)

text \<open>What the matrices must satisfy before the loops: good costs, and masks of direct links.\<close>

definition links_ok :: "nat \<Rightarrow> (nat \<Rightarrow> nat \<Rightarrow> nat) \<Rightarrow> matrices \<Rightarrow> bool" where
  "links_ok n nb s \<longleftrightarrow> cost_ok n s \<and> (\<forall>a < n. \<forall>b < n.
     (\<forall>p. in_mask p (path s (a * n + b)) \<longrightarrow> nb a p = b) \<and>
     (a \<noteq> b \<and> cost s (a * n + b) < Cost_Infinity \<longrightarrow> (\<exists>p. in_mask p (path s (a * n + b)))))"

lemma links_path_inv:
  assumes "links_ok n nb s"
  shows "loop_inv n (weight n s) nb 0 (\<lambda>_ _. False) s"
proof -
  have c: "cost_ok n s" using assms by (simp add: links_ok_def)
  have piv: "pivot_inv n (weight n s) 0 (\<lambda>_ _. False) s" by (simp add: pivot_inv_def weight_def)
  have z: "fw (weight n s) n b b = 0" for b by (rule fw_diag) (simp add: weight_props(2)[OF c])
  have l: "cost s x < Cost_Infinity \<longleftrightarrow> unat (cost s x) < 32767" for x
    by (simp add: word_less_nat_alt Cost_Infinity_def)
  have "path_inv n (weight n s) nb s"
    using assms unfolding path_inv_def links_ok_def by (fastforce simp: l weight_def z)
  with piv show ?thesis by (simp add: loop_inv_def)
qed

lemma floyds_result:
  assumes "links_ok n nb s" "a < n" "b < n"
  shows "unat (cost (floyds n n s) (a * n + b)) = fw (weight n s) n a b" "path_inv n (weight n s) nb (floyds n n s)"
  using floyds_inv[OF weights_ok_weight links_path_inv[OF assms(1)]] assms
  by (auto simp: loop_inv_def pivot_inv_def links_ok_def simp del: fw.simps)

section \<open>Initialisation\<close>

lemma fill_row: "cost (fold (\<lambda>j m. m\<lparr>cost := (cost m)(i * n + j := Cost_Infinity, Index n j i := Cost_Infinity)\<rparr>) js m) =
    (\<lambda>z. if \<exists>j \<in> set js. z = i * n + j \<or> z = j * n + i then Cost_Infinity else cost m z) \<and>
  path (fold (\<lambda>j m. m\<lparr>cost := (cost m)(i * n + j := Cost_Infinity, Index n j i := Cost_Infinity)\<rparr>) js m) = path m"
  by (induction js arbitrary: m) (auto simp: Index_def fun_eq_iff)

lemma fill_rows:
  "cost (fold (\<lambda>i m. fold (\<lambda>j m. m\<lparr>cost := (cost m)(i * n + j := Cost_Infinity, Index n j i := Cost_Infinity)\<rparr>) [0..<i + 1] m) is m) =
    (\<lambda>z. if \<exists>i \<in> set is. \<exists>j \<le> i. z = i * n + j \<or> z = j * n + i then Cost_Infinity else cost m z) \<and>
   path (fold (\<lambda>i m. fold (\<lambda>j m. m\<lparr>cost := (cost m)(i * n + j := Cost_Infinity, Index n j i := Cost_Infinity)\<rparr>) [0..<i + 1] m) is m) = path m"
proof (induction "is" arbitrary: m)
  case (Cons i "is")
  show ?case
    by (simp only: fold_simps comp_def Cons.IH fill_row) (auto simp: fun_eq_iff less_Suc_eq_le)
qed simp

lemma fill_infinity_all:
  assumes "a < n" "b < n"
  shows "cost (fill_infinity n m) (a * n + b) = Cost_Infinity" "path (fill_infinity n m) = path m"
proof -
  have "\<exists>i \<in> set [0..<n]. \<exists>j \<le> i. a * n + b = i * n + j \<or> a * n + b = j * n + i"
  proof (cases "b \<le> a")
    case True
    then show ?thesis using assms by (intro bexI[of _ a] exI[of _ b]) auto
  next
    case False
    then show ?thesis using assms by (intro bexI[of _ b] exI[of _ a]) auto
  qed
  then show "cost (fill_infinity n m) (a * n + b) = Cost_Infinity" "path (fill_infinity n m) = path m"
    unfolding fill_infinity_def fill_rows[THEN conjunct1] fill_rows[THEN conjunct2] by simp_all
qed

lemma clear_diagonal_eq:
  "cost (clear_diagonal n m) = (\<lambda>z. if \<exists>i < n. z = i * (n + 1) then 0 else cost m z)" "path (clear_diagonal n m) = path m"
proof -
  have "cost (fold (\<lambda>i m. m\<lparr>cost := (cost m)(i * (n + 1) := 0)\<rparr>) is m) = (\<lambda>z. if \<exists>i \<in> set is. z = i * (n + 1) then 0 else cost m z) \<and>
      path (fold (\<lambda>i m. m\<lparr>cost := (cost m)(i * (n + 1) := 0)\<rparr>) is m) = path m" for "is"
    by (induction "is" arbitrary: m) (auto simp: fun_eq_iff)
  then show "cost (clear_diagonal n m) = (\<lambda>z. if \<exists>i < n. z = i * (n + 1) then 0 else cost m z)" "path (clear_diagonal n m) = path m"
    by (auto simp: clear_diagonal_def fun_eq_iff)
qed

text \<open>
  A well-formed fabric: switch indices and port numbers in range, and both ends of a cable
  agree with the neighbour function. The path matrix starts empty.
\<close>

definition port_ok :: "nat \<Rightarrow> (nat \<Rightarrow> nat \<Rightarrow> nat) \<Rightarrow> nat \<Rightarrow> sw_port \<Rightarrow> bool" where
  "port_ok n nb i p \<longleftrightarrow> sp_up p \<longrightarrow> (case sp_neighbor p of None \<Rightarrow> True
     | Some k \<Rightarrow> k < n \<and> 0 < sp_index p \<and> sp_index p \<le> 64 \<and> 0 < sp_portno p \<and> sp_portno p \<le> 64 \<and>
         nb i (sp_index p) = k \<and> nb k (sp_portno p) = i)"

definition fabric_ok :: "nat \<Rightarrow> (nat \<Rightarrow> nat \<Rightarrow> nat) \<Rightarrow> (nat \<times> sw_port list) list \<Rightarrow> bool" where
  "fabric_ok n nb sws \<longleftrightarrow> list_all (\<lambda>(i, ports). i < n \<and> list_all (port_ok n nb i) ports) sws"

definition init_inv :: "nat \<Rightarrow> (nat \<Rightarrow> nat \<Rightarrow> nat) \<Rightarrow> matrices \<Rightarrow> bool" where
  "init_inv n nb m \<longleftrightarrow> (\<forall>a < n. \<forall>b < n.
     cost m (a * n + b) = cost m (b * n + a) \<and> cost m (a * n + b) \<le> Cost_Infinity \<and>
     (\<forall>p. in_mask p (path m (a * n + b)) \<longrightarrow> nb a p = b) \<and>
     (cost m (a * n + b) < Cost_Infinity \<longrightarrow> (\<exists>p. in_mask p (path m (a * n + b)))))"

lemma init_invD:
  assumes "init_inv n nb m" "a < n" "b < n"
  shows "cost m (a * n + b) = cost m (b * n + a)" "cost m (a * n + b) \<le> Cost_Infinity"
    "in_mask p (path m (a * n + b)) \<Longrightarrow> nb a p = b"
    "cost m (a * n + b) < Cost_Infinity \<Longrightarrow> \<exists>p. in_mask p (path m (a * n + b))"
  using assms unfolding init_inv_def by blast+

lemma cost_of_speed: "SpeedWidth_to_Cost x < Cost_Infinity"
proof -
  have "(2400 :: u16) div x \<le> 2400" by (simp add: word_le_nat_alt unat_div)
  then show ?thesis unfolding SpeedWidth_to_Cost_def Cost_Infinity_def by (auto intro: le_less_trans)
qed

lemma in_mask_set: "0 < q \<Longrightarrow> q \<le> 64 \<Longrightarrow> in_mask p (sm_path_portmask_set m q) \<longleftrightarrow> p = q \<or> in_mask p m"
  by (auto simp: in_mask_def sm_path_portmask_set_def bit_or_iff bit_exp_iff)

lemma add_port_cost:
  assumes "sp_up p" "sp_neighbor p = Some k"
  shows "cost (add_port n i p m) z =
    (if z = Index n i k \<or> z = Index n k i then SpeedWidth_to_Cost (sp_speed p) else cost m z)"
  using assms by (simp add: add_port_def Let_def)

lemma add_port_path:
  assumes "sp_up p" "sp_neighbor p = Some k" "0 < sp_index p" "sp_index p \<le> 64" "0 < sp_portno p" "sp_portno p \<le> 64"
  shows "in_mask q (path (add_port n i p m) z) \<longleftrightarrow> in_mask q (path m z) \<or>
    z = Index n i k \<and> q = sp_index p \<or> z = Index n k i \<and> q = sp_portno p"
  using assms by (simp add: add_port_def Let_def in_mask_set) blast

lemma add_port_inv:
  assumes "init_inv n nb m" "i < n" "port_ok n nb i p"
  shows "init_inv n nb (add_port n i p m)"
proof (cases "sp_up p \<and> sp_neighbor p \<noteq> None")
  case True
  then obtain k where k: "sp_up p" "sp_neighbor p = Some k" by auto
  then have ok: "k < n" "0 < sp_index p" "sp_index p \<le> 64" "0 < sp_portno p" "sp_portno p \<le> 64"
    "nb i (sp_index p) = k" "nb k (sp_portno p) = i"
    using assms(3) by (simp_all add: port_ok_def)
  let ?c = "SpeedWidth_to_Cost (sp_speed p)"
  have c: "?c \<le> Cost_Infinity" using cost_of_speed[of "sp_speed p"] by simp
  have idx: "a * n + b = i * n + k \<longleftrightarrow> a = i \<and> b = k" "a * n + b = k * n + i \<longleftrightarrow> a = k \<and> b = i" if "b < n" for a b
    using idx_eq[OF that ok(1)] idx_eq[OF that assms(2)] by simp_all
  have cost': "cost (add_port n i p m) (a * n + b) =
      (if a = i \<and> b = k \<or> a = k \<and> b = i then ?c else cost m (a * n + b))" if "b < n" for a b
    unfolding add_port_cost[OF k] Index_def idx[OF that] by (rule refl)
  have path': "in_mask q (path (add_port n i p m) (a * n + b)) \<longleftrightarrow> in_mask q (path m (a * n + b)) \<or>
      a = i \<and> b = k \<and> q = sp_index p \<or> a = k \<and> b = i \<and> q = sp_portno p" if "b < n" for a b q
    unfolding add_port_path[OF k ok(2-5)] Index_def idx[OF that] by blast
  show ?thesis
    unfolding init_inv_def
  proof (intro allI impI conjI, goal_cases)
    case (1 a b)
    show ?case unfolding cost'[OF 1(2)] cost'[OF 1(1)] using init_invD(1)[OF assms(1) 1] by (simp add: disj_commute conj_commute)
  next
    case (2 a b)
    show ?case unfolding cost'[OF 2(2)] using init_invD(2)[OF assms(1) 2] c by simp
  next
    case (3 a b q)
    then show ?case using init_invD(3)[OF assms(1) 3(1,2)] ok(6,7) unfolding path'[OF 3(2)] by blast
  next
    case (4 a b)
    show ?case
    proof (cases "a = i \<and> b = k \<or> a = k \<and> b = i")
      case True
      then show ?thesis unfolding path'[OF 4(2)] by blast
    next
      case False
      then show ?thesis using 4(3) init_invD(4)[OF assms(1) 4(1,2)] unfolding path'[OF 4(2)] cost'[OF 4(2)] by auto
    qed
  qed
next
  case False
  then show ?thesis using assms(1) by (auto simp: add_port_def split: option.splits)
qed

lemma add_links_inv:
  assumes "fabric_ok n nb sws" "init_inv n nb m"
  shows "init_inv n nb (add_links n sws m)"
proof -
  have ports: "init_inv n nb m \<Longrightarrow> i < n \<Longrightarrow> list_all (port_ok n nb i) ports \<Longrightarrow> init_inv n nb (fold (add_port n i) ports m)"
    for i ports m
    by (induction ports arbitrary: m) (auto intro: add_port_inv)
  show ?thesis
    using assms unfolding add_links_def fabric_ok_def
    by (induction sws arbitrary: m) (auto intro: ports)
qed

lemma init_links_ok:
  assumes fab: "fabric_ok n nb sws" and empty: "\<And>a b. a < n \<Longrightarrow> b < n \<Longrightarrow> path m (a * n + b) = 0"
  shows "links_ok n nb (sm_routing_func_init_cost_matrix_floyds n sws m)"
proof -
  have "init_inv n nb (fill_infinity n m)"
    unfolding init_inv_def using fill_infinity_all empty by (auto simp: in_mask_def)
  then have inv: "init_inv n nb (add_links n sws (fill_infinity n m))" by (rule add_links_inv[OF fab])
  have diag: "(\<exists>i < n. a * n + b = i * (n + 1)) \<longleftrightarrow> a = b" if "a < n" "b < n" for a b
  proof -
    have "a * n + b = i * (n + 1) \<longleftrightarrow> a = i \<and> b = i" if "i < n" for i
      using idx_eq[OF \<open>b < n\<close> that, of a i] by (simp add: add.commute)
    then show ?thesis using that by auto
  qed
  let ?m = "add_links n sws (fill_infinity n m)"
  let ?r = "sm_routing_func_init_cost_matrix_floyds n sws m"
  have c: "cost ?r (a * n + b) = (if a = b then 0 else cost ?m (a * n + b))" if "a < n" "b < n" for a b
    using diag[OF that] by (simp add: sm_routing_func_init_cost_matrix_floyds_def clear_diagonal_eq)
  have p: "path ?r = path ?m" by (simp add: sm_routing_func_init_cost_matrix_floyds_def clear_diagonal_eq)
  have "cost_ok n ?r" unfolding cost_ok_def
    using c init_invD(1,2)[OF inv] by (metis word_zero_le)
  then show ?thesis unfolding links_ok_def p using init_invD(3,4)[OF inv] c by metis
qed

text \<open>Real links have a speed of at most 2400 units, so that their cost is positive.\<close>

definition speeds_ok :: "(nat \<times> sw_port list) list \<Rightarrow> bool" where
  "speeds_ok sws \<longleftrightarrow> list_all (\<lambda>(i, ports). list_all (\<lambda>p. sp_speed p \<le> 2400) ports) sws"

lemma cost_of_speed_pos: "x \<le> 2400 \<Longrightarrow> 0 < SpeedWidth_to_Cost x"
proof -
  assume "x \<le> 2400"
  then have "unat x \<le> 2400" by (simp add: word_le_nat_alt)
  then have "x \<noteq> 0 \<Longrightarrow> 0 < 2400 div unat x" by (simp add: div_greater_zero_iff unat_gt_0)
  then show ?thesis by (simp add: SpeedWidth_to_Cost_def word_less_nat_alt unat_div)
qed

lemma add_links_pos:
  assumes "speeds_ok sws" "0 < cost m z"
  shows "0 < cost (add_links n sws m) z"
proof -
  have one: "0 < cost m z \<Longrightarrow> sp_speed p \<le> 2400 \<Longrightarrow> 0 < cost (add_port n i p m) z" for m i p
    using cost_of_speed_pos[of "sp_speed p"] by (auto simp: add_port_def Let_def split: option.splits)
  have ports: "0 < cost m z \<Longrightarrow> list_all (\<lambda>p. sp_speed p \<le> 2400) ps \<Longrightarrow> 0 < cost (fold (add_port n i) ps m) z" for ps m i
    by (induction ps arbitrary: m) (auto intro: one)
  show ?thesis using assms unfolding add_links_def speeds_ok_def
    by (induction sws arbitrary: m) (auto intro: ports)
qed

lemma init_weight_pos:
  assumes "speeds_ok sws" "a < n" "b < n" "a \<noteq> b"
  shows "0 < weight n (sm_routing_func_init_cost_matrix_floyds n sws m) a b"
proof -
  have "0 < cost (add_links n sws (fill_infinity n m)) (a * n + b)"
    by (rule add_links_pos[OF assms(1)]) (simp add: fill_infinity_all[OF assms(2,3)] Cost_Infinity_def)
  moreover have "\<not> (\<exists>i < n. a * n + b = i * (n + 1))"
    using assms(4) idx_eq[OF assms(3), of _ a] by (metis mult.commute mult_Suc_right Suc_eq_plus1 add.commute)
  ultimately show ?thesis
    using assms(2,3) by (simp add: weight_def sm_routing_func_init_cost_matrix_floyds_def clear_diagonal_eq unat_gt_0 word_gt_0)
qed

section \<open>Routing along the path matrix\<close>

text \<open>The switches visited from \<open>a\<close> when every switch forwards towards \<open>b\<close> through port \<open>f\<close>.\<close>

fun forward :: "(nat \<Rightarrow> nat \<Rightarrow> nat) \<Rightarrow> (nat \<Rightarrow> nat) \<Rightarrow> nat \<Rightarrow> nat \<Rightarrow> nat \<Rightarrow> nat list" where
  "forward nb f b 0 a = [a]"
| "forward nb f b (Suc k) a = (if a = b then [a] else a # forward nb f b k (nb a (f a)))"

lemma next_hop:
  assumes "links_ok n nb s" "a < n" "b < n" "in_mask p (path (floyds n n s) (a * n + b))"
  shows "nb a p < n \<and> weight n s a (nb a p) + fw (weight n s) n (nb a p) b = fw (weight n s) n a b"
proof -
  note r = floyds_result[OF assms(1-3)]
  have le: "nb a p < n" "weight n s a (nb a p) + fw (weight n s) n (nb a p) b \<le> fw (weight n s) n a b"
    using path_invD(1)[OF r(2) assms(2,3,4)] r(1) by simp_all
  moreover have "fw (weight n s) n a b \<le> fw (weight n s) n a (nb a p) + fw (weight n s) n (nb a p) b"
    by (rule fw_triangle[OF le(1)])
  moreover have "fw (weight n s) n a (nb a p) \<le> weight n s a (nb a p)" using fw_mono_le[of 0 n] by simp
  ultimately show ?thesis by simp
qed

lemma forward_reaches:
  assumes "links_ok n nb s" "b < n"
    and pos: "\<And>x y. x < n \<Longrightarrow> y < n \<Longrightarrow> x \<noteq> y \<Longrightarrow> 0 < weight n s x y"
    and f: "\<And>x. x < n \<Longrightarrow> x \<noteq> b \<Longrightarrow> cost (floyds n n s) (x * n + b) < Cost_Infinity \<Longrightarrow>
      in_mask (f x) (path (floyds n n s) (x * n + b)) \<and> nb x (f x) \<noteq> x"
  shows "a < n \<Longrightarrow> fw (weight n s) n a b < 32767 \<Longrightarrow> fw (weight n s) n a b \<le> d \<Longrightarrow>
    last (forward nb f b d a) = b \<and> walk_cost (weight n s) (forward nb f b d a) = fw (weight n s) n a b"
proof (induction d arbitrary: a)
  case 0
  have "a = b"
  proof (rule ccontr)
    assume "a \<noteq> b"
    then have "in_mask (f a) (path (floyds n n s) (a * n + b)) \<and> nb a (f a) \<noteq> a"
      using f[of a] 0 floyds_result(1)[OF assms(1) 0(1) assms(2)] by (simp add: word_less_nat_alt Cost_Infinity_def)
    then show False using next_hop[OF assms(1) 0(1) assms(2), of "f a"] pos[of a "nb a (f a)"] 0 by auto
  qed
  then show ?case using 0 by simp
next
  case (Suc d)
  show ?case
  proof (cases "a = b")
    case True
    then show ?thesis using assms(1) by (simp add: fw_diag links_ok_def weight_props(2) del: fw.simps)
  next
    case False
    then have p: "in_mask (f a) (path (floyds n n s) (a * n + b))" "nb a (f a) \<noteq> a"
      using f[of a] Suc.prems floyds_result(1)[OF assms(1) Suc.prems(1) assms(2)]
      by (simp_all add: word_less_nat_alt Cost_Infinity_def)
    note h = next_hop[OF assms(1) Suc.prems(1) assms(2) p(1)]
    have "0 < weight n s a (nb a (f a))" using pos h p(2) Suc.prems(1) by auto
    then have ih: "last (forward nb f b d (nb a (f a))) = b"
      "walk_cost (weight n s) (forward nb f b d (nb a (f a))) = fw (weight n s) n (nb a (f a)) b"
      using Suc.IH[of "nb a (f a)"] h Suc.prems by auto
    have hd: "\<exists>ys. forward nb f b d x = x # ys" for x by (cases d) auto
    then obtain ys where ys: "forward nb f b d (nb a (f a)) = nb a (f a) # ys" by blast
    show ?thesis using ih h False by (simp add: ys)
  qed
qed

section \<open>Change detection and root selection\<close>

lemma switch_cost_unchanged:
  "\<not> switch_cost_changed n old n s k ch \<longleftrightarrow> \<not> ch \<and> (\<forall>i < n. i \<noteq> k \<longrightarrow> k < n \<longrightarrow> old (i * n + k) = cost s (i * n + k))"
proof -
  have "\<not> fold (\<lambda>i changes. if i = k then changes else if changes then True
          else if k \<ge> n \<or> i \<ge> n then changes else old (i * n + k) \<noteq> cost s (i * n + k)) is ch
      \<longleftrightarrow> \<not> ch \<and> (\<forall>i \<in> set is. i < n \<longrightarrow> i \<noteq> k \<longrightarrow> k < n \<longrightarrow> old (i * n + k) = cost s (i * n + k))" for "is" ch
    by (induction "is" arbitrary: ch) (auto simp: not_le)
  from this[of "[0..<n]" ch] show ?thesis by (auto simp: switch_cost_changed_def)
qed

lemma costs_unchanged:
  "\<not> fold (\<lambda>sw ch. switch_cost_changed n old n s (snd sw) ch) sws ch \<longleftrightarrow>
    \<not> ch \<and> (\<forall>sw \<in> set sws. \<forall>i < n. i \<noteq> snd sw \<longrightarrow> snd sw < n \<longrightarrow> old (i * n + snd sw) = cost s (i * n + snd sw))"
  by (induction sws arbitrary: ch) (auto simp: switch_cost_unchanged)

lemma select_least_min:
  assumes "l = 0 \<or> (\<exists>y. (g, y) \<in> A \<and> f y = l \<and> (\<forall>sw \<in> A. l \<le> f (snd sw)))" "l = 0 \<Longrightarrow> A = {}" "f (snd sw) \<noteq> 0"
  shows "case select_least (f (snd sw)) sw (l, g, b) of (l', g', b') \<Rightarrow>
    l' \<noteq> 0 \<and> (\<exists>y. (g', y) \<in> insert sw A \<and> f y = l' \<and> (\<forall>x \<in> insert sw A. l' \<le> f (snd x)))"
proof -
  obtain g1 x where sw: "sw = (g1, x)" by force
  consider (new) "l = 0 \<or> f x < l" | (tie) "l \<noteq> 0" "f x = l" | (keep) "l \<noteq> 0" "l < f x" by force
  then show ?thesis
  proof cases
    case new
    have "\<forall>y \<in> A. f x \<le> f (snd y)"
    proof
      fix y assume y: "y \<in> A"
      then have "l \<noteq> 0" "l \<le> f (snd y)" using assms(1,2) by auto
      with new show "f x \<le> f (snd y)" by (auto intro: less_imp_le order_less_le_trans)
    qed
    then show ?thesis using new assms(3) by (auto simp: select_least_def sw)
  next
    case tie
    then show ?thesis using assms(1) by (auto simp: select_least_def sw)
  next
    case keep
    then have "\<not> f x < l" "f x \<noteq> l" "l \<le> f x" by auto
    then show ?thesis using keep(1) assms(1) by (auto simp: select_least_def sw)
  qed
qed

lemma select_switch_total:
  assumes "sm_useIdealMcSpanningTreeRoot c" "useLeastTotalCost c" "\<not> useLeastWorstCaseCost c"
    and "list_all (\<lambda>sw. switch_total_cost c n m s (snd sw) \<noteq> 0) sws" "sws \<noteq> []" "fst (leastTotal r) = 0"
  shows "case leastTotal (fold (select_switch c n m s root) sws r) of (l, g) \<Rightarrow>
    l \<noteq> 0 \<and> (\<exists>y. (g, y) \<in> set sws \<and> switch_total_cost c n m s y = l \<and>
      (\<forall>sw \<in> set sws. l \<le> switch_total_cost c n m s (snd sw)))"
  using assms(4,5)
proof (induction sws rule: rev_induct)
  case (snoc sw sws)
  define q where "q = fold (select_switch c n m s root) sws r"
  obtain l g where lg: "leastTotal q = (l, g)" by force
  have step: "leastTotal (select_switch c n m s root sw q) =
      (case select_least (switch_total_cost c n m s (snd sw)) sw (l, g, smNeighborSel q) of (l', g', b) \<Rightarrow> (l', g'))"
    using assms(1-3) by (simp add: select_switch_def Let_def lg split: prod.splits)
  have pre: "l = 0 \<or> (\<exists>y. (g, y) \<in> set sws \<and> switch_total_cost c n m s y = l \<and>
      (\<forall>sw \<in> set sws. l \<le> switch_total_cost c n m s (snd sw)))" "l = 0 \<Longrightarrow> set sws = {}"
  proof -
    have "sws = [] \<or> (l \<noteq> 0 \<and> (\<exists>y. (g, y) \<in> set sws \<and> switch_total_cost c n m s y = l \<and>
      (\<forall>sw \<in> set sws. l \<le> switch_total_cost c n m s (snd sw))))"
      using snoc.IH snoc.prems(1) lg by (auto simp: q_def)
    moreover have "sws = [] \<Longrightarrow> l = 0" using lg assms(6) by (auto simp: q_def)
    ultimately show "l = 0 \<or> (\<exists>y. (g, y) \<in> set sws \<and> switch_total_cost c n m s y = l \<and>
      (\<forall>sw \<in> set sws. l \<le> switch_total_cost c n m s (snd sw)))" "l = 0 \<Longrightarrow> set sws = {}" by auto
  qed
  have "switch_total_cost c n m s (snd sw) \<noteq> 0" using snoc.prems(1) by simp
  note sl = select_least_min[where f = "switch_total_cost c n m s", OF pre this, of "smNeighborSel q"]
  have eq: "fold (select_switch c n m s root) (sws @ [sw]) r = select_switch c n m s root sw q" by (simp add: q_def)
  show ?case unfolding eq step using sl by (auto split: prod.splits)
qed simp

section \<open>Properties\<close>

text \<open>A fabric of three switches for concrete instances: two fast links and a slow one.\<close>

definition ex_port :: "nat \<Rightarrow> nat \<Rightarrow> nat \<Rightarrow> u16 \<Rightarrow> sw_port" where
  "ex_port k p q sp = \<lparr>sp_up = True, sp_neighbor = Some k, sp_index = p, sp_portno = q, sp_speed = sp\<rparr>"

definition ex_sws :: "(nat \<times> sw_port list) list" where
  "ex_sws = [(0, [ex_port 1 1 1 200, ex_port 2 2 2 50]), (1, [ex_port 0 1 1 200, ex_port 2 2 1 200]),
     (2, [ex_port 1 1 2 200, ex_port 0 2 2 50])]"

definition ex_nb :: "nat \<Rightarrow> nat \<Rightarrow> nat" where
  "ex_nb a p = (if a = 0 then p else if a = 1 then (if p = 1 then 0 else 2) else (if p = 1 then 1 else 0))"

definition ex_empty :: matrices where
  "ex_empty = \<lparr>cost = (\<lambda>_. 0), path = (\<lambda>_. 0)\<rparr>"

lemma ex_fabric: "fabric_ok 3 ex_nb ex_sws" "speeds_ok ex_sws"
  by (simp_all add: fabric_ok_def speeds_ok_def ex_sws_def ex_port_def port_ok_def ex_nb_def)

definition ex_root_cfg :: root_cfg where
  "ex_root_cfg = \<lparr>sm_useIdealMcSpanningTreeRoot = True, useLeastTotalCost = True, useLeastWorstCaseCost = False,
     sm_mcRootCostDeltaThreshold = 20\<rparr>"

definition ex_two :: matrices where
  "ex_two = \<lparr>cost = (\<lambda>z. if z = 1 \<or> z = 2 then 12 else 0), path = (\<lambda>_. 0)\<rparr>"

lemma ex_two_floyds: "cost (floyds 2 2 ex_two) = cost ex_two"
  by (simp add: floyds_def relax_row_def relax_def ex_two_def Let_def Index_def Cost_Infinity_def upt_rec
      numeral_2_eq_2 sm_path_portmask_merge_def)

text \<open>
  C24. The cost matrix holds shortest distances: for a well-formed fabric, after initialisation
  and the Floyd-Warshall loops, the cost from \<open>a\<close> to \<open>b\<close> is at most that of every walk between
  them and is attained by some walk, where switches without a link are \<open>Cost_Infinity\<close> apart.
  The 16-bit arithmetic of the loops never wraps.
\<close>

theorem floyd_shortest_distance:
  assumes "fabric_ok n nb sws" and "\<And>a b. a < n \<Longrightarrow> b < n \<Longrightarrow> path m (a * n + b) = 0" and "a < n" and "b < n"
  shows "(\<forall>xs. xs \<noteq> [] \<and> hd xs = a \<and> last xs = b \<and> set xs \<subseteq> {..<n} \<longrightarrow>
      unat (cost (floyds n n (sm_routing_func_init_cost_matrix_floyds n sws m)) (a * n + b)) \<le>
      walk_cost (weight n (sm_routing_func_init_cost_matrix_floyds n sws m)) xs) \<and>
    (\<exists>xs. xs \<noteq> [] \<and> hd xs = a \<and> last xs = b \<and> set xs \<subseteq> {..<n} \<and>
      walk_cost (weight n (sm_routing_func_init_cost_matrix_floyds n sws m)) xs =
      unat (cost (floyds n n (sm_routing_func_init_cost_matrix_floyds n sws m)) (a * n + b)))"
proof -
  let ?s = "sm_routing_func_init_cost_matrix_floyds n sws m"
  have l: "links_ok n nb ?s" by (rule init_links_ok[OF assms(1,2)])
  have r: "unat (cost (floyds n n ?s) (a * n + b)) = fw (weight n ?s) n a b"
    by (rule floyds_result(1)[OF l assms(3,4)])
  have z: "fw (weight n ?s) n x x = 0" for x
    using l by (intro fw_diag) (simp add: links_ok_def weight_props(2))
  have "fw (weight n ?s) n a b \<le> walk_cost (weight n ?s) xs"
    if "xs \<noteq> [] \<and> hd xs = a \<and> last xs = b \<and> set xs \<subseteq> {..<n}" for xs
    using fw_le_walk[of xs n "weight n ?s"] that z[of a] by (auto split: if_splits)
  moreover have "\<exists>xs. xs \<noteq> [] \<and> hd xs = a \<and> last xs = b \<and> set xs \<subseteq> {..<n} \<and> walk_cost (weight n ?s) xs = fw (weight n ?s) n a b"
    using fw_attained[OF assms(3,4) order_refl, of "weight n ?s"] by auto
  ultimately show ?thesis unfolding r by blast
qed

theorem floyd_shortest_distance_witness:
  "unat (cost (floyds 3 3 (sm_routing_func_init_cost_matrix_floyds 3 ex_sws ex_empty)) (0 * 3 + 2)) \<le>
   walk_cost (weight 3 (sm_routing_func_init_cost_matrix_floyds 3 ex_sws ex_empty)) [0, 1, 2]"
  by (rule floyd_shortest_distance[OF ex_fabric(1), where a = 0 and b = 2 and m = ex_empty, THEN conjunct1, rule_format])
     (simp_all add: ex_empty_def)


lemma ex_empty_path: "path ex_empty (a * 3 + b) = 0"
  by (simp add: ex_empty_def)

text \<open>The link from switch 0 to switch 1 is the only one of cost below that of the detour.\<close>

lemma ex_reach: "cost (floyds 3 3 (sm_routing_func_init_cost_matrix_floyds 3 ex_sws ex_empty)) (0 * 3 + 1) < Cost_Infinity"
proof -
  have l: "links_ok 3 ex_nb (sm_routing_func_init_cost_matrix_floyds 3 ex_sws ex_empty)"
    by (rule init_links_ok[OF ex_fabric(1) ex_empty_path])
  have "weight 3 (sm_routing_func_init_cost_matrix_floyds 3 ex_sws ex_empty) 0 1 = 12"
    by (simp add: weight_def sm_routing_func_init_cost_matrix_floyds_def clear_diagonal_def add_links_def ex_sws_def
        ex_port_def add_port_def Index_def SpeedWidth_to_Cost_def numeral_3_eq_3)
  then have "unat (cost (floyds 3 3 (sm_routing_func_init_cost_matrix_floyds 3 ex_sws ex_empty)) (0 * 3 + 1)) \<le> 12"
    using floyds_result(1)[OF l, of 0 1]
      fw_mono_le[of 0 3 "weight 3 (sm_routing_func_init_cost_matrix_floyds 3 ex_sws ex_empty)" 0 1] by simp
  then show ?thesis by (simp add: word_less_nat_alt Cost_Infinity_def)
qed

lemma ex_ports:
  "\<exists>f. \<forall>x. x < 3 \<and> x \<noteq> 1 \<and>
    cost (floyds 3 3 (sm_routing_func_init_cost_matrix_floyds 3 ex_sws ex_empty)) (x * 3 + 1) < Cost_Infinity \<longrightarrow>
    in_mask (f x) (path (floyds 3 3 (sm_routing_func_init_cost_matrix_floyds 3 ex_sws ex_empty)) (x * 3 + 1)) \<and> ex_nb x (f x) \<noteq> x"
proof -
  let ?s = "sm_routing_func_init_cost_matrix_floyds 3 ex_sws ex_empty"
  have l: "links_ok 3 ex_nb ?s" by (rule init_links_ok[OF ex_fabric(1) ex_empty_path])
  have "\<exists>p. in_mask p (path (floyds 3 3 ?s) (x * 3 + 1)) \<and> ex_nb x p \<noteq> x"
    if "x < 3" "x \<noteq> 1" "cost (floyds 3 3 ?s) (x * 3 + 1) < Cost_Infinity" for x
    using that(3) by (intro path_invD(2)[OF floyds_result(2)[OF l that(1), of 1] that(1) _ that(2)])
      (simp_all add: word_less_nat_alt Cost_Infinity_def)
  then show ?thesis by (intro choice) blast
qed


text \<open>
  Every mask is usable: wherever \<open>b\<close> is reachable from another switch \<open>a\<close>, the mask of
  \<open>(a, b)\<close> has a port that is not a loopback, and each of its ports leads to a switch on a
  shortest route.
\<close>

theorem path_mask_next_hops:
  assumes "fabric_ok n nb sws" and "\<And>a b. a < n \<Longrightarrow> b < n \<Longrightarrow> path m (a * n + b) = 0"
    and "s = floyds n n (sm_routing_func_init_cost_matrix_floyds n sws m)" and "a < n" and "b < n" and "a \<noteq> b"
    and "cost s (a * n + b) < Cost_Infinity"
  shows "(\<exists>p. in_mask p (path s (a * n + b)) \<and> nb a p \<noteq> a) \<and>
    (\<forall>p. in_mask p (path s (a * n + b)) \<longrightarrow> nb a p < n \<and>
       weight n (sm_routing_func_init_cost_matrix_floyds n sws m) a (nb a p) + unat (cost s (nb a p * n + b)) =
       unat (cost s (a * n + b)))"
proof -
  have l: "links_ok n nb (sm_routing_func_init_cost_matrix_floyds n sws m)" by (rule init_links_ok[OF assms(1,2)])
  note res = floyds_result[OF l _ assms(5)]
  have "\<exists>p. in_mask p (path s (a * n + b)) \<and> nb a p \<noteq> a"
    unfolding assms(3) using assms(7) unfolding assms(3)
    by (intro path_invD(2)[OF res(2) assms(4,5,6)]) (use assms(4) in \<open>simp_all add: word_less_nat_alt Cost_Infinity_def\<close>)
  moreover have "nb a p < n \<and> weight n (sm_routing_func_init_cost_matrix_floyds n sws m) a (nb a p) +
      unat (cost s (nb a p * n + b)) = unat (cost s (a * n + b))" if "in_mask p (path s (a * n + b))" for p
    using next_hop[OF l assms(4,5) that[unfolded assms(3)]] res(1) assms(3,4) by simp
  ultimately show ?thesis by blast
qed

theorem path_mask_next_hops_witness:
  "\<exists>p. in_mask p (path (floyds 3 3 (sm_routing_func_init_cost_matrix_floyds 3 ex_sws ex_empty)) (0 * 3 + 1)) \<and> ex_nb 0 p \<noteq> 0"
  using path_mask_next_hops[OF ex_fabric(1) ex_empty_path refl, of 0 1] ex_reach by simp

text \<open>
  The switch costs are reported unchanged only when they are: if the flag
  \<open>topology_cost_path_changes\<close> is still clear after a sweep, the number of switches is that of
  the previous sweep and every cost between different switches of the list is the old one.
\<close>

theorem cost_change_flag_sound:
  assumes "sm_routing_func_calc_cost_matrix_floyds c lock_ok n n old_n old sws guids (first_pass, ch) root s0 = (s, False, root')"
  shows "n = old_n \<and> \<not> first_pass \<and> \<not> ch \<and>
    (\<forall>sw i. sw \<in> set sws \<and> snd sw < n \<and> i < n \<and> i \<noteq> snd sw \<longrightarrow> old (i * n + snd sw) = cost s (i * n + snd sw))"
proof -
  have mono: "\<not> fold (\<lambda>sw ch. switch_cost_changed o1 old n t (snd sw) ch) sws True \<Longrightarrow> False" for o1 t
  proof -
    have one: "fold (\<lambda>i changes. if i = k then changes else if changes then True
          else if k \<ge> o1 \<or> i \<ge> o1 then changes else old (i * o1 + k) \<noteq> cost t (i * n + k)) is True" for k "is"
      by (induction "is") auto
    then have "fold (\<lambda>sw ch. switch_cost_changed o1 old n t (snd sw) ch) sws True"
      by (induction sws) (auto simp: switch_cost_changed_def)
    then show "\<not> fold (\<lambda>sw ch. switch_cost_changed o1 old n t (snd sw) ch) sws True \<Longrightarrow> False" by simp
  qed
  have s: "s = floyds n n s0" and
    ch: "\<not> fold (\<lambda>sw ch. switch_cost_changed old_n old n s (snd sw) ch) sws (if n \<noteq> old_n \<or> first_pass then True else ch)"
    using assms by (auto simp: sm_routing_func_calc_cost_matrix_floyds_def Let_def split: if_splits)
  have ne: "n = old_n" "\<not> first_pass" using ch mono by (auto split: if_splits)
  show ?thesis using ch ne costs_unchanged[of n old s sws ch] by auto
qed

theorem cost_change_flag_sound_witness:
  "cost ex_two (1 * 2 + 0) = cost (floyds 2 2 ex_two) (1 * 2 + 0)"
proof -
  let ?c = "ex_root_cfg\<lparr>sm_useIdealMcSpanningTreeRoot := False\<rparr>"
  have "sm_routing_func_calc_cost_matrix_floyds ?c True 2 2 2 (cost ex_two) [(7, 0), (9, 1)] [] (False, False) 0 ex_two =
      (floyds 2 2 ex_two, False, 0, False)"
    using costs_unchanged[of 2 "cost ex_two" "floyds 2 2 ex_two" "[(7, 0), (9, 1)]" False]
    by (simp add: sm_routing_func_calc_cost_matrix_floyds_def Let_def ex_root_cfg_def ex_two_floyds)
  from cost_change_flag_sound[OF this, THEN conjunct2, THEN conjunct2, THEN conjunct2, rule_format, of "(7, 0)" 1]
  show ?thesis by simp
qed

text \<open>
  The multicast root is a best switch: with the least-total-cost criterion, no usable old
  root and positive total costs, the selected GUID belongs to a switch whose total cost to
  the others is least.
\<close>

theorem mc_root_has_least_total_cost:
  assumes "sm_useIdealMcSpanningTreeRoot c" and "useLeastTotalCost c" and "\<not> useLeastWorstCaseCost c"
    and "root = 0 \<or> root \<notin> set guids" and "sws \<noteq> []"
    and "sm_routing_func_calc_cost_matrix_floyds c True n m old_n old sws guids flags root s0 = (s, ch, g, sync)"
    and "list_all (\<lambda>sw. switch_total_cost c n m s (snd sw) \<noteq> 0) sws"
  shows "sync \<and> (\<exists>y. (g, y) \<in> set sws \<and>
    (\<forall>sw. sw \<in> set sws \<longrightarrow> switch_total_cost c n m s y \<le> switch_total_cost c n m s (snd sw)))"
proof -
  let ?r0 = "\<lparr>leastTotal = (0, 0), leastWorst = (0, 0), smNeighborSel = False, currRootTotal = 0, currRootWorst = 0\<rparr>"
  have s: "s = floyds n m s0"
    and g: "(g, sync) = choose_root c True False (fold (select_switch c n m s root) sws ?r0) root"
    using assms(1,4,6) by (auto simp: sm_routing_func_calc_cost_matrix_floyds_def Let_def split: prod.splits)
  have "g = snd (leastTotal (fold (select_switch c n m s root) sws ?r0)) \<and> sync"
    using g assms(2,3) by (simp add: choose_root_def change_root_def)
  moreover obtain l g' where lg: "leastTotal (fold (select_switch c n m s root) sws ?r0) = (l, g')" by force
  ultimately have g': "g' = g" "sync" by simp_all
  obtain y where "(g, y) \<in> set sws" "switch_total_cost c n m s y = l"
    "\<forall>sw \<in> set sws. l \<le> switch_total_cost c n m s (snd sw)"
    using select_switch_total[OF assms(1-3,7,5), of ?r0 root] unfolding lg g'(1) by auto
  then show ?thesis using g'(2) by (intro conjI exI[of _ y]) simp_all
qed

theorem mc_root_has_least_total_cost_witness:
  "\<exists>y. (fst (snd (snd (sm_routing_func_calc_cost_matrix_floyds ex_root_cfg True 2 2 0 (\<lambda>_. 0) [(7, 0), (9, 1)] [7, 9]
     (True, False) 0 ex_two))), y) \<in> set [(7, 0), (9, 1)]"
proof -
  obtain s ch g sync where r: "sm_routing_func_calc_cost_matrix_floyds ex_root_cfg True 2 2 0 (\<lambda>_. 0) [(7, 0), (9, 1)] [7, 9]
     (True, False) 0 ex_two = (s, ch, g, sync)" by (metis prod_cases4)
  then have s: "s = floyds 2 2 ex_two"
    by (auto simp: sm_routing_func_calc_cost_matrix_floyds_def Let_def ex_root_cfg_def)
  have t: "list_all (\<lambda>sw. switch_total_cost ex_root_cfg 2 2 s (snd sw) \<noteq> 0) [(7 :: u64, 0), (9, 1)]"
    unfolding s switch_total_cost_def ex_two_floyds
    by (simp add: ex_two_def ex_root_cfg_def Index_def Cost_Infinity_def upt_rec)
  have c: "sm_useIdealMcSpanningTreeRoot ex_root_cfg" "useLeastTotalCost ex_root_cfg" "\<not> useLeastWorstCaseCost ex_root_cfg"
    by (simp_all add: ex_root_cfg_def)
  show ?thesis unfolding r
    using mc_root_has_least_total_cost[OF c _ _ r t] by auto
qed

end
