(* ===== verification/SmSelectPorts.thy ===== *)
theory SmSelectPorts
  imports SmFloyd
begin

text \<open>
  The choice of output ports from the path matrix (\<^verbatim>\<open>sm_routing_funcs.c\<close>):
  \<open>sm_routing_func_select_ports\<close> with the spine-first test, and the comparators that order the
  chosen ports for balancing. The ports of a switch and the nodes behind them are records
  holding the fields these functions read; \<open>ordered_ports\<close>, filled up to \<open>end_port\<close>, is a list.
\<close>

section \<open>Data\<close>

record sw_node =
  swIdx :: nat
  NodeGUID :: u64
  SystemImageGUID :: u64
  numLidsRouted :: u16

record out_port =
  op_index :: nat
  op_valid :: bool
  op_state :: u8
  op_next :: "sw_node option"
  op_uplink :: bool
  op_getSpeed :: u16
  op_portSpeed :: u16
  op_lidsRouted :: u16

record SwitchportToNextGuid =
  spt_guid :: u64
  spt_sysGuid :: u64
  spt_sortIndex :: u16
  spt_portp :: out_port
  spt_nextSwp :: sw_node

section \<open>Comparators\<close>

definition cmp3 :: "'a::linorder \<Rightarrow> 'a \<Rightarrow> int \<Rightarrow> int" where
  "cmp3 x y rest = (if x < y then - 1 else if x > y then 1 else rest)"

definition compare_guids :: "SwitchportToNextGuid \<Rightarrow> SwitchportToNextGuid \<Rightarrow> int" where
  "compare_guids s1 s2 = cmp3 (spt_guid s1) (spt_guid s2) 0"

definition cmp_lids :: "SwitchportToNextGuid \<Rightarrow> SwitchportToNextGuid \<Rightarrow> int \<Rightarrow> int" where
  "cmp_lids s1 s2 rest =
     cmp3 (op_lidsRouted (spt_portp s1)) (op_lidsRouted (spt_portp s2))
       (cmp3 (numLidsRouted (spt_nextSwp s1)) (numLidsRouted (spt_nextSwp s2)) rest)"

definition compare_lids_routed :: "SwitchportToNextGuid \<Rightarrow> SwitchportToNextGuid \<Rightarrow> int" where
  "compare_lids_routed s1 s2 = cmp_lids s1 s2 0"

definition compare_guids_then_lids_routed :: "SwitchportToNextGuid \<Rightarrow> SwitchportToNextGuid \<Rightarrow> int" where
  "compare_guids_then_lids_routed s1 s2 = cmp3 (spt_guid s1) (spt_guid s2) (cmp_lids s1 s2 0)"

definition compare_lids_routed_then_guids :: "SwitchportToNextGuid \<Rightarrow> SwitchportToNextGuid \<Rightarrow> int" where
  "compare_lids_routed_then_guids s1 s2 =
     cmp_lids s1 s2 (cmp3 (spt_guid s1) (spt_guid s2) (cmp3 (op_index (spt_portp s1)) (op_index (spt_portp s2)) 0))"

section \<open>Port selection\<close>

datatype SpineFirstResult = SPINE_FIRST_NONE | SPINE_FIRST_FIRST | SPINE_FIRST_MATCH | SPINE_FIRST_NOMATCH

definition spine_first_test :: "bool \<Rightarrow> u64 \<Rightarrow> out_port \<Rightarrow> sw_node \<Rightarrow> SpineFirstResult \<times> bool" where
  "spine_first_test matching sysGuid portp next_nodep =
     (if sysGuid \<noteq> SystemImageGUID next_nodep \<and> \<not> op_uplink portp
      then (if matching then (SPINE_FIRST_NOMATCH, matching) else (SPINE_FIRST_NONE, matching))
      else if matching then (SPINE_FIRST_MATCH, matching)
      else (SPINE_FIRST_FIRST, True))"

record sel_state =
  best_speed :: u16
  best_lidsRouted :: u16
  best_switchLidsRouted :: u32
  sf_matching :: bool
  ordered_ports :: "SwitchportToNextGuid list"

text \<open>An entry of the array, which the callers clear before the selection.\<close>

definition entry_of :: "out_port \<Rightarrow> sw_node \<Rightarrow> SwitchportToNextGuid" where
  "entry_of portp next_nodep =
     \<lparr>spt_guid = NodeGUID next_nodep, spt_sysGuid = 0, spt_sortIndex = 0, spt_portp = portp, spt_nextSwp = next_nodep\<rparr>"

definition record_best :: "out_port \<Rightarrow> sw_node \<Rightarrow> sel_state \<Rightarrow> sel_state" where
  "record_best portp next_nodep st =
     st\<lparr>best_lidsRouted := op_lidsRouted portp, best_switchLidsRouted := ucast (numLidsRouted next_nodep), ordered_ports := []\<rparr>"

text \<open>The comparison of a candidate with the best so far, the common end of the loop body.\<close>

definition consider_port :: "bool \<Rightarrow> out_port \<Rightarrow> sw_node \<Rightarrow> sel_state \<Rightarrow> sel_state" where
  "consider_port selectBest portp next_nodep st =
     (let cur_speed = op_portSpeed portp;
          add = (\<lambda>st. st\<lparr>ordered_ports := ordered_ports st @ [entry_of portp next_nodep]\<rparr>)
      in if cur_speed \<ge> best_speed st
         then if cur_speed > best_speed st
              then add (record_best portp next_nodep (st\<lparr>best_speed := cur_speed\<rparr>))
              else if selectBest
              then if op_lidsRouted portp < best_lidsRouted st then add (record_best portp next_nodep st)
                   else if op_lidsRouted portp = best_lidsRouted st \<and> ucast (numLidsRouted next_nodep) < best_switchLidsRouted st
                   then add (st\<lparr>best_switchLidsRouted := ucast (numLidsRouted next_nodep), ordered_ports := []\<rparr>)
                   else st
              else add st
         else st)"

definition select_port :: "bool \<Rightarrow> bool \<Rightarrow> u64 \<Rightarrow> nat \<Rightarrow> out_port option \<Rightarrow> sel_state \<Rightarrow> sel_state" where
  "select_port doSpineCheck selectBest sysGuid i port st =
     (case port of
        None \<Rightarrow> st
      | Some portp \<Rightarrow>
          if \<not> op_valid portp \<or> op_state portp \<le> 1 then st
          else (case op_next portp of
                 None \<Rightarrow> st
               | Some next_nodep \<Rightarrow>
                   if i = swIdx next_nodep then st
                   else if doSpineCheck
                   then (case spine_first_test (sf_matching st) sysGuid portp next_nodep of
                           (SPINE_FIRST_FIRST, mt) \<Rightarrow>
                             st\<lparr>sf_matching := mt, best_speed := op_getSpeed portp, best_lidsRouted := op_lidsRouted portp,
                                best_switchLidsRouted := ucast (numLidsRouted next_nodep), ordered_ports := [entry_of portp next_nodep]\<rparr>
                         | (SPINE_FIRST_NOMATCH, mt) \<Rightarrow> st\<lparr>sf_matching := mt\<rparr>
                         | (_, mt) \<Rightarrow> consider_port selectBest portp next_nodep (st\<lparr>sf_matching := mt\<rparr>))
                   else consider_port selectBest portp next_nodep st))"

text \<open>
  The loop pops ports off the mask until it is empty. The fuel is the number of ports a mask
  can hold plus one; \<open>pop_ports\<close> shows below that it is enough.
\<close>

fun select_loop :: "nat \<Rightarrow> (nat \<Rightarrow> sel_state \<Rightarrow> sel_state) \<Rightarrow> u64 \<Rightarrow> sel_state \<Rightarrow> sel_state" where
  "select_loop 0 f ports st = st"
| "select_loop (Suc k) f ports st =
     (case sm_path_portmask_pop_first ports of
        (cport, ports') \<Rightarrow> if cport = 0 then st else select_loop k f ports' (f cport st))"

definition sm_routing_func_select_ports ::
  "bool \<Rightarrow> bool \<Rightarrow> sw_node \<Rightarrow> (nat \<Rightarrow> out_port option) \<Rightarrow> u64 \<Rightarrow> SwitchportToNextGuid list" where
  "sm_routing_func_select_ports doSpineCheck selectBest switchp get_port ports =
     ordered_ports (select_loop 65
       (\<lambda>cport. select_port doSpineCheck selectBest (SystemImageGUID switchp) (swIdx switchp) (get_port cport)) ports
       \<lparr>best_speed = 0, best_lidsRouted = 0xffff, best_switchLidsRouted = 0xffffffff, sf_matching = False,
        ordered_ports = []\<rparr>)"

section \<open>The loop visits the ports of the mask in ascending order\<close>

definition mask_ports :: "u64 \<Rightarrow> nat list" where
  "mask_ports m = filter (\<lambda>p. in_mask p m) [1..<65]"

lemma mask_ports_alt: "mask_ports m = map Suc (filter (bit m) [0..<64])"
proof -
  have "[1..<65] = map Suc [0..<64]" by (simp add: map_Suc_upt)
  then have "mask_ports m = map Suc (filter (\<lambda>b. in_mask (Suc b) m) [0..<64])"
    by (simp add: mask_ports_def filter_map comp_def)
  moreover have "filter (\<lambda>b. in_mask (Suc b) m) [0..<64] = filter (bit m) [0..<64]"
    by (rule filter_cong) (auto simp: in_mask_def)
  ultimately show ?thesis by simp
qed

lemma find_hd_filter: "List.find P xs = (case filter P xs of [] \<Rightarrow> None | x # _ \<Rightarrow> Some x)"
  by (induction xs) auto

lemma filter_tl: "filter P xs = y # ys \<Longrightarrow> distinct xs \<Longrightarrow> filter (\<lambda>x. P x \<and> x \<noteq> y) xs = ys"
proof -
  assume f: "filter P xs = y # ys" and d: "distinct xs"
  have "filter (\<lambda>x. P x \<and> x \<noteq> y) xs = filter (\<lambda>x. x \<noteq> y) (filter P xs)" by (simp add: conj_commute)
  moreover have "y \<notin> set ys" using distinct_filter[OF d, of P] f by simp
  ultimately show ?thesis using f by (auto simp: filter_id_conv)
qed

lemma pop_ports: "mask_ports m = (case sm_path_portmask_pop_first m of (p, m') \<Rightarrow> if p = 0 then [] else p # mask_ports m')"
proof (cases "filter (bit m) [0..<64]")
  case Nil
  then show ?thesis by (simp add: mask_ports_alt sm_path_portmask_pop_first_def find_hd_filter)
next
  case (Cons b bs)
  then have b: "bit m b" "b < 64" using Cons_eq_filterD[OF Cons[symmetric]] by (auto dest!: arg_cong[where f = set])
  have "filter (bit (m XOR push_bit b 1)) [0..<64] = filter (\<lambda>x. bit m x \<and> x \<noteq> b) [0..<64]"
    using b by (intro filter_cong) (auto simp: bit_xor_iff bit_exp_iff)
  also have "\<dots> = bs" using filter_tl[OF Cons] by simp
  finally have "mask_ports (m XOR push_bit b 1) = map Suc bs" by (simp add: mask_ports_alt)
  then show ?thesis using Cons by (simp add: mask_ports_alt[of m] sm_path_portmask_pop_first_def find_hd_filter)
qed

lemma select_loop_fold: "length (mask_ports m) < k \<Longrightarrow> select_loop k f m st = fold f (mask_ports m) st"
proof (induction k arbitrary: m st)
  case (Suc k)
  obtain p m' where pm: "sm_path_portmask_pop_first m = (p, m')" by force
  show ?case
  proof (cases "p = 0")
    case True
    then show ?thesis using pop_ports[of m] pm by simp
  next
    case False
    then have mp: "mask_ports m = p # mask_ports m'" using pop_ports[of m] pm by simp
    then have "length (mask_ports m') < k" using Suc.prems by simp
    from Suc.IH[OF this] show ?thesis using False pm mp by simp
  qed
qed simp

lemma mask_ports_length: "length (mask_ports m) < 65"
  using length_filter_le[of "\<lambda>p. in_mask p m" "[1..<65]"] by (simp add: mask_ports_def)

lemma set_mask_ports: "set (mask_ports m) = {p. in_mask p m}"
  by (auto simp: mask_ports_def in_mask_def)

section \<open>Candidates\<close>

text \<open>The ports of the mask that lead, over an active link, to another node.\<close>

definition port_candidate :: "nat \<Rightarrow> (nat \<Rightarrow> out_port option) \<Rightarrow> nat \<Rightarrow> (out_port \<times> sw_node) option" where
  "port_candidate i get_port p =
     (case get_port p of
        None \<Rightarrow> None
      | Some portp \<Rightarrow>
          if \<not> op_valid portp \<or> op_state portp \<le> 1 then None
          else (case op_next portp of
                 None \<Rightarrow> None
               | Some nd \<Rightarrow> if i = swIdx nd then None else Some (portp, nd)))"

definition candidates :: "sw_node \<Rightarrow> (nat \<Rightarrow> out_port option) \<Rightarrow> u64 \<Rightarrow> (out_port \<times> sw_node) list" where
  "candidates switchp get_port ports = List.map_filter (port_candidate (swIdx switchp) get_port) (mask_ports ports)"

lemma select_port_candidate:
  "select_port False sb g i (get_port p) st =
     (case port_candidate i get_port p of None \<Rightarrow> st | Some (portp, nd) \<Rightarrow> consider_port sb portp nd st)"
  by (simp add: select_port_def port_candidate_def split: option.splits)

lemma fold_candidates:
  "fold (\<lambda>p. select_port False sb g i (get_port p)) ps st =
   fold (\<lambda>(portp, nd). consider_port sb portp nd) (List.map_filter (port_candidate i get_port) ps) st"
proof (induction ps arbitrary: st)
  case (Cons p ps)
  then show ?case
    by (cases "port_candidate i get_port p") (auto simp: select_port_candidate map_filter_simps)
qed (simp add: map_filter_simps)

lemma select_ports_fold:
  "sm_routing_func_select_ports False sb switchp get_port ports =
   ordered_ports (fold (\<lambda>(portp, nd). consider_port sb portp nd) (candidates switchp get_port ports)
     \<lparr>best_speed = 0, best_lidsRouted = 0xffff, best_switchLidsRouted = 0xffffffff, sf_matching = False, ordered_ports = []\<rparr>)"
  by (simp add: sm_routing_func_select_ports_def select_loop_fold[OF mask_ports_length] candidates_def fold_candidates)

text \<open>All fastest candidates.\<close>

lemma consider_all_step:
  "best_speed (consider_port False portp nd t) = max (op_portSpeed portp) (best_speed t)"
  "ordered_ports (consider_port False portp nd t) =
    (if best_speed t < op_portSpeed portp then [entry_of portp nd]
     else if op_portSpeed portp = best_speed t then ordered_ports t @ [entry_of portp nd]
     else ordered_ports t)"
  by (auto simp: consider_port_def record_best_def Let_def max_def)

lemma consider_all_inv:
  assumes "best_speed st = 0" "ordered_ports st = []"
  shows "best_speed (fold (\<lambda>(portp, nd). consider_port False portp nd) cs st) = fold max (map (op_portSpeed \<circ> fst) cs) 0 \<and>
    ordered_ports (fold (\<lambda>(portp, nd). consider_port False portp nd) cs st) =
      map (\<lambda>(portp, nd). entry_of portp nd)
        (filter (\<lambda>c. op_portSpeed (fst c) = fold max (map (op_portSpeed \<circ> fst) cs) 0) cs)"
proof (induction cs rule: rev_induct)
  case (snoc c cs)
  obtain portp nd where c: "c = (portp, nd)" by force
  define M where "M = fold max (map (op_portSpeed \<circ> fst) cs) 0"
  have "fold max (map (op_portSpeed \<circ> fst) cs) 0 = Max (set (0 # map (op_portSpeed \<circ> fst) cs))"
    using Max.set_eq_fold[of 0 "map (op_portSpeed \<circ> fst) cs"] by (simp add: max.commute)
  then have le: "op_portSpeed (fst d) \<le> M" if "d \<in> set cs" for d using that by (simp add: M_def)
  have none: "filter (\<lambda>d. op_portSpeed (fst d) = op_portSpeed portp) cs = []" if "M < op_portSpeed portp"
  proof -
    have "op_portSpeed (fst d) \<noteq> op_portSpeed portp" if "d \<in> set cs" for d
      using le[OF that] \<open>M < op_portSpeed portp\<close> by auto
    then show ?thesis unfolding filter_empty_conv by blast
  qed
  have ih: "best_speed (fold (\<lambda>(portp, nd). consider_port False portp nd) cs st) = M"
    "ordered_ports (fold (\<lambda>(portp, nd). consider_port False portp nd) cs st) =
      map (\<lambda>(portp, nd). entry_of portp nd) (filter (\<lambda>c. op_portSpeed (fst c) = M) cs)"
    using snoc unfolding M_def by blast+
  have m: "fold max (map (op_portSpeed \<circ> fst) (cs @ [c])) 0 = max (op_portSpeed portp) M" by (simp add: M_def c)
  define t where "t = fold (\<lambda>(portp, nd). consider_port False portp nd) cs st"
  have t: "fold (\<lambda>(portp, nd). consider_port False portp nd) (cs @ [c]) st = consider_port False portp nd t"
    by (simp add: t_def c)
  note ih' = ih[folded t_def]
  consider "M < op_portSpeed portp" | "op_portSpeed portp = M" | "op_portSpeed portp < M" by force
  then show ?case unfolding m t consider_all_step ih' using none by cases (auto simp: c max.absorb3 max.absorb4 dest: order.asym)
qed (use assms in simp)

text \<open>A port no worse than a candidate: faster, or less loaded at equal speed.\<close>

definition port_no_worse :: "SwitchportToNextGuid \<Rightarrow> out_port \<times> sw_node \<Rightarrow> bool" where
  "port_no_worse e c \<longleftrightarrow> op_portSpeed (fst c) < op_portSpeed (spt_portp e) \<or>
     op_portSpeed (fst c) = op_portSpeed (spt_portp e) \<and>
       (op_lidsRouted (spt_portp e) < op_lidsRouted (fst c) \<or>
        op_lidsRouted (spt_portp e) = op_lidsRouted (fst c) \<and> numLidsRouted (spt_nextSwp e) \<le> numLidsRouted (snd c))"

definition best_inv :: "(out_port \<times> sw_node) list \<Rightarrow> sel_state \<Rightarrow> bool" where
  "best_inv cs st \<longleftrightarrow> (\<exists>portp nd. (portp, nd) \<in> set cs \<and> ordered_ports st = [entry_of portp nd] \<and>
     best_speed st = op_portSpeed portp \<and> best_lidsRouted st = op_lidsRouted portp \<and>
     best_switchLidsRouted st = ucast (numLidsRouted nd) \<and> list_all (port_no_worse (entry_of portp nd)) cs)"

lemma no_worse_trans:
  "port_no_worse e (portp, nd) \<Longrightarrow> port_no_worse (entry_of portp nd) c \<Longrightarrow> port_no_worse e c"
  by (auto simp: port_no_worse_def entry_of_def)

definition beats_best :: "out_port \<Rightarrow> sw_node \<Rightarrow> sel_state \<Rightarrow> bool" where
  "beats_best portp nd st \<longleftrightarrow> best_speed st < op_portSpeed portp \<or>
     op_portSpeed portp = best_speed st \<and> (op_lidsRouted portp < best_lidsRouted st \<or>
       op_lidsRouted portp = best_lidsRouted st \<and> ucast (numLidsRouted nd) < best_switchLidsRouted st)"

lemma consider_best:
  "consider_port True portp nd st =
    (if beats_best portp nd st
     then st\<lparr>best_speed := op_portSpeed portp, best_lidsRouted := op_lidsRouted portp,
             best_switchLidsRouted := ucast (numLidsRouted nd), ordered_ports := [entry_of portp nd]\<rparr>
     else st)"
  by (cases st) (auto simp: consider_port_def record_best_def beats_best_def Let_def)

lemma ucast_less_u16: "(ucast a :: u32) < ucast b \<longleftrightarrow> a < b" for a b :: u16
proof -
  have "unat (ucast x :: u32) = unat x" for x :: u16
    using unsigned_less[of x, where ?'a = nat] by (simp add: unsigned_ucast_eq take_bit_nat_eq_self)
  then show ?thesis by (simp add: word_less_nat_alt)
qed

lemma beats_best_iff:
  assumes "best_speed st = op_portSpeed pb" "best_lidsRouted st = op_lidsRouted pb" "best_switchLidsRouted st = ucast (numLidsRouted nb)"
  shows "beats_best portp nd st \<longleftrightarrow> \<not> port_no_worse (entry_of pb nb) (portp, nd)"
    "beats_best portp nd st \<Longrightarrow> port_no_worse (entry_of portp nd) (pb, nb)"
  unfolding beats_best_def port_no_worse_def entry_of_def assms ucast_less_u16 by auto

lemma consider_best_step:
  assumes "best_inv cs st"
  shows "best_inv (cs @ [(portp, nd)]) (consider_port True portp nd st)"
proof -
  obtain pb nb where b: "(pb, nb) \<in> set cs" "ordered_ports st = [entry_of pb nb]" "best_speed st = op_portSpeed pb"
    "best_lidsRouted st = op_lidsRouted pb" "best_switchLidsRouted st = ucast (numLidsRouted nb)"
    "list_all (port_no_worse (entry_of pb nb)) cs"
    using assms by (auto simp: best_inv_def)
  note iff = beats_best_iff[OF b(3-5), of portp nd]
  show ?thesis
  proof (cases "beats_best portp nd st")
    case False
    then have "best_inv (cs @ [(portp, nd)]) st"
      unfolding best_inv_def using b iff(1) by (intro exI[of _ pb] exI[of _ nb]) simp
    then show ?thesis using False by (simp add: consider_best)
  next
    case True
    have self: "port_no_worse (entry_of portp nd) (portp, nd)" by (simp add: port_no_worse_def entry_of_def)
    have "list_all (port_no_worse (entry_of portp nd)) cs"
      using b(6) no_worse_trans[OF iff(2)[OF True]] by (auto simp: list_all_iff)
    then show ?thesis unfolding best_inv_def consider_best using self True
      by (intro exI[of _ portp] exI[of _ nd]) simp
  qed
qed

lemma consider_best_inv:
  assumes "best_speed st = 0" "list_all (\<lambda>c. op_portSpeed (fst c) > 0) cs" "cs \<noteq> []"
  shows "best_inv cs (fold (\<lambda>(portp, nd). consider_port True portp nd) cs st)"
  using assms(2,3)
proof (induction cs rule: rev_induct)
  case (snoc c cs)
  obtain portp nd where c: "c = (portp, nd)" by force
  show ?case
  proof (cases "cs = []")
    case True
    have "best_inv [(portp, nd)] (consider_port True portp nd st)"
      using assms(1) snoc.prems
      by (auto simp: c best_inv_def consider_best beats_best_def port_no_worse_def entry_of_def)
    then show ?thesis by (simp add: c True)
  next
    case False
    then have "best_inv cs (fold (\<lambda>(portp, nd). consider_port True portp nd) cs st)" using snoc by simp
    then show ?thesis using consider_best_step by (simp add: c)
  qed
qed simp

text \<open>The comparators are consistent: they agree with their converse and are transitive.\<close>

lemma cmp3_iff:
  "cmp3 x y r < 0 \<longleftrightarrow> x < y \<or> x = y \<and> r < 0" "cmp3 x y r = 0 \<longleftrightarrow> x = y \<and> r = 0" "cmp3 x y r > 0 \<longleftrightarrow> y < x \<or> x = y \<and> r > 0"
  by (auto simp: cmp3_def)

section \<open>Properties\<close>

definition ex_next :: "nat \<Rightarrow> u64 \<Rightarrow> sw_node" where
  "ex_next i g = \<lparr>swIdx = i, NodeGUID = g, SystemImageGUID = g, numLidsRouted = 0\<rparr>"

definition ex_get_port :: "nat \<Rightarrow> out_port option" where
  "ex_get_port p = (if p = 1 \<or> p = 2 \<or> p = 3 then
     Some \<lparr>op_index = p, op_valid = True, op_state = 4, op_next = Some (ex_next p (of_nat p)), op_uplink = False,
       op_getSpeed = 200, op_portSpeed = (if p = 1 then 50 else 200), op_lidsRouted = (if p = 2 then 9 else 3)\<rparr> else None)"

text \<open>
  With \<open>selectBest\<close> off, port selection returns exactly the fastest candidate ports of the
  mask, in ascending port order: the ports over active links to other switches whose speed is
  the maximum of all candidates.
\<close>

theorem select_ports_all_fastest:
  "sm_routing_func_select_ports False False switchp get_port ports =
   map (\<lambda>(portp, nd). entry_of portp nd)
     (filter (\<lambda>c. op_portSpeed (fst c) = fold max (map (op_portSpeed \<circ> fst) (candidates switchp get_port ports)) 0)
       (candidates switchp get_port ports))"
  unfolding select_ports_fold by (intro consider_all_inv[THEN conjunct2]) simp_all



text \<open>
  The comparator that orders the ports for balancing meets the contract of \<open>qsort\<close>: it is
  transitive, changes sign with its arguments, and is 0 only for ports that agree in load,
  next switch and port number.
\<close>

theorem compare_lids_routed_then_guids_order:
  "(compare_lids_routed_then_guids a b < 0 \<longleftrightarrow> compare_lids_routed_then_guids b a > 0) \<and>
   (compare_lids_routed_then_guids a b \<le> 0 \<and> compare_lids_routed_then_guids b d \<le> 0 \<longrightarrow>
     compare_lids_routed_then_guids a d \<le> 0) \<and>
   (compare_lids_routed_then_guids a b = 0 \<longleftrightarrow>
     op_lidsRouted (spt_portp a) = op_lidsRouted (spt_portp b) \<and>
     numLidsRouted (spt_nextSwp a) = numLidsRouted (spt_nextSwp b) \<and> spt_guid a = spt_guid b \<and>
     op_index (spt_portp a) = op_index (spt_portp b))"
proof -
  have le: "x \<le> 0 \<longleftrightarrow> \<not> x > 0" for x :: int by auto
  show ?thesis
    unfolding compare_lids_routed_then_guids_def cmp_lids_def le cmp3_iff by (intro conjI) auto
qed

theorem compare_lids_routed_then_guids_order_witness:
  "compare_lids_routed_then_guids (entry_of (the (ex_get_port 3)) (ex_next 3 3)) (entry_of (the (ex_get_port 2)) (ex_next 2 2)) < 0 \<and>
   compare_lids_routed_then_guids (entry_of (the (ex_get_port 2)) (ex_next 2 2)) (entry_of (the (ex_get_port 3)) (ex_next 3 3)) > 0"
proof -
  have "compare_lids_routed_then_guids (entry_of (the (ex_get_port 3)) (ex_next 3 3)) (entry_of (the (ex_get_port 2)) (ex_next 2 2)) < 0"
    by (simp add: compare_lids_routed_then_guids_def cmp_lids_def cmp3_def entry_of_def ex_get_port_def word_less_nat_alt)
  then show ?thesis
    using compare_lids_routed_then_guids_order[of "entry_of (the (ex_get_port 3)) (ex_next 3 3)"
        "entry_of (the (ex_get_port 2)) (ex_next 2 2)" "entry_of (the (ex_get_port 2)) (ex_next 2 2)"] by blast
qed

end
