(* ===== verification/SmGuidCycle.thy ===== *)
theory SmGuidCycle
  imports SmSelectPorts "HOL-Library.Multiset"
begin

text \<open>
  The order in which the selected ports are offered to the LIDs of a port (\<^verbatim>\<open>_guid_cycle_sort\<close> and
  \<^verbatim>\<open>_balance_ports\<close> of \<^verbatim>\<open>sm_routing_funcs.c\<close>). The array is a list; the scratch space behind it, which
  has room for one counter per port, is a list of the counters in use. The loops that search for a
  counter that is not empty and that swap the elements into place carry fuel; the lemmas show that
  the fuel is enough, so both loops end.
\<close>

section \<open>Cyclic sort\<close>

record GuidCounter =
  gc_guid :: u64
  gc_offset :: nat
  gc_count :: nat

definition port_guid :: "bool \<Rightarrow> SwitchportToNextGuid \<Rightarrow> u64" where
  "port_guid useSysGuid p = (if useSysGuid then spt_sysGuid p else spt_guid p)"

text \<open>
  The collection loop at index \<open>i\<close>: a guid that differs from the previous one starts a new counter. The
  previous guid is 0 at first, so a leading guid 0 would use the counter before the array.
\<close>

fun collect_guids :: "bool \<Rightarrow> SwitchportToNextGuid list \<Rightarrow> nat \<Rightarrow> u64 \<Rightarrow> GuidCounter list \<Rightarrow> GuidCounter list c_result" where
  "collect_guids sys [] i prevGuid gc = Inr gc"
| "collect_guids sys (p # ps) i prevGuid gc =
     (if port_guid sys p \<noteq> prevGuid
      then collect_guids sys ps (i + 1) (port_guid sys p) (gc @ [\<lparr>gc_guid = port_guid sys p, gc_offset = i, gc_count = 1\<rparr>])
      else if gc = [] then Inl OutOfBounds
      else collect_guids sys ps (i + 1) (port_guid sys p) (butlast gc @ [(last gc)\<lparr>gc_count := gc_count (last gc) + 1\<rparr>]))"

text \<open>The inner \<open>while\<close>: on to the next counter that is not empty; \<open>None\<close> if the fuel runs out.\<close>

fun next_nonempty :: "nat \<Rightarrow> GuidCounter list \<Rightarrow> nat \<Rightarrow> nat option" where
  "next_nonempty 0 gc j = None"
| "next_nonempty (Suc fuel) gc j = (if gc_count (gc ! j) = 0 then next_nonempty fuel gc ((j + 1) mod length gc) else Some j)"

text \<open>The marking pass, for \<open>n\<close> more ports.\<close>

fun mark_ports :: "nat \<Rightarrow> nat \<Rightarrow> GuidCounter list \<Rightarrow> u16 \<Rightarrow> SwitchportToNextGuid list \<Rightarrow> SwitchportToNextGuid list option" where
  "mark_ports 0 j gc sortIndex ps = Some ps"
| "mark_ports (Suc n) j gc sortIndex ps =
     (case next_nonempty (length gc) gc j of
        None \<Rightarrow> None
      | Some k \<Rightarrow>
          mark_ports n ((k + 1) mod length gc)
            (gc[k := (gc ! k)\<lparr>gc_offset := gc_offset (gc ! k) + 1, gc_count := gc_count (gc ! k) - 1\<rparr>]) (sortIndex + 1)
            (ps[gc_offset (gc ! k) := (ps ! gc_offset (gc ! k))\<lparr>spt_sortIndex := sortIndex\<rparr>]))"

text \<open>The swapping pass at index \<open>i\<close>.\<close>

fun swap_into_place :: "nat \<Rightarrow> nat \<Rightarrow> SwitchportToNextGuid list \<Rightarrow> SwitchportToNextGuid list c_result option" where
  "swap_into_place 0 i ps = None"
| "swap_into_place (Suc fuel) i ps =
     (if unat (spt_sortIndex (ps ! i)) = i then Some (Inr ps)
      else if \<not> unat (spt_sortIndex (ps ! i)) < length ps then Some (Inl OutOfBounds)
      else swap_into_place fuel i (ps[i := ps ! unat (spt_sortIndex (ps ! i)), unat (spt_sortIndex (ps ! i)) := ps ! i]))"

fun swap_all :: "nat list \<Rightarrow> SwitchportToNextGuid list \<Rightarrow> SwitchportToNextGuid list c_result option" where
  "swap_all [] ps = Some (Inr ps)"
| "swap_all (i # is) ps =
     (case swap_into_place (length ps + 1) i ps of
        None \<Rightarrow> None
      | Some (Inl e) \<Rightarrow> Some (Inl e)
      | Some (Inr ps') \<Rightarrow> swap_all is ps')"

text \<open>\<open>None\<close> is a loop that does not end.\<close>

definition guid_cycle_sort :: "bool \<Rightarrow> SwitchportToNextGuid list \<Rightarrow> SwitchportToNextGuid list c_result option" where
  "guid_cycle_sort useSysGuid ports =
     (if length ports \<le> 2 then Some (Inr ports)
      else case collect_guids useSysGuid ports 0 0 [] of
             Inl e \<Rightarrow> Some (Inl e)
           | Inr gc \<Rightarrow>
               let ports1 = map (\<lambda>p. p\<lparr>spt_sortIndex := 0\<rparr>) ports in
               if length gc \<le> 1 \<or> length gc = length ports then Some (Inr ports1)
               else case mark_ports (length ports) 0 gc 0 ports1 of
                      None \<Rightarrow> None
                    | Some ports2 \<Rightarrow> swap_all [0..<length ports] ports2)"

section \<open>The counters\<close>

abbreviation positions :: "GuidCounter \<Rightarrow> nat set" where
  "positions g \<equiv> {gc_offset g..<gc_offset g + gc_count g}"

definition left_over :: "GuidCounter list \<Rightarrow> nat set" where
  "left_over gc = (\<Union>g\<in>set gc. positions g)"

text \<open>The counters that the collection builds: runs of equal guids, one after the other.\<close>

fun runs_from :: "nat \<Rightarrow> GuidCounter list \<Rightarrow> nat \<Rightarrow> bool" where
  "runs_from i [] n \<longleftrightarrow> i = n"
| "runs_from i (g # gc) n \<longleftrightarrow> gc_offset g = i \<and> 0 < gc_count g \<and> runs_from (i + gc_count g) gc n"

lemma runs_from_append: "runs_from i (gc @ gc') n \<longleftrightarrow> (\<exists>k. runs_from i gc k \<and> runs_from k gc' n)"
  by (induction gc arbitrary: i) auto

lemma runs_from_le: "runs_from i gc n \<Longrightarrow> i \<le> n"
  by (induction gc arbitrary: i) fastforce+

lemma runs_from_positions: "runs_from i gc n \<Longrightarrow> left_over gc = {i..<n}"
proof (induction gc arbitrary: i)
  case (Cons g gc)
  then have "left_over gc = {i + gc_count g..<n}" "i + gc_count g \<le> n" using runs_from_le by auto
  then show ?case using Cons.prems by (auto simp: left_over_def)
qed (simp add: left_over_def)

lemma runs_from_nth:
  assumes "runs_from i gc n" "k < length gc"
  shows "i \<le> gc_offset (gc ! k)" "gc_offset (gc ! k) + gc_count (gc ! k) \<le> n" "0 < gc_count (gc ! k)"
    "k < l \<Longrightarrow> l < length gc \<Longrightarrow> gc_offset (gc ! k) + gc_count (gc ! k) \<le> gc_offset (gc ! l)"
proof -
  have e: "runs_from i (take k gc @ gc ! k # drop (Suc k) gc) n" using assms id_take_nth_drop[OF assms(2)] by simp
  then obtain a where a: "runs_from i (take k gc) a" "gc_offset (gc ! k) = a" "0 < gc_count (gc ! k)"
      "runs_from (a + gc_count (gc ! k)) (drop (Suc k) gc) n" unfolding runs_from_append by auto
  show "i \<le> gc_offset (gc ! k)" "gc_offset (gc ! k) + gc_count (gc ! k) \<le> n" "0 < gc_count (gc ! k)"
    using a runs_from_le by auto
  assume l: "k < l" "l < length gc"
  have "drop (Suc k) gc = take (l - Suc k) (drop (Suc k) gc) @ gc ! l # drop (Suc l) gc"
    using l id_take_nth_drop[of "l - Suc k" "drop (Suc k) gc"] by (simp add: Suc_diff_Suc)
  then have "runs_from (a + gc_count (gc ! k)) (take (l - Suc k) (drop (Suc k) gc) @ gc ! l # drop (Suc l) gc) n" using a(4) by simp
  then show "gc_offset (gc ! k) + gc_count (gc ! k) \<le> gc_offset (gc ! l)"
    unfolding runs_from_append using runs_from_le a(2) by auto
qed

text \<open>Each counter belongs to one guid, and different counters of a sorted array to different guids.\<close>

definition guids_of :: "bool \<Rightarrow> SwitchportToNextGuid list \<Rightarrow> GuidCounter list \<Rightarrow> bool" where
  "guids_of sys ports gc \<longleftrightarrow> (\<forall>g\<in>set gc. \<forall>i\<in>positions g. port_guid sys (ports ! i) = gc_guid g)"

lemma collect_guids_runs:
  assumes "i + length ps = length ports" "drop i ports = ps" "runs_from 0 gc i" "guids_of sys ports gc"
    and "gc \<noteq> [] \<Longrightarrow> gc_guid (last gc) = prev" "gc = [] \<Longrightarrow> i = 0 \<and> prev = 0"
    and "sorted_wrt (\<lambda>a b. gc_guid a < gc_guid b) gc" "sorted (map (port_guid sys) ports)" "ports \<noteq> []" "port_guid sys (hd ports) \<noteq> 0"
    and "gc \<noteq> [] \<Longrightarrow> 0 < i \<and> port_guid sys (ports ! (i - 1)) = prev"
  shows "\<exists>gc'. collect_guids sys ps i prev gc = Inr gc' \<and> runs_from 0 gc' (length ports) \<and> guids_of sys ports gc' \<and>
    sorted_wrt (\<lambda>a b. gc_guid a < gc_guid b) gc'"
  using assms(1-7,11)
proof (induction ps arbitrary: i prev gc)
  case Nil
  then show ?case by auto
next
  case (Cons p ps)
  have i: "i < length ports" and p: "ports ! i = p" and d: "drop (i + 1) ports = ps"
    using Cons.prems(1,2) by (auto simp: nth_via_drop drop_Suc tl_drop[symmetric])
  show ?case
  proof (cases "port_guid sys p \<noteq> prev")
    case True
    let ?g = "\<lparr>gc_guid = port_guid sys p, gc_offset = i, gc_count = 1\<rparr>"
    have less: "gc_guid g < port_guid sys p" if "g \<in> set gc" for g
    proof -
      have ne: "gc \<noteq> []" using that by auto
      have "port_guid sys (ports ! (i - 1)) \<le> port_guid sys p"
        using assms(8) i Cons.prems(8)[OF ne] p sorted_iff_nth_mono[of "map (port_guid sys) ports"] by fastforce
      then have "gc_guid (last gc) < port_guid sys p" using True Cons.prems(5)[OF ne] Cons.prems(8)[OF ne] by simp
      moreover have "gc_guid g \<le> gc_guid (last gc)"
      proof (cases "g = last gc")
        case False
        have "gc = butlast gc @ [last gc]" using ne by simp
        then have "g \<in> set (butlast gc)" "sorted_wrt (\<lambda>a b. gc_guid a < gc_guid b) (butlast gc @ [last gc])"
          using that False Cons.prems(7) by (metis UnE set_append empty_iff list.set(1) set_ConsD list.simps(15) insertE, simp)
        then show ?thesis by (auto simp: sorted_wrt_append)
      qed simp
      ultimately show ?thesis by simp
    qed
    have "runs_from 0 (gc @ [?g]) (i + 1)" using Cons.prems(3) by (auto simp: runs_from_append)
    moreover have "guids_of sys ports (gc @ [?g])" using Cons.prems(4) p by (auto simp: guids_of_def)
    moreover have "sorted_wrt (\<lambda>a b. gc_guid a < gc_guid b) (gc @ [?g])" using Cons.prems(7) less by (auto simp: sorted_wrt_append)
    ultimately show ?thesis using Cons.IH[of "i + 1" "gc @ [?g]" "port_guid sys p"] Cons.prems(1) d True p by simp
  next
    case False
    have ne: "gc \<noteq> []"
    proof
      assume "gc = []"
      then have "i = 0" "prev = 0" using Cons.prems(6) by auto
      then show False using False assms(9,10) p by (simp add: hd_conv_nth)
    qed
    let ?g = "(last gc)\<lparr>gc_count := gc_count (last gc) + 1\<rparr>"
    have gc: "gc = butlast gc @ [last gc]" using ne by simp
    have r: "runs_from 0 (butlast gc @ [last gc]) i" using Cons.prems(3) ne by simp
    then have "runs_from 0 (butlast gc @ [?g]) (i + 1)" by (auto simp: runs_from_append)
    moreover have l: "gc_offset (last gc) + gc_count (last gc) = i" using r by (auto simp: runs_from_append)
    have "guids_of sys ports (butlast gc @ [?g])"
    proof -
      have "port_guid sys (ports ! k) = gc_guid (last gc)" if "gc_offset (last gc) \<le> k" "k < gc_offset (last gc) + Suc (gc_count (last gc))" for k
      proof (cases "k = i")
        case True
        then show ?thesis using p False Cons.prems(5)[OF ne] by simp
      next
        case False
        then show ?thesis using that l Cons.prems(4) last_in_set[OF ne] by (auto simp: guids_of_def)
      qed
      then show ?thesis using Cons.prems(4) by (auto simp: guids_of_def dest: in_set_butlastD)
    qed
    moreover have "sorted_wrt (\<lambda>a b. gc_guid a < gc_guid b) (butlast gc @ [last gc])" using Cons.prems(7) ne by simp
    then have "sorted_wrt (\<lambda>a b. gc_guid a < gc_guid b) (butlast gc @ [?g])" by (simp add: sorted_wrt_append)
    ultimately show ?thesis using Cons.IH[of "i + 1" "butlast gc @ [?g]" "port_guid sys p"] Cons.prems(1,5) d False p ne by simp
  qed
qed

section \<open>The marking pass\<close>

abbreviation take_one :: "GuidCounter list \<Rightarrow> nat \<Rightarrow> GuidCounter list" where
  "take_one gc k \<equiv> gc[k := (gc ! k)\<lparr>gc_offset := gc_offset (gc ! k) + 1, gc_count := gc_count (gc ! k) - 1\<rparr>]"

text \<open>The search visits the counters in cyclic order and ends at the first that is not empty.\<close>

definition cyclic_first :: "GuidCounter list \<Rightarrow> nat \<Rightarrow> nat \<Rightarrow> bool" where
  "cyclic_first gc j k \<longleftrightarrow> k < length gc \<and> 0 < gc_count (gc ! k) \<and>
     (if j \<le> k then \<forall>l. j \<le> l \<and> l < k \<longrightarrow> gc_count (gc ! l) = 0
      else (\<forall>l. j \<le> l \<and> l < length gc \<longrightarrow> gc_count (gc ! l) = 0) \<and> (\<forall>l<k. gc_count (gc ! l) = 0))"

lemma next_nonempty_from:
  assumes "k < length gc" "0 < gc_count (gc ! k)" "j \<le> k" "k - j < fuel"
  shows "\<exists>k'. next_nonempty fuel gc j = Some k' \<and> j \<le> k' \<and> k' \<le> k \<and> 0 < gc_count (gc ! k') \<and> (\<forall>l. j \<le> l \<and> l < k' \<longrightarrow> gc_count (gc ! l) = 0)"
  using assms(3,4)
proof (induction fuel arbitrary: j)
  case (Suc fuel)
  show ?case
  proof (cases "gc_count (gc ! j) = 0")
    case True
    then have "j < k" using assms(2) Suc.prems by (cases "j = k") auto
    then have "(j + 1) mod length gc = j + 1" using assms(1) by simp
    moreover obtain k' where "next_nonempty fuel gc (j + 1) = Some k'" "j + 1 \<le> k'" "k' \<le> k" "0 < gc_count (gc ! k')"
        "\<forall>l. j + 1 \<le> l \<and> l < k' \<longrightarrow> gc_count (gc ! l) = 0"
      using Suc.IH[of "j + 1"] \<open>j < k\<close> Suc.prems(2) by (metis (no_types, lifting) Suc_eq_plus1 Suc_leI diff_Suc_Suc diff_less_mono2 less_SucE less_Suc_eq_le not_less_eq Suc_diff_Suc)
    ultimately show ?thesis using True by (metis One_nat_def add.right_neutral add_Suc_right le_antisym next_nonempty.simps(2) not_less_eq_eq Suc_leD)
  next
    case False
    then show ?thesis using Suc.prems by auto
  qed
qed simp

lemma next_nonempty_skip:
  assumes "\<forall>l. j \<le> l \<and> l < length gc \<longrightarrow> gc_count (gc ! l) = 0" "j < length gc" "length gc - j \<le> fuel"
  shows "next_nonempty fuel gc j = next_nonempty (fuel - (length gc - j)) gc 0"
  using assms
proof (induction "length gc - j" arbitrary: j fuel)
  case (Suc m)
  then obtain f where f: "fuel = Suc f" by (cases fuel) auto
  show ?case
  proof (cases "j + 1 = length gc")
    case True
    then have "length gc - j = 1" "(j + 1) mod length gc = 0" by auto
    then show ?thesis using Suc.prems f by simp
  next
    case False
    then have "next_nonempty f gc (j + 1) = next_nonempty (f - (length gc - (j + 1))) gc 0"
      using Suc.hyps(1)[of "j + 1" f] Suc.hyps(2) Suc.prems f by auto
    moreover have "(j + 1) mod length gc = j + 1" using False Suc.prems(2) by simp
    ultimately show ?thesis using Suc.prems f by simp
  qed
qed simp

lemma next_nonempty_cyclic:
  assumes "j < length gc" "\<exists>g\<in>set gc. 0 < gc_count g"
  obtains k where "next_nonempty (length gc) gc j = Some k" "cyclic_first gc j k"
proof (cases "\<exists>k. j \<le> k \<and> k < length gc \<and> 0 < gc_count (gc ! k)")
  case True
  then obtain k where k: "j \<le> k" "k < length gc" "0 < gc_count (gc ! k)" by blast
  then obtain k' where "next_nonempty (length gc) gc j = Some k'" "j \<le> k'" "k' \<le> k" "0 < gc_count (gc ! k')"
      "\<forall>l. j \<le> l \<and> l < k' \<longrightarrow> gc_count (gc ! l) = 0"
    using next_nonempty_from[of k gc j "length gc"] less_imp_diff_less[OF k(2)] by blast
  then show ?thesis using that[of k'] k(2) by (auto simp: cyclic_first_def)
next
  case False
  then have e: "\<forall>l. j \<le> l \<and> l < length gc \<longrightarrow> gc_count (gc ! l) = 0" by auto
  obtain k where k: "k < length gc" "0 < gc_count (gc ! k)" using assms(2) by (metis in_set_conv_nth)
  then have kj: "k < j" using e by (metis not_le less_irrefl)
  have s: "next_nonempty (length gc) gc j = next_nonempty j gc 0" using next_nonempty_skip[OF e assms(1), of "length gc"] assms(1) by simp
  obtain k' where "next_nonempty j gc 0 = Some k'" "k' \<le> k" "0 < gc_count (gc ! k')" "\<forall>l. 0 \<le> l \<and> l < k' \<longrightarrow> gc_count (gc ! l) = 0"
    using next_nonempty_from[OF k, of 0 j] kj by (metis le0 diff_zero)
  then show ?thesis using that[of k'] s e k(1) kj by (auto simp: cyclic_first_def)
qed

lemma mod_next_less: "k < n \<Longrightarrow> (k + 1) mod n < n" for n :: nat
  by (rule mod_less_divisor) linarith

text \<open>The positions the pass marks, in order.\<close>

fun picks :: "nat \<Rightarrow> nat \<Rightarrow> GuidCounter list \<Rightarrow> nat list" where
  "picks 0 j gc = []"
| "picks (Suc n) j gc =
     (let k = the (next_nonempty (length gc) gc j) in gc_offset (gc ! k) # picks n ((k + 1) mod length gc) (take_one gc k))"

definition gc_inv :: "GuidCounter list \<Rightarrow> nat \<Rightarrow> bool" where
  "gc_inv gc n \<longleftrightarrow> (\<Sum>g\<leftarrow>gc. gc_count g) = n \<and>
     (\<forall>k l. k < l \<and> l < length gc \<longrightarrow> gc_offset (gc ! k) + gc_count (gc ! k) \<le> gc_offset (gc ! l))"

lemma left_over_nth: "left_over gc = (\<Union>k<length gc. positions (gc ! k))"
  unfolding left_over_def by (metis (no_types, lifting) SUP_cong image_image lessThan_atLeast0 list.set_map map_nth set_map set_upt atLeast_upt)

lemma take_one_inv:
  assumes "gc_inv gc (Suc n)" "k < length gc" "0 < gc_count (gc ! k)"
  shows "gc_inv (take_one gc k) n" "left_over gc = insert (gc_offset (gc ! k)) (left_over (take_one gc k))"
    "gc_offset (gc ! k) \<notin> left_over (take_one gc k)"
proof -
  let ?g = "(gc ! k)\<lparr>gc_offset := gc_offset (gc ! k) + 1, gc_count := gc_count (gc ! k) - 1\<rparr>"
  have n: "take_one gc k ! l = (if l = k then ?g else gc ! l)" if "l < length gc" for l using that assms(2) by simp
  have ord: "gc_offset (gc ! a) + gc_count (gc ! a) \<le> gc_offset (gc ! b)" if "a < b" "b < length gc" for a b
    using assms(1) that by (auto simp: gc_inv_def)
  have "(\<Sum>g\<leftarrow>take_one gc k. gc_count g) + gc_count (gc ! k) = (\<Sum>g\<leftarrow>gc. gc_count g) + (gc_count (gc ! k) - 1)"
    using sum_list_update[of k "map gc_count gc" "gc_count ?g"] assms(2) elem_le_sum_list[of k "map gc_count gc"] by (simp add: map_update)
  then have "(\<Sum>g\<leftarrow>take_one gc k. gc_count g) = n" using assms(1,3) by (simp add: gc_inv_def)
  moreover have "gc_offset (take_one gc k ! a) + gc_count (take_one gc k ! a) \<le> gc_offset (take_one gc k ! b)" if "a < b" "b < length gc" for a b
    using ord[OF that] n[OF less_trans[OF that]] n[OF that(2)] assms(3) by (simp only:) (auto split: if_splits)
  ultimately show "gc_inv (take_one gc k) n" by (simp add: gc_inv_def)
  have pos: "positions (gc ! k) = insert (gc_offset (gc ! k)) (positions ?g)" using assms(3) by auto
  define R where "R = (\<Union>l\<in>{..<length gc} - {k}. positions (gc ! l))"
  have i: "{..<length gc} = insert k ({..<length gc} - {k})" using assms(2) by auto
  have lo: "left_over gc = positions (gc ! k) \<union> R" unfolding left_over_nth by (subst i) (simp only: UN_insert R_def)
  have "(\<Union>l\<in>{..<length gc} - {k}. positions (take_one gc k ! l)) = R" unfolding R_def by (rule SUP_cong) (use n in auto)
  moreover have "positions (take_one gc k ! k) = positions ?g" using n assms(2) by simp
  ultimately have lo': "left_over (take_one gc k) = positions ?g \<union> R"
    unfolding left_over_nth length_list_update by (subst i) (simp only: UN_insert)
  show "left_over gc = insert (gc_offset (gc ! k)) (left_over (take_one gc k))" unfolding lo lo' pos by blast
  have "gc_offset (gc ! k) \<notin> positions (gc ! l)" if "l < length gc" "l \<noteq> k" for l
    using ord[of l k] ord[of k l] that assms(2,3) by (cases "l < k") auto
  then show "gc_offset (gc ! k) \<notin> left_over (take_one gc k)" unfolding lo' R_def by auto
qed

lemma gc_inv_some: "gc_inv gc (Suc n) \<Longrightarrow> \<exists>g\<in>set gc. 0 < gc_count g"
proof (rule ccontr)
  assume "gc_inv gc (Suc n)" "\<not> (\<exists>g\<in>set gc. 0 < gc_count g)"
  then have "sum_list (map gc_count gc) = 0" by (simp add: sum_list_eq_0_iff)
  moreover have "sum_list (map gc_count gc) = Suc n" using \<open>gc_inv gc (Suc n)\<close> unfolding gc_inv_def by blast
  ultimately show False by simp
qed

lemma picks_set:
  assumes "gc_inv gc n" "j < length gc"
  shows "set (picks n j gc) = left_over gc \<and> length (picks n j gc) = n \<and> distinct (picks n j gc)"
  using assms
proof (induction n arbitrary: j gc)
  case 0
  have "gc_count g = 0" if "g \<in> set gc" for g using 0(1) that by (simp add: gc_inv_def)
  then show ?case by (simp add: left_over_def)
next
  case (Suc n)
  obtain k where k: "next_nonempty (length gc) gc j = Some k" "cyclic_first gc j k"
    using next_nonempty_cyclic[OF Suc.prems(2) gc_inv_some[OF Suc.prems(1)]] .
  then have kl: "k < length gc" "0 < gc_count (gc ! k)" by (auto simp: cyclic_first_def)
  note t = take_one_inv[OF Suc.prems(1) kl]
  have "(k + 1) mod length gc < length (take_one gc k)" using mod_next_less[OF kl(1)] by simp
  note ih = Suc.IH[OF t(1) this]
  have "picks (Suc n) j gc = gc_offset (gc ! k) # picks n ((k + 1) mod length gc) (take_one gc k)" using k(1) by (simp add: Let_def)
  then show ?case unfolding t(2) using ih t(3) by simp
qed

text \<open>
  In round \<open>r\<close>, with the counters before \<open>j\<close> done: the counters have given up what the rounds so far took.
\<close>

definition taken :: "nat \<Rightarrow> nat \<Rightarrow> nat \<Rightarrow> nat \<Rightarrow> nat" where
  "taken r j k sz = min (if k < j then r + 1 else r) sz"

definition phase :: "GuidCounter list \<Rightarrow> nat \<Rightarrow> nat \<Rightarrow> GuidCounter list \<Rightarrow> bool" where
  "phase gc0 r j gc \<longleftrightarrow> length gc = length gc0 \<and>
     (\<forall>k<length gc0. gc_offset (gc ! k) = gc_offset (gc0 ! k) + taken r j k (gc_count (gc0 ! k)) \<and>
        gc_count (gc ! k) = gc_count (gc0 ! k) - taken r j k (gc_count (gc0 ! k)))"

lemma phase_wrap: "phase gc0 r (length gc0) gc \<Longrightarrow> phase gc0 (r + 1) 0 gc"
  by (simp add: phase_def taken_def)

lemma phase_step:
  assumes "phase gc0 r j gc" "cyclic_first gc j k" "j < length gc"
  obtains r' where "gc_offset (gc ! k) = gc_offset (gc0 ! k) + r'" "r' < gc_count (gc0 ! k)" "phase gc0 r' (k + 1) (take_one gc k)"
proof -
  define r' where "r' = (if j \<le> k then r else r + 1)"
  have k: "k < length gc0" "0 < gc_count (gc ! k)" using assms(1,2) by (auto simp: cyclic_first_def phase_def)
  have empty: "gc_count (gc0 ! l) \<le> taken r j l (gc_count (gc0 ! l))" if "gc_count (gc ! l) = 0" "l < length gc0" for l
    using assms(1) that by (auto simp: phase_def)
  have own: "taken r j k (gc_count (gc0 ! k)) = r'" "r' < gc_count (gc0 ! k)"
    using assms(1) k by (auto simp: phase_def taken_def r'_def split: if_splits)
  have others: "taken r' (k + 1) l (gc_count (gc0 ! l)) = taken r j l (gc_count (gc0 ! l))" if l: "l < length gc0" "l \<noteq> k" for l
  proof (cases "j \<le> k")
    case True
    then have "gc_count (gc ! l) = 0" if "j \<le> l" "l < k" using assms(2) that unfolding cyclic_first_def by simp
    then have "gc_count (gc0 ! l) \<le> r" if "j \<le> l" "l < k" using empty[OF _ l(1)] that by (simp add: taken_def split: if_splits)
    then show ?thesis using True l by (auto simp: taken_def r'_def)
  next
    case False
    have z: "gc_count (gc ! l) = 0" if "j \<le> l \<or> l < k"
      using assms(1,2) that l(1) False unfolding cyclic_first_def phase_def by auto
    have "gc_count (gc0 ! l) \<le> r" if "j \<le> l" using empty[OF z l(1)] that by (simp add: taken_def split: if_splits)
    moreover have "gc_count (gc0 ! l) \<le> r + 1" if "l < k" using empty[OF z l(1)] that by (simp add: taken_def split: if_splits)
    ultimately show ?thesis using False l by (auto simp: taken_def r'_def)
  qed
  have len: "length gc = length gc0" using assms(1) by (simp add: phase_def)
  have "phase gc0 r' (k + 1) (take_one gc k)" unfolding phase_def
  proof (intro conjI allI impI)
    show "length (take_one gc k) = length gc0" using len by simp
    fix l assume l: "l < length gc0"
    have ph: "gc_offset (gc ! l) = gc_offset (gc0 ! l) + taken r j l (gc_count (gc0 ! l))"
      "gc_count (gc ! l) = gc_count (gc0 ! l) - taken r j l (gc_count (gc0 ! l))" using assms(1) l by (auto simp: phase_def)
    show "gc_offset (take_one gc k ! l) = gc_offset (gc0 ! l) + taken r' (k + 1) l (gc_count (gc0 ! l))"
      using ph(1) others[OF l] own l len by (cases "l = k") (auto simp: taken_def)
    show "gc_count (take_one gc k ! l) = gc_count (gc0 ! l) - taken r' (k + 1) l (gc_count (gc0 ! l))"
      using ph(2) others[OF l] own l len by (cases "l = k") (auto simp: taken_def)
  qed
  moreover have "gc_offset (gc ! k) = gc_offset (gc0 ! k) + r'" using assms(1) k own by (auto simp: phase_def)
  ultimately show ?thesis using that own(2) by blast
qed

text \<open>The order of the marks: by rank among the ports of the same guid, then by position.\<close>

definition run_key :: "GuidCounter list \<Rightarrow> nat \<Rightarrow> (nat \<Rightarrow> nat) \<Rightarrow> bool" where
  "run_key gc0 n key \<longleftrightarrow> (\<forall>k<length gc0. \<forall>p\<in>positions (gc0 ! k). key p = (p - gc_offset (gc0 ! k)) * n + p)"

lemma phase_later:
  assumes "runs_from 0 gc0 n" "run_key gc0 n key" "phase gc0 r (k + 1) gc" "k < length gc0" "r < gc_count (gc0 ! k)"
    and q: "q \<in> left_over gc"
  shows "key (gc_offset (gc0 ! k) + r) < key q"
proof -
  let ?p = "gc_offset (gc0 ! k) + r"
  have p: "key ?p = r * n + ?p" "?p < n" using assms(2,4,5) runs_from_nth(2)[OF assms(1,4)] by (auto simp: run_key_def)
  obtain l where l: "l < length gc0" "q \<in> positions (gc ! l)" using q assms(3) unfolding left_over_nth by (auto simp: phase_def)
  define t where "t = taken r (k + 1) l (gc_count (gc0 ! l))"
  have q': "gc_offset (gc0 ! l) + t \<le> q" "q < gc_offset (gc0 ! l) + gc_count (gc0 ! l)" "t \<le> gc_count (gc0 ! l)"
    using l assms(3) by (auto simp: phase_def t_def taken_def)
  then have key: "key q = (q - gc_offset (gc0 ! l)) * n + q" using assms(2) l(1) by (auto simp: run_key_def)
  show ?thesis
  proof (cases "r + 1 \<le> q - gc_offset (gc0 ! l)")
    case True
    then have "(r + 1) * n \<le> (q - gc_offset (gc0 ! l)) * n" by (intro mult_le_mono1)
    then show ?thesis using key p by simp
  next
    case False
    then have kl: "k < l" "q - gc_offset (gc0 ! l) = r" using q' by (auto simp: t_def taken_def split: if_splits)
    then have "?p < q" using runs_from_nth(4)[OF assms(1,4) kl(1) l(1)] assms(5) q'(1) by linarith
    then show ?thesis using key p kl(2) by simp
  qed
qed

lemma picks_sorted:
  assumes "runs_from 0 gc0 n0" "run_key gc0 n0 key" "phase gc0 r j gc" "gc_inv gc n" "j < length gc"
  shows "sorted_wrt (<) (map key (picks n j gc))"
  using assms(3-5)
proof (induction n arbitrary: r j gc)
  case (Suc n)
  obtain k where k: "next_nonempty (length gc) gc j = Some k" "cyclic_first gc j k"
    using next_nonempty_cyclic[OF Suc.prems(3) gc_inv_some[OF Suc.prems(2)]] .
  then have kl: "k < length gc" "0 < gc_count (gc ! k)" by (auto simp: cyclic_first_def)
  note t = take_one_inv[OF Suc.prems(2) kl]
  obtain r' where r': "gc_offset (gc ! k) = gc_offset (gc0 ! k) + r'" "r' < gc_count (gc0 ! k)" "phase gc0 r' (k + 1) (take_one gc k)"
    using phase_step[OF Suc.prems(1) k(2) Suc.prems(3)] .
  have len: "length gc = length gc0" using Suc.prems(1) by (simp add: phase_def)
  have lt: "(k + 1) mod length gc < length (take_one gc k)" using mod_next_less[OF kl(1)] by simp
  have "\<exists>r''. phase gc0 r'' ((k + 1) mod length gc) (take_one gc k)"
  proof (cases "k + 1 = length gc")
    case True
    then show ?thesis using r'(3) phase_wrap len by auto
  next
    case False
    then have "(k + 1) mod length gc = k + 1" using kl(1) by simp
    then show ?thesis using r'(3) by metis
  qed
  then have ih: "sorted_wrt (<) (map key (picks n ((k + 1) mod length gc) (take_one gc k)))" using Suc.IH[OF _ t(1) lt] by blast
  have "key (gc_offset (gc ! k)) < key q" if "q \<in> set (picks n ((k + 1) mod length gc) (take_one gc k))" for q
    using phase_later[OF assms(1,2) r'(3) _ r'(2), of q] that picks_set[OF t(1) lt] kl(1) len r'(1) by simp
  moreover have "picks (Suc n) j gc = gc_offset (gc ! k) # picks n ((k + 1) mod length gc) (take_one gc k)" using k(1) by (simp add: Let_def)
  ultimately show ?case using ih by simp
qed simp

lemma mark_ports_picks:
  assumes "gc_inv gc n" "j < length gc" "left_over gc \<subseteq> {..<length ps}"
  shows "\<exists>ps'. mark_ports n j gc s ps = Some ps' \<and> length ps' = length ps \<and>
    (\<forall>t<n. ps' ! (picks n j gc ! t) = (ps ! (picks n j gc ! t))\<lparr>spt_sortIndex := s + of_nat t\<rparr>) \<and>
    (\<forall>p. p \<notin> left_over gc \<longrightarrow> ps' ! p = ps ! p)"
  using assms
proof (induction n arbitrary: j gc s ps)
  case (Suc n)
  obtain k where k: "next_nonempty (length gc) gc j = Some k" "cyclic_first gc j k"
    using next_nonempty_cyclic[OF Suc.prems(2) gc_inv_some[OF Suc.prems(1)]] .
  then have kl: "k < length gc" "0 < gc_count (gc ! k)" by (auto simp: cyclic_first_def)
  let ?p = "gc_offset (gc ! k)" and ?gc = "take_one gc k" and ?j = "(k + 1) mod length gc"
  let ?ps = "ps[?p := (ps ! ?p)\<lparr>spt_sortIndex := s\<rparr>]"
  note t = take_one_inv[OF Suc.prems(1) kl]
  have lt: "?j < length ?gc" using mod_next_less[OF kl(1)] by simp
  have p: "?p < length ps" using Suc.prems(3) t(2) by auto
  have sub: "left_over ?gc \<subseteq> {..<length ?ps}" using Suc.prems(3) t(2) by auto
  obtain ps' where ps': "mark_ports n ?j ?gc (s + 1) ?ps = Some ps'" "length ps' = length ps"
      "\<And>t. t < n \<Longrightarrow> ps' ! (picks n ?j ?gc ! t) = (?ps ! (picks n ?j ?gc ! t))\<lparr>spt_sortIndex := s + 1 + of_nat t\<rparr>"
      "\<And>q. q \<notin> left_over ?gc \<Longrightarrow> ps' ! q = ?ps ! q"
    using Suc.IH[OF t(1) lt sub, of "s + 1"] by auto
  have pk: "picks (Suc n) j gc = ?p # picks n ?j ?gc" using k(1) by (simp add: Let_def)
  have "ps' ! (picks (Suc n) j gc ! i) = (ps ! (picks (Suc n) j gc ! i))\<lparr>spt_sortIndex := s + of_nat i\<rparr>" if "i < Suc n" for i
  proof (cases i)
    case 0
    then show ?thesis using pk ps'(4)[OF t(3)] p by simp
  next
    case (Suc i')
    have "picks n ?j ?gc ! i' \<in> left_over ?gc" using picks_set[OF t(1) lt] that Suc by (metis Suc_less_SucD nth_mem)
    then have "picks n ?j ?gc ! i' \<noteq> ?p" using t(3) by metis
    then show ?thesis using pk ps'(3)[of i'] that Suc by (simp add: add.assoc)
  qed
  moreover have "ps' ! q = ps ! q" if "q \<notin> left_over gc" for q using ps'(4)[of q] that t(2) by auto
  ultimately show ?case using ps'(1,2) k(1) by simp
qed simp

section \<open>The swapping pass\<close>

abbreviation sidx :: "SwitchportToNextGuid \<Rightarrow> nat" where
  "sidx p \<equiv> unat (spt_sortIndex p)"

definition in_place :: "SwitchportToNextGuid list \<Rightarrow> nat set" where
  "in_place ps = {k. k < length ps \<and> sidx (ps ! k) = k}"

definition indexed :: "SwitchportToNextGuid list \<Rightarrow> bool" where
  "indexed ps \<longleftrightarrow> distinct (map sidx ps) \<and> set (map sidx ps) = {..<length ps}"

lemma indexed_mset: "mset ps = mset qs \<Longrightarrow> indexed ps \<Longrightarrow> indexed qs"
  unfolding indexed_def by (metis (no_types, lifting) list.set_map mset_eq_imp_distinct_iff mset_eq_length mset_eq_setD mset_map)

lemma swap_step:
  assumes "indexed ps" "i < length ps" "sidx (ps ! i) \<noteq> i"
  defines "k \<equiv> sidx (ps ! i)"
  defines "qs \<equiv> ps[i := ps ! k, k := ps ! i]"
  shows "k < length ps" "mset qs = mset ps" "in_place ps \<subset> in_place qs"
proof -
  show k: "k < length ps" using assms(1,2) unfolding indexed_def k_def by (metis (no_types, lifting) image_eqI lessThan_iff list.set_map nth_mem)
  have ne: "k \<noteq> i" using assms(3) by (simp add: k_def)
  show "mset qs = mset ps" unfolding qs_def using mset_swap[OF k assms(2)] ne by (simp add: list_update_swap)
  have "sidx (ps ! k) \<noteq> k"
  proof
    assume "sidx (ps ! k) = k"
    then have "map sidx ps ! k = map sidx ps ! i" using k assms(2) by (simp add: k_def)
    then show False using assms(1,2) k ne unfolding indexed_def by (metis length_map nth_eq_iff_index_eq)
  qed
  moreover have "k \<in> in_place qs" using k assms(2) by (simp add: in_place_def qs_def k_def)
  moreover have "l \<in> in_place qs" if "l \<in> in_place ps" for l
    using that calculation(1) assms(3) by (cases "l = i"; cases "l = k") (auto simp: in_place_def qs_def)
  ultimately show "in_place ps \<subset> in_place qs" by (auto simp: in_place_def)
qed

lemma in_place_card: "card (in_place ps) \<le> length ps" "finite (in_place ps)"
proof -
  have "in_place ps \<subseteq> {..<length ps}" by (auto simp: in_place_def)
  then show "card (in_place ps) \<le> length ps" "finite (in_place ps)" using card_mono[of "{..<length ps}"] finite_subset by auto
qed

lemma swap_into_place_ok:
  assumes "indexed ps" "i < length ps" "length ps < card (in_place ps) + fuel"
  shows "\<exists>ps'. swap_into_place fuel i ps = Some (Inr ps') \<and> mset ps' = mset ps \<and> insert i (in_place ps) \<subseteq> in_place ps'"
  using assms
proof (induction fuel arbitrary: ps)
  case 0
  then show ?case using in_place_card(1)[of ps] by simp
next
  case (Suc fuel)
  show ?case
  proof (cases "sidx (ps ! i) = i")
    case True
    then show ?thesis using Suc.prems(2) by (auto simp: in_place_def)
  next
    case False
    define qs where "qs = ps[i := ps ! sidx (ps ! i), sidx (ps ! i) := ps ! i]"
    note st = swap_step[OF Suc.prems(1,2) False, folded qs_def]
    have "card (in_place ps) < card (in_place qs)" using st(3) in_place_card(2) psubset_card_mono by blast
    moreover have "length qs = length ps" by (simp add: qs_def)
    ultimately obtain ps' where "swap_into_place fuel i qs = Some (Inr ps')" "mset ps' = mset qs" "insert i (in_place qs) \<subseteq> in_place ps'"
      using Suc.IH[of qs] indexed_mset[OF st(2)[symmetric] Suc.prems(1)] Suc.prems(2,3) by auto
    then show ?thesis using st False by (auto simp: qs_def[symmetric])
  qed
qed

lemma swap_all_ok:
  assumes "indexed ps" "\<forall>i\<in>set is. i < length ps"
  shows "\<exists>ps'. swap_all is ps = Some (Inr ps') \<and> mset ps' = mset ps \<and> set is \<union> in_place ps \<subseteq> in_place ps'"
  using assms
proof (induction "is" arbitrary: ps)
  case (Cons i "is")
  obtain ps1 where 1: "swap_into_place (length ps + 1) i ps = Some (Inr ps1)" "mset ps1 = mset ps" "insert i (in_place ps) \<subseteq> in_place ps1"
    using swap_into_place_ok[of ps i "length ps + 1"] Cons.prems by auto
  have "indexed ps1" "\<forall>i\<in>set is. i < length ps1" using indexed_mset[OF 1(2)[symmetric]] mset_eq_length[OF 1(2)] Cons.prems by auto
  then obtain ps' where "swap_all is ps1 = Some (Inr ps')" "mset ps' = mset ps1" "set is \<union> in_place ps1 \<subseteq> in_place ps'"
    using Cons.IH by blast
  then show ?case using 1 by auto
qed auto

section \<open>The cyclic order\<close>

definition cycle_order :: "u64 list \<Rightarrow> nat list" where
  "cycle_order guids =
     sort_key (\<lambda>i. length (filter (\<lambda>j. guids ! j = guids ! i) [0..<i]) * length guids + i) [0..<length guids]"

lemma runs_rank:
  assumes "runs_from 0 gc (length ports)" "guids_of sys ports gc" "sorted_wrt (\<lambda>a b. gc_guid a < gc_guid b) gc"
    and k: "k < length gc" and p: "p \<in> positions (gc ! k)"
  shows "length (filter (\<lambda>j. map (port_guid sys) ports ! j = map (port_guid sys) ports ! p) [0..<p]) = p - gc_offset (gc ! k)"
proof -
  have pn: "p < length ports" using p runs_from_nth(2)[OF assms(1) k] by auto
  have g: "port_guid sys (ports ! i) = gc_guid (gc ! l)" if "l < length gc" "i \<in> positions (gc ! l)" for l i
    using assms(2) that nth_mem unfolding guids_of_def by blast
  have "j < p \<and> map (port_guid sys) ports ! j = map (port_guid sys) ports ! p \<longleftrightarrow> gc_offset (gc ! k) \<le> j \<and> j < p" for j
  proof (cases "j < p")
    case True
    then have "j \<in> left_over gc" using runs_from_positions[OF assms(1)] pn by simp
    then obtain l where l: "l < length gc" "j \<in> positions (gc ! l)" unfolding left_over_nth by auto
    have "port_guid sys (ports ! j) = port_guid sys (ports ! p) \<longleftrightarrow> l = k"
      using g[OF l] g[OF k p] assms(3) l(1) k by (metis less_irrefl linorder_neqE_nat sorted_wrt_nth_less)
    moreover have "l = k \<longleftrightarrow> gc_offset (gc ! k) \<le> j"
      using runs_from_nth(4)[OF assms(1) l(1), of k] runs_from_nth(4)[OF assms(1) k, of l] l p True k by (cases l k rule: linorder_cases) auto
    ultimately show ?thesis using True pn by simp
  qed simp
  then have "filter (\<lambda>j. map (port_guid sys) ports ! j = map (port_guid sys) ports ! p) [0..<p] = filter (\<lambda>j. gc_offset (gc ! k) \<le> j) [0..<p]"
    by (intro filter_cong) auto
  also have "length \<dots> = card {j. j < p \<and> gc_offset (gc ! k) \<le> j}" by (simp add: length_filter_conv_card conj_commute cong: conj_cong)
  also have "{j. j < p \<and> gc_offset (gc ! k) \<le> j} = {gc_offset (gc ! k)..<p}" by auto
  finally show ?thesis by simp
qed

abbreviation unmarked :: "SwitchportToNextGuid \<Rightarrow> SwitchportToNextGuid" where
  "unmarked p \<equiv> p\<lparr>spt_sortIndex := 0\<rparr>"

lemma runs_key:
  assumes "runs_from 0 gc (length ports)" "guids_of sys ports gc" "sorted_wrt (\<lambda>a b. gc_guid a < gc_guid b) gc"
  defines "guids \<equiv> map (port_guid sys) ports"
  shows "run_key gc (length ports) (\<lambda>i. length (filter (\<lambda>j. guids ! j = guids ! i) [0..<i]) * length guids + i)"
  unfolding run_key_def guids_def using runs_rank[OF assms(1-3)] by simp

lemma runs_gc_inv: "runs_from 0 gc n \<Longrightarrow> gc_inv gc n \<and> phase gc 0 0 gc"
proof
  assume r: "runs_from 0 gc n"
  have "runs_from i gc n \<Longrightarrow> i + (\<Sum>g\<leftarrow>gc. gc_count g) = n" for i by (induction gc arbitrary: i) (simp_all add: add.assoc[symmetric])
  then show "gc_inv gc n" using r runs_from_nth(4)[OF r] by (force simp: gc_inv_def)
qed (simp add: phase_def taken_def)

lemma picks_cycle_order:
  assumes "runs_from 0 gc (length ports)" "guids_of sys ports gc" "sorted_wrt (\<lambda>a b. gc_guid a < gc_guid b) gc" "gc \<noteq> []"
  shows "picks (length ports) 0 gc = cycle_order (map (port_guid sys) ports)"
proof -
  let ?key = "\<lambda>i. length (filter (\<lambda>j. map (port_guid sys) ports ! j = map (port_guid sys) ports ! i) [0..<i]) * length (map (port_guid sys) ports) + i"
  have inv: "gc_inv gc (length ports)" "phase gc 0 0 gc" using runs_gc_inv[OF assms(1)] by auto
  have s: "sorted_wrt (<) (map ?key (picks (length ports) 0 gc))"
    using picks_sorted[OF assms(1) runs_key[OF assms(1-3)] inv(2,1)] assms(4) by simp
  have p: "set (picks (length ports) 0 gc) = {0..<length ports}" "distinct (picks (length ports) 0 gc)"
    using picks_set[OF inv(1)] assms(4) runs_from_positions[OF assms(1)] by auto
  then have "mset [0..<length ports] = mset (picks (length ports) 0 gc)" by (intro set_eq_iff_mset_eq_distinct[THEN iffD1]) auto
  moreover have "distinct (map ?key (picks (length ports) 0 gc))" using s strict_sorted_iff by blast
  then have "inj_on ?key (set [0..<length ports])" using p by (simp add: distinct_map)
  moreover have "sorted (map ?key (picks (length ports) 0 gc))" using s strict_sorted_iff by blast
  ultimately show ?thesis unfolding cycle_order_def using sort_key_inj_key_eq[of "[0..<length ports]" "picks (length ports) 0 gc" ?key] by simp
qed

lemma runs_single: "runs_from i gc n \<Longrightarrow> i + length gc \<le> n \<and> (i + length gc = n \<longrightarrow> (\<forall>g\<in>set gc. gc_count g = 1))"
proof (induction gc arbitrary: i)
  case (Cons g gc)
  then have "i + gc_count g + length gc \<le> n" "i + gc_count g + length gc = n \<longrightarrow> (\<forall>g\<in>set gc. gc_count g = 1)" "0 < gc_count g"
    by auto
  then show ?case by auto
qed simp

text \<open>The early returns: arrays whose cyclic order is the order they have.\<close>

lemma cycle_order_same:
  assumes "\<And>i j. i < j \<Longrightarrow> j < length guids \<Longrightarrow> length (filter (\<lambda>l. guids ! l = guids ! i) [0..<i]) \<le> length (filter (\<lambda>l. guids ! l = guids ! j) [0..<j])"
  shows "cycle_order guids = [0..<length guids]"
  unfolding cycle_order_def
  by (rule sort_key_id_if_sorted) (auto simp: sorted_iff_nth_mono_less intro!: add_mono mult_le_mono1 assms)

lemma cycle_order_short: "length guids \<le> 2 \<Longrightarrow> cycle_order guids = [0..<length guids]"
proof (rule cycle_order_same)
  fix i j assume "length guids \<le> 2" "i < j" "j < length guids"
  then have "i = 0" by linarith
  then show "length (filter (\<lambda>l. guids ! l = guids ! i) [0..<i]) \<le> length (filter (\<lambda>l. guids ! l = guids ! j) [0..<j])" by simp
qed

lemma cycle_order_trivial:
  assumes "runs_from 0 gc (length ports)" "guids_of sys ports gc" "sorted_wrt (\<lambda>a b. gc_guid a < gc_guid b) gc"
    and "length gc \<le> 1 \<or> length gc = length ports"
  shows "cycle_order (map (port_guid sys) ports) = [0..<length ports]"
proof -
  have rank: "\<exists>k<length gc. i \<in> positions (gc ! k) \<and>
      length (filter (\<lambda>l. map (port_guid sys) ports ! l = map (port_guid sys) ports ! i) [0..<i]) = i - gc_offset (gc ! k)"
    if "i < length ports" for i
  proof -
    have "i \<in> left_over gc" using runs_from_positions[OF assms(1)] that by simp
    then obtain k where "k < length gc" "i \<in> positions (gc ! k)" unfolding left_over_nth by auto
    then show ?thesis using runs_rank[OF assms(1-3)] by blast
  qed
  have one: "gc_count (gc ! k) = 1" if "length gc = length ports" "k < length gc" for k
    using runs_single[OF assms(1)] that by simp
  have "cycle_order (map (port_guid sys) ports) = [0..<length (map (port_guid sys) ports)]"
  proof (rule cycle_order_same)
    fix i j assume ij: "i < j" "j < length (map (port_guid sys) ports)"
    obtain k where k: "k < length gc" "i \<in> positions (gc ! k)"
      "length (filter (\<lambda>l. map (port_guid sys) ports ! l = map (port_guid sys) ports ! i) [0..<i]) = i - gc_offset (gc ! k)"
      using rank[of i] ij by auto
    obtain l where l: "l < length gc" "j \<in> positions (gc ! l)"
      "length (filter (\<lambda>l. map (port_guid sys) ports ! l = map (port_guid sys) ports ! j) [0..<j]) = j - gc_offset (gc ! l)"
      using rank[of j] ij by auto
    have "i - gc_offset (gc ! k) \<le> j - gc_offset (gc ! l)" using assms(4)
    proof
      assume "length gc \<le> 1"
      then have "k = l" using k(1) l(1) by simp
      then show ?thesis using ij by simp
    next
      assume "length gc = length ports"
      then show ?thesis using one[OF _ k(1)] k(2) by auto
    qed
    then show "length (filter (\<lambda>l. map (port_guid sys) ports ! l = map (port_guid sys) ports ! i) [0..<i]) \<le>
      length (filter (\<lambda>l. map (port_guid sys) ports ! l = map (port_guid sys) ports ! j) [0..<j])" using k(3) l(3) by simp
  qed
  then show ?thesis by simp
qed

lemma marked_in_order:
  assumes "indexed ps2" "mset qs = mset ps2" "{..<length ps2} \<subseteq> in_place qs" "p < length ps2" "sidx (ps2 ! p) = t"
  shows "qs ! t = ps2 ! p"
proof -
  have "ps2 ! p \<in> set qs" using assms(2,4) nth_mem mset_eq_setD by metis
  then obtain u where u: "u < length qs" "qs ! u = ps2 ! p" by (metis in_set_conv_nth)
  then have "sidx (qs ! u) = u" using assms(3) mset_eq_length[OF assms(2)] by (auto simp: in_place_def)
  then show ?thesis using u assms(5) by simp
qed

lemma mark_and_swap:
  assumes r: "runs_from 0 gc (length ports)" and ne: "gc \<noteq> []" and len: "length ports < 65536"
  defines "pk \<equiv> picks (length ports) 0 gc"
  shows "\<exists>ps2 qs. mark_ports (length ports) 0 gc 0 (map unmarked ports) = Some ps2 \<and>
    swap_all [0..<length ports] ps2 = Some (Inr qs) \<and> map unmarked qs = map (\<lambda>i. unmarked (ports ! i)) pk"
proof -
  let ?n = "length ports" and ?p1 = "map unmarked ports"
  have inv: "gc_inv gc ?n" using runs_gc_inv[OF r] by simp
  have pk: "set pk = {..<?n}" "length pk = ?n" "distinct pk"
    using picks_set[OF inv, of 0] ne runs_from_positions[OF r] by (auto simp: pk_def)
  have lt: "pk ! t < ?n" if "t < ?n" for t using pk(1,2) that nth_mem by fastforce
  have sub: "left_over gc \<subseteq> {..<length ?p1}" using runs_from_positions[OF r] by auto
  obtain ps2 where m: "mark_ports ?n 0 gc 0 ?p1 = Some ps2" "length ps2 = ?n"
      "\<And>t. t < ?n \<Longrightarrow> ps2 ! (pk ! t) = (?p1 ! (pk ! t))\<lparr>spt_sortIndex := of_nat t\<rparr>"
    using mark_ports_picks[OF inv _ sub, of 0 0] ne unfolding pk_def by auto
  have ix: "sidx (ps2 ! (pk ! t)) = t" if "t < ?n" for t
    using m(3)[OF that] that len by (simp add: unat_of_nat take_bit_nat_eq_self)
  define xs where "xs = map ((!) ps2) pk"
  have "set pk = set [0..<?n]" using pk(1) by (simp add: lessThan_atLeast0)
  then have "mset pk = mset [0..<?n]" using set_eq_iff_mset_eq_distinct[OF pk(3) distinct_upt] by blast
  then have "mset xs = mset (map ((!) ps2) [0..<?n])" unfolding xs_def by (metis mset_map)
  then have ms: "mset xs = mset ps2" using m(2) by (metis map_nth)
  have "map sidx xs = [0..<?n]" by (rule nth_equalityI) (use pk(2) ix in \<open>simp_all add: xs_def\<close>)
  then have "indexed xs" unfolding indexed_def using pk(2) by (metis distinct_upt lessThan_atLeast0 length_map set_upt xs_def)
  then have ind: "indexed ps2" by (rule indexed_mset[OF ms])
  obtain qs where q: "swap_all [0..<?n] ps2 = Some (Inr qs)" "mset qs = mset ps2" "set [0..<?n] \<subseteq> in_place qs"
    using swap_all_ok[OF ind, of "[0..<?n]"] m(2) by auto
  have qn: "qs ! t = ps2 ! (pk ! t)" if "t < ?n" for t
    using marked_in_order[OF ind q(2) _ _ ix[OF that]] q(3) m(2) lt[OF that] by (auto simp: subset_iff)
  have "map unmarked qs = map (\<lambda>i. unmarked (ports ! i)) pk"
  proof (rule nth_equalityI)
    show l: "length (map unmarked qs) = length (map (\<lambda>i. unmarked (ports ! i)) pk)" using mset_eq_length[OF q(2)] m(2) pk(2) by simp
    fix t assume "t < length (map unmarked qs)"
    then have "t < ?n" "t < length qs" "t < length pk" using l pk(2) by simp_all
    then show "map unmarked qs ! t = map (\<lambda>i. unmarked (ports ! i)) pk ! t" using qn m(3) lt by simp
  qed
  then show ?thesis using m(1) q(1) by blast
qed

lemma guid_cycle_sort_cycles:
  assumes "sorted (map (port_guid sys) ports)" "ports \<noteq> [] \<Longrightarrow> port_guid sys (hd ports) \<noteq> 0" "length ports < 65536"
  shows "\<exists>qs. guid_cycle_sort sys ports = Some (Inr qs) \<and>
    map unmarked qs = map (\<lambda>i. unmarked (ports ! i)) (cycle_order (map (port_guid sys) ports))"
proof (cases "length ports \<le> 2")
  case True
  have "map (\<lambda>i. unmarked (ports ! i)) [0..<length ports] = map unmarked ports" by (rule nth_equalityI) auto
  then show ?thesis using True cycle_order_short[of "map (port_guid sys) ports"] by (simp add: guid_cycle_sort_def)
next
  case False
  then have ne: "ports \<noteq> []" by auto
  have "runs_from 0 [] (0 :: nat)" "guids_of sys ports []" by (simp_all add: guids_of_def)
  then obtain gc where gc: "collect_guids sys ports 0 0 [] = Inr gc"
    and r: "runs_from 0 gc (length ports)" "guids_of sys ports gc" "sorted_wrt (\<lambda>a b. gc_guid a < gc_guid b) gc"
    using collect_guids_runs[of 0 ports ports "[]" sys 0] assms(1,2) ne by auto
  have gne: "gc \<noteq> []" using r(1) False by auto
  let ?p1 = "map unmarked ports"
  show ?thesis
  proof (cases "length gc \<le> 1 \<or> length gc = length ports")
    case True
    have "map (\<lambda>i. unmarked (ports ! i)) [0..<length ports] = map unmarked ?p1" by (rule nth_equalityI) auto
    then show ?thesis using True False gc cycle_order_trivial[OF r True] by (simp add: guid_cycle_sort_def Let_def)
  next
    case trivial: False
    show ?thesis using mark_and_swap[OF r(1) gne assms(3)] gc trivial False picks_cycle_order[OF r gne] by (auto simp: guid_cycle_sort_def Let_def)
  qed
qed

section \<open>Balancing\<close>

text \<open>
  \<open>qsort\<close> is an argument: the C standard fixes neither its algorithm nor the order of elements that
  compare as equal.
\<close>

type_synonym qsort_fun =
  "(SwitchportToNextGuid \<Rightarrow> SwitchportToNextGuid \<Rightarrow> int) \<Rightarrow> SwitchportToNextGuid list \<Rightarrow> SwitchportToNextGuid list"

text \<open>The loop that sorts each stretch of ascending guids by load, at index \<open>i\<close>, with the stretch begun at \<open>j\<close>.\<close>

fun sort_stretches :: "qsort_fun \<Rightarrow> nat list \<Rightarrow> nat \<Rightarrow> SwitchportToNextGuid list \<Rightarrow> SwitchportToNextGuid list" where
  "sort_stretches qsort [] j ps = ps"
| "sort_stretches qsort (i # is) j ps =
     (if i = length ps - 1 \<or> spt_guid (ps ! i) > spt_guid (ps ! (i + 1))
      then sort_stretches qsort is (i + 1)
             (take j ps @ qsort compare_lids_routed_then_guids (take (i - j + 1) (drop j ps)) @ drop (i + 1) ps)
      else sort_stretches qsort is j ps)"

definition balance_ports :: "qsort_fun \<Rightarrow> bool \<Rightarrow> SwitchportToNextGuid list \<Rightarrow> SwitchportToNextGuid list c_result option" where
  "balance_ports qsort internalLinks ports =
     (if ports = [] then Some (Inr ports)
      else if internalLinks then Some (Inr (qsort compare_lids_routed ports))
      else case guid_cycle_sort False (qsort compare_guids_then_lids_routed ports) of
             None \<Rightarrow> None
           | Some (Inl e) \<Rightarrow> Some (Inl e)
           | Some (Inr ps) \<Rightarrow> Some (Inr (sort_stretches qsort [0..<length ps] 0 ps)))"

text \<open>What the standard promises of \<open>qsort\<close>: a rearrangement, in order for a consistent comparison.\<close>

definition qsort_ok :: "qsort_fun \<Rightarrow> bool" where
  "qsort_ok qsort \<longleftrightarrow> (\<forall>cmp xs. mset (qsort cmp xs) = mset xs \<and>
     ((\<forall>x y z. (cmp x y \<le> 0 \<or> cmp y x \<le> 0) \<and> (cmp x y \<le> 0 \<and> cmp y z \<le> 0 \<longrightarrow> cmp x z \<le> 0)) \<longrightarrow>
       sorted_wrt (\<lambda>x y. cmp x y \<le> 0) (qsort cmp xs)))"

lemma qsort_okD:
  assumes "qsort_ok qsort"
  shows "mset (qsort cmp xs) = mset xs"
    "(\<And>x y z. (cmp x y \<le> 0 \<or> cmp y x \<le> 0) \<and> (cmp x y \<le> 0 \<and> cmp y z \<le> 0 \<longrightarrow> cmp x z \<le> 0)) \<Longrightarrow>
      sorted_wrt (\<lambda>x y. cmp x y \<le> 0) (qsort cmp xs)"
  using assms unfolding qsort_ok_def by blast+

lemma cmp3_le: "cmp3 x y r \<le> 0 \<longleftrightarrow> x < y \<or> x = y \<and> r \<le> 0"
  by (auto simp: cmp3_def)

lemma qsort_by_guid:
  assumes "qsort_ok qsort"
  shows "sorted (map (port_guid False) (qsort compare_guids_then_lids_routed ps))"
proof -
  have "sorted_wrt (\<lambda>x y. compare_guids_then_lids_routed x y \<le> 0) (qsort compare_guids_then_lids_routed ps)"
    by (rule qsort_okD(2)[OF assms]) (auto simp: compare_guids_then_lids_routed_def cmp_lids_def cmp3_le)
  then have "sorted_wrt (\<lambda>x y. port_guid False x \<le> port_guid False y) (qsort compare_guids_then_lids_routed ps)"
    by (rule sorted_wrt_mono_rel[rotated]) (auto simp: compare_guids_then_lids_routed_def cmp3_le port_guid_def)
  then show ?thesis by (simp add: sorted_wrt_map)
qed

lemma sort_stretches_mset:
  assumes "qsort_ok qsort" "j \<le> length ps" "sorted_wrt (<) is" "\<forall>i\<in>set is. j \<le> i \<and> i < length ps"
  shows "mset (sort_stretches qsort is j ps) = mset ps"
  using assms(2-)
proof (induction "is" arbitrary: j ps)
  case (Cons i "is")
  let ?ps = "take j ps @ qsort compare_lids_routed_then_guids (take (i - j + 1) (drop j ps)) @ drop (i + 1) ps"
  have "ps = take j ps @ take (i - j + 1) (drop j ps) @ drop (i - j + 1) (drop j ps)" by (metis append_take_drop_id)
  moreover have "drop (i - j + 1) (drop j ps) = drop (i + 1) ps" using Cons.prems by (simp add: add.commute)
  ultimately have "mset ps = mset (take j ps) + (mset (take (i - j + 1) (drop j ps)) + mset (drop (i + 1) ps))" by (metis mset_append)
  then have m: "mset ?ps = mset ps" using qsort_okD(1)[OF assms(1)] by simp
  have l: "length ?ps = length ps" using mset_eq_length[OF m] .
  have "\<forall>k\<in>set is. i + 1 \<le> k \<and> k < length ?ps" using Cons.prems(2,3) l by auto
  then have "mset (sort_stretches qsort is (i + 1) ?ps) = mset ?ps" using Cons.IH[of "i + 1" ?ps] Cons.prems l by simp
  moreover have "mset (sort_stretches qsort is j ps) = mset ps" using Cons.IH[of j ps] Cons.prems by auto
  ultimately show ?case using m by simp
qed simp

text \<open>Balancing neither loses nor repeats a port, and ends.\<close>

lemma balance_ports_ok:
  assumes "qsort_ok qsort" "\<forall>p\<in>set ports. spt_guid p \<noteq> 0" "length ports < 65536"
  shows "\<exists>qs. balance_ports qsort il ports = Some (Inr qs) \<and> mset (map unmarked qs) = mset (map unmarked ports)"
proof (cases "ports = [] \<or> il")
  case True
  then show ?thesis using qsort_okD(1)[OF assms(1)] by (auto simp: balance_ports_def)
next
  case False
  let ?s = "qsort compare_guids_then_lids_routed ports"
  have m: "mset ?s = mset ports" using qsort_okD(1)[OF assms(1)] .
  have ne: "?s \<noteq> []" using m False by (metis mset_zero_iff)
  have "hd ?s \<in> set ports" using ne m hd_in_set mset_eq_setD by metis
  then have "port_guid False (hd ?s) \<noteq> 0" using assms(2) by (simp add: port_guid_def)
  then obtain ps where ps: "guid_cycle_sort False ?s = Some (Inr ps)" "map unmarked ps = map (\<lambda>i. unmarked (?s ! i)) (cycle_order (map (port_guid False) ?s))"
    using guid_cycle_sort_cycles[OF qsort_by_guid[OF assms(1)]] mset_eq_length[OF m] assms(3) by metis
  have "mset (cycle_order (map (port_guid False) ?s)) = mset [0..<length ?s]" by (simp add: cycle_order_def)
  then have "mset (map unmarked ps) = mset (map (\<lambda>i. unmarked (?s ! i)) [0..<length ?s])" unfolding ps(2) by (metis mset_map)
  also have "map (\<lambda>i. unmarked (?s ! i)) [0..<length ?s] = map unmarked ?s" by (rule nth_equalityI) simp_all
  finally have "mset (map unmarked ps) = mset (map unmarked ports)" using m by (metis mset_map)
  moreover have "mset (sort_stretches qsort [0..<length ps] 0 ps) = mset ps" by (rule sort_stretches_mset[OF assms(1)]) auto
  ultimately have "mset (map unmarked (sort_stretches qsort [0..<length ps] 0 ps)) = mset (map unmarked ports)" by (metis mset_map)
  then show ?thesis using False ps(1) by (auto simp: balance_ports_def)
qed

section \<open>Properties\<close>

definition ex_entry :: "u64 \<Rightarrow> SwitchportToNextGuid" where
  "ex_entry g = entry_of (the (ex_get_port 1)) (ex_next 1 g)"

text \<open>
  C28. The cyclic sort returns, for every array sorted by guid whose guids are not 0, and its result is
  the array in cyclic order: every port at its rank among the ports of the same guid, ports of equal
  rank in the order they had. So the first port of each guid comes before the second of any.
\<close>

theorem guid_cycle_sort_round_robin:
  assumes "sorted (map (port_guid sys) ports)" and "ports \<noteq> [] \<Longrightarrow> port_guid sys (hd ports) \<noteq> 0" and "length ports < 65536"
  shows "\<exists>qs. guid_cycle_sort sys ports = Some (Inr qs) \<and>
    map unmarked qs = map (\<lambda>i. unmarked (ports ! i)) (cycle_order (map (port_guid sys) ports))"
  by (rule guid_cycle_sort_cycles[OF assms])

theorem guid_cycle_sort_round_robin_witness:
  "\<exists>qs. guid_cycle_sort False (map ex_entry [1, 1, 2, 2, 2, 3, 3, 3]) = Some (Inr qs) \<and>
     map spt_guid qs = [1, 2, 3, 1, 2, 3, 2, 3]"
proof -
  let ?ps = "map ex_entry [1, 1, 2, 2, 2, 3, 3, 3]"
  have g: "map (port_guid False) ?ps = [1, 1, 2, 2, 2, 3, 3, 3]" by (simp add: port_guid_def ex_entry_def entry_of_def ex_next_def)
  have o: "cycle_order [1, 1, 2, 2, 2, 3, 3, 3] = [0, 2, 5, 1, 3, 6, 4, 7]" by code_simp
  have "sorted [1, 1, 2, 2, 2, 3, 3, 3 :: u64]" by code_simp
  then obtain qs where q: "guid_cycle_sort False ?ps = Some (Inr qs)" "map unmarked qs = map (\<lambda>i. unmarked (?ps ! i)) [0, 2, 5, 1, 3, 6, 4, 7]"
    using guid_cycle_sort_round_robin[of False ?ps] unfolding g o by (auto simp: port_guid_def ex_entry_def entry_of_def ex_next_def)
  have "map spt_guid qs = map spt_guid (map unmarked qs)" by simp
  then show ?thesis using q by (auto simp: ex_entry_def entry_of_def ex_next_def)
qed

end
