(* ===== verification/SmRouteState.thy ===== *)
theory SmRouteState
  imports SmGuidCycle
begin

text \<open>
  The state that the calculation of forwarding tables works on. What a sweep has found is a
  \<open>route_env\<close>: switches by their index, their ports and what the ports lead to, the path matrix, the
  settings read. What the calculation changes is a \<open>route_state\<close>: the counters of LIDs routed through
  ports and switches, the forwarding tables and the port groups. The counters of nodes are indexed by
  their GUID. A port as \<open>sm_routing_func_select_ports\<close> sees it combines both.
\<close>

section \<open>What the sweep has found\<close>

record rt_switch =
  sw_self :: sw_node
  internalLinks :: bool
  edgeSwitch :: bool
  LinearFDBCap :: nat
  LinearFDBTop :: nat
  arSupport :: bool
  IsAdaptiveRoutingSupported :: bool
  PortGroupCap :: u8
  PortGroupFDBCap :: nat

text \<open>
  A physical port of a switch as the port groups see it; \<open>ep_end\<close> is the valid port behind it, with
  the node's type, LID and LMC.
\<close>

record edge_port =
  ep_valid :: bool
  ep_state :: u8
  ep_end :: "(bool \<times> nat \<times> nat) option"

record route_env =
  max_sws :: nat
  paths :: "nat \<Rightarrow> u64"
  sw_port_at :: "nat \<Rightarrow> nat \<Rightarrow> out_port option"
  edge_ports :: "nat \<Rightarrow> edge_port list"
  re_qsort :: qsort_fun
  spine_first_routing :: bool
  ar_enable :: bool

text \<open>
  A node and one of its end ports: whether the node is a switch, its own switch index, the switch
  index of the node the port is connected to (if that node is found), and of the port the other
  end's number, the LID and the LMC.
\<close>

record end_port =
  d_is_switch :: bool
  d_swIdx :: nat
  d_neighbor :: "nat option"
  d_portno :: u8
  d_lid :: nat
  d_lmc :: nat

section \<open>What the calculation changes\<close>

record port_groups =
  pgt :: "u64 list option"
  pgtLen :: u8
  PortGroupTop :: u8
  arChange :: bool
  pgft :: "u8 list option"

record route_state =
  lidsRouted :: "nat \<Rightarrow> nat \<Rightarrow> u16"
  baseLidsRouted :: "nat \<Rightarrow> nat \<Rightarrow> u16"
  nodeLidsRouted :: "u64 \<Rightarrow> u16"
  nodeBaseLidsRouted :: "u64 \<Rightarrow> u16"
  lft :: "nat \<Rightarrow> u8 list option"
  groups_of :: "nat \<Rightarrow> port_groups"

definition live_node :: "route_state \<Rightarrow> sw_node \<Rightarrow> sw_node" where
  "live_node st nd = nd\<lparr>numLidsRouted := nodeLidsRouted st (NodeGUID nd)\<rparr>"

definition live_port :: "route_env \<Rightarrow> route_state \<Rightarrow> nat \<Rightarrow> nat \<Rightarrow> out_port option" where
  "live_port env st sw p =
     map_option (\<lambda>portp. portp\<lparr>op_lidsRouted := lidsRouted st sw (op_index portp), op_next := map_option (live_node st) (op_next portp)\<rparr>)
       (sw_port_at env sw p)"

definition sm_routing_func_do_spine_check :: "route_env \<Rightarrow> rt_switch \<Rightarrow> bool" where
  "sm_routing_func_do_spine_check env switchp \<longleftrightarrow> spine_first_routing env \<and> internalLinks switchp"

text \<open>The call of the routing module's port selection, for the default module.\<close>

definition select_ports :: "route_env \<Rightarrow> route_state \<Rightarrow> rt_switch \<Rightarrow> nat \<Rightarrow> bool \<Rightarrow> SwitchportToNextGuid list" where
  "select_ports env st switchp j selectBest =
     (let i = swIdx (sw_self switchp) in
      sm_routing_func_select_ports (sm_routing_func_do_spine_check env switchp) selectBest (sw_self switchp)
        (live_port env st i) (paths env (Index (max_sws env) i j)))"

text \<open>The LIDs of a port: \<open>for_all_port_lids\<close>.\<close>

definition port_lids :: "nat \<Rightarrow> nat \<Rightarrow> nat list" where
  "port_lids lid lmc = [lid..<lid + 2 ^ lmc]"

definition ROUNDUP :: "nat \<Rightarrow> nat \<Rightarrow> nat" where
  "ROUNDUP val align = (val + align - 1) div align * align"

section \<open>Selected ports\<close>

text \<open>Whatever the settings, a selected port is a usable port of the path mask that leads to another node.\<close>

definition good_entry :: "(nat \<Rightarrow> out_port option) \<Rightarrow> nat \<Rightarrow> u64 \<Rightarrow> SwitchportToNextGuid \<Rightarrow> bool" where
  "good_entry get_port i ports e \<longleftrightarrow> (\<exists>p portp nd. in_mask p ports \<and> get_port p = Some portp \<and> op_valid portp \<and> op_state portp > 1 \<and>
     op_next portp = Some nd \<and> swIdx nd \<noteq> i \<and> e = entry_of portp nd)"

lemma consider_port_entries:
  "set (ordered_ports (consider_port sb portp nd st)) \<subseteq> insert (entry_of portp nd) (set (ordered_ports st))"
  by (auto simp: consider_port_def record_best_def Let_def)

lemma select_port_entries:
  assumes "in_mask p ports" "\<forall>e\<in>set (ordered_ports st). good_entry get_port i ports e"
  shows "\<forall>e\<in>set (ordered_ports (select_port sc sb g i (get_port p) st)). good_entry get_port i ports e"
proof (cases "\<exists>portp nd. get_port p = Some portp \<and> op_valid portp \<and> op_state portp > 1 \<and> op_next portp = Some nd \<and> i \<noteq> swIdx nd")
  case True
  then obtain portp nd where p: "get_port p = Some portp" "op_valid portp" "op_state portp > 1" "op_next portp = Some nd" "swIdx nd \<noteq> i"
    by auto
  then have g: "good_entry get_port i ports (entry_of portp nd)" using assms(1) by (auto simp: good_entry_def)
  have c: "set (ordered_ports (consider_port sb portp nd (st\<lparr>sf_matching := mt\<rparr>))) \<subseteq> insert (entry_of portp nd) (set (ordered_ports st))" for mt
    using consider_port_entries[of sb portp nd "st\<lparr>sf_matching := mt\<rparr>"] by simp
  obtain r mt where t: "spine_first_test (sf_matching st) g portp nd = (r, mt)" by force
  have d: "\<not> op_state portp \<le> 1" using p(3) by (simp add: not_le)
  have "set (ordered_ports (select_port sc sb g i (get_port p) st)) \<subseteq> insert (entry_of portp nd) (set (ordered_ports st))"
    using c[of mt] consider_port_entries[of sb portp nd st] p(5)[symmetric] d by (cases r) (auto simp: select_port_def p(1,2,4) t)
  then show ?thesis using g assms(2) by blast
next
  case False
  then have "select_port sc sb g i (get_port p) st = st" for g by (auto simp: select_port_def not_le split: option.splits)
  then show ?thesis using assms(2) by simp
qed

lemma fold_select_entries:
  assumes "\<forall>p\<in>set ps. in_mask p ports" "\<forall>e\<in>set (ordered_ports st). good_entry get_port i ports e"
  shows "\<forall>e\<in>set (ordered_ports (fold (\<lambda>p. select_port sc sb g i (get_port p)) ps st)). good_entry get_port i ports e"
  using assms
proof (induction ps arbitrary: st)
  case (Cons p ps)
  have "\<forall>e\<in>set (ordered_ports (select_port sc sb g i (get_port p) st)). good_entry get_port i ports e"
    using select_port_entries[of p ports st get_port i sc sb g] Cons.prems by simp
  then show ?case using Cons.IH Cons.prems(1) by simp
qed simp

lemma select_ports_good:
  "\<forall>e\<in>set (sm_routing_func_select_ports sc sb switchp get_port ports). good_entry get_port (swIdx switchp) ports e"
  unfolding sm_routing_func_select_ports_def select_loop_fold[OF mask_ports_length]
  by (rule fold_select_entries) (simp_all add: set_mask_ports)

end
