(* ===== verification/SmPortGroups.thy ===== *)
theory SmPortGroups
  imports SmRouteState
begin

text \<open>
  Port groups of adaptive routing: the table of groups of a switch (PGT), the table that maps a LID
  to a group (PGFT), how \<^verbatim>\<open>sm_routing_func_setup_pgs\<close> fills them from the selected ports and how
  \<^verbatim>\<open>sm_Node_prune_portgroups\<close> reduces the groups (\<^verbatim>\<open>sm_routing_funcs.c\<close>, \<^verbatim>\<open>sm_routing.c\<close>,
  \<^verbatim>\<open>sm_utility.c\<close>). The PGT is an array of \<^verbatim>\<open>PortGroupCap\<close> masks of which \<^verbatim>\<open>pgtLen\<close> are used, with
  port \<open>p\<close> at bit \<open>p - 1\<close>.
\<close>

section \<open>Tables\<close>

text \<open>The result code, the index, the new length and the table.\<close>

definition sm_Push_Port_Group :: "u64 list \<Rightarrow> u64 \<Rightarrow> u8 \<Rightarrow> u8 \<Rightarrow> int \<times> u8 \<times> u8 \<times> u64 list" where
  "sm_Push_Port_Group pgp new_pg len cap =
     (let i = (case List.find (\<lambda>i. new_pg = pgp ! i) [0..<unat len] of Some i \<Rightarrow> i | None \<Rightarrow> unat len) in
      if i = unat len
      then if len < cap then (1, of_nat i, of_nat (i + 1), pgp[i := new_pg]) else (-1, of_nat i, len, pgp)
      else (0, of_nat i, len, pgp))"

definition sm_Node_compute_pgft_size :: "rt_switch \<Rightarrow> nat" where
  "sm_Node_compute_pgft_size sw =
     (let pgftCap = (if PortGroupFDBCap sw \<noteq> 0 then PortGroupFDBCap sw else 0x80 * 0x40)
      in ROUNDUP (if LinearFDBTop sw < pgftCap then LinearFDBTop sw + 1 else pgftCap) 0x40)"

text \<open>The table to write to, \<open>None\<close> for \<^verbatim>\<open>NULL\<close>: allocated, or extended to the size the switch needs now.\<close>

definition sm_Node_get_pgft_wr :: "(nat \<Rightarrow> bool) \<Rightarrow> rt_switch \<Rightarrow> port_groups \<Rightarrow> u8 list option \<times> port_groups" where
  "sm_Node_get_pgft_wr alloc sw pg =
     (let pgftLen = sm_Node_compute_pgft_size sw in
      if \<not> IsAdaptiveRoutingSupported sw then (None, pg)
      else case pgft pg of
             None \<Rightarrow> if alloc pgftLen then (Some (replicate pgftLen 0xff), pg\<lparr>pgft := Some (replicate pgftLen 0xff)\<rparr>) else (None, pg)
           | Some t \<Rightarrow>
               if length t < pgftLen
               then if alloc pgftLen then (Some (t @ replicate (pgftLen - length t) 0xff), pg\<lparr>pgft := Some (t @ replicate (pgftLen - length t) 0xff)\<rparr>)
                    else (None, pg)
               else (Some t, pg))"

text \<open>The copy reads as many entries of the source as the destination has, which may be more than the source has.\<close>

definition sm_Node_copy_pgft :: "(nat \<Rightarrow> bool) \<Rightarrow> port_groups \<Rightarrow> port_groups \<Rightarrow> port_groups c_result" where
  "sm_Node_copy_pgft alloc dest src =
     (case pgft src of
        None \<Rightarrow> Inr dest
      | Some s \<Rightarrow>
          (case (case pgft dest of Some d \<Rightarrow> if length d < length s then None else Some d | None \<Rightarrow> None) of
             None \<Rightarrow> if alloc (length s) then Inr (dest\<lparr>pgft := Some s\<rparr>) else Inr (dest\<lparr>pgft := None\<rparr>)
           | Some d \<Rightarrow> if length s < length d then Inl OutOfBounds else Inr (dest\<lparr>pgft := Some s\<rparr>)))"

definition sm_Node_invalidate_pgs :: "port_groups \<Rightarrow> port_groups c_result" where
  "sm_Node_invalidate_pgs pg =
     (let clear_pgft = (\<lambda>pg. pg\<lparr>pgft := map_option (\<lambda>t. replicate (length t) 0xff) (pgft pg)\<rparr>) in
      case pgt pg of
        None \<Rightarrow> Inr (clear_pgft pg)
      | Some t \<Rightarrow>
          if unat (PortGroupTop pg) > length t then Inl OutOfBounds
          else Inr (clear_pgft (pg\<lparr>pgt := Some (replicate (unat (PortGroupTop pg)) 0 @ drop (unat (PortGroupTop pg)) t),
                                   PortGroupTop := 0, pgtLen := 0\<rparr>)))"

section \<open>Filling the tables\<close>

definition group_mask :: "SwitchportToNextGuid list \<Rightarrow> u64" where
  "group_mask sel =
     fold (\<lambda>e m. if op_index (spt_portp e) = 0 \<or> op_index (spt_portp e) > 64 then m
                 else m OR push_bit (op_index (spt_portp e) - 1) 1) sel 0"

definition write_pgid :: "u8 \<Rightarrow> nat \<Rightarrow> port_groups \<Rightarrow> port_groups" where
  "write_pgid pgid lid pg =
     (case pgft pg of
        None \<Rightarrow> pg
      | Some t \<Rightarrow> if lid < length t then pg\<lparr>arChange := arChange pg \<or> t ! lid \<noteq> pgid, pgft := Some (t[lid := pgid])\<rparr> else pg)"

definition edge_lids :: "edge_port list \<Rightarrow> nat list" where
  "edge_lids eps = concat (map (\<lambda>ep. case ep_end ep of
       Some (True, lid, lmc) \<Rightarrow> if ep_valid ep \<and> ep_state ep > 1 then port_lids lid lmc else []
     | _ \<Rightarrow> []) eps)"

text \<open>
  \<open>sm_routing_func_setup_pgs\<close> for a source switch and a destination node with its port 0. The caller's
  nodes exist and the source is a switch, so these two tests are left out.
\<close>

definition sm_routing_func_setup_pgs ::
  "(nat \<Rightarrow> bool) \<Rightarrow> route_env \<Rightarrow> rt_switch \<Rightarrow> end_port \<Rightarrow> bool \<Rightarrow> route_state \<Rightarrow> (Status_t \<times> route_state) c_result" where
  "sm_routing_func_setup_pgs alloc env srcSw dst port0_valid st =
     (let i = swIdx (sw_self srcSw); pg = groups_of st i; put = (\<lambda>pg. st\<lparr>groups_of := (groups_of st)(i := pg)\<rparr>) in
      if \<not> d_is_switch dst \<or> i = d_swIdx dst \<or> \<not> ar_enable env \<or> \<not> arSupport srcSw then Inr (VSTATUS_OK, st)
      else if \<not> port0_valid then Inr (VSTATUS_BAD, st)
      else let sel = select_ports env st srcSw (d_swIdx dst) False in
        if length sel \<le> 1 then Inr (VSTATUS_OK, put (pg\<lparr>PortGroupTop := 0\<rparr>))
        else case pgt pg of
               None \<Rightarrow> if pgtLen pg = 0 \<and> PortGroupCap srcSw = 0 then Inr (VSTATUS_OK, st) else Inl NullDeref
             | Some t \<Rightarrow>
                 if \<not> unat (pgtLen pg) \<le> length t then Inl OutOfBounds
                 else (case sm_Push_Port_Group t (group_mask sel) (pgtLen pg) (PortGroupCap srcSw) of
                   (rc, pgid, len, t') \<Rightarrow>
                     if rc < 0 then Inr (VSTATUS_OK, st)
                     else let pg1 = pg\<lparr>pgt := Some t', pgtLen := len, arChange := arChange pg \<or> rc > 0, PortGroupTop := len\<rparr>
                          in case sm_Node_get_pgft_wr alloc srcSw pg1 of
                               (None, pg2) \<Rightarrow> Inr (VSTATUS_BAD, put pg2)
                             | (Some _, pg2) \<Rightarrow>
                                 Inr (VSTATUS_OK, put (fold (write_pgid pgid)
                                   (port_lids (d_lid dst) (d_lmc dst) @ edge_lids (edge_ports env (d_swIdx dst))) pg2))))"

section \<open>Pruning\<close>

record pg_port =
  pp_valid :: bool
  pp_state :: u8
  pp_rate :: u8
  pp_index :: nat

definition linkrate_to_ordinal :: "u8 \<Rightarrow> nat" where
  "linkrate_to_ordinal rate =
     (if rate = 2 then 25 else if rate = 5 then 50 else if rate = 3 then 100 else if rate = 11 then 125
      else if rate = 6 then 200 else if rate = 15 then 250 else if rate = 4 then 300 else if rate = 7 then 375
      else if rate = 12 then 500 else if rate = 8 then 600 else if rate = 9 then 750 else if rate = 16 then 1040
      else if rate = 13 then 1120 else if rate = 10 then 1200 else if rate = 14 then 1680 else if rate = 17 then 2080
      else if rate = 18 then 3120 else 25)"

definition usable :: "pg_port \<Rightarrow> bool" where
  "usable p \<longleftrightarrow> pp_valid p \<and> pp_state p \<ge> 2"

text \<open>The port at hand joins the new mask if no port before it was faster.\<close>

definition consider_rate :: "pg_port \<Rightarrow> u8 \<times> u64 \<Rightarrow> u8 \<times> u64" where
  "consider_rate p a =
     (let bt = push_bit ((pp_index p - 1) mod 64) 1 in
      if linkrate_to_ordinal (pp_rate p) \<ge> linkrate_to_ordinal (fst a)
      then if linkrate_to_ordinal (pp_rate p) > linkrate_to_ordinal (fst a) then (pp_rate p, bt) else (fst a, snd a OR bt)
      else a)"

text \<open>
  The loop over the bits of a mask. It has no bound: on a port that is not usable the code does
  \<open>continue\<close> without moving on. \<open>None\<close> is a loop that does not end.
\<close>

partial_function (option) prune_loop :: "pg_port list \<Rightarrow> u64 \<Rightarrow> u8 \<Rightarrow> u8 \<times> u64 \<Rightarrow> u64 c_result option" where
  "prune_loop ports pm portIdx a =
     (if pm = 0 then Some (Inr (snd a))
      else if pm AND 1 = 0 then prune_loop ports (drop_bit 1 pm) (portIdx + 1) a
      else if \<not> unat portIdx < length ports then Some (Inl OutOfBounds)
      else if \<not> usable (ports ! unat portIdx) then prune_loop ports pm portIdx a
      else prune_loop ports (drop_bit 1 pm) (portIdx + 1) (consider_rate (ports ! unat portIdx) a))"

fun prune_groups :: "pg_port list \<Rightarrow> nat list \<Rightarrow> port_groups \<Rightarrow> u64 list \<Rightarrow> port_groups c_result option" where
  "prune_groups ports [] pg t = Some (Inr (pg\<lparr>pgt := Some t\<rparr>))"
| "prune_groups ports (i # is) pg t =
     (if \<not> i < length t then Some (Inl OutOfBounds)
      else case prune_loop ports (t ! i) (of_nat (i div 64 * 64) + 1) (0, 0) of
             None \<Rightarrow> None
           | Some (Inl e) \<Rightarrow> Some (Inl e)
           | Some (Inr newPm) \<Rightarrow>
               if newPm \<noteq> t ! i then prune_groups ports is (pg\<lparr>arChange := True\<rparr>) (t[i := newPm]) else prune_groups ports is pg t)"

definition sm_Node_prune_portgroups :: "pg_port list \<Rightarrow> port_groups \<Rightarrow> (Status_t \<times> port_groups) c_result option" where
  "sm_Node_prune_portgroups ports pg =
     (case pgt pg of
        None \<Rightarrow> Some (Inr (VSTATUS_OK, pg))
      | Some t \<Rightarrow> map_option (map_sum id (Pair VSTATUS_OK)) (prune_groups ports [0..<unat (PortGroupTop pg)] pg t))"

section \<open>Which masks the pruning can handle\<close>

abbreviation port_of_bit :: "pg_port list \<Rightarrow> u8 \<Rightarrow> nat \<Rightarrow> pg_port" where
  "port_of_bit ports idx b \<equiv> ports ! unat (idx + of_nat b)"

lemma bit_drop1: "bit (drop_bit (Suc 0) w) b \<longleftrightarrow> bit w (Suc b)" for w :: u64
  by (simp add: bit_drop_bit_eq)

lemma and1_bit: "w AND 1 = 0 \<longleftrightarrow> \<not> bit w 0" for w :: u64
  by (simp add: and_one_eq odd_iff_mod_2_eq_one bit_0 even_iff_mod_2_eq_zero)

text \<open>If the loop returns a mask, every port of the mask was usable.\<close>

lemma prune_loop_returns:
  assumes "prune_loop ports pm idx a = Some r"
  shows "case r of Inr m \<Rightarrow> \<forall>b. bit pm b \<longrightarrow> unat (idx + of_nat b) < length ports \<and> usable (port_of_bit ports idx b)
    | Inl e \<Rightarrow> \<exists>b. bit pm b \<and> \<not> unat (idx + of_nat b) < length ports"
proof (rule prune_loop.raw_induct[OF _ assms])
  fix loop :: "pg_port list \<Rightarrow> u64 \<Rightarrow> u8 \<Rightarrow> u8 \<times> u64 \<Rightarrow> u64 c_result option" and ports pm idx a r
  let ?P = "\<lambda>(ports :: pg_port list) (pm :: u64) (idx :: u8) (r :: u64 c_result). case r of Inr m \<Rightarrow> \<forall>b. bit pm b \<longrightarrow> unat (idx + of_nat b) < length ports \<and> usable (port_of_bit ports idx b)
    | Inl e \<Rightarrow> \<exists>b. bit pm b \<and> \<not> unat (idx + of_nat b) < length ports"
  assume ih: "\<And>ports pm idx a r. loop ports pm idx a = Some r \<Longrightarrow> ?P ports pm idx r"
  assume step: "(if pm = 0 then Some (Inr (snd a))
      else if pm AND 1 = 0 then loop ports (drop_bit 1 pm) (idx + 1) a
      else if \<not> unat idx < length ports then Some (Inl OutOfBounds)
      else if \<not> usable (ports ! unat idx) then loop ports pm idx a
      else loop ports (drop_bit 1 pm) (idx + 1) (consider_rate (ports ! unat idx) a)) = Some r"
  have next_bit: "?P ports pm idx r" if p: "?P ports (drop_bit 1 pm) (idx + 1) r" and z: "bit pm 0 \<longrightarrow> unat idx < length ports \<and> usable (ports ! unat idx)"
  proof (cases r)
    case (Inr m)
    have "unat (idx + of_nat b) < length ports \<and> usable (port_of_bit ports idx b)" if "bit pm b" for b
      using p z that Inr by (cases b) (auto simp: bit_drop1 add.assoc)
    then show ?thesis using Inr by simp
  next
    case (Inl e)
    then obtain b where "bit pm (Suc b)" "\<not> unat (idx + of_nat (Suc b)) < length ports" using p by (auto simp: bit_drop1 add.assoc)
    then show ?thesis using Inl by auto
  qed
  consider "pm = 0" | "pm \<noteq> 0" "\<not> bit pm 0" | "bit pm 0" "\<not> unat idx < length ports" | "bit pm 0" "unat idx < length ports" "\<not> usable (ports ! unat idx)"
    | "bit pm 0" "unat idx < length ports" "usable (ports ! unat idx)" by blast
  then show "?P ports pm idx r"
  proof cases
    case 1
    then show ?thesis using step by auto
  next
    case 2
    then have "loop ports (drop_bit 1 pm) (idx + 1) a = Some r" using step by (simp add: and1_bit)
    then show ?thesis using next_bit[OF ih] 2 by blast
  next
    case 3
    then have "pm \<noteq> 0" by auto
    then have "r = Inl OutOfBounds" using step 3 by (simp add: and1_bit)
    then show ?thesis using 3 by (auto intro: exI[of _ 0])
  next
    case 4
    then have "pm \<noteq> 0" by auto
    then have "loop ports pm idx a = Some r" using step 4 by (simp add: and1_bit)
    then show ?thesis using ih by blast
  next
    case 5
    then have "pm \<noteq> 0" by auto
    then have "loop ports (drop_bit 1 pm) (idx + 1) (consider_rate (ports ! unat idx) a) = Some r" using step 5 by (simp add: and1_bit)
    then show ?thesis using next_bit[OF ih] 5 by blast
  qed
qed

lemma filter_bit_Suc: "filter (bit w) [0..<Suc n] = (if bit w 0 then [0] else []) @ map Suc (filter (bit (drop_bit 1 w)) [0..<n])" for w :: u64
proof -
  have "[0..<Suc n] = 0 # map Suc [0..<n]" by (simp add: map_Suc_upt upt_conv_Cons del: upt_Suc)
  moreover have "filter (bit (drop_bit (Suc 0) w)) [0..<n] = filter (\<lambda>x. bit w (Suc x)) [0..<n]"
    by (rule filter_cong) (simp_all add: bit_drop1)
  ultimately show ?thesis by (simp add: filter_map comp_def del: upt_Suc)
qed

lemma prune_loop_fold:
  assumes "unat pm < 2 ^ n" "\<forall>b. bit pm b \<longrightarrow> unat (idx + of_nat b) < length ports \<and> usable (port_of_bit ports idx b)"
  shows "prune_loop ports pm idx a = Some (Inr (snd (fold (\<lambda>b. consider_rate (port_of_bit ports idx b)) (filter (bit pm) [0..<n]) a)))"
  using assms
proof (induction n arbitrary: pm idx a)
  case 0
  then have "pm = 0" by (simp add: unat_eq_zero)
  then show ?case by (simp add: prune_loop.simps)
next
  case (Suc n)
  show ?case
  proof (cases "pm = 0")
    case True
    then show ?thesis by (simp add: prune_loop.simps del: upt_Suc)
  next
    case False
    have "unat (drop_bit 1 pm) < 2 ^ n" using Suc.prems(1) by (simp add: drop_bit_eq_div unat_div less_mult_imp_div_less)
    moreover have u: "\<forall>b. bit (drop_bit 1 pm) b \<longrightarrow> unat (idx + 1 + of_nat b) < length ports \<and> usable (port_of_bit ports (idx + 1) b)"
      using Suc.prems(2) by (auto simp: bit_drop1 add.assoc dest: spec[of _ "Suc _"])
    ultimately have ih: "prune_loop ports (drop_bit 1 pm) (idx + 1) a =
        Some (Inr (snd (fold (\<lambda>b. consider_rate (port_of_bit ports (idx + 1) b)) (filter (bit (drop_bit 1 pm)) [0..<n]) a)))" for a
      by (rule Suc.IH)
    have f: "fold (\<lambda>b. consider_rate (port_of_bit ports (idx + 1) b)) bs a = fold (\<lambda>b. consider_rate (port_of_bit ports idx b)) (map Suc bs) a" for bs a
      by (simp add: fold_map comp_def add.assoc)
    show ?thesis
    proof (cases "bit pm 0")
      case True
      then have "unat idx < length ports" "usable (ports ! unat idx)" using Suc.prems(2) by (auto dest: spec[of _ 0])
      then show ?thesis unfolding filter_bit_Suc
        using True False ih[of "consider_rate (ports ! unat idx) a"] f by (subst prune_loop.simps) (simp add: and1_bit)
    next
      case b: False
      then show ?thesis unfolding filter_bit_Suc using False ih[of a] f by (subst prune_loop.simps) (simp add: and1_bit)
    qed
  qed
qed

text \<open>The mask that remains holds the fastest ports.\<close>

abbreviation bit_rate :: "pg_port list \<Rightarrow> nat \<Rightarrow> nat" where
  "bit_rate ports b \<equiv> linkrate_to_ordinal (pp_rate (ports ! (b + 1)))"

definition rate_inv :: "pg_port list \<Rightarrow> nat list \<Rightarrow> u8 \<times> u64 \<Rightarrow> bool" where
  "rate_inv ports bs a \<longleftrightarrow> (\<forall>c\<in>set bs. bit_rate ports c \<le> linkrate_to_ordinal (fst a)) \<and>
     (\<forall>c. bit (snd a) c \<longleftrightarrow> c \<in> set bs \<and> bit_rate ports c = linkrate_to_ordinal (fst a)) \<and>
     (linkrate_to_ordinal (fst a) = 25 \<or> (\<exists>c\<in>set bs. bit_rate ports c = linkrate_to_ordinal (fst a)))"

lemma linkrate_ge: "25 \<le> linkrate_to_ordinal r"
  by (simp add: linkrate_to_ordinal_def)

lemma rate_inv_step:
  assumes "rate_inv ports bs a" "b < 64" "pp_index (ports ! (b + 1)) = b + 1"
  shows "rate_inv ports (bs @ [b]) (consider_rate (ports ! (b + 1)) a)"
proof -
  have bt: "bit (push_bit ((pp_index (ports ! (b + 1)) - 1) mod 64) 1 :: u64) c \<longleftrightarrow> c = b" for c
    using assms(2,3) by (auto simp: bit_exp_iff)
  have i: "\<And>c. c \<in> set bs \<Longrightarrow> bit_rate ports c \<le> linkrate_to_ordinal (fst a)"
      "\<And>c. bit (snd a) c \<longleftrightarrow> c \<in> set bs \<and> bit_rate ports c = linkrate_to_ordinal (fst a)"
      "linkrate_to_ordinal (fst a) = 25 \<or> (\<exists>c\<in>set bs. bit_rate ports c = linkrate_to_ordinal (fst a))"
    using assms(1) unfolding rate_inv_def by blast+
  consider "bit_rate ports b > linkrate_to_ordinal (fst a)" | "bit_rate ports b = linkrate_to_ordinal (fst a)"
    | "bit_rate ports b < linkrate_to_ordinal (fst a)" by linarith
  then show ?thesis
  proof cases
    case 1
    then have r: "consider_rate (ports ! (b + 1)) a = (pp_rate (ports ! (b + 1)), push_bit ((pp_index (ports ! (b + 1)) - 1) mod 64) 1)"
      by (simp add: consider_rate_def Let_def)
    have "bit_rate ports c \<noteq> bit_rate ports b" "bit_rate ports c \<le> bit_rate ports b" if "c \<in> set bs" for c using i(1)[OF that] 1 by simp_all
    then show ?thesis unfolding rate_inv_def r fst_conv snd_conv bt by auto
  next
    case 2
    then have r: "consider_rate (ports ! (b + 1)) a = (fst a, snd a OR push_bit ((pp_index (ports ! (b + 1)) - 1) mod 64) 1)"
      by (simp add: consider_rate_def Let_def)
    show ?thesis unfolding rate_inv_def r fst_conv snd_conv bit_or_iff bt i(2) using i(1) 2 by auto
  next
    case 3
    then have r: "consider_rate (ports ! (b + 1)) a = a" by (simp add: consider_rate_def Let_def)
    show ?thesis unfolding rate_inv_def r i(2) using i(1,3) 3 by auto
  qed
qed

lemma rate_inv_fold:
  assumes "\<forall>b\<in>set bs. b < 64 \<and> pp_index (ports ! (b + 1)) = b + 1"
  shows "rate_inv ports bs (fold (\<lambda>b. consider_rate (ports ! (b + 1))) bs (0, 0))"
  using assms
proof (induction bs rule: rev_induct)
  case Nil
  then show ?case by (simp add: rate_inv_def linkrate_to_ordinal_def)
next
  case (snoc b bs)
  then show ?case using rate_inv_step[of ports bs _ b] by simp
qed

lemma unat_bit_index: "b < 64 \<Longrightarrow> unat (1 + of_nat b :: u8) = b + 1"
proof -
  assume "b < 64"
  then have "unat (of_nat (b + 1) :: u8) = b + 1" by (simp add: unat_of_nat take_bit_nat_eq_self del: of_nat_add of_nat_Suc)
  then show ?thesis by simp
qed

lemma prune_mask:
  assumes "\<forall>b. bit pm b \<longrightarrow> b + 1 < length ports \<and> pp_index (ports ! (b + 1)) = b + 1"
  shows "(\<forall>b. bit pm b \<longrightarrow> usable (ports ! (b + 1))) \<and>
      (\<exists>m. prune_loop ports pm 1 (0, 0) = Some (Inr m) \<and>
         (\<forall>b. bit m b \<longleftrightarrow> bit pm b \<and> (\<forall>c. bit pm c \<longrightarrow> bit_rate ports c \<le> bit_rate ports b))) \<or>
    (\<exists>b. bit pm b \<and> \<not> usable (ports ! (b + 1))) \<and> prune_loop ports pm 1 (0, 0) = None"
proof -
  have b64: "b < 64" if "bit pm b" for b using that bit_imp_le_length[of pm b] by simp
  have ix: "unat (1 + of_nat b :: u8) = b + 1" if "bit pm b" for b using unat_bit_index b64[OF that] by blast
  show ?thesis
  proof (cases "\<forall>b. bit pm b \<longrightarrow> usable (ports ! (b + 1))")
    case True
    let ?bs = "filter (bit pm) [0..<64]"
    define a where "a = fold (\<lambda>b. consider_rate (ports ! (b + 1))) ?bs (0, 0)"
    have bs: "set ?bs = {b. bit pm b}" using b64 by auto
    have "fold (\<lambda>b. consider_rate (port_of_bit ports 1 b)) ?bs (0, 0) = a" unfolding a_def by (rule fold_cong) (use ix in auto)
    moreover have "unat pm < 2 ^ 64" using unsigned_less[of pm, where ?'a = nat] by simp
    ultimately have r: "prune_loop ports pm 1 (0, 0) = Some (Inr (snd a))"
      using prune_loop_fold[of pm 64 1 ports "(0, 0)"] assms True ix by simp
    have "rate_inv ports ?bs a" unfolding a_def by (rule rate_inv_fold) (use assms b64 in auto)
    then have i: "\<And>c. bit pm c \<Longrightarrow> bit_rate ports c \<le> linkrate_to_ordinal (fst a)"
      "\<And>c. bit (snd a) c \<longleftrightarrow> bit pm c \<and> bit_rate ports c = linkrate_to_ordinal (fst a)"
      "linkrate_to_ordinal (fst a) = 25 \<or> (\<exists>c. bit pm c \<and> bit_rate ports c = linkrate_to_ordinal (fst a))"
      unfolding rate_inv_def bs by blast+
    have "bit_rate ports b = linkrate_to_ordinal (fst a) \<longleftrightarrow> (\<forall>c. bit pm c \<longrightarrow> bit_rate ports c \<le> bit_rate ports b)" if "bit pm b" for b
      using i(1) i(3) that linkrate_ge[of "pp_rate (ports ! (b + 1))"] by (metis le_antisym)
    then show ?thesis using r i(2) True by blast
  next
    case False
    have "prune_loop ports pm 1 (0, 0) \<noteq> Some r" for r
    proof
      assume "prune_loop ports pm 1 (0, 0) = Some r"
      from prune_loop_returns[OF this] show False using False assms ix by (cases r) auto
    qed
    then show ?thesis using False by (metis option.exhaust)
  qed
qed

section \<open>The group tables\<close>

text \<open>
  The used part of the group table has no duplicates and fits the table, and every entry of the
  forwarding table is a group in use or 0xff.
\<close>

definition pg_ok :: "u8 \<Rightarrow> port_groups \<Rightarrow> bool" where
  "pg_ok cap pg \<longleftrightarrow>
     (case pgt pg of None \<Rightarrow> True | Some t \<Rightarrow> length t = unat cap \<and> pgtLen pg \<le> cap \<and> distinct (take (unat (pgtLen pg)) t)) \<and>
     (case pgft pg of None \<Rightarrow> True | Some f \<Rightarrow> list_all (\<lambda>x. x = 0xff \<or> x < pgtLen pg) f)"

lemma push_port_group:
  assumes "sm_Push_Port_Group t g len cap = (rc, i, len', t')" "length t = unat cap" "len \<le> cap" "distinct (take (unat len) t)"
  shows "rc \<ge> 0 \<Longrightarrow> i < len' \<and> t' ! unat i = g \<and> len \<le> len' \<and> len' \<le> cap \<and> length t' = length t \<and> distinct (take (unat len') t') \<and>
      take (unat len) t' = take (unat len) t"
    "rc < 0 \<longleftrightarrow> len = cap \<and> g \<notin> set (take (unat len) t)"
proof -
  have lt: "unat len \<le> length t" using assms(2,3) by (simp add: word_le_nat_alt)
  consider (old) j where "List.find (\<lambda>i. g = t ! i) [0..<unat len] = Some j" "j < unat len" "t ! j = g"
    | (new) "List.find (\<lambda>i. g = t ! i) [0..<unat len] = None" "g \<notin> set (take (unat len) t)"
  proof (cases "List.find (\<lambda>i. g = t ! i) [0..<unat len]")
    case None
    then have "g \<notin> set (take (unat len) t)" using lt by (auto simp: find_None_iff in_set_conv_nth)
    then show ?thesis using new None by blast
  next
    case (Some j)
    then show ?thesis using old by (auto simp: find_upt_Some)
  qed
  then have "(rc \<ge> 0 \<longrightarrow> i < len' \<and> t' ! unat i = g \<and> len \<le> len' \<and> len' \<le> cap \<and> length t' = length t \<and> distinct (take (unat len') t') \<and>
      take (unat len) t' = take (unat len) t) \<and> (rc < 0 \<longleftrightarrow> len = cap \<and> g \<notin> set (take (unat len) t))"
  proof cases
    case old
    then have "g \<in> set (take (unat len) t)" using lt by (metis in_set_conv_nth length_take min.absorb2 nth_take)
    moreover have "rc = 0" "i = of_nat j" "len' = len" "t' = t" using assms(1) old by (auto simp: sm_Push_Port_Group_def)
    moreover have "unat (of_nat j :: u8) = j" using old(2) unsigned_less[of len, where ?'a = nat] by (simp add: unat_of_nat take_bit_nat_eq_self)
    ultimately show ?thesis using old assms(3,4) by (simp add: word_less_nat_alt)
  next
    case new
    show ?thesis
    proof (cases "len < cap")
      case True
      have u: "unat len < 255" using True unsigned_less[of cap, where ?'a = nat] by (simp add: word_less_nat_alt)
      have n: "unat (of_nat (unat len + 1) :: u8) = unat len + 1" using u by (simp add: unat_of_nat take_bit_nat_eq_self del: of_nat_add of_nat_Suc)
      have l: "unat len < length t" using True assms(2) by (simp add: word_less_nat_alt)
      have r: "rc = 1" "i = len" "len' = of_nat (unat len + 1)" "t' = t[unat len := g]"
        using assms(1) new True by (auto simp: sm_Push_Port_Group_def Let_def)
      have "take (unat len + 1) (t[unat len := g]) = take (unat len) t @ [g]" using l by (simp add: take_Suc_conv_app_nth)
      then have "distinct (take (unat len') t')" unfolding r n using assms(4) new(2) by simp
      moreover have "len < len'" "len' \<le> cap" using n r(3) True by (simp_all add: word_less_nat_alt word_le_nat_alt)
      ultimately show ?thesis using r(1,2,4) l new(2) True by auto
    next
      case False
      then have "len = cap" using assms(3) by simp
      then show ?thesis using assms(1) new by (auto simp: sm_Push_Port_Group_def)
    qed
  qed
  then show "rc \<ge> 0 \<Longrightarrow> i < len' \<and> t' ! unat i = g \<and> len \<le> len' \<and> len' \<le> cap \<and> length t' = length t \<and> distinct (take (unat len') t') \<and>
      take (unat len) t' = take (unat len) t" "rc < 0 \<longleftrightarrow> len = cap \<and> g \<notin> set (take (unat len) t)" by blast+
qed

lemma write_pgid_fold:
  assumes "pgft pg = Some f"
  shows "\<exists>f' ch. fold (write_pgid g) ls pg = pg\<lparr>pgft := Some f', arChange := ch\<rparr> \<and> length f' = length f \<and>
    (\<forall>l<length f. f' ! l = (if l \<in> set ls then g else f ! l))"
  using assms
proof (induction ls arbitrary: pg f)
  case Nil
  then show ?case by (intro exI[of _ f] exI[of _ "arChange pg"]) simp
next
  case (Cons l ls)
  show ?case
  proof (cases "l < length f")
    case True
    let ?pg = "pg\<lparr>arChange := arChange pg \<or> f ! l \<noteq> g, pgft := Some (f[l := g])\<rparr>"
    have w: "write_pgid g l pg = ?pg" using True Cons.prems by (simp add: write_pgid_def)
    obtain f' ch where f': "fold (write_pgid g) ls ?pg = ?pg\<lparr>pgft := Some f', arChange := ch\<rparr>" "length f' = length f"
        "\<forall>k<length f. f' ! k = (if k \<in> set ls then g else f[l := g] ! k)"
      using Cons.IH[of ?pg "f[l := g]"] by auto
    have "fold (write_pgid g) (l # ls) pg = pg\<lparr>pgft := Some f', arChange := ch\<rparr>" using w f'(1) by simp
    then show ?thesis using f'(2,3) True by (intro exI[of _ f'] exI[of _ ch]) auto
  next
    case False
    then have "write_pgid g l pg = pg" using Cons.prems by (simp add: write_pgid_def)
    then show ?thesis using Cons.IH[OF Cons.prems] False by auto
  qed
qed

lemma get_pgft_wr_cases:
  assumes "sm_Node_get_pgft_wr alloc sw pg = (r, pg')"
  shows "pg' = pg\<lparr>pgft := pgft pg'\<rparr>" "r = Some f \<Longrightarrow> pgft pg' = Some f"
    "pgft pg' = Some f \<Longrightarrow> set f \<subseteq> insert 0xff (case pgft pg of None \<Rightarrow> {} | Some f0 \<Rightarrow> set f0)"
  using assms by (auto simp: sm_Node_get_pgft_wr_def Let_def split: if_splits option.splits) (metis option.inject)+

lemma get_pgft_wr_ok:
  assumes "sm_Node_get_pgft_wr alloc sw pg = (r, pg')" "pg_ok cap pg"
  shows "pg_ok cap pg'"
proof -
  have e: "pgt pg' = pgt pg" "pgtLen pg' = pgtLen pg" by (subst get_pgft_wr_cases(1)[OF assms(1)], simp)+
  have "list_all (\<lambda>x. x = 0xff \<or> x < pgtLen pg) f" if "pgft pg' = Some f" for f
    using get_pgft_wr_cases(3)[OF assms(1) that] assms(2) by (cases "pgft pg") (auto simp: pg_ok_def list_all_iff)
  then show ?thesis using assms(2) e by (auto simp: pg_ok_def split: option.splits)
qed

text \<open>A group pushed: the tables stay well formed, and earlier groups keep their numbers.\<close>

lemma pg_ok_push:
  assumes "pg_ok cap pg" "pgt pg = Some t" "sm_Push_Port_Group t g (pgtLen pg) cap = (rc, i, len', t')" "rc \<ge> 0"
  shows "pg_ok cap (pg\<lparr>pgt := Some t', pgtLen := len', arChange := ch, PortGroupTop := top'\<rparr>)" "i < len'" "t' ! unat i = g"
proof -
  have t: "length t = unat cap" "pgtLen pg \<le> cap" "distinct (take (unat (pgtLen pg)) t)" using assms(1,2) by (auto simp: pg_ok_def)
  note p = push_port_group(1)[OF assms(3) t assms(4)]
  then show "i < len'" "t' ! unat i = g" by auto
  have "list_all (\<lambda>x. x = 0xff \<or> x < len') f" if "pgft pg = Some f" for f
    using assms(1) that p by (auto simp: pg_ok_def list_all_iff)
  then show "pg_ok cap (pg\<lparr>pgt := Some t', pgtLen := len', arChange := ch, PortGroupTop := top'\<rparr>)"
    using p t(1) by (auto simp: pg_ok_def split: option.splits)
qed

lemma pg_ok_top: "pg_ok cap (pg\<lparr>PortGroupTop := n\<rparr>) \<longleftrightarrow> pg_ok cap pg"
  by (cases pg) (simp add: pg_ok_def split: option.splits)

lemma group_mask_bits:
  "bit (group_mask sel) b \<longleftrightarrow> b < 64 \<and> (\<exists>e\<in>set sel. op_index (spt_portp e) = b + 1)"
proof -
  have "bit (fold (\<lambda>e m. if op_index (spt_portp e) = 0 \<or> op_index (spt_portp e) > 64 then m
                 else m OR push_bit (op_index (spt_portp e) - 1) 1) sel m) b \<longleftrightarrow>
      bit m b \<or> (b < 64 \<and> (\<exists>e\<in>set sel. op_index (spt_portp e) = b + 1))" for m :: u64
  proof (induction sel arbitrary: m)
    case (Cons e sel)
    then show ?case by (cases "op_index (spt_portp e)") (auto simp: bit_or_iff bit_exp_iff)
  qed simp
  then show ?thesis by (simp add: group_mask_def)
qed

abbreviation dst_lids :: "route_env \<Rightarrow> end_port \<Rightarrow> nat list" where
  "dst_lids env dst \<equiv> port_lids (d_lid dst) (d_lmc dst) @ edge_lids (edge_ports env (d_swIdx dst))"

lemma setup_pgs_cases:
  assumes "sm_routing_func_setup_pgs alloc env src dst v st = Inr (r, st')"
  defines "i \<equiv> swIdx (sw_self src)"
  defines "pg \<equiv> groups_of st i" and "sel \<equiv> select_ports env st src (d_swIdx dst) False"
  obtains (off) "\<not> d_is_switch dst \<or> i = d_swIdx dst \<or> \<not> ar_enable env \<or> \<not> arSupport src" "st' = st"
    | (bad) "r \<noteq> VSTATUS_OK" "st' = st"
    | (single) "length sel \<le> 1" "st' = st\<lparr>groups_of := (groups_of st)(i := pg\<lparr>PortGroupTop := 0\<rparr>)\<rparr>"
    | (full) rc pgid len t t' where "pgt pg = Some t" "sm_Push_Port_Group t (group_mask sel) (pgtLen pg) (PortGroupCap src) = (rc, pgid, len, t')" "rc < 0" "st' = st"
    | (null) "pgt pg = None" "st' = st"
    | (push) rc pgid len t t' f pg2 where "1 < length sel" "pgt pg = Some t"
        "sm_Push_Port_Group t (group_mask sel) (pgtLen pg) (PortGroupCap src) = (rc, pgid, len, t')" "rc \<ge> 0"
        "sm_Node_get_pgft_wr alloc src (pg\<lparr>pgt := Some t', pgtLen := len, arChange := arChange pg \<or> rc > 0, PortGroupTop := len\<rparr>) = (f, pg2)"
        "r = VSTATUS_OK \<longleftrightarrow> f \<noteq> None"
        "st' = st\<lparr>groups_of := (groups_of st)(i := if f = None then pg2 else fold (write_pgid pgid) (dst_lids env dst) pg2)\<rparr>"
  using assms(1) unfolding sm_routing_func_setup_pgs_def Let_def pg_def[symmetric] i_def[symmetric] sel_def[symmetric]
  by (auto split: if_splits option.splits prod.splits simp del: fold_append)

section \<open>Properties\<close>

lemma setup_pgs_ok:
  assumes "sm_routing_func_setup_pgs alloc env src dst v st = Inr (r, st')" "pg_ok (PortGroupCap src) (groups_of st (swIdx (sw_self src)))"
  defines "pg' \<equiv> groups_of st' (swIdx (sw_self src))" and "sel \<equiv> select_ports env st src (d_swIdx dst) False"
  shows "pg_ok (PortGroupCap src) pg' \<and> st' = st\<lparr>groups_of := (groups_of st)(swIdx (sw_self src) := pg')\<rparr> \<and>
    (r = VSTATUS_OK \<and> d_is_switch dst \<and> swIdx (sw_self src) \<noteq> d_swIdx dst \<and> ar_enable env \<and> arSupport src \<and> 1 < length sel \<and>
       pgt (groups_of st (swIdx (sw_self src))) \<noteq> None \<and> pgtLen (groups_of st (swIdx (sw_self src))) < PortGroupCap src \<longrightarrow>
     (\<exists>t f. pgt pg' = Some t \<and> pgft pg' = Some f \<and> (\<forall>l\<in>set (dst_lids env dst). l < length f \<longrightarrow> f ! l < pgtLen pg' \<and> t ! unat (f ! l) = group_mask sel)))"
proof -
  let ?i = "swIdx (sw_self src)" and ?cap = "PortGroupCap src"
  let ?pg = "groups_of st ?i"
  from assms(1) show ?thesis
  proof (cases rule: setup_pgs_cases)
    case (push rc pgid len t t' f pg2)
    let ?pg1 = "?pg\<lparr>pgt := Some t', pgtLen := len, arChange := arChange ?pg \<or> rc > 0, PortGroupTop := len\<rparr>"
    note p = pg_ok_push[OF assms(2) push(2,3,4)]
    have ok2: "pg_ok ?cap pg2" by (rule get_pgft_wr_ok[OF push(5) p(1)])
    have e2: "pgt pg2 = Some t'" "pgtLen pg2 = len" by (subst get_pgft_wr_cases(1)[OF push(5)], simp)+
    show ?thesis
    proof (cases f)
      case None
      then show ?thesis using push(6,7) ok2 by (simp add: pg'_def)
    next
      case (Some f0)
      have f2: "pgft pg2 = Some f0" using get_pgft_wr_cases(2)[OF push(5)] Some by simp
      obtain f' ch where w: "fold (write_pgid pgid) (dst_lids env dst) pg2 = pg2\<lparr>pgft := Some f', arChange := ch\<rparr>" "length f' = length f0"
          "\<forall>l<length f0. f' ! l = (if l \<in> set (dst_lids env dst) then pgid else f0 ! l)"
        using write_pgid_fold[OF f2] by metis
      have pg': "pg' = pg2\<lparr>pgft := Some f', arChange := ch\<rparr>" using push(7) Some w(1) by (simp add: pg'_def)
      have "list_all (\<lambda>x. x = 0xff \<or> x < len) f'"
        using ok2 e2(2) f2 w(2,3) p(2) by (auto simp: pg_ok_def list_all_length)
      then have "pg_ok ?cap pg'" using ok2 e2 unfolding pg' pg_ok_def by simp
      moreover have "f' ! l < len \<and> t' ! unat (f' ! l) = group_mask sel" if "l \<in> set (dst_lids env dst)" "l < length f'" for l
        using w(2,3) that p(2,3) by (simp add: sel_def)
      ultimately show ?thesis using push(7) Some w(1) pg' e2 by (auto simp: sel_def)
    qed
  next
    case (full rc pgid len t t')
    have "length t = unat ?cap" "pgtLen ?pg \<le> ?cap" "distinct (take (unat (pgtLen ?pg)) t)" using assms(2) full(1) by (auto simp: pg_ok_def)
    then have "pgtLen ?pg = ?cap" using push_port_group(2)[OF full(2)] full(3) by blast
    then show ?thesis using full(4) assms(2) by (simp add: pg'_def)
  next
    case single
    have pg': "pg' = (?pg)\<lparr>PortGroupTop := 0\<rparr>" using single by (simp add: pg'_def)
    have "pg_ok ?cap pg'" using assms(2) by (simp add: pg' pg_ok_top)
    moreover have "st' = st\<lparr>groups_of := (groups_of st)(?i := pg')\<rparr>" using single by (simp add: pg')
    moreover have "\<not> 1 < length sel" using single by (simp add: sel_def)
    ultimately show ?thesis by blast
  qed (use assms(2) in \<open>auto simp: pg'_def\<close>)
qed

text \<open>
  C29. The port group tables stay well formed: setting up the groups towards a destination keeps the group
  table free of duplicates and within its capacity, and every forwarding entry on a group in use;
  nothing else changes. If there are two or more equally good ports and room for a group, afterwards
  every LID of the destination and of the end nodes behind it is mapped to the group of exactly these
  ports.
\<close>

theorem setup_pgs_tables:
  assumes "sm_routing_func_setup_pgs alloc env src dst v st = Inr (r, st')" and "pg_ok (PortGroupCap src) (groups_of st (swIdx (sw_self src)))"
  defines "pg' \<equiv> groups_of st' (swIdx (sw_self src))" and "sel \<equiv> select_ports env st src (d_swIdx dst) False"
  shows "pg_ok (PortGroupCap src) pg' \<and> st' = st\<lparr>groups_of := (groups_of st)(swIdx (sw_self src) := pg')\<rparr> \<and>
    (r = VSTATUS_OK \<and> d_is_switch dst \<and> swIdx (sw_self src) \<noteq> d_swIdx dst \<and> ar_enable env \<and> arSupport src \<and> 1 < length sel \<and>
       pgt (groups_of st (swIdx (sw_self src))) \<noteq> None \<and> pgtLen (groups_of st (swIdx (sw_self src))) < PortGroupCap src \<longrightarrow>
     (\<exists>t f. pgt pg' = Some t \<and> pgft pg' = Some f \<and>
        (\<forall>l\<in>set (port_lids (d_lid dst) (d_lmc dst) @ edge_lids (edge_ports env (d_swIdx dst))). l < length f \<longrightarrow>
           f ! l < pgtLen pg' \<and> (\<forall>b. bit (t ! unat (f ! l)) b \<longleftrightarrow> b < 64 \<and> (\<exists>e\<in>set sel. op_index (spt_portp e) = b + 1)))))"
  using setup_pgs_ok[OF assms(1,2)] unfolding pg'_def sel_def group_mask_bits[symmetric] by (metis (no_types, lifting))

text \<open>Two switches with two parallel links, and an end node with LIDs 8 and 9 behind the second one.\<close>

definition ar_switch :: rt_switch where
  "ar_switch = \<lparr>sw_self = \<lparr>swIdx = 0, NodeGUID = 10, SystemImageGUID = 10, numLidsRouted = 0\<rparr>, internalLinks = False, edgeSwitch = True,
     LinearFDBCap = 64, LinearFDBTop = 9, arSupport = True, IsAdaptiveRoutingSupported = True, PortGroupCap = 2, PortGroupFDBCap = 64\<rparr>"

definition ar_port :: "nat \<Rightarrow> out_port" where
  "ar_port p = \<lparr>op_index = p, op_valid = True, op_state = 4,
     op_next = Some \<lparr>swIdx = 1, NodeGUID = 11, SystemImageGUID = 11, numLidsRouted = 0\<rparr>,
     op_uplink = False, op_getSpeed = 100, op_portSpeed = 100, op_lidsRouted = 0\<rparr>"

definition ar_env :: route_env where
  "ar_env = \<lparr>max_sws = 2, paths = (\<lambda>k. if k = 1 then 3 else 0), sw_port_at = (\<lambda>i p. if i = 0 \<and> p \<in> {1, 2} then Some (ar_port p) else None),
     edge_ports = (\<lambda>_. [\<lparr>ep_valid = True, ep_state = 4, ep_end = Some (True, 8, 1)\<rparr>]),
     re_qsort = (\<lambda>_ xs. xs), spine_first_routing = False, ar_enable = True\<rparr>"

definition ar_state :: route_state where
  "ar_state = \<lparr>lidsRouted = (\<lambda>_ _. 0), baseLidsRouted = (\<lambda>_ _. 0), nodeLidsRouted = (\<lambda>_. 0), nodeBaseLidsRouted = (\<lambda>_. 0), lft = (\<lambda>_. None),
     groups_of = (\<lambda>_. \<lparr>pgt = Some [0, 0], pgtLen = 0, PortGroupTop = 0, arChange = False, pgft = None\<rparr>)\<rparr>"

definition ar_dst :: end_port where
  "ar_dst = \<lparr>d_is_switch = True, d_swIdx = 1, d_neighbor = None, d_portno = 0, d_lid = 2, d_lmc = 0\<rparr>"

lemma ar_selected: "length (select_ports ar_env ar_state ar_switch 1 False) = 2"
proof -
  have "mask_ports 3 = [1, 2]" by (simp add: mask_ports_def in_mask_def upt_rec bit_simps)
  moreover have "length (mask_ports 3) < 65" by (simp add: calculation)
  ultimately show ?thesis
    by (simp add: select_ports_def sm_routing_func_select_ports_def select_loop_fold Let_def ar_env_def ar_state_def ar_switch_def
        Index_def sm_routing_func_do_spine_check_def select_port_def consider_port_def record_best_def live_port_def live_node_def ar_port_def
        word_le_nat_alt)
qed

theorem setup_pgs_tables_witness:
  "\<exists>st t f. sm_routing_func_setup_pgs (\<lambda>_. True) ar_env ar_switch ar_dst True ar_state = Inr (VSTATUS_OK, st) \<and> pgt (groups_of st 0) = Some t \<and>
     pgft (groups_of st 0) = Some f \<and> f ! 9 < pgtLen (groups_of st 0) \<and>
     (\<forall>b. bit (t ! unat (f ! 9)) b \<longleftrightarrow> b < 64 \<and> (\<exists>e\<in>set (select_ports ar_env ar_state ar_switch 1 False). op_index (spt_portp e) = b + 1))"
proof -
  have d: "swIdx (sw_self ar_switch) = 0" "PortGroupCap ar_switch = 2" "arSupport ar_switch" "IsAdaptiveRoutingSupported ar_switch"
      "d_swIdx ar_dst = 1" "d_is_switch ar_dst" "ar_enable ar_env" "sm_Node_compute_pgft_size ar_switch = 64"
      "groups_of ar_state 0 = \<lparr>pgt = Some [0, 0], pgtLen = 0, PortGroupTop = 0, arChange = False, pgft = None\<rparr>"
    by (simp_all add: ar_switch_def ar_dst_def ar_env_def ar_state_def sm_Node_compute_pgft_size_def ROUNDUP_def)
  define m where "m = group_mask (select_ports ar_env ar_state ar_switch 1 False)"
  note sel = ar_selected[unfolded One_nat_def] m_def[symmetric, unfolded One_nat_def]
  define st where "st = ar_state\<lparr>groups_of := (groups_of ar_state)(0 := fold (write_pgid 0) (dst_lids ar_env ar_dst)
    \<lparr>pgt = Some [m, 0], pgtLen = 1, PortGroupTop = 1, arChange = True, pgft = Some (replicate 64 0xff)\<rparr>)\<rparr>"
  have p: "sm_Push_Port_Group [0, 0] m 0 2 = (1, 0, 1, [m, 0])" by (simp add: sm_Push_Port_Group_def word_less_nat_alt)
  have st: "sm_routing_func_setup_pgs (\<lambda>_. True) ar_env ar_switch ar_dst True ar_state = Inr (VSTATUS_OK, st)"
    unfolding sm_routing_func_setup_pgs_def Let_def d by (simp add: sel p sm_Node_get_pgft_wr_def Let_def d st_def)
  have ok: "pg_ok (PortGroupCap ar_switch) (groups_of ar_state (swIdx (sw_self ar_switch)))" unfolding d by (simp add: pg_ok_def word_le_nat_alt)
  obtain f ch where "fold (write_pgid 0) (dst_lids ar_env ar_dst) \<lparr>pgt = Some [m, 0], pgtLen = 1, PortGroupTop = 1, arChange = True, pgft = Some (replicate 64 0xff)\<rparr>
      = \<lparr>pgt = Some [m, 0], pgtLen = 1, PortGroupTop = 1, arChange = True, pgft = Some (replicate 64 0xff)\<rparr>\<lparr>pgft := Some f, arChange := ch\<rparr>" "length f = 64"
    using write_pgid_fold[of _ "replicate 64 0xff"] by (metis length_replicate port_groups.select_convs(5))
  then have f: "pgft (groups_of st 0) = Some f" "9 < length f" by (simp_all add: st_def)
  have l: "9 \<in> set (dst_lids ar_env ar_dst)" by (simp add: ar_env_def ar_dst_def edge_lids_def port_lids_def word_less_nat_alt)
  have "length (select_ports ar_env ar_state ar_switch (d_swIdx ar_dst) False) = 2" using ar_selected d by simp
  then show ?thesis using setup_pgs_tables[OF st ok] f l d st by (auto simp: word_less_nat_alt)
qed

text \<open>
  C30. Pruning a group either returns or never ends: when every port of the mask is usable the loop
  returns the mask of the fastest of them, and when one port is not usable, because it is down, the
  loop does not end.
\<close>

theorem prune_hangs_on_down_port:
  assumes "\<forall>b. bit pm b \<longrightarrow> b + 1 < length ports \<and> pp_index (ports ! (b + 1)) = b + 1"
  shows "(\<forall>b. bit pm b \<longrightarrow> usable (ports ! (b + 1))) \<and>
      (\<exists>m. prune_loop ports pm 1 (0, 0) = Some (Inr m) \<and>
         (\<forall>b. bit m b \<longleftrightarrow> bit pm b \<and> (\<forall>c. bit pm c \<longrightarrow> bit_rate ports c \<le> bit_rate ports b))) \<or>
    (\<exists>b. bit pm b \<and> \<not> usable (ports ! (b + 1))) \<and> prune_loop ports pm 1 (0, 0) = None"
  by (rule prune_mask[OF assms])

theorem prune_hangs_on_down_port_witness:
  "prune_loop [\<lparr>pp_valid = True, pp_state = 4, pp_rate = 0, pp_index = 0\<rparr>, \<lparr>pp_valid = True, pp_state = 1, pp_rate = 0, pp_index = 1\<rparr>] 1 1 (0, 0) = None"
proof -
  let ?ports = "[\<lparr>pp_valid = True, pp_state = 4, pp_rate = 0, pp_index = 0\<rparr>, \<lparr>pp_valid = True, pp_state = 1, pp_rate = 0, pp_index = 1\<rparr>]"
  have b: "bit (1 :: u64) b \<longleftrightarrow> b = 0" for b by (simp add: bit_1_iff)
  then have "\<forall>b. bit (1 :: u64) b \<longrightarrow> b + 1 < length ?ports \<and> pp_index (?ports ! (b + 1)) = b + 1" by simp
  from prune_hangs_on_down_port[OF this] show ?thesis unfolding b by (auto simp: usable_def word_le_nat_alt dest: spec[of _ 0])
qed

end
