(* ===== verification/SmXft.thy ===== *)
theory SmXft
  imports SmPortGroups
begin

text \<open>
  Linear forwarding tables (\<^verbatim>\<open>sm_routing_func_setup_xft\<close> of \<^verbatim>\<open>sm_routing_funcs.c\<close>, \<^verbatim>\<open>sm_calculate_all_lfts\<close>
  and \<^verbatim>\<open>sm_balance_base_lids\<close> of \<^verbatim>\<open>sm_routing.c\<close>, \<^verbatim>\<open>sm_Node_init_lft\<close> and \<^verbatim>\<open>sm_calculate_lft\<close> of
  \<^verbatim>\<open>sm_utility.c\<close>). A result is \<open>None\<close> when a loop does not end, \<open>Some (Inl e)\<close> for an undefined access,
  \<open>Some (Inr (status, \<dots>))\<close> otherwise. The routing module is the default one.
\<close>

section \<open>The ports of one destination\<close>

definition sm_balance_base_lids :: "route_state \<Rightarrow> nat \<Rightarrow> SwitchportToNextGuid list \<Rightarrow> nat" where
  "sm_balance_base_lids st sw ordered =
     fst (fold (\<lambda>i (j, bestLidsRouted, bestSwLidsRouted).
         let e = ordered ! i;
             lids = ucast (baseLidsRouted st sw (op_index (spt_portp e)));
             swLids = ucast (nodeBaseLidsRouted st (NodeGUID (spt_nextSwp e)))
         in if lids < bestLidsRouted then (i, lids, swLids)
            else if lids = bestLidsRouted \<and> swLids < bestSwLidsRouted then (i, bestLidsRouted, swLids)
            else (j, bestLidsRouted, bestSwLidsRouted))
       [0..<length ordered] (0, 0xffff :: u32, 0xffff :: u32))"

text \<open>The counters of the port and of the switch behind it.\<close>

definition count_lid :: "nat \<Rightarrow> u16 \<Rightarrow> SwitchportToNextGuid \<Rightarrow> route_state \<Rightarrow> route_state" where
  "count_lid sw lidsRoutedInc e st =
     (let p = op_index (spt_portp e); g = NodeGUID (spt_nextSwp e) in
      st\<lparr>lidsRouted := (lidsRouted st)(sw := (lidsRouted st sw)(p := lidsRouted st sw p + lidsRoutedInc)),
         nodeLidsRouted := (nodeLidsRouted st)(g := nodeLidsRouted st g + lidsRoutedInc)\<rparr>)"

definition count_base_lid :: "nat \<Rightarrow> SwitchportToNextGuid \<Rightarrow> route_state \<Rightarrow> route_state" where
  "count_base_lid sw e st =
     (let p = op_index (spt_portp e); g = NodeGUID (spt_nextSwp e) in
      st\<lparr>baseLidsRouted := (baseLidsRouted st)(sw := (baseLidsRouted st sw)(p := baseLidsRouted st sw p + 1)),
         nodeBaseLidsRouted := (nodeBaseLidsRouted st)(g := nodeBaseLidsRouted st g + 1)\<rparr>)"

definition entry_portno :: "SwitchportToNextGuid \<Rightarrow> u8" where
  "entry_portno e = of_nat (op_index (spt_portp e))"

definition dest_switch :: "end_port \<Rightarrow> nat option" where
  "dest_switch dst = (if d_is_switch dst then Some (d_swIdx dst) else d_neighbor dst)"

text \<open>The branch for an LMC greater than 0, once ports are selected.\<close>

definition spread_lids :: "route_env \<Rightarrow> rt_switch \<Rightarrow> nat \<Rightarrow> u16 \<Rightarrow> SwitchportToNextGuid list \<Rightarrow> route_state \<Rightarrow>
    (Status_t \<times> u8 list \<times> route_state) c_result option" where
  "spread_lids env switchp numLids lidsRoutedInc sel st =
     (case balance_ports (re_qsort env) (internalLinks switchp) sel of
        None \<Rightarrow> None
      | Some (Inl e) \<Rightarrow> Some (Inl e)
      | Some (Inr balanced) \<Rightarrow>
          let sw = swIdx (sw_self switchp);
              ordered = take numLids balanced;
              offset = sm_balance_base_lids st sw ordered;
              at = (\<lambda>i. ordered ! ((i + offset) mod length ordered))
          in if ordered = [] then Some (Inl OutOfBounds)
             else Some (Inr (VSTATUS_OK, map (\<lambda>i. entry_portno (at i)) [0..<numLids],
               count_base_lid sw (ordered ! offset) (fold (\<lambda>i. count_lid sw lidsRoutedInc (at i)) [0..<numLids] st))))"

definition sm_routing_func_setup_xft :: "route_env \<Rightarrow> rt_switch \<Rightarrow> end_port \<Rightarrow> route_state \<Rightarrow>
    (Status_t \<times> u8 list \<times> route_state) c_result option" where
  "sm_routing_func_setup_xft env switchp dst st =
     (let numLids = unat (push_bit (d_lmc dst) 1 :: u8);
          lidsRoutedInc = (if d_is_switch dst then 0 else 1);
          i = swIdx (sw_self switchp)
      in case dest_switch dst of
           None \<Rightarrow> Some (Inr (VSTATUS_BAD, replicate numLids 0xff, st))
         | Some j \<Rightarrow>
             if j = i then Some (Inr (VSTATUS_OK, replicate numLids (d_portno dst), st))
             else if d_lmc dst = 0
             then (case select_ports env st switchp j True of
                     [] \<Rightarrow> Some (Inr (VSTATUS_BAD, replicate numLids 0xff, st))
                   | e # _ \<Rightarrow> Some (Inr (VSTATUS_OK, [entry_portno e],
                       if entry_portno e \<noteq> 0xff \<and> \<not> d_is_switch dst then count_lid i lidsRoutedInc e st else st)))
             else (case select_ports env st switchp j False of
                     [] \<Rightarrow> Some (Inr (VSTATUS_BAD, replicate numLids 0xff, st))
                   | sel \<Rightarrow> spread_lids env switchp numLids lidsRoutedInc sel st))"

section \<open>The tables\<close>

definition sm_Node_init_lft :: "(nat \<Rightarrow> bool) \<Rightarrow> rt_switch \<Rightarrow> route_state \<Rightarrow> Status_t \<times> route_state" where
  "sm_Node_init_lft alloc switchp st =
     (let i = swIdx (sw_self switchp); sizeLft = ROUNDUP (LinearFDBTop switchp + 1) 64 in
      if LinearFDBCap switchp = 0 then (VSTATUS_OK, st)
      else if alloc sizeLft then (VSTATUS_OK, st\<lparr>lft := (lft st)(i := Some (replicate sizeLft 0xff))\<rparr>)
      else (VSTATUS_NOMEM, st\<lparr>lft := (lft st)(i := None)\<rparr>))"

fun write_lft :: "nat \<Rightarrow> u8 list \<Rightarrow> nat list \<Rightarrow> u8 list \<Rightarrow> u8 list c_result" where
  "write_lft lid xftPorts [] t = Inr t"
| "write_lft lid xftPorts (portLid # lids) t =
     (if portLid < length t \<and> portLid - lid < length xftPorts
      then write_lft lid xftPorts lids (t[portLid := xftPorts ! (portLid - lid)]) else Inl OutOfBounds)"

text \<open>A step of a calculation, and steps in order up to the first that fails.\<close>

type_synonym lft_step = "route_state \<Rightarrow> (Status_t \<times> route_state) c_result option"

fun run_steps :: "lft_step list \<Rightarrow> lft_step" where
  "run_steps [] st = Some (Inr (VSTATUS_OK, st))"
| "run_steps (f # fs) st =
     (case f st of
        Some (Inr (status, st')) \<Rightarrow> if status = VSTATUS_OK then run_steps fs st' else Some (Inr (status, st'))
      | r \<Rightarrow> r)"

definition init_step :: "(nat \<Rightarrow> bool) \<Rightarrow> rt_switch \<Rightarrow> lft_step" where
  "init_step alloc switchp st = Some (Inr (sm_Node_init_lft alloc switchp st))"

definition write_step :: "rt_switch \<Rightarrow> end_port \<Rightarrow> u8 list \<Rightarrow> lft_step" where
  "write_step switchp dst xftPorts st =
     (let i = swIdx (sw_self switchp) in
      case lft st i of
        None \<Rightarrow> Some (Inl NullDeref)
      | Some t \<Rightarrow> Some (map_sum id (\<lambda>t'. (VSTATUS_OK, st\<lparr>lft := (lft st)(i := Some t')\<rparr>))
                     (write_lft (d_lid dst) xftPorts (port_lids (d_lid dst) (d_lmc dst)) t)))"

text \<open>A port of a node: the port, whether it is valid, its state.\<close>

record lid_port =
  lp_port :: end_port
  lp_valid :: bool
  lp_state :: u8

definition setup_pgs_step :: "(nat \<Rightarrow> bool) \<Rightarrow> route_env \<Rightarrow> rt_switch \<Rightarrow> lid_port \<Rightarrow> lft_step" where
  "setup_pgs_step alloc env switchp lp st =
     (if d_is_switch (lp_port lp) then Some (sm_routing_func_setup_pgs alloc env switchp (lp_port lp) (lp_valid lp) st)
      else Some (Inr (VSTATUS_OK, st)))"

text \<open>The body of the loop of \<open>sm_calculate_all_lfts\<close> for a switch: the port groups come before the table.\<close>

definition program_switch :: "(nat \<Rightarrow> bool) \<Rightarrow> route_env \<Rightarrow> lid_port \<Rightarrow> rt_switch \<Rightarrow> lft_step" where
  "program_switch alloc env lp switchp st =
     (case sm_routing_func_setup_xft env switchp (lp_port lp) st of
        None \<Rightarrow> None
      | Some (Inl e) \<Rightarrow> Some (Inl e)
      | Some (Inr (status, xftPorts, st1)) \<Rightarrow>
          if status \<noteq> VSTATUS_OK then Some (Inr (status, st1))
          else run_steps [setup_pgs_step alloc env switchp lp, write_step switchp (lp_port lp) xftPorts] st1)"

definition programLft :: "lid_port \<Rightarrow> nat \<Rightarrow> bool" where
  "programLft lp lid \<longleftrightarrow> lp_valid lp \<and> lp_state lp > 1 \<and> lid = d_lid (lp_port lp)"

text \<open>The order of the work: the LIDs over the edge switches, then over the others.\<close>

definition lft_order :: "rt_switch list \<Rightarrow> (nat \<Rightarrow> lid_port option) \<Rightarrow> nat \<Rightarrow> (lid_port \<times> rt_switch) list" where
  "lft_order switches lidmap maxLid =
     concat (map (\<lambda>i. concat (map (\<lambda>lid.
         case lidmap lid of
           None \<Rightarrow> []
         | Some lp \<Rightarrow> if programLft lp lid
             then map (Pair lp) (filter (\<lambda>sw. if i = 0 then edgeSwitch sw else \<not> edgeSwitch sw) switches) else [])
       [0..<maxLid + 1])) [0, 1::nat])"

definition sm_calculate_all_lfts :: "(nat \<Rightarrow> bool) \<Rightarrow> route_env \<Rightarrow> rt_switch list \<Rightarrow> (nat \<Rightarrow> lid_port option) \<Rightarrow> nat \<Rightarrow> lft_step" where
  "sm_calculate_all_lfts alloc env switches lidmap maxLid =
     run_steps (map (init_step alloc) switches @
       map (\<lambda>(lp, sw). program_switch alloc env lp sw) (lft_order switches lidmap maxLid))"

text \<open>One switch alone, over the end ports of all nodes; here the port groups come last, for ports that are down too.\<close>

definition calculate_port :: "(nat \<Rightarrow> bool) \<Rightarrow> route_env \<Rightarrow> rt_switch \<Rightarrow> lid_port \<Rightarrow> lft_step" where
  "calculate_port alloc env switchp lp st =
     (if lp_valid lp \<and> lp_state lp > 1
      then case sm_routing_func_setup_xft env switchp (lp_port lp) st of
             None \<Rightarrow> None
           | Some (Inl e) \<Rightarrow> Some (Inl e)
           | Some (Inr (status, xftPorts, st1)) \<Rightarrow>
               if status \<noteq> VSTATUS_OK then Some (Inr (status, st1))
               else run_steps [write_step switchp (lp_port lp) xftPorts, setup_pgs_step alloc env switchp lp] st1
      else setup_pgs_step alloc env switchp lp st)"

definition sm_calculate_lft :: "(nat \<Rightarrow> bool) \<Rightarrow> route_env \<Rightarrow> lid_port list \<Rightarrow> rt_switch \<Rightarrow> lft_step" where
  "sm_calculate_lft alloc env end_ports switchp =
     run_steps (init_step alloc switchp # map (calculate_port alloc env switchp) end_ports)"

text \<open>The ports towards a switch in the order of the switches behind them, in an array of 128.\<close>

definition sm_routing_func_get_port_group :: "route_env \<Rightarrow> rt_switch \<Rightarrow> end_port \<Rightarrow> route_state \<Rightarrow> u8 list \<times> nat" where
  "sm_routing_func_get_port_group env switchp dst st =
     (if \<not> d_is_switch dst \<or> d_swIdx dst = swIdx (sw_self switchp) then (replicate 128 0xff, 0)
      else let ordered = re_qsort env compare_guids (select_ports env st switchp (d_swIdx dst) False) in
        (map entry_portno ordered @ replicate (128 - length ordered) 0xff, length ordered))"

section \<open>A port is found\<close>

text \<open>As long as no port is chosen, the best speed is 0 and no spine port has been met.\<close>

definition sel_inv :: "sel_state \<Rightarrow> bool" where
  "sel_inv s \<longleftrightarrow> (ordered_ports s = [] \<longrightarrow> best_speed s = 0 \<and> \<not> sf_matching s)"

lemma consider_port_inv:
  "sel_inv s \<Longrightarrow> sel_inv (consider_port sb portp nd s)"
  "ordered_ports s \<noteq> [] \<Longrightarrow> ordered_ports (consider_port sb portp nd s) \<noteq> []"
  "best_speed s = 0 \<Longrightarrow> op_portSpeed portp > 0 \<Longrightarrow> ordered_ports (consider_port sb portp nd s) \<noteq> []"
  by (auto simp: sel_inv_def consider_port_def Let_def record_best_def)

lemma select_port_options:
  "select_port sc sb g i port s = s \<or> (\<exists>portp nd. select_port sc sb g i port s = consider_port sb portp nd s) \<or>
   ordered_ports (select_port sc sb g i port s) \<noteq> []"
proof -
  have "sf_matching s \<Longrightarrow> s\<lparr>sf_matching := True\<rparr> = s" "\<not> sf_matching s \<Longrightarrow> s\<lparr>sf_matching := False\<rparr> = s" by (cases s; simp)+
  note m = this
  show ?thesis
    by (cases "sf_matching s") (auto simp: m select_port_def spine_first_test_def split: option.splits)
qed

lemma select_port_inv:
  assumes "sel_inv s"
  shows "sel_inv (select_port sc sb g i port s)"
    and "ordered_ports s \<noteq> [] \<Longrightarrow> ordered_ports (select_port sc sb g i port s) \<noteq> []"
    and "port = Some portp \<Longrightarrow> op_valid portp \<Longrightarrow> op_state portp > 1 \<Longrightarrow> op_next portp = Some nd \<Longrightarrow> swIdx nd \<noteq> i \<Longrightarrow>
      op_portSpeed portp > 0 \<Longrightarrow> ordered_ports (select_port sc sb g i port s) \<noteq> []"
proof -
  show "sel_inv (select_port sc sb g i port s)"
    using select_port_options[of sc sb g i port s] assms consider_port_inv(1)[OF assms] unfolding sel_inv_def by metis
  show "ordered_ports s \<noteq> [] \<Longrightarrow> ordered_ports (select_port sc sb g i port s) \<noteq> []"
    by (auto simp: select_port_def consider_port_inv(2) split: option.splits SpineFirstResult.splits prod.splits)
  assume p: "port = Some portp" "op_valid portp" "op_state portp > 1" "op_next portp = Some nd" "swIdx nd \<noteq> i" "op_portSpeed portp > 0"
  have d: "\<not> op_state portp \<le> 1" using p(3) by (simp add: not_le)
  have c: "ordered_ports (consider_port sb portp nd (s\<lparr>sf_matching := mt\<rparr>)) \<noteq> []" for mt
    using consider_port_inv(2)[of "s\<lparr>sf_matching := mt\<rparr>" sb portp nd] consider_port_inv(3)[of "s\<lparr>sf_matching := mt\<rparr>" portp sb nd] assms p(6) by (auto simp: sel_inv_def)
  have "ordered_ports (consider_port sb portp nd s) \<noteq> []"
    using consider_port_inv(2)[of s sb portp nd] consider_port_inv(3)[of s portp sb nd] assms p(6) by (auto simp: sel_inv_def)
  then show "ordered_ports (select_port sc sb g i port s) \<noteq> []"
    using p(1,2,4) p(5)[symmetric] d c assms
    by (auto simp: select_port_def spine_first_test_def sel_inv_def)
qed

lemma fold_select_inv:
  assumes "sel_inv s"
  shows "sel_inv (fold (\<lambda>p. select_port sc sb g i (get_port p)) ps s)"
    and "ordered_ports s \<noteq> [] \<Longrightarrow> ordered_ports (fold (\<lambda>p. select_port sc sb g i (get_port p)) ps s) \<noteq> []"
  using assms by (induction ps arbitrary: s) (simp_all add: select_port_inv)

lemma select_ports_nonempty:
  assumes "in_mask p ports" "get_port p = Some portp" "op_valid portp" "op_state portp > 1" "op_next portp = Some nd"
    "swIdx nd \<noteq> swIdx switchp" "op_portSpeed portp > 0"
  shows "sm_routing_func_select_ports sc sb switchp get_port ports \<noteq> []"
proof -
  let ?s = "\<lparr>best_speed = 0, best_lidsRouted = 0xffff, best_switchLidsRouted = 0xffffffff, sf_matching = False, ordered_ports = []\<rparr>"
  obtain ps qs where pq: "mask_ports ports = ps @ p # qs" using assms(1) set_mask_ports by (metis mem_Collect_eq split_list)
  have "sel_inv ?s" by (simp add: sel_inv_def)
  note i = fold_select_inv(1)[OF this, of sc sb "SystemImageGUID switchp" "swIdx switchp" get_port ps]
  have "ordered_ports (select_port sc sb (SystemImageGUID switchp) (swIdx switchp) (get_port p)
      (fold (\<lambda>p. select_port sc sb (SystemImageGUID switchp) (swIdx switchp) (get_port p)) ps ?s)) \<noteq> []"
    by (rule select_port_inv(3)[OF i assms(2-7)])
  then show ?thesis unfolding sm_routing_func_select_ports_def select_loop_fold[OF mask_ports_length] pq
    using fold_select_inv(2)[OF select_port_inv(1)[OF i]] by simp
qed

section \<open>LIDs are spread evenly\<close>

lemma window_count:
  fixes N off q :: nat
  assumes "q < k"
  shows "card {i \<in> {N..<N + k}. (i + off) mod k = q} = 1"
proof -
  have inj: "inj_on (\<lambda>i. (i + off) mod k) {N..<N + k}"
  proof (rule linorder_inj_onI')
    fix x y :: nat assume "x \<in> {N..<N + k}" "y \<in> {N..<N + k}" "x < y"
    then have "0 < (y + off) - (x + off)" "(y + off) - (x + off) < k" by auto
    then have "\<not> k dvd (y + off) - (x + off)" by (simp add: nat_dvd_not_less)
    then show "(x + off) mod k \<noteq> (y + off) mod k" using \<open>x < y\<close> by (metis add_le_mono1 less_imp_le mod_eq_dvd_iff_nat)
  qed
  have "(\<lambda>i. (i + off) mod k) ` {N..<N + k} = {..<k}"
    by (rule card_subset_eq) (use assms in \<open>auto simp: card_image[OF inj]\<close>)
  then have "q \<in> (\<lambda>i. (i + off) mod k) ` {N..<N + k}" using assms by simp
  then obtain i where i: "i \<in> {N..<N + k}" "(i + off) mod k = q" by blast
  have "j = i" if "j \<in> {N..<N + k}" "(j + off) mod k = q" for j using inj_onD[OF inj _ that(1) i(1)] that(2) i(2) by simp
  then have "{i \<in> {N..<N + k}. (i + off) mod k = q} = {i}" using i by blast
  then show ?thesis by simp
qed

lemma spread_count:
  assumes "q < k"
  shows "card {i. i < N \<and> (i + off) mod k = q} \<in> {N div k, N div k + 1}"
proof -
  let ?c = "\<lambda>N. card {i. i < N \<and> (i + off) mod k = q}"
  have step: "?c (N + k) = ?c N + 1" for N
  proof -
    have "{i. i < N + k \<and> (i + off) mod k = q} = {i. i < N \<and> (i + off) mod k = q} \<union> {i \<in> {N..<N + k}. (i + off) mod k = q}" by auto
    moreover have "card \<dots> = ?c N + card {i \<in> {N..<N + k}. (i + off) mod k = q}" by (rule card_Un_disjoint) auto
    ultimately show ?thesis using window_count[OF assms] by simp
  qed
  have mult: "?c (r + m * k) = ?c r + m" for r m
  proof (induction m)
    case (Suc m)
    then show ?case using step[of "r + m * k"] by (simp add: add.assoc add.commute[of k])
  qed simp
  have "?c (N mod k) \<le> ?c (0 + k)" 
  proof (rule card_mono)
    have "N mod k < k" using assms by simp
    then show "{i. i < N mod k \<and> (i + off) mod k = q} \<subseteq> {i. i < 0 + k \<and> (i + off) mod k = q}" by force
  qed simp
  then have "?c (N mod k) \<le> 1" using step[of 0] by simp
  moreover have "?c N = ?c (N mod k) + N div k" using mult[of "N mod k" "N div k"] by (simp add: mod_div_mult_eq)
  ultimately have "?c N = N div k \<or> ?c N = N div k + 1" by linarith
  then show ?thesis unfolding insert_iff by blast
qed

lemma count_list_card: "count_list xs y = card {i. i < length xs \<and> xs ! i = y}"
  by (simp add: count_list_eq_length_filter length_filter_conv_card eq_commute)

lemma spread_list:
  fixes off N :: nat
  assumes "distinct ks" "ks \<noteq> []"
  defines "xs \<equiv> map (\<lambda>i. ks ! ((i + off) mod length ks)) [0..<N]"
  shows "y \<in> set ks \<Longrightarrow> count_list xs y \<in> {N div length ks, N div length ks + 1}"
    and "y \<notin> set ks \<Longrightarrow> count_list xs y = 0"
proof -
  have m: "(i + off) mod length ks < length ks" for i using assms(2) by simp
  show "count_list xs y = 0" if "y \<notin> set ks"
    using that nth_mem[OF m] by (auto simp: xs_def count_list_0_iff)
  assume "y \<in> set ks"
  then obtain q where q: "q < length ks" "ks ! q = y" by (metis in_set_conv_nth)
  have "xs ! i = y \<longleftrightarrow> (i + off) mod length ks = q" if "i < N" for i
    using that q(1) m[of i] assms(1) by (simp add: xs_def q(2)[symmetric] nth_eq_iff_index_eq)
  then have "{i. i < length xs \<and> xs ! i = y} = {i. i < N \<and> (i + off) mod length ks = q}" using length_map[of _ "[0..<N]"] by (metis (no_types, lifting) xs_def length_upt minus_nat.diff_0)
  then show "count_list xs y \<in> {N div length ks, N div length ks + 1}"
    unfolding count_list_card using spread_count[OF q(1)] by simp
qed

text \<open>A selected port occurs once.\<close>

lemma select_port_indices:
  assumes "\<And>p portp. get_port p = Some portp \<Longrightarrow> op_index portp = p"
    "distinct (map (\<lambda>e. op_index (spt_portp e)) (ordered_ports s))" "\<forall>e\<in>set (ordered_ports s). op_index (spt_portp e) \<noteq> p"
  shows "distinct (map (\<lambda>e. op_index (spt_portp e)) (ordered_ports (select_port sc sb g i (get_port p) s))) \<and>
    (\<forall>e\<in>set (ordered_ports (select_port sc sb g i (get_port p) s)). e \<in> set (ordered_ports s) \<or> op_index (spt_portp e) = p)"
proof -
  have "distinct (map (\<lambda>e. op_index (spt_portp e)) (ordered_ports (consider_port sb portp nd (s\<lparr>sf_matching := mt\<rparr>)))) \<and>
      (\<forall>e\<in>set (ordered_ports (consider_port sb portp nd (s\<lparr>sf_matching := mt\<rparr>))). e \<in> set (ordered_ports s) \<or> op_index (spt_portp e) = p)"
      "distinct (map (\<lambda>e. op_index (spt_portp e)) (ordered_ports (consider_port sb portp nd s))) \<and>
      (\<forall>e\<in>set (ordered_ports (consider_port sb portp nd s)). e \<in> set (ordered_ports s) \<or> op_index (spt_portp e) = p)"
    if "op_index portp = p" for portp nd mt
    using assms(2,3) that by (auto simp: consider_port_def Let_def record_best_def entry_of_def)
  note c = this[OF assms(1)]
  show ?thesis
    using assms c by (auto simp: select_port_def entry_of_def split: option.splits SpineFirstResult.splits prod.splits)
qed

lemma select_ports_indices:
  assumes "\<And>p portp. get_port p = Some portp \<Longrightarrow> op_index portp = p"
  shows "distinct (map (\<lambda>e. op_index (spt_portp e)) (sm_routing_func_select_ports sc sb switchp get_port ports))"
proof -
  have "distinct (map (\<lambda>e. op_index (spt_portp e)) (ordered_ports (fold (\<lambda>p. select_port sc sb g i (get_port p)) ps s)))"
    if "distinct ps" "distinct (map (\<lambda>e. op_index (spt_portp e)) (ordered_ports s))" "\<forall>p\<in>set ps. \<forall>e\<in>set (ordered_ports s). op_index (spt_portp e) \<noteq> p"
    for ps s g i
    using that
  proof (induction ps arbitrary: s)
    case (Cons p ps)
    have "distinct (map (\<lambda>e. op_index (spt_portp e)) (ordered_ports (select_port sc sb g i (get_port p) s))) \<and>
        (\<forall>e\<in>set (ordered_ports (select_port sc sb g i (get_port p) s)). e \<in> set (ordered_ports s) \<or> op_index (spt_portp e) = p)"
      using Cons.prems by (intro select_port_indices[OF assms]) (auto simp: comp_def)
    then have d: "distinct (map (\<lambda>e. op_index (spt_portp e)) (ordered_ports (select_port sc sb g i (get_port p) s)))"
      and "\<forall>q\<in>set ps. \<forall>e\<in>set (ordered_ports (select_port sc sb g i (get_port p) s)). op_index (spt_portp e) \<noteq> q"
      using Cons.prems by (simp_all, metis)
    then show ?case using Cons.prems(1) Cons.IH by simp
  qed simp
  moreover have "distinct (mask_ports ports)" by (simp add: mask_ports_def)
  ultimately show ?thesis
    unfolding sm_routing_func_select_ports_def select_loop_fold[OF mask_ports_length] by simp
qed

lemma count_lid_keeps [simp]:
  "lft (count_lid sw inc e st) = lft st" "groups_of (count_lid sw inc e st) = groups_of st"
  "lft (count_base_lid sw e st) = lft st" "groups_of (count_base_lid sw e st) = groups_of st"
  "lidsRouted (count_base_lid sw e st) = lidsRouted st"
  by (simp_all add: count_lid_def count_base_lid_def Let_def)

lemma fold_count_lid:
  "lft (fold (\<lambda>i. count_lid sw inc (at i)) is st) = lft st \<and> groups_of (fold (\<lambda>i. count_lid sw inc (at i)) is st) = groups_of st \<and>
   lidsRouted (fold (\<lambda>i. count_lid sw inc (at i)) is st) sw p =
     lidsRouted st sw p + inc * of_nat (count_list (map (\<lambda>i. op_index (spt_portp (at i))) is) p)"
proof (induction "is" arbitrary: st)
  case (Cons i "is")
  have "lidsRouted (count_lid sw inc (at i) st) sw p = lidsRouted st sw p + (if op_index (spt_portp (at i)) = p then inc else 0)"
    by (simp add: count_lid_def Let_def)
  then show ?case using Cons.IH[of "count_lid sw inc (at i) st"] by (simp add: algebra_simps)
qed simp

abbreviation port_index :: "SwitchportToNextGuid \<Rightarrow> nat" where
  "port_index e \<equiv> op_index (spt_portp e)"

lemma spread_lids_result:
  assumes "qsort_ok (re_qsort env)" "sel \<noteq> []" "\<forall>e\<in>set sel. spt_guid e \<noteq> 0" "length sel < 65536" "0 < numLids"
  obtains ks off st' where "length ks = min numLids (length sel)" "mset ks \<subseteq># mset (map port_index sel)"
    "spread_lids env switchp numLids inc sel st =
       Some (Inr (VSTATUS_OK, map (\<lambda>i. of_nat (ks ! ((i + off) mod length ks))) [0..<numLids], st'))"
    "lft st' = lft st" "groups_of st' = groups_of st"
    "\<And>p. lidsRouted st' (swIdx (sw_self switchp)) p = lidsRouted st (swIdx (sw_self switchp)) p +
       inc * of_nat (count_list (map (\<lambda>i. ks ! ((i + off) mod length ks)) [0..<numLids]) p)"
proof -
  obtain qs where qs: "balance_ports (re_qsort env) (internalLinks switchp) sel = Some (Inr qs)" "mset (map unmarked qs) = mset (map unmarked sel)"
    using balance_ports_ok[OF assms(1,3,4)] by blast
  define os where "os = take numLids qs"
  let ?sw = "swIdx (sw_self switchp)"
  define off where "off = sm_balance_base_lids st ?sw os"
  let ?at = "\<lambda>i. os ! ((i + off) mod length os)"
  have len: "length qs = length sel" using arg_cong[OF qs(2), of size] by simp
  then have ne: "os \<noteq> []" using assms(2,5) by (auto simp: os_def)
  let ?ks = "map port_index os"
  have "image_mset port_index (mset (map unmarked qs)) = image_mset port_index (mset (map unmarked sel))" using qs(2) by simp
  then have m: "mset (map port_index qs) = mset (map port_index sel)" by (simp add: image_mset.compositionality comp_def)
  have "mset ?ks \<subseteq># mset (map port_index qs)" unfolding os_def take_map[symmetric]
    by (metis append_take_drop_id mset_append mset_subset_eq_add_left)
  then have sub: "mset ?ks \<subseteq># mset (map port_index sel)" using m by simp
  have at: "port_index (?at i) = ?ks ! ((i + off) mod length ?ks)" for i using ne by simp
  define st' where "st' = count_base_lid ?sw (os ! off) (fold (\<lambda>i. count_lid ?sw inc (?at i)) [0..<numLids] st)"
  have "spread_lids env switchp numLids inc sel st =
      Some (Inr (VSTATUS_OK, map (\<lambda>i. of_nat (?ks ! ((i + off) mod length ?ks))) [0..<numLids], st'))"
    unfolding spread_lids_def qs(1) using ne at by (simp add: Let_def off_def st'_def entry_portno_def os_def[symmetric])
  moreover have "lft st' = lft st" "groups_of st' = groups_of st"
    using fold_count_lid[of ?sw inc ?at "[0..<numLids]" st] by (simp_all add: st'_def)
  moreover have "lidsRouted st' ?sw p = lidsRouted st ?sw p + inc * of_nat (count_list (map (\<lambda>i. ?ks ! ((i + off) mod length ?ks)) [0..<numLids]) p)" for p
    using fold_count_lid[of ?sw inc ?at "[0..<numLids]" st p] at by (simp add: st'_def)
  moreover have "length ?ks = min numLids (length sel)" using len by (simp add: os_def)
  ultimately show ?thesis using that[OF _ sub] by blast
qed

text \<open>Ports are found under their own number, and the nodes behind them have a GUID.\<close>

definition numbered :: "route_env \<Rightarrow> nat \<Rightarrow> bool" where
  "numbered env i \<longleftrightarrow> (\<forall>p portp. sw_port_at env i p = Some portp \<longrightarrow>
     op_index portp = p \<and> (case op_next portp of None \<Rightarrow> True | Some nd \<Rightarrow> NodeGUID nd \<noteq> 0))"

lemma selected:
  assumes "e \<in> set (select_ports env st switchp j sb)" "numbered env (swIdx (sw_self switchp))"
  obtains p portp nd where "in_mask p (paths env (Index (max_sws env) (swIdx (sw_self switchp)) j))"
    "sw_port_at env (swIdx (sw_self switchp)) p = Some portp" "op_next portp = Some nd" "swIdx nd \<noteq> swIdx (sw_self switchp)"
    "port_index e = p" "spt_guid e = NodeGUID nd" "spt_guid e \<noteq> 0" "p \<le> 64"
proof -
  let ?i = "swIdx (sw_self switchp)"
  have "good_entry (live_port env st ?i) ?i (paths env (Index (max_sws env) ?i j)) e"
    using select_ports_good assms(1) unfolding select_ports_def Let_def by blast
  then obtain p portp' nd' where g: "in_mask p (paths env (Index (max_sws env) ?i j))" "live_port env st ?i p = Some portp'"
      "op_next portp' = Some nd'" "swIdx nd' \<noteq> ?i" "e = entry_of portp' nd'"
    unfolding good_entry_def by blast
  obtain portp where p: "sw_port_at env ?i p = Some portp"
      "portp' = portp\<lparr>op_lidsRouted := lidsRouted st ?i (op_index portp), op_next := map_option (live_node st) (op_next portp)\<rparr>"
    using g(2) by (auto simp: live_port_def)
  obtain nd where nd: "op_next portp = Some nd" "nd' = live_node st nd" using g(3) p(2) by auto
  have "op_index portp = p" "NodeGUID nd \<noteq> 0" using assms(2) p(1) nd(1) by (auto simp: numbered_def dest: spec[of _ p])
  then show ?thesis
    using that[OF g(1) p(1) nd(1)] g(1,4,5) p(2) nd(2) by (simp add: entry_of_def live_node_def in_mask_def)
qed

lemma select_ports_distinct:
  assumes "numbered env (swIdx (sw_self switchp))"
  shows "distinct (map port_index (select_ports env st switchp j sb))" "length (select_ports env st switchp j sb) \<le> 64"
proof -
  let ?sel = "select_ports env st switchp j sb"
  have "op_index portp = p" if "live_port env st (swIdx (sw_self switchp)) p = Some portp" for p portp
    using assms that by (auto simp: numbered_def live_port_def)
  then show d: "distinct (map port_index ?sel)" unfolding select_ports_def Let_def by (rule select_ports_indices)
  have "set (map port_index ?sel) \<subseteq> {1..64}"
  proof
    fix x assume "x \<in> set (map port_index ?sel)"
    then obtain e where "e \<in> set ?sel" "x = port_index e" by auto
    then show "x \<in> {1..64}" using selected[OF _ assms] by (metis One_nat_def Suc_leI atLeastAtMost_iff in_mask_def)
  qed
  then have "card (set (map port_index ?sel)) \<le> 64" using card_mono[of "{1..64::nat}"] by fastforce
  then show "length ?sel \<le> 64" using distinct_card[OF d] by simp
qed

lemma num_lids: "n \<le> 7 \<Longrightarrow> unat (push_bit n 1 :: u8) = 2 ^ n"
proof -
  assume "n \<le> 7"
  then have "(2 :: nat) ^ n \<le> 2 ^ 7" by (intro power_increasing) auto
  then have "unat (of_nat (2 ^ n) :: u8) = 2 ^ n" using \<open>n \<le> 7\<close> by (simp add: unsigned_of_nat take_bit_nat_eq_self del: of_nat_power)
  then show ?thesis by (simp add: push_bit_eq_mult)
qed

lemma of_nat_u8_inj: "inj_on (of_nat :: nat \<Rightarrow> u8) {0..64}"
  by (rule inj_onI) (simp add: word_of_nat_eq_iff take_bit_nat_eq_self)

lemma spread_ports:
  assumes "qsort_ok (re_qsort env)" "numbered env i" "i = swIdx (sw_self switchp)" "dest_switch dst = Some j" "j \<noteq> i"
    "0 < d_lmc dst" "d_lmc dst \<le> 7" "sel = select_ports env st switchp j False" "sel \<noteq> []"
  defines "k \<equiv> min (2 ^ d_lmc dst) (length sel)"
  obtains ks ports st' where "sm_routing_func_setup_xft env switchp dst st = Some (Inr (VSTATUS_OK, ports, st'))"
    "lft st' = lft st" "groups_of st' = groups_of st" "length ports = 2 ^ d_lmc dst"
    "set ports \<subseteq> entry_portno ` set sel" "card (set ports) = k"
    "\<And>p. p \<in> set ports \<Longrightarrow> count_list ports p \<in> {2 ^ d_lmc dst div k, 2 ^ d_lmc dst div k + 1}"
    "\<And>e. e \<in> set sel \<Longrightarrow> lidsRouted st' i (port_index e) =
       lidsRouted st i (port_index e) + (if d_is_switch dst then 0 else of_nat (count_list ports (entry_portno e)))"
proof -
  let ?inc = "if d_is_switch dst then 0 else 1 :: u16" and ?n = "2 ^ d_lmc dst :: nat"
  note num = assms(2)[unfolded assms(3)]
  note dist = select_ports_distinct[OF num, of st j False, folded assms(8)]
  have g: "\<forall>e\<in>set sel. spt_guid e \<noteq> 0 \<and> port_index e \<le> 64" using selected[OF _ num] unfolding assms(8) by metis
  obtain ks off st' where ks: "length ks = k" "mset ks \<subseteq># mset (map port_index sel)"
      "spread_lids env switchp ?n ?inc sel st = Some (Inr (VSTATUS_OK, map (\<lambda>i. of_nat (ks ! ((i + off) mod length ks))) [0..<?n], st'))"
      "lft st' = lft st" "groups_of st' = groups_of st"
      "\<And>p. lidsRouted st' i p = lidsRouted st i p + ?inc * of_nat (count_list (map (\<lambda>i. ks ! ((i + off) mod length ks)) [0..<?n]) p)"
    by (rule spread_lids_result[OF assms(1,9), of ?n switchp ?inc st, folded assms(3) k_def]) (use g dist(2) in auto)
  define ps where "ps = map (\<lambda>i. ks ! ((i + off) mod length ks)) [0..<?n]"
  have kpos: "0 < k" "k \<le> ?n" using assms(9) by (auto simp: k_def)
  obtain rs where "mset (map port_index sel) = mset (ks @ rs)" using ks(2) by (metis ex_mset mset_append subset_mset.less_eqE)
  then have "distinct (ks @ rs)" "set ks \<subseteq> set (map port_index sel)" using dist(1) mset_eq_imp_distinct_iff mset_eq_setD by (blast, fastforce)
  then have kd: "distinct ks" "ks \<noteq> []" "set ks \<subseteq> port_index ` set sel" using ks(1) kpos by auto
  have cnt: "count_list ps p \<in> {?n div k, ?n div k + 1}" if "p \<in> set ks" for p
    using spread_list(1)[OF kd(1,2) that, of off ?n] ks(1) by (simp add: ps_def)
  have "?n div k > 0" using kpos by (simp add: div_greater_zero_iff)
  then have "set ks \<subseteq> set ps" using cnt count_list_0_iff by (metis insertE less_numeral_extra(3) singletonD subsetI zero_neq_one add_is_0)
  moreover have "set ps \<subseteq> set ks" using kd(2) by (auto simp: ps_def)
  ultimately have sp: "set ps = set ks" by blast
  have small: "set ps \<subseteq> {0..64}" "\<forall>e\<in>set sel. port_index e \<in> {0..64}" using sp kd(3) g by auto
  have inj: "inj_on (of_nat :: nat \<Rightarrow> u8) (set ps)" by (rule inj_on_subset[OF of_nat_u8_inj small(1)])
  let ?ports = "map of_nat ps :: u8 list"
  have cp: "count_list ?ports (of_nat p) = count_list ps p" if "p \<in> {0..64}" for p
  proof (cases "p \<in> set ps")
    case True
    then show ?thesis by (rule count_list_inj_map[OF inj])
  next
    case False
    then have "of_nat p \<notin> set ?ports" using small(1) that inj_onD[OF of_nat_u8_inj] by fastforce
    then show ?thesis using False by simp
  qed
  have "sm_routing_func_setup_xft env switchp dst st = Some (Inr (VSTATUS_OK, ?ports, st'))"
    using assms(3-9) ks(3) num_lids[OF assms(7)] by (auto simp: sm_routing_func_setup_xft_def Let_def ps_def comp_def split: list.splits)
  moreover have "set ?ports \<subseteq> entry_portno ` set sel" using sp kd(3) by (auto simp: entry_portno_def)
  moreover have "card (set ?ports) = k" using card_image[OF inj] sp distinct_card[OF kd(1)] ks(1) by simp
  moreover have "count_list ?ports p \<in> {?n div k, ?n div k + 1}" if p: "p \<in> set ?ports" for p
  proof -
    obtain q where q: "q \<in> set ps" "p = of_nat q" using p by auto
    then show ?thesis using cnt[of q] cp[of q] small(1) sp by (metis subsetD)
  qed
  moreover have "lidsRouted st' i (port_index e) =
      lidsRouted st i (port_index e) + (if d_is_switch dst then 0 else of_nat (count_list ?ports (entry_portno e)))" if "e \<in> set sel" for e
    using ks(6)[of "port_index e"] cp[of "port_index e"] small(2) that by (simp add: ps_def[symmetric] entry_portno_def)
  ultimately show ?thesis using that[OF _ ks(4,5)] by (auto simp: ps_def)
qed

section \<open>Properties\<close>

text \<open>A \<open>qsort\<close> that meets the contract, for concrete instances.\<close>

fun insert_by :: "(SwitchportToNextGuid \<Rightarrow> SwitchportToNextGuid \<Rightarrow> int) \<Rightarrow> SwitchportToNextGuid \<Rightarrow> SwitchportToNextGuid list \<Rightarrow> SwitchportToNextGuid list" where
  "insert_by cmp x [] = [x]"
| "insert_by cmp x (y # ys) = (if cmp x y \<le> 0 then x # y # ys else y # insert_by cmp x ys)"

definition insertion_qsort :: qsort_fun where
  "insertion_qsort cmp xs = foldr (insert_by cmp) xs []"

lemma insert_by_sorted:
  assumes total: "\<And>x y. cmp x y \<le> 0 \<or> cmp y x \<le> 0" and trans: "\<And>x y z. cmp x y \<le> 0 \<Longrightarrow> cmp y z \<le> 0 \<Longrightarrow> cmp x z \<le> 0"
  shows "sorted_wrt (\<lambda>x y. cmp x y \<le> 0) xs \<Longrightarrow> sorted_wrt (\<lambda>x y. cmp x y \<le> 0) (insert_by cmp x xs)"
proof (induction xs)
  case (Cons y ys)
  have s: "set (insert_by cmp x ys) = insert x (set ys)" by (induction ys) auto
  show ?case
  proof (cases "cmp x y \<le> 0")
    case True
    then have "\<forall>z\<in>set ys. cmp x z \<le> 0" using Cons.prems trans[OF True] by simp
    then show ?thesis using True Cons.prems by simp
  next
    case False
    then have "cmp y x \<le> 0" using total[of x y] by blast
    then show ?thesis using False Cons s by simp
  qed
qed simp

lemma insertion_qsort_ok: "qsort_ok insertion_qsort"
proof -
  have i: "mset (insert_by cmp x xs) = add_mset x (mset xs)" for cmp x xs by (induction xs) auto
  have "mset (insertion_qsort cmp xs) = mset xs" for cmp xs by (induction xs) (simp_all add: insertion_qsort_def i)
  moreover have "sorted_wrt (\<lambda>x y. cmp x y \<le> 0) (insertion_qsort cmp xs)"
    if "\<forall>x y z. (cmp x y \<le> 0 \<or> cmp y x \<le> 0) \<and> (cmp x y \<le> 0 \<and> cmp y z \<le> 0 \<longrightarrow> cmp x z \<le> 0)" for cmp xs
  proof (induction xs)
    case (Cons x xs)
    have "sorted_wrt (\<lambda>x y. cmp x y \<le> 0) (insert_by cmp x (insertion_qsort cmp xs))"
      by (rule insert_by_sorted[OF _ _ Cons.IH]) (use that in blast)+
    then show ?case by (simp add: insertion_qsort_def)
  qed (simp add: insertion_qsort_def)
  ultimately show ?thesis unfolding qsort_ok_def by blast
qed

text \<open>
  C27. The LIDs of a port are spread evenly: with an LMC of 1 to 7 and a path, the set-up returns a port for
  each of the \<open>2 ^ lmc\<close> LIDs, all of them selected ports; as many different ports are used as there are,
  or as there are LIDs; and two ports in use differ by one LID at most. For an end node the counter of
  each selected port grows by the number of LIDs that go through it.
\<close>

theorem setup_xft_spreads:
  assumes "qsort_ok (re_qsort env)" and "numbered env i" and "i = swIdx (sw_self switchp)" and "dest_switch dst = Some j" and "j \<noteq> i"
    and "0 < d_lmc dst" and "d_lmc dst \<le> 7" and "sel = select_ports env st switchp j False" and "sel \<noteq> []"
  defines "k \<equiv> min (2 ^ d_lmc dst) (length sel)"
  shows "\<exists>ports st'. sm_routing_func_setup_xft env switchp dst st = Some (Inr (VSTATUS_OK, ports, st')) \<and>
    length ports = 2 ^ d_lmc dst \<and> set ports \<subseteq> entry_portno ` set sel \<and> card (set ports) = k \<and>
    (\<forall>p\<in>set ports. count_list ports p \<in> {2 ^ d_lmc dst div k, 2 ^ d_lmc dst div k + 1}) \<and>
    (\<forall>e\<in>set sel. lidsRouted st' i (op_index (spt_portp e)) = lidsRouted st i (op_index (spt_portp e)) +
       (if d_is_switch dst then 0 else of_nat (count_list ports (entry_portno e))))"
  unfolding k_def by (rule spread_ports[OF assms(1-9)]) blast

theorem setup_xft_spreads_witness:
  "\<exists>ports st'. sm_routing_func_setup_xft (ar_env\<lparr>re_qsort := insertion_qsort\<rparr>) ar_switch (ar_dst\<lparr>d_lmc := 2\<rparr>) ar_state = Some (Inr (VSTATUS_OK, ports, st')) \<and>
     length ports = 4 \<and> card (set ports) = 2"
proof -
  let ?env = "ar_env\<lparr>re_qsort := insertion_qsort\<rparr>" and ?dst = "ar_dst\<lparr>d_lmc := 2\<rparr>"
  have s: "select_ports ?env ar_state ar_switch 1 False = select_ports ar_env ar_state ar_switch 1 False"
    by (simp add: select_ports_def live_port_def[abs_def] sm_routing_func_do_spine_check_def)
  have l: "length (select_ports ?env ar_state ar_switch 1 False) = 2" unfolding s by (rule ar_selected)
  have n: "numbered ?env 0" by (auto simp: numbered_def ar_env_def ar_port_def)
  have d: "0 = swIdx (sw_self ar_switch)" "dest_switch ?dst = Some 1" "(1 :: nat) \<noteq> 0" "0 < d_lmc ?dst" "d_lmc ?dst \<le> 7" "qsort_ok (re_qsort ?env)"
    using insertion_qsort_ok by (simp_all add: ar_switch_def dest_switch_def ar_dst_def)
  have "select_ports ?env ar_state ar_switch 1 False \<noteq> []" using l by auto
  from setup_xft_spreads[OF d(6) n d(1-5) refl this] l show ?thesis by auto
qed

end
