(* ===== verification/SmLfts.thy ===== *)
theory SmLfts
  imports SmXft
begin

text \<open>
  The calculation of all forwarding tables returns, and every entry it writes is right: the port of the
  end node on the switch it is attached to, and elsewhere a port of the path mask that leads to another
  switch. On the path matrix of a fabric, routes along the tables arrive.
\<close>

section \<open>Every table entry is a port on a shortest path\<close>

text \<open>
  Port \<open>p\<close> of switch \<open>i\<close> is up and leads to switch \<open>k\<close>; the path masks hold such ports only, where \<open>nb\<close>
  says what they lead to.
\<close>

definition leads :: "route_env \<Rightarrow> nat \<Rightarrow> nat \<Rightarrow> nat \<Rightarrow> bool" where
  "leads env i p k \<longleftrightarrow> (case sw_port_at env i p of
     None \<Rightarrow> False
   | Some portp \<Rightarrow> op_valid portp \<and> op_state portp > 1 \<and> op_portSpeed portp > 0 \<and>
       (case op_next portp of None \<Rightarrow> False | Some nd \<Rightarrow> swIdx nd = k))"

abbreviation path_mask :: "route_env \<Rightarrow> nat \<Rightarrow> nat \<Rightarrow> u64" where
  "path_mask env i j \<equiv> paths env (Index (max_sws env) i j)"

definition masks_ok :: "route_env \<Rightarrow> (nat \<Rightarrow> nat \<Rightarrow> nat) \<Rightarrow> bool" where
  "masks_ok env nb \<longleftrightarrow> (\<forall>i < max_sws env. \<forall>j < max_sws env. \<forall>p. in_mask p (path_mask env i j) \<longrightarrow> leads env i p (nb i p))"

definition entry_ok :: "route_env \<Rightarrow> (nat \<Rightarrow> nat \<Rightarrow> nat) \<Rightarrow> nat \<Rightarrow> end_port \<Rightarrow> u8 \<Rightarrow> bool" where
  "entry_ok env nb i dst v \<longleftrightarrow> (\<forall>j. dest_switch dst = Some j \<longrightarrow>
     (if i = j then v = d_portno dst else in_mask (unat v) (path_mask env i j) \<and> nb i (unat v) \<noteq> i))"

definition dest_ok :: "route_env \<Rightarrow> (nat \<Rightarrow> nat \<Rightarrow> nat) \<Rightarrow> end_port \<Rightarrow> bool" where
  "dest_ok env nb dst \<longleftrightarrow> d_lmc dst \<le> 7 \<and> (case dest_switch dst of
     None \<Rightarrow> False
   | Some j \<Rightarrow> j < max_sws env \<and> (\<forall>i < max_sws env. i \<noteq> j \<longrightarrow> (\<exists>p. in_mask p (path_mask env i j) \<and> nb i p \<noteq> i)))"

lemma selected_entry_ok:
  assumes "e \<in> set (select_ports env st switchp j sb)" "numbered env i" "i = swIdx (sw_self switchp)" "masks_ok env nb"
    "i < max_sws env" "j < max_sws env" "dest_switch dst = Some j" "i \<noteq> j"
  shows "entry_ok env nb i dst (entry_portno e)"
proof -
  obtain p portp nd where p: "in_mask p (path_mask env i j)" "sw_port_at env i p = Some portp" "op_next portp = Some nd" "swIdx nd \<noteq> i"
      "port_index e = p" "p \<le> 64"
    using selected[OF assms(1) assms(2)[unfolded assms(3)]] unfolding assms(3) by metis
  have "unat (entry_portno e) = p" using p(5,6) by (simp add: entry_portno_def unsigned_of_nat take_bit_nat_eq_self)
  moreover have "nb i p \<noteq> i" 
  proof -
    have "leads env i p (nb i p)" using assms(4,5,6) p(1) by (simp add: masks_ok_def)
    then show ?thesis using p(2-4) by (simp add: leads_def)
  qed
  ultimately show ?thesis using p(1) assms(7,8) by (simp add: entry_ok_def)
qed

lemma select_ports_found:
  assumes "masks_ok env nb" "i = swIdx (sw_self switchp)" "i < max_sws env" "j < max_sws env" "in_mask p (path_mask env i j)" "nb i p \<noteq> i"
  shows "select_ports env st switchp j sb \<noteq> []"
proof -
  have "leads env i p (nb i p)" using assms(1,3,4,5) by (simp add: masks_ok_def)
  then obtain portp nd where p: "sw_port_at env i p = Some portp" "op_valid portp" "op_state portp > 1" "op_portSpeed portp > 0"
      "op_next portp = Some nd" "swIdx nd = nb i p"
    by (auto simp: leads_def split: option.splits)
  show ?thesis unfolding select_ports_def Let_def assms(2)[symmetric]
    by (rule select_ports_nonempty[OF assms(5), where portp = "portp\<lparr>op_lidsRouted := lidsRouted st i (op_index portp), op_next := Some (live_node st nd)\<rparr>"
          and nd = "live_node st nd"]) (use p assms(2,6) in \<open>auto simp: live_port_def live_node_def\<close>)
qed

lemma setup_xft_ok:
  assumes "qsort_ok (re_qsort env)" "numbered env i" "i = swIdx (sw_self switchp)" "masks_ok env nb" "i < max_sws env" "dest_ok env nb dst"
  obtains ports st' where "sm_routing_func_setup_xft env switchp dst st = Some (Inr (VSTATUS_OK, ports, st'))" "length ports = 2 ^ d_lmc dst"
    "\<forall>v\<in>set ports. entry_ok env nb i dst v" "lft st' = lft st" "groups_of st' = groups_of st"
proof -
  obtain j where j: "dest_switch dst = Some j" "j < max_sws env" "d_lmc dst \<le> 7" "i \<noteq> j \<Longrightarrow> \<exists>p. in_mask p (path_mask env i j) \<and> nb i p \<noteq> i"
    using assms(5,6) by (auto simp: dest_ok_def split: option.splits)
  note n = num_lids[OF j(3)]
  note ok = selected_entry_ok[OF _ assms(2-5) j(2,1)]
  show ?thesis
  proof (cases "i = j")
    case True
    then have "sm_routing_func_setup_xft env switchp dst st = Some (Inr (VSTATUS_OK, replicate (2 ^ d_lmc dst) (d_portno dst), st))"
      using j(1) assms(3) n by (simp add: sm_routing_func_setup_xft_def Let_def)
    then show ?thesis using that True j(1) by (simp add: entry_ok_def)
  next
    case False
    have ne: "select_ports env st switchp j sb \<noteq> []" for sb using select_ports_found[OF assms(4,3,5) j(2)] j(4)[OF False] by blast
    show ?thesis
    proof (cases "d_lmc dst = 0")
      case True
      obtain e es where e: "select_ports env st switchp j True = e # es" using ne[of True] by (cases "select_ports env st switchp j True") auto
      define st' where "st' = (if entry_portno e \<noteq> 0xff \<and> \<not> d_is_switch dst then count_lid i (if d_is_switch dst then 0 else 1) e st else st)"
      have "sm_routing_func_setup_xft env switchp dst st = Some (Inr (VSTATUS_OK, [entry_portno e], st'))"
        using False True j(1) assms(3) e by (auto simp: sm_routing_func_setup_xft_def Let_def st'_def)
      then show ?thesis using that[of "[entry_portno e]" st'] ok[of e st True] e False True by (simp add: st'_def)
    next
      case lmc: False
      then obtain ports st' where "sm_routing_func_setup_xft env switchp dst st = Some (Inr (VSTATUS_OK, ports, st'))"
          "lft st' = lft st" "groups_of st' = groups_of st" "length ports = 2 ^ d_lmc dst" "set ports \<subseteq> entry_portno ` set (select_ports env st switchp j False)"
        using spread_ports[OF assms(1,2,3) j(1) False[symmetric] _ j(3) refl ne] by (metis bot_nat_0.not_eq_extremum)
      then show ?thesis using that ok[of _ st False] False by blast
    qed
  qed
qed

section \<open>The tables of all switches\<close>

lemma write_lft_ok:
  assumes "\<forall>l\<in>set ls. l < length t \<and> l - lid < length xft"
  obtains t' where "write_lft lid xft ls t = Inr t'" "length t' = length t"
    "\<And>x. x < length t \<Longrightarrow> t' ! x = (if x \<in> set ls then xft ! (x - lid) else t ! x)"
  using assms
proof (induction ls arbitrary: t thesis)
  case (Cons l ls)
  obtain t' where "write_lft lid xft ls (t[l := xft ! (l - lid)]) = Inr t'" "length t' = length t"
      "\<And>x. x < length t \<Longrightarrow> t' ! x = (if x \<in> set ls then xft ! (x - lid) else t[l := xft ! (l - lid)] ! x)"
    using Cons.IH[of "t[l := xft ! (l - lid)]"] Cons.prems(2) by auto
  then show ?case using Cons.prems by (intro Cons.prems(1)[of t']) (auto simp: nth_list_update)
qed simp

text \<open>If adaptive routing is on for a switch, it has a group table.\<close>

definition groups_ready :: "route_env \<Rightarrow> route_state \<Rightarrow> rt_switch \<Rightarrow> bool" where
  "groups_ready env st sw \<longleftrightarrow> (ar_enable env \<and> arSupport sw \<longrightarrow> IsAdaptiveRoutingSupported sw \<and>
     pgt (groups_of st (swIdx (sw_self sw))) \<noteq> None \<and> pg_ok (PortGroupCap sw) (groups_of st (swIdx (sw_self sw))))"

lemma setup_pgs_keeps_pgt:
  assumes "sm_routing_func_setup_pgs alloc env src dst v st = Inr (r, st')" "pgt (groups_of st (swIdx (sw_self src))) \<noteq> None"
  shows "pgt (groups_of st' (swIdx (sw_self src))) \<noteq> None"
proof -
  have w: "pgt (fold (write_pgid g) ls pg) = pgt pg" for g ls pg
    by (induction ls arbitrary: pg) (auto simp: write_pgid_def split: option.splits)
  from assms(1) show ?thesis
  proof (cases rule: setup_pgs_cases)
    case (push rc pgid len t t' f pg2)
    have "pgt pg2 = Some t'" by (subst get_pgft_wr_cases(1)[OF push(5)]) simp
    then show ?thesis using push(7) by (simp add: w del: fold_append)
  qed (use assms(2) in simp_all)
qed

lemma get_pgft_wr_total:
  assumes "\<And>k. alloc k" "IsAdaptiveRoutingSupported sw"
  shows "\<exists>f pg2. sm_Node_get_pgft_wr alloc sw pg = (Some f, pg2)"
  using assms by (simp add: sm_Node_get_pgft_wr_def Let_def split: option.splits)

lemma setup_pgs_total:
  assumes "\<And>k. alloc k" "IsAdaptiveRoutingSupported sw" "pgt (groups_of st (swIdx (sw_self sw))) = Some t"
    "unat (pgtLen (groups_of st (swIdx (sw_self sw)))) \<le> length t"
  shows "\<exists>st'. sm_routing_func_setup_pgs alloc env sw dst True st = Inr (VSTATUS_OK, st')"
proof (cases "\<not> d_is_switch dst \<or> swIdx (sw_self sw) = d_swIdx dst \<or> \<not> ar_enable env \<or> \<not> arSupport sw \<or>
    length (select_ports env st sw (d_swIdx dst) False) \<le> 1")
  case True
  then show ?thesis by (auto simp: sm_routing_func_setup_pgs_def Let_def)
next
  case False
  let ?pg = "groups_of st (swIdx (sw_self sw))"
  obtain rc pgid len t' where push: "sm_Push_Port_Group t (group_mask (select_ports env st sw (d_swIdx dst) False)) (pgtLen ?pg) (PortGroupCap sw) = (rc, pgid, len, t')"
    by (metis prod_cases4)
  obtain f pg2 where wr: "sm_Node_get_pgft_wr alloc sw (?pg\<lparr>pgt := Some t', pgtLen := len, arChange := arChange ?pg \<or> rc > 0, PortGroupTop := len\<rparr>) = (Some f, pg2)"
    using get_pgft_wr_total[where alloc = alloc, OF assms(1,2)] by blast
  show ?thesis using False assms(3,4) push wr by (simp add: sm_routing_func_setup_pgs_def Let_def)
qed

lemma setup_pgs_step_ok:
  assumes "\<And>k. alloc k" "lp_valid lp" "groups_ready env st sw"
  obtains st' where "setup_pgs_step alloc env sw lp st = Some (Inr (VSTATUS_OK, st'))" "lft st' = lft st"
    "groups_ready env st' sw" "\<And>k. k \<noteq> swIdx (sw_self sw) \<Longrightarrow> groups_of st' k = groups_of st k"
proof (cases "d_is_switch (lp_port lp) \<and> swIdx (sw_self sw) \<noteq> d_swIdx (lp_port lp) \<and> ar_enable env \<and> arSupport sw")
  case False
  then have "setup_pgs_step alloc env sw lp st = Some (Inr (VSTATUS_OK, st))"
    by (auto simp: setup_pgs_step_def sm_routing_func_setup_pgs_def Let_def)
  then show ?thesis using that assms(3) by blast
next
  case True
  let ?i = "swIdx (sw_self sw)" and ?r = "sm_routing_func_setup_pgs alloc env sw (lp_port lp) True st"
  have r: "pg_ok (PortGroupCap sw) (groups_of st ?i)" "IsAdaptiveRoutingSupported sw" using True assms(3) by (auto simp: groups_ready_def)
  obtain t where t: "pgt (groups_of st ?i) = Some t" using True assms(3) by (auto simp: groups_ready_def)
  have len: "unat (pgtLen (groups_of st ?i)) \<le> length t" using r(1) t by (auto simp: pg_ok_def word_le_nat_alt)
  obtain st' where st': "?r = Inr (VSTATUS_OK, st')" using setup_pgs_total[where alloc = alloc, OF assms(1) r(2) t len] by blast
  have p: "pg_ok (PortGroupCap sw) (groups_of st' ?i)" "st' = st\<lparr>groups_of := (groups_of st)(?i := groups_of st' ?i)\<rparr>"
    using setup_pgs_ok[OF st' r(1)] by blast+
  have "groups_ready env st' sw" using p(1) setup_pgs_keeps_pgt[OF st'] t r(2) by (simp add: groups_ready_def)
  moreover have "lft st' = lft st" "\<And>k. k \<noteq> ?i \<Longrightarrow> groups_of st' k = groups_of st k" by (subst p(2), simp)+
  ultimately show ?thesis using that True st' assms(2) by (simp add: setup_pgs_step_def)
qed

lemma run_steps_append:
  "run_steps (fs @ gs) st = (case run_steps fs st of
     Some (Inr (s, st')) \<Rightarrow> if s = VSTATUS_OK then run_steps gs st' else Some (Inr (s, st')) | r \<Rightarrow> r)"
  by (induction fs arbitrary: st) (auto split: option.splits sum.splits prod.splits)

abbreviation sw_idx :: "rt_switch \<Rightarrow> nat" where
  "sw_idx sw \<equiv> swIdx (sw_self sw)"

text \<open>The entries of a switch for a destination are in its table and right.\<close>

definition lft_ok :: "route_env \<Rightarrow> (nat \<Rightarrow> nat \<Rightarrow> nat) \<Rightarrow> route_state \<Rightarrow> lid_port \<Rightarrow> rt_switch \<Rightarrow> bool" where
  "lft_ok env nb st lp sw \<longleftrightarrow> (case lft st (sw_idx sw) of
     None \<Rightarrow> False
   | Some t \<Rightarrow> \<forall>x\<in>set (port_lids (d_lid (lp_port lp)) (d_lmc (lp_port lp))). x < length t \<and> entry_ok env nb (sw_idx sw) (lp_port lp) (t ! x))"

definition table_ready :: "route_env \<Rightarrow> route_state \<Rightarrow> rt_switch \<Rightarrow> bool" where
  "table_ready env st sw \<longleftrightarrow> groups_ready env st sw \<and> (case lft st (sw_idx sw) of None \<Rightarrow> False | Some t \<Rightarrow> LinearFDBTop sw < length t)"

definition fits :: "lid_port \<Rightarrow> rt_switch \<Rightarrow> bool" where
  "fits lp sw \<longleftrightarrow> d_lid (lp_port lp) + 2 ^ d_lmc (lp_port lp) \<le> LinearFDBTop sw + 1"

lemma program_switch_ok:
  assumes "qsort_ok (re_qsort env)" "numbered env (sw_idx sw)" "masks_ok env nb" "sw_idx sw < max_sws env" "\<And>k. alloc k"
    and lp: "dest_ok env nb (lp_port lp)" "lp_valid lp" "fits lp sw" and "table_ready env st sw"
  obtains st' t t' where "program_switch alloc env lp sw st = Some (Inr (VSTATUS_OK, st'))" "table_ready env st' sw" "lft_ok env nb st' lp sw"
    "\<And>k. k \<noteq> sw_idx sw \<Longrightarrow> groups_of st' k = groups_of st k"
    "lft st (sw_idx sw) = Some t" "lft st' = (lft st)(sw_idx sw \<mapsto> t')" "length t' = length t"
    "\<And>x. x < length t \<Longrightarrow> x \<notin> set (port_lids (d_lid (lp_port lp)) (d_lmc (lp_port lp))) \<Longrightarrow> t' ! x = t ! x"
proof -
  let ?d = "lp_port lp"
  let ?ls = "port_lids (d_lid ?d) (d_lmc ?d)"
  obtain t where t: "lft st (sw_idx sw) = Some t" "LinearFDBTop sw < length t" "groups_ready env st sw"
    using assms(9) by (auto simp: table_ready_def split: option.splits)
  obtain ports st1 where x: "sm_routing_func_setup_xft env sw ?d st = Some (Inr (VSTATUS_OK, ports, st1))" "length ports = 2 ^ d_lmc ?d"
      "\<forall>v\<in>set ports. entry_ok env nb (sw_idx sw) ?d v" "lft st1 = lft st" "groups_of st1 = groups_of st"
    by (rule setup_xft_ok[OF assms(1,2) refl assms(3,4) lp(1)])
  have g1: "groups_ready env st1 sw" using t(3) x(5) by (simp add: groups_ready_def)
  obtain st2 where s: "setup_pgs_step alloc env sw lp st1 = Some (Inr (VSTATUS_OK, st2))" "lft st2 = lft st1"
      "groups_ready env st2 sw" "\<And>k. k \<noteq> sw_idx sw \<Longrightarrow> groups_of st2 k = groups_of st1 k"
    using setup_pgs_step_ok[where alloc = alloc, OF assms(5) lp(2) g1] by blast
  have b: "\<forall>l\<in>set ?ls. l < length t \<and> l - d_lid ?d < length ports" using lp(3) t(2) x(2) by (auto simp: port_lids_def fits_def)
  obtain t' where w: "write_lft (d_lid ?d) ports ?ls t = Inr t'" "length t' = length t"
      "\<And>x. x < length t \<Longrightarrow> t' ! x = (if x \<in> set ?ls then ports ! (x - d_lid ?d) else t ! x)"
    using write_lft_ok[OF b] by blast
  define st3 where "st3 = st2\<lparr>lft := (lft st2)(sw_idx sw \<mapsto> t')\<rparr>"
  have "program_switch alloc env lp sw st = Some (Inr (VSTATUS_OK, st3))"
    using x(1,4) s(1,2) w(1) t(1) by (simp add: program_switch_def write_step_def st3_def Let_def)
  moreover have "table_ready env st3 sw" using s(3) w(2) t(2) by (simp add: table_ready_def groups_ready_def st3_def)
  moreover have "lft_ok env nb st3 lp sw" using x(3) w(2,3) b by (auto simp: lft_ok_def st3_def)
  ultimately show ?thesis using that t(1) w(2,3) s(2,4) x(4,5) by (simp add: st3_def)
qed

lemma program_all:
  assumes env: "qsort_ok (re_qsort env)" "masks_ok env nb" "\<And>k. alloc k"
    and sws: "inj_on sw_idx S" "\<forall>sw\<in>S. numbered env (sw_idx sw) \<and> sw_idx sw < max_sws env"
    and lps: "\<forall>lp\<in>L. dest_ok env nb (lp_port lp) \<and> lp_valid lp \<and> (\<forall>sw\<in>S. fits lp sw)"
      "\<forall>lp\<in>L. \<forall>lp'\<in>L. lp \<noteq> lp' \<longrightarrow> set (port_lids (d_lid (lp_port lp)) (d_lmc (lp_port lp))) \<inter> set (port_lids (d_lid (lp_port lp')) (d_lmc (lp_port lp'))) = {}"
    and "set ws \<subseteq> L \<times> S" "D \<subseteq> L \<times> S" "\<forall>sw\<in>S. table_ready env st sw" "\<forall>(lp, sw)\<in>D. lft_ok env nb st lp sw"
  shows "\<exists>st'. run_steps (map (\<lambda>(lp, sw). program_switch alloc env lp sw) ws) st = Some (Inr (VSTATUS_OK, st')) \<and>
    (\<forall>(lp, sw)\<in>D \<union> set ws. lft_ok env nb st' lp sw)"
  using assms(8-11)
proof (induction ws arbitrary: st D)
  case (Cons w ws)
  obtain lp sw where w: "w = (lp, sw)" "lp \<in> L" "sw \<in> S" using Cons.prems(1) by (cases w) auto
  note l = lps(1)[rule_format, OF w(2)]
  let ?ls = "\<lambda>lp. set (port_lids (d_lid (lp_port lp)) (d_lmc (lp_port lp)))"
  obtain st1 t t' where s: "program_switch alloc env lp sw st = Some (Inr (VSTATUS_OK, st1))" "table_ready env st1 sw" "lft_ok env nb st1 lp sw"
      "\<And>k. k \<noteq> sw_idx sw \<Longrightarrow> groups_of st1 k = groups_of st k" "lft st (sw_idx sw) = Some t" "lft st1 = (lft st)(sw_idx sw \<mapsto> t')"
      "length t' = length t" "\<And>x. x < length t \<Longrightarrow> x \<notin> ?ls lp \<Longrightarrow> t' ! x = t ! x"
    using program_switch_ok[where alloc = alloc, OF env(1) _ env(2) _ env(3)] sws(2) l w(3) Cons.prems(3) by metis
  have other: "sw_idx sw' \<noteq> sw_idx sw" if "sw' \<in> S" "sw' \<noteq> sw" for sw' using that w(3) sws(1) by (auto dest: inj_onD)
  have "table_ready env st1 sw'" if "sw' \<in> S" for sw'
    using Cons.prems(3) that s(2,4,6) other[OF that] by (cases "sw' = sw") (auto simp: table_ready_def groups_ready_def)
  moreover have "lft_ok env nb st1 lp' sw'" if d: "(lp', sw') \<in> insert w D" for lp' sw'
  proof (cases "sw' = sw \<and> lp' = lp")
    case False
    then have old: "lft_ok env nb st lp' sw'" "lp' \<in> L" "sw' \<in> S" using Cons.prems(2,4) d w(1) by auto
    show ?thesis
    proof (cases "sw' = sw")
      case True
      have "?ls lp \<inter> ?ls lp' = {}" using lps(2) w(2) old(2) False True by blast
      then show ?thesis using old(1) s(5-8) True by (fastforce simp: lft_ok_def)
    next
      case False
      then show ?thesis using old(1) s(6) other[OF old(3)] by (simp add: lft_ok_def)
    qed
  qed (use s(3) in simp)
  ultimately obtain st' where "run_steps (map (\<lambda>(lp, sw). program_switch alloc env lp sw) ws) st1 = Some (Inr (VSTATUS_OK, st'))"
      "\<forall>(lp, sw)\<in>insert w D \<union> set ws. lft_ok env nb st' lp sw"
    using Cons.IH[of "insert w D" st1] Cons.prems(1,2) w by auto
  then show ?case using s(1) w(1) by auto
qed simp

lemma roundup_ge: "n \<le> ROUNDUP n 64"
  using mult_div_mod_eq[of 64 "n + 63"] mod_less_divisor[of 64 "n + 63"] by (simp add: ROUNDUP_def)

lemma init_all:
  assumes "\<And>k. alloc k" "distinct (map sw_idx sws)" "\<forall>sw\<in>set sws. LinearFDBCap sw \<noteq> 0"
  shows "\<exists>st'. run_steps (map (init_step alloc) sws) st = Some (Inr (VSTATUS_OK, st')) \<and> groups_of st' = groups_of st \<and>
    (\<forall>k. k \<notin> sw_idx ` set sws \<longrightarrow> lft st' k = lft st k) \<and>
    (\<forall>sw\<in>set sws. lft st' (sw_idx sw) = Some (replicate (ROUNDUP (LinearFDBTop sw + 1) 64) 0xff))"
  using assms(2,3)
proof (induction sws arbitrary: st)
  case (Cons sw sws)
  define st1 where "st1 = st\<lparr>lft := (lft st)(sw_idx sw \<mapsto> replicate (ROUNDUP (LinearFDBTop sw + 1) 64) 0xff)\<rparr>"
  have 1: "init_step alloc sw st = Some (Inr (VSTATUS_OK, st1))" using assms(1) Cons.prems(2) by (simp add: init_step_def sm_Node_init_lft_def Let_def st1_def)
  obtain st' where st': "run_steps (map (init_step alloc) sws) st1 = Some (Inr (VSTATUS_OK, st'))" "groups_of st' = groups_of st1"
      "\<forall>k. k \<notin> sw_idx ` set sws \<longrightarrow> lft st' k = lft st1 k"
      "\<forall>sw\<in>set sws. lft st' (sw_idx sw) = Some (replicate (ROUNDUP (LinearFDBTop sw + 1) 64) 0xff)"
    using Cons.IH[of st1] Cons.prems by auto
  have "sw_idx sw \<notin> sw_idx ` set sws" using Cons.prems(1) by simp
  then have "lft st' (sw_idx sw) = Some (replicate (ROUNDUP (LinearFDBTop sw + 1) 64) 0xff)" using st'(3) by (simp add: st1_def)
  moreover have "groups_of st' = groups_of st" "\<forall>k. k \<notin> sw_idx ` set (sw # sws) \<longrightarrow> lft st' k = lft st k" using st'(2,3) by (simp_all add: st1_def)
  ultimately show ?case using 1 st'(1,4) by simp
qed simp

definition programmed :: "(nat \<Rightarrow> lid_port option) \<Rightarrow> nat \<Rightarrow> lid_port list" where
  "programmed lidmap maxLid =
     concat (map (\<lambda>lid. case lidmap lid of None \<Rightarrow> [] | Some lp \<Rightarrow> if programLft lp lid then [lp] else []) [0..<maxLid + 1])"

lemma programmed_lid: "lp \<in> set (programmed lidmap maxLid) \<Longrightarrow> lidmap (d_lid (lp_port lp)) = Some lp"
  by (auto simp: programmed_def programLft_def split: option.splits if_splits)

lemma set_lft_order: "set (lft_order switches lidmap maxLid) = set (programmed lidmap maxLid) \<times> set switches"
  by (fastforce simp: lft_order_def programmed_def split: option.splits if_splits)

lemma all_lfts_ok:
  assumes "qsort_ok (re_qsort env)" "masks_ok env nb" "\<And>k. alloc k"
    and "distinct (map sw_idx switches)" "\<forall>sw\<in>set switches. numbered env (sw_idx sw) \<and> sw_idx sw < max_sws env \<and> LinearFDBCap sw \<noteq> 0 \<and> groups_ready env st sw"
    and "\<forall>lp\<in>set (programmed lidmap maxLid). dest_ok env nb (lp_port lp) \<and> (\<forall>sw\<in>set switches. fits lp sw)"
      "\<forall>lp\<in>set (programmed lidmap maxLid). \<forall>lp'\<in>set (programmed lidmap maxLid). lp \<noteq> lp' \<longrightarrow>
        set (port_lids (d_lid (lp_port lp)) (d_lmc (lp_port lp))) \<inter> set (port_lids (d_lid (lp_port lp')) (d_lmc (lp_port lp'))) = {}"
  shows "\<exists>st'. sm_calculate_all_lfts alloc env switches lidmap maxLid st = Some (Inr (VSTATUS_OK, st')) \<and>
    (\<forall>lp\<in>set (programmed lidmap maxLid). \<forall>sw\<in>set switches. lft_ok env nb st' lp sw)"
proof -
  obtain st1 where i: "run_steps (map (init_step alloc) switches) st = Some (Inr (VSTATUS_OK, st1))" "groups_of st1 = groups_of st"
      "\<forall>sw\<in>set switches. lft st1 (sw_idx sw) = Some (replicate (ROUNDUP (LinearFDBTop sw + 1) 64) 0xff)"
    using init_all[where alloc = alloc and st = st, OF assms(3,4)] assms(5) by blast
  have ready: "\<forall>sw\<in>set switches. table_ready env st1 sw"
  proof
    fix sw assume sw: "sw \<in> set switches"
    have "LinearFDBTop sw < ROUNDUP (LinearFDBTop sw + 1) 64" using roundup_ge[of "LinearFDBTop sw + 1"] by simp
    then show "table_ready env st1 sw" using assms(5) sw i(2,3) by (simp add: table_ready_def groups_ready_def)
  qed
  have valid: "\<forall>lp\<in>set (programmed lidmap maxLid). lp_valid lp" by (auto simp: programmed_def programLft_def split: option.splits if_splits)
  have inj: "inj_on sw_idx (set switches)" using assms(4) by (simp add: distinct_map)
  obtain st' where "run_steps (map (\<lambda>(lp, sw). program_switch alloc env lp sw) (lft_order switches lidmap maxLid)) st1 = Some (Inr (VSTATUS_OK, st'))"
      "\<forall>(lp, sw)\<in>{} \<union> set (lft_order switches lidmap maxLid). lft_ok env nb st' lp sw"
    using program_all[where alloc = alloc and L = "set (programmed lidmap maxLid)" and ws = "lft_order switches lidmap maxLid" and D = "{}",
        OF assms(1,2,3) inj _ _ assms(7) _ _ ready] assms(5,6) valid set_lft_order by auto
  then show ?thesis using i(1) by (auto simp: sm_calculate_all_lfts_def run_steps_append set_lft_order)
qed

section \<open>Tables built on the path matrix of the fabric\<close>

text \<open>Both ends of every cable that the cost matrix was built from are ports of the environment.\<close>

definition wired :: "route_env \<Rightarrow> (nat \<times> sw_port list) list \<Rightarrow> bool" where
  "wired env sws \<longleftrightarrow> list_all (\<lambda>(i, ports). list_all (\<lambda>p. sp_up p \<longrightarrow> (case sp_neighbor p of
     None \<Rightarrow> True
   | Some k \<Rightarrow> leads env i (sp_index p) k \<and> leads env k (sp_portno p) i)) ports) sws"

lemma wired_masks_ok:
  assumes "fabric_ok n nb sws" "\<And>a b. a < n \<Longrightarrow> b < n \<Longrightarrow> path m (a * n + b) = 0" "wired env sws"
    "max_sws env = n" "paths env = path (floyds n n (sm_routing_func_init_cost_matrix_floyds n sws m))"
  shows "masks_ok env nb"
proof -
  define nb' where "nb' = (\<lambda>i p. if leads env i p (nb i p) then nb i p else n)"
  let ?s = "sm_routing_func_init_cost_matrix_floyds n sws m"
  have port: "port_ok n nb' i p" if "port_ok n nb i p"
      "sp_up p \<longrightarrow> (case sp_neighbor p of None \<Rightarrow> True | Some k \<Rightarrow> leads env i (sp_index p) k \<and> leads env k (sp_portno p) i)" for i p
    using that by (auto simp: port_ok_def nb'_def split: option.splits)
  have "fabric_ok n nb' sws" unfolding fabric_ok_def list_all_iff
  proof (clarify, intro conjI)
    fix i ports assume s: "(i, ports) \<in> set sws"
    then show "i < n" using assms(1) by (auto simp: fabric_ok_def list_all_iff)
    show "\<forall>p\<in>set ports. port_ok n nb' i p"
    proof
      fix p assume "p \<in> set ports"
      then show "port_ok n nb' i p" using s assms(1,3) unfolding fabric_ok_def wired_def list_all_iff by (intro port) auto
    qed
  qed
  then have l: "links_ok n nb' ?s" by (rule init_links_ok[OF _ assms(2)])
  have "leads env i p (nb i p)" if "i < n" "j < n" "in_mask p (path (floyds n n ?s) (i * n + j))" for i j p
    using path_invD(1)[OF floyds_result(2)[OF l that(1,2)] that] by (simp add: nb'_def split: if_splits)
  then show ?thesis using assms(4,5) by (simp add: masks_ok_def Index_def)
qed

lemma reachable_dest_ok:
  assumes "fabric_ok n nb sws" "\<And>a b. a < n \<Longrightarrow> b < n \<Longrightarrow> path m (a * n + b) = 0"
    "s = floyds n n (sm_routing_func_init_cost_matrix_floyds n sws m)" "max_sws env = n" "paths env = path s"
    "d_lmc dst \<le> 7" "dest_switch dst = Some j" "j < n" "\<forall>a<n. cost s (a * n + j) < Cost_Infinity"
  shows "dest_ok env nb dst"
proof -
  have l: "links_ok n nb (sm_routing_func_init_cost_matrix_floyds n sws m)" by (rule init_links_ok[OF assms(1,2)])
  have "\<exists>p. in_mask p (path s (i * n + j)) \<and> nb i p \<noteq> i" if i: "i < n" "i \<noteq> j" for i
    using assms(9)[rule_format, OF i(1)] unfolding assms(3)
    by (intro path_invD(2)[OF floyds_result(2)[OF l i(1) assms(8)] i(1) assms(8) i(2)]) (simp add: word_less_nat_alt Cost_Infinity_def)
  then show ?thesis using assms(4-8) by (simp add: dest_ok_def Index_def)
qed

text \<open>A packet for LID \<open>x\<close> leaves switch \<open>i\<close> through this port.\<close>

definition lft_port :: "route_state \<Rightarrow> nat \<Rightarrow> nat \<Rightarrow> u8" where
  "lft_port st x i = the (lft st i) ! x"

lemma lfts_forward:
  assumes "fabric_ok n nb sws" "\<And>a b. a < n \<Longrightarrow> b < n \<Longrightarrow> path m (a * n + b) = 0" "speeds_ok sws"
    "s = floyds n n (sm_routing_func_init_cost_matrix_floyds n sws m)" "max_sws env = n" "paths env = path s"
    "sw_idx ` set switches = {..<n}" "\<forall>sw\<in>set switches. lft_ok env nb st lp sw" "x \<in> set (port_lids (d_lid (lp_port lp)) (d_lmc (lp_port lp)))"
    "dest_switch (lp_port lp) = Some j" "j < n" "a < n" "cost s (a * n + j) < Cost_Infinity"
  shows "last (forward nb (\<lambda>i. unat (lft_port st x i)) j (unat (cost s (a * n + j))) a) = j"
    "walk_cost (weight n (sm_routing_func_init_cost_matrix_floyds n sws m)) (forward nb (\<lambda>i. unat (lft_port st x i)) j (unat (cost s (a * n + j))) a) =
       unat (cost s (a * n + j))"
    "lft_port st x j = d_portno (lp_port lp)"
proof -
  let ?s = "sm_routing_func_init_cost_matrix_floyds n sws m"
  have l: "links_ok n nb ?s" by (rule init_links_ok[OF assms(1,2)])
  have r: "unat (cost s (a * n + j)) = fw (weight n ?s) n a j" unfolding assms(4) by (rule floyds_result(1)[OF l assms(12,11)])
  have e: "entry_ok env nb i (lp_port lp) (lft_port st x i)" if "i < n" for i
  proof -
    have "i \<in> sw_idx ` set switches" using that assms(7) by simp
    then obtain sw where "sw \<in> set switches" "sw_idx sw = i" by blast
    then show ?thesis using assms(8,9) by (auto simp: lft_ok_def lft_port_def split: option.splits)
  qed
  have f: "in_mask (unat (lft_port st x i)) (path (floyds n n ?s) (i * n + j)) \<and> nb i (unat (lft_port st x i)) \<noteq> i" if "i < n" "i \<noteq> j" for i
    using e[OF that(1)] that(2) assms(4-6,10) by (simp add: entry_ok_def Index_def)
  have "fw (weight n ?s) n a j < 32767" using assms(13) r by (simp add: word_less_nat_alt Cost_Infinity_def)
  then have "last (forward nb (\<lambda>i. unat (lft_port st x i)) j (fw (weight n ?s) n a j) a) = j \<and>
      walk_cost (weight n ?s) (forward nb (\<lambda>i. unat (lft_port st x i)) j (fw (weight n ?s) n a j) a) = fw (weight n ?s) n a j"
    using f by (intro forward_reaches[OF l assms(11) init_weight_pos[OF assms(3)] _ assms(12)]) auto
  then show "last (forward nb (\<lambda>i. unat (lft_port st x i)) j (unat (cost s (a * n + j))) a) = j"
    "walk_cost (weight n ?s) (forward nb (\<lambda>i. unat (lft_port st x i)) j (unat (cost s (a * n + j))) a) = unat (cost s (a * n + j))"
    unfolding r by blast+
  show "lft_port st x j = d_portno (lp_port lp)" using e[OF assms(11)] assms(10) by (simp add: entry_ok_def)
qed

section \<open>An example\<close>

text \<open>Three switches and an end node with LIDs 4 and 5 on port 7 of switch 1.\<close>

definition three_port :: "nat \<Rightarrow> nat \<Rightarrow> out_port option" where
  "three_port i p = (if i < 3 \<and> (p = 1 \<or> p = 2)
     then Some \<lparr>op_index = p, op_valid = True, op_state = 4,
       op_next = Some \<lparr>swIdx = ex_nb i p, NodeGUID = of_nat (ex_nb i p) + 1, SystemImageGUID = 0, numLidsRouted = 0\<rparr>,
       op_uplink = False, op_getSpeed = 100, op_portSpeed = 100, op_lidsRouted = 0\<rparr>
     else None)"

definition three_matrix :: matrices where
  "three_matrix = floyds 3 3 (sm_routing_func_init_cost_matrix_floyds 3 ex_sws ex_empty)"

definition three_env :: route_env where
  "three_env = \<lparr>max_sws = 3, paths = path three_matrix, sw_port_at = three_port, edge_ports = (\<lambda>_. []), re_qsort = insertion_qsort,
     spine_first_routing = False, ar_enable = False\<rparr>"

definition three_switch :: "nat \<Rightarrow> rt_switch" where
  "three_switch i = \<lparr>sw_self = \<lparr>swIdx = i, NodeGUID = of_nat i + 1, SystemImageGUID = 0, numLidsRouted = 0\<rparr>, internalLinks = False,
     edgeSwitch = (i = 1), LinearFDBCap = 64, LinearFDBTop = 5, arSupport = False, IsAdaptiveRoutingSupported = False, PortGroupCap = 0, PortGroupFDBCap = 0\<rparr>"

definition three_lidmap :: "nat \<Rightarrow> lid_port option" where
  "three_lidmap lid = (if lid = 4 \<or> lid = 5
     then Some \<lparr>lp_port = \<lparr>d_is_switch = False, d_swIdx = 0, d_neighbor = Some 1, d_portno = 7, d_lid = 4, d_lmc = 1\<rparr>, lp_valid = True, lp_state = 4\<rparr>
     else None)"

lemma three_reach: "\<forall>a<3. cost three_matrix (a * 3 + 1) < Cost_Infinity"
proof -
  let ?s = "sm_routing_func_init_cost_matrix_floyds 3 ex_sws ex_empty"
  have l: "links_ok 3 ex_nb ?s" by (rule init_links_ok[OF ex_fabric(1) ex_empty_path])
  have "cost three_matrix (a * 3 + 1) < Cost_Infinity" if "a < 3" for a
  proof -
    have "a = 0 \<or> a = 1 \<or> a = 2" using that by auto
    then have "weight 3 ?s a 1 \<le> 12"
      by (elim disjE) (simp_all add: weight_def sm_routing_func_init_cost_matrix_floyds_def clear_diagonal_def add_links_def ex_sws_def
        ex_port_def add_port_def Index_def SpeedWidth_to_Cost_def numeral_3_eq_3)
    moreover have "fw (weight 3 ?s) 3 a 1 \<le> weight 3 ?s a 1" using fw_mono_le[of 0 3 "weight 3 ?s" a 1] by simp
    moreover have "unat (cost three_matrix (a * 3 + 1)) = fw (weight 3 ?s) 3 a 1" unfolding three_matrix_def by (rule floyds_result(1)[OF l that]) simp
    ultimately show ?thesis by (simp add: word_less_nat_alt Cost_Infinity_def)
  qed
  then show ?thesis by blast
qed

end
