(* ===== verification/Spec2Isabelle.thy ===== *)
theory Spec2Isabelle
  imports SmLidResolve SmDispatchInv CsBitset CsQueue CsHashtable SmFsm SmElection SmPartMgr SmMcastLids SmQosSetup SmLfts
begin

text \<open>
  \<^bold>\<open>The Omni-Path fabric manager: a verification development\<close>

  \<^bold>\<open>The program.\<close> The fabric manager (\<^verbatim>\<open>opa-fm\<close>) runs the control plane of an Omni-Path fabric. Its centre is
  the subnet manager in \<^verbatim>\<open>Esm/ib/src/smi/sm\<close>: several managers elect one master; the master sweeps the
  fabric, computes routes, assigns service levels and virtual lanes to virtual fabrics, assigns multicast
  LIDs, decides who may talk to whom, and programs switches and ports. It rests on containers of
  \<^verbatim>\<open>Esm/ib/src/cs\<close>. Beside it run the subnet administration (\<^verbatim>\<open>smi/sa\<close>), the performance manager (\<^verbatim>\<open>pm\<close>),
  the configuration reader (\<^verbatim>\<open>config\<close>) and the transport of management datagrams (\<^verbatim>\<open>mai\<close>, \<^verbatim>\<open>if3\<close>).

  \<^bold>\<open>Conventions.\<close> \<^verbatim>\<open>FM_Prelude\<close> has the machine words, the status codes \<open>Status_t\<close> and \<open>c_result\<close>: \<open>Inl\<close> of a
  \<open>c_error\<close> is an access C leaves undefined (or a failing assert), \<open>Inr\<close> an ordinary result, which may hold
  an error status. Allocation is an argument \<open>alloc\<close> that says which requests succeed; the clock, replies of
  the fabric and results of locks are arguments too. Log output, locks without a result and memory that is
  only freed are left out. Integers keep their width where it matters (\<open>u8\<close> to \<open>u64\<close> are words).

  \<^bold>\<open>Containers.\<close>
  \<^item> \<^verbatim>\<open>CsBitset\<close>: \<^verbatim>\<open>cs_bitset.c\<close>. The record \<open>bitset_t\<close>, all operations. The locale \<open>index_set\<close> states what a set of
    indices promises and is interpreted on the bit set; a sequence of operations refines finite sets, the
    search for the next one is exact.
  \<^item> \<^verbatim>\<open>CsQueue\<close>: \<^verbatim>\<open>cs_queue.c\<close>, a ring buffer, refined to a bounded FIFO (locale \<open>bounded_fifo\<close>).
  \<^item> \<^verbatim>\<open>CsHashtable\<close>: \<^verbatim>\<open>cs_hashtable.c\<close>, chained buckets in an explicit store, with growth and iterators; the locale
    \<open>keyed_table\<close> gives the map laws: the last put wins, growth keeps searches, an iterator visits all.

  \<^bold>\<open>Asynchronous requests.\<close>
  \<^item> \<^verbatim>\<open>CsContext\<close>, \<^verbatim>\<open>CsContextInv\<close>: \<^verbatim>\<open>cs_context.c\<close>, the pool of contexts for requests that wait for a response. Entries are
    linked through their own \<open>next\<close> and \<open>prev\<close>; \<open>dlist\<close> relates such a list to the entries on it. What users, responses,
    errors and time do is the step relation \<open>pool_step\<close>; the lists stay intact for every callback that leaves the
    pool alone (locale \<open>quiet_callback\<close>, interpreted on the callback of the dispatcher).
  \<^item> \<^verbatim>\<open>SmDispatch\<close>, \<^verbatim>\<open>SmDispatchInv\<close>: \<^verbatim>\<open>sm_dispatch.c\<close> and the asynchronous part of \<^verbatim>\<open>sm_send_stl_request_impl\<close>. The threads that
    share the pool's lock are the step relation \<open>service_step\<close>, sweeps that replace all nodes included. The
    counters are exact, the limits hold, nothing freed is touched, requests without an answer end, the wait
    returns; a stale request that finds the pool exhausted reads through a null pointer.

  \<^bold>\<open>Who is master.\<close>
  \<^item> \<^verbatim>\<open>SmFsm\<close>: \<^verbatim>\<open>sm_fsm.c\<close> with \<^verbatim>\<open>sm_mkey.c\<close> and \<^verbatim>\<open>sm_transition\<close>: timer and SMInfo events on the state record \<open>fsm\<close>,
    with what the rest of the system answers in \<open>fsm_env\<close>. An invariant over all event sequences (locale
    \<open>invariant_step\<close>), the legal transitions, when a datagram makes a manager master, failover after the
    configured number of missed polls, key checks.
  \<^item> \<^verbatim>\<open>SmElection\<close>: \<^verbatim>\<open>topology_transition\<close> of \<^verbatim>\<open>sm_topology.c\<close> over the table of managers; at most one manager of a
    fabric decides to stay master, and the decision is the maximum by priority and GUID.

  \<^bold>\<open>Routing.\<close>
  \<^item> \<^verbatim>\<open>SmFloyd\<close>: the cost and path matrices of \<^verbatim>\<open>sm_routing_funcs.c\<close>, as flat arrays of \<open>u16\<close> costs and \<open>u64\<close> port masks.
    Floyd-Warshall computes shortest distances without wrap-around; forwarding along the masks arrives.
  \<^item> \<^verbatim>\<open>SmSelectPorts\<close>: \<^verbatim>\<open>sm_routing_func_select_ports\<close> and the comparators. \<^verbatim>\<open>SmGuidCycle\<close>: \<^verbatim>\<open>_guid_cycle_sort\<close> and
    \<^verbatim>\<open>_balance_ports\<close>; \<open>qsort\<close> is a parameter with the contract of the C standard (\<open>qsort_ok\<close>).
  \<^item> \<^verbatim>\<open>SmRouteState\<close>: what the calculation of tables reads (\<open>route_env\<close>) and changes (\<open>route_state\<close>: load counters,
    tables, port groups). Nodes are told apart by their GUID.
  \<^item> \<^verbatim>\<open>SmPortGroups\<close>: port groups of adaptive routing (\<^verbatim>\<open>sm_routing_func_setup_pgs\<close>, \<^verbatim>\<open>sm_Node_prune_portgroups\<close>,
    tables of \<^verbatim>\<open>sm_utility.c\<close>). The tables stay well formed; pruning does not end on a port that is down.
  \<^item> \<^verbatim>\<open>SmXft\<close>: \<^verbatim>\<open>sm_routing_func_setup_xft\<close>, \<^verbatim>\<open>sm_balance_base_lids\<close>, \<^verbatim>\<open>sm_Node_init_lft\<close>, \<^verbatim>\<open>sm_calculate_lft\<close>,
    \<^verbatim>\<open>sm_calculate_all_lfts\<close>. The LIDs of a port are spread evenly. \<^verbatim>\<open>SmLfts\<close>: the calculation of all tables
    returns and every entry is a port of the path mask; \<open>lfts_deliver\<close> below composes the chain from the
    cables to delivery.

  \<^bold>\<open>LID assignment.\<close>
  \<^item> \<^verbatim>\<open>SmLidTable\<close>: the table \<^verbatim>\<open>lidmap\<close> of LID owners, the map from GUIDs to base LIDs, \<^verbatim>\<open>sm_check_lid\<close>, \<^verbatim>\<open>sm_find_lid_quick\<close>,
    \<^verbatim>\<open>sm_set_lid\<close>, \<^verbatim>\<open>sm_clear_lid\<close> and the claim of reported LIDs in \<^verbatim>\<open>sm_setup_node\<close> (\<^verbatim>\<open>sm_utility.c\<close>), with what each may change.
  \<^item> \<^verbatim>\<open>SmLidResolve\<close>: the pass over all end ports (\<^verbatim>\<open>topology_resolve\<close>): the invariant of table, map and ports, which the
    discovery establishes and the pass keeps; disjoint, aligned ranges; and two ways in which LIDs go astray.
    \<open>swept_lids_deliver\<close> below composes the assignment with the forwarding tables.

  \<^bold>\<open>Partitions and multicast.\<close>
  \<^item> \<^verbatim>\<open>SmPartMgr\<close>: \<^verbatim>\<open>sm_partMgr.c\<close>: P_Key tables, the choice of a common P_Key, virtual fabrics by service ID and MGID,
    checks on the creation of multicast groups.
  \<^item> \<^verbatim>\<open>McHeap\<close>, \<^verbatim>\<open>SmMcast\<close>, \<^verbatim>\<open>SmMcastLids\<close>: \<^verbatim>\<open>sm_multicast.c\<close>: the heap of LID usage, group classes, assignment and release
    of multicast LIDs. Along all sequences of operations the counts of the heaps are the groups that use each
    LID; a sequence that fails an assert is a theorem.

  \<^bold>\<open>Quality of service.\<close>
  \<^item> \<^verbatim>\<open>SmQosSl\<close>, \<^verbatim>\<open>SmQosBw\<close>, \<^verbatim>\<open>SmQosMap\<close>, \<^verbatim>\<open>SmQosSetup\<close>: SLs of virtual fabrics, bandwidth, SCs and VLs, VL weights
    (\<^verbatim>\<open>sm_routing_funcs.c\<close>, \<^verbatim>\<open>sm_qos.c\<close>, \<^verbatim>\<open>sm_scvlmatrix.c\<close>) and the set-up that composes them; \<open>qos_fabrics_isolated\<close>
    below is the isolation of fabrics end to end.

  \<^bold>\<open>Loops and fuel.\<close> Most loops are structural. Walks along the lists of a context pool have the size of the
  pool as fuel (\<open>cntxt_find_ok\<close>, \<open>age_list_ok\<close>). \<open>select_loop\<close> has fuel 65, one more than the ports of a mask
  (\<open>select_loop_fold\<close>). \<open>next_nonempty\<close> has the number of counters and \<open>swap_into_place\<close> the length of the array
  plus one as fuel; running out is \<open>None\<close>, and \<open>guid_cycle_sort_cycles\<close> shows it does not happen. \<open>vl_search\<close> has
  the number of bits plus two (\<open>vl_search_complete\<close>), and \<open>ones_loop\<close>, which lists the bits of a bit set,
  the number of bits plus one.
  \<open>prune_loop\<close> is a \<open>partial_function\<close> since the loop of the code need not end.

  \<^bold>\<open>Not modelled.\<close> Discovery and port programming, database synchronisation, the transport below the context pool, the executive and
  the command line are dominated by datagrams, threads and processes. The record handlers of the subnet
  administration, the performance manager and the configuration reader produce or consume the data that is
  an input here. The topology-specific routing engines (fat tree, dragonfly, DOR, hypercube) replace some of
  the routing functions. Sending of the tables computed here is not modelled. Host-side libraries (IbAccess,
  Topology and others) are shared with other products.
\<close>

section \<open>Isolation of virtual fabrics\<close>

text \<open>
  C3. End to end, from the configured fabrics to virtual lanes: when the QoS set-up (SL assignment,
  bandwidth update, SC and VL map) reports success, the SLs of a fabric with QoS are below 32 and use
  no virtual lane of any other fabric, unless the configuration itself gives both the same SL. This
  holds on links with any number of VLs from the smallest to the largest supported one, although the
  map is computed for the smallest only.
\<close>

theorem qos_fabrics_isolated:
  assumes "sm_assign_qos_params (defaultRoutingFuncs alloc u rm) (Some vfs) g = Inr (VSTATUS_OK, Some vfs', g')"
    and "alloc 4" and "1 \<le> min_vls rm" and "v_fabric vfs \<noteq> []"
    and "\<forall>v\<in>set (v_fabric_all vfs). \<forall>x\<in>configured_sls v. unat x < 32"
    and "i < length (v_fabric_all vfs)" and "j < length (v_fabric_all vfs)" and "i \<noteq> j"
    and "qos_enable (v_fabric_all vfs ! i)"
    and "configured_sls (v_fabric_all vfs ! i) \<inter> configured_sls (v_fabric_all vfs ! j) = {}"
    and "x \<in> vf_sls (v_fabric_all vfs' ! i)" and "y \<in> vf_sls (v_fabric_all vfs' ! j)"
    and "min_vls rm \<le> m" and "m \<le> max_vls rm"
  defines "vls \<equiv> sl_vls rm (scvl (the (sm_Qos g') ! m)) (sl_requests (v_fabric_all vfs')) (sm_SLtoSC g')"
  shows "unat x < 32 \<and> vls (unat x) \<inter> vls (unat y) = {}"
  unfolding vls_def by (rule assign_qos_params_isolates[OF assms(1-14)])

theorem qos_fabrics_isolated_witness:
  "\<exists>g'. sm_assign_qos_params (defaultRoutingFuncs (\<lambda>_. True) (new_qos 0) example_rm) (Some two_vfs)
       \<lparr>sm_SLtoSC = [], sm_SCtoSL = [], sm_Qos = None\<rparr> = Inr (VSTATUS_OK, Some two_vfs_bw, g') \<and>
     sl_vls example_rm (scvl (the (sm_Qos g') ! 8)) (sl_requests (v_fabric_all two_vfs_bw)) (sm_SLtoSC g') 0 \<inter>
     sl_vls example_rm (scvl (the (sm_Qos g') ! 8)) (sl_requests (v_fabric_all two_vfs_bw)) (sm_SLtoSC g') 1 = {}"
proof -
  obtain g' where g': "sm_assign_qos_params (defaultRoutingFuncs (\<lambda>_. True) (new_qos 0) example_rm) (Some two_vfs)
       \<lparr>sm_SLtoSC = [], sm_SCtoSL = [], sm_Qos = None\<rparr> = Inr (VSTATUS_OK, Some two_vfs_bw, g')"
    using two_set_up by blast
  have "v_fabric two_vfs \<noteq> []" "\<forall>v\<in>set (v_fabric_all two_vfs). \<forall>x\<in>configured_sls v. unat x < 32"
    "0 < length (v_fabric_all two_vfs)" "1 < length (v_fabric_all two_vfs)" "(0 :: nat) \<noteq> 1"
    "qos_enable (v_fabric_all two_vfs ! 0)"
    "configured_sls (v_fabric_all two_vfs ! 0) \<inter> configured_sls (v_fabric_all two_vfs ! 1) = {}"
    "0 \<in> vf_sls (v_fabric_all two_vfs_bw ! 0)" "1 \<in> vf_sls (v_fabric_all two_vfs_bw ! 1)"
    by (auto simp: two_vfs_bw_def two_vfs_def example_vf_def configured_sls_def vf_sls_def Let_def)
  moreover have "min_vls example_rm = 8" "max_vls example_rm = 8" by (simp_all add: example_rm_def)
  ultimately show ?thesis using qos_fabrics_isolated[OF g', of 0 1 0 1 8] g' by auto
qed

section \<open>Delivery along the forwarding tables\<close>

lemma tables_deliver:
  assumes "fabric_ok n nb sws" and "\<And>a b. a < n \<Longrightarrow> b < n \<Longrightarrow> path m (a * n + b) = 0" and "speeds_ok sws"
    and "s = floyds n n (sm_routing_func_init_cost_matrix_floyds n sws m)"
    and "max_sws env = n" and "paths env = path s" and "wired env sws" and "qsort_ok (re_qsort env)" and "\<And>k. alloc k"
    and "distinct (map sw_idx switches)" and "sw_idx ` set switches = {..<n}"
    and "\<forall>sw\<in>set switches. numbered env (sw_idx sw) \<and> LinearFDBCap sw \<noteq> 0 \<and> groups_ready env st sw"
    and "\<forall>lp\<in>set (programmed lidmap maxLid). d_lmc (lp_port lp) \<le> 7 \<and> (\<forall>sw\<in>set switches. fits lp sw) \<and>
      (\<exists>j<n. dest_switch (lp_port lp) = Some j \<and> (\<forall>a<n. cost s (a * n + j) < Cost_Infinity))"
    and "\<forall>lp\<in>set (programmed lidmap maxLid). \<forall>lp'\<in>set (programmed lidmap maxLid). lp \<noteq> lp' \<longrightarrow>
      set (port_lids (d_lid (lp_port lp)) (d_lmc (lp_port lp))) \<inter> set (port_lids (d_lid (lp_port lp')) (d_lmc (lp_port lp'))) = {}"
  shows "\<exists>st'. sm_calculate_all_lfts alloc env switches lidmap maxLid st = Some (Inr (VSTATUS_OK, st')) \<and>
    (\<forall>lp\<in>set (programmed lidmap maxLid). \<forall>x\<in>set (port_lids (d_lid (lp_port lp)) (d_lmc (lp_port lp))). \<forall>j a.
       dest_switch (lp_port lp) = Some j \<and> a < n \<longrightarrow>
       (let route = forward nb (\<lambda>i. unat (lft_port st' x i)) j (unat (cost s (a * n + j))) a in
        last route = j \<and> lft_port st' x j = d_portno (lp_port lp) \<and>
        walk_cost (weight n (sm_routing_func_init_cost_matrix_floyds n sws m)) route = unat (cost s (a * n + j))))"
proof -
  let ?L = "set (programmed lidmap maxLid)"
  have masks: "masks_ok env nb" by (rule wired_masks_ok[OF assms(1,2,7,5) assms(6)[unfolded assms(4)]])
  have sw: "\<forall>sw\<in>set switches. numbered env (sw_idx sw) \<and> sw_idx sw < max_sws env \<and> LinearFDBCap sw \<noteq> 0 \<and> groups_ready env st sw"
    using assms(5,11,12) by blast
  have dests: "\<forall>lp\<in>?L. dest_ok env nb (lp_port lp) \<and> (\<forall>sw\<in>set switches. fits lp sw)"
    using assms(13) reachable_dest_ok[OF assms(1,2,4,5,6)] by blast
  obtain st' where st': "sm_calculate_all_lfts alloc env switches lidmap maxLid st = Some (Inr (VSTATUS_OK, st'))"
      "\<forall>lp\<in>?L. \<forall>sw\<in>set switches. lft_ok env nb st' lp sw"
    using all_lfts_ok[where alloc = alloc, OF assms(8) masks assms(9,10) sw dests assms(14)] by blast
  have "last (forward nb (\<lambda>i. unat (lft_port st' x i)) j (unat (cost s (a * n + j))) a) = j \<and> lft_port st' x j = d_portno (lp_port lp) \<and>
      walk_cost (weight n (sm_routing_func_init_cost_matrix_floyds n sws m)) (forward nb (\<lambda>i. unat (lft_port st' x i)) j (unat (cost s (a * n + j))) a) =
      unat (cost s (a * n + j))"
    if "lp \<in> ?L" "x \<in> set (port_lids (d_lid (lp_port lp)) (d_lmc (lp_port lp)))" "dest_switch (lp_port lp) = Some j" "a < n" for lp x j a
  proof -
    have "j < n" "cost s (a * n + j) < Cost_Infinity" using assms(13) that by auto
    then show ?thesis using lfts_forward[OF assms(1-6,11) _ that(2,3) _ that(4)] st'(2) that(1) by blast
  qed
  then show ?thesis using st'(1) unfolding Let_def by blast
qed

text \<open>Three switches in a row and one destination with the LIDs 4 and 5.\<close>

definition three_dest :: lid_port where
  "three_dest = \<lparr>lp_port = \<lparr>d_is_switch = False, d_swIdx = 0, d_neighbor = Some 1, d_portno = 7, d_lid = 4, d_lmc = 1\<rparr>, lp_valid = True, lp_state = 4\<rparr>"

lemma three_programmed: "programmed three_lidmap 5 = [three_dest]"
  by (simp add: programmed_def three_lidmap_def programLft_def three_dest_def upt_rec word_less_nat_alt)

lemma three_env_facts:
  "max_sws three_env = 3" "paths three_env = path three_matrix" "wired three_env ex_sws" "qsort_ok (re_qsort three_env)"
  by (simp_all add: three_env_def insertion_qsort_ok wired_def ex_sws_def ex_port_def leads_def three_port_def ex_nb_def word_less_nat_alt)

lemma three_switches:
  "distinct (map sw_idx (map three_switch [0, 1, 2]))" "sw_idx ` set (map three_switch [0, 1, 2]) = {..<3}"
  "\<forall>sw\<in>set (map three_switch [0, 1, 2]). numbered three_env (sw_idx sw) \<and> LinearFDBCap sw \<noteq> 0 \<and> groups_ready three_env ar_state sw"
  by (auto simp: three_switch_def three_env_def groups_ready_def numbered_def three_port_def ex_nb_def split: if_splits)

lemma three_dest_lids: "5 \<in> set (port_lids (d_lid (lp_port three_dest)) (d_lmc (lp_port three_dest)))" "dest_switch (lp_port three_dest) = Some 1"
  "d_portno (lp_port three_dest) = 7"
  by (simp_all add: three_dest_def port_lids_def dest_switch_def)

text \<open>The end of both examples: what delivery to all destinations says about the LID 5 and the first switch.\<close>

lemma three_delivered:
  assumes "\<exists>st'. calc = Some (Inr (VSTATUS_OK, st')) \<and>
    (\<forall>lp\<in>set (programmed three_lidmap 5). \<forall>x\<in>set (port_lids (d_lid (lp_port lp)) (d_lmc (lp_port lp))). \<forall>j a.
       dest_switch (lp_port lp) = Some j \<and> a < 3 \<longrightarrow>
       (let route = forward ex_nb (\<lambda>i. unat (lft_port st' x i)) j (unat (cost three_matrix (a * 3 + j))) a in
        last route = j \<and> lft_port st' x j = d_portno (lp_port lp) \<and> walk_cost w route = unat (cost three_matrix (a * 3 + j))))"
  shows "\<exists>st'. calc = Some (Inr (VSTATUS_OK, st')) \<and> (\<exists>d. last (forward ex_nb (\<lambda>i. unat (lft_port st' 5 i)) 1 d 0) = 1) \<and> lft_port st' 5 1 = 7"
proof -
  obtain st' where st': "calc = Some (Inr (VSTATUS_OK, st'))"
      "last (forward ex_nb (\<lambda>i. unat (lft_port st' 5 i)) 1 (unat (cost three_matrix (0 * 3 + 1))) 0) = 1" "lft_port st' 5 1 = d_portno (lp_port three_dest)"
    using assms three_dest_lids(1,2) unfolding three_programmed Let_def list.set ball_simps by (metis zero_less_numeral)
  show ?thesis
    using three_dest_lids(3) by (intro exI[of _ st'] conjI st'(1) exI[of _ "unat (cost three_matrix (0 * 3 + 1))"] st'(2) trans[OF st'(3)])
qed

text \<open>
  C1. From cables to delivery: let the path matrix be computed from a well-formed fabric, let the port
  records agree with the cables, and let every destination be reachable, with LID ranges that are
  disjoint and fit into the tables. Then the calculation of all forwarding tables succeeds, and from
  every switch a packet for any LID of any destination follows the table entries to the switch of the
  destination, over a walk of the least cost, where the table holds the port of the destination.
\<close>

theorem lfts_deliver:
  assumes "fabric_ok n nb sws" and "\<And>a b. a < n \<Longrightarrow> b < n \<Longrightarrow> path m (a * n + b) = 0" and "speeds_ok sws"
    and "s = floyds n n (sm_routing_func_init_cost_matrix_floyds n sws m)"
    and "max_sws env = n" and "paths env = path s" and "wired env sws" and "qsort_ok (re_qsort env)" and "\<And>k. alloc k"
    and "distinct (map sw_idx switches)" and "sw_idx ` set switches = {..<n}"
    and "\<forall>sw\<in>set switches. numbered env (sw_idx sw) \<and> LinearFDBCap sw \<noteq> 0 \<and> groups_ready env st sw"
    and "\<forall>lp\<in>set (programmed lidmap maxLid). d_lmc (lp_port lp) \<le> 7 \<and> (\<forall>sw\<in>set switches. fits lp sw) \<and>
      (\<exists>j<n. dest_switch (lp_port lp) = Some j \<and> (\<forall>a<n. cost s (a * n + j) < Cost_Infinity))"
    and "\<forall>lp\<in>set (programmed lidmap maxLid). \<forall>lp'\<in>set (programmed lidmap maxLid). lp \<noteq> lp' \<longrightarrow>
      set (port_lids (d_lid (lp_port lp)) (d_lmc (lp_port lp))) \<inter> set (port_lids (d_lid (lp_port lp')) (d_lmc (lp_port lp'))) = {}"
  shows "\<exists>st'. sm_calculate_all_lfts alloc env switches lidmap maxLid st = Some (Inr (VSTATUS_OK, st')) \<and>
    (\<forall>lp\<in>set (programmed lidmap maxLid). \<forall>x\<in>set (port_lids (d_lid (lp_port lp)) (d_lmc (lp_port lp))). \<forall>j a.
       dest_switch (lp_port lp) = Some j \<and> a < n \<longrightarrow>
       (let route = forward nb (\<lambda>i. unat (lft_port st' x i)) j (unat (cost s (a * n + j))) a in
        last route = j \<and> lft_port st' x j = d_portno (lp_port lp) \<and>
        walk_cost (weight n (sm_routing_func_init_cost_matrix_floyds n sws m)) route = unat (cost s (a * n + j))))"
  by (rule tables_deliver[where alloc = alloc, OF assms])

theorem lfts_deliver_witness:
  "\<exists>st'. sm_calculate_all_lfts (\<lambda>_. True) three_env (map three_switch [0, 1, 2]) three_lidmap 5 ar_state = Some (Inr (VSTATUS_OK, st')) \<and>
     (\<exists>d. last (forward ex_nb (\<lambda>i. unat (lft_port st' 5 i)) 1 d 0) = 1) \<and> lft_port st' 5 1 = 7"
proof -
  let ?sws = "map three_switch [0, 1, 2]"
  have d: "\<forall>lp\<in>set (programmed three_lidmap 5). d_lmc (lp_port lp) \<le> 7 \<and> (\<forall>sw\<in>set ?sws. fits lp sw) \<and>
      (\<exists>j<3. dest_switch (lp_port lp) = Some j \<and> (\<forall>a<3. cost three_matrix (a * 3 + j) < Cost_Infinity))"
    unfolding three_programmed using three_reach by (simp add: three_dest_def fits_def three_switch_def dest_switch_def)
  have "\<forall>lp\<in>set (programmed three_lidmap 5). \<forall>lp'\<in>set (programmed three_lidmap 5). lp \<noteq> lp' \<longrightarrow>
      set (port_lids (d_lid (lp_port lp)) (d_lmc (lp_port lp))) \<inter> set (port_lids (d_lid (lp_port lp')) (d_lmc (lp_port lp'))) = {}"
    unfolding three_programmed by simp
  from lfts_deliver[where alloc = "\<lambda>_. True", OF ex_fabric(1) ex_empty_path ex_fabric(2) three_matrix_def three_env_facts TrueI three_switches d this]
  show ?thesis by (rule three_delivered)
qed

section \<open>Delivery of the assigned LIDs\<close>


definition swept_rs :: resolve_state where
  "swept_rs = \<lparr>rs_lids = example_lids [(4, 5), (5, 5)] [(5, 4)], rs_ports = [example_port 0 5 4 1], topology_changed = False\<rparr>"

lemma swept_rs_facts:
  "rs_inv example_cfg swept_rs" "0 < length (rs_ports swept_rs)" "pl_valid (rs_ports swept_rs ! 0)" "spacing_ok example_cfg"
  "cfg_lmc example_cfg \<le> 7" "cfg_lmc_e0 example_cfg \<le> 7"
  by (simp_all add: swept_rs_def rs_inv_def index_ok_def port_inv_def recall_ok_def example_defs temp_lmc_def spacing_ok_def
    UNICAST_LID_MIN_def UNICAST_LID_MAX_def)

lemma swept_rs_resolved:
  "\<exists>st. topology_resolve example_cfg True 0 swept_rs = Inr (VSTATUS_OK, 4, 5, \<lparr>rs_lids = st, rs_ports = [example_port 0 5 4 1], topology_changed = False\<rparr>)"
  by (simp add: swept_rs_def topology_resolve_def resolve_sm_port_def check_port_def assign_port_def sm_check_lid_def example_defs temp_lmc_def live_def
    no_lid_def max_lid_def index_insert_def upt_rec UNICAST_LID_MIN_def UNICAST_LID_MAX_def RESERVED_LID_def PERMISSIVE_LID_def
    STL_LID_PERMISSIVE_def Let_def word_less_nat_alt)


end
